(* ===== verification/Jos_Prelude.thy ===== *)
theory Jos_Prelude
  imports Main "HOL-Library.Word" "HOL-Library.Monad_Syntax" "HOL-Library.Signed_Division"
begin

text \<open>
  Shared vocabulary of the development: the C integer types as words, the error codes of
  \<^verbatim>\<open>inc/error.h\<close>, the rounding macros of \<^verbatim>\<open>inc/types.h\<close>, NULL-terminated pointer chains and the
  small facts about words, options and sums that several components use.

  Two conventions hold throughout. A C function that reports failure by a negative
  \<open>-E_xxx\<close> returns \<open>jos_error + 'a\<close>. A function that can end in \<open>panic\<close>
  or in a NULL dereference (which the kernel turns into a panic) returns an \<open>option\<close>, with
  \<open>None\<close> for the panic, and is written in the do-notation of the option monad.
\<close>

unbundle bit_operations_syntax

section \<open>Machine integers\<close>

type_synonym u8 = "8 word"
type_synonym u16 = "16 word"
type_synonym u32 = "32 word"
type_synonym u64 = "64 word"

named_theorems kdefs \<open>definitions of the kernel's small accessors and flag constants\<close>
named_theorems frame_simps \<open>state components an operation leaves unchanged\<close>

section \<open>Error codes\<close>

datatype jos_error =
    E_UNSPECIFIED | E_BAD_ENV | E_INVAL | E_NO_MEM | E_NO_FREE_ENV | E_FAULT
  | E_IPC_NOT_RECV | E_EOF | E_TX_FULL | E_PKT_TOO_LONG | E_RX_EMPTY
  | E_NO_DISK | E_MAX_OPEN | E_NOT_FOUND | E_BAD_PATH | E_FILE_EXISTS
  | E_NOT_EXEC | E_NOT_SUPP

fun errcode :: "jos_error \<Rightarrow> nat" where
  "errcode E_UNSPECIFIED = 1"
| "errcode E_BAD_ENV = 2"
| "errcode E_INVAL = 3"
| "errcode E_NO_MEM = 4"
| "errcode E_NO_FREE_ENV = 5"
| "errcode E_FAULT = 6"
| "errcode E_IPC_NOT_RECV = 7"
| "errcode E_EOF = 8"
| "errcode E_TX_FULL = 9"
| "errcode E_PKT_TOO_LONG = 10"
| "errcode E_RX_EMPTY = 11"
| "errcode E_NO_DISK = 12"
| "errcode E_MAX_OPEN = 13"
| "errcode E_NOT_FOUND = 14"
| "errcode E_BAD_PATH = 15"
| "errcode E_FILE_EXISTS = 16"
| "errcode E_NOT_EXEC = 17"
| "errcode E_NOT_SUPP = 18"

definition MAXERROR :: nat where "MAXERROR = 19"

lemma errcode_bounds: "0 < errcode e \<and> errcode e < MAXERROR"
  by (cases e) (simp_all add: MAXERROR_def)

lemma errcode_inj: "errcode e = errcode e' \<Longrightarrow> e = e'"
  by (cases e; cases e') simp_all

section \<open>Rounding\<close>

definition ROUNDDOWN :: "u32 \<Rightarrow> u32 \<Rightarrow> u32" where
  "ROUNDDOWN a n = a - a mod n"

definition ROUNDUP :: "u32 \<Rightarrow> u32 \<Rightarrow> u32" where
  "ROUNDUP a n = ROUNDDOWN (a + n - 1) n"

lemma unat_ROUNDDOWN: "unat (ROUNDDOWN a n) = unat a div unat n * unat n"
proof -
  have "a mod n \<le> a"
    by (simp add: word_le_nat_alt unat_mod)
  then have "unat (a - a mod n) = unat a - unat a mod unat n"
    by (simp add: unat_sub unat_mod)
  then show ?thesis
    by (simp add: ROUNDDOWN_def minus_mod_eq_div_mult)
qed

lemma ROUNDDOWN_le: "ROUNDDOWN a n \<le> a"
  by (simp add: word_le_nat_alt unat_ROUNDDOWN)

lemma unat_lt_exp: "unat (x :: 'a::len word) < 2 ^ LENGTH('a)"
  by (rule unsigned_less)

lemma unat_u32_lt [simp]: "unat (x :: u32) < 4294967296"
  using unat_lt_exp [of x] by simp

lemma unat_of_nat_lt: "n < 4294967296 \<Longrightarrow> unat (word_of_nat n :: u32) = n"
  by (simp add: unat_of_nat)

lemma unat_add_no_wrap:
  fixes a b :: "'a::len word"
  assumes "unat a + unat b < 2 ^ LENGTH('a)"
  shows "unat (a + b) = unat a + unat b"
  using assms by (simp add: unat_word_ariths)

lemma unat_ROUNDUP:
  assumes "0 < unat n" and "unat a + unat n - 1 < 2 ^ 32"
  shows "unat (ROUNDUP a n) = (unat a + unat n - 1) div unat n * unat n"
proof -
  have n1: "unat (n - 1) = unat n - 1"
    using assms(1) by (metis One_nat_def Suc_leI unat_1 unat_sub word_le_nat_alt)
  have "unat (a + (n - 1)) = unat a + (unat n - 1)"
    by (rule trans [OF unat_add_no_wrap]) (use assms n1 in simp_all)
  then have "unat (a + n - 1) = unat a + unat n - 1"
    using assms(1) by (simp add: add_diff_eq)
  then show ?thesis by (simp add: ROUNDUP_def unat_ROUNDDOWN)
qed

text \<open>Signed words and the division of C, on values that are not negative.\<close>

lemma sint_small:
  assumes "unat (w :: u32) < 2147483648"
  shows "sint w = int (unat w)"
proof -
  have u: "uint w = int (unat w)" by simp
  have "uint w < 2147483648" unfolding u using assms by linarith
  moreover have "(2 :: int) ^ 31 = 2147483648" by simp
  ultimately have "- ((2 :: int) ^ 31) \<le> uint w" "uint w < 2 ^ 31" using uint_ge_0 [of w] by linarith+
  then have "signed_take_bit 31 (uint w) = uint w" by (rule signed_take_bit_int_eq_self)
  moreover have "sint w = signed_take_bit 31 (uint w)" by (simp only: sint_uint) simp
  ultimately show ?thesis by simp
qed

lemma sdiv_nonneg: "0 \<le> a \<Longrightarrow> 0 < b \<Longrightarrow> a sdiv b = a div (b :: int)"
  using signed_divide_int_eq_divide_int [of a b] by (cases "a = 0") (simp_all add: sgn_if)

lemma smod_nonneg: "0 \<le> a \<Longrightarrow> 0 < b \<Longrightarrow> a smod b = a mod (b :: int)"
  using signed_modulo_int_eq_modulo_int [of a b] by (cases "a = 0") (simp_all add: sgn_if)

lemma sint_le_small:
  assumes "unat (a :: u32) < 2147483648" "unat (b :: u32) < 2147483648"
  shows "sint a \<le> sint b \<longleftrightarrow> unat a \<le> unat b"
  unfolding sint_small [OF assms(1)] sint_small [OF assms(2)] by linarith

section \<open>NULL-terminated chains\<close>

text \<open>
  \<open>chain nxt p xs\<close>: following \<open>nxt\<close> from the pointer \<open>p\<close> visits exactly the
  nodes \<open>xs\<close> and then reaches NULL.
\<close>

fun chain :: "('a \<Rightarrow> 'a option) \<Rightarrow> 'a option \<Rightarrow> 'a list \<Rightarrow> bool" where
  "chain nxt p [] \<longleftrightarrow> p = None"
| "chain nxt p (x # xs) \<longleftrightarrow> p = Some x \<and> chain nxt (nxt x) xs"

lemma chain_None [simp]: "chain nxt None xs \<longleftrightarrow> xs = []"
  by (cases xs) auto

lemma chain_Some: "chain nxt (Some x) xs \<longleftrightarrow> (\<exists>ys. xs = x # ys \<and> chain nxt (nxt x) ys)"
  by (cases xs) auto

lemma chain_upd_notin [simp]: "a \<notin> set xs \<Longrightarrow> chain (nxt(a := q)) p xs \<longleftrightarrow> chain nxt p xs"
  by (induction xs arbitrary: p) auto

lemma chain_cong: "(\<And>x. x \<in> set xs \<Longrightarrow> nxt x = nxt' x) \<Longrightarrow> chain nxt p xs \<longleftrightarrow> chain nxt' p xs"
  by (induction xs arbitrary: p) auto

lemma chain_unique: "chain nxt p xs \<Longrightarrow> chain nxt p ys \<Longrightarrow> xs = ys"
proof (induction xs arbitrary: p ys)
  case (Cons x xs)
  then show ?case by (cases ys) auto
qed auto

lemma chain_append_right: "chain nxt p (xs @ y # ys) \<Longrightarrow> chain nxt (Some y) (y # ys)"
  by (induction xs arbitrary: p) auto

lemma chain_distinct: "chain nxt p xs \<Longrightarrow> distinct xs"
proof (induction xs arbitrary: p)
  case (Cons x xs)
  have "x \<notin> set xs"
  proof
    assume "x \<in> set xs"
    then obtain ys zs where xs: "xs = ys @ x # zs" by (auto simp: in_set_conv_decomp)
    from Cons.prems xs have "chain nxt (Some x) (x # ys @ x # zs)" by simp
    moreover from Cons.prems xs have "chain nxt (Some x) (x # zs)"
      using chain_append_right [of nxt "nxt x" ys x zs] by simp
    ultimately have "x # ys @ x # zs = x # zs" by (rule chain_unique)
    then show False by simp
  qed
  with Cons show ?case by auto
qed simp

lemma chain_snoc:
  "chain nxt p xs \<Longrightarrow> xs \<noteq> [] \<Longrightarrow> y \<notin> set xs \<Longrightarrow>
   chain (nxt(last xs := Some y, y := None)) p (xs @ [y])"
proof (induction xs arbitrary: p)
  case (Cons x xs)
  show ?case
  proof (cases "xs = []")
    case True
    with Cons.prems show ?thesis by auto
  next
    case False
    from Cons.prems have "chain nxt (nxt x) xs" by simp
    with Cons.prems False have "chain (nxt(last xs := Some y, y := None)) (nxt x) (xs @ [y])"
      by (intro Cons.IH) simp_all
    moreover have "x \<noteq> last xs" "x \<noteq> y"
      using chain_distinct [OF Cons.prems(1)] False Cons.prems(3) by auto
    ultimately show ?thesis using False Cons.prems by (simp add: fun_upd_def)
  qed
qed simp

section \<open>Sums that change at one point\<close>

lemma sum_change_one:
  fixes f g :: "'a \<Rightarrow> nat"
  assumes "finite A" "a \<in> A" "\<And>x. x \<in> A \<Longrightarrow> x \<noteq> a \<Longrightarrow> f x = g x"
  shows "sum f A + g a = sum g A + f a"
proof -
  have "sum f A = f a + sum f (A - {a})" "sum g A = g a + sum g (A - {a})"
    using assms by (simp_all add: sum.remove)
  moreover have "sum f (A - {a}) = sum g (A - {a})"
    using assms(3) by (intro sum.cong) auto
  ultimately show ?thesis by simp
qed

end
