(* ===== verification/Mmu.thy ===== *)
theory Mmu
  imports Jos_Prelude
begin

text \<open>
  The x86 paging constants of \<^verbatim>\<open>inc/mmu.h\<close>, the address-space layout of
  \<^verbatim>\<open>inc/memlayout.h\<close> and the conversions between physical addresses, page numbers and page
  table entries. The lemmas say that the three index macros decompose a linear address without
  loss and that an entry built from a page number and permission bits gives both back.
\<close>

section \<open>Decomposition of linear addresses\<close>

definition PGSIZE :: u32 where "PGSIZE = 4096"
definition PTSIZE :: u32 where "PTSIZE = 4194304"
definition PGSHIFT :: nat where "PGSHIFT = 12"
definition NPDENTRIES :: nat where "NPDENTRIES = 1024"
definition NPTENTRIES :: nat where "NPTENTRIES = 1024"

definition PGNUM :: "u32 \<Rightarrow> u32" where "PGNUM la = drop_bit 12 la"
definition PDX :: "u32 \<Rightarrow> u32" where "PDX la = drop_bit 22 la AND 0x3FF"
definition PTX :: "u32 \<Rightarrow> u32" where "PTX la = drop_bit 12 la AND 0x3FF"
definition PGOFF :: "u32 \<Rightarrow> u32" where "PGOFF la = la AND 0xFFF"
definition PGADDR :: "u32 \<Rightarrow> u32 \<Rightarrow> u32 \<Rightarrow> u32" where
  "PGADDR d t off = push_bit 22 d OR push_bit 12 t OR off"

section \<open>Entry flags\<close>

definition PTE_P :: u32 where "PTE_P = 0x001"
definition PTE_W :: u32 where "PTE_W = 0x002"
definition PTE_U :: u32 where "PTE_U = 0x004"
definition PTE_PWT :: u32 where "PTE_PWT = 0x008"
definition PTE_PCD :: u32 where "PTE_PCD = 0x010"
definition PTE_A :: u32 where "PTE_A = 0x020"
definition PTE_D :: u32 where "PTE_D = 0x040"
definition PTE_PS :: u32 where "PTE_PS = 0x080"
definition PTE_AVAIL :: u32 where "PTE_AVAIL = 0xE00"
definition PTE_SYSCALL :: u32 where "PTE_SYSCALL = PTE_AVAIL OR PTE_P OR PTE_W OR PTE_U"

definition PTE_ADDR :: "u32 \<Rightarrow> u32" where "PTE_ADDR pte = pte AND NOT 0xFFF"
definition PTE_FLAGS :: "u32 \<Rightarrow> u32" where "PTE_FLAGS pte = pte AND PTE_SYSCALL"

lemmas pte_flag_defs [kdefs] =
  PTE_P_def PTE_W_def PTE_U_def PTE_PWT_def PTE_PCD_def PTE_A_def PTE_D_def PTE_PS_def
  PTE_AVAIL_def PTE_SYSCALL_def

section \<open>Memory layout\<close>

definition KERNBASE :: u32 where "KERNBASE = 0xF0000000"
definition IOPHYSMEM :: u32 where "IOPHYSMEM = 0x0A0000"
definition EXTPHYSMEM :: u32 where "EXTPHYSMEM = 0x100000"
definition KSTACKTOP :: u32 where "KSTACKTOP = KERNBASE"
definition KSTKSIZE :: u32 where "KSTKSIZE = 8 * PGSIZE"
definition KSTKGAP :: u32 where "KSTKGAP = 8 * PGSIZE"
definition MMIOLIM :: u32 where "MMIOLIM = KSTACKTOP - PTSIZE"
definition MMIOBASE :: u32 where "MMIOBASE = MMIOLIM - PTSIZE"
definition ULIM :: u32 where "ULIM = MMIOBASE"
definition UVPT :: u32 where "UVPT = ULIM - PTSIZE"
definition UPAGES :: u32 where "UPAGES = UVPT - PTSIZE"
definition UENVS :: u32 where "UENVS = UPAGES - PTSIZE"
definition UTOP :: u32 where "UTOP = UENVS"
definition UXSTACKTOP :: u32 where "UXSTACKTOP = UTOP"
definition USTACKTOP :: u32 where "USTACKTOP = UTOP - 2 * PGSIZE"
definition UTEXT :: u32 where "UTEXT = 2 * PTSIZE"
definition UTEMP :: u32 where "UTEMP = PTSIZE"
definition PFTEMP :: u32 where "PFTEMP = UTEMP + PTSIZE - PGSIZE"
definition MPENTRY_PADDR :: u32 where "MPENTRY_PADDR = 0x7000"

lemmas layout_defs [kdefs] =
  PGSIZE_def PTSIZE_def KERNBASE_def IOPHYSMEM_def EXTPHYSMEM_def KSTACKTOP_def KSTKSIZE_def
  KSTKGAP_def MMIOLIM_def MMIOBASE_def ULIM_def UVPT_def UPAGES_def UENVS_def UTOP_def
  UXSTACKTOP_def USTACKTOP_def UTEXT_def UTEMP_def PFTEMP_def MPENTRY_PADDR_def

section \<open>Page numbers and entries\<close>

text \<open>
  A \<open>struct PageInfo *\<close> is the index of its element in the array \<open>pages\<close>, so
  \<open>page2pa\<close> is a shift and \<open>pa2page\<close> the page number. \<open>pdx\<close> and \<open>ptx\<close>
  are the two indices as naturals, \<open>ppn_of\<close> the page an entry points to.
\<close>

definition page2pa :: "nat \<Rightarrow> u32" where "page2pa pp = push_bit PGSHIFT (word_of_nat pp)"
definition ppn_of :: "u32 \<Rightarrow> nat" where "ppn_of e = unat (PGNUM (PTE_ADDR e))"

abbreviation pdx :: "u32 \<Rightarrow> nat" where "pdx va \<equiv> unat (PDX va)"
abbreviation ptx :: "u32 \<Rightarrow> nat" where "ptx va \<equiv> unat (PTX va)"
abbreviation present :: "u32 \<Rightarrow> bool" where "present e \<equiv> e AND PTE_P \<noteq> 0"

text \<open>The number of page directory entries below \<open>UTOP\<close>.\<close>

definition NUPDE :: nat where "NUPDE = pdx UTOP"

lemma NUPDE_eq: "NUPDE = 955"
  by (simp add: NUPDE_def PDX_def kdefs)

lemma and_mask_lt: "unat (x AND (0x3FF :: u32)) < 1024"
proof -
  have "unat (x AND 0x3FF) \<le> unat (0x3FF :: u32)"
    by (rule word_and_le1 [THEN word_le_nat_alt [THEN iffD1]])
  then show ?thesis by simp
qed

lemma pdx_lt [simp]: "pdx va < 1024"
  by (simp add: PDX_def and_mask_lt)

lemma ptx_lt [simp]: "ptx va < 1024"
  by (simp add: PTX_def and_mask_lt)

text \<open>The masks of the macros as \<^const>\<open>mask\<close>, on which the bit lemmas of the library work.\<close>

lemma mask10: "(0x3FF :: u32) = mask 10"
  by (simp add: mask_eq_exp_minus_1)

lemma mask12: "(0xFFF :: u32) = mask 12"
  by (simp add: mask_eq_exp_minus_1)

lemma PGADDR_parts [simp]: "PGADDR (PDX la) (PTX la) (PGOFF la) = la"
proof (rule bit_word_eqI)
  fix n assume "n < LENGTH(32)"
  then show "bit (PGADDR (PDX la) (PTX la) (PGOFF la)) n = bit la n"
    by (cases "n < 12"; cases "n < 22")
      (auto simp: PGADDR_def PDX_def PTX_def PGOFF_def mask10 mask12 bit_simps)
qed

lemma bit_small: "x AND NOT 0xFFF = 0 \<Longrightarrow> bit (x :: u32) n \<Longrightarrow> n < 12"
proof -
  assume x: "x AND NOT 0xFFF = 0" and b: "bit x n"
  then have n: "n < 32" using bit_imp_le_length [of x n] by simp
  have "\<not> bit (x AND NOT 0xFFF) n" using x by simp
  with b n show "n < 12" by (simp add: mask12 bit_simps)
qed

lemma PTE_ADDR_entry:
  assumes "perm AND NOT 0xFFF = 0"
  shows "PTE_ADDR (page2pa pp OR perm OR PTE_P) = page2pa pp"
  using bit_small [OF assms]
  by (intro bit_word_eqI)
    (auto simp: PTE_ADDR_def page2pa_def PGSHIFT_def PTE_P_def mask12 bit_simps)

lemma PGNUM_page2pa: "pp < 2 ^ 20 \<Longrightarrow> unat (PGNUM (page2pa pp)) = pp"
proof -
  assume pp: "pp < 2 ^ 20"
  have "PGNUM (page2pa pp) = word_of_nat pp AND mask 20"
    by (intro bit_word_eqI) (auto simp: PGNUM_def page2pa_def PGSHIFT_def bit_simps)
  then have "unat (PGNUM (page2pa pp)) = pp mod 2 ^ 20"
    by (simp add: unat_mod unat_of_nat mod_mod_cancel take_bit_eq_mod flip: take_bit_eq_mask)
  with pp show ?thesis by simp
qed

lemma page2pa_aligned: "PTE_ADDR (page2pa pp) = page2pa pp"
  by (intro bit_word_eqI) (auto simp: PTE_ADDR_def page2pa_def PGSHIFT_def mask12 bit_simps)

lemma ppn_of_entry:
  "pp < 2 ^ 20 \<Longrightarrow> perm AND NOT 0xFFF = 0 \<Longrightarrow> ppn_of (page2pa pp OR perm OR PTE_P) = pp"
  by (simp add: ppn_of_def PTE_ADDR_entry PGNUM_page2pa)

lemma present_entry: "present (x OR perm OR PTE_P)"
proof -
  have "bit ((x OR perm OR PTE_P) AND PTE_P) 0" by (simp add: PTE_P_def bit_simps)
  then show ?thesis by (metis bit_0_eq bot_apply bot_bool_def)
qed

lemma same_page_iff: "PGNUM va = PGNUM va' \<longleftrightarrow> PDX va = PDX va' \<and> PTX va = PTX va'"
proof
  assume eq: "PGNUM va = PGNUM va'"
  have "PDX x = drop_bit 10 (PGNUM x) AND 0x3FF" "PTX x = PGNUM x AND 0x3FF" for x
    by (simp_all add: PDX_def PTX_def PGNUM_def drop_bit_drop_bit)
  with eq show "PDX va = PDX va' \<and> PTX va = PTX va'" by simp
next
  assume eq: "PDX va = PDX va' \<and> PTX va = PTX va'"
  have "PGNUM x = push_bit 10 (PDX x) OR PTX x" for x
  proof (rule bit_word_eqI)
    fix n assume "n < LENGTH(32)"
    then show "bit (PGNUM x) n = bit (push_bit 10 (PDX x) OR PTX x) n"
      using bit_imp_le_length [of x "12 + n"]
      by (cases "n < 10") (auto simp: PGNUM_def PDX_def PTX_def mask10 bit_simps)
  qed
  with eq show "PGNUM va = PGNUM va'" by simp
qed

end
