(* ===== verification/Resource_Pool.thy ===== *)
theory Resource_Pool
  imports Jos_Prelude
begin

text \<open>
  The contract that the physical page allocator and the disk block allocator share, as a locale:
  a state holds a set of free resources, \<open>alloc\<close> takes one out of it or reports that it is
  empty, \<open>release\<close> puts one back. Clients are arbitrary sequences of requests; the locale's
  lemmas say that no sequence hands the same resource out twice, panics or loses a resource.
\<close>

text \<open>
  A client's requests: take one more resource, or give back the \<open>i\<close>-th of those it holds.
  The held resources are a list; \<open>Put\<close> of an index out of range does nothing.
\<close>

datatype pool_op = Get | Put nat

definition drop_nth :: "nat \<Rightarrow> 'a list \<Rightarrow> 'a list" where
  "drop_nth i xs = take i xs @ drop (Suc i) xs"

fun run_pool ::
  "('s \<Rightarrow> ('r option \<times> 's) option) \<Rightarrow> ('r \<Rightarrow> 's \<Rightarrow> 's option) \<Rightarrow> pool_op list \<Rightarrow>
   'r list \<times> 's \<Rightarrow> ('r list \<times> 's) option" where
  "run_pool alloc release [] st = Some st"
| "run_pool alloc release (Get # ops) (held, s) = do {
     (r, s) \<leftarrow> alloc s;
     run_pool alloc release ops (case r of None \<Rightarrow> held | Some x \<Rightarrow> x # held, s)
   }"
| "run_pool alloc release (Put i # ops) (held, s) =
     (if i < length held
      then do { s \<leftarrow> release (held ! i) s; run_pool alloc release ops (drop_nth i held, s) }
      else run_pool alloc release ops (held, s))"

lemma drop_nth_props:
  assumes "i < length xs" "distinct xs"
  shows "set (drop_nth i xs) = set xs - {xs ! i}" and "distinct (drop_nth i xs)"
proof -
  have xs: "xs = take i xs @ xs ! i # drop (Suc i) xs" using assms by (simp add: id_take_nth_drop)
  then have d: "distinct (take i xs @ xs ! i # drop (Suc i) xs)" using assms(2) by metis
  have s: "set xs = set (take i xs @ xs ! i # drop (Suc i) xs)" using xs by metis
  show "set (drop_nth i xs) = set xs - {xs ! i}" using s d by (auto simp: drop_nth_def)
  show "distinct (drop_nth i xs)" using d by (auto simp: drop_nth_def)
qed

locale resource_pool =
  fixes inv :: "'s \<Rightarrow> bool"
    and free :: "'s \<Rightarrow> 'r set"
    and usable :: "'s \<Rightarrow> 'r \<Rightarrow> bool"
    and alloc :: "'s \<Rightarrow> ('r option \<times> 's) option"
    and release :: "'r \<Rightarrow> 's \<Rightarrow> 's option"
  assumes alloc_empty: "inv s \<Longrightarrow> free s = {} \<Longrightarrow> alloc s = Some (None, s)"
    and alloc_some: "inv s \<Longrightarrow> free s \<noteq> {} \<Longrightarrow>
      \<exists>r s'. alloc s = Some (Some r, s') \<and> r \<in> free s \<and> inv s' \<and> free s' = free s - {r} \<and>
             usable s' = usable s"
    and release_ok: "inv s \<Longrightarrow> usable s r \<Longrightarrow> r \<notin> free s \<Longrightarrow>
      \<exists>s'. release r s = Some s' \<and> inv s' \<and> free s' = insert r (free s) \<and> usable s' = usable s"
    and free_usable: "inv s \<Longrightarrow> r \<in> free s \<Longrightarrow> usable s r"
begin

lemma alloc_cases:
  assumes "inv s"
  obtains "free s = {}" "alloc s = Some (None, s)"
    | r s' where "alloc s = Some (Some r, s')" "r \<in> free s" "inv s'" "free s' = free s - {r}"
        "usable s' = usable s"
  using assms alloc_empty alloc_some by blast

lemma exhausted_iff: "inv s \<Longrightarrow> alloc s = Some (None, s) \<longleftrightarrow> free s = {}"
  using alloc_some [of s] alloc_empty [of s] by force

text \<open>
  The client's view: what it holds is distinct, disjoint from the free set and usable, and held
  and free resources together are always the same set.
\<close>

lemma run_pool_sound:
  assumes "inv s" "distinct held" "set held \<inter> free s = {}" "\<forall>r\<in>set held. usable s r"
  shows "\<exists>held' s'. run_pool alloc release ops (held, s) = Some (held', s') \<and> inv s' \<and>
           distinct held' \<and> set held' \<inter> free s' = {} \<and> (\<forall>r\<in>set held'. usable s' r) \<and>
           set held' \<union> free s' = set held \<union> free s"
  using assms
proof (induction ops arbitrary: held s)
  case Nil
  then show ?case by simp
next
  case (Cons op ops)
  show ?case
  proof (cases op)
    case Get
    from Cons.prems(1) show ?thesis
    proof (cases rule: alloc_cases)
      case 1
      then show ?thesis using Cons.IH [OF Cons.prems] Get by simp
    next
      case (2 r s')
      have pre: "distinct (r # held)" "set (r # held) \<inter> free s' = {}"
        "\<forall>x\<in>set (r # held). usable s' x"
        using 2 Cons.prems free_usable by auto
      have "set (r # held) \<union> free s' = set held \<union> free s" using 2 by auto
      with Cons.IH [OF 2(3) pre] 2(1) Get show ?thesis by simp
    qed
  next
    case (Put i)
    show ?thesis
    proof (cases "i < length held")
      case False
      then show ?thesis using Cons.IH [OF Cons.prems] Put by simp
    next
      case True
      then have mem: "held ! i \<in> set held" by simp
      with Cons.prems obtain s' where s': "release (held ! i) s = Some s'" "inv s'"
        "free s' = insert (held ! i) (free s)" "usable s' = usable s"
        using release_ok [of s "held ! i"] by blast
      note d = drop_nth_props [OF True Cons.prems(2)]
      have pre: "set (drop_nth i held) \<inter> free s' = {}"
        "\<forall>x\<in>set (drop_nth i held). usable s' x"
        using s' d Cons.prems by auto
      have "set (drop_nth i held) \<union> free s' = set held \<union> free s" using s' d mem by auto
      with Cons.IH [OF s'(2) d(2) pre] s'(1) True Put show ?thesis by simp
    qed
  qed
qed

end

end
