(* ===== verification/Page_Alloc.thy ===== *)
theory Page_Alloc
  imports Mmu Resource_Pool
begin

text \<open>
  The physical page allocator of \<^verbatim>\<open>kern/pmap.c\<close>: \<open>boot_alloc\<close>, \<open>page_init\<close>,
  \<open>page_alloc\<close>, \<open>page_free\<close> and \<open>page_decref\<close>, over the array \<open>pages\<close> and the
  linked list \<open>page_free_list\<close>. The contract of the allocator is the locale
  \<open>resource_pool\<close>; the definitions below are proved to satisfy it, through the list of
  free pages that the chain abstracts to.

  A \<open>struct PageInfo *\<close> is the page's index, NULL is \<open>None\<close>. Physical memory is
  \<open>phys f i\<close>, the \<open>i\<close>-th 32-bit word of page frame \<open>f\<close>. \<open>mmio_base\<close> is the
  static variable of \<open>mmio_map_region\<close> and \<open>invlpgs\<close> logs the \<open>invlpg\<close>
  instructions executed, newest first. The variables of \<^verbatim>\<open>pmap.c\<close> are a record that the kernel state extends, and the operations are polymorphic in
  the extension.
\<close>

section \<open>State\<close>

record page_info =
  pp_link :: "nat option"
  pp_ref :: u16

record pmem =
  npages :: nat
  npages_basemem :: nat
  nextfree :: u32
  pages :: "nat \<Rightarrow> page_info"
  page_free_list :: "nat option"
  phys :: "nat \<Rightarrow> nat \<Rightarrow> u32"
  kern_pgdir :: nat
  mmio_base :: u32
  invlpgs :: "u32 list"

abbreviation pref :: "'z pmem_scheme \<Rightarrow> nat \<Rightarrow> u16" where
  "pref s p \<equiv> pp_ref (pages s p)"

abbreviation set_ref :: "nat \<Rightarrow> u16 \<Rightarrow> 'z pmem_scheme \<Rightarrow> 'z pmem_scheme" where
  "set_ref p r s \<equiv> s\<lparr>pages := (pages s)(p := (pages s p)\<lparr>pp_ref := r\<rparr>)\<rparr>"

abbreviation set_link :: "nat \<Rightarrow> nat option \<Rightarrow> 'z pmem_scheme \<Rightarrow> 'z pmem_scheme" where
  "set_link p l s \<equiv> s\<lparr>pages := (pages s)(p := (pages s p)\<lparr>pp_link := l\<rparr>)\<rparr>"

section \<open>Address conversions of kern/pmap.h\<close>

definition PADDR :: "u32 \<Rightarrow> u32 option" where
  "PADDR kva = (if kva < KERNBASE then None else Some (kva - KERNBASE))"

definition KADDR :: "'z pmem_scheme \<Rightarrow> u32 \<Rightarrow> u32 option" where
  "KADDR s pa = (if unat (PGNUM pa) \<ge> npages s then None else Some (pa + KERNBASE))"

definition pa2page :: "'z pmem_scheme \<Rightarrow> u32 \<Rightarrow> nat option" where
  "pa2page s pa = (if unat (PGNUM pa) \<ge> npages s then None else Some (unat (PGNUM pa)))"

definition page2kva :: "'z pmem_scheme \<Rightarrow> nat \<Rightarrow> u32 option" where
  "page2kva s pp = KADDR s (page2pa pp)"

section \<open>Boot-time allocation\<close>

text \<open>
  \<open>kend\<close> is the linker symbol \<open>end\<close>. The bound is computed in 32 bits, as the code
  does. With \<open>n = 0\<close> nothing is allocated but \<open>nextfree\<close> is still rounded up.
\<close>

definition boot_alloc :: "u32 \<Rightarrow> u32 \<Rightarrow> u32 \<Rightarrow> 'z pmem_scheme \<Rightarrow> (u32 \<times> 'z pmem_scheme) option" where
  "boot_alloc kend n alignment s =
    (let nf = (if nextfree s = 0 then ROUNDUP kend alignment else ROUNDUP (nextfree s) alignment)
     in if n > 0
        then (if nf + n \<ge> KERNBASE + word_of_nat (npages s) * PGSIZE then None
              else Some (nf, s\<lparr>nextfree := nf + n\<rparr>))
        else Some (nf, s\<lparr>nextfree := nf\<rparr>))"

section \<open>page_init\<close>

text \<open>Append page \<open>i\<close> to the free list under construction, whose tail is \<open>pinfo\<close>.\<close>

definition free_tail :: "nat \<Rightarrow> 'z pmem_scheme \<times> nat option \<Rightarrow> 'z pmem_scheme \<times> nat option" where
  "free_tail i st = (let s = set_ref i 0 (fst st) in
     case snd st of
       None \<Rightarrow> (s\<lparr>page_free_list := Some i\<rparr>, Some i)
     | Some p \<Rightarrow> (set_link p (Some i) s, Some i))"

definition init_base_page :: "nat \<Rightarrow> 'z pmem_scheme \<times> nat option \<Rightarrow> 'z pmem_scheme \<times> nat option" where
  "init_base_page i st =
    (if i = unat (MPENTRY_PADDR div PGSIZE) then (set_ref i 1 (fst st), snd st) else free_tail i st)"

fun init_ext_pages ::
  "u32 \<Rightarrow> nat list \<Rightarrow> 'z pmem_scheme \<times> nat option \<Rightarrow> ('z pmem_scheme \<times> nat option) option" where
  "init_ext_pages kend [] st = Some st"
| "init_ext_pages kend (i # js) (s, pinfo) = do {
     (nf, s) \<leftarrow> boot_alloc kend 0 PGSIZE s;
     pa \<leftarrow> PADDR nf;
     if i < unat (pa div PGSIZE)
     then init_ext_pages kend js (set_ref i 1 s, pinfo)
     else init_ext_pages kend js (free_tail i (s, pinfo))
   }"

definition page_init :: "u32 \<Rightarrow> 'z pmem_scheme \<Rightarrow> 'z pmem_scheme option" where
  "page_init kend s = (
     let s0 = set_ref 0 1 s;
         (s1, pinfo) = fold init_base_page [1..<npages_basemem s] (s0, None)
     in if npages_basemem s \<noteq> unat (IOPHYSMEM div PGSIZE) then None
        else
          let s2 = fold (\<lambda>i. set_ref i 1)
                     [unat (IOPHYSMEM div PGSIZE)..<unat (EXTPHYSMEM div PGSIZE)] s1
          in do {
            (s3, _) \<leftarrow> init_ext_pages kend [unat (EXTPHYSMEM div PGSIZE)..<npages s] (s2, pinfo);
            Some s3
          })"

section \<open>page_alloc, page_free, page_decref\<close>

definition ALLOC_ZERO :: u32 where "ALLOC_ZERO = 1"

definition zero_frame :: "nat \<Rightarrow> 'z pmem_scheme \<Rightarrow> 'z pmem_scheme" where
  "zero_frame f s = s\<lparr>phys := (phys s)(f := (\<lambda>_. 0))\<rparr>"

definition page_alloc :: "u32 \<Rightarrow> 'z pmem_scheme \<Rightarrow> (nat option \<times> 'z pmem_scheme) option" where
  "page_alloc alloc_flags s =
    (case page_free_list s of
       None \<Rightarrow> Some (None, s)
     | Some result \<Rightarrow>
         if pref s result \<noteq> 0 then None
         else
           let s1 = set_link result None (s\<lparr>page_free_list := pp_link (pages s result)\<rparr>)
           in if alloc_flags AND ALLOC_ZERO \<noteq> 0
              then do { _ \<leftarrow> page2kva s1 result; Some (Some result, zero_frame result s1) }
              else Some (Some result, s1))"

definition page_free :: "nat \<Rightarrow> 'z pmem_scheme \<Rightarrow> 'z pmem_scheme option" where
  "page_free pp s =
    (if pref s pp \<noteq> 0 then None
     else if pp_link (pages s pp) \<noteq> None then None
     else Some ((set_link pp (page_free_list s) s)\<lparr>page_free_list := Some pp\<rparr>))"

definition page_decref :: "nat \<Rightarrow> 'z pmem_scheme \<Rightarrow> 'z pmem_scheme option" where
  "page_decref pp s =
    (let s1 = set_ref pp (pref s pp - 1) s
     in if pref s1 pp = 0 then page_free pp s1 else Some s1)"

section \<open>The free list\<close>

text \<open>
  \<open>avail s ps\<close>: the free list runs through exactly the pages \<open>ps\<close>. They exist and
  have no references, and every page outside the list has a NULL link, which is what
  \<open>page_free\<close> checks against double frees.
\<close>

definition avail :: "'z pmem_scheme \<Rightarrow> nat list \<Rightarrow> bool" where
  "avail s ps \<longleftrightarrow>
     chain (\<lambda>p. pp_link (pages s p)) (page_free_list s) ps \<and>
     (\<forall>p\<in>set ps. p < npages s \<and> pref s p = 0) \<and>
     (\<forall>p. p \<notin> set ps \<longrightarrow> pp_link (pages s p) = None) \<and>
     npages s \<le> 2 ^ 20"

lemma avail_distinct: "avail s ps \<Longrightarrow> distinct ps"
  by (auto simp: avail_def dest: chain_distinct)

lemma avail_unique: "avail s ps \<Longrightarrow> avail s qs \<Longrightarrow> ps = qs"
  by (auto simp: avail_def dest: chain_unique)

lemma avail_ref: "avail s ps \<Longrightarrow> pref s p \<noteq> 0 \<Longrightarrow> p \<notin> set ps"
  by (auto simp: avail_def)

lemma avail_lt: "avail s ps \<Longrightarrow> p \<in> set ps \<Longrightarrow> p < npages s"
  by (auto simp: avail_def)

text \<open>The list does not depend on memory, on the other variables or on references elsewhere.\<close>

lemma avail_phys [simp]: "avail (s\<lparr>phys := m\<rparr>) ps \<longleftrightarrow> avail s ps"
  by (simp add: avail_def)

lemma link_set_ref: "pp_link (if q = p then pages s p\<lparr>pp_ref := r\<rparr> else pages s q) = pp_link (pages s q)"
  by simp

lemma avail_set_ref [simp]: "p \<notin> set ps \<Longrightarrow> avail (set_ref p r s) ps \<longleftrightarrow> avail s ps"
  by (auto simp: avail_def link_set_ref)

lemma page2kva_lt: "p < npages s \<Longrightarrow> npages s \<le> 2 ^ 20 \<Longrightarrow> page2kva s p = Some (page2pa p + KERNBASE)"
  by (simp add: page2kva_def KADDR_def PGNUM_page2pa)

lemma pa2page_page2pa: "p < npages s \<Longrightarrow> npages s \<le> 2 ^ 20 \<Longrightarrow> pa2page s (page2pa p) = Some p"
  by (simp add: pa2page_def PGNUM_page2pa)

section \<open>Specifications of the operations\<close>

lemma page_alloc_Nil: "avail s [] \<Longrightarrow> page_alloc fl s = Some (None, s)"
  by (simp add: avail_def page_alloc_def)

definition alloc_result :: "u32 \<Rightarrow> nat \<Rightarrow> 'z pmem_scheme \<Rightarrow> 'z pmem_scheme" where
  "alloc_result fl p s =
    (let s1 = set_link p None (s\<lparr>page_free_list := pp_link (pages s p)\<rparr>)
     in if fl AND ALLOC_ZERO \<noteq> 0 then zero_frame p s1 else s1)"

lemma page_alloc_Cons:
  assumes "avail s (p # ps)"
  shows "page_alloc fl s = Some (Some p, alloc_result fl p s)"
proof -
  have h: "page_free_list s = Some p" "pref s p = 0" "p < npages s" "npages s \<le> 2 ^ 20"
    using assms by (auto simp: avail_def)
  then show ?thesis
    by (simp add: page_alloc_def alloc_result_def page2kva_lt Let_def)
qed

lemma alloc_result_avail:
  assumes "avail s (p # ps)"
  shows "avail (alloc_result fl p s) ps"
proof -
  have "p \<notin> set ps" using avail_distinct [OF assms] by simp
  then have "chain (\<lambda>q. pp_link (if q = p then pages s p\<lparr>pp_link := None\<rparr> else pages s q))
      (pp_link (pages s p)) ps \<longleftrightarrow> chain (\<lambda>p. pp_link (pages s p)) (pp_link (pages s p)) ps"
    by (intro chain_cong) auto
  with assms show ?thesis
    by (auto simp: avail_def alloc_result_def zero_frame_def fun_upd_def Let_def)
qed

lemma alloc_result_fields [frame_simps, simp]:
  "npages (alloc_result fl p s) = npages s"
  "pref (alloc_result fl p s) q = pref s q"
  "phys (alloc_result fl p s) =
     (if fl AND ALLOC_ZERO \<noteq> 0 then (phys s)(p := (\<lambda>_. 0)) else phys s)"
  by (simp_all add: alloc_result_def zero_frame_def Let_def)

lemma page_free_ok:
  assumes "avail s ps" "p \<notin> set ps" "pref s p = 0" "p < npages s"
  shows "\<exists>s'. page_free p s = Some s' \<and> avail s' (p # ps) \<and> phys s' = phys s \<and>
              npages s' = npages s \<and> (\<forall>q. pref s' q = pref s q)"
proof -
  have "chain (\<lambda>q. pp_link (if q = p then pages s p\<lparr>pp_link := page_free_list s\<rparr> else pages s q))
      (page_free_list s) ps \<longleftrightarrow> chain (\<lambda>p. pp_link (pages s p)) (page_free_list s) ps"
    using assms(2) by (intro chain_cong) auto
  with assms show ?thesis
    by (auto simp: page_free_def avail_def fun_upd_def)
qed

lemma page_decref_keep:
  assumes "avail s ps" "pref s p \<noteq> 0" "pref s p \<noteq> 1"
  shows "page_decref p s = Some (set_ref p (pref s p - 1) s)"
    and "avail (set_ref p (pref s p - 1) s) ps"
proof -
  have "pref s p - 1 \<noteq> 0" using assms(3) by simp
  then show "page_decref p s = Some (set_ref p (pref s p - 1) s)"
    by (simp add: page_decref_def)
  show "avail (set_ref p (pref s p - 1) s) ps"
    using assms(1) avail_ref [OF assms(1,2)] by simp
qed

lemma page_decref_last:
  assumes "avail s ps" "pref s p = 1" "p < npages s"
  shows "\<exists>s'. page_decref p s = Some s' \<and> avail s' (p # ps) \<and> phys s' = phys s \<and>
              npages s' = npages s \<and> (\<forall>q. pref s' q = (if q = p then 0 else pref s q))"
proof -
  have "p \<notin> set ps" using assms avail_ref [of s ps p] by simp
  then have "avail (set_ref p 0 s) ps" using assms(1) by simp
  from page_free_ok [OF this, of p] \<open>p \<notin> set ps\<close> assms show ?thesis
    by (auto simp: page_decref_def)
qed

section \<open>The allocator is a resource pool\<close>

definition free_set :: "'z pmem_scheme \<Rightarrow> nat set" where
  "free_set s = {p. \<exists>ps. avail s ps \<and> p \<in> set ps}"

lemma free_set_avail: "avail s ps \<Longrightarrow> free_set s = set ps"
  by (auto simp: free_set_def dest: avail_unique)

definition unreferenced :: "'z pmem_scheme \<Rightarrow> nat \<Rightarrow> bool" where
  "unreferenced s p \<longleftrightarrow> p < npages s \<and> pref s p = 0"

interpretation page_pool:
  resource_pool "\<lambda>s. \<exists>ps. avail s ps" free_set unreferenced "page_alloc fl" page_free for fl
proof (unfold_locales, goal_cases)
  case (1 s)
  then show ?case by (auto simp: free_set_avail intro: page_alloc_Nil)
next
  case (2 s)
  then obtain ps where ps: "avail s ps" by blast
  with 2 obtain p qs where pq: "ps = p # qs" by (cases ps) (auto simp: free_set_avail)
  note a = page_alloc_Cons [OF ps [unfolded pq]] alloc_result_avail [OF ps [unfolded pq]]
  have "p \<notin> set qs" using avail_distinct [OF ps] pq by simp
  then have "p \<in> free_set s \<and> free_set (alloc_result fl p s) = free_set s - {p}"
    using free_set_avail [OF ps] free_set_avail [OF a(2), of fl] pq by auto
  moreover have "unreferenced (alloc_result fl p s) = unreferenced s"
    by (auto simp: unreferenced_def)
  ultimately show ?case using a by blast
next
  case (3 s r)
  then obtain ps where ps: "avail s ps" by blast
  with 3 have "r \<notin> set ps" "pref s r = 0" "r < npages s"
    by (auto simp: free_set_avail unreferenced_def)
  from page_free_ok [OF ps this] obtain s' where s': "page_free r s = Some s'" "avail s' (r # ps)"
    "npages s' = npages s" "\<forall>q. pref s' q = pref s q" by blast
  then have "unreferenced s' = unreferenced s" by (auto simp: unreferenced_def)
  with s' ps show ?case by (auto simp: free_set_avail)
next
  case (4 s r)
  then show ?case by (auto simp: free_set_def unreferenced_def avail_def)
qed

section \<open>page_init builds the free list\<close>

declare upt_rec_numeral [simp del]

definition building :: "'z pmem_scheme \<Rightarrow> nat option \<Rightarrow> nat list \<Rightarrow> bool" where
  "building s pinfo xs \<longleftrightarrow>
     chain (\<lambda>p. pp_link (pages s p)) (page_free_list s) xs \<and>
     pinfo = (if xs = [] then None else Some (last xs)) \<and>
     (\<forall>p. p \<notin> set (butlast xs) \<longrightarrow> pp_link (pages s p) = None)"

lemma building_set_ref [simp]: "building (set_ref p r s) pinfo xs \<longleftrightarrow> building s pinfo xs"
  by (simp add: building_def link_set_ref)

lemma building_nextfree [simp]: "building (s\<lparr>nextfree := v\<rparr>) pinfo xs \<longleftrightarrow> building s pinfo xs"
  by (simp add: building_def)

lemma building_fold_ref [simp]:
  "building (fold (\<lambda>i. set_ref i r) js s) pinfo xs \<longleftrightarrow> building s pinfo xs"
  by (induction js arbitrary: s) simp_all

lemma fold_ref_fields [simp]:
  "pref (fold (\<lambda>i. set_ref i r) js s) p = (if p \<in> set js then r else pref s p)"
  "npages (fold (\<lambda>i. set_ref i r) js s) = npages s"
  "nextfree (fold (\<lambda>i. set_ref i r) js s) = nextfree s"
  by (induction js arbitrary: s) auto

lemma free_tail_fields [simp]:
  "npages (fst (free_tail i st)) = npages (fst st)"
  "nextfree (fst (free_tail i st)) = nextfree (fst st)"
  "pref (fst (free_tail i st)) p = (if p = i then 0 else pref (fst st) p)"
  by (auto simp: free_tail_def Let_def split: option.splits)

lemma free_tail_building:
  assumes "building s pinfo xs" "i \<notin> set xs"
  shows "building (fst (free_tail i (s, pinfo))) (snd (free_tail i (s, pinfo))) (xs @ [i])"
proof (cases "xs = []")
  case True
  with assms show ?thesis by (auto simp: building_def free_tail_def)
next
  case False
  let ?nxt = "\<lambda>p. pp_link (pages s p)"
  let ?s = "fst (free_tail i (s, pinfo))"
  have "last xs \<noteq> i" using assms(2) False last_in_set [of xs] by metis
  then have nx: "(\<lambda>p. pp_link (pages ?s p)) = ?nxt(last xs := Some i, i := None)"
    using assms False by (auto simp: building_def free_tail_def Let_def fun_eq_iff dest: in_set_butlastD)
  have nx': "pp_link (pages ?s p) = (?nxt(last xs := Some i, i := None)) p" for p
    using fun_cong [OF nx] by simp
  have "chain (?nxt(last xs := Some i, i := None)) (page_free_list s) (xs @ [i])"
    using assms False by (intro chain_snoc) (auto simp: building_def)
  moreover have "page_free_list ?s = page_free_list s" "snd (free_tail i (s, pinfo)) = Some i"
    using assms False by (auto simp: building_def free_tail_def)
  moreover have "?nxt p = None" if "p \<notin> set xs" for p
    using assms(1) that by (auto simp: building_def dest: in_set_butlastD)
  ultimately show ?thesis
    using \<open>last xs \<noteq> i\<close> False last_in_set [of xs] by (auto simp: building_def nx nx' butlast_append fun_upd_def)
qed

lemma fold_base_building:
  assumes "building s pinfo xs" "set js \<inter> set xs = {}" "distinct js"
  shows "\<exists>s' pinfo'. fold init_base_page js (s, pinfo) = (s', pinfo') \<and>
      building s' pinfo' (xs @ filter (\<lambda>i. i \<noteq> 7) js) \<and>
      npages s' = npages s \<and> nextfree s' = nextfree s \<and>
      (\<forall>p. pref s' p = (if p \<in> set js then if p = 7 then 1 else 0 else pref s p))"
  using assms
proof (induction js arbitrary: s pinfo xs)
  case (Cons j js)
  have mp: "unat (MPENTRY_PADDR div PGSIZE) = 7" by (simp add: kdefs)
  show ?case
  proof (cases "j = 7")
    case True
    have "building (set_ref j 1 s) pinfo xs" using Cons.prems by simp
    from Cons.IH [OF this] Cons.prems True show ?thesis
      by (force simp: init_base_page_def mp)
  next
    case False
    have b: "building (fst (free_tail j (s, pinfo))) (snd (free_tail j (s, pinfo))) (xs @ [j])"
      using Cons.prems by (intro free_tail_building) auto
    have pre: "set js \<inter> set (xs @ [j]) = {}" "distinct js" using Cons.prems by auto
    have e: "fold init_base_page (j # js) (s, pinfo) =
        fold init_base_page js (fst (free_tail j (s, pinfo)), snd (free_tail j (s, pinfo)))"
      using False by (simp add: init_base_page_def mp)
    from Cons.IH [OF b pre] obtain s' pinfo' where IH:
      "fold init_base_page js (fst (free_tail j (s, pinfo)), snd (free_tail j (s, pinfo))) = (s', pinfo')"
      "building s' pinfo' ((xs @ [j]) @ filter (\<lambda>i. i \<noteq> 7) js)"
      "npages s' = npages s" "nextfree s' = nextfree s"
      "\<forall>p. pref s' p = (if p \<in> set js then if p = 7 then 1 else 0
                        else pref (fst (free_tail j (s, pinfo))) p)"
      by (metis free_tail_fields(1,2) fst_conv)
    with False show ?thesis unfolding e by (auto simp del: fold.simps)
  qed
qed simp

text \<open>
  \<open>nf\<close> is the boot allocator's first free address when \<open>page_init\<close> runs, so
  \<open>first_free\<close> is the page number below which the kernel's own data lies.
\<close>

definition first_free :: "u32 \<Rightarrow> nat" where
  "first_free nf = unat ((nf - KERNBASE) div PGSIZE)"

lemma ROUNDUP_aligned: "unat nf mod 4096 = 0 \<Longrightarrow> ROUNDUP nf PGSIZE = nf"
proof -
  assume m: "unat nf mod 4096 = 0"
  then obtain k where k: "unat nf = 4096 * k" by (auto simp: mod_eq_0_iff_dvd elim: dvdE)
  have "4096 * k < 2 ^ 32" using unat_u32_lt [of nf] k by simp
  then have b: "unat nf + 4095 < 2 ^ 32" using k by simp
  have "(4095 + unat nf) div 4096 * 4096 = unat nf" using k by simp
  then have "unat (ROUNDUP nf PGSIZE) = unat nf"
    using b by (subst unat_ROUNDUP) (simp_all add: PGSIZE_def)
  then show ?thesis by (rule unsigned_word_eqI)
qed

lemma boot_alloc_zero:
  assumes "nextfree s = nf" "nf \<noteq> 0" "unat nf mod 4096 = 0"
  shows "boot_alloc kend 0 PGSIZE s = Some (nf, s)"
  using assms by (simp add: boot_alloc_def ROUNDUP_aligned)

lemma init_ext_building:
  assumes "building s pinfo xs" "set js \<inter> set xs = {}" "distinct js"
    and "nextfree s = nf" "KERNBASE \<le> nf" "unat nf mod 4096 = 0"
  shows "\<exists>s' pinfo'. init_ext_pages kend js (s, pinfo) = Some (s', pinfo') \<and>
      building s' pinfo' (xs @ filter (\<lambda>i. first_free nf \<le> i) js) \<and> npages s' = npages s \<and>
      (\<forall>p. pref s' p = (if p \<in> set js then if p < first_free nf then 1 else 0 else pref s p))"
  using assms(1-4)
proof (induction js arbitrary: s pinfo xs)
  case (Cons j js)
  have "nf \<noteq> 0" using assms(5) by (auto simp: KERNBASE_def)
  then have ba: "boot_alloc kend 0 PGSIZE s = Some (nf, s)"
    using Cons.prems(4) assms(6) by (intro boot_alloc_zero)
  have pa: "PADDR nf = Some (nf - KERNBASE)" using assms(5) by (simp add: PADDR_def not_less)
  have pre: "set js \<inter> set xs = {}" "set js \<inter> set (xs @ [j]) = {}" "distinct js"
    using Cons.prems by auto
  show ?case
  proof (cases "j < first_free nf")
    case True
    have b: "building (set_ref j 1 s) pinfo xs" using Cons.prems(1) by simp
    have e: "init_ext_pages kend (j # js) (s, pinfo) = init_ext_pages kend js (set_ref j 1 s, pinfo)"
      using True by (simp add: ba pa first_free_def)
    from Cons.IH [OF b pre(1,3)] Cons.prems(4) obtain s' pinfo' where IH:
      "init_ext_pages kend js (set_ref j 1 s, pinfo) = Some (s', pinfo')"
      "building s' pinfo' (xs @ filter (\<lambda>i. first_free nf \<le> i) js)"
      "npages s' = npages s"
      "\<forall>p. pref s' p = (if p \<in> set js then if p < first_free nf then 1 else 0
                        else pref (set_ref j 1 s) p)"
      by auto
    with True show ?thesis unfolding e by (auto simp del: init_ext_pages.simps)
  next
    case False
    let ?t = "free_tail j (s, pinfo)"
    have b: "building (fst ?t) (snd ?t) (xs @ [j])"
      using Cons.prems by (intro free_tail_building) auto
    have e: "init_ext_pages kend (j # js) (s, pinfo) = init_ext_pages kend js (fst ?t, snd ?t)"
      using False by (simp add: ba pa first_free_def)
    from Cons.IH [OF b pre(2,3)] Cons.prems(4) obtain s' pinfo' where IH:
      "init_ext_pages kend js (fst ?t, snd ?t) = Some (s', pinfo')"
      "building s' pinfo' ((xs @ [j]) @ filter (\<lambda>i. first_free nf \<le> i) js)"
      "npages s' = npages s"
      "\<forall>p. pref s' p = (if p \<in> set js then if p < first_free nf then 1 else 0 else pref (fst ?t) p)"
      by auto
    with False show ?thesis unfolding e by (auto simp del: init_ext_pages.simps)
  qed
qed simp

lemma building_avail:
  assumes "building s pinfo xs" "\<forall>p\<in>set xs. p < npages s \<and> pref s p = 0" "npages s \<le> 2 ^ 20"
  shows "avail s xs"
  using assms by (auto simp: building_def avail_def dest: in_set_butlastD)

definition initial_free :: "nat \<Rightarrow> u32 \<Rightarrow> nat list" where
  "initial_free n nf =
     filter (\<lambda>i. i \<noteq> 7) [1..<160] @ filter (\<lambda>i. first_free nf \<le> i) [256..<n]"

text \<open>
  C6: on a zeroed \<open>pages\<close> array, \<open>page_init\<close> succeeds and leaves on the free list, in
  ascending order, exactly the base-memory pages other than page 0 and the multiprocessor entry
  page 7, and the extended-memory pages above the kernel's own data; every other page is marked
  as in use with reference count 1.
\<close>

theorem page_init_correct:
  assumes "pages s = (\<lambda>_. \<lparr>pp_link = None, pp_ref = 0\<rparr>)" "page_free_list s = None"
    and "npages_basemem s = 160" "256 \<le> npages s" "npages s \<le> 2 ^ 20"
    and "nextfree s = nf" "KERNBASE \<le> nf" "unat nf mod 4096 = 0"
  shows "\<exists>s'. page_init kend s = Some s' \<and> avail s' (initial_free (npages s) nf) \<and>
    (\<forall>p<npages s. pref s' p = (if p \<in> set (initial_free (npages s) nf) then 0 else 1))"
proof -
  let ?base = "filter (\<lambda>i. i \<noteq> 7) [1..<160]"
  have b0: "building (set_ref 0 1 s) None []" using assms by (simp add: building_def)
  obtain s1 pi1 where s1: "fold init_base_page [1..<160] (set_ref 0 1 s, None) = (s1, pi1)"
    "building s1 pi1 ?base" "npages s1 = npages s" "nextfree s1 = nf"
    "\<forall>p. pref s1 p = (if p \<in> set [1..<160] then if p = 7 then 1 else 0 else if p = 0 then 1 else 0)"
    using fold_base_building [OF b0, of "[1..<160]"] assms by auto
  let ?s2 = "fold (\<lambda>i. set_ref i 1) [160..<256] s1"
  have b2: "building ?s2 pi1 ?base" using s1(2) by simp
  have pre: "set [256..<npages s] \<inter> set ?base = {}" "distinct [256..<npages s]" by auto
  obtain s3 pi3 where s3: "init_ext_pages kend [256..<npages s] (?s2, pi1) = Some (s3, pi3)"
    "building s3 pi3 (initial_free (npages s) nf)" "npages s3 = npages s"
    "\<forall>p. pref s3 p = (if p \<in> set [256..<npages s] then if p < first_free nf then 1 else 0
                      else pref ?s2 p)"
    using init_ext_building [OF b2 pre, of nf kend] assms(7,8) s1(3,4)
    by (auto simp: initial_free_def)
  have c: "unat (IOPHYSMEM div PGSIZE) = 160" "unat (EXTPHYSMEM div PGSIZE) = 256"
    by (simp_all add: kdefs)
  have "page_init kend s = Some s3"
    using s1(1) s3(1) assms(3) by (simp add: page_init_def c Let_def)
  moreover have r: "pref s3 p = (if p \<in> set (initial_free (npages s) nf) then 0 else 1)"
    if "p < npages s" for p
    using that s1(5) s3(4) assms(4) by (auto simp: initial_free_def)
  moreover have "avail s3 (initial_free (npages s) nf)"
    using s3(2,3) assms(4,5) r by (intro building_avail) (auto simp: initial_free_def)
  ultimately show ?thesis by blast
qed

theorem page_init_correct_witness:
  "\<exists>s'. page_init 0xF0100000 \<lparr>npages = 512, npages_basemem = 160, nextfree = 0xF0180000,
       pages = (\<lambda>_. \<lparr>pp_link = None, pp_ref = 0\<rparr>), page_free_list = None, phys = (\<lambda>_ _. 0),
       kern_pgdir = 0, mmio_base = MMIOBASE, invlpgs = []\<rparr> = Some s' \<and>
     avail s' (initial_free 512 0xF0180000) \<and> pref s' 0x180 = 0 \<and> pref s' 0x17F = 1"
proof -
  let ?s = "\<lparr>npages = 512, npages_basemem = 160, nextfree = 0xF0180000,
       pages = (\<lambda>_. \<lparr>pp_link = None, pp_ref = 0\<rparr>), page_free_list = None, phys = (\<lambda>_ _. 0),
       kern_pgdir = 0, mmio_base = MMIOBASE, invlpgs = []\<rparr> :: pmem"
  have "first_free 0xF0180000 = 384" by (simp add: first_free_def kdefs)
  then have "384 \<in> set (initial_free 512 0xF0180000)" "383 \<notin> set (initial_free 512 0xF0180000)"
    by (simp_all add: initial_free_def)
  then show ?thesis
    using page_init_correct [of ?s "0xF0180000" "0xF0100000"] by (auto simp: KERNBASE_def)
qed

end
