(* ===== verification/Page_Table.thy ===== *)
theory Page_Table
  imports Page_Alloc
begin

text \<open>
  The two-level page tables of \<^verbatim>\<open>kern/pmap.c\<close>: walking, inserting, looking up and removing
  mappings, the boot-time mapping loops, the checks on user pointers and the MMIO window.

  A \<open>pde_t *\<close> page directory is the number of the frame that holds it, and a
  \<open>pte_t *\<close> is the pair of the frame of the page table and the entry's index, the two
  parts of the address \<open>KADDR(pa) + PTX(va)\<close>; the panics of \<open>KADDR\<close> and
  \<open>pa2page\<close> on page numbers beyond \<open>npages\<close> are kept.
\<close>

type_synonym ptep = "nat \<times> nat"

definition get_pte :: "'z pmem_scheme \<Rightarrow> ptep \<Rightarrow> u32" where
  "get_pte s p = phys s (fst p) (snd p)"

definition set_pte :: "ptep \<Rightarrow> u32 \<Rightarrow> 'z pmem_scheme \<Rightarrow> 'z pmem_scheme" where
  "set_pte p v s = s\<lparr>phys := (phys s)(fst p := (phys s (fst p))(snd p := v))\<rparr>"

section \<open>Walking\<close>

definition pgdir_walk ::
  "nat \<Rightarrow> u32 \<Rightarrow> bool \<Rightarrow> 'z pmem_scheme \<Rightarrow> (ptep option \<times> 'z pmem_scheme) option" where
  "pgdir_walk pgdir va create s = do {
     (walked, s) \<leftarrow>
       (if \<not> present (get_pte s (pgdir, pdx va)) then
          if create then do {
            (r, s) \<leftarrow> page_alloc ALLOC_ZERO s;
            case r of
              None \<Rightarrow> Some (False, s)
            | Some page_info \<Rightarrow>
                let s = set_ref page_info (pref s page_info + 1) s;
                    pa = page2pa page_info
                in Some (True, set_pte (pgdir, pdx va) (pa OR PTE_P OR PTE_W OR PTE_U) s)
          }
          else Some (False, s)
        else Some (True, s));
     if walked then do {
       _ \<leftarrow> KADDR s (PTE_ADDR (get_pte s (pgdir, pdx va)));
       Some (Some (ppn_of (get_pte s (pgdir, pdx va)), ptx va), s)
     }
     else Some (None, s)
   }"

section \<open>Lookup, removal, insertion\<close>

definition page_lookup ::
  "nat \<Rightarrow> u32 \<Rightarrow> 'z pmem_scheme \<Rightarrow> (nat \<times> ptep) option option" where
  "page_lookup pgdir va s = do {
     (entry, _) \<leftarrow> pgdir_walk pgdir va False s;
     case entry of
       None \<Rightarrow> Some None
     | Some e \<Rightarrow>
         if \<not> present (get_pte s e) then Some None
         else do { pp \<leftarrow> pa2page s (PTE_ADDR (get_pte s e)); Some (Some (pp, e)) }
   }"

definition tlb_invalidate :: "u32 \<Rightarrow> 'z pmem_scheme \<Rightarrow> 'z pmem_scheme" where
  "tlb_invalidate va s = s\<lparr>invlpgs := va # invlpgs s\<rparr>"

definition page_remove :: "nat \<Rightarrow> u32 \<Rightarrow> 'z pmem_scheme \<Rightarrow> 'z pmem_scheme option" where
  "page_remove pgdir va s = do {
     r \<leftarrow> page_lookup pgdir va s;
     case r of
       None \<Rightarrow> Some s
     | Some (info, tab_entry) \<Rightarrow> do {
         s \<leftarrow> page_decref info (set_pte tab_entry 0 s);
         Some (tlb_invalidate va s)
       }
   }"

text \<open>
  The page to insert is an \<open>option\<close>: \<open>page_insert\<close> of a NULL pointer reports
  \<open>E_NO_MEM\<close> if the walk fails and otherwise dereferences NULL at \<open>++pp->pp_ref\<close>.
\<close>

definition page_insert ::
  "nat \<Rightarrow> nat option \<Rightarrow> u32 \<Rightarrow> u32 \<Rightarrow> 'z pmem_scheme \<Rightarrow>
   ((jos_error + unit) \<times> 'z pmem_scheme) option" where
  "page_insert pgdir pp va perm s = do {
     (r, s) \<leftarrow> pgdir_walk pgdir va True s;
     case r of
       None \<Rightarrow> Some (Inl E_NO_MEM, s)
     | Some tab_entry \<Rightarrow>
         (case pp of
            None \<Rightarrow> None
          | Some p \<Rightarrow> do {
              let s = set_ref p (pref s p + 1) s;
              s \<leftarrow> (if present (get_pte s tab_entry) then page_remove pgdir va s else Some s);
              Some (Inr (), set_pte tab_entry (page2pa p OR perm OR PTE_P) s)
            })
   }"

section \<open>Boot-time mappings\<close>

fun boot_map_loop ::
  "nat \<Rightarrow> nat \<Rightarrow> u32 \<Rightarrow> u32 \<Rightarrow> u32 \<Rightarrow> 'z pmem_scheme \<Rightarrow> 'z pmem_scheme option" where
  "boot_map_loop pgdir 0 va pa perm s = Some s"
| "boot_map_loop pgdir (Suc n) va pa perm s = do {
     (r, s) \<leftarrow> pgdir_walk pgdir va True s;
     case r of
       None \<Rightarrow> None
     | Some tab_entry \<Rightarrow>
         boot_map_loop pgdir n (va + PGSIZE) (pa + PGSIZE) perm
           (set_pte tab_entry (pa OR perm OR PTE_P) s)
   }"

definition boot_map_region ::
  "nat \<Rightarrow> u32 \<Rightarrow> u32 \<Rightarrow> u32 \<Rightarrow> u32 \<Rightarrow> 'z pmem_scheme \<Rightarrow> 'z pmem_scheme option" where
  "boot_map_region pgdir va sz pa perm s =
    (if sz AND (PGSIZE - 1) \<noteq> 0 \<or> va AND (PGSIZE - 1) \<noteq> 0 \<or> pa AND (PGSIZE - 1) \<noteq> 0 then None
     else boot_map_loop pgdir (unat (sz div PGSIZE)) va pa perm s)"

fun boot_map_superloop ::
  "nat \<Rightarrow> nat \<Rightarrow> u32 \<Rightarrow> u32 \<Rightarrow> u32 \<Rightarrow> 'z pmem_scheme \<Rightarrow> 'z pmem_scheme option" where
  "boot_map_superloop pgdir 0 va pa perm s = Some s"
| "boot_map_superloop pgdir (Suc n) va pa perm s =
    (if present (get_pte s (pgdir, pdx va)) then None
     else boot_map_superloop pgdir n (va + PTSIZE) (pa + PTSIZE) perm
            (set_pte (pgdir, pdx va) (pa OR perm OR PTE_P OR PTE_PS) s))"

definition boot_map_superpage ::
  "nat \<Rightarrow> u32 \<Rightarrow> u32 \<Rightarrow> u32 \<Rightarrow> u32 \<Rightarrow> 'z pmem_scheme \<Rightarrow> 'z pmem_scheme option" where
  "boot_map_superpage pgdir va sz pa perm s =
    (if sz AND (PTSIZE - 1) \<noteq> 0 \<or> va AND (PTSIZE - 1) \<noteq> 0 \<or> pa AND (PTSIZE - 1) \<noteq> 0 then None
     else boot_map_superloop pgdir (unat (sz div PTSIZE)) va pa perm s)"

section \<open>User pointer checks\<close>

text \<open>
  The loop variable and its bound are page aligned, so the loop's additions do not wrap and the
  loop is written over naturals. On an error the second component is the value stored in
  \<open>user_mem_check_addr\<close>.
\<close>

function um_loop ::
  "nat \<Rightarrow> u32 \<Rightarrow> u32 \<Rightarrow> nat \<Rightarrow> nat \<Rightarrow> 'z pmem_scheme \<Rightarrow> (jos_error \<times> u32 + unit) option" where
  "um_loop pgdir va perm cur_va end_va s =
    (if cur_va < end_va then do {
       (pte, _) \<leftarrow> pgdir_walk pgdir (word_of_nat cur_va) False s;
       if (case pte of None \<Rightarrow> True | Some e \<Rightarrow> get_pte s e AND perm \<noteq> perm)
       then Some (Inl (E_FAULT, if word_of_nat cur_va < va then va else word_of_nat cur_va))
       else um_loop pgdir va perm (cur_va + 4096) end_va s
     }
     else Some (Inr ()))"
  by pat_completeness auto
termination
  by (relation "measure (\<lambda>(pgdir, va, perm, cur_va, end_va, s). end_va - cur_va)") auto

declare um_loop.simps [simp del]

definition user_mem_check ::
  "nat \<Rightarrow> u32 \<Rightarrow> u32 \<Rightarrow> u32 \<Rightarrow> 'z pmem_scheme \<Rightarrow> (jos_error \<times> u32 + unit) option" where
  "user_mem_check pgdir va len perm s =
    (if va > NOT 0 - len + 1 then Some (Inl (E_FAULT, NOT 0))
     else
       let start_va = ROUNDDOWN va PGSIZE;
           end_va = ROUNDUP (va + len - 1) PGSIZE
       in um_loop pgdir va (perm OR PTE_P) (unat start_va) (unat end_va) s)"

section \<open>MMIO\<close>

definition mmio_map_region :: "u32 \<Rightarrow> u32 \<Rightarrow> 'z pmem_scheme \<Rightarrow> (u32 \<times> 'z pmem_scheme) option" where
  "mmio_map_region lapicaddr sz s =
    (let start = ROUNDDOWN lapicaddr PGSIZE;
         endp = ROUNDUP (lapicaddr + sz) PGSIZE;
         sz = endp - start
     in if mmio_base s + sz > MMIOLIM then None
        else do {
          s \<leftarrow> boot_map_region (kern_pgdir s) (mmio_base s) sz start (PTE_W OR PTE_PCD OR PTE_PWT) s;
          let s = s\<lparr>mmio_base := mmio_base s + sz\<rparr>;
          Some (mmio_base s - sz, s)
        })"

end
