(* ===== verification/Vm_Invariant.thy ===== *)
theory Vm_Invariant
  imports Page_Table
begin

text \<open>
  The invariant that ties page reference counts to page tables: for a set \<open>D\<close> of page
  directories, the count of every page is the number of places that refer to it (a directory of
  \<open>D\<close>, a user page directory entry or a user page table entry) plus the references the
  kernel holds otherwise. It follows that a page on the free list is mapped nowhere, that page
  tables are not shared, and that a page table is never mapped as data.
\<close>

section \<open>Reference sites\<close>

datatype site = Dir nat | Pde nat nat | Pte nat nat nat

definition entry_target :: "u32 \<Rightarrow> nat option" where
  "entry_target e = (if present e then Some (ppn_of e) else None)"

fun site_target :: "'z pmem_scheme \<Rightarrow> site \<Rightarrow> nat option" where
  "site_target s (Dir d) = Some d"
| "site_target s (Pde d i) = entry_target (phys s d i)"
| "site_target s (Pte d i j) =
     (case entry_target (phys s d i) of None \<Rightarrow> None | Some t \<Rightarrow> entry_target (phys s t j))"

definition all_sites :: "nat set \<Rightarrow> site set" where
  "all_sites D = Dir ` D \<union> (\<lambda>(d, i). Pde d i) ` (D \<times> {..<NUPDE}) \<union>
     (\<lambda>(d, i, j). Pte d i j) ` (D \<times> {..<NUPDE} \<times> {..<1024})"

definition ref_sites :: "'z pmem_scheme \<Rightarrow> nat set \<Rightarrow> nat \<Rightarrow> site set" where
  "ref_sites s D p = {x \<in> all_sites D. site_target s x = Some p}"

definition refs :: "'z pmem_scheme \<Rightarrow> nat set \<Rightarrow> nat \<Rightarrow> nat" where
  "refs s D p = card (ref_sites s D p)"

lemma all_sites_iff [simp]:
  "Dir d \<in> all_sites D \<longleftrightarrow> d \<in> D"
  "Pde d i \<in> all_sites D \<longleftrightarrow> d \<in> D \<and> i < NUPDE"
  "Pte d i j \<in> all_sites D \<longleftrightarrow> d \<in> D \<and> i < NUPDE \<and> j < 1024"
  by (auto simp: all_sites_def image_iff)

lemma finite_all_sites [simp]: "finite D \<Longrightarrow> finite (all_sites D)"
  by (simp add: all_sites_def)

lemma finite_ref_sites [simp]: "finite D \<Longrightarrow> finite (ref_sites s D p)"
  by (simp add: ref_sites_def)

lemma refs_cong:
  "(\<And>x. x \<in> all_sites D \<Longrightarrow> site_target s x = site_target s' x) \<Longrightarrow> refs s D p = refs s' D p"
  unfolding refs_def ref_sites_def by (rule arg_cong [where f = card]) auto

lemma refs_pos: "finite D \<Longrightarrow> x \<in> all_sites D \<Longrightarrow> site_target s x = Some p \<Longrightarrow> 0 < refs s D p"
  unfolding refs_def using finite_ref_sites [of D s p]
  by (subst card_gt_0_iff) (auto simp: ref_sites_def)

lemma refs_two:
  assumes "finite D" "x \<in> all_sites D" "y \<in> all_sites D" "x \<noteq> y"
    and "site_target s x = Some p" "site_target s y = Some p"
  shows "2 \<le> refs s D p"
proof -
  have "card {x, y} \<le> refs s D p"
    unfolding refs_def using assms finite_ref_sites [of D s p]
    by (intro card_mono) (auto simp: ref_sites_def)
  with assms(4) show ?thesis by simp
qed

text \<open>Changing the target of one site changes the counts by one at most.\<close>

lemma refs_update:
  assumes "finite D" "x \<in> all_sites D"
    and "\<And>y. y \<in> all_sites D \<Longrightarrow> site_target s' y = (if y = x then v else site_target s y)"
  shows "refs s' D p + (if site_target s x = Some p then 1 else 0) =
         refs s D p + (if v = Some p then 1 else 0)"
proof -
  let ?R = "ref_sites s D p - {x}"
  have s': "ref_sites s' D p = (if v = Some p then insert x ?R else ?R)"
    using assms(2,3) by (auto simp: ref_sites_def split: if_splits)
  have s: "ref_sites s D p = (if site_target s x = Some p then insert x ?R else ?R)"
    using assms(2) by (auto simp: ref_sites_def)
  have R: "finite ?R" "x \<notin> ?R" using assms(1) by auto
  have "refs s' D p = card ?R + (if v = Some p then 1 else 0)"
    unfolding refs_def s' using card_insert_disjoint [OF R] by simp
  moreover have "refs s D p = card ?R + (if site_target s x = Some p then 1 else 0)"
    unfolding refs_def using card_insert_disjoint [OF R] by (subst s) simp
  ultimately show ?thesis by simp
qed

section \<open>The invariant\<close>

text \<open>The sites that make a page a directory or a page table.\<close>

fun structural :: "site \<Rightarrow> bool" where
  "structural (Dir d) = True"
| "structural (Pde d i) = True"
| "structural (Pte d i j) = False"

definition vm_inv :: "'z pmem_scheme \<Rightarrow> nat set \<Rightarrow> (nat \<Rightarrow> nat) \<Rightarrow> nat list \<Rightarrow> bool" where
  "vm_inv s D held ps \<longleftrightarrow>
     avail s ps \<and> finite D \<and>
     (\<forall>x\<in>all_sites D. \<forall>p. site_target s x = Some p \<longrightarrow> p < npages s) \<and>
     (\<forall>x\<in>all_sites D. \<forall>p. structural x \<longrightarrow> site_target s x = Some p \<longrightarrow>
        pref s p = 1 \<and> held p = 0) \<and>
     (\<forall>p<npages s. unat (pref s p) = refs s D p + held p)"

definition is_table :: "'z pmem_scheme \<Rightarrow> nat set \<Rightarrow> nat \<Rightarrow> bool" where
  "is_table s D t \<longleftrightarrow> t \<in> D \<or> (\<exists>d\<in>D. \<exists>i<NUPDE. entry_target (phys s d i) = Some t)"

lemma vm_invI:
  assumes "avail s ps" "finite D"
    and "\<And>x p. x \<in> all_sites D \<Longrightarrow> site_target s x = Some p \<Longrightarrow> p < npages s"
    and "\<And>x p. x \<in> all_sites D \<Longrightarrow> structural x \<Longrightarrow> site_target s x = Some p \<Longrightarrow>
      pref s p = 1 \<and> held p = 0"
    and "\<And>p. p < npages s \<Longrightarrow> unat (pref s p) = refs s D p + held p"
  shows "vm_inv s D held ps"
  using assms unfolding vm_inv_def by blast

lemma vm_avail: "vm_inv s D held ps \<Longrightarrow> avail s ps"
  by (simp add: vm_inv_def)

lemma vm_finite: "vm_inv s D held ps \<Longrightarrow> finite D"
  by (simp add: vm_inv_def)

lemma vm_target_lt:
  "vm_inv s D held ps \<Longrightarrow> x \<in> all_sites D \<Longrightarrow> site_target s x = Some p \<Longrightarrow> p < npages s"
  by (auto simp: vm_inv_def)

lemma vm_count: "vm_inv s D held ps \<Longrightarrow> p < npages s \<Longrightarrow> unat (pref s p) = refs s D p + held p"
  by (auto simp: vm_inv_def)

lemma vm_npages: "vm_inv s D held ps \<Longrightarrow> npages s \<le> 2 ^ 20"
  by (simp add: vm_inv_def avail_def)

lemma vm_dir: "vm_inv s D held ps \<Longrightarrow> d \<in> D \<Longrightarrow> d < npages s \<and> pref s d = 1 \<and> refs s D d = 1"
proof -
  assume v: "vm_inv s D held ps" "d \<in> D"
  have a: "d < npages s" using vm_target_lt [OF v(1), of "Dir d"] v(2) by simp
  have "Dir d \<in> all_sites D" "structural (Dir d)" "site_target s (Dir d) = Some d"
    using v(2) by auto
  then have b: "pref s d = 1 \<and> held d = 0" using v(1) unfolding vm_inv_def by blast
  with a vm_count [OF v(1) a] show ?thesis by simp
qed

lemma vm_table:
  assumes "vm_inv s D held ps" "d \<in> D" "i < NUPDE" "entry_target (phys s d i) = Some t"
  shows "t < npages s" "pref s t = 1" "refs s D t = 1"
proof -
  have x: "Pde d i \<in> all_sites D" "site_target s (Pde d i) = Some t" "structural (Pde d i)"
    using assms by auto
  show a: "t < npages s" using vm_target_lt [OF assms(1) x(1,2)] .
  have b: "pref s t = 1 \<and> held t = 0"
    using assms(1) x unfolding vm_inv_def by blast
  then show "pref s t = 1" "refs s D t = 1" using vm_count [OF assms(1) a] by simp_all
qed

lemma vm_table_unique:
  assumes v: "vm_inv s D held ps" and t: "is_table s D t"
    and x: "x \<in> all_sites D" "site_target s x = Some t"
    and y: "y \<in> all_sites D" "site_target s y = Some t"
  shows "x = y"
proof (rule ccontr)
  assume "x \<noteq> y"
  then have "2 \<le> refs s D t" using vm_finite [OF v] x y by (intro refs_two)
  moreover have "refs s D t = 1"
    using t vm_dir [OF v] vm_table [OF v] by (auto simp: is_table_def)
  ultimately show False by simp
qed

text \<open>A free page is referred to by nothing.\<close>

lemma vm_free_unreferenced:
  assumes "vm_inv s D held ps" "p \<in> set ps" "x \<in> all_sites D"
  shows "site_target s x \<noteq> Some p"
proof
  assume "site_target s x = Some p"
  then have "0 < refs s D p" using assms vm_finite by (intro refs_pos)
  moreover have "unat (pref s p) = 0" "p < npages s"
    using vm_avail [OF assms(1)] assms(2) by (auto simp: avail_def)
  ultimately show False using vm_count [OF assms(1), of p] by simp
qed

lemma vm_free_not_table: "vm_inv s D held ps \<Longrightarrow> p \<in> set ps \<Longrightarrow> \<not> is_table s D p"
  using vm_free_unreferenced [of s D held ps p "Dir p"]
    vm_free_unreferenced [of s D held ps p "Pde d i" for d i]
  by (auto simp: is_table_def)

lemma vm_structural:
  "vm_inv s D held ps \<Longrightarrow> x \<in> all_sites D \<Longrightarrow> structural x \<Longrightarrow> site_target s x = Some p \<Longrightarrow>
   pref s p = 1 \<and> held p = 0 \<and> is_table s D p"
proof -
  assume a: "vm_inv s D held ps" "x \<in> all_sites D" "structural x" "site_target s x = Some p"
  then have "pref s p = 1 \<and> held p = 0" unfolding vm_inv_def by blast
  moreover from a(2-4) have "is_table s D p" by (cases x) (auto simp: is_table_def)
  ultimately show ?thesis by simp
qed

lemma is_table_site: "is_table s D t \<Longrightarrow> \<exists>x\<in>all_sites D. structural x \<and> site_target s x = Some t"
proof -
  assume "is_table s D t"
  then consider "t \<in> D" | d i where "d \<in> D" "i < NUPDE" "entry_target (phys s d i) = Some t"
    by (auto simp: is_table_def)
  then show ?thesis
  proof cases
    case 1
    then show ?thesis by (intro bexI [of _ "Dir t"]) auto
  next
    case 2
    then show ?thesis by (intro bexI [of _ "Pde d i"]) auto
  qed
qed

lemma vm_table_held: "vm_inv s D held ps \<Longrightarrow> is_table s D t \<Longrightarrow> pref s t = 1 \<and> held t = 0"
  using is_table_site vm_structural by blast

text \<open>What a user page table entry maps is never a directory or a page table.\<close>

lemma vm_mapped_not_table:
  assumes "vm_inv s D held ps" "Pte d i j \<in> all_sites D" "site_target s (Pte d i j) = Some p"
  shows "\<not> is_table s D p"
proof
  assume t: "is_table s D p"
  from is_table_site [OF t] obtain x where "x \<in> all_sites D" "structural x" "site_target s x = Some p"
    by blast
  with vm_table_unique [OF assms(1) t _ _ assms(2,3)] show False by fastforce
qed

section \<open>Elementary steps that keep the invariant\<close>

text \<open>The kernel takes a further reference to a page that is not a page table.\<close>

lemma vm_hold:
  assumes v: "vm_inv s D held ps" and p: "\<not> is_table s D p" "p \<notin> set ps" "p < npages s"
    "unat (pref s p) < 65535"
  shows "vm_inv (set_ref p (pref s p + 1) s) D (held(p := held p + 1)) ps"
proof -
  let ?s = "set_ref p (pref s p + 1) s"
  have st: "site_target ?s x = site_target s x" for x by (cases x) (auto split: option.splits)
  have rf: "refs ?s D q = refs s D q" for q by (rule refs_cong) (rule st)
  have un: "unat (pref s p + 1) = unat (pref s p) + 1"
    using p(4) by (intro trans [OF unat_add_no_wrap]) simp_all
  have "q \<noteq> p" if "x \<in> all_sites D" "structural x" "site_target s x = Some q" for x q
    using vm_structural [OF v that] p(1) by auto
  then show ?thesis
    unfolding vm_inv_def st rf using v un p(2,3) vm_count [OF v, of p]
    by (auto simp: vm_inv_def)
qed

text \<open>
  Writing a user page table entry moves references between the table and the kernel's
  account: the page the old entry mapped is now held, the page the new one maps no longer is.
\<close>

lemma set_pte_site_target:
  assumes v: "vm_inv s D held ps" and d: "d \<in> D" "i < NUPDE" "entry_target (phys s d i) = Some t"
    and y: "y \<in> all_sites D"
  shows "site_target (set_pte (t, j) e s) y =
    (if y = Pte d i j then entry_target e else site_target s y)"
proof -
  have tab: "is_table s D t" using d by (auto simp: is_table_def)
  have uniq: "z = Pde d i" if "z \<in> all_sites D" "site_target s z = Some t" for z
    using vm_table_unique [OF v tab that, of "Pde d i"] d by simp
  have nd: "d' \<noteq> t" if "d' \<in> D" for d' using uniq [of "Dir d'"] that by auto
  have pde: "d' = d \<and> i' = i" if "d' \<in> D" "i' < NUPDE" "entry_target (phys s d' i') = Some t" for d' i'
    using uniq [of "Pde d' i'"] that by auto
  from y d nd show ?thesis
    by (cases y) (auto simp: set_pte_def split: option.splits dest: pde)
qed

lemma vm_write_pte:
  assumes v: "vm_inv s D held ps" and d: "d \<in> D" "i < NUPDE" "entry_target (phys s d i) = Some t"
    and j: "j < 1024"
    and new: "\<And>q. entry_target e = Some q \<Longrightarrow> q < npages s \<and> \<not> is_table s D q \<and> 0 < held q"
    and held': "\<And>q. held' q + (if entry_target e = Some q then 1 else 0) =
                 held q + (if entry_target (phys s t j) = Some q then 1 else 0)"
  shows "vm_inv (set_pte (t, j) e s) D held' ps"
proof -
  let ?s = "set_pte (t, j) e s"
  have st: "site_target ?s y = (if y = Pte d i j then entry_target e else site_target s y)"
    if "y \<in> all_sites D" for y by (rule set_pte_site_target [OF v d that])
  have x: "Pte d i j \<in> all_sites D" "site_target s (Pte d i j) = entry_target (phys s t j)"
    using d j by auto
  have rf: "refs ?s D q + (if entry_target (phys s t j) = Some q then 1 else 0) =
            refs s D q + (if entry_target e = Some q then 1 else 0)" for q
    using refs_update [OF vm_finite [OF v] x(1), of ?s "entry_target e" s q] st x(2) by simp
  have f: "npages ?s = npages s" "pref ?s q = pref s q" for q by (simp_all add: set_pte_def)
  have "held' q = 0" if "is_table s D q" for q
  proof -
    have "held q = 0" using vm_table_held [OF v that] by simp
    moreover have "entry_target (phys s t j) \<noteq> Some q"
      using vm_mapped_not_table [OF v x(1)] x(2) that by auto
    ultimately show ?thesis using held' [of q] by auto
  qed
  moreover have "unat (pref s q) = refs ?s D q + held' q" if "q < npages s" for q
    using rf [of q] held' [of q] vm_count [OF v that] by simp
  moreover have "avail ?s ps" using vm_avail [OF v] by (simp add: set_pte_def)
  ultimately show ?thesis
    unfolding vm_inv_def f using v st vm_structural [OF v] new vm_target_lt [OF v]
    by (auto simp: vm_inv_def)
qed

text \<open>The kernel gives up a reference; the page is freed when it was the last one.\<close>

lemma vm_decref:
  assumes v: "vm_inv s D held ps" and p: "p < npages s" "0 < held p"
  shows "\<exists>s' ps'. page_decref p s = Some s' \<and> vm_inv s' D (held(p := held p - 1)) ps' \<and>
    ps' = (if pref s p = 1 then p # ps else ps) \<and> phys s' = phys s \<and> npages s' = npages s \<and>
    (\<forall>q. pref s' q = (if q = p then pref s p - 1 else pref s q))"
proof -
  have cnt: "unat (pref s p) = refs s D p + held p" using vm_count [OF v p(1)] .
  then have nz: "pref s p \<noteq> 0" using p(2) by auto
  have nt: "\<not> is_table s D p" using vm_table_held [OF v] p(2) by auto
  have dec: "unat (pref s p - 1) = unat (pref s p) - 1"
    using nz by (rule unat_minus_one)
  have step: "vm_inv s' D (held(p := held p - 1)) ps'"
    if "avail s' ps'" "phys s' = phys s" "npages s' = npages s"
      "\<forall>q. pref s' q = (if q = p then pref s p - 1 else pref s q)" for s' :: "'a pmem_scheme" and ps'
  proof -
    have st: "site_target s' x = site_target s x" for x
      using that(2) by (cases x) (auto split: option.splits)
    have rf: "refs s' D q = refs s D q" for q by (rule refs_cong) (rule st)
    have "q \<noteq> p" if "x \<in> all_sites D" "structural x" "site_target s x = Some q" for x q
      using vm_structural [OF v that] nt by auto
    then show ?thesis
      unfolding vm_inv_def st rf using v that dec cnt p(2)
      by (auto simp: vm_inv_def)
  qed
  show ?thesis
  proof (cases "pref s p = 1")
    case True
    from page_decref_last [OF vm_avail [OF v] True p(1)] obtain s' where s':
      "page_decref p s = Some s'" "avail s' (p # ps)" "phys s' = phys s" "npages s' = npages s"
      "\<forall>q. pref s' q = (if q = p then 0 else pref s q)" by blast
    with step [of s' "p # ps"] True show ?thesis by auto
  next
    case False
    note k = page_decref_keep [OF vm_avail [OF v] nz False]
    with step [OF k(2)] False show ?thesis by auto
  qed
qed

end
