(* ===== verification/Address_Space.thy ===== *)
theory Address_Space
  imports Vm_Invariant
begin

text \<open>
  The page-table operations seen as operations on address spaces: \<open>user_pte s d va\<close> is the
  entry that maps the user address \<open>va\<close> in directory \<open>d\<close>, if there is one. The
  theorems say what \<open>page_insert\<close>, \<open>page_lookup\<close> and \<open>page_remove\<close> do to this
  map, that they leave every other mapping of every other address space alone, and that they
  keep the reference-count invariant of \<^verbatim>\<open>Vm_Invariant\<close>.
\<close>

section \<open>Address spaces\<close>

definition user_pte :: "'z pmem_scheme \<Rightarrow> nat \<Rightarrow> u32 \<Rightarrow> u32 option" where
  "user_pte s d va =
    (case entry_target (phys s d (pdx va)) of
       None \<Rightarrow> None
     | Some t \<Rightarrow> if present (phys s t (ptx va)) then Some (phys s t (ptx va)) else None)"

lemma pdx_div: "pdx va = unat va div 4194304"
proof -
  have "PDX va = take_bit 10 (drop_bit 22 va)"
    by (simp add: PDX_def mask10 take_bit_eq_mask)
  then have "pdx va = unat va div 4194304 mod 1024"
    by (simp add: take_bit_eq_mod drop_bit_eq_div unat_div unat_mod)
  moreover have "unat va div 4194304 < 1024" using unat_u32_lt [of va] by linarith
  ultimately show ?thesis by simp
qed

lemma pdx_user: "va < UTOP \<Longrightarrow> pdx va < NUPDE"
proof -
  assume "va < UTOP"
  then have "unat va < 4005560320" by (simp add: word_less_nat_alt kdefs)
  then show ?thesis by (simp add: pdx_div NUPDE_eq)
qed

lemma pte_site: "d \<in> D \<Longrightarrow> va < UTOP \<Longrightarrow> Pte d (pdx va) (ptx va) \<in> all_sites D"
  by (simp add: pdx_user)

lemma user_pte_site: "user_pte s d va = Some e \<Longrightarrow> site_target s (Pte d (pdx va) (ptx va)) = Some (ppn_of e)"
  by (auto simp: user_pte_def entry_target_def split: option.splits if_splits)

lemma entry_target_Some [simp]: "entry_target e = Some t \<longleftrightarrow> present e \<and> ppn_of e = t"
  by (auto simp: entry_target_def)

lemma entry_target_None [simp]: "entry_target e = None \<longleftrightarrow> \<not> present e"
  by (auto simp: entry_target_def)

lemma entry_target_0 [simp]: "entry_target 0 = None"
  by simp

section \<open>Walking\<close>

lemma walk_present:
  assumes v: "vm_inv s D held ps" "d \<in> D" "va < UTOP" and t: "entry_target (phys s d (pdx va)) = Some t"
  shows "pgdir_walk d va create s = Some (Some (t, ptx va), s)"
proof -
  have "t < npages s" using vm_table(1) [OF v(1,2) pdx_user [OF v(3)] t] .
  with t show ?thesis by (simp add: pgdir_walk_def get_pte_def KADDR_def ppn_of_def)
qed

lemma walk_absent:
  "entry_target (phys s d (pdx va)) = None \<Longrightarrow> pgdir_walk d va False s = Some (None, s)"
  by (simp add: pgdir_walk_def get_pte_def)

lemma walk_no_memory:
  "avail s [] \<Longrightarrow> entry_target (phys s d (pdx va)) = None \<Longrightarrow> pgdir_walk d va True s = Some (None, s)"
  by (simp add: pgdir_walk_def get_pte_def page_alloc_Nil)

definition table_pde :: "nat \<Rightarrow> u32" where
  "table_pde p = page2pa p OR PTE_P OR PTE_W OR PTE_U"

lemma pde_entry:
  assumes "p < 2 ^ 20"
  shows "present (table_pde p)" "ppn_of (table_pde p) = p"
proof -
  have e: "table_pde p = page2pa p OR (PTE_W OR PTE_U) OR PTE_P"
    by (simp add: table_pde_def or.assoc or.commute or.left_commute)
  have "(PTE_W OR PTE_U) AND NOT 0xFFF = (0 :: u32)" by (simp add: kdefs)
  with assms show "present (table_pde p)" "ppn_of (table_pde p) = p"
    unfolding e by (simp_all add: present_entry ppn_of_entry)
qed

text \<open>The state after the walk has allocated the page table \<open>p\<close>.\<close>

definition walk_result :: "nat \<Rightarrow> u32 \<Rightarrow> nat \<Rightarrow> 'z pmem_scheme \<Rightarrow> 'z pmem_scheme" where
  "walk_result d va p s =
     set_pte (d, pdx va) (table_pde p)
       (set_ref p (pref s p + 1) (alloc_result ALLOC_ZERO p s))"

lemma walk_result_fields [simp]:
  "npages (walk_result d va p s) = npages s"
  "pref (walk_result d va p s) q = (if q = p then pref s p + 1 else pref s q)"
  by (simp_all add: walk_result_def set_pte_def)

lemma walk_result_phys:
  "phys (walk_result d va p s) =
     (phys s)(p := (\<lambda>_. 0), d := (((phys s)(p := (\<lambda>_. 0))) d)(pdx va := table_pde p))"
  by (simp add: walk_result_def set_pte_def ALLOC_ZERO_def)

lemma walk_create:
  assumes v: "vm_inv s D held (p # ps)" "entry_target (phys s d (pdx va)) = None"
  shows "pgdir_walk d va True s = Some (Some (p, ptx va), walk_result d va p s)"
proof -
  have av: "avail s (p # ps)" using vm_avail [OF v(1)] .
  then have p: "p < npages s" "npages s \<le> 2 ^ 20" by (auto simp: avail_def)
  then have e: "ppn_of (table_pde p) = p" by (intro pde_entry) simp
  then have "unat (PGNUM (PTE_ADDR (table_pde p))) = p" by (simp add: ppn_of_def)
  with v(2) p e show ?thesis
    by (simp add: pgdir_walk_def get_pte_def page_alloc_Cons [OF av] KADDR_def walk_result_def
        set_pte_def Let_def flip: table_pde_def)
qed

lemma walk_result_target:
  assumes v: "vm_inv s D held (p # ps)" and d: "d \<in> D" "va < UTOP"
    and n: "entry_target (phys s d (pdx va)) = None" and y: "y \<in> all_sites D"
  shows "site_target (walk_result d va p s) y =
    (if y = Pde d (pdx va) then Some p else site_target s y)"
proof -
  have p: "p < 2 ^ 20" using vm_avail [OF v] by (auto simp: avail_def)
  have nt: "\<not> is_table s D p" using vm_free_not_table [OF v] by simp
  then have np: "d' \<noteq> p" if "d' \<in> D" for d' using that by (auto simp: is_table_def)
  have np': "\<not> (present (phys s d' i') \<and> ppn_of (phys s d' i') = p)" if "d' \<in> D" "i' < NUPDE" for d' i'
    using nt that by (auto simp: is_table_def)
  have nd: "ppn_of (phys s d' i') \<noteq> d" if "d' \<in> D" "i' < NUPDE" "present (phys s d' i')" for d' i'
    using vm_table_unique [OF v, of d "Dir d" "Pde d' i'"] d that by (auto simp: is_table_def)
  from y n np np' nd pde_entry [OF p] show ?thesis
    by (cases y) (auto simp: walk_result_phys d split: option.splits)
qed

lemma walk_result_inv:
  assumes v: "vm_inv s D held (p # ps)" and d: "d \<in> D" "va < UTOP"
    and n: "entry_target (phys s d (pdx va)) = None"
  shows "vm_inv (walk_result d va p s) D held ps"
proof -
  let ?s = "walk_result d va p s"
  have av: "avail s (p # ps)" using vm_avail [OF v] .
  have x: "Pde d (pdx va) \<in> all_sites D" using d by (simp add: pdx_user)
  note st = walk_result_target [OF v d n]
  have rf: "refs ?s D q = refs s D q + (if q = p then 1 else 0)" for q
    using refs_update [OF vm_finite [OF v] x, of ?s "Some p" s q] st n by auto
  have p: "pref s p = 0" "p < npages s" "p \<notin> set ps"
    using av avail_distinct [OF av] by (auto simp: avail_def)
  have held: "held p = 0" using vm_count [OF v p(2)] p(1) by simp
  have fresh: "site_target s y \<noteq> Some p" if "y \<in> all_sites D" for y
    using vm_free_unreferenced [OF v _ that, of p] by simp
  have "avail ?s ps"
    using alloc_result_avail [OF av] p(3) by (simp add: walk_result_def set_pte_def)
  moreover have "\<forall>y\<in>all_sites D. \<forall>q. site_target ?s y = Some q \<longrightarrow> q < npages ?s"
    using st p(2) vm_target_lt [OF v] by auto
  moreover have "\<forall>y\<in>all_sites D. \<forall>q. structural y \<longrightarrow> site_target ?s y = Some q \<longrightarrow>
      pref ?s q = 1 \<and> held q = 0"
    using st p(1) held fresh vm_structural [OF v] by (auto split: if_splits)
  moreover have "unat (pref ?s q) = refs ?s D q + held q" if "q < npages s" for q
    using rf [of q] p(1) held vm_count [OF v that] by auto
  ultimately show ?thesis using vm_finite [OF v] by (simp add: vm_inv_def)
qed

lemma walk_result_user_pte:
  assumes v: "vm_inv s D held (p # ps)" and d: "d \<in> D" "va < UTOP"
    and n: "entry_target (phys s d (pdx va)) = None" and d': "d' \<in> D" "va' < UTOP"
  shows "user_pte (walk_result d va p s) d' va' = user_pte s d' va'"
proof -
  have p: "p < 2 ^ 20" using vm_avail [OF v] by (auto simp: avail_def)
  have nt: "\<not> is_table s D p" using vm_free_not_table [OF v] by simp
  then have np: "d' \<noteq> p" "d \<noteq> p" using d(1) d'(1) by (auto simp: is_table_def)
  have np': "\<not> (present (phys s d' (pdx va')) \<and> ppn_of (phys s d' (pdx va')) = p)"
    using nt d' pdx_user by (auto simp: is_table_def)
  have nd: "ppn_of (phys s d' (pdx va')) \<noteq> d" if "present (phys s d' (pdx va'))"
    using vm_table_unique [OF v, of d "Dir d" "Pde d' (pdx va')"] d d' that pdx_user
    by (auto simp: is_table_def)
  let ?s = "walk_result d va p s"
  show ?thesis
  proof (cases "d' = d \<and> pdx va' = pdx va")
    case True
    then have "phys ?s d' (pdx va') = table_pde p" "phys ?s p j = 0" for j
      using np by (simp_all add: walk_result_phys)
    with True n pde_entry [OF p] show ?thesis
      by (simp add: user_pte_def entry_target_def)
  next
    case False
    then have e: "phys ?s d' (pdx va') = phys s d' (pdx va')" using np by (auto simp: walk_result_phys)
    show ?thesis
    proof (cases "present (phys s d' (pdx va'))")
      case True
      then have "phys ?s (ppn_of (phys s d' (pdx va'))) (ptx va') =
          phys s (ppn_of (phys s d' (pdx va'))) (ptx va')"
        using np' nd by (auto simp: walk_result_phys)
      with True e show ?thesis by (simp add: user_pte_def entry_target_def)
    qed (simp add: user_pte_def entry_target_def e)
  qed
qed

section \<open>Writing an entry\<close>

abbreviation same_page :: "u32 \<Rightarrow> u32 \<Rightarrow> bool" where
  "same_page va va' \<equiv> PGNUM va = PGNUM va'"

lemma same_page_index: "same_page va va' \<longleftrightarrow> pdx va = pdx va' \<and> ptx va = ptx va'"
  unfolding same_page_iff by (simp add: word_unat_eq_iff)

lemma set_pte_fields [simp]:
  "npages (set_pte x e s) = npages s" "pref (set_pte x e s) q = pref s q"
  "page_free_list (set_pte x e s) = page_free_list s" "invlpgs (set_pte x e s) = invlpgs s"
  "pages (set_pte x e s) = pages s"
  by (simp_all add: set_pte_def)

lemma set_pte_user_pte:
  assumes v: "vm_inv s D held ps" and d: "d \<in> D" "va < UTOP"
    and t: "entry_target (phys s d (pdx va)) = Some t" and d': "d' \<in> D" "va' < UTOP"
  shows "user_pte (set_pte (t, ptx va) e s) d' va' =
    (if d' = d \<and> same_page va' va then (if present e then Some e else None) else user_pte s d' va')"
proof -
  have tab: "is_table s D t" using d t pdx_user by (auto simp: is_table_def)
  have x: "Pde d (pdx va) \<in> all_sites D" "site_target s (Pde d (pdx va)) = Some t"
    using d t pdx_user by auto
  have nd: "d' \<noteq> t" using vm_table_unique [OF v tab x, of "Dir d'"] d' by auto
  have u: "d' = d \<and> pdx va' = pdx va" if "present (phys s d' (pdx va'))" "ppn_of (phys s d' (pdx va')) = t"
    using vm_table_unique [OF v tab x, of "Pde d' (pdx va')"] d' pdx_user that by auto
  have pde: "phys (set_pte (t, ptx va) e s) d' (pdx va') = phys s d' (pdx va')"
    using nd by (simp add: set_pte_def)
  show ?thesis
  proof (cases "present (phys s d' (pdx va')) \<and> ppn_of (phys s d' (pdx va')) = t")
    case True
    with u have "d' = d" "pdx va' = pdx va" by auto
    with True pde t show ?thesis
      by (simp add: user_pte_def entry_target_def same_page_index set_pte_def)
  next
    case False
    with t have "\<not> (d' = d \<and> pdx va' = pdx va)" by auto
    with False pde show ?thesis
      by (auto simp: user_pte_def entry_target_def same_page_index set_pte_def)
  qed
qed

section \<open>Lookup and removal\<close>

lemma page_lookup_user:
  assumes v: "vm_inv s D held ps" "d \<in> D" "va < UTOP"
  shows "page_lookup d va s = Some (map_option
    (\<lambda>e. (ppn_of e, (ppn_of (phys s d (pdx va)), ptx va))) (user_pte s d va))"
proof (cases "entry_target (phys s d (pdx va))")
  case None
  then show ?thesis by (simp add: page_lookup_def walk_absent user_pte_def entry_target_def)
next
  case (Some t)
  note w = walk_present [OF v Some]
  have t: "present (phys s d (pdx va))" "ppn_of (phys s d (pdx va)) = t" using Some by simp_all
  show ?thesis
  proof (cases "present (phys s t (ptx va))")
    case False
    with t w show ?thesis
      by (simp add: page_lookup_def get_pte_def user_pte_def entry_target_def)
  next
    case True
    then have "site_target s (Pte d (pdx va) (ptx va)) = Some (ppn_of (phys s t (ptx va)))"
      using Some by (auto simp: entry_target_def)
    from vm_target_lt [OF v(1) pte_site [OF v(2,3)] this]
    have "pa2page s (PTE_ADDR (phys s t (ptx va))) = Some (ppn_of (phys s t (ptx va)))"
      by (simp add: pa2page_def ppn_of_def)
    with t True w show ?thesis
      by (simp add: page_lookup_def get_pte_def user_pte_def entry_target_def)
  qed
qed

text \<open>Reference counts seen by the address spaces do not depend on the TLB log.\<close>

lemma vm_inv_invlpgs [simp]: "vm_inv (s\<lparr>invlpgs := l\<rparr>) D held ps \<longleftrightarrow> vm_inv s D held ps"
proof -
  have st: "site_target (s\<lparr>invlpgs := l\<rparr>) x = site_target s x" for x
    by (cases x) (auto split: option.splits)
  have rf: "refs (s\<lparr>invlpgs := l\<rparr>) D q = refs s D q" for q by (rule refs_cong) (rule st)
  show ?thesis unfolding vm_inv_def st rf by (simp add: avail_def)
qed

lemma user_pte_invlpgs [simp]: "user_pte (s\<lparr>invlpgs := l\<rparr>) = user_pte s"
  by (intro ext) (simp add: user_pte_def cong: option.case_cong if_cong)

lemma user_pte_phys: "phys s' = phys s \<Longrightarrow> user_pte s' = user_pte s"
  by (intro ext) (simp add: user_pte_def cong: option.case_cong if_cong)

lemma page_remove_unmapped:
  assumes "vm_inv s D held ps" "d \<in> D" "va < UTOP" "user_pte s d va = None"
  shows "page_remove d va s = Some s"
  using page_lookup_user [OF assms(1-3)] assms(4) by (simp add: page_remove_def)

lemma page_remove_mapped:
  assumes v: "vm_inv s D held ps" and d: "d \<in> D" "va < UTOP" and e: "user_pte s d va = Some e"
  shows "\<exists>s' ps'. page_remove d va s = Some s' \<and> vm_inv s' D held ps' \<and>
    ps' = (if pref s (ppn_of e) = 1 then ppn_of e # ps else ps) \<and>
    (\<forall>d'\<in>D. \<forall>va'<UTOP. user_pte s' d' va' =
       (if d' = d \<and> same_page va' va then None else user_pte s d' va')) \<and>
    phys s' d (pdx va) = phys s d (pdx va) \<and> npages s' = npages s \<and>
    (\<exists>t. entry_target (phys s d (pdx va)) = Some t \<and> phys s' = phys (set_pte (t, ptx va) 0 s)) \<and>
    invlpgs s' \<noteq> [] \<and> hd (invlpgs s') = va \<and>
    (\<forall>q. pref s' q = (if q = ppn_of e then pref s q - 1 else pref s q))"
proof -
  let ?p = "ppn_of e"
  obtain t where t: "entry_target (phys s d (pdx va)) = Some t" "phys s t (ptx va) = e" "present e"
    using e by (auto simp: user_pte_def split: option.splits if_splits)
  let ?s1 = "set_pte (t, ptx va) 0 s"
  let ?held = "held(?p := held ?p + 1)"
  have "site_target s (Pte d (pdx va) (ptx va)) = Some ?p" using user_pte_site [OF e] .
  then have lt: "?p < npages s" by (rule vm_target_lt [OF v pte_site [OF d]])
  have v1: "vm_inv ?s1 D ?held ps"
    using t by (intro vm_write_pte [OF v d(1) pdx_user [OF d(2)] t(1) ptx_lt]) auto
  obtain s2 ps' where s2: "page_decref ?p ?s1 = Some s2" "vm_inv s2 D (?held(?p := ?held ?p - 1)) ps'"
    "ps' = (if pref ?s1 ?p = 1 then ?p # ps else ps)" "phys s2 = phys ?s1" "npages s2 = npages ?s1"
    "\<forall>q. pref s2 q = (if q = ?p then pref ?s1 ?p - 1 else pref ?s1 q)"
    using vm_decref [OF v1, of ?p] lt by auto
  have h: "?held(?p := ?held ?p - 1) = held" by auto
  have rm: "page_remove d va s = Some (tlb_invalidate va s2)"
    using page_lookup_user [OF v d] e t(2,3) s2(1) t(1) [unfolded entry_target_Some]
    by (auto simp: page_remove_def)
  have up: "user_pte s2 d' va' = (if d' = d \<and> same_page va' va then None else user_pte s d' va')"
    if "d' \<in> D" "va' < UTOP" for d' va'
    using set_pte_user_pte [OF v d t(1) that, of 0] user_pte_phys [OF s2(4)] by simp
  have "d \<noteq> t"
    using vm_table_unique [OF v, of d "Dir d" "Pde d (pdx va)"] d t pdx_user [OF d(2)]
    by (auto simp: is_table_def)
  then have "phys s2 d (pdx va) = phys s d (pdx va)" using s2(4) by (simp add: set_pte_def)
  then show ?thesis
    using rm up s2(2-6) t(1) unfolding h
    by (intro exI [of _ "tlb_invalidate va s2"] exI [of _ ps']) (auto simp: tlb_invalidate_def)
qed

text \<open>
  \<open>idle_kept\<close>: a page without references that is not on the free list (a saved page of a
  snapshot, say) stays so.
\<close>

definition idle_kept :: "'z pmem_scheme \<Rightarrow> nat list \<Rightarrow> 'z pmem_scheme \<Rightarrow> nat list \<Rightarrow> bool" where
  "idle_kept s ps s' ps' \<longleftrightarrow>
     (\<forall>q. pref s q = 0 \<longrightarrow> q \<notin> set ps \<longrightarrow> pref s' q = 0 \<and> q \<notin> set ps')"

lemma idle_kept_refl [simp]: "idle_kept s ps s ps"
  by (simp add: idle_kept_def)

lemma idle_kept_trans: "idle_kept s ps s1 ps1 \<Longrightarrow> idle_kept s1 ps1 s2 ps2 \<Longrightarrow> idle_kept s ps s2 ps2"
  by (simp add: idle_kept_def)

lemma page_remove_mapped_phys:
  assumes "vm_inv s D held ps" "d \<in> D" "va < UTOP" "user_pte s d va = Some e"
    and "entry_target (phys s d (pdx va)) = Some t"
  shows "\<exists>s' ps'. page_remove d va s = Some s' \<and> vm_inv s' D held ps' \<and> set ps \<subseteq> set ps' \<and>
    npages s' = npages s \<and> phys s' = phys (set_pte (t, ptx va) 0 s) \<and> idle_kept s ps s' ps' \<and>
    (\<forall>q. unat (pref s' q) \<le> unat (pref s q))"
proof -
  let ?ps = "if pref s (ppn_of e) = 1 then ppn_of e # ps else ps"
  obtain s' where s': "page_remove d va s = Some s'" "vm_inv s' D held ?ps" "npages s' = npages s"
    "\<exists>t. entry_target (phys s d (pdx va)) = Some t \<and> phys s' = phys (set_pte (t, ptx va) 0 s)"
    "\<forall>q. pref s' q = (if q = ppn_of e then pref s q - 1 else pref s q)"
    using page_remove_mapped [OF assms(1-4)] by blast
  note x = pte_site [OF assms(2,3)] user_pte_site [OF assms(4)]
  have "0 < refs s D (ppn_of e)" using refs_pos [OF vm_finite [OF assms(1)] x] .
  then have ne: "pref s (ppn_of e) \<noteq> 0"
    using vm_count [OF assms(1) vm_target_lt [OF assms(1) x]] by auto
  have "unat (pref s' q) \<le> unat (pref s q)" for q
    using s'(5) unat_minus_one [OF ne] by simp
  moreover have "idle_kept s ps s' ?ps" using ne s'(5) by (auto simp: idle_kept_def)
  moreover have "phys s' = phys (set_pte (t, ptx va) 0 s)" using s'(4) assms(5) by auto
  moreover have "set ps \<subseteq> set ?ps" by auto
  ultimately show ?thesis using s'(1-3) by blast
qed

definition idle_but :: "nat \<Rightarrow> 'z pmem_scheme \<Rightarrow> nat list \<Rightarrow> 'z pmem_scheme \<Rightarrow> nat list \<Rightarrow> bool" where
  "idle_but p s ps s' ps' \<longleftrightarrow>
     (\<forall>q. q \<noteq> p \<longrightarrow> pref s q = 0 \<longrightarrow> q \<notin> set ps \<longrightarrow> pref s' q = 0 \<and> q \<notin> set ps')"

section \<open>Insertion\<close>

text \<open>The body of \<open>page_insert\<close> once the walk has found or made the page table.\<close>

lemma page_insert_walked:
  assumes v: "vm_inv s D held ps" and d: "d \<in> D" "va < UTOP"
    and t: "entry_target (phys s d (pdx va)) = Some t"
    and p: "p < npages s" "\<not> is_table s D p" "p \<notin> set ps" "unat (pref s p) < 65535"
    and perm: "perm AND NOT 0xFFF = 0"
  shows "\<exists>s' ps'. page_insert d (Some p) va perm s = Some (Inr (), s') \<and> vm_inv s' D held ps' \<and>
    set ps \<subseteq> set ps' \<and> npages s' = npages s \<and> idle_but p s ps s' ps' \<and>
    (\<forall>q. unat (pref s' q) \<le> unat (pref s q) + (if q = p then 1 else 0)) \<and>
    (\<forall>f. f \<noteq> t \<longrightarrow> phys s' f = phys s f) \<and> (\<forall>d'\<in>D. \<forall>va'<UTOP. user_pte s' d' va' =
       (if d' = d \<and> same_page va' va then Some (page2pa p OR perm OR PTE_P) else user_pte s d' va'))"
proof -
  let ?s1 = "set_ref p (pref s p + 1) s" and ?h1 = "held(p := held p + 1)"
  let ?e = "page2pa p OR perm OR PTE_P"
  have v1: "vm_inv ?s1 D ?h1 ps" using v p by (intro vm_hold) auto
  have up1: "user_pte ?s1 = user_pte s" by (rule user_pte_phys) simp
  have w: "pgdir_walk d va True s = Some (Some (t, ptx va), s)" by (rule walk_present [OF v d t])
  have np: "npages s \<le> 2 ^ 20" using vm_npages [OF v] .
  have p1: "unat (pref ?s1 q) = unat (pref s q) + (if q = p then 1 else 0)" for q
    using p(4) unat_add_no_wrap [of "pref s p" 1] by simp
  have e: "present ?e" "ppn_of ?e = p" using p(1) np perm by (simp_all add: present_entry ppn_of_entry)
  have "\<exists>s2 ps'. (if present (get_pte ?s1 (t, ptx va)) then page_remove d va ?s1 else Some ?s1) = Some s2 \<and>
      vm_inv s2 D ?h1 ps' \<and> set ps \<subseteq> set ps' \<and> npages s2 = npages s \<and> idle_but p s ps s2 ps' \<and>
      (\<forall>q. unat (pref s2 q) \<le> unat (pref ?s1 q)) \<and> (\<forall>f. f \<noteq> t \<longrightarrow> phys s2 f = phys s f) \<and>
      phys s2 d (pdx va) = phys s d (pdx va) \<and> \<not> present (phys s2 t (ptx va)) \<and>
      (\<forall>d'\<in>D. \<forall>va'<UTOP. user_pte s2 d' va' =
         (if d' = d \<and> same_page va' va then None else user_pte s d' va'))"
  proof (cases "present (phys s t (ptx va))")
    case False
    have t': "present (phys s d (pdx va))" "ppn_of (phys s d (pdx va)) = t" using t by simp_all
    have "user_pte s d va' = None" if "same_page va' va" for va'
      using that False t' unfolding same_page_index by (simp add: user_pte_def entry_target_def)
    with False v1 up1 show ?thesis
      by (intro exI [of _ ?s1] exI [of _ ps]) (auto simp: get_pte_def idle_but_def)
  next
    case True
    have t': "present (phys s d (pdx va))" "ppn_of (phys s d (pdx va)) = t" using t by simp_all
    then have u: "user_pte ?s1 d va = Some (phys s t (ptx va))"
      using True by (simp add: up1 user_pte_def entry_target_def)
    let ?o = "ppn_of (phys s t (ptx va))"
    obtain s2 ps' where r0: "page_remove d va ?s1 = Some s2" "vm_inv s2 D ?h1 ps'"
      "ps' = (if pref ?s1 ?o = 1 then ?o # ps else ps)"
      "\<forall>d'\<in>D. \<forall>va'<UTOP. user_pte s2 d' va' =
         (if d' = d \<and> same_page va' va then None else user_pte ?s1 d' va')"
      "phys s2 d (pdx va) = phys ?s1 d (pdx va)" "npages s2 = npages ?s1"
      "\<forall>q. pref s2 q = (if q = ?o then pref ?s1 q - 1 else pref ?s1 q)"
      "\<exists>t. entry_target (phys ?s1 d (pdx va)) = Some t \<and> phys s2 = phys (set_pte (t, ptx va) 0 ?s1)"
      using page_remove_mapped [OF v1 d u] by blast
    have r: "set ps \<subseteq> set ps'" "phys s2 d (pdx va) = phys s d (pdx va)" "npages s2 = npages s"
      unfolding r0(3) using r0(5,6) by auto
    note r4 = r0(4) [unfolded up1]
    have ph: "\<forall>f. f \<noteq> t \<longrightarrow> phys s2 f = phys s f" using r0(8) t' by (auto simp: set_pte_def)
    note x = pte_site [OF d] user_pte_site [OF u]
    have "0 < refs ?s1 D ?o" using refs_pos [OF vm_finite [OF v1] x] .
    then have "pref ?s1 ?o \<noteq> 0" using vm_count [OF v1 vm_target_lt [OF v1 x]] by auto
    then have idle: "idle_but p s ps s2 ps'" unfolding idle_but_def r0(3) using r0(7) by auto
    have pr: "unat (pref s2 q) \<le> unat (pref ?s1 q)" for q
      using r0(7) \<open>pref ?s1 ?o \<noteq> 0\<close> unat_minus_one [of "pref ?s1 ?o"] by (cases "q = ?o") simp_all
    have "user_pte s2 d va = None" using r4 d by simp
    then have "\<not> present (phys s2 t (ptx va))"
      using r(2) t' by (auto simp: user_pte_def entry_target_def split: if_splits)
    then show ?thesis
      using True r0(1,2) r r4 idle ph pr by (intro exI [of _ s2] exI [of _ ps']) (simp add: get_pte_def)
  qed
  then obtain s2 ps' where s2:
    "(if present (get_pte ?s1 (t, ptx va)) then page_remove d va ?s1 else Some ?s1) = Some s2"
    "vm_inv s2 D ?h1 ps'" "set ps \<subseteq> set ps'" "npages s2 = npages s"
    "phys s2 d (pdx va) = phys s d (pdx va)" "\<not> present (phys s2 t (ptx va))"
    "\<forall>d'\<in>D. \<forall>va'<UTOP. user_pte s2 d' va' =
       (if d' = d \<and> same_page va' va then None else user_pte s d' va')"
    "idle_but p s ps s2 ps'" "\<forall>f. f \<noteq> t \<longrightarrow> phys s2 f = phys s f"
    "\<forall>q. unat (pref s2 q) \<le> unat (pref ?s1 q)" by blast
  have t2: "entry_target (phys s2 d (pdx va)) = Some t" using t s2(5) by simp
  have nt: "\<not> is_table s2 D p" using vm_table_held [OF s2(2), of p] by auto
  have v3: "vm_inv (set_pte (t, ptx va) ?e s2) D held ps'"
    using e s2(4,6) nt p(1)
    by (intro vm_write_pte [OF s2(2) d(1) pdx_user [OF d(2)] t2 ptx_lt]) auto
  have "page_insert d (Some p) va perm s = Some (Inr (), set_pte (t, ptx va) ?e s2)"
    using w s2(1) by (simp add: page_insert_def Let_def)
  moreover have "user_pte (set_pte (t, ptx va) ?e s2) d' va' =
      (if d' = d \<and> same_page va' va then Some ?e else user_pte s d' va')"
    if "d' \<in> D" "va' < UTOP" for d' va'
    using set_pte_user_pte [OF s2(2) d t2 that, of ?e] s2(7) that e(1) by simp
  moreover have "idle_but p s ps (set_pte (t, ptx va) ?e s2) ps'" using s2(8) by (simp add: idle_but_def)
  moreover have "\<forall>f. f \<noteq> t \<longrightarrow> phys (set_pte (t, ptx va) ?e s2) f = phys s f"
    using s2(9) by (simp add: set_pte_def)
  moreover have "npages (set_pte (t, ptx va) ?e s2) = npages s" using s2(4) by simp
  moreover have "\<forall>q. unat (pref (set_pte (t, ptx va) ?e s2) q) \<le> unat (pref s q) + (if q = p then 1 else 0)"
    using s2(10) p1 by simp
  ultimately show ?thesis using v3 s2(3) by blast
qed

lemma walk_result_is_table:
  assumes v: "vm_inv s D held (p # ps)" and d: "d \<in> D" "va < UTOP"
    and n: "entry_target (phys s d (pdx va)) = None" and q: "\<not> is_table s D q" "q \<noteq> p"
  shows "\<not> is_table (walk_result d va p s) D q"
proof
  assume "is_table (walk_result d va p s) D q"
  from is_table_site [OF this] obtain x where
    x: "x \<in> all_sites D" "structural x" "site_target (walk_result d va p s) x = Some q" by blast
  then have "site_target s x = Some q" "x \<noteq> Pde d (pdx va)"
    using walk_result_target [OF v d n x(1)] q(2) by (auto split: if_splits)
  with vm_structural [OF v x(1,2)] q(1) show False by simp
qed

lemma page_insert_ok:
  assumes v: "vm_inv s D held ps" and d: "d \<in> D" "va < UTOP"
    and p: "p < npages s" "\<not> is_table s D p" "p \<notin> set ps" "unat (pref s p) < 65535"
    and perm: "perm AND NOT 0xFFF = 0"
    and mem: "ps \<noteq> [] \<or> present (phys s d (pdx va))"
  shows "\<exists>s' ps'. page_insert d (Some p) va perm s = Some (Inr (), s') \<and> vm_inv s' D held ps' \<and>
    npages s' = npages s \<and> set (tl ps) \<subseteq> set ps' \<and> idle_but p s ps s' ps' \<and>
    (present (phys s d (pdx va)) \<longrightarrow> set ps \<subseteq> set ps') \<and> (\<forall>q. unat (pref s' q) \<le> Suc (unat (pref s q))) \<and>
    (\<forall>f. \<not> is_table s D f \<longrightarrow> f \<notin> set ps \<longrightarrow> phys s' f = phys s f) \<and>
    (\<forall>d'\<in>D. \<forall>va'<UTOP. user_pte s' d' va' =
       (if d' = d \<and> same_page va' va then Some (page2pa p OR perm OR PTE_P) else user_pte s d' va'))"
proof (cases "entry_target (phys s d (pdx va))")
  case (Some t)
  have "set (tl ps) \<subseteq> set ps" by (cases ps) auto
  moreover have "is_table s D t" unfolding is_table_def using Some d pdx_user [OF d(2)] by blast
  then have "\<not> is_table s D f \<Longrightarrow> f \<noteq> t" for f by auto
  moreover obtain s' ps' where "page_insert d (Some p) va perm s = Some (Inr (), s')"
    "vm_inv s' D held ps'" "set ps \<subseteq> set ps'" "npages s' = npages s" "idle_but p s ps s' ps'"
    "\<forall>q. unat (pref s' q) \<le> unat (pref s q) + (if q = p then 1 else 0)" "\<forall>f. f \<noteq> t \<longrightarrow> phys s' f = phys s f" "\<forall>d'\<in>D. \<forall>va'<UTOP. user_pte s' d' va' =
       (if d' = d \<and> same_page va' va then Some (page2pa p OR perm OR PTE_P) else user_pte s d' va')"
    using page_insert_walked [OF v d Some p perm] by blast
  moreover from calculation have "unat (pref s' q) \<le> Suc (unat (pref s q))" for q
    by (metis Suc_eq_plus1 add.right_neutral le_SucI)
  ultimately show ?thesis by (intro exI [of _ s'] exI [of _ ps']) auto
next
  case None
  with mem obtain q qs where ps: "ps = q # qs" by (cases ps) auto
  let ?s = "walk_result d va q s"
  note vq = v [unfolded ps]
  have w: "pgdir_walk d va True s = Some (Some (q, ptx va), ?s)" by (rule walk_create [OF vq None])
  have v1: "vm_inv ?s D held qs" by (rule walk_result_inv [OF vq d None])
  have qlt: "q < 2 ^ 20" using vm_avail [OF vq] by (auto simp: avail_def)
  have t: "entry_target (phys ?s d (pdx va)) = Some q"
    using pde_entry [OF qlt] by (simp add: walk_result_phys)
  have "p \<noteq> q" "p \<notin> set qs" using p(3) ps by auto
  moreover have "\<not> is_table ?s D p" using walk_result_is_table [OF vq d None p(2)] \<open>p \<noteq> q\<close> by simp
  ultimately obtain s' ps' where r: "page_insert d (Some p) va perm ?s = Some (Inr (), s')"
    "vm_inv s' D held ps'" "set qs \<subseteq> set ps'" "npages s' = npages ?s"
    "\<forall>d'\<in>D. \<forall>va'<UTOP. user_pte s' d' va' =
       (if d' = d \<and> same_page va' va then Some (page2pa p OR perm OR PTE_P) else user_pte ?s d' va')"
    "idle_but p ?s qs s' ps'" "\<forall>f. f \<noteq> q \<longrightarrow> phys s' f = phys ?s f"
    "\<forall>x. unat (pref s' x) \<le> unat (pref ?s x) + (if x = p then 1 else 0)"
    using page_insert_walked [OF v1 d t, of p perm] p perm by auto
  have "page_insert d (Some p) va perm s = page_insert d (Some p) va perm ?s"
    using w walk_present [OF v1 d t, of True] by (simp add: page_insert_def)
  moreover have "idle_but p s ps s' ps'" using r(6) ps by (auto simp: idle_but_def)
  moreover have "phys s' f = phys s f" if "\<not> is_table s D f" "f \<notin> set ps" for f
    using that r(7) ps d(1) by (auto simp: walk_result_phys is_table_def)
  moreover have "unat (pref s' x) \<le> Suc (unat (pref s x))" for x
  proof -
    have "pref s q = 0" using vm_avail [OF vq] by (auto simp: avail_def)
    then have "unat (pref ?s x) \<le> unat (pref s x) + (if x = q then 1 else 0)" by simp
    then show ?thesis using r(8) [rule_format, of x] \<open>p \<noteq> q\<close> by (auto split: if_splits)
  qed
  moreover have "\<not> present (phys s d (pdx va))" using None by simp
  ultimately show ?thesis using r(1-5) walk_result_user_pte [OF vq d None] ps by auto
qed

lemma page_insert_no_memory:
  assumes "vm_inv s D held []" "\<not> present (phys s d (pdx va))"
  shows "page_insert d pp va perm s = Some (Inl E_NO_MEM, s)"
proof -
  have "pgdir_walk d va True s = Some (None, s)"
    using walk_no_memory [OF vm_avail [OF assms(1)]] assms(2) by simp
  then show ?thesis by (simp add: page_insert_def)
qed

end
