(* ===== verification/Env.thy ===== *)
theory Env
  imports Address_Space
begin

text \<open>
  Environments, the kernel's processes: \<^verbatim>\<open>inc/env.h\<close>, \<^verbatim>\<open>inc/trap.h\<close> and
  \<^verbatim>\<open>kern/env.c\<close>. The kernel state extends the page allocator's record by the environment
  table, its free list, the snapshots, the per-CPU state and the big kernel lock. A
  \<open>struct Env *\<close> is an index into \<open>envs\<close>, a page directory pointer the number of
  its frame, with \<open>None\<close> for NULL.
\<close>

section \<open>Saved registers\<close>

record pushregs =
  reg_edi :: u32
  reg_esi :: u32
  reg_ebp :: u32
  reg_oesp :: u32
  reg_ebx :: u32
  reg_edx :: u32
  reg_ecx :: u32
  reg_eax :: u32

record trapframe =
  tf_regs :: pushregs
  tf_es :: u16
  tf_ds :: u16
  tf_trapno :: u32
  tf_err :: u32
  tf_eip :: u32
  tf_cs :: u16
  tf_eflags :: u32
  tf_esp :: u32
  tf_ss :: u16

record utrapframe =
  utf_fault_va :: u32
  utf_err :: u32
  utf_regs :: pushregs
  utf_eip :: u32
  utf_eflags :: u32
  utf_esp :: u32

definition zero_regs :: pushregs where
  "zero_regs = \<lparr>reg_edi = 0, reg_esi = 0, reg_ebp = 0, reg_oesp = 0, reg_ebx = 0, reg_edx = 0,
                reg_ecx = 0, reg_eax = 0\<rparr>"

definition zero_tf :: trapframe where
  "zero_tf = \<lparr>tf_regs = zero_regs, tf_es = 0, tf_ds = 0, tf_trapno = 0, tf_err = 0, tf_eip = 0,
              tf_cs = 0, tf_eflags = 0, tf_esp = 0, tf_ss = 0\<rparr>"

definition FL_IF :: u32 where "FL_IF = 0x200"
definition FL_IOPL_MASK :: u32 where "FL_IOPL_MASK = 0x3000"
definition GD_KT :: u16 where "GD_KT = 0x08"
definition GD_UT :: u16 where "GD_UT = 0x18"
definition GD_UD :: u16 where "GD_UD = 0x20"

section \<open>Environments\<close>

type_synonym envid = u32

datatype env_status = ENV_FREE | ENV_DYING | ENV_RUNNABLE | ENV_RUNNING | ENV_NOT_RUNNABLE

datatype env_type = ENV_TYPE_USER | ENV_TYPE_FS | ENV_TYPE_NS

record env =
  env_tf :: trapframe
  env_link :: "nat option"
  env_id :: envid
  env_parent_id :: envid
  env_type :: env_type
  env_status :: env_status
  env_runs :: u32
  env_cpunum :: u32
  env_pgdir :: "nat option"
  env_pgfault_upcall :: u32
  env_ipc_recving :: bool
  env_ipc_dstva :: u32
  env_ipc_value :: u32
  env_ipc_from :: envid
  env_ipc_perm :: u32

record saved_page =
  page_vm :: u32
  page_perm :: u32
  saved_page :: "nat option"

text \<open>The linked list \<open>saved_pages\<close> is a list: its nodes are never shared.\<close>

record snapshot =
  ss_envid :: envid
  ss_utf :: utrapframe
  saved_pages :: "saved_page list"

datatype cpu_status = CPU_UNUSED | CPU_STARTED | CPU_HALTED

record cpu_info =
  cpu_status :: cpu_status
  cpu_env :: "nat option"
  cpu_cr3 :: nat

record kernel = pmem +
  envs :: "nat \<Rightarrow> env"
  env_free_list :: "nat option"
  snapshots :: "nat \<Rightarrow> snapshot option"
  cpus :: "nat \<Rightarrow> cpu_info"
  thiscpu :: nat
  kernel_lock :: "nat option"
  ticks :: u32
  console :: string

definition LOG2NENV :: nat where "LOG2NENV = 10"
definition NENV :: nat where "NENV = 1024"
definition ENVGENSHIFT :: nat where "ENVGENSHIFT = 12"
definition NSNAPSHOTS :: nat where "NSNAPSHOTS = 10"

definition ENVX :: "envid \<Rightarrow> nat" where
  "ENVX envid = unat (envid AND 1023)"

definition curenv :: "('z kernel_scheme) \<Rightarrow> nat option" where
  "curenv k = cpu_env (cpus k (thiscpu k))"

definition upd_env :: "nat \<Rightarrow> (env \<Rightarrow> env) \<Rightarrow> 'z kernel_scheme \<Rightarrow> 'z kernel_scheme" where
  "upd_env e f k = k\<lparr>envs := (envs k)(e := f (envs k e))\<rparr>"

definition upd_cpu :: "(cpu_info \<Rightarrow> cpu_info) \<Rightarrow> 'z kernel_scheme \<Rightarrow> 'z kernel_scheme" where
  "upd_cpu f k = k\<lparr>cpus := (cpus k)(thiscpu k := f (cpus k (thiscpu k)))\<rparr>"

definition set_curenv :: "nat option \<Rightarrow> 'z kernel_scheme \<Rightarrow> 'z kernel_scheme" where
  "set_curenv e = upd_cpu (\<lambda>c. c\<lparr>cpu_env := e\<rparr>)"

definition lcr3 :: "nat \<Rightarrow> 'z kernel_scheme \<Rightarrow> 'z kernel_scheme" where
  "lcr3 pd = upd_cpu (\<lambda>c. c\<lparr>cpu_cr3 := pd\<rparr>)"

section \<open>Looking up environment ids\<close>

text \<open>
  \<open>envid2env\<close> stores a pointer that may be NULL when \<open>curenv\<close> is; the permission
  check dereferences \<open>curenv\<close>.
\<close>

definition envid2env :: "envid \<Rightarrow> bool \<Rightarrow> 'z kernel_scheme \<Rightarrow> (jos_error + nat option) option" where
  "envid2env envid checkperm k =
    (if envid = 0 then Some (Inr (curenv k))
     else
       let e = ENVX envid
       in if env_status (envs k e) = ENV_FREE \<or> env_id (envs k e) \<noteq> envid then Some (Inl E_BAD_ENV)
          else if checkperm \<and> Some e \<noteq> curenv k then
            (case curenv k of
               None \<Rightarrow> None
             | Some c \<Rightarrow>
                 if env_parent_id (envs k e) \<noteq> env_id (envs k c) then Some (Inl E_BAD_ENV)
                 else Some (Inr (Some e)))
          else Some (Inr (Some e)))"

section \<open>Initialisation and allocation\<close>

text \<open>\<open>p_env\<close> walks the array; \<open>env_init\<close> relies on a zeroed table.\<close>

fun env_init_loop :: "nat list \<Rightarrow> nat \<Rightarrow> 'z kernel_scheme \<Rightarrow> 'z kernel_scheme" where
  "env_init_loop [] p_env k = k"
| "env_init_loop (i # js) p_env k =
     env_init_loop js i (upd_env p_env (\<lambda>e. e\<lparr>env_link := Some i\<rparr>) k)"

definition env_init :: "'z kernel_scheme \<Rightarrow> 'z kernel_scheme" where
  "env_init k = env_init_loop [1..<NENV] 0 (k\<lparr>env_free_list := Some 0\<rparr>)"

text \<open>
  The page directory shares the kernel's entries from \<open>UTOP\<close> up, except the last entry of
  the table (the copy stops one short) and the entry at \<open>UVPT\<close>, which maps the directory
  onto itself.
\<close>

definition env_setup_vm :: "nat \<Rightarrow> 'z kernel_scheme \<Rightarrow> ((jos_error + unit) \<times> 'z kernel_scheme) option" where
  "env_setup_vm e k = do {
     (r, k) \<leftarrow> page_alloc ALLOC_ZERO k;
     case r of
       None \<Rightarrow> Some (Inl E_NO_MEM, k)
     | Some p \<Rightarrow>
         let k = set_ref p (pref k p + 1) k in
         do {
           pgdir \<leftarrow> page2kva k p;
           let k = upd_env e (\<lambda>v. v\<lparr>env_pgdir := Some p\<rparr>) k;
           let k = k\<lparr>phys := (phys k)(p := (\<lambda>i. if pdx UTOP \<le> i \<and> i < pdx UTOP + (NPDENTRIES - (pdx UTOP + 1))
                        then phys k (kern_pgdir k) i else phys k p i))\<rparr>;
           pa \<leftarrow> PADDR pgdir;
           Some (Inr (), set_pte (p, pdx UVPT) (pa OR PTE_P OR PTE_U) k)
         }
   }"

text \<open>\<open>generation\<close> is a signed 32-bit integer.\<close>

definition next_env_id :: "nat \<Rightarrow> envid \<Rightarrow> envid" where
  "next_env_id e old_id =
    (let generation = (old_id + push_bit ENVGENSHIFT 1) AND NOT 1023;
         generation = (if sint generation \<le> 0 then push_bit ENVGENSHIFT 1 else generation)
     in generation OR word_of_nat e)"

definition initial_tf :: trapframe where
  "initial_tf = zero_tf\<lparr>tf_ds := GD_UD OR 3, tf_es := GD_UD OR 3, tf_ss := GD_UD OR 3,
     tf_esp := USTACKTOP, tf_cs := GD_UT OR 3, tf_eflags := FL_IF\<rparr>"

definition env_alloc :: "envid \<Rightarrow> 'z kernel_scheme \<Rightarrow> ((jos_error + nat) \<times> 'z kernel_scheme) option" where
  "env_alloc parent_id k =
    (case env_free_list k of
       None \<Rightarrow> Some (Inl E_NO_FREE_ENV, k)
     | Some e \<Rightarrow> do {
         (r, k) \<leftarrow> env_setup_vm e k;
         case r of
           Inl err \<Rightarrow> Some (Inl err, k)
         | Inr _ \<Rightarrow>
             let k = upd_env e (\<lambda>v. v\<lparr>env_id := next_env_id e (env_id v), env_parent_id := parent_id,
                       env_type := ENV_TYPE_USER, env_status := ENV_RUNNABLE, env_runs := 0,
                       env_tf := initial_tf\<rparr>) k;
                 k = k\<lparr>env_free_list := env_link (envs k e)\<rparr>
             in Some (Inr e, k)
       })"

section \<open>Loading programs\<close>

text \<open>The loop variable and its bound are page aligned; \<open>n\<close> counts the pages.\<close>

fun region_alloc_loop :: "nat \<Rightarrow> nat \<Rightarrow> u32 \<Rightarrow> 'z kernel_scheme \<Rightarrow> 'z kernel_scheme option" where
  "region_alloc_loop pgdir 0 va_cur k = Some k"
| "region_alloc_loop pgdir (Suc n) va_cur k = do {
     (p_info, k) \<leftarrow> page_alloc 0 k;
     case p_info of
       None \<Rightarrow> None
     | Some p \<Rightarrow> do {
         (r, k) \<leftarrow> page_insert pgdir (Some p) va_cur (PTE_W OR PTE_U) k;
         case r of
           Inl _ \<Rightarrow> None
         | Inr _ \<Rightarrow> region_alloc_loop pgdir n (va_cur + PGSIZE) k
       }
   }"

definition region_alloc :: "nat \<Rightarrow> u32 \<Rightarrow> u32 \<Rightarrow> 'z kernel_scheme \<Rightarrow> 'z kernel_scheme option" where
  "region_alloc e va len k =
    (let va_end = ROUNDUP (va + len) PGSIZE;
         va_cur = ROUNDDOWN va PGSIZE
     in case env_pgdir (envs k e) of
          None \<Rightarrow> (if va_cur < va_end then None else Some k)
        | Some pgdir \<Rightarrow>
            region_alloc_loop pgdir ((unat va_end - unat va_cur) div 4096) va_cur k)"

section \<open>Snapshots are discarded with their environment\<close>

definition id2snapshot :: "u32 \<Rightarrow> 'z kernel_scheme \<Rightarrow> snapshot option" where
  "id2snapshot i k = (if sint i \<ge> int NSNAPSHOTS \<or> sint i < 0 then None else snapshots k (unat i))"

fun savedpages_free :: "saved_page list \<Rightarrow> 'z kernel_scheme \<Rightarrow> 'z kernel_scheme option" where
  "savedpages_free [] k = Some k"
| "savedpages_free (cur # rest) k = do {
     k \<leftarrow> (case saved_page cur of None \<Rightarrow> Some k | Some p \<Rightarrow> page_free p k);
     savedpages_free rest k
   }"

definition snapshot_free :: "nat \<Rightarrow> 'z kernel_scheme \<Rightarrow> 'z kernel_scheme option" where
  "snapshot_free i k =
    (if i \<ge> NSNAPSHOTS then Some k
     else case snapshots k i of
       None \<Rightarrow> Some k
     | Some ss \<Rightarrow> do {
         k \<leftarrow> savedpages_free (saved_pages ss) k;
         Some (k\<lparr>snapshots := (snapshots k)(i := None)\<rparr>)
       })"

fun free_snapshots_of :: "envid \<Rightarrow> nat list \<Rightarrow> 'z kernel_scheme \<Rightarrow> 'z kernel_scheme option" where
  "free_snapshots_of eid [] k = Some k"
| "free_snapshots_of eid (i # js) k =
    (case snapshots k i of
       Some ss \<Rightarrow>
         if ss_envid ss = eid then do { k \<leftarrow> snapshot_free i k; free_snapshots_of eid js k }
         else free_snapshots_of eid js k
     | None \<Rightarrow> free_snapshots_of eid js k)"

section \<open>Freeing environments\<close>

fun flush_ptes :: "nat \<Rightarrow> nat \<Rightarrow> nat \<Rightarrow> nat list \<Rightarrow> 'z pmem_scheme \<Rightarrow> 'z pmem_scheme option" where
  "flush_ptes pgdir pdeno pt [] s = Some s"
| "flush_ptes pgdir pdeno pt (pteno # js) s = do {
     s \<leftarrow> (if present (get_pte s (pt, pteno))
          then page_remove pgdir (PGADDR (word_of_nat pdeno) (word_of_nat pteno) 0) s
          else Some s);
     flush_ptes pgdir pdeno pt js s
   }"

fun flush_pdes :: "nat \<Rightarrow> nat list \<Rightarrow> 'z pmem_scheme \<Rightarrow> 'z pmem_scheme option" where
  "flush_pdes pgdir [] s = Some s"
| "flush_pdes pgdir (pdeno # js) s =
    (if \<not> present (get_pte s (pgdir, pdeno)) then flush_pdes pgdir js s
     else do {
       let pa = PTE_ADDR (get_pte s (pgdir, pdeno));
       _ \<leftarrow> KADDR s pa;
       s \<leftarrow> flush_ptes pgdir pdeno (unat (PGNUM pa)) [0..<NPTENTRIES] s;
       let s = set_pte (pgdir, pdeno) 0 s;
       pp \<leftarrow> pa2page s pa;
       s \<leftarrow> page_decref pp s;
       flush_pdes pgdir js s
     })"

definition env_flush_addr_space :: "nat \<Rightarrow> 'z kernel_scheme \<Rightarrow> 'z kernel_scheme option" where
  "env_flush_addr_space e k = do {
     pgdir \<leftarrow> env_pgdir (envs k e);
     k \<leftarrow> flush_pdes pgdir [0..<pdx UTOP] k;
     Some (upd_env e (\<lambda>v. v\<lparr>env_status := ENV_NOT_RUNNABLE\<rparr>) k)
   }"

definition env_free :: "nat \<Rightarrow> 'z kernel_scheme \<Rightarrow> 'z kernel_scheme option" where
  "env_free e k = do {
     let k = (if Some e = curenv k then lcr3 (kern_pgdir k) k else k);
     k \<leftarrow> free_snapshots_of (env_id (envs k e)) [0..<NSNAPSHOTS] k;
     k \<leftarrow> env_flush_addr_space e k;
     pgdir \<leftarrow> env_pgdir (envs k e);
     let k = upd_env e (\<lambda>v. v\<lparr>env_pgdir := None\<rparr>) k;
     k \<leftarrow> page_decref pgdir k;
     let k = upd_env e (\<lambda>v. v\<lparr>env_status := ENV_FREE, env_link := env_free_list k\<rparr>) k;
     Some (k\<lparr>env_free_list := Some e\<rparr>)
   }"

section \<open>Environment ids\<close>

lemma mask10_eq: "(1023 :: u32) = mask 10"
  by (simp add: mask_eq_exp_minus_1)

lemma not_mask10_eq: "(- 1024 :: u32) = NOT (mask 10)"
  by (simp add: mask_eq_exp_minus_1)

lemma small_bits: "e < 1024 \<Longrightarrow> bit (word_of_nat e :: u32) n \<Longrightarrow> n < 10"
proof -
  assume e: "e < 1024" and b: "bit (word_of_nat e :: u32) n"
  have "take_bit 10 (word_of_nat e :: u32) = word_of_nat e"
    using e by (simp add: take_bit_of_nat take_bit_nat_eq_self)
  then have "bit (take_bit 10 (word_of_nat e :: u32)) n" using b by simp
  then show ?thesis by (simp add: bit_take_bit_iff)
qed

lemma id_index: "e < 1024 \<Longrightarrow> (g AND - 1024 OR word_of_nat e) AND 1023 = (word_of_nat e :: u32)"
  using small_bits [of e] by (intro bit_word_eqI) (auto simp: mask10_eq not_mask10_eq bit_simps)

lemma id_generation: "e < 1024 \<Longrightarrow> (g AND - 1024 OR word_of_nat e) AND - 1024 = (g AND - 1024 :: u32)"
  using small_bits [of e] by (intro bit_word_eqI) (auto simp: mask10_eq not_mask10_eq bit_simps)

lemma unat_generation: "unat ((x :: u32) AND - 1024) = unat x div 1024 * 1024"
proof -
  have "x AND - 1024 = push_bit 10 (drop_bit 10 x)"
    by (intro bit_word_eqI) (auto simp: not_mask10_eq bit_simps)
  moreover have "unat (push_bit 10 (drop_bit 10 x)) = take_bit 32 (push_bit 10 (unat (drop_bit 10 x)))"
    by (simp only: unsigned_push_bit_eq) simp
  moreover have "unat (drop_bit 10 x) = unat x div 1024"
    by (simp only: unat_drop_bit_eq) (simp add: drop_bit_eq_div)
  moreover have "unat x div 1024 * 1024 < 4294967296"
    using div_times_less_eq_dividend [of "unat x" 1024] unat_u32_lt [of x] by linarith
  ultimately show ?thesis by (simp add: push_bit_eq_mult take_bit_eq_mod)
qed

text \<open>The generation \<open>next_env_id\<close> uses, with its low bits clear.\<close>

definition next_gen :: "envid \<Rightarrow> u32" where
  "next_gen old = (let g = (old + 4096) AND - 1024 in if sint g \<le> 0 then 4096 else g)"

lemma next_env_id_eq: "next_env_id e old = next_gen old OR word_of_nat e"
  by (simp add: next_env_id_def next_gen_def Let_def ENVGENSHIFT_def)

lemma next_gen_low: "next_gen old AND - 1024 = next_gen old"
  by (simp add: next_gen_def Let_def)

lemma sint_pos_iff: "0 < sint (w :: u32) \<longleftrightarrow> w \<noteq> 0 \<and> \<not> bit w 31"
proof -
  have "bit w 31 \<longleftrightarrow> sint w < 0" using bit_last_iff [of w] by simp
  moreover have "sint w = 0 \<longleftrightarrow> w = 0" by (metis signed_0 signed_word_eqI)
  ultimately show ?thesis by linarith
qed

lemma next_gen_pos: "0 < sint (next_gen old)"
  by (simp add: next_gen_def Let_def)

lemma wrap_add_div:
  assumes "a < (4294967296 :: nat)"
  shows "(a + 4096) mod 4294967296 div 1024 \<noteq> a div 1024"
proof (cases "a + 4096 < 4294967296")
  case True
  then have "(a + 4096) mod 4294967296 = a + 4096" by (rule mod_less)
  moreover have "(a + 4096) div 1024 = a div 1024 + 4" by simp
  ultimately show ?thesis by linarith
next
  case False
  then have "4294967296 \<le> a + 4096" by linarith
  then obtain r where r: "a + 4096 = 4294967296 + r" by (blast dest: le_Suc_ex)
  have "r < 4096" using r assms by linarith
  moreover have "(a + 4096) mod 4294967296 \<le> r" unfolding r mod_add_self1 by (rule mod_less_eq_dividend)
  ultimately have "(a + 4096) mod 4294967296 < 4096" by linarith
  then have "(a + 4096) mod 4294967296 div 1024 < 4" by (simp add: less_mult_imp_div_less)
  moreover have "4096 \<le> a" using False by linarith
  then have "4096 div 1024 \<le> a div 1024" by (rule div_le_mono)
  ultimately show ?thesis by linarith
qed

lemma next_gen_fresh: "next_gen old \<noteq> old AND - 1024"
proof
  assume eq: "next_gen old = old AND - 1024"
  let ?g = "(old + 4096) AND - 1024"
  have u: "unat (old + 4096) = (unat old + 4096) mod 4294967296" by (simp add: unat_word_ariths)
  show False
  proof (cases "sint ?g \<le> 0")
    case True
    then have "unat (old AND - 1024) = 4096" using eq by (simp add: next_gen_def)
    then have o: "unat old div 1024 = 4" by (simp add: unat_generation)
    then have "unat old < 8192" by simp
    then have "unat ?g = (unat old + 4096) div 1024 * 1024" unfolding unat_generation u by simp
    also have "\<dots> = 8192" using o by simp
    finally have "?g = 8192" by (simp add: word_unat_eq_iff)
    then show False using True by simp
  next
    case False
    then have "unat ?g = unat (old AND - 1024)" using eq by (simp add: next_gen_def)
    then have "unat (old + 4096) div 1024 = unat old div 1024" by (simp add: unat_generation)
    then show False using wrap_add_div [of "unat old"] unat_u32_lt [of old] unfolding u by simp
  qed
qed

lemma next_env_id_index: "e < 1024 \<Longrightarrow> ENVX (next_env_id e old) = e"
  unfolding ENVX_def next_env_id_eq
  using id_index [of e "next_gen old"] by (simp add: next_gen_low unat_of_nat_lt)

lemma next_env_id_pos: "e < 1024 \<Longrightarrow> 0 < sint (next_env_id e old)"
proof -
  assume e: "e < 1024"
  have g: "next_gen old \<noteq> 0" "\<not> bit (next_gen old) 31"
    using next_gen_pos [of old] by (simp_all add: sint_pos_iff)
  have "next_env_id e old \<noteq> 0"
    using id_generation [OF e, of "next_gen old"] g(1) by (auto simp: next_env_id_eq next_gen_low)
  moreover have "\<not> bit (next_env_id e old) 31"
    using g(2) small_bits [OF e, of 31] by (auto simp: next_env_id_eq bit_simps)
  ultimately show ?thesis by (simp add: sint_pos_iff)
qed

lemma next_env_id_fresh: "e < 1024 \<Longrightarrow> next_env_id e old \<noteq> old"
  using id_generation [of e "next_gen old"] next_gen_fresh [of old]
  by (auto simp: next_env_id_eq next_gen_low)

end
