(* ===== verification/Env_Free.thy ===== *)
theory Env_Free
  imports Env
begin

text \<open>
  What \<open>env_flush_addr_space\<close> and \<open>env_free\<close> do to memory: every user mapping of the
  environment goes, its page tables and its directory return to the free list, no other address
  space changes, and the reference counts stay exact.
\<close>

section \<open>Addresses built by PGADDR\<close>

lemma nat_bits: "e < 1024 \<Longrightarrow> bit (e :: nat) n \<Longrightarrow> n < 10"
proof -
  assume e: "e < 1024" and b: "bit e n"
  have "take_bit 10 e = e" using e by (simp add: take_bit_nat_eq_self)
  then have "bit (take_bit 10 e) n" using b by simp
  then show ?thesis by (simp add: bit_take_bit_iff)
qed

lemma PGADDR_index:
  assumes "i < 1024" "j < 1024"
  shows "pdx (PGADDR (word_of_nat i) (word_of_nat j) 0) = i"
    and "ptx (PGADDR (word_of_nat i) (word_of_nat j) 0) = j"
proof -
  have "PDX (PGADDR (word_of_nat i) (word_of_nat j) 0) = word_of_nat i"
    by (intro bit_word_eqI) (auto simp: PDX_def PGADDR_def mask10 bit_simps
        dest: nat_bits [OF assms(1)] nat_bits [OF assms(2)])
  then show "pdx (PGADDR (word_of_nat i) (word_of_nat j) 0) = i"
    using assms(1) by (simp add: unat_of_nat_lt)
  have "PTX (PGADDR (word_of_nat i) (word_of_nat j) 0) = word_of_nat j"
    by (intro bit_word_eqI) (auto simp: PTX_def PGADDR_def mask10 bit_simps dest: nat_bits [OF assms(2)])
  then show "ptx (PGADDR (word_of_nat i) (word_of_nat j) 0) = j"
    using assms(2) by (simp add: unat_of_nat_lt)
qed

lemma pdx_lt_user: "pdx va < NUPDE \<Longrightarrow> va < UTOP"
proof -
  assume "pdx va < NUPDE"
  then have "unat va div 4194304 < 955" by (simp add: pdx_div NUPDE_eq)
  then have "unat va < 955 * 4194304" by (simp add: div_less_iff_less_mult)
  then show ?thesis by (simp add: word_less_nat_alt kdefs)
qed

lemma PGADDR_user: "i < NUPDE \<Longrightarrow> j < 1024 \<Longrightarrow> PGADDR (word_of_nat i) (word_of_nat j) 0 < UTOP"
  by (rule pdx_lt_user) (simp add: PGADDR_index NUPDE_eq)

section \<open>Emptying a page table\<close>

lemma user_pte_at:
  assumes "entry_target (phys s d i) = Some t" "i < NUPDE" "j < 1024"
  shows "user_pte s d (PGADDR (word_of_nat i) (word_of_nat j) 0) =
    (if present (phys s t j) then Some (phys s t j) else None)"
  using assms by (simp add: user_pte_def PGADDR_index NUPDE_eq entry_target_def split: if_splits)

lemma flush_ptes_ok:
  assumes "vm_inv s D held ps" "d \<in> D" "i < NUPDE" "entry_target (phys s d i) = Some t"
    and "set js \<subseteq> {..<1024}"
  shows "\<exists>s' ps'. flush_ptes d i t js s = Some s' \<and> vm_inv s' D held ps' \<and> set ps \<subseteq> set ps' \<and>
    npages s' = npages s \<and> idle_kept s ps s' ps' \<and> (\<forall>f. f \<noteq> t \<longrightarrow> phys s' f = phys s f) \<and>
    (\<forall>j. phys s' t j = phys s t j \<or> phys s' t j = 0) \<and> (\<forall>j\<in>set js. \<not> present (phys s' t j))"
  using assms
proof (induction js arbitrary: s ps)
  case (Cons j js)
  let ?va = "PGADDR (word_of_nat i) (word_of_nat j) 0"
  have j: "j < 1024" and js: "set js \<subseteq> {..<1024}" using Cons.prems(5) by auto
  have va: "?va < UTOP" "pdx ?va = i" "ptx ?va = j"
    using Cons.prems(3) j by (simp_all add: PGADDR_user PGADDR_index NUPDE_eq)
  have dt: "d \<noteq> t"
    using vm_table_unique [OF Cons.prems(1), of d "Dir d" "Pde d i"] Cons.prems(2-4)
    by (auto simp: is_table_def)
  show ?case
  proof (cases "present (phys s t j)")
    case False
    from Cons.IH [OF Cons.prems(1-4) js] obtain s' ps' where s':
      "flush_ptes d i t js s = Some s'" "vm_inv s' D held ps'" "set ps \<subseteq> set ps'"
      "npages s' = npages s" "\<forall>f. f \<noteq> t \<longrightarrow> phys s' f = phys s f"
      "\<forall>j. phys s' t j = phys s t j \<or> phys s' t j = 0" "\<forall>j\<in>set js. \<not> present (phys s' t j)"
      "idle_kept s ps s' ps'"
      by blast
    have "\<not> present (phys s' t j)" using s'(6) False by (metis and_zero_eq bit.conj_zero_left)
    moreover have "flush_ptes d i t (j # js) s = Some s'" using False s'(1) by (simp add: get_pte_def)
    ultimately show ?thesis using s'
      by (intro exI [of _ s'] exI [of _ ps'] conjI)
        (assumption | simp only: list.set ball_simps insert_iff simp_thms)+
  next
    case True
    then have u: "user_pte s d ?va = Some (phys s t j)"
      using user_pte_at [OF Cons.prems(4,3) j] by simp
    obtain s1 ps1 where s1: "page_remove d ?va s = Some s1" "vm_inv s1 D held ps1" "set ps \<subseteq> set ps1"
      "npages s1 = npages s" "phys s1 = phys (set_pte (t, j) 0 s)" "idle_kept s ps s1 ps1"
      using page_remove_mapped_phys [OF Cons.prems(1,2) va(1) u, of t] va(2,3) Cons.prems(4) by metis
    have t1: "entry_target (phys s1 d i) = Some t" using s1(5) dt Cons.prems(4) by (simp add: set_pte_def)
    from Cons.IH [OF s1(2) Cons.prems(2,3) t1 js] obtain s' ps' where s':
      "flush_ptes d i t js s1 = Some s'" "vm_inv s' D held ps'" "set ps1 \<subseteq> set ps'"
      "npages s' = npages s1" "\<forall>f. f \<noteq> t \<longrightarrow> phys s' f = phys s1 f"
      "\<forall>j. phys s' t j = phys s1 t j \<or> phys s' t j = 0" "\<forall>j\<in>set js. \<not> present (phys s' t j)"
      "idle_kept s1 ps1 s' ps'"
      by blast
    have p1: "phys s1 f = phys s f" if "f \<noteq> t" for f using s1(5) that by (simp add: set_pte_def)
    have p2: "phys s1 t k = (if k = j then 0 else phys s t k)" for k using s1(5) by (simp add: set_pte_def)
    have "flush_ptes d i t (j # js) s = Some s'" using True s1(1) s'(1) by (simp add: get_pte_def)
    moreover have "\<forall>k\<in>set (j # js). \<not> present (phys s' t k)" using s'(6,7) p2 by (auto split: if_splits)
    moreover have "\<forall>k. phys s' t k = phys s t k \<or> phys s' t k = 0" using s'(6) p2 by metis
    moreover have "\<forall>f. f \<noteq> t \<longrightarrow> phys s' f = phys s f" using s'(5) p1 by simp
    moreover have "idle_kept s ps s' ps'" by (rule idle_kept_trans [OF s1(6) s'(8)])
    ultimately show ?thesis using s'(2,3,4) s1(3,4)
      by (intro exI [of _ s'] exI [of _ ps'] conjI) (assumption | simp only: | erule (1) subset_trans)+
  qed
qed auto

section \<open>Removing an empty page table and an empty directory\<close>

lemma vm_remove_table:
  assumes v: "vm_inv s D held ps" and d: "d \<in> D" "i < NUPDE" "entry_target (phys s d i) = Some t"
    and e: "\<forall>j<1024. \<not> present (phys s t j)"
  shows "vm_inv (set_pte (d, i) 0 s) D (held(t := 1)) ps"
proof -
  let ?s = "set_pte (d, i) 0 s"
  have tab: "is_table s D t" "is_table s D d" using d by (auto simp: is_table_def)
  have nd: "entry_target (phys s d' i') \<noteq> Some d" if "d' \<in> D" "i' < NUPDE" for d' i'
    using vm_table_unique [OF v tab(2), of "Dir d" "Pde d' i'"] d(1) that by auto
  have st: "site_target ?s x = (if x = Pde d i then None else site_target s x)" if "x \<in> all_sites D" for x
  proof (cases x)
    case (Pte d' i' j)
    with that have x: "d' \<in> D" "i' < NUPDE" "j < 1024" by auto
    show ?thesis
    proof (cases "d' = d \<and> i' = i")
      case True
      then show ?thesis using d(3) e x(3) unfolding Pte by (simp add: set_pte_def entry_target_def)
    next
      case False
      then have p: "phys ?s d' i' = phys s d' i'" by (auto simp: set_pte_def)
      have "phys ?s t' j = phys s t' j" if "entry_target (phys s d' i') = Some t'" for t'
        using nd [OF x(1,2)] that by (auto simp: set_pte_def)
      then show ?thesis
        unfolding Pte site_target.simps p using False
        by (cases "entry_target (phys s d' i')") (simp_all del: entry_target_Some entry_target_None)
    qed
  qed (auto simp: set_pte_def)
  have x: "Pde d i \<in> all_sites D" "site_target s (Pde d i) = Some t" using d by auto
  have rf: "refs ?s D q + (if q = t then 1 else 0) = refs s D q" for q
    using refs_update [OF vm_finite [OF v] x(1), of ?s None s q] st x(2) by (auto split: if_splits)
  have h: "held t = 0" using vm_table_held [OF v tab(1)] by simp
  have "q \<noteq> t" if "x \<in> all_sites D" "site_target ?s x = Some q" for x q
    using that st vm_table_unique [OF v tab(1) _ _ x] by (auto split: if_splits)
  moreover have "unat (pref ?s q) = refs ?s D q + (held(t := 1)) q" if "q < npages ?s" for q
    using vm_count [OF v, of q] rf [of q] h that by (auto simp: set_pte_def split: if_splits)
  moreover have "avail ?s ps" using vm_avail [OF v] by (simp add: set_pte_def)
  ultimately show ?thesis
    unfolding vm_inv_def using v st vm_structural [OF v] vm_target_lt [OF v]
    by (auto simp: vm_inv_def set_pte_def split: if_splits)
qed

lemma vm_remove_dir:
  assumes v: "vm_inv s D held ps" and d: "d \<in> D" and e: "\<forall>i<NUPDE. \<not> present (phys s d i)"
  shows "vm_inv s (D - {d}) (held(d := 1)) ps"
proof -
  have tab: "is_table s D d" using d by (simp add: is_table_def)
  have x: "Dir d \<in> all_sites D" "site_target s (Dir d) = Some d" using d by auto
  have sub: "x \<in> all_sites D" if "x \<in> all_sites (D - {d})" for x
    using that by (cases x) auto
  have only: "x = Dir d \<and> q = d \<or> x \<in> all_sites (D - {d})" if "x \<in> all_sites D" "site_target s x = Some q" for x q
    using that e by (cases x) (auto split: option.splits)
  have rs: "ref_sites s D q = (if q = d then insert (Dir d) (ref_sites s (D - {d}) q)
      else ref_sites s (D - {d}) q)" for q
    using only sub x by (auto simp: ref_sites_def)
  have "Dir d \<notin> ref_sites s (D - {d}) d" by (simp add: ref_sites_def)
  then have rf: "refs s D q = refs s (D - {d}) q + (if q = d then 1 else 0)" for q
    unfolding refs_def rs using vm_finite [OF v] by simp
  have h: "held d = 0" using vm_table_held [OF v tab] by simp
  have "q \<noteq> d" if "x \<in> all_sites (D - {d})" "site_target s x = Some q" for x q
    using vm_table_unique [OF v tab x sub [OF that(1)]] that by auto
  moreover have "unat (pref s q) = refs s (D - {d}) q + (held(d := 1)) q" if "q < npages s" for q
    using vm_count [OF v that] rf [of q] h by (auto split: if_splits)
  ultimately show ?thesis
    using vm_avail [OF v] vm_finite [OF v] vm_target_lt [OF v sub] vm_structural [OF v sub]
    by (intro vm_invI) auto
qed

section \<open>Flushing an address space\<close>

lemma pa_of_entry:
  assumes "p = ppn_of e" "p < npages s"
  shows "KADDR s (PTE_ADDR e) = Some (PTE_ADDR e + KERNBASE)" "unat (PGNUM (PTE_ADDR e)) = p"
    "pa2page s (PTE_ADDR e) = Some p"
  using assms by (simp_all add: KADDR_def pa2page_def ppn_of_def)

text \<open>Memory outside the directory \<open>d\<close> and its table \<open>t\<close> does not affect other mappings.\<close>

lemma user_pte_other:
  assumes v: "vm_inv s D held ps" and d: "d \<in> D" "i < NUPDE" "entry_target (phys s d i) = Some t"
    and d': "d' \<in> D" "d' \<noteq> d" "va < UTOP"
    and f: "\<forall>f. f \<noteq> t \<longrightarrow> f \<noteq> d \<longrightarrow> phys s' f = phys s f"
  shows "user_pte s' d' va = user_pte s d' va"
proof -
  have x: "Pde d i \<in> all_sites D" "site_target s (Pde d i) = Some t" using d by auto
  have tab: "is_table s D t" "is_table s D d" using d by (auto simp: is_table_def)
  have "d' \<noteq> t" using vm_table_unique [OF v tab(1) x, of "Dir d'"] d' by auto
  then have pd: "phys s' d' = phys s d'" using f d'(2) by simp
  have "t' \<noteq> t \<and> t' \<noteq> d" if "entry_target (phys s d' (pdx va)) = Some t'" for t'
    using vm_table_unique [OF v tab(1) x, of "Pde d' (pdx va)"]
      vm_table_unique [OF v tab(2), of "Dir d" "Pde d' (pdx va)"] that d(1) d' pdx_user [OF d'(3)]
    by (auto simp del: entry_target_Some)
  then have "phys s' t' = phys s t'" if "entry_target (phys s d' (pdx va)) = Some t'" for t'
    using that f by blast
  then show ?thesis unfolding user_pte_def pd
    by (cases "entry_target (phys s d' (pdx va))") (simp_all del: entry_target_Some entry_target_None)
qed

lemma flush_pde_ok:
  assumes v: "vm_inv s D held ps" and d: "d \<in> D" "i < NUPDE" "present (phys s d i)"
  shows "\<exists>s' ps'. flush_pdes d (i # js) s = flush_pdes d js s' \<and> vm_inv s' D held ps' \<and>
    set ps \<subseteq> set ps' \<and> npages s' = npages s \<and> phys s' d = (phys s d)(i := 0) \<and>
    idle_kept s ps s' ps' \<and> (\<forall>d'\<in>D. \<forall>va<UTOP. d' \<noteq> d \<longrightarrow> user_pte s' d' va = user_pte s d' va) \<and>
    (\<forall>f. pref s f = 0 \<longrightarrow> phys s' f = phys s f)"
proof -
  let ?e = "phys s d i"
  obtain t where t: "t = ppn_of ?e" "entry_target ?e = Some t" using d(3) by simp
  have x: "Pde d i \<in> all_sites D" "structural (Pde d i)" "site_target s (Pde d i) = Some t"
    using d t by auto
  have lt: "t < npages s" by (rule vm_target_lt [OF v x(1,3)])
  have tref: "pref s t = 1" "held t = 0" "is_table s D t" using vm_structural [OF v x] by auto
  have dt: "d \<noteq> t" using vm_table_unique [OF v tref(3) x(1,3), of "Dir d"] d(1) by auto
  have sub: "set [0..<1024] \<subseteq> {..<1024 :: nat}" by auto
  obtain s1 ps1 where s1: "flush_ptes d i t [0..<1024] s = Some s1" "vm_inv s1 D held ps1"
    "set ps \<subseteq> set ps1" "npages s1 = npages s" "\<forall>f. f \<noteq> t \<longrightarrow> phys s1 f = phys s f"
    "\<forall>j\<in>set [0..<1024]. \<not> present (phys s1 t j)" "idle_kept s ps s1 ps1"
    using flush_ptes_ok [OF v d(1,2) t(2) sub] by blast
  have e1: "phys s1 d i = ?e" using s1(5) dt by simp
  then have t1: "entry_target (phys s1 d i) = Some t" using t(2) by simp
  have emp: "\<forall>j<1024. \<not> present (phys s1 t j)" using s1(6) by simp
  let ?s2 = "set_pte (d, i) 0 s1"
  have v2: "vm_inv ?s2 D (held(t := 1)) ps1" by (rule vm_remove_table [OF s1(2) d(1,2) t1 emp])
  have r2: "pref ?s2 t = 1"
    using vm_structural [OF s1(2) x(1,2), of t] t1 by (simp add: set_pte_def)
  obtain s3 ps3 where s3: "page_decref t ?s2 = Some s3"
    "vm_inv s3 D ((held(t := 1))(t := (held(t := 1)) t - 1)) ps3" "ps3 = t # ps1"
    "phys s3 = phys ?s2" "npages s3 = npages ?s2"
    "\<forall>q. pref s3 q = (if q = t then pref ?s2 t - 1 else pref ?s2 q)"
    using vm_decref [OF v2, of t] lt s1(4) r2 by (auto simp: set_pte_def)
  have h: "(held(t := 1))(t := (held(t := 1)) t - 1) = held" using tref(2) by auto
  note pa = pa_of_entry [OF t(1) lt]
  have pa1: "pa2page ?s2 (PTE_ADDR ?e) = Some t"
    using pa(3) s1(4) by (simp add: pa2page_def set_pte_def)
  have "flush_pdes d (i # js) s = flush_pdes d js s3"
    using d(3) pa(1,2) s1(1) pa1 s3(1) e1 by (simp add: get_pte_def Let_def NPTENTRIES_def)
  moreover have "phys s3 d = (phys s d)(i := 0)" using s3(4) s1(5) dt by (simp add: set_pte_def)
  moreover have frames: "\<forall>f. f \<noteq> t \<longrightarrow> f \<noteq> d \<longrightarrow> phys s3 f = phys s f"
    using s3(4) s1(5) by (simp add: set_pte_def)
  moreover have "pref s d = 1" using vm_dir [OF v d(1)] by simp
  then have "\<forall>f. pref s f = 0 \<longrightarrow> phys s3 f = phys s f" using frames tref(1) by (metis zero_neq_one)
  moreover have "\<forall>d'\<in>D. \<forall>va<UTOP. d' \<noteq> d \<longrightarrow> user_pte s3 d' va = user_pte s d' va"
    using user_pte_other [OF v d(1,2) t(2)] frames by blast
  moreover have "npages s3 = npages s" using s3(5) s1(4) by (simp add: set_pte_def)
  moreover have "set ps \<subseteq> set ps3" using s1(3) s3(3) by auto
  moreover have "pref s1 q = 0 \<Longrightarrow> q \<noteq> t" for q using r2 by (auto simp: set_pte_def)
  then have "idle_kept s1 ps1 s3 ps3" using s3(3,6) by (auto simp: idle_kept_def set_pte_def)
  then have "idle_kept s ps s3 ps3" by (rule idle_kept_trans [OF s1(7)])
  ultimately show ?thesis using s3(2) unfolding h by blast
qed

lemma flush_pdes_ok:
  assumes "vm_inv s D held ps" "d \<in> D" "set js \<subseteq> {..<NUPDE}"
  shows "\<exists>s' ps'. flush_pdes d js s = Some s' \<and> vm_inv s' D held ps' \<and> set ps \<subseteq> set ps' \<and>
    npages s' = npages s \<and> (\<forall>i. \<not> present (phys s d i) \<longrightarrow> \<not> present (phys s' d i)) \<and>
    (\<forall>i\<in>set js. \<not> present (phys s' d i)) \<and> idle_kept s ps s' ps' \<and>
    (\<forall>d'\<in>D. \<forall>va<UTOP. d' \<noteq> d \<longrightarrow> user_pte s' d' va = user_pte s d' va)"
  using assms
proof (induction js arbitrary: s ps)
  case (Cons i js)
  have js: "set js \<subseteq> {..<NUPDE}" and i: "i < NUPDE" using Cons.prems(3) by auto
  show ?case
  proof (cases "present (phys s d i)")
    case False
    from Cons.IH [OF Cons.prems(1,2) js] obtain s' ps' where s':
      "flush_pdes d js s = Some s'" "vm_inv s' D held ps'" "set ps \<subseteq> set ps'" "npages s' = npages s"
      "\<forall>i. \<not> present (phys s d i) \<longrightarrow> \<not> present (phys s' d i)" "\<forall>i\<in>set js. \<not> present (phys s' d i)"
      "\<forall>d'\<in>D. \<forall>va<UTOP. d' \<noteq> d \<longrightarrow> user_pte s' d' va = user_pte s d' va"
      "idle_kept s ps s' ps'" by blast
    have "flush_pdes d (i # js) s = Some s'" using False s'(1) by (simp add: get_pte_def)
    moreover have "\<forall>k\<in>set (i # js). \<not> present (phys s' d k)" using s'(5,6) False by simp
    ultimately show ?thesis using s'(2-5,7,8) by blast
  next
    case True
    obtain s1 ps1 where s1: "flush_pdes d (i # js) s = flush_pdes d js s1" "vm_inv s1 D held ps1"
      "set ps \<subseteq> set ps1" "npages s1 = npages s" "phys s1 d = (phys s d)(i := 0)"
      "\<forall>d'\<in>D. \<forall>va<UTOP. d' \<noteq> d \<longrightarrow> user_pte s1 d' va = user_pte s d' va"
      "idle_kept s ps s1 ps1"
      using flush_pde_ok [OF Cons.prems(1,2) i True] by blast
    from Cons.IH [OF s1(2) Cons.prems(2) js] obtain s' ps' where s':
      "flush_pdes d js s1 = Some s'" "vm_inv s' D held ps'" "set ps1 \<subseteq> set ps'" "npages s' = npages s1"
      "\<forall>i. \<not> present (phys s1 d i) \<longrightarrow> \<not> present (phys s' d i)" "\<forall>i\<in>set js. \<not> present (phys s' d i)"
      "\<forall>d'\<in>D. \<forall>va<UTOP. d' \<noteq> d \<longrightarrow> user_pte s' d' va = user_pte s1 d' va"
      "idle_kept s1 ps1 s' ps'" by blast
    have "\<not> present (phys s' d i)" using s'(5) s1(5) by simp
    then have "\<forall>k\<in>set (i # js). \<not> present (phys s' d k)" using s'(6) by simp
    moreover have "\<forall>k. \<not> present (phys s d k) \<longrightarrow> \<not> present (phys s' d k)" using s'(5) s1(5) by simp
    moreover have "\<forall>d'\<in>D. \<forall>va<UTOP. d' \<noteq> d \<longrightarrow> user_pte s' d' va = user_pte s d' va"
      using s'(7) s1(6) by simp
    moreover have "flush_pdes d (i # js) s = Some s'" "npages s' = npages s" "set ps \<subseteq> set ps'"
      using s1(1,3,4) s'(1,3,4) by auto
    moreover have "idle_kept s ps s' ps'" by (rule idle_kept_trans [OF s1(7) s'(8)])
    ultimately show ?thesis using s'(2) by blast
  qed
qed auto

end
