(* ===== verification/Env_Table.thy ===== *)
theory Env_Table
  imports Env_Free
begin

text \<open>
  The kernel invariant: exact reference counts over the page directories of the live environments,
  a free list that runs through exactly the free slots of \<open>envs\<close>, well-formed environment
  ids, and snapshot pages that are neither free nor referenced. \<open>env_alloc\<close> and
  \<open>env_free\<close> keep it.
\<close>

section \<open>The invariant\<close>

definition live :: "'z kernel_scheme \<Rightarrow> nat \<Rightarrow> bool" where
  "live k e \<longleftrightarrow> e < NENV \<and> env_status (envs k e) \<noteq> ENV_FREE"

definition dirs :: "'z kernel_scheme \<Rightarrow> nat set" where
  "dirs k = {d. \<exists>e. live k e \<and> env_pgdir (envs k e) = Some d}"

definition env_table :: "'z kernel_scheme \<Rightarrow> nat list \<Rightarrow> bool" where
  "env_table k fs \<longleftrightarrow>
     chain (\<lambda>e. env_link (envs k e)) (env_free_list k) fs \<and>
     set fs = {e. e < NENV \<and> env_status (envs k e) = ENV_FREE} \<and>
     (\<forall>e. live k e \<longrightarrow> env_pgdir (envs k e) \<noteq> None \<and> env_id (envs k e) \<noteq> 0) \<and>
     (\<forall>e e'. live k e \<longrightarrow> live k e' \<longrightarrow> env_pgdir (envs k e) = env_pgdir (envs k e') \<longrightarrow> e = e') \<and>
     (\<forall>e<NENV. env_id (envs k e) = 0 \<or> ENVX (env_id (envs k e)) = e \<and> 0 < sint (env_id (envs k e)))"

definition snap_pages :: "'z kernel_scheme \<Rightarrow> nat \<Rightarrow> nat list" where
  "snap_pages k i = (case snapshots k i of None \<Rightarrow> [] | Some ss \<Rightarrow> List.map_filter saved_page (saved_pages ss))"

definition snaps_ok :: "'z kernel_scheme \<Rightarrow> nat list \<Rightarrow> bool" where
  "snaps_ok k ps \<longleftrightarrow>
     (\<forall>i<NSNAPSHOTS. distinct (snap_pages k i) \<and> set (snap_pages k i) \<inter> set ps = {} \<and>
        (\<forall>p\<in>set (snap_pages k i). p < npages k \<and> pref k p = 0)) \<and>
     (\<forall>i<NSNAPSHOTS. \<forall>j<NSNAPSHOTS. i \<noteq> j \<longrightarrow> set (snap_pages k i) \<inter> set (snap_pages k j) = {})"

definition kinv :: "'z kernel_scheme \<Rightarrow> (nat \<Rightarrow> nat) \<Rightarrow> nat list \<Rightarrow> nat list \<Rightarrow> bool" where
  "kinv k held ps fs \<longleftrightarrow> vm_inv k (dirs k) held ps \<and> env_table k fs \<and> snaps_ok k ps"

lemma upd_env_fields [simp]:
  "npages (upd_env e f k) = npages k" "pages (upd_env e f k) = pages k"
  "page_free_list (upd_env e f k) = page_free_list k" "phys (upd_env e f k) = phys k"
  "kern_pgdir (upd_env e f k) = kern_pgdir k"
  "env_free_list (upd_env e f k) = env_free_list k" "snapshots (upd_env e f k) = snapshots k"
  "cpus (upd_env e f k) = cpus k" "thiscpu (upd_env e f k) = thiscpu k"
  "envs (upd_env e f k) e' = (if e' = e then f (envs k e) else envs k e')"
  "curenv (upd_env e f k) = curenv k"
  by (simp_all add: upd_env_def curenv_def)

lemma upd_cpu_fields [simp]:
  "npages (upd_cpu f k) = npages k" "pages (upd_cpu f k) = pages k"
  "page_free_list (upd_cpu f k) = page_free_list k" "phys (upd_cpu f k) = phys k"
  "kern_pgdir (upd_cpu f k) = kern_pgdir k"
  "env_free_list (upd_cpu f k) = env_free_list k" "snapshots (upd_cpu f k) = snapshots k"
  "envs (upd_cpu f k) = envs k" "thiscpu (upd_cpu f k) = thiscpu k"
  by (simp_all add: upd_cpu_def)

text \<open>The memory invariant depends on the memory part of the state alone.\<close>

lemma site_target_mem:
  fixes s :: "'a pmem_scheme" and s' :: "'b pmem_scheme"
  shows "phys s = phys s' \<Longrightarrow> site_target s x = site_target s' x"
  by (cases x) (simp_all split: option.split)

lemma vm_inv_mem:
  fixes s :: "'a pmem_scheme" and s' :: "'b pmem_scheme"
  assumes "npages s = npages s'" "pages s = pages s'" "page_free_list s = page_free_list s'"
    "phys s = phys s'"
  shows "vm_inv s D held ps \<longleftrightarrow> vm_inv s' D held ps"
proof -
  have st: "site_target s x = site_target s' x" for x
    by (rule site_target_mem [OF assms(4)])
  show ?thesis
    unfolding vm_inv_def refs_def ref_sites_def avail_def assms(1-3) st ..
qed

lemma vm_inv_upd_env [simp]: "vm_inv (upd_env e f k) D held ps \<longleftrightarrow> vm_inv k D held ps"
  by (rule vm_inv_mem) simp_all

lemma vm_inv_upd_cpu [simp]: "vm_inv (upd_cpu f k) D held ps \<longleftrightarrow> vm_inv k D held ps"
  by (rule vm_inv_mem) simp_all

lemma live_dir: "env_table k fs \<Longrightarrow> live k e \<Longrightarrow> \<exists>d. env_pgdir (envs k e) = Some d \<and> d \<in> dirs k"
  unfolding env_table_def dirs_def by blast

text \<open>The memory operations leave the environment table and the snapshots alone.\<close>

definition same_envs :: "'z kernel_scheme \<Rightarrow> 'z kernel_scheme \<Rightarrow> bool" where
  "same_envs k k' \<longleftrightarrow> envs k' = envs k \<and> env_free_list k' = env_free_list k \<and>
     snapshots k' = snapshots k \<and> cpus k' = cpus k \<and> thiscpu k' = thiscpu k \<and>
     kern_pgdir k' = kern_pgdir k \<and> kernel_lock k' = kernel_lock k \<and> ticks k' = ticks k \<and>
     console k' = console k"

lemma same_envs_refl [simp]: "same_envs k k"
  by (simp add: same_envs_def)

lemma same_envs_trans: "same_envs k k' \<Longrightarrow> same_envs k' k'' \<Longrightarrow> same_envs k k''"
  by (simp add: same_envs_def)

lemma same_envs_steps [simp]:
  "same_envs k (k\<lparr>pages := a\<rparr>)" "same_envs k (k\<lparr>phys := m\<rparr>)" "same_envs k (k\<lparr>page_free_list := l\<rparr>)"
  "same_envs k (set_pte p v k)" "same_envs k (zero_frame f k)" "same_envs k (tlb_invalidate va k)"
  by (simp_all add: same_envs_def set_pte_def zero_frame_def tlb_invalidate_def)

lemma same_envs_page_alloc: "page_alloc fl k = Some (r, k') \<Longrightarrow> same_envs k k'"
  by (auto simp: page_alloc_def same_envs_def zero_frame_def Let_def bind_eq_Some_conv
      split: option.splits if_splits)

lemma same_envs_page_free: "page_free p k = Some k' \<Longrightarrow> same_envs k k'"
  by (auto simp: page_free_def same_envs_def split: if_splits)

lemma same_envs_page_decref: "page_decref p k = Some k' \<Longrightarrow> same_envs k k'"
  unfolding page_decref_def Let_def
  by (auto split: if_splits dest!: same_envs_page_free simp: same_envs_def)

lemma same_envs_walk: "pgdir_walk d va c k = Some (r, k') \<Longrightarrow> same_envs k k'"
  unfolding pgdir_walk_def Let_def
  by (auto simp: bind_eq_Some_conv set_pte_def same_envs_def split: if_splits option.splits
      dest!: same_envs_page_alloc)

lemma same_envs_remove: "page_remove d va k = Some k' \<Longrightarrow> same_envs k k'"
  unfolding page_remove_def
  by (auto simp: bind_eq_Some_conv tlb_invalidate_def same_envs_def set_pte_def split: option.splits
      dest!: same_envs_page_decref)

lemma same_envs_insert:
  assumes "page_insert d p va perm k = Some (r, k')"
  shows "same_envs k k'"
proof -
  obtain e k1 where w: "pgdir_walk d va True k = Some (e, k1)"
    using assms by (auto simp: page_insert_def bind_eq_Some_conv)
  note k1 = same_envs_walk [OF w]
  show ?thesis
  proof (cases e)
    case None
    with w assms k1 show ?thesis by (simp add: page_insert_def)
  next
    case (Some te)
    with w assms obtain q where q: "p = Some q" by (cases p) (auto simp: page_insert_def)
    let ?k2 = "set_ref q (pref k1 q + 1) k1"
    have k2: "same_envs k ?k2" using k1 by (simp add: same_envs_def)
    have "do { s \<leftarrow> (if present (get_pte ?k2 te) then page_remove d va ?k2 else Some ?k2);
          Some (Inr () :: jos_error + unit, set_pte te (page2pa q OR perm OR PTE_P) s) } = Some (r, k')"
      using assms unfolding page_insert_def w by (simp only: bind.bind_lunit prod.case Some q option.case Let_def)
    then obtain k3 where k3: "(if present (get_pte ?k2 te) then page_remove d va ?k2 else Some ?k2) = Some k3"
      "k' = set_pte te (page2pa q OR perm OR PTE_P) k3"
      by (auto simp only: bind_eq_Some_conv prod.inject option.inject)
    have "same_envs ?k2 k3"
    proof (cases "present (get_pte ?k2 te)")
      case True
      show ?thesis by (rule same_envs_remove [OF k3(1) [unfolded if_P [OF True]]])
    next
      case False
      show ?thesis using k3(1) [unfolded if_not_P [OF False]] by simp
    qed
    then have "same_envs k k3" by (rule same_envs_trans [OF k2])
    then show ?thesis unfolding k3(2) by (rule same_envs_trans [OF _ same_envs_steps(4)])
  qed
qed

lemma same_envs_flush_ptes: "flush_ptes d i t js k = Some k' \<Longrightarrow> same_envs k k'"
proof (induction js arbitrary: k)
  case (Cons j js)
  then show ?case
    by (auto simp: bind_eq_Some_conv split: if_splits dest!: same_envs_remove intro: same_envs_trans)
qed simp

lemma same_envs_flush_pdes: "flush_pdes d js k = Some k' \<Longrightarrow> same_envs k k'"
proof (induction js arbitrary: k)
  case (Cons i js)
  show ?case
  proof (cases "present (get_pte k (d, i))")
    case True
    with Cons.prems obtain k1 k2 where k: "flush_ptes d i (unat (PGNUM (PTE_ADDR (get_pte k (d, i)))))
        [0..<NPTENTRIES] k = Some k1" "\<exists>pp. page_decref pp (set_pte (d, i) 0 k1) = Some k2"
      "flush_pdes d js k2 = Some k'"
      by (auto simp: bind_eq_Some_conv Let_def)
    then show ?thesis
      using same_envs_flush_ptes [OF k(1)] Cons.IH [OF k(3)]
      by (metis same_envs_page_decref same_envs_steps(4) same_envs_trans)
  qed (use Cons in auto)
qed simp

section \<open>Discarding snapshots\<close>

lemma vm_free_idle:
  assumes v: "vm_inv s D held ps" and p: "p \<notin> set ps" "pref s p = 0" "p < npages s"
  shows "\<exists>s'. page_free p s = Some s' \<and> vm_inv s' D held (p # ps) \<and> phys s' = phys s \<and>
    npages s' = npages s \<and> (\<forall>q. pref s' q = pref s q)"
proof -
  obtain s' where s': "page_free p s = Some s'" "avail s' (p # ps)" "phys s' = phys s"
    "npages s' = npages s" "\<forall>q. pref s' q = pref s q"
    using page_free_ok [OF vm_avail [OF v] p] by blast
  have st: "site_target s' x = site_target s x" for x by (rule site_target_mem [OF s'(3)])
  then have rf: "refs s' D q = refs s D q" for q by (intro refs_cong)
  have "vm_inv s' D held (p # ps)"
    using v s'(2,4,5) unfolding vm_inv_def st rf by simp
  with s' show ?thesis by blast
qed

lemma map_filter_Cons:
  "List.map_filter f (x # xs) = (case f x of None \<Rightarrow> List.map_filter f xs | Some y \<Rightarrow> y # List.map_filter f xs)"
  by (simp add: List.map_filter_def split: option.split)

lemma map_filter_Nil: "List.map_filter f [] = []"
  by (simp add: List.map_filter_def)

lemma savedpages_free_ok:
  assumes "vm_inv k D held ps" "distinct (List.map_filter saved_page ss)"
    and "set (List.map_filter saved_page ss) \<inter> set ps = {}"
    and "\<forall>p\<in>set (List.map_filter saved_page ss). p < npages k \<and> pref k p = 0"
  shows "\<exists>k' ps'. savedpages_free ss k = Some k' \<and> vm_inv k' D held ps' \<and>
    set ps' = set ps \<union> set (List.map_filter saved_page ss) \<and> phys k' = phys k \<and>
    npages k' = npages k \<and> (\<forall>q. pref k' q = pref k q) \<and> same_envs k k'"
  using assms
proof (induction ss arbitrary: k ps)
  case (Cons x ss)
  show ?case
  proof (cases "saved_page x")
    case None
    with Cons show ?thesis by (simp add: map_filter_Cons)
  next
    case (Some p)
    with Cons.prems have p: "p \<notin> set ps" "pref k p = 0" "p < npages k"
      "p \<notin> set (List.map_filter saved_page ss)"
      by (auto simp: map_filter_Cons)
    from vm_free_idle [OF Cons.prems(1) p(1-3)] obtain k1 where k1:
      "page_free p k = Some k1" "vm_inv k1 D held (p # ps)" "phys k1 = phys k" "npages k1 = npages k"
      "\<forall>q. pref k1 q = pref k q" by blast
    have pre: "distinct (List.map_filter saved_page ss)"
      "set (List.map_filter saved_page ss) \<inter> set (p # ps) = {}"
      "\<forall>p\<in>set (List.map_filter saved_page ss). p < npages k1 \<and> pref k1 p = 0"
      using Cons.prems(2-4) Some p(4) k1(4,5) by (auto simp: map_filter_Cons)
    from Cons.IH [OF k1(2) pre] obtain k' ps' where k':
      "savedpages_free ss k1 = Some k'" "vm_inv k' D held ps'"
      "set ps' = set (p # ps) \<union> set (List.map_filter saved_page ss)" "phys k' = phys k1"
      "npages k' = npages k1" "\<forall>q. pref k' q = pref k1 q" "same_envs k1 k'" by blast
    then show ?thesis
      using k1 Some same_envs_trans [OF same_envs_page_free [OF k1(1)] k'(7)]
      by (intro exI [of _ k'] exI [of _ ps']) (simp add: map_filter_Cons)
  qed
next
  case Nil
  then show ?case by (intro exI [of _ k] exI [of _ ps]) (simp add: map_filter_Nil)
qed

abbreviation same_but_snaps :: "'z kernel_scheme \<Rightarrow> 'z kernel_scheme \<Rightarrow> bool" where
  "same_but_snaps k k' \<equiv> same_envs (k\<lparr>snapshots := snapshots k'\<rparr>) k'"

lemma snapshot_free_ok:
  assumes v: "vm_inv k D held ps" and sn: "snaps_ok k ps" and i: "i < NSNAPSHOTS"
  shows "\<exists>k' ps'. snapshot_free i k = Some k' \<and> vm_inv k' D held ps' \<and> snaps_ok k' ps' \<and>
    set ps \<subseteq> set ps' \<and> phys k' = phys k \<and> npages k' = npages k \<and> (\<forall>q. pref k' q = pref k q) \<and>
    same_but_snaps k k' \<and> snapshots k' = (snapshots k)(i := None)"
proof (cases "snapshots k i")
  case None
  then have "snapshots k = (snapshots k)(i := None)" by auto
  with None i v sn show ?thesis
    by (intro exI [of _ k] exI [of _ ps]) (simp add: snapshot_free_def same_envs_def)
next
  case (Some ss)
  then have sp: "snap_pages k i = List.map_filter saved_page (saved_pages ss)" by (simp add: snap_pages_def)
  have pre: "distinct (List.map_filter saved_page (saved_pages ss))"
    "set (List.map_filter saved_page (saved_pages ss)) \<inter> set ps = {}"
    "\<forall>p\<in>set (List.map_filter saved_page (saved_pages ss)). p < npages k \<and> pref k p = 0"
    using sn i unfolding snaps_ok_def sp [symmetric] by blast+
  from savedpages_free_ok [OF v pre] obtain k1 ps' where k1:
    "savedpages_free (saved_pages ss) k = Some k1" "vm_inv k1 D held ps'"
    "set ps' = set ps \<union> set (snap_pages k i)" "phys k1 = phys k" "npages k1 = npages k"
    "\<forall>q. pref k1 q = pref k q" "same_envs k k1" unfolding sp by blast
  let ?k = "k1\<lparr>snapshots := (snapshots k1)(i := None)\<rparr>"
  have s1: "snapshots k1 = snapshots k" using k1(7) by (simp add: same_envs_def)
  have sp': "snap_pages ?k j = (if j = i then [] else snap_pages k j)" for j
    by (simp add: snap_pages_def s1)
  have "snaps_ok ?k ps'"
    using sn i k1(3,5,6) unfolding snaps_ok_def sp' by (auto; blast)
  moreover have "snapshot_free i k = Some ?k" using Some i k1(1) by (simp add: snapshot_free_def)
  moreover have "vm_inv ?k D held ps'" using k1(2) by (subst vm_inv_mem [of _ k1]) simp_all
  moreover have "same_but_snaps k ?k" using k1(7) by (simp add: same_envs_def)
  ultimately show ?thesis using k1(3-6) s1
    by (intro exI [of _ ?k] exI [of _ ps']) simp
qed

lemma free_snapshots_ok:
  assumes "vm_inv k D held ps" "snaps_ok k ps" "set js \<subseteq> {..<NSNAPSHOTS}"
  shows "\<exists>k' ps'. free_snapshots_of eid js k = Some k' \<and> vm_inv k' D held ps' \<and> snaps_ok k' ps' \<and>
    set ps \<subseteq> set ps' \<and> phys k' = phys k \<and> npages k' = npages k \<and> (\<forall>q. pref k' q = pref k q) \<and>
    same_but_snaps k k' \<and> (\<forall>i. snapshots k' i = (if i \<in> set js \<and>
      (\<exists>ss. snapshots k i = Some ss \<and> ss_envid ss = eid) then None else snapshots k i))"
  using assms
proof (induction js arbitrary: k ps)
  case (Cons i js)
  have js: "set js \<subseteq> {..<NSNAPSHOTS}" and i: "i < NSNAPSHOTS" using Cons.prems(3) by auto
  show ?case
  proof (cases "\<exists>ss. snapshots k i = Some ss \<and> ss_envid ss = eid")
    case False
    then have "free_snapshots_of eid (i # js) k = free_snapshots_of eid js k"
      by (auto split: option.split)
    moreover have "(if j \<in> set (i # js) \<and> (\<exists>ss. snapshots k j = Some ss \<and> ss_envid ss = eid)
        then None else snapshots k j) = (if j \<in> set js \<and> (\<exists>ss. snapshots k j = Some ss \<and> ss_envid ss = eid)
        then None else snapshots k j)" for j
      using False by auto
    ultimately show ?thesis using Cons.IH [OF Cons.prems(1,2) js] by (simp only:)
  next
    case True
    obtain k1 ps1 where k1: "snapshot_free i k = Some k1" "vm_inv k1 D held ps1" "snaps_ok k1 ps1"
      "set ps \<subseteq> set ps1" "phys k1 = phys k" "npages k1 = npages k" "\<forall>q. pref k1 q = pref k q"
      "same_but_snaps k k1" "snapshots k1 = (snapshots k)(i := None)"
      using snapshot_free_ok [OF Cons.prems(1,2) i] by blast
    have f: "free_snapshots_of eid (i # js) k = free_snapshots_of eid js k1"
      using True k1(1) by auto
    from Cons.IH [OF k1(2,3) js] obtain k' ps' where k':
      "free_snapshots_of eid js k1 = Some k'" "vm_inv k' D held ps'" "snaps_ok k' ps'"
      "set ps1 \<subseteq> set ps'" "phys k' = phys k1" "npages k' = npages k1" "\<forall>q. pref k' q = pref k1 q"
      "same_but_snaps k1 k'" "\<forall>i. snapshots k' i = (if i \<in> set js \<and>
      (\<exists>ss. snapshots k1 i = Some ss \<and> ss_envid ss = eid) then None else snapshots k1 i)" by blast
    have "snapshots k' j = (if j \<in> set (i # js) \<and>
      (\<exists>ss. snapshots k j = Some ss \<and> ss_envid ss = eid) then None else snapshots k j)" for j
      using k'(9) k1(9) True by (cases "j = i") auto
    moreover have "same_but_snaps k k'" using k1(8) k'(8) by (simp add: same_envs_def)
    moreover have "set ps \<subseteq> set ps'" "phys k' = phys k" "npages k' = npages k"
      "\<forall>q. pref k' q = pref k q"
      using k'(4-7) k1(4-7) by auto
    ultimately show ?thesis unfolding f using k'(1-3) by blast
  qed
next
  case Nil
  then show ?case by (intro exI [of _ k] exI [of _ ps]) (simp add: same_envs_def)
qed

section \<open>Freeing an environment\<close>

lemma dirs_finite: "finite (dirs k)"
proof -
  have "dirs k \<subseteq> (\<lambda>e. the (env_pgdir (envs k e))) ` {..<NENV}"
    by (auto simp: dirs_def live_def image_iff) (metis lessThan_iff option.sel)
  then show ?thesis by (rule finite_subset) simp
qed

lemma snaps_ok_mono:
  assumes "snaps_ok k ps" "snapshots k' = snapshots k" "npages k' = npages k" "idle_kept k ps k' ps'"
  shows "snaps_ok k' ps'"
proof -
  have sp: "snap_pages k' i = snap_pages k i" for i using assms(2) by (simp add: snap_pages_def)
  have "p < npages k' \<and> pref k' p = 0 \<and> p \<notin> set ps'" if "i < NSNAPSHOTS" "p \<in> set (snap_pages k i)" for i p
  proof -
    have "p < npages k" "pref k p = 0" "p \<notin> set ps" using assms(1) that by (auto simp: snaps_ok_def)
    moreover from this have "pref k' p = 0 \<and> p \<notin> set ps'"
      using assms(4) unfolding idle_kept_def by blast
    ultimately show ?thesis using assms(3) by simp
  qed
  then show ?thesis using assms(1) unfolding snaps_ok_def sp by blast
qed

lemma env_table_free:
  assumes t: "env_table k fs" and e: "live k e"
    and k': "\<forall>i. envs k' i = (if i = e then (envs k e)\<lparr>env_pgdir := None, env_status := ENV_FREE,
      env_link := env_free_list k\<rparr> else envs k i)" "env_free_list k' = Some e"
  shows "env_table k' (e # fs)" "dirs k' = dirs k - {the (env_pgdir (envs k e))}"
proof -
  have lv: "live k' i \<longleftrightarrow> live k i \<and> i \<noteq> e" for i using k'(1) by (auto simp: live_def)
  have nf: "e \<notin> set fs" "e < NENV" using t e by (auto simp: env_table_def live_def)
  have "chain (\<lambda>i. env_link (envs k' i)) (env_free_list k) fs \<longleftrightarrow>
      chain (\<lambda>i. env_link (envs k i)) (env_free_list k) fs"
    using nf k'(1) by (intro chain_cong) auto
  moreover have "env_link (envs k' e) = env_free_list k" using k'(1) by simp
  ultimately have "chain (\<lambda>i. env_link (envs k' i)) (env_free_list k') (e # fs)"
    using t k'(2) by (simp add: env_table_def)
  moreover have "set (e # fs) = {i. i < NENV \<and> env_status (envs k' i) = ENV_FREE}"
    using t nf k'(1) by (auto simp: env_table_def)
  ultimately show "env_table k' (e # fs)"
    using t k'(1) unfolding env_table_def lv by simp
  show "dirs k' = dirs k - {the (env_pgdir (envs k e))}"
  proof (intro set_eqI iffI)
    fix d assume "d \<in> dirs k'"
    then obtain i where i: "live k i" "i \<noteq> e" "env_pgdir (envs k i) = Some d"
      using k'(1) unfolding dirs_def lv by auto
    then have "env_pgdir (envs k e) \<noteq> Some d" using t e unfolding env_table_def by metis
    then have "the (env_pgdir (envs k e)) \<noteq> d" using t e unfolding env_table_def by (metis option.collapse)
    with i show "d \<in> dirs k - {the (env_pgdir (envs k e))}" by (auto simp: dirs_def)
  next
    fix d assume "d \<in> dirs k - {the (env_pgdir (envs k e))}"
    then obtain i where i: "live k i" "env_pgdir (envs k i) = Some d" "i \<noteq> e"
      unfolding dirs_def by force
    then show "d \<in> dirs k'" using k'(1) unfolding dirs_def lv by auto
  qed
qed

lemma env_free_ok:
  assumes inv: "kinv k held ps fs" and e: "live k e" "env_pgdir (envs k e) = Some d"
  shows "\<exists>k' ps'. env_free e k = Some k' \<and> kinv k' held ps' (e # fs) \<and> insert d (set ps) \<subseteq> set ps' \<and>
    (\<forall>i. i \<noteq> e \<longrightarrow> envs k' i = envs k i) \<and> curenv k' = curenv k \<and>
    (\<forall>d'\<in>dirs k. \<forall>va<UTOP. d' \<noteq> d \<longrightarrow> user_pte k' d' va = user_pte k d' va) \<and>
    (\<forall>i<NSNAPSHOTS. \<forall>ss. snapshots k' i = Some ss \<longrightarrow> ss_envid ss \<noteq> env_id (envs k e))"
proof -
  let ?eid = "env_id (envs k e)"
  let ?k0 = "if Some e = curenv k then lcr3 (kern_pgdir k) k else k"
  note v = inv [unfolded kinv_def, THEN conjunct1] and t = inv [unfolded kinv_def, THEN conjunct2, THEN conjunct1]
    and sn = inv [unfolded kinv_def, THEN conjunct2, THEN conjunct2]
  have d: "d \<in> dirs k" using e by (auto simp: dirs_def)
  have k0: "npages ?k0 = npages k" "pages ?k0 = pages k" "page_free_list ?k0 = page_free_list k"
    "phys ?k0 = phys k" "envs ?k0 = envs k" "env_free_list ?k0 = env_free_list k"
    "snapshots ?k0 = snapshots k" "curenv ?k0 = curenv k"
    by (simp_all add: lcr3_def upd_cpu_def curenv_def)
  have v0: "vm_inv ?k0 (dirs k) held ps" using v by (subst vm_inv_mem [of _ k]) (simp_all only: k0)
  have sn0: "snaps_ok ?k0 ps" by (rule snaps_ok_mono [OF sn]) (simp_all add: k0 idle_kept_def)
  have "set [0..<NSNAPSHOTS] \<subseteq> {..<NSNAPSHOTS}" by auto
  from free_snapshots_ok [OF v0 sn0 this, of ?eid] obtain k1 ps1 where k1:
    "free_snapshots_of ?eid [0..<NSNAPSHOTS] ?k0 = Some k1" "vm_inv k1 (dirs k) held ps1"
    "snaps_ok k1 ps1" "set ps \<subseteq> set ps1" "phys k1 = phys ?k0" "npages k1 = npages ?k0"
    "\<forall>q. pref k1 q = pref ?k0 q" "same_but_snaps ?k0 k1"
    "\<forall>i. snapshots k1 i = (if i \<in> set [0..<NSNAPSHOTS] \<and>
      (\<exists>ss. snapshots ?k0 i = Some ss \<and> ss_envid ss = ?eid) then None else snapshots ?k0 i)" by blast
  have e1: "envs k1 = envs k" "env_free_list k1 = env_free_list k" "curenv k1 = curenv k"
    using k1(8) k0 by (simp_all add: same_envs_def curenv_def)
  have "set [0..<NUPDE] \<subseteq> {..<NUPDE}" by auto
  from flush_pdes_ok [OF k1(2) d this] obtain k2 ps2 where k2:
    "flush_pdes d [0..<NUPDE] k1 = Some k2" "vm_inv k2 (dirs k) held ps2" "set ps1 \<subseteq> set ps2"
    "npages k2 = npages k1" "\<forall>i\<in>set [0..<NUPDE]. \<not> present (phys k2 d i)" "idle_kept k1 ps1 k2 ps2"
    "\<forall>d'\<in>dirs k. \<forall>va<UTOP. d' \<noteq> d \<longrightarrow> user_pte k2 d' va = user_pte k1 d' va" by blast
  note e2 = same_envs_flush_pdes [OF k2(1)]
  let ?k4 = "upd_env e (\<lambda>v. v\<lparr>env_pgdir := None\<rparr>) (upd_env e (\<lambda>v. v\<lparr>env_status := ENV_NOT_RUNNABLE\<rparr>) k2)"
  have "\<forall>i<NUPDE. \<not> present (phys k2 d i)" using k2(5) by simp
  from vm_remove_dir [OF k2(2) d this] have v4: "vm_inv ?k4 (dirs k - {d}) (held(d := 1)) ps2" by simp
  note dd = vm_dir [OF k2(2) d]
  have h: "held d = 0" using vm_table_held [OF k2(2)] d by (simp add: is_table_def)
  obtain k5 where k5: "page_decref d ?k4 = Some k5"
    "vm_inv k5 (dirs k - {d}) ((held(d := 1))(d := (held(d := 1)) d - 1)) (d # ps2)"
    "phys k5 = phys ?k4" "npages k5 = npages ?k4"
    "\<forall>q. pref k5 q = (if q = d then pref ?k4 d - 1 else pref ?k4 q)"
    using vm_decref [OF v4, of d] dd by auto
  have h': "(held(d := 1))(d := (held(d := 1)) d - 1) = held" using h by auto
  note e5 = same_envs_page_decref [OF k5(1)]
  let ?k6 = "upd_env e (\<lambda>v. v\<lparr>env_status := ENV_FREE, env_link := env_free_list k5\<rparr>) k5"
  let ?k' = "?k6\<lparr>env_free_list := Some e\<rparr>"
  have run: "env_free e k = Some ?k'"
    using k1(1) k2(1) k5(1) e(2) e1(1) e2 k0(5)
    by (simp add: env_free_def env_flush_addr_space_def NUPDE_def same_envs_def)
  have en: "\<forall>i. envs ?k' i = (if i = e then (envs k e)\<lparr>env_pgdir := None, env_status := ENV_FREE,
      env_link := env_free_list k\<rparr> else envs k i)" "env_free_list ?k' = Some e" "curenv ?k' = curenv k"
    using e1 e2 e5 by (simp_all add: same_envs_def curenv_def)
  note tab = env_table_free [OF t e(1) en(1,2)]
  have D: "dirs ?k' = dirs k - {d}" using tab(2) e(2) by simp
  have v': "vm_inv ?k' (dirs ?k') held (d # ps2)"
    unfolding D using k5(2) [unfolded h'] by (subst vm_inv_mem [of _ k5]) simp_all
  have sn2: "snaps_ok k2 ps2" using snaps_ok_mono [OF k1(3) _ k2(4,6)] e2 by (simp add: same_envs_def)
  have "idle_kept k2 ps2 ?k' (d # ps2)" using k5(5) dd by (auto simp: idle_kept_def)
  then have sn': "snaps_ok ?k' (d # ps2)"
    using snaps_ok_mono [OF sn2, of ?k'] k5(4) e5 by (simp add: same_envs_def)
  have up: "user_pte ?k' d' va = user_pte k d' va" if "d' \<in> dirs k" "va < UTOP" "d' \<noteq> d" for d' va
  proof -
    have "user_pte ?k' d' va = user_pte k2 d' va" using user_pte_phys [of ?k' k2] k5(3) by simp
    also have "\<dots> = user_pte k1 d' va" using k2(7) that by blast
    also have "\<dots> = user_pte k d' va" using user_pte_phys [of k1 k] k1(5) k0(4) by simp
    finally show ?thesis .
  qed
  have "snapshots ?k' = snapshots k1" using e2 e5 by (simp add: same_envs_def)
  then have ss: "\<forall>i<NSNAPSHOTS. \<forall>ss. snapshots ?k' i = Some ss \<longrightarrow> ss_envid ss \<noteq> ?eid"
    using k1(9) by (auto split: if_splits)
  have "insert d (set ps) \<subseteq> set (d # ps2)" using k1(4) k2(3) by auto
  moreover have "kinv ?k' held (d # ps2) (e # fs)" unfolding kinv_def using v' tab(1) sn' by blast
  moreover have "\<forall>i. i \<noteq> e \<longrightarrow> envs ?k' i = envs k i" using en(1) by (simp only:) simp
  moreover have "\<forall>d'\<in>dirs k. \<forall>va<UTOP. d' \<noteq> d \<longrightarrow> user_pte ?k' d' va = user_pte k d' va"
    using up by blast
  ultimately show ?thesis using run en(3) ss by blast
qed

text \<open>
  C1: \<open>env_free\<close> of a live environment never fails. It puts the environment at the head of the
  free list, returns its page directory to the page allocator, discards its snapshots, leaves
  every other environment and its mappings alone and keeps the kernel invariant, in particular
  exact reference counts.
\<close>

theorem env_free_reclaims:
  assumes inv: "kinv k held ps fs" and e: "live k e" "env_pgdir (envs k e) = Some d"
  shows "\<exists>k' ps'. env_free e k = Some k' \<and> kinv k' held ps' (e # fs) \<and> insert d (set ps) \<subseteq> set ps' \<and>
    (\<forall>i. i \<noteq> e \<longrightarrow> envs k' i = envs k i) \<and> curenv k' = curenv k \<and>
    (\<forall>d'\<in>dirs k. \<forall>va<UTOP. d' \<noteq> d \<longrightarrow> user_pte k' d' va = user_pte k d' va) \<and>
    (\<forall>i<NSNAPSHOTS. \<forall>ss. snapshots k' i = Some ss \<longrightarrow> ss_envid ss \<noteq> env_id (envs k e))"
  by (rule env_free_ok [OF assms])

section \<open>Allocating an environment\<close>

lemma vm_add_dir:
  assumes v: "vm_inv s D held (p # ps)"
    and s': "npages s' = npages s" "avail s' ps" "\<forall>q. pref s' q = (if q = p then 1 else pref s q)"
      "\<forall>f. f \<noteq> p \<longrightarrow> phys s' f = phys s f" "\<forall>i<NUPDE. \<not> present (phys s' p i)"
  shows "vm_inv s' (insert p D) held ps"
    and "\<And>d va. d \<in> D \<Longrightarrow> va < UTOP \<Longrightarrow> user_pte s' d va = user_pte s d va"
    and "\<And>va. va < UTOP \<Longrightarrow> user_pte s' p va = None"
proof -
  have p: "p < npages s" "pref s p = 0" using vm_avail [OF v] by (auto simp: avail_def)
  have held: "held p = 0" using vm_count [OF v p(1)] p(2) by simp
  have unr: "site_target s x \<noteq> Some p" if "x \<in> all_sites D" for x
    using vm_free_unreferenced [OF v _ that, of p] by simp
  then have pD: "p \<notin> D" using unr [of "Dir p"] by auto
  have pde: "entry_target (phys s d i) \<noteq> Some p" if "d \<in> D" "i < NUPDE" for d i
    using unr [of "Pde d i"] that by simp
  have same: "site_target s' x = site_target s x" if x: "x \<in> all_sites D" for x
  proof (cases x)
    case (Pte d i j)
    with x pD have d: "phys s' d = phys s d" "d \<in> D" "i < NUPDE" using s'(4) by auto
    show ?thesis
    proof (cases "entry_target (phys s d i)")
      case (Some t)
      then have "phys s' t = phys s t" using pde [OF d(2,3)] s'(4) by auto
      with Some show ?thesis by (simp add: Pte d(1) del: entry_target_Some)
    qed (simp add: Pte d(1) del: entry_target_None)
  qed (use x pD s'(4) in auto)
  have split: "x \<in> all_sites D \<or> x = Dir p \<or> site_target s' x = None" if "x \<in> all_sites (insert p D)" for x
    using that s'(5) by (cases x) (auto split: option.splits)
  have mono: "x \<in> all_sites D \<Longrightarrow> x \<in> all_sites (insert p D)" for x by (cases x) auto
  have rs: "ref_sites s' (insert p D) q = (if q = p then insert (Dir p) (ref_sites s D q) else ref_sites s D q)" for q
  proof (intro set_eqI)
    fix x
    show "x \<in> ref_sites s' (insert p D) q \<longleftrightarrow>
        x \<in> (if q = p then insert (Dir p) (ref_sites s D q) else ref_sites s D q)"
    proof (cases "x \<in> all_sites D")
      case True
      then show ?thesis using same mono pD by (auto simp: ref_sites_def)
    next
      case False
      then show ?thesis using split [of x] pD by (auto simp: ref_sites_def)
    qed
  qed
  have "Dir p \<notin> ref_sites s D p" using pD by (simp add: ref_sites_def)
  then have rf: "refs s' (insert p D) q = refs s D q + (if q = p then 1 else 0)" for q
    unfolding refs_def rs using vm_finite [OF v] by simp
  show "vm_inv s' (insert p D) held ps"
  proof (rule vm_invI)
    show "q < npages s'" if "x \<in> all_sites (insert p D)" "site_target s' x = Some q" for x q
      using split [OF that(1)] that(2) same vm_target_lt [OF v] p(1) s'(1) by auto
    show "pref s' q = 1 \<and> held q = 0"
      if "x \<in> all_sites (insert p D)" "structural x" "site_target s' x = Some q" for x q
      using split [OF that(1)] that(2,3) same vm_structural [OF v] unr s'(3) held by auto
    show "unat (pref s' q) = refs s' (insert p D) q + held q" if "q < npages s'" for q
      using vm_count [OF v, of q] that s'(1,3) rf [of q] p(2) by auto
  qed (use s'(2) vm_finite [OF v] in auto)
  show "user_pte s' d va = user_pte s d va" if "d \<in> D" "va < UTOP" for d va
  proof -
    have d: "phys s' d = phys s d" using that(1) pD s'(4) by auto
    show ?thesis
    proof (cases "entry_target (phys s d (pdx va))")
      case (Some t)
      then have "phys s' t = phys s t" using pde [OF that(1) pdx_user [OF that(2)]] s'(4) by auto
      with Some show ?thesis by (simp add: user_pte_def d del: entry_target_Some)
    qed (simp add: user_pte_def d del: entry_target_None)
  qed
  show "user_pte s' p va = None" if "va < UTOP" for va
    using s'(5) pdx_user [OF that] by (simp add: user_pte_def entry_target_def)
qed

lemma kernel_addr:
  assumes "p < 65536"
  shows "PADDR (page2pa p + KERNBASE) = Some (page2pa p)"
proof -
  have "unat (page2pa p) = p * 4096"
    using assms by (simp add: page2pa_def PGSHIFT_def push_bit_eq_mult unat_of_nat
        unat_word_ariths)
  then have "unat (page2pa p + KERNBASE) = p * 4096 + 4026531840"
    using assms by (subst unat_add_no_wrap) (simp_all add: KERNBASE_def)
  then show ?thesis by (simp add: PADDR_def word_less_nat_alt KERNBASE_def)
qed

text \<open>The result of \<open>env_setup_vm\<close> on the directory page \<open>p\<close>.\<close>

definition setup_dir :: "nat \<Rightarrow> 'z kernel_scheme \<Rightarrow> nat \<Rightarrow> u32" where
  "setup_dir p k i = (if i = pdx UVPT then page2pa p OR PTE_P OR PTE_U
     else if NUPDE \<le> i \<and> i < 1023 then phys k (kern_pgdir k) i else 0)"

lemma env_setup_vm_ok:
  fixes k :: "'z kernel_scheme"
  assumes av: "avail k (p # ps)" and n: "npages k \<le> 65536" and kp: "kern_pgdir k \<noteq> p"
  shows "\<exists>k'. env_setup_vm e k = Some (Inr (), k') \<and> avail k' ps \<and> npages k' = npages k \<and>
    (\<forall>q. pref k' q = (if q = p then 1 else pref k q)) \<and>
    phys k' = (phys k)(p := setup_dir p k) \<and>
    same_envs (k\<lparr>envs := (envs k)(e := (envs k e)\<lparr>env_pgdir := Some p\<rparr>)\<rparr>) k'"
proof -
  let ?k1 = "alloc_result ALLOC_ZERO p k"
  let ?k2 = "set_ref p (pref ?k1 p + 1) ?k1"
  let ?k3 = "upd_env e (\<lambda>v. v\<lparr>env_pgdir := Some p\<rparr>) ?k2"
  let ?k4 = "?k3\<lparr>phys := (phys ?k3)(p := (\<lambda>i. if pdx UTOP \<le> i \<and> i < pdx UTOP + (NPDENTRIES - (pdx UTOP + 1))
                        then phys ?k3 (kern_pgdir ?k3) i else phys ?k3 p i))\<rparr>"
  let ?k5 = "set_pte (p, pdx UVPT) (page2pa p OR PTE_P OR PTE_U) ?k4"
  note al = page_alloc_Cons [OF av, of ALLOC_ZERO] alloc_result_avail [OF av, of ALLOC_ZERO]
  have p: "p < npages k" "pref k p = 0" "p \<notin> set ps" "npages k \<le> 2 ^ 20"
    using av avail_distinct [OF av] by (auto simp: avail_def)
  have se: "same_envs k ?k1" by (rule same_envs_page_alloc [OF al(1)])
  have kva: "page2kva ?k2 p = Some (page2pa p + KERNBASE)" by (rule page2kva_lt) (use p in simp_all)
  have pa: "PADDR (page2pa p + KERNBASE) = Some (page2pa p)" by (rule kernel_addr) (use p n in simp)
  have "env_setup_vm e k = Some (Inr (), ?k5)"
    unfolding env_setup_vm_def al(1)
    by (simp only: bind.bind_lunit prod.case option.case Let_def kva pa)
  moreover have "avail ?k5 ps"
  proof -
    have "avail ?k2 ps" using al(2) p(3) by simp
    then show ?thesis by (simp add: avail_def set_pte_def)
  qed
  moreover have "npages ?k5 = npages k" by (simp add: set_pte_def)
  moreover have "\<forall>q. pref ?k5 q = (if q = p then 1 else pref k q)" using p(2) by (simp add: set_pte_def)
  moreover have "phys ?k5 = (phys k)(p := setup_dir p k)"
  proof -
    have "pdx UTOP = 955" "pdx UTOP + (NPDENTRIES - (pdx UTOP + 1)) = 1023"
      using NUPDE_eq by (simp_all add: NUPDE_def NPDENTRIES_def)
    moreover have "kern_pgdir ?k1 = kern_pgdir k" using se by (simp add: same_envs_def)
    ultimately show ?thesis using kp
      by (intro ext) (simp add: set_pte_def setup_dir_def NUPDE_eq ALLOC_ZERO_def)
  qed
  moreover have "same_envs (k\<lparr>envs := (envs k)(e := (envs k e)\<lparr>env_pgdir := Some p\<rparr>)\<rparr>) ?k5"
    using se by (simp add: same_envs_def set_pte_def upd_env_def)
  ultimately show ?thesis by blast
qed

lemma setup_dir_user: "i < NUPDE \<Longrightarrow> setup_dir p k i = 0"
  by (simp add: setup_dir_def NUPDE_eq PDX_def kdefs)

lemma env_table_alloc:
  assumes t: "env_table k (e # fs)"
    and k': "\<forall>i. i \<noteq> e \<longrightarrow> envs k' i = envs k i" "env_free_list k' = env_link (envs k e)"
      "env_status (envs k' e) \<noteq> ENV_FREE" "env_pgdir (envs k' e) = Some p" "p \<notin> dirs k"
      "ENVX (env_id (envs k' e)) = e" "0 < sint (env_id (envs k' e))"
  shows "env_table k' fs" "dirs k' = insert p (dirs k)"
proof -
  have e: "e < NENV" "env_status (envs k e) = ENV_FREE" "e \<notin> set fs"
    using t chain_distinct [of "\<lambda>e. env_link (envs k e)" _ "e # fs"] by (auto simp: env_table_def)
  have lv: "live k' i \<longleftrightarrow> live k i \<or> i = e" for i using k'(1,3) e by (auto simp: live_def)
  have ne: "\<not> live k e" using e by (simp add: live_def)
  have "chain (\<lambda>i. env_link (envs k' i)) (env_link (envs k e)) fs \<longleftrightarrow>
      chain (\<lambda>i. env_link (envs k i)) (env_link (envs k e)) fs"
    using e k'(1) by (intro chain_cong) auto
  then have c: "chain (\<lambda>i. env_link (envs k' i)) (env_free_list k') fs"
    using t k'(2) by (simp add: env_table_def)
  have "set (e # fs) = {i. i < NENV \<and> env_status (envs k i) = ENV_FREE}"
    using t by (simp add: env_table_def)
  then have "i \<in> set fs \<longleftrightarrow> i < NENV \<and> env_status (envs k' i) = ENV_FREE" for i
    using e k'(1,3) by (cases "i = e") auto
  then have st: "set fs = {i. i < NENV \<and> env_status (envs k' i) = ENV_FREE}" by blast
  have nd: "env_pgdir (envs k i) \<noteq> Some p" if "live k i" for i
    using that k'(5) by (auto simp: dirs_def)
  have id: "env_id (envs k' e) \<noteq> 0" using k'(7) by auto
  have old: "i \<noteq> e \<Longrightarrow> envs k' i = envs k i" for i using k'(1) by simp
  show "env_table k' fs"
    unfolding env_table_def lv
  proof (intro conjI allI impI)
    fix i j assume i: "live k i \<or> i = e" "live k j \<or> j = e" "env_pgdir (envs k' i) = env_pgdir (envs k' j)"
    show "i = j"
    proof (cases "i = e \<or> j = e")
      case True
      with i nd k'(4) old ne show ?thesis by metis
    next
      case False
      with i old t show ?thesis by (simp add: env_table_def)
    qed
  next
    fix i assume "live k i \<or> i = e"
    then show "env_pgdir (envs k' i) \<noteq> None" "env_id (envs k' i) \<noteq> 0"
      using t k'(4) id old [of i] by (cases "i = e"; auto simp: env_table_def)+
  next
    fix i assume "i < NENV"
    then show "env_id (envs k' i) = 0 \<or> ENVX (env_id (envs k' i)) = i \<and> 0 < sint (env_id (envs k' i))"
      using t k'(6,7) old [of i] by (cases "i = e") (auto simp: env_table_def)
  qed (use c st in auto)
  show "dirs k' = insert p (dirs k)"
    unfolding dirs_def lv using k'(1,4) ne by auto metis+
qed

lemma env_alloc_runs:
  assumes inv: "kinv k held (p # ps) (e # fs)" and n: "npages k \<le> 65536" and kp: "kern_pgdir k \<noteq> p"
  shows "\<exists>k'. env_alloc parent k = Some (Inr e, k') \<and> kinv k' held ps fs \<and>
    env_status (envs k' e) = ENV_RUNNABLE \<and> env_parent_id (envs k' e) = parent \<and>
    env_tf (envs k' e) = initial_tf \<and> env_pgdir (envs k' e) = Some p \<and>
    ENVX (env_id (envs k' e)) = e \<and> 0 < sint (env_id (envs k' e)) \<and>
    env_id (envs k' e) \<noteq> env_id (envs k e) \<and>
    (\<forall>i. i \<noteq> e \<longrightarrow> envs k' i = envs k i) \<and> curenv k' = curenv k \<and>
    (\<forall>va<UTOP. user_pte k' p va = None) \<and>
    (\<forall>i. NUPDE \<le> i \<longrightarrow> i < NPDENTRIES \<longrightarrow> phys k' p i =
       (if i = pdx UVPT then page2pa p OR PTE_P OR PTE_U else if i = NPDENTRIES - 1 then 0 else phys k (kern_pgdir k) i)) \<and>
    (\<forall>d\<in>dirs k. \<forall>va<UTOP. user_pte k' d va = user_pte k d va) \<and>
    dirs k' = insert p (dirs k) \<and> npages k' = npages k \<and> (\<forall>f. f \<noteq> p \<longrightarrow> phys k' f = phys k f) \<and>
    (\<forall>q. pref k' q = (if q = p then 1 else pref k q))"
proof -
  note v = inv [unfolded kinv_def, THEN conjunct1]
    and t = inv [unfolded kinv_def, THEN conjunct2, THEN conjunct1]
    and sn = inv [unfolded kinv_def, THEN conjunct2, THEN conjunct2]
  have e: "e < 1024" "env_free_list k = Some e" using t by (auto simp: env_table_def NENV_def)
  obtain k1 where k1: "env_setup_vm e k = Some (Inr (), k1)" "avail k1 ps" "npages k1 = npages k"
    "\<forall>q. pref k1 q = (if q = p then 1 else pref k q)" "phys k1 = (phys k)(p := setup_dir p k)"
    "same_envs (k\<lparr>envs := (envs k)(e := (envs k e)\<lparr>env_pgdir := Some p\<rparr>)\<rparr>) k1"
    using env_setup_vm_ok [OF vm_avail [OF v] n kp, of e] by blast
  let ?f = "\<lambda>w. w\<lparr>env_id := next_env_id e (env_id w), env_parent_id := parent,
      env_type := ENV_TYPE_USER, env_status := ENV_RUNNABLE, env_runs := 0, env_tf := initial_tf\<rparr>"
  let ?k2 = "upd_env e ?f k1"
  let ?k' = "?k2\<lparr>env_free_list := env_link (envs ?k2 e)\<rparr>"
  have run: "env_alloc parent k = Some (Inr e, ?k')"
    using e(2) k1(1) by (simp add: env_alloc_def Let_def)
  have e1: "envs k1 = (envs k)(e := (envs k e)\<lparr>env_pgdir := Some p\<rparr>)"
    using k1(6) by (simp add: same_envs_def)
  have en: "\<forall>i. i \<noteq> e \<longrightarrow> envs ?k' i = envs k i" by (simp add: e1)
  have ee: "env_status (envs ?k' e) = ENV_RUNNABLE" "env_parent_id (envs ?k' e) = parent"
    "env_tf (envs ?k' e) = initial_tf" "env_pgdir (envs ?k' e) = Some p"
    "env_id (envs ?k' e) = next_env_id e (env_id (envs k e))"
    by (simp_all add: e1)
  have idx: "ENVX (env_id (envs ?k' e)) = e" "0 < sint (env_id (envs ?k' e))"
    "env_id (envs ?k' e) \<noteq> env_id (envs k e)"
    unfolding ee(5) using next_env_id_index [OF e(1)] next_env_id_pos [OF e(1)]
      next_env_id_fresh [OF e(1)] by blast+
  have pD: "p \<notin> dirs k"
    using vm_free_unreferenced [OF v, of p "Dir p"] by auto
  have fl: "env_free_list ?k' = env_link (envs k e)" by (simp add: e1)
  have nf: "env_status (envs ?k' e) \<noteq> ENV_FREE" unfolding ee(1) by simp
  note tab = env_table_alloc [OF t en fl nf ee(4) pD idx(1,2)]
  have m: "npages ?k' = npages k" "avail ?k' ps" "\<forall>q. pref ?k' q = (if q = p then 1 else pref k q)"
    "\<forall>f. f \<noteq> p \<longrightarrow> phys ?k' f = phys k f" "\<forall>i<NUPDE. \<not> present (phys ?k' p i)"
    using k1(2-5) by (simp_all add: avail_def setup_dir_user)
  note ad = vm_add_dir [OF v m]
  have "idle_kept k (p # ps) ?k' ps" using m(3) by (auto simp: idle_kept_def)
  then have "snaps_ok ?k' ps"
    using snaps_ok_mono [OF sn, of ?k'] m(1) k1(6) by (simp add: same_envs_def)
  then have "kinv ?k' held ps fs" unfolding kinv_def tab(2) using tab(1) ad(1) by blast
  moreover have "curenv ?k' = curenv k" using k1(6) by (simp add: same_envs_def curenv_def)
  moreover have "phys ?k' p i =
      (if i = pdx UVPT then page2pa p OR PTE_P OR PTE_U else if i = NPDENTRIES - 1 then 0 else phys k (kern_pgdir k) i)"
    if "NUPDE \<le> i" "i < NPDENTRIES" for i
    using that k1(5) by (simp add: setup_dir_def NPDENTRIES_def)
  ultimately show ?thesis
    using run ad(2,3) ee(1-4) idx en tab(2) m by blast
qed

text \<open>
  C2: with a free slot \<open>e\<close> and a free page \<open>p\<close>, which is not the kernel's own directory, and at most 256 MB of
  memory, all that is mapped above \<open>KERNBASE\<close>, \<open>env_alloc\<close> succeeds. The new environment sits in the slot at the head of the
  free list, has a positive id that encodes the slot and differs from the slot's previous id, an empty user address space
  and the initial user-mode registers. Of the entries of its directory above \<open>UTOP\<close>, the one for \<open>UVPT\<close> maps the
  directory itself, the last one is empty, as the code copies one entry too few, and all others are the kernel's. No
  other environment or mapping changes and the kernel invariant is kept.
\<close>

theorem env_alloc_fresh:
  assumes inv: "kinv k held (p # ps) (e # fs)" and n: "npages k \<le> 65536" and kp: "kern_pgdir k \<noteq> p"
  shows "\<exists>k'. env_alloc parent k = Some (Inr e, k') \<and> kinv k' held ps fs \<and>
    env_status (envs k' e) = ENV_RUNNABLE \<and> env_parent_id (envs k' e) = parent \<and>
    env_tf (envs k' e) = initial_tf \<and> env_pgdir (envs k' e) = Some p \<and>
    ENVX (env_id (envs k' e)) = e \<and> 0 < sint (env_id (envs k' e)) \<and>
    env_id (envs k' e) \<noteq> env_id (envs k e) \<and>
    (\<forall>i. i \<noteq> e \<longrightarrow> envs k' i = envs k i) \<and> curenv k' = curenv k \<and>
    (\<forall>va<UTOP. user_pte k' p va = None) \<and>
    (\<forall>i. NUPDE \<le> i \<longrightarrow> i < NPDENTRIES \<longrightarrow> phys k' p i =
       (if i = pdx UVPT then page2pa p OR PTE_P OR PTE_U else if i = NPDENTRIES - 1 then 0 else phys k (kern_pgdir k) i)) \<and>
    (\<forall>d\<in>dirs k. \<forall>va<UTOP. user_pte k' d va = user_pte k d va)"
  using env_alloc_runs [OF assms, of parent] by blast

end
