(* ===== verification/Demo_Kernel.thy ===== *)
theory Demo_Kernel
  imports Env_Table
begin

text \<open>
  A small concrete kernel for the witnesses of the kernel's properties: sixteen page frames, two
  environments with page directories in frames 5 and 6, of which the first maps frame 4 at
  \<open>0x800000\<close> through the page table in frame 7, and the free pages 2, 3 and 8. The first
  environment runs on CPU 0; the second, its child, waits for a message.
\<close>

definition demo_env :: env where
  "demo_env = \<lparr>env_tf = zero_tf, env_link = None, env_id = 0, env_parent_id = 0,
     env_type = ENV_TYPE_USER, env_status = ENV_FREE, env_runs = 0, env_cpunum = 0, env_pgdir = None,
     env_pgfault_upcall = 0, env_ipc_recving = False, env_ipc_dstva = 0, env_ipc_value = 0,
     env_ipc_from = 0, env_ipc_perm = 0\<rparr>"

definition demo_envs :: "nat \<Rightarrow> env" where
  "demo_envs e =
    (if e = 0 then demo_env\<lparr>env_id := 0x1000, env_status := ENV_RUNNING, env_pgdir := Some 5\<rparr>
     else if e = 1 then demo_env\<lparr>env_id := 0x1001, env_parent_id := 0x1000,
       env_status := ENV_NOT_RUNNABLE, env_pgdir := Some 6, env_ipc_recving := True,
       env_ipc_dstva := UTOP\<rparr>
     else demo_env\<lparr>env_link := if e + 1 < 1024 then Some (e + 1) else None\<rparr>)"

definition demo_phys :: "nat \<Rightarrow> nat \<Rightarrow> u32" where
  "demo_phys f i = (if f = 5 \<and> i = 2 then 0x7007 else if f = 7 \<and> i = 0 then 0x4007 else 0)"

definition demo_pages :: "nat \<Rightarrow> page_info" where
  "demo_pages p =
    (if p = 2 then \<lparr>pp_link = Some 3, pp_ref = 0\<rparr> else if p = 3 then \<lparr>pp_link = Some 8, pp_ref = 0\<rparr>
     else if p = 8 then \<lparr>pp_link = None, pp_ref = 0\<rparr> else \<lparr>pp_link = None, pp_ref = 1\<rparr>)"

definition demo_kernel :: kernel where
  "demo_kernel = \<lparr>npages = 16, npages_basemem = 160, nextfree = 0, pages = demo_pages,
     page_free_list = Some 2, phys = demo_phys, kern_pgdir = 0, mmio_base = MMIOBASE, invlpgs = [],
     envs = demo_envs, env_free_list = Some 2, snapshots = (\<lambda>_. None),
     cpus = (\<lambda>c. \<lparr>cpu_status = CPU_STARTED, cpu_env = (if c = 0 then Some 0 else None), cpu_cr3 = 5\<rparr>),
     thiscpu = 0, kernel_lock = Some 0, ticks = 0, console = []\<rparr>"

definition demo_kheld :: "nat \<Rightarrow> nat" where
  "demo_kheld p = (if p \<in> {2, 3, 4, 5, 6, 7, 8} then 0 else 1)"

lemma demo_kernel_fields [simp]:
  "npages demo_kernel = 16" "pages demo_kernel = demo_pages" "page_free_list demo_kernel = Some 2"
  "phys demo_kernel = demo_phys" "kern_pgdir demo_kernel = 0" "envs demo_kernel = demo_envs"
  "env_free_list demo_kernel = Some 2" "snapshots demo_kernel = (\<lambda>_. None)"
  "thiscpu demo_kernel = 0" "kernel_lock demo_kernel = Some 0" "curenv demo_kernel = Some 0"
  "cpu_env (cpus demo_kernel c) = (if c = 0 then Some 0 else None)"
  "cpu_cr3 (cpus demo_kernel c) = 5" "ticks demo_kernel = 0" "console demo_kernel = []"
  by (simp_all add: demo_kernel_def curenv_def)

lemma demo_env_fields [simp]:
  "env_status (demo_envs e) = (if e = 0 then ENV_RUNNING else if e = 1 then ENV_NOT_RUNNABLE else ENV_FREE)"
  "env_pgdir (demo_envs e) = (if e = 0 then Some 5 else if e = 1 then Some 6 else None)"
  "env_id (demo_envs e) = (if e = 0 then 0x1000 else if e = 1 then 0x1001 else 0)"
  "env_parent_id (demo_envs e) = (if e = 1 then 0x1000 else 0)"
  "env_ipc_recving (demo_envs e) \<longleftrightarrow> e = 1"
  by (simp_all add: demo_envs_def demo_env_def)

lemma demo_live: "live demo_kernel e \<longleftrightarrow> e = 0 \<or> e = 1"
  by (auto simp: live_def NENV_def)

lemma demo_dirs: "dirs demo_kernel = {5, 6}"
  by (auto simp: dirs_def demo_live split: if_splits)

lemma demo_target:
  "entry_target (demo_phys f i) =
    (if f = 5 \<and> i = 2 then Some 7 else if f = 7 \<and> i = 0 then Some 4 else None)"
  by (simp add: demo_phys_def entry_target_def ppn_of_def PGNUM_def PTE_ADDR_def PTE_P_def)

lemma demo_site:
  assumes "x \<in> all_sites {5, 6}"
  shows "site_target demo_kernel x = Some q \<longleftrightarrow>
    x = Dir 5 \<and> q = 5 \<or> x = Dir 6 \<and> q = 6 \<or> x = Pde 5 2 \<and> q = 7 \<or> x = Pte 5 2 0 \<and> q = 4"
  using assms by (cases x) (auto simp: demo_target split: if_splits)

lemma demo_refs: "refs demo_kernel {5, 6} q = (if q \<in> {4, 5, 6, 7} then 1 else 0)"
proof -
  have "x \<in> ref_sites demo_kernel {5, 6} q \<longleftrightarrow> x \<in> (if q = 5 then {Dir 5} else if q = 6 then {Dir 6}
      else if q = 7 then {Pde 5 2} else if q = 4 then {Pte 5 2 0} else {})" for x
  proof (cases "x \<in> all_sites {5, 6}")
    case True
    then show ?thesis unfolding ref_sites_def using demo_site [OF True] by auto
  next
    case False
    moreover have "Dir 5 \<in> all_sites {5, 6}" "Dir 6 \<in> all_sites {5, 6}" "Pde 5 2 \<in> all_sites {5, 6}"
      "Pte 5 2 0 \<in> all_sites {5, 6}" by (simp_all add: NUPDE_eq)
    ultimately show ?thesis unfolding ref_sites_def by auto
  qed
  then have "ref_sites demo_kernel {5, 6} q = (if q = 5 then {Dir 5} else if q = 6 then {Dir 6}
      else if q = 7 then {Pde 5 2} else if q = 4 then {Pte 5 2 0} else {})" by blast
  then show ?thesis unfolding refs_def by simp
qed

lemma demo_chain: "m \<le> 1024 \<Longrightarrow> 2 \<le> m \<Longrightarrow>
  chain (\<lambda>e. env_link (demo_envs e)) (if m < 1024 then Some m else None) [m..<1024]"
proof (induction "1024 - m" arbitrary: m)
  case (Suc n)
  then have m: "m < 1024" by simp
  have "chain (\<lambda>e. env_link (demo_envs e)) (if m + 1 < 1024 then Some (m + 1) else None) [m + 1..<1024]"
    using Suc by (intro Suc.hyps(1)) auto
  moreover have "env_link (demo_envs m) = (if m + 1 < 1024 then Some (m + 1) else None)"
    using Suc.prems by (simp add: demo_envs_def)
  ultimately show ?case using m by (simp add: upt_conv_Cons)
qed simp

lemma demo_vm: "vm_inv demo_kernel {5, 6} demo_kheld [2, 3, 8]"
proof (rule vm_invI)
  show "avail demo_kernel [2, 3, 8]" by (auto simp: avail_def demo_pages_def)
  show "p < npages demo_kernel" if "x \<in> all_sites {5, 6}" "site_target demo_kernel x = Some p" for x p
    using demo_site [OF that(1), of p] that(2) by auto
  show "pref demo_kernel p = 1 \<and> demo_kheld p = 0"
    if "x \<in> all_sites {5, 6}" "structural x" "site_target demo_kernel x = Some p" for x p
    using demo_site [OF that(1), of p] that(2,3) by (auto simp: demo_pages_def demo_kheld_def)
  show "unat (pref demo_kernel p) = refs demo_kernel {5, 6} p + demo_kheld p" for p
    unfolding demo_refs by (simp add: demo_pages_def demo_kheld_def)
qed simp

lemma demo_kinv: "kinv demo_kernel demo_kheld [2, 3, 8] [2..<1024]"
proof -
  have "chain (\<lambda>e. env_link (demo_envs e)) (Some 2) [2..<1024]" using demo_chain [of 2] by simp
  moreover have "ENVX 0x1000 = 0" "ENVX 0x1001 = 1" by (simp_all add: ENVX_def)
  moreover have "set [2..<1024] = {e. e < NENV \<and> env_status (demo_envs e) = ENV_FREE}"
    by (auto simp: NENV_def split: if_splits)
  ultimately have "env_table demo_kernel [2..<1024]"
    unfolding env_table_def by (auto simp: demo_live split: if_splits)
  moreover have "snaps_ok demo_kernel [2, 3, 8]" by (simp add: snaps_ok_def snap_pages_def)
  ultimately show ?thesis using demo_vm by (simp add: kinv_def demo_dirs)
qed

lemma demo_user_pte: "user_pte demo_kernel 5 0x800000 = Some 0x4007"
  by (simp add: user_pte_def demo_target PDX_def PTX_def, simp add: demo_phys_def PTE_P_def)

text \<open>The same kernel with page 8 as its only free page, or with none.\<close>

definition demo_low :: "bool \<Rightarrow> kernel" where
  "demo_low b = demo_kernel\<lparr>
     pages := (\<lambda>p. \<lparr>pp_link = None, pp_ref = if b \<and> p = 8 then 0 else 1\<rparr>),
     page_free_list := (if b then Some 8 else None)\<rparr>"

definition demo_lheld :: "bool \<Rightarrow> nat \<Rightarrow> nat" where
  "demo_lheld b p = (if p \<in> {4, 5, 6, 7} \<or> b \<and> p = 8 then 0 else 1)"

lemma demo_low_fields [simp]:
  "npages (demo_low b) = 16" "phys (demo_low b) = demo_phys" "kern_pgdir (demo_low b) = 0"
  "envs (demo_low b) = demo_envs" "env_free_list (demo_low b) = Some 2"
  "snapshots (demo_low b) = (\<lambda>_. None)" "curenv (demo_low b) = Some 0"
  by (simp_all add: demo_low_def demo_kernel_def curenv_def)

lemma env_table_cong:
  "envs k' = envs k \<Longrightarrow> env_free_list k' = env_free_list k \<Longrightarrow> env_table k' fs = env_table k fs"
  by (simp add: env_table_def live_def)

lemma demo_low_kinv: "kinv (demo_low b) (demo_lheld b) (if b then [8] else []) [2..<1024]"
proof -
  let ?ps = "if b then [8] else []"
  have st: "site_target (demo_low b) x = site_target demo_kernel x" for x
    by (rule site_target_mem) simp
  have rf: "refs (demo_low b) {5, 6} q = (if q \<in> {4, 5, 6, 7} then 1 else 0)" for q
    using refs_cong [of "{5, 6}" "demo_low b" demo_kernel q] st demo_refs [of q] by simp
  have "vm_inv (demo_low b) {5, 6} (demo_lheld b) ?ps"
  proof (rule vm_invI)
    show "avail (demo_low b) ?ps" by (auto simp: avail_def demo_low_def)
    show "p < npages (demo_low b)" if "x \<in> all_sites {5, 6}" "site_target (demo_low b) x = Some p" for x p
      using demo_site [OF that(1), of p] that(2) unfolding st by auto
    show "pref (demo_low b) p = 1 \<and> demo_lheld b p = 0"
      if "x \<in> all_sites {5, 6}" "structural x" "site_target (demo_low b) x = Some p" for x p
      using demo_site [OF that(1), of p] that(2,3) unfolding st by (auto simp: demo_low_def demo_lheld_def)
    show "unat (pref (demo_low b) p) = refs (demo_low b) {5, 6} p + demo_lheld b p" for p
      unfolding rf by (simp add: demo_low_def demo_lheld_def)
  qed simp
  moreover have "dirs (demo_low b) = {5, 6}"
    using demo_dirs by (simp add: dirs_def live_def)
  moreover have "env_table (demo_low b) [2..<1024] = env_table demo_kernel [2..<1024]"
    by (rule env_table_cong) simp_all
  moreover have "env_table demo_kernel [2..<1024]" using demo_kinv unfolding kinv_def by (elim conjE)
  moreover have "snaps_ok (demo_low b) ?ps" by (simp add: snaps_ok_def snap_pages_def)
  ultimately show ?thesis unfolding kinv_def by (simp only: simp_thms)
qed

section \<open>Freeing and allocating on the concrete kernel\<close>

theorem env_free_reclaims_witness:
  "\<exists>k' ps'. env_free 1 demo_kernel = Some k' \<and> kinv k' demo_kheld ps' (1 # [2..<1024]) \<and>
     {2, 3, 6, 8} \<subseteq> set ps' \<and> user_pte k' 5 0x800000 = Some 0x4007"
proof -
  have l: "live demo_kernel 1" "env_pgdir (envs demo_kernel 1) = Some 6" by (simp_all add: demo_live)
  have va: "(0x800000 :: u32) < UTOP" by (simp add: kdefs)
  obtain k' ps' where k': "env_free 1 demo_kernel = Some k'" "kinv k' demo_kheld ps' (1 # [2..<1024])"
    "insert 6 (set [2, 3, 8]) \<subseteq> set ps'"
    "\<forall>d'\<in>dirs demo_kernel. \<forall>va<UTOP. d' \<noteq> 6 \<longrightarrow> user_pte k' d' va = user_pte demo_kernel d' va"
    using env_free_reclaims [OF demo_kinv l] by blast
  have "user_pte k' 5 0x800000 = Some 0x4007"
    using k'(4) va demo_user_pte unfolding demo_dirs by simp
  moreover have "{2, 3, 6, 8} \<subseteq> set ps'" using k'(3) by auto
  ultimately show ?thesis using k'(1,2) by blast
qed

theorem env_alloc_fresh_witness:
  "\<exists>k'. env_alloc 0x1000 demo_kernel = Some (Inr 2, k') \<and> kinv k' demo_kheld [3, 8] [3..<1024] \<and>
     env_status (envs k' 2) = ENV_RUNNABLE \<and> env_pgdir (envs k' 2) = Some 2 \<and>
     ENVX (env_id (envs k' 2)) = 2 \<and> envs k' 0 = demo_envs 0 \<and> user_pte k' 2 0x800000 = None"
proof -
  have "[2..<1024] = 2 # [3..<1024]" by (simp add: upt_conv_Cons)
  then have "kinv demo_kernel demo_kheld (2 # [3, 8]) (2 # [3..<1024])" using demo_kinv by simp
  from env_alloc_fresh [OF this, of "0x1000"] obtain k' where
    "env_alloc 0x1000 demo_kernel = Some (Inr 2, k')" "kinv k' demo_kheld [3, 8] [3..<1024]"
    "env_status (envs k' 2) = ENV_RUNNABLE" "env_pgdir (envs k' 2) = Some 2"
    "ENVX (env_id (envs k' 2)) = 2" "\<forall>i. i \<noteq> 2 \<longrightarrow> envs k' i = envs demo_kernel i"
    "\<forall>va<UTOP. user_pte k' 2 va = None" by auto
  moreover have "(0x800000 :: u32) < UTOP" by (simp add: kdefs)
  ultimately show ?thesis by (intro exI [of _ k']) simp
qed

end
