(* ===== verification/Spinlock.thy ===== *)
theory Spinlock
  imports Jos_Prelude
begin

text \<open>
  The spin lock of \<^verbatim>\<open>kern/spinlock.c\<close>, compiled with \<open>DEBUG_SPINLOCK\<close>, as a step
  relation over the atomic actions of several CPUs: each step is one shared-memory access of
  \<open>spin_lock\<close> or \<open>spin_unlock\<close>, so the window between the exchange and the recording of
  the owner is part of the model.
\<close>

section \<open>State\<close>

record spinlock =
  locked :: bool
  lk_cpu :: "nat option"

text \<open>
  Where a CPU is: outside, past the \<open>holding\<close> check of \<open>spin_lock\<close> and spinning, past a
  successful exchange, in the critical section, past the clearing of the owner in
  \<open>spin_unlock\<close>, or stopped by one of the two panics.
\<close>

datatype lock_pc = Outside | Spinning | Acquired | Critical | Releasing | Panicked

definition holding :: "spinlock \<Rightarrow> nat \<Rightarrow> bool" where
  "holding lk c \<longleftrightarrow> locked lk \<and> lk_cpu lk = Some c"

definition spin_initlock :: spinlock where
  "spin_initlock = \<lparr>locked = False, lk_cpu = None\<rparr>"

section \<open>Steps\<close>

inductive spin_step :: "spinlock \<times> (nat \<Rightarrow> lock_pc) \<Rightarrow> spinlock \<times> (nat \<Rightarrow> lock_pc) \<Rightarrow> bool" where
  spin_lock_check: "pc c = Outside \<Longrightarrow> \<not> holding lk c \<Longrightarrow> spin_step (lk, pc) (lk, pc(c := Spinning))"
| spin_lock_panic: "pc c = Outside \<Longrightarrow> holding lk c \<Longrightarrow> spin_step (lk, pc) (lk, pc(c := Panicked))"
| spin_lock_pause: "pc c = Spinning \<Longrightarrow> locked lk \<Longrightarrow> spin_step (lk, pc) (lk\<lparr>locked := True\<rparr>, pc)"
| spin_lock_xchg: "pc c = Spinning \<Longrightarrow> \<not> locked lk \<Longrightarrow>
    spin_step (lk, pc) (lk\<lparr>locked := True\<rparr>, pc(c := Acquired))"
| spin_lock_owner: "pc c = Acquired \<Longrightarrow> spin_step (lk, pc) (lk\<lparr>lk_cpu := Some c\<rparr>, pc(c := Critical))"
| spin_unlock_panic: "pc c = Critical \<Longrightarrow> \<not> holding lk c \<Longrightarrow> spin_step (lk, pc) (lk, pc(c := Panicked))"
| spin_unlock_owner: "pc c = Critical \<Longrightarrow> holding lk c \<Longrightarrow>
    spin_step (lk, pc) (lk\<lparr>lk_cpu := None\<rparr>, pc(c := Releasing))"
| spin_unlock_xchg: "pc c = Releasing \<Longrightarrow> spin_step (lk, pc) (lk\<lparr>locked := False\<rparr>, pc(c := Outside))"

inductive spin_reach :: "spinlock \<times> (nat \<Rightarrow> lock_pc) \<Rightarrow> bool" where
  spin_init: "spin_reach (spin_initlock, \<lambda>_. Outside)"
| spin_next: "spin_reach s \<Longrightarrow> spin_step s s' \<Longrightarrow> spin_reach s'"

inductive_cases spin_stepE [consumes 1, case_names check lock_panic pause xchg owner unlock_panic clear release]:
  "spin_step (lk, pc) (lk', pc')"

section \<open>The invariant\<close>

definition owns :: "lock_pc \<Rightarrow> bool" where
  "owns p \<longleftrightarrow> p = Acquired \<or> p = Critical \<or> p = Releasing"

text \<open>\<open>w\<close> is the CPU that owns the lock, if any.\<close>

definition spin_owner :: "spinlock \<Rightarrow> (nat \<Rightarrow> lock_pc) \<Rightarrow> nat option \<Rightarrow> bool" where
  "spin_owner lk pc w \<longleftrightarrow> (\<forall>c. owns (pc c) \<longleftrightarrow> w = Some c) \<and> (locked lk \<longleftrightarrow> w \<noteq> None) \<and>
     (\<forall>c. lk_cpu lk = Some c \<longleftrightarrow> pc c = Critical) \<and> (\<forall>c. pc c \<noteq> Panicked)"

lemma owns_simps [simp]:
  "\<not> owns Outside" "\<not> owns Spinning" "owns Acquired" "owns Critical" "owns Releasing" "\<not> owns Panicked"
  by (simp_all add: owns_def)

lemma spin_owner_at: "spin_owner lk pc w \<Longrightarrow> owns (pc c) \<Longrightarrow> w = Some c \<and> locked lk"
  by (simp add: spin_owner_def)

lemma spin_owner_critical: "spin_owner lk pc w \<Longrightarrow> pc c = Critical \<Longrightarrow> holding lk c"
  using spin_owner_at [of lk pc w c] by (simp add: spin_owner_def holding_def)

lemma spin_owner_not_panicked: "spin_owner lk pc w \<Longrightarrow> pc c \<noteq> Panicked"
  by (simp add: spin_owner_def)

lemma spin_ownerI:
  assumes "\<And>d. owns (pc d) \<longleftrightarrow> w = Some d" "locked lk \<longleftrightarrow> w \<noteq> None"
    and "\<And>d. lk_cpu lk = Some d \<longleftrightarrow> pc d = Critical" "\<And>d. pc d \<noteq> Panicked"
  shows "spin_owner lk pc w"
  using assms unfolding spin_owner_def by blast

lemma spin_owner_step:
  assumes i: "spin_owner lk pc w" and st: "spin_step (lk, pc) (lk', pc')"
  shows "\<exists>w'. spin_owner lk' pc' w'"
  using st
proof (cases rule: spin_stepE)
  case (check c)
  then have "\<not> owns (pc c)" by simp
  then have "w \<noteq> Some c" using i unfolding spin_owner_def by blast
  then have "spin_owner lk' pc' w" using i check by (simp add: spin_owner_def)
  then show ?thesis ..
next
  case (lock_panic c)
  then have "lk_cpu lk = Some c" by (simp add: holding_def)
  then have "pc c = Critical" using i unfolding spin_owner_def by blast
  with lock_panic show ?thesis by simp
next
  case (pause c)
  then have "spin_owner lk' pc' w" using i by (simp add: spin_owner_def)
  then show ?thesis ..
next
  case (xchg c)
  then have "spin_owner lk' pc' (Some c)" using i by (simp add: spin_owner_def)
  then show ?thesis ..
next
  case (owner c)
  then have w: "w = Some c" using spin_owner_at [OF i, of c] by simp
  have o: "owns (pc d) \<longleftrightarrow> d = c" for d using i w unfolding spin_owner_def by auto
  then have "pc d \<noteq> Critical" if "d \<noteq> c" for d using that owns_simps(4) by metis
  then have "spin_owner lk' pc' w"
    using o w owner spin_owner_at [OF i, of c] spin_owner_not_panicked [OF i]
    by (intro spin_ownerI) (auto split: if_splits)
  then show ?thesis ..
next
  case (unlock_panic c)
  then show ?thesis using spin_owner_critical [OF i] by simp
next
  case (clear c)
  then have w: "w = Some c" using spin_owner_at [OF i, of c] by simp
  have o: "owns (pc d) \<longleftrightarrow> d = c" for d using i w unfolding spin_owner_def by auto
  then have "pc d \<noteq> Critical" if "d \<noteq> c" for d using that owns_simps(4) by metis
  then have "spin_owner lk' pc' w"
    using o w clear spin_owner_at [OF i, of c] spin_owner_not_panicked [OF i]
    by (intro spin_ownerI) (auto split: if_splits)
  then show ?thesis ..
next
  case (release c)
  then have w: "w = Some c" using spin_owner_at [OF i, of c] by simp
  have o: "owns (pc d) \<longleftrightarrow> d = c" for d using i w unfolding spin_owner_def by auto
  have n: "pc d \<noteq> Critical" for d using o [of d] release by (cases "d = c") auto
  then have "lk_cpu lk \<noteq> Some d" for d using i unfolding spin_owner_def by blast
  then have "spin_owner lk' pc' None"
    using o n release spin_owner_not_panicked [OF i] by (intro spin_ownerI) (auto split: if_splits)
  then show ?thesis ..
qed

lemma spin_reach_owner: "spin_reach s \<Longrightarrow> \<exists>w. spin_owner (fst s) (snd s) w"
proof (induction rule: spin_reach.induct)
  case spin_init
  then show ?case by (simp add: spin_owner_def spin_initlock_def)
next
  case (spin_next s s')
  then show ?case using spin_owner_step [of "fst s" "snd s" _ "fst s'" "snd s'"] by auto
qed

text \<open>
  C7: however the CPUs interleave, at most one of them is between acquiring and releasing the lock,
  neither of the two panics is ever reached, and the recorded owner is exactly the CPU in the
  critical section.
\<close>

theorem spinlock_mutual_exclusion:
  assumes "spin_reach (lk, pc)"
  shows "(\<forall>c d. owns (pc c) \<longrightarrow> owns (pc d) \<longrightarrow> c = d) \<and> (\<forall>c. pc c \<noteq> Panicked) \<and>
         (\<forall>c. holding lk c \<longleftrightarrow> pc c = Critical)"
proof -
  obtain w where w: "spin_owner lk pc w" using spin_reach_owner [OF assms] by auto
  then have "\<forall>c d. owns (pc c) \<longrightarrow> owns (pc d) \<longrightarrow> c = d" using spin_owner_at by blast
  moreover have "\<forall>c. pc c \<noteq> Panicked" "\<forall>c. holding lk c \<longrightarrow> pc c = Critical"
    using w by (simp_all add: spin_owner_def holding_def)
  ultimately show ?thesis using spin_owner_critical [OF w] by blast
qed

theorem spinlock_mutual_exclusion_witness:
  "\<exists>lk pc. spin_reach (lk, pc) \<and> pc 0 = Critical \<and> pc 1 = Spinning \<and> \<not> holding lk 1 \<and>
     (\<forall>c. pc c = Critical \<longrightarrow> c = 0)"
proof -
  let ?lk0 = "spin_initlock" and ?lk1 = "spin_initlock\<lparr>locked := True\<rparr>"
  let ?lk2 = "?lk1\<lparr>lk_cpu := Some 0\<rparr>"
  let ?p1 = "(\<lambda>_ :: nat. Outside)(0 := Spinning)"
  let ?p2 = "?p1(1 := Spinning)"
  let ?p3 = "?p2(0 := Acquired)"
  let ?p4 = "?p3(0 := Critical)"
  have 1: "spin_reach (?lk0, ?p1)"
    by (rule spin_next [OF spin_init], rule spin_lock_check) (simp_all add: holding_def spin_initlock_def)
  have 2: "spin_reach (?lk0, ?p2)"
    by (rule spin_next [OF 1], rule spin_lock_check) (simp_all add: holding_def spin_initlock_def)
  have 3: "spin_reach (?lk1, ?p3)"
    by (rule spin_next [OF 2], rule spin_lock_xchg) (simp_all add: spin_initlock_def)
  have 4: "spin_reach (?lk2, ?p4)"
    by (rule spin_next [OF 3], rule spin_lock_owner) simp
  have p4: "?p4 0 = Critical" "?p4 1 = Spinning" by simp_all
  have "\<not> holding ?lk2 1 \<and> (\<forall>c. ?p4 c = Critical \<longrightarrow> c = 0)"
    using spinlock_mutual_exclusion [OF 4] p4 by (metis lock_pc.distinct(13) owns_simps(4))
  with 4 p4 show ?thesis by blast
qed

end
