(* ===== verification/Sched.thy ===== *)
theory Sched
  imports Demo_Kernel Spinlock
begin

text \<open>
  Entering and leaving environments: \<open>env_run\<close> and \<open>env_destroy\<close> of \<^verbatim>\<open>kern/env.c\<close>
  and the round-robin scheduler of \<^verbatim>\<open>kern/sched.c\<close>. A kernel function that may not return
  ends in one of the outcomes of \<open>run\<close>: it returns, it leaves the kernel for a user
  environment or for the idle loop, it enters the kernel monitor for good, or it panics.
\<close>

datatype ('a, 'k) run = Returns 'a 'k | Leaves 'k | Monitors 'k | Panics

fun run_bind :: "('a, 'k) run \<Rightarrow> ('a \<Rightarrow> 'k \<Rightarrow> ('b, 'k) run) \<Rightarrow> ('b, 'k) run" where
  "run_bind (Returns a k) f = f a k"
| "run_bind (Leaves k) f = Leaves k"
| "run_bind (Monitors k) f = Monitors k"
| "run_bind Panics f = Panics"

definition run_opt :: "('a \<times> 'k) option \<Rightarrow> ('a, 'k) run" where
  "run_opt x = (case x of None \<Rightarrow> Panics | Some (a, k) \<Rightarrow> Returns a k)"

lemma run_opt_simps [simp]: "run_opt None = Panics" "run_opt (Some (a, k)) = Returns a k"
  by (simp_all add: run_opt_def)

section \<open>The big kernel lock\<close>

text \<open>
  Within one kernel entry the lock is \<open>kernel_lock\<close>, the CPU that holds it. The model runs
  a kernel entry only once the lock has been obtained, so \<open>lock_kernel\<close> on a lock held
  elsewhere does not arise; a second acquisition and a release without holding panic.
\<close>

definition lock_kernel :: "'z kernel_scheme \<Rightarrow> 'z kernel_scheme option" where
  "lock_kernel k = (if kernel_lock k = None then Some (k\<lparr>kernel_lock := Some (thiscpu k)\<rparr>) else None)"

definition unlock_kernel :: "'z kernel_scheme \<Rightarrow> 'z kernel_scheme option" where
  "unlock_kernel k = (if kernel_lock k = Some (thiscpu k) then Some (k\<lparr>kernel_lock := None\<rparr>) else None)"

section \<open>Running an environment\<close>

definition env_switch :: "nat \<Rightarrow> 'z kernel_scheme \<Rightarrow> 'z kernel_scheme" where
  "env_switch e k =
    (if curenv k \<noteq> Some e then
       let k = (case curenv k of
                  Some c \<Rightarrow> if env_status (envs k c) = ENV_RUNNING
                            then upd_env c (\<lambda>v. v\<lparr>env_status := ENV_RUNNABLE\<rparr>) k else k
                | None \<Rightarrow> k);
           k = set_curenv (Some e) k
       in upd_env e (\<lambda>v. v\<lparr>env_runs := env_runs v + 1, env_status := ENV_RUNNING\<rparr>) k
     else k)"

definition env_run :: "nat \<Rightarrow> 'z kernel_scheme \<Rightarrow> ('a, 'z kernel_scheme) run" where
  "env_run e k =
    (case unlock_kernel (env_switch e k) of
       None \<Rightarrow> Panics
     | Some k \<Rightarrow>
         (case env_pgdir (envs k e) of
            None \<Rightarrow> Panics
          | Some pgdir \<Rightarrow> Leaves (lcr3 pgdir k)))"

section \<open>The scheduler\<close>

definition sched_halt :: "'z kernel_scheme \<Rightarrow> ('a, 'z kernel_scheme) run" where
  "sched_halt k =
    (if list_ex (\<lambda>i. env_status (envs k i) = ENV_RUNNABLE \<or> env_status (envs k i) = ENV_RUNNING \<or>
                     env_status (envs k i) = ENV_DYING) [0..<NENV]
     then
       let k = set_curenv None k;
           k = lcr3 (kern_pgdir k) k;
           k = upd_cpu (\<lambda>c. c\<lparr>cpu_status := CPU_HALTED\<rparr>) k
       in (case unlock_kernel k of None \<Rightarrow> Panics | Some k \<Rightarrow> Leaves k)
     else Monitors k)"

text \<open>The order in which \<open>sched_yield\<close> looks at the table, and what it accepts.\<close>

definition sched_order :: "nat option \<Rightarrow> nat list" where
  "sched_order cur =
    (let start_idx = (case cur of Some c \<Rightarrow> c + 1 | None \<Rightarrow> 0);
         end_idx = (case cur of Some c \<Rightarrow> c + NENV | None \<Rightarrow> NENV - 1)
     in map (\<lambda>i. i mod NENV) [start_idx..<end_idx + 1])"

definition schedulable :: "'z kernel_scheme \<Rightarrow> nat \<Rightarrow> bool" where
  "schedulable k e \<longleftrightarrow>
     Some e = curenv k \<and> env_status (envs k e) = ENV_RUNNING \<or> env_status (envs k e) = ENV_RUNNABLE"

definition sched_yield :: "'z kernel_scheme \<Rightarrow> ('a, 'z kernel_scheme) run" where
  "sched_yield k =
    (case find (schedulable k) (sched_order (curenv k)) of
       None \<Rightarrow> sched_halt k
     | Some idle \<Rightarrow> env_run idle k)"

section \<open>Destroying an environment\<close>

definition env_destroy :: "nat \<Rightarrow> 'z kernel_scheme \<Rightarrow> (unit, 'z kernel_scheme) run" where
  "env_destroy e k =
    (if env_status (envs k e) = ENV_RUNNING \<and> curenv k \<noteq> Some e
     then Returns () (upd_env e (\<lambda>v. v\<lparr>env_status := ENV_DYING\<rparr>) k)
     else
       (case env_free e k of
          None \<Rightarrow> Panics
        | Some k \<Rightarrow>
            if curenv k = Some e then sched_yield (set_curenv None k) else Returns () k))"

section \<open>Round robin\<close>

lemma set_curenv_fields [simp]:
  "npages (set_curenv c k) = npages k" "pages (set_curenv c k) = pages k"
  "page_free_list (set_curenv c k) = page_free_list k" "phys (set_curenv c k) = phys k"
  "kern_pgdir (set_curenv c k) = kern_pgdir k"
  "env_free_list (set_curenv c k) = env_free_list k" "snapshots (set_curenv c k) = snapshots k"
  "envs (set_curenv c k) = envs k" "thiscpu (set_curenv c k) = thiscpu k"
  "kernel_lock (set_curenv c k) = kernel_lock k" "curenv (set_curenv c k) = c"
  by (simp_all add: set_curenv_def upd_cpu_def curenv_def)

lemma sched_order_set: "cur = None \<or> (\<exists>c<NENV. cur = Some c) \<Longrightarrow> set (sched_order cur) = {..<NENV}"
proof -
  have "(\<lambda>i. i mod 1024) ` {Suc c..<Suc (c + 1024)} = {..<1024 :: nat}" if "c < 1024" for c
  proof (intro set_eqI iffI)
    fix x assume "x \<in> {..<1024 :: nat}"
    then have "x = (if c < x then x else x + 1024) mod 1024"
      "(if c < x then x else x + 1024) \<in> {Suc c..<Suc (c + 1024)}" using that by auto
    then show "x \<in> (\<lambda>i. i mod 1024) ` {Suc c..<Suc (c + 1024)}" by blast
  qed auto
  then show "cur = None \<or> (\<exists>c<NENV. cur = Some c) \<Longrightarrow> set (sched_order cur) = {..<NENV}"
    by (auto simp: sched_order_def NENV_def Let_def simp del: upt_Suc)
qed

text \<open>How many slots ahead of \<open>c\<close> the slot \<open>e\<close> is, going round; its own slot comes last.\<close>

definition ahead :: "nat \<Rightarrow> nat \<Rightarrow> nat" where
  "ahead c e = (if c < e then e - c else e + NENV - c)"

lemma sched_order_nth:
  assumes "c < NENV" "n < NENV"
  shows "ahead c (sched_order (Some c) ! n) = n + 1" "sched_order (Some c) ! n < NENV"
proof -
  have nth: "sched_order (Some c) ! n = (c + 1 + n) mod 1024"
    using assms by (simp add: sched_order_def NENV_def del: upt_Suc)
  show "sched_order (Some c) ! n < NENV" unfolding nth by (simp add: NENV_def)
  show "ahead c (sched_order (Some c) ! n) = n + 1"
  proof (cases "c + 1 + n < 1024")
    case True
    then have "(c + 1 + n) mod 1024 = c + 1 + n" by (rule mod_less)
    then show ?thesis unfolding nth ahead_def by simp
  next
    case False
    then have "(c + 1 + n) mod 1024 = c + 1 + n - 1024"
      using assms by (simp add: NENV_def mod_if)
    then show ?thesis unfolding nth ahead_def using False assms by (simp add: NENV_def)
  qed
qed

lemma sched_order_length: "length (sched_order (Some c)) = NENV"
  by (simp add: sched_order_def NENV_def)

lemma find_first:
  assumes "find P xs = Some x"
  shows "\<exists>i<length xs. xs ! i = x \<and> P x \<and> (\<forall>j<i. \<not> P (xs ! j))"
  using assms unfolding find_Some_iff by auto

text \<open>
  The scheduler's choice: the schedulable environment that is fewest slots ahead of the current one.
\<close>

lemma sched_choice:
  assumes c: "c < NENV" and e: "e < NENV" "P e"
  shows "\<exists>x<NENV. find P (sched_order (Some c)) = Some x \<and> P x \<and>
    (\<forall>y<NENV. P y \<longrightarrow> ahead c x \<le> ahead c y)"
proof -
  have mem: "y \<in> set (sched_order (Some c))" if "y < NENV" for y
    using sched_order_set [of "Some c"] c that by auto
  obtain x where f: "find P (sched_order (Some c)) = Some x"
    using e mem [OF e(1)] by (cases "find P (sched_order (Some c))") (auto simp: find_None_iff)
  from find_first [OF f] obtain i where i: "i < NENV" "sched_order (Some c) ! i = x" "P x"
    "\<forall>j<i. \<not> P (sched_order (Some c) ! j)" by (auto simp: sched_order_length)
  have "ahead c x \<le> ahead c y" if y: "y < NENV" "P y" for y
  proof -
    obtain j where j: "j < NENV" "sched_order (Some c) ! j = y"
      using mem [OF y(1)] by (auto simp: in_set_conv_nth sched_order_length)
    with i(4) y(2) have "i \<le> j" by (metis not_less)
    then show ?thesis using sched_order_nth [OF c i(1)] sched_order_nth [OF c j(1)] i(2) j(2) by simp
  qed
  then show ?thesis using f i sched_order_nth(2) [OF c i(1)] by blast
qed

lemma ahead_pos: "c < NENV \<Longrightarrow> 0 < ahead c e"
  by (simp add: ahead_def)

lemma ahead_inj: "c < NENV \<Longrightarrow> x < NENV \<Longrightarrow> e < NENV \<Longrightarrow> ahead c x = ahead c e \<Longrightarrow> x = e"
  by (simp add: ahead_def split: if_splits)

lemma ahead_closer:
  "c < NENV \<Longrightarrow> x < NENV \<Longrightarrow> e < NENV \<Longrightarrow> ahead c x \<le> ahead c e \<Longrightarrow> x \<noteq> e \<Longrightarrow> ahead x e < ahead c e"
  unfolding ahead_def NENV_def by (auto split: if_splits)

lemma ahead_le: "c < NENV \<Longrightarrow> e < NENV \<Longrightarrow> ahead c e \<le> NENV"
  unfolding ahead_def NENV_def by auto

text \<open>
  C10: when some environment is runnable, \<open>sched_yield\<close> runs the schedulable environment that
  comes first after the current one in circular order (the current one itself last); a runnable
  environment that is not chosen is strictly fewer slots away from the new current one.
\<close>

theorem sched_yield_round_robin:
  assumes "curenv k = Some c" "c < NENV" "e < NENV" "env_status (envs k e) = ENV_RUNNABLE"
  shows "\<exists>x<NENV. sched_yield k = env_run x k \<and> schedulable k x \<and>
    (\<forall>y<NENV. schedulable k y \<longrightarrow> ahead c x \<le> ahead c y) \<and> (x = e \<or> ahead x e < ahead c e)"
proof -
  have "schedulable k e" using assms(4) by (simp add: schedulable_def)
  from sched_choice [OF assms(2,3), of "schedulable k", OF this] obtain x where x: "x < NENV"
    "find (schedulable k) (sched_order (Some c)) = Some x" "schedulable k x"
    "\<forall>y<NENV. schedulable k y \<longrightarrow> ahead c x \<le> ahead c y" by blast
  moreover have "x = e \<or> ahead x e < ahead c e"
    using ahead_closer [OF assms(2) x(1) assms(3)] x(4) assms(3) \<open>schedulable k e\<close> by blast
  ultimately show ?thesis using assms(1) by (intro exI [of _ x]) (simp add: sched_yield_def)
qed

text \<open>The environment that is current where a call of \<open>sched_yield\<close> leaves the kernel is the one that it picked.\<close>

lemma env_switch_current: "curenv (env_switch e k) = Some e"
  by (simp add: env_switch_def Let_def curenv_def upd_env_def set_curenv_def upd_cpu_def)

lemma env_run_leaves: "env_run e k = Leaves k' \<Longrightarrow> curenv k' = Some e"
  using env_switch_current [of e k]
  by (auto simp: env_run_def unlock_kernel_def curenv_def lcr3_def upd_cpu_def split: if_splits option.splits)

lemma sched_yield_closer:
  assumes "curenv k = Some c" "c < NENV" "e < NENV" "env_status (envs k e) = ENV_RUNNABLE" "sched_yield k = Leaves k'"
  shows "\<exists>x<NENV. curenv k' = Some x \<and> (x = e \<or> ahead x e < ahead c e)"
proof -
  have "schedulable k e" using assms(4) by (simp add: schedulable_def)
  from sched_choice [OF assms(2,3), of "schedulable k", OF this] obtain x where x: "x < NENV"
    "find (schedulable k) (sched_order (Some c)) = Some x" "ahead c x \<le> ahead c e"
    using assms(3) \<open>schedulable k e\<close> by blast
  have "curenv k' = Some x" using assms(5) env_run_leaves by (simp add: sched_yield_def assms(1) x(2))
  then show ?thesis using x(1) ahead_closer [OF assms(2) x(1) assms(3) x(3)] by blast
qed

text \<open>
  C11: a runnable environment \<open>e\<close> does not starve on a CPU whose environments yield or are preempted: whatever else happens
  between its calls of \<open>sched_yield\<close>, as long as \<open>e\<close> stays runnable until it is picked and the environment that one call leaves the
  kernel with is still the current one at the next call, one of the first \<open>NENV\<close> calls picks \<open>e\<close>. (When the current environment
  is destroyed instead, the search starts at the first slot again, as the theorem after next states.)
\<close>

theorem sched_no_starvation:
  assumes "curenv (k 0) = Some c" "c < NENV" "e < NENV"
    and "\<And>i. \<forall>j<i. curenv (k' j) \<noteq> Some e \<Longrightarrow> env_status (envs (k i) e) = ENV_RUNNABLE \<and>
      sched_yield (k i) = Leaves (k' i) \<and> curenv (k (Suc i)) = curenv (k' i)"
  shows "\<exists>i<NENV. curenv (k' i) = Some e"
proof (rule ccontr)
  assume none: "\<not> (\<exists>i<NENV. curenv (k' i) = Some e)"
  have "\<exists>x<NENV. curenv (k i) = Some x \<and> i + ahead x e \<le> NENV" if "i \<le> NENV" for i
    using that
  proof (induction i)
    case 0
    then show ?case using assms(1-3) ahead_le by simp
  next
    case (Suc i)
    then obtain x where x: "x < NENV" "curenv (k i) = Some x" "i + ahead x e \<le> NENV" by auto
    have "\<forall>j<i. curenv (k' j) \<noteq> Some e" using none Suc.prems by auto
    note step = assms(4) [OF this]
    then obtain y where y: "y < NENV" "curenv (k' i) = Some y" "y = e \<or> ahead y e < ahead x e"
      using sched_yield_closer [OF x(2,1) assms(3)] by blast
    moreover have "y \<noteq> e" using none Suc.prems y(2) by auto
    ultimately show ?case using x(3) step by (intro exI [of _ y]) simp
  qed
  from this [of NENV] obtain x where "x < NENV" "ahead x e = 0" by auto
  then show False using ahead_pos [of x e] by simp
qed

text \<open>
  Without a current environment, which is how \<open>env_destroy\<close> calls \<open>sched_yield\<close>, the search does not go on where this CPU was:
  it takes the lowest runnable slot, each time, however often the ones behind it have been passed over.
\<close>

theorem sched_restarts_at_first_slot:
  assumes "curenv k = None" "x < NENV" "env_status (envs k x) = ENV_RUNNABLE" "\<forall>y<x. env_status (envs k y) \<noteq> ENV_RUNNABLE"
  shows "sched_yield k = env_run x k"
proof -
  have "map (\<lambda>i. i mod NENV) [0..<NENV] = [0..<NENV]" by (rule map_idI) simp
  then have o: "sched_order None = [0..<NENV]"
    unfolding sched_order_def Let_def option.case by (simp add: NENV_def del: upt_Suc)
  have sc: "schedulable k y \<longleftrightarrow> env_status (envs k y) = ENV_RUNNABLE" for y using assms(1) by (simp add: schedulable_def)
  have "find (schedulable k) [0..<NENV] = Some x"
    unfolding find_Some_iff using assms(2-4) sc by (intro exI [of _ x]) simp
  then show ?thesis using assms(1) o by (simp add: sched_yield_def)
qed

section \<open>An environment on two CPUs\<close>

lemma env_run_current:
  assumes "curenv k = Some c" "kernel_lock k = Some (thiscpu k)" "env_pgdir (envs k c) = Some d"
  shows "env_run c k = Leaves (lcr3 d (k\<lparr>kernel_lock := None\<rparr>))"
  using assms by (simp add: env_run_def env_switch_def unlock_kernel_def)

text \<open>
  \<open>env_run\<close> marks an environment as running only when it was not the current one. If the
  current environment has set its own status to runnable and nothing else is runnable, it goes on
  running with status \<open>ENV_RUNNABLE\<close>, and the scheduler of another, idle CPU picks the same
  environment: it then runs on two CPUs at once.
\<close>

theorem runnable_current_env_runs_twice:
  assumes "curenv k = Some c" "c < NENV" "env_status (envs k c) = ENV_RUNNABLE"
    and "\<forall>e<NENV. e \<noteq> c \<longrightarrow> env_status (envs k e) \<noteq> ENV_RUNNABLE"
    and "env_pgdir (envs k c) = Some d" "kernel_lock k = Some (thiscpu k)"
    and "j \<noteq> thiscpu k" "cpu_env (cpus k j) = None"
  shows "\<exists>k1 k2. sched_yield k = Leaves k1 \<and> curenv k1 = Some c \<and>
    sched_yield (k1\<lparr>thiscpu := j, kernel_lock := Some j\<rparr>) = Leaves k2 \<and> curenv k2 = Some c \<and>
    cpu_env (cpus k2 (thiscpu k)) = Some c \<and> thiscpu k2 = j"
proof -
  have sched: "schedulable k e \<longleftrightarrow> e = c" if "e < NENV" for e
    using that assms by (auto simp: schedulable_def)
  from sched_choice [OF assms(2,2), of "schedulable k"] sched assms(2)
  have f: "find (schedulable k) (sched_order (Some c)) = Some c" by auto
  let ?k1 = "lcr3 d (k\<lparr>kernel_lock := None\<rparr>)"
  have y1: "sched_yield k = Leaves ?k1"
    unfolding sched_yield_def assms(1) f using env_run_current [OF assms(1,6,5)] by simp
  have c1: "curenv ?k1 = Some c" using assms(1) by (simp add: lcr3_def upd_cpu_def curenv_def)
  let ?k = "?k1\<lparr>thiscpu := j, kernel_lock := Some j\<rparr>"
  have cu: "curenv ?k = None" using assms(7,8) by (simp add: lcr3_def upd_cpu_def curenv_def)
  have en: "envs ?k = envs k" by (simp add: lcr3_def upd_cpu_def)
  have sc: "schedulable ?k e \<longleftrightarrow> e = c" if "e < NENV" for e
    using that assms(3,4) unfolding schedulable_def cu en by auto
  obtain x where x: "find (schedulable ?k) (sched_order None) = Some x"
    using sc assms(2) sched_order_set [of None]
    by (cases "find (schedulable ?k) (sched_order None)") (auto simp: find_None_iff)
  from find_first [OF x] have "x \<in> set (sched_order None)" "schedulable ?k x" by auto
  then have xc: "x = c" using sc sched_order_set [of None] by auto
  let ?k2 = "env_switch c ?k"
  have sw: "kernel_lock ?k2 = Some j" "thiscpu ?k2 = j" "curenv ?k2 = Some c" "env_pgdir (envs ?k2 c) = Some d"
    "cpu_env (cpus ?k2 (thiscpu k)) = Some c"
    unfolding env_switch_def cu using assms(1,5,7)
    by (simp_all add: set_curenv_def upd_cpu_def upd_env_def curenv_def lcr3_def)
  have "sched_yield ?k = Leaves (lcr3 d (?k2\<lparr>kernel_lock := None\<rparr>))"
    unfolding sched_yield_def cu x xc using sw by (simp add: env_run_def unlock_kernel_def)
  moreover have "curenv (lcr3 d (?k2\<lparr>kernel_lock := None\<rparr>)) = Some c"
    "cpu_env (cpus (lcr3 d (?k2\<lparr>kernel_lock := None\<rparr>)) (thiscpu k)) = Some c"
    "thiscpu (lcr3 d (?k2\<lparr>kernel_lock := None\<rparr>)) = j"
    using sw by (auto simp: lcr3_def upd_cpu_def curenv_def)
  ultimately show ?thesis using y1 c1 by blast
qed

section \<open>The scheduler on the concrete kernel\<close>

text \<open>The second environment is made runnable, or the first one yields its own status.\<close>

definition demo_ready :: "nat \<Rightarrow> kernel" where
  "demo_ready e = upd_env e (\<lambda>v. v\<lparr>env_status := ENV_RUNNABLE\<rparr>) demo_kernel"

lemma demo_ready_fields [simp]:
  "curenv (demo_ready e) = Some 0" "thiscpu (demo_ready e) = 0" "kernel_lock (demo_ready e) = Some 0"
  "env_status (envs (demo_ready e) i) = (if i = e then ENV_RUNNABLE else env_status (demo_envs i))"
  "env_pgdir (envs (demo_ready e) i) = env_pgdir (demo_envs i)"
  "cpu_env (cpus (demo_ready e) c) = (if c = 0 then Some 0 else None)"
  by (simp_all add: demo_ready_def upd_env_def demo_kernel_def curenv_def)

theorem sched_yield_round_robin_witness:
  "\<exists>x<NENV. sched_yield (demo_ready 1) = (env_run x (demo_ready 1) :: (unit, kernel) run) \<and>
     (x = 1 \<or> ahead x 1 < ahead 0 1)"
  using sched_yield_round_robin [of "demo_ready 1" 0 1] by (auto simp: NENV_def)

theorem sched_no_starvation_witness:
  "\<exists>(k :: nat \<Rightarrow> kernel) (k' :: nat \<Rightarrow> kernel). k 0 = demo_ready 1 \<and> (\<exists>i<NENV. curenv (k' i) = Some 1)"
proof -
  have n: "0 < NENV" "1 < NENV" by (simp_all add: NENV_def)
  have r: "env_status (envs (demo_ready 1) 1) = ENV_RUNNABLE" by simp
  from sched_choice [OF n, of "schedulable (demo_ready 1)"] obtain x where x: "x < NENV"
    "find (schedulable (demo_ready 1)) (sched_order (Some 0)) = Some x" "schedulable (demo_ready 1) x" "ahead 0 x \<le> ahead 0 1"
    using n(2) r unfolding schedulable_def by blast
  have "x = 1" using x(1,4) n by (auto simp: ahead_def split: if_splits)
  then have f: "find (schedulable (demo_ready 1)) (sched_order (Some 0)) = Some 1" using x(2) by simp
  have sw: "kernel_lock (env_switch 1 (demo_ready 1)) = Some (thiscpu (env_switch 1 (demo_ready 1)))"
    "env_pgdir (envs (env_switch 1 (demo_ready 1)) 1) = Some 6"
    by (simp_all add: env_switch_def Let_def upd_env_def set_curenv_def upd_cpu_def demo_ready_def demo_kernel_def curenv_def)
  let ?k' = "lcr3 6 ((env_switch 1 (demo_ready 1))\<lparr>kernel_lock := None\<rparr>)"
  have y: "sched_yield (demo_ready 1) = (Leaves ?k' :: (unit, kernel) run)"
    using f sw by (simp add: sched_yield_def env_run_def unlock_kernel_def)
  obtain k' where k': "sched_yield (demo_ready 1) = (Leaves k' :: (unit, kernel) run)" "curenv k' = Some 1"
    using that [OF y] env_switch_current [of 1 "demo_ready 1"] by (simp add: curenv_def lcr3_def upd_cpu_def)
  note cur = k'(2)
  let ?k = "\<lambda>i :: nat. if i = 0 then demo_ready 1 else k'"
  have "\<exists>i<NENV. curenv ((\<lambda>_ :: nat. k') i) = Some 1"
  proof (rule sched_no_starvation [where k = ?k and c = 0])
    fix i :: nat
    assume "\<forall>j<i. curenv k' \<noteq> Some 1"
    then have "i = 0" using cur by auto
    then show "env_status (envs (?k i) 1) = ENV_RUNNABLE \<and> sched_yield (?k i) = (Leaves k' :: (unit, kernel) run) \<and> curenv (?k (Suc i)) = curenv k'"
      using k'(1) by simp
  qed (use n in simp_all)
  then have "\<exists>i<NENV. curenv k' = Some 1" by simp
  then show ?thesis
    by - (rule exI [of _ ?k], rule exI [of _ "\<lambda>_ :: nat. k'"], simp)
qed

theorem sched_restarts_at_first_slot_witness:
  "sched_yield (set_curenv None (demo_ready 1)) = (env_run 1 (set_curenv None (demo_ready 1)) :: (unit, kernel) run)"
  by (rule sched_restarts_at_first_slot) (simp_all add: NENV_def)

theorem runnable_current_env_runs_twice_witness:
  "\<exists>k1 k2. sched_yield (demo_ready 0) = (Leaves k1 :: (unit, kernel) run) \<and> curenv k1 = Some 0 \<and>
     sched_yield (k1\<lparr>thiscpu := 1, kernel_lock := Some 1\<rparr>) = (Leaves k2 :: (unit, kernel) run) \<and>
     curenv k2 = Some 0 \<and> cpu_env (cpus k2 0) = Some 0 \<and> thiscpu k2 = 1"
proof -
  have "\<forall>e<NENV. e \<noteq> 0 \<longrightarrow> env_status (envs (demo_ready 0) e) \<noteq> ENV_RUNNABLE" by simp
  moreover have "curenv (demo_ready 0) = Some 0" "(0 :: nat) < NENV"
    "env_status (envs (demo_ready 0) 0) = ENV_RUNNABLE" "env_pgdir (envs (demo_ready 0) 0) = Some 5"
    "kernel_lock (demo_ready 0) = Some (thiscpu (demo_ready 0))" "1 \<noteq> thiscpu (demo_ready 0)"
    "cpu_env (cpus (demo_ready 0) 1) = None"
    by (simp_all add: NENV_def)
  ultimately have "\<exists>k1 k2. sched_yield (demo_ready 0) = (Leaves k1 :: (unit, kernel) run) \<and>
     curenv k1 = Some 0 \<and>
     sched_yield (k1\<lparr>thiscpu := 1, kernel_lock := Some 1\<rparr>) = (Leaves k2 :: (unit, kernel) run) \<and>
     curenv k2 = Some 0 \<and> cpu_env (cpus k2 (thiscpu (demo_ready 0))) = Some 0 \<and> thiscpu k2 = 1"
    by (intro runnable_current_env_runs_twice [of "demo_ready 0" 0 5 1])
  then show ?thesis by simp
qed

end
