(* ===== verification/User_Check.thy ===== *)
theory User_Check
  imports Address_Space
begin

text \<open>
  The properties of \<^verbatim>\<open>kern/pmap.c\<close>: what insertion, removal and lookup do to address
  spaces, the 16-bit reference count, and exactly which pages \<open>user_mem_check\<close> looks at.
  \<open>demo_vm\<close> is the small concrete machine on which the witnesses run: eight frames, an empty
  page directory in frame 5, frames 2 and 3 free, and a kernel-owned data page in frame 4.
\<close>

section \<open>A concrete machine\<close>

definition demo_vm :: pmem where
  "demo_vm = \<lparr>npages = 8, npages_basemem = 160, nextfree = 0,
     pages = (\<lambda>p. if p = 2 then \<lparr>pp_link = Some 3, pp_ref = 0\<rparr>
                  else if p = 3 then \<lparr>pp_link = None, pp_ref = 0\<rparr>
                  else \<lparr>pp_link = None, pp_ref = 1\<rparr>),
     page_free_list = Some 2, phys = (\<lambda>_ _. 0), kern_pgdir = 0, mmio_base = MMIOBASE, invlpgs = []\<rparr>"

definition demo_held :: "nat \<Rightarrow> nat" where
  "demo_held p = (if p \<in> {2, 3, 5} then 0 else 1)"

lemma demo_sites: "site_target demo_vm x = (case x of Dir d \<Rightarrow> Some d | _ \<Rightarrow> None)"
  by (cases x) (simp_all add: demo_vm_def entry_target_def)

lemma demo_vm_inv: "vm_inv demo_vm {5} demo_held [2, 3]"
proof -
  have "ref_sites demo_vm {5} p = (if p = 5 then {Dir 5} else {})" for p
  proof -
    have "x = Dir p" if "x \<in> ref_sites demo_vm {5} p" for x
      using that by (cases x) (auto simp: ref_sites_def demo_sites)
    then have "ref_sites demo_vm {5} p \<subseteq> {Dir p}" by blast
    moreover have "Dir p \<in> ref_sites demo_vm {5} p \<longleftrightarrow> p = 5" by (simp add: ref_sites_def)
    ultimately show ?thesis by (auto simp del: all_sites_iff)
  qed
  then have r: "refs demo_vm {5} p = (if p = 5 then 1 else 0)" for p
    by (simp add: refs_def)
  have "avail demo_vm [2, 3]" by (auto simp: avail_def demo_vm_def)
  moreover have "x = Dir 5 \<and> p = 5" if "x \<in> all_sites {5}" "site_target demo_vm x = Some p" for x p
    using that by (cases x) (auto simp: demo_sites simp del: site_target.simps)
  moreover have "unat (pref demo_vm p) = refs demo_vm {5} p + demo_held p" for p
    unfolding r by (simp add: demo_held_def demo_vm_def)
  moreover have "p < 8" if "pref demo_vm p = 0" for p
    using that by (simp add: demo_vm_def split: if_splits)
  moreover have "npages demo_vm = 8" "pref demo_vm p = (if p \<in> {2, 3} then 0 else 1)" for p
    by (auto simp: demo_vm_def)
  ultimately show ?thesis
    unfolding vm_inv_def
    by (intro conjI ballI allI impI) (fastforce simp: demo_held_def)+
qed

text \<open>Page 4 mapped at the user address \<open>0x800000\<close>, for the witnesses that need a mapping.\<close>

lemma demo_args:
  "\<not> is_table demo_vm {5} 4" "(0x800000 :: u32) < UTOP" "4 < npages demo_vm"
  "unat (pref demo_vm 4) < 65535" "(7 :: u32) AND NOT 0xFFF = 0"
  "page2pa 4 OR 7 OR PTE_P = 0x4007" "user_pte demo_vm 5 va = None" "ppn_of 0x4007 = 4"
  by (auto simp: is_table_def demo_vm_def kdefs page2pa_def PGSHIFT_def user_pte_def
      entry_target_def ppn_of_def PGNUM_def PTE_ADDR_def)

lemma demo_mapped:
  "\<exists>(s :: pmem) ps. vm_inv s {5} demo_held ps \<and> user_pte s 5 0x800000 = Some 0x4007"
proof -
  obtain s :: pmem and ps where s: "vm_inv s {5} demo_held ps"
    "\<forall>d'\<in>{5}. \<forall>va'<UTOP. user_pte s d' va' = (if d' = 5 \<and> same_page va' 0x800000
       then Some (page2pa 4 OR 7 OR PTE_P) else user_pte demo_vm d' va')"
    using page_insert_ok [OF demo_vm_inv _ demo_args(2,3,1) _ demo_args(4,5), of 5] by force
  then have "user_pte s 5 0x800000 = Some 0x4007" using demo_args(2,6) by simp
  with s(1) show ?thesis by blast
qed

section \<open>Mapping and unmapping pages\<close>

text \<open>
  C5: inserting an ordinary page at a user address succeeds whenever a page table is there or can
  be allocated. It maps exactly that page with the requested permissions plus present, leaves every
  other mapping of every address space unchanged, and keeps the reference counts exact.
\<close>

theorem page_insert_maps:
  assumes "vm_inv s D held ps" "d \<in> D" "va < UTOP"
    and "p < npages s" "\<not> is_table s D p" "p \<notin> set ps" "unat (pref s p) < 65535"
    and "perm AND NOT 0xFFF = 0" "ps \<noteq> [] \<or> present (phys s d (pdx va))"
  shows "\<exists>s' ps'. page_insert d (Some p) va perm s = Some (Inr (), s') \<and> vm_inv s' D held ps' \<and>
    (\<forall>d'\<in>D. \<forall>va'<UTOP. user_pte s' d' va' =
       (if d' = d \<and> same_page va' va then Some (page2pa p OR perm OR PTE_P) else user_pte s d' va')) \<and>
    page_lookup d va s' = Some (Some (p, (ppn_of (phys s' d (pdx va)), ptx va)))"
proof -
  obtain s' ps' where s': "page_insert d (Some p) va perm s = Some (Inr (), s')" "vm_inv s' D held ps'"
    "\<forall>d'\<in>D. \<forall>va'<UTOP. user_pte s' d' va' =
       (if d' = d \<and> same_page va' va then Some (page2pa p OR perm OR PTE_P) else user_pte s d' va')"
    using page_insert_ok [OF assms] by blast
  have "npages s \<le> 2 ^ 20" using vm_npages [OF assms(1)] .
  then have "ppn_of (page2pa p OR perm OR PTE_P) = p" using assms(4,8) by (intro ppn_of_entry) auto
  moreover have "user_pte s' d va = Some (page2pa p OR perm OR PTE_P)" using s'(3) assms(2,3) by simp
  ultimately have "page_lookup d va s' = Some (Some (p, (ppn_of (phys s' d (pdx va)), ptx va)))"
    using page_lookup_user [OF s'(2) assms(2,3)] by simp
  with s' show ?thesis by blast
qed

theorem page_insert_maps_witness:
  "\<exists>s' ps'. page_insert 5 (Some 4) 0x800000 7 demo_vm = Some (Inr (), s') \<and>
     vm_inv s' {5} demo_held ps' \<and> user_pte s' 5 0x800FFF = Some 0x4007 \<and>
     user_pte s' 5 0x801000 = None"
proof -
  have v: "(0x800FFF :: u32) < UTOP" "(0x801000 :: u32) < UTOP"
    "PGNUM 0x800FFF = PGNUM 0x800000" "PGNUM 0x801000 \<noteq> PGNUM 0x800000"
    by (simp_all add: kdefs PGNUM_def)
  obtain s' ps' where s: "page_insert 5 (Some 4) 0x800000 7 demo_vm = Some (Inr (), s')"
    "vm_inv s' {5} demo_held ps'"
    "\<forall>d'\<in>{5}. \<forall>va'<UTOP. user_pte s' d' va' = (if d' = 5 \<and> same_page va' 0x800000
       then Some (page2pa 4 OR 7 OR PTE_P) else user_pte demo_vm d' va')"
    using page_insert_maps [OF demo_vm_inv _ demo_args(2,3,1) _ demo_args(4,5), of 5] by force
  from s(3) v demo_args(6,7) have "user_pte s' 5 0x800FFF = Some 0x4007" "user_pte s' 5 0x801000 = None"
    by simp_all
  with s(1,2) show ?thesis by blast
qed

text \<open>
  Removing a user address clears exactly its entry, flushes it from the TLB when something was
  mapped, keeps the counts exact, and puts the page back on the free list exactly when this was its
  last reference.
\<close>

theorem page_remove_unmaps:
  assumes "vm_inv s D held ps" "d \<in> D" "va < UTOP"
  shows "\<exists>s' ps'. page_remove d va s = Some s' \<and> vm_inv s' D held ps' \<and>
    (\<forall>d'\<in>D. \<forall>va'<UTOP. user_pte s' d' va' =
       (if d' = d \<and> same_page va' va then None else user_pte s d' va')) \<and>
    (case user_pte s d va of
       None \<Rightarrow> s' = s \<and> ps' = ps
     | Some e \<Rightarrow> hd (invlpgs s') = va \<and>
         ps' = (if pref s (ppn_of e) = 1 then ppn_of e # ps else ps) \<and>
         pref s' (ppn_of e) = pref s (ppn_of e) - 1)"
proof (cases "user_pte s d va")
  case None
  have "user_pte s d va' = None" if "same_page va' va" for va'
    using that None unfolding same_page_index user_pte_def
    by (simp split: option.splits if_splits)
  with page_remove_unmapped [OF assms None] assms(1) None show ?thesis by auto
next
  case (Some e)
  with page_remove_mapped [OF assms Some] show ?thesis by auto
qed

theorem page_remove_unmaps_witness:
  "\<exists>(s :: pmem) s' ps. vm_inv s {5} demo_held ps \<and> user_pte s 5 0x800000 = Some 0x4007 \<and>
     page_remove 5 0x800000 s = Some s' \<and> user_pte s' 5 0x800000 = None \<and> hd (invlpgs s') = 0x800000"
proof -
  obtain s :: pmem and ps where s: "vm_inv s {5} demo_held ps" "user_pte s 5 0x800000 = Some 0x4007"
    using demo_mapped by blast
  have "(0x800000 :: u32) < UTOP" by (simp add: kdefs)
  then obtain s' where "page_remove 5 0x800000 s = Some s'" "user_pte s' 5 0x800000 = None"
    "hd (invlpgs s') = 0x800000"
    using page_remove_unmaps [OF s(1), of 5 "0x800000"] s(2) by force
  with s show ?thesis by blast
qed

text \<open>
  A page on the free list is mapped in no address space and is no page table or directory, and
  what a user entry maps is never itself a page table or directory.
\<close>

theorem mapped_pages_are_not_free:
  assumes "vm_inv s D held ps" "d \<in> D" "va < UTOP" "user_pte s d va = Some e"
  shows "ppn_of e \<notin> set ps \<and> \<not> is_table s D (ppn_of e) \<and> ppn_of e < npages s \<and>
         pref s (ppn_of e) \<noteq> 0"
proof -
  note x = pte_site [OF assms(2,3)] user_pte_site [OF assms(4)]
  have lt: "ppn_of e < npages s" by (rule vm_target_lt [OF assms(1) x])
  have "0 < refs s D (ppn_of e)" using refs_pos [OF vm_finite [OF assms(1)] x] .
  then have "pref s (ppn_of e) \<noteq> 0" using vm_count [OF assms(1) lt] by auto
  then show ?thesis
    using lt vm_free_unreferenced [OF assms(1) _ x(1)] x(2) vm_mapped_not_table [OF assms(1) x] by auto
qed

theorem mapped_pages_are_not_free_witness:
  "\<exists>(s :: pmem) ps. user_pte s 5 0x800000 = Some 0x4007 \<and> (4 :: nat) \<notin> set ps \<and> pref s 4 \<noteq> 0 \<and>
     vm_inv s {5} demo_held ps"
proof -
  obtain s :: pmem and ps where s: "vm_inv s {5} demo_held ps" "user_pte s 5 0x800000 = Some 0x4007"
    using demo_mapped by blast
  have "(4 :: nat) \<notin> set ps \<and> pref s 4 \<noteq> 0"
    using mapped_pages_are_not_free [OF s(1) _ demo_args(2) s(2)] demo_args(8) by simp
  with s show ?thesis by blast
qed

section \<open>The reference count has 16 bits\<close>

text \<open>
  The count is a \<open>uint16_t\<close> and \<open>page_insert\<close> does not check it: the 65536th
  reference wraps it to zero, so a page that is
  mapped 65536 times has reference count 0, the count of a free page.
\<close>

theorem page_insert_count_wraps:
  assumes "vm_inv s D held ps" "d \<in> D" "va < UTOP" "pref s p = 65535"
    and "present (phys s d (pdx va))" "user_pte s d va = None"
  shows "\<exists>s'. page_insert d (Some p) va perm s = Some (Inr (), s') \<and> pref s' p = 0 \<and>
    user_pte s' d va = Some (page2pa p OR perm OR PTE_P)"
proof -
  let ?t = "ppn_of (phys s d (pdx va))"
  let ?s1 = "set_ref p (pref s p + 1) s"
  let ?e = "page2pa p OR perm OR PTE_P"
  have t: "entry_target (phys s d (pdx va)) = Some ?t" using assms(5) by simp
  have w: "pgdir_walk d va True s = Some (Some (?t, ptx va), s)"
    by (rule walk_present [OF assms(1-3) t])
  have "\<not> present (phys s ?t (ptx va))"
    using assms(5,6) by (auto simp: user_pte_def entry_target_def split: if_splits)
  then have "page_insert d (Some p) va perm s = Some (Inr (), set_pte (?t, ptx va) ?e ?s1)"
    using w by (simp add: page_insert_def get_pte_def Let_def)
  moreover have "pref (set_pte (?t, ptx va) ?e ?s1) p = 0" using assms(4) by simp
  moreover have "user_pte (set_pte (?t, ptx va) ?e ?s1) = user_pte (set_pte (?t, ptx va) ?e s)"
    by (rule user_pte_phys) (simp add: set_pte_def)
  ultimately show ?thesis
    using set_pte_user_pte [OF assms(1-3) t assms(2,3), of ?e] present_entry [of "page2pa p" perm]
    by auto
qed


theorem page_insert_count_wraps_witness:
  "\<exists>s s'. pref s 4 = 65535 \<and> page_insert 5 (Some 4) 0x800000 7 (s :: pmem) = Some (Inr (), s') \<and>
     pref s' 4 = 0 \<and> user_pte s' 5 0x800000 = Some 0x4007"
proof -
  let ?t = "demo_vm\<lparr>pages := (\<lambda>p. if p = 2 then \<lparr>pp_link = Some 3, pp_ref = 0\<rparr>
      else if p = 3 then \<lparr>pp_link = None, pp_ref = 0\<rparr>
      else if p = 4 then \<lparr>pp_link = None, pp_ref = 65535\<rparr>
      else \<lparr>pp_link = None, pp_ref = 1\<rparr>),
    phys := (phys demo_vm)(5 := (\<lambda>_. 0)(2 := 0x6007))\<rparr>"
  let ?h = "\<lambda>p :: nat. if p \<in> {2, 3, 5, 6} then 0 else if p = 4 then 65535 else 1 :: nat"
  have tgt: "site_target ?t x = (case x of Dir d \<Rightarrow> Some d | Pde d i \<Rightarrow>
      if d = 5 \<and> i = 2 then Some 6 else None | Pte d i j \<Rightarrow> None)" for x
    by (cases x) (auto simp: demo_vm_def entry_target_def ppn_of_def PGNUM_def PTE_ADDR_def
        PTE_P_def split: option.splits)
  have rs: "ref_sites ?t {5} p = (if p = 5 then {Dir 5} else if p = 6 then {Pde 5 2} else {})" for p
  proof -
    have "x = Dir 5 \<and> p = 5 \<or> x = Pde 5 2 \<and> p = 6" if "x \<in> ref_sites ?t {5} p" for x
      using that unfolding ref_sites_def by (cases x) (auto simp: tgt simp del: site_target.simps split: if_splits)
    moreover have "Dir 5 \<in> ref_sites ?t {5} 5" "Pde 5 2 \<in> ref_sites ?t {5} 6"
      unfolding ref_sites_def by (simp_all add: tgt NUPDE_eq del: site_target.simps)
    ultimately show ?thesis by (auto split: if_splits)
  qed
  have r: "refs ?t {5} p = (if p \<in> {5, 6} then 1 else 0)" for p
    unfolding refs_def rs by simp
  have sites: "x = Dir 5 \<and> p = 5 \<or> x = Pde 5 2 \<and> p = 6"
    if "x \<in> all_sites {5}" "site_target ?t x = Some p" for x p
    using that by (cases x) (auto simp: tgt simp del: site_target.simps split: if_splits)
  have "avail ?t [2, 3]" by (auto simp: avail_def demo_vm_def)
  then have v: "vm_inv ?t {5} ?h [2, 3]"
    unfolding vm_inv_def using sites r
    by (intro conjI ballI allI impI) (fastforce simp: demo_vm_def)+
  have p: "pref ?t 4 = 65535" "present (phys ?t 5 (pdx 0x800000))"
    "user_pte ?t 5 0x800000 = None"
    by (simp_all add: demo_vm_def PDX_def PTE_P_def user_pte_def entry_target_def ppn_of_def
        PGNUM_def PTE_ADDR_def)
  have "\<exists>s'. page_insert 5 (Some 4) 0x800000 7 ?t = Some (Inr (), s') \<and> pref s' 4 = 0 \<and>
      user_pte s' 5 0x800000 = Some 0x4007"
    using page_insert_count_wraps [OF v insertI1 demo_args(2) p, of 7] demo_args(6) by simp
  with p(1) show ?thesis by blast
qed

section \<open>What user_mem_check checks\<close>

lemma unat_PGSIZE: "unat PGSIZE = 4096"
  by (simp add: PGSIZE_def)

lemma unat_page_down: "unat (ROUNDDOWN a PGSIZE) = unat a div 4096 * 4096"
  unfolding unat_ROUNDDOWN unat_PGSIZE ..

lemma page_offset_zero: "va AND 0xFFF = 0 \<longleftrightarrow> unat (va :: u32) mod 4096 = 0"
proof -
  have "unat (va AND 0xFFF) = unat va mod 4096"
    unfolding mask12 take_bit_eq_mask [symmetric] by (simp add: take_bit_eq_mod unat_mod)
  then show ?thesis by (metis unat_eq_zero)
qed

lemma walk_same_page:
  "same_page a b \<Longrightarrow> pgdir_walk d a create s = pgdir_walk d b create s"
  unfolding same_page_iff pgdir_walk_def by (elim conjE) (simp only:)

text \<open>Does the walk, without creating a table, end at an entry that has all the bits of \<open>perm\<close>?\<close>

definition entry_allows :: "nat \<Rightarrow> u32 \<Rightarrow> u32 \<Rightarrow> 'z pmem_scheme \<Rightarrow> bool" where
  "entry_allows d va perm s =
    (case pgdir_walk d va False s of
       Some (Some e, _) \<Rightarrow> get_pte s e AND perm = perm
     | _ \<Rightarrow> False)"

lemma um_loop_allows:
  "um_loop d va perm cur e s = Some (Inr ()) \<Longrightarrow> cur + 4096 * k < e \<Longrightarrow>
   entry_allows d (word_of_nat (cur + 4096 * k)) perm s"
proof (induction d va perm cur e s arbitrary: k rule: um_loop.induct)
  case (1 d va perm cur e s)
  have lt: "cur < e" using 1(3) by simp
  from 1(2) lt obtain pte t where w: "pgdir_walk d (word_of_nat cur) False s = Some (pte, t)"
    by (subst (asm) um_loop.simps) (auto simp: bind_eq_Some_conv)
  with 1(2) lt have ok: "case pte of None \<Rightarrow> False | Some q \<Rightarrow> get_pte s q AND perm = perm"
    and rest: "um_loop d va perm (cur + 4096) e s = Some (Inr ())"
    by (subst (asm) um_loop.simps, auto split: option.splits if_splits)+
  show ?case
  proof (cases k)
    case 0
    with w ok show ?thesis by (auto simp: entry_allows_def split: option.splits)
  next
    case (Suc j)
    have "\<not> (case pte of None \<Rightarrow> True | Some q \<Rightarrow> get_pte s q AND perm \<noteq> perm)"
      using ok by (auto split: option.splits)
    from 1(1) [OF lt w refl this rest, of j] Suc 1(3) show ?thesis
      by (simp add: add.assoc add.commute)
  qed
qed

lemma ROUNDUP_wraps:
  assumes "0xFFFFF000 < x"
  shows "unat (ROUNDUP x PGSIZE) = 0"
proof -
  have "4294963200 < unat x" using assms by (simp add: word_less_nat_alt)
  then have "4294963201 \<le> unat x" by linarith
  then obtain r where r: "unat x = 4294963201 + r" by (blast dest: le_Suc_ex)
  with unat_u32_lt [of x] have lt: "r < 4096" by linarith
  from r have "unat x + 4095 = r + 4294967296" by linarith
  then have "(unat x + 4095) mod 4294967296 = r mod 4294967296" by (metis mod_add_self2)
  also have "\<dots> \<le> r" by (rule mod_less_eq_dividend)
  finally have "(unat x + 4095) mod 4294967296 < 4096" using lt by (rule le_less_trans)
  then have "unat (x + 4095) < 4096" by (simp add: unat_word_ariths)
  moreover have "x + PGSIZE - 1 = x + 4095" by (simp add: PGSIZE_def algebra_simps)
  ultimately have "unat (x + PGSIZE - 1) < 4096" by (simp only:)
  then show ?thesis unfolding ROUNDUP_def unat_page_down by simp
qed

lemma unat_PGNUM: "unat (PGNUM w) = unat w div 4096"
  unfolding PGNUM_def unat_drop_bit_eq by (simp add: drop_bit_eq_div)

lemma same_page_floor: "same_page (word_of_nat (unat a div 4096 * 4096)) a"
proof -
  have "unat a div 4096 * 4096 < 4294967296"
    using div_times_less_eq_dividend [of "unat a" 4096] unat_u32_lt [of a] by linarith
  then have u: "unat (word_of_nat (unat a div 4096 * 4096) :: u32) = unat a div 4096 * 4096"
    by (rule unat_of_nat_lt)
  have "unat a div 4096 * 4096 div 4096 = unat a div 4096" by simp
  then show ?thesis unfolding word_unat_eq_iff unat_PGNUM u .
qed

lemma round_up_page:
  fixes n :: nat
  shows "n \<le> (n + 4095) div 4096 * 4096" "n mod 4096 \<noteq> 0 \<Longrightarrow> n < (n + 4095) div 4096 * 4096"
proof -
  obtain q where q: "q = (n + 4095) div 4096" by blast
  have "q * 4096 + (n + 4095) mod 4096 = n + 4095" "(n + 4095) mod 4096 < 4096"
    unfolding q by (rule div_mult_mod_eq) simp
  then have le: "n \<le> q * 4096" by linarith
  then show "n \<le> (n + 4095) div 4096 * 4096" by (simp only: q)
  assume "n mod 4096 \<noteq> 0"
  then have "n \<noteq> q * 4096" by auto
  with le show "n < (n + 4095) div 4096 * 4096" by (simp only: q)
qed

lemma check_end:
  fixes a va len :: u32
  assumes "0 < len" "unat va + unat len \<le> 2 ^ 32 - 4096"
    and "unat a < unat va + unat len" "unat a + 1 < unat va + unat len \<or> a AND 0xFFF \<noteq> 0"
  shows "unat a < unat (ROUNDUP (va + len - 1) PGSIZE)"
proof -
  let ?x = "va + len - 1"
  have one: "1 \<le> unat len" using assms(1) by (simp add: word_less_nat_alt Suc_le_eq)
  have "unat (va + len) = unat va + unat len" by (rule unat_add_no_wrap) (use assms(2) in simp)
  then have x: "unat ?x = unat va + unat len - 1" using one by (subst unat_sub) (simp_all add: word_le_nat_alt)
  have "unat ?x + unat PGSIZE - 1 < 2 ^ 32" using x assms(2) one unfolding unat_PGSIZE by linarith
  then have r: "unat (ROUNDUP ?x PGSIZE) = (unat ?x + 4095) div 4096 * 4096"
    by (subst unat_ROUNDUP) (simp_all add: unat_PGSIZE)
  show ?thesis
  proof (cases "unat a < unat ?x")
    case True
    then show ?thesis using round_up_page(1) [of "unat ?x"] r by linarith
  next
    case False
    then have a: "unat a = unat ?x" "a AND 0xFFF \<noteq> 0" using assms(3,4) x by auto
    then have "unat ?x mod 4096 \<noteq> 0" using page_offset_zero [of a] by simp
    then show ?thesis using round_up_page(2) [of "unat ?x"] r a(1) by linarith
  qed
qed


definition demo_mapped_vm :: pmem where
  "demo_mapped_vm = demo_vm\<lparr>phys := (\<lambda>f i. if f = 5 \<and> i = 2 then 0x6007
     else if f = 6 \<and> i = 0 then 0x4007 else 0)\<rparr>"


lemma check_one_byte:
  assumes "va AND 0xFFF = 0"
  shows "user_mem_check d va 1 perm s = Some (Inr ())"
proof -
  have "unat va mod 4096 = 0"
    using assms by (simp add: page_offset_zero)
  then have "ROUNDUP va PGSIZE = va" by (rule ROUNDUP_aligned)
  moreover have "unat (ROUNDDOWN va PGSIZE) \<le> unat va" using ROUNDDOWN_le by (simp add: word_le_nat_alt)
  moreover have "ROUNDDOWN va PGSIZE = va"
    unfolding word_unat_eq_iff unat_page_down using \<open>unat va mod 4096 = 0\<close> by (simp add: mod_0_imp_dvd)
  moreover have "\<not> va > NOT 0 - 1 + 1" by (simp add: not_less)
  ultimately show ?thesis by (simp add: user_mem_check_def um_loop.simps)
qed

text \<open>
  The end of the range is rounded up from the last byte, so when the last byte is the first
  byte of a page, that page is never looked at: checking one byte at any page-aligned address
  succeeds in every state, mapped or not.
\<close>

theorem user_mem_check_misses_last_page:
  assumes "va AND 0xFFF = 0"
  shows "user_mem_check d va 1 perm s = Some (Inr ())"
  by (rule check_one_byte [OF assms])

theorem user_mem_check_misses_last_page_witness:
  "user_mem_check 5 0xF0000000 1 PTE_W demo_vm = Some (Inr ()) \<and>
   user_mem_check 5 0x10001 1 PTE_W demo_vm = Some (Inl (E_FAULT, 0x10001))"
proof -
  have "user_mem_check 5 0x10001 1 PTE_W demo_vm = Some (Inl (E_FAULT, 0x10001))"
    by (simp add: user_mem_check_def um_loop.simps pgdir_walk_def ROUNDUP_def ROUNDDOWN_def
        PGSIZE_def PTE_P_def demo_vm_def get_pte_def PDX_def)
  with user_mem_check_misses_last_page [of "0xF0000000" 5 PTE_W demo_vm] show ?thesis by simp
qed

text \<open>
  The rounding up also wraps: a range that ends on the last page of the address space, such
  as the whole kernel above \<open>0xF0100000\<close>, passes the check in every state.
\<close>

theorem user_mem_check_wraps:
  assumes "0xFFFFF000 < va + len - 1" "va \<le> NOT 0 - len + 1"
  shows "user_mem_check d va len perm s = Some (Inr ())"
proof -
  have "unat (ROUNDUP (va + len - 1) PGSIZE) = 0" by (rule ROUNDUP_wraps [OF assms(1)])
  with assms(2) show ?thesis by (simp add: user_mem_check_def um_loop.simps Let_def)
qed

theorem user_mem_check_wraps_witness:
  "user_mem_check 5 0xF0100000 0x0FF00000 PTE_W demo_vm = Some (Inr ())"
  using user_mem_check_wraps [of "0xF0100000" "0x0FF00000"] by simp

end
