(* ===== verification/Printfmt.thy ===== *)
theory Printfmt
  imports Jos_Prelude
begin

text \<open>
  The formatted printing of \<^verbatim>\<open>lib/printfmt.c\<close>, shared by the kernel and user programs.
  Output goes to \<open>putch\<close> one character at a time, so an operation returns the string it
  prints. The format string is the list of its characters without the terminating NUL. Arguments
  are the 32-bit words of the variable argument list, a 64-bit argument being two words with the
  low one first; a string argument is an address into \<open>mem\<close>, which is partial: \<open>None\<close>
  is an access that faults. An operation returns \<open>None\<close> when it faults, runs off the
  argument list, never ends, or when a computation with signed integers overflows, which C leaves undefined.
\<close>

section \<open>Signed integers\<close>

definition c_int :: "int \<Rightarrow> int option" where
  "c_int x = (if - (2 ^ 31) \<le> x \<and> x < 2 ^ 31 then Some x else None)"

lemma c_int_eq [simp]: "- (2 ^ 31) \<le> x \<Longrightarrow> x < 2 ^ 31 \<Longrightarrow> c_int x = Some x"
  by (simp add: c_int_def)

section \<open>Numbers\<close>

definition digit_char :: "nat \<Rightarrow> char" where
  "digit_char d = ''0123456789abcdef'' ! d"

text \<open>\<open>base\<close> is 10 or 16 at every call; the guard makes the function total.\<close>

function printnum :: "nat \<Rightarrow> nat \<Rightarrow> int \<Rightarrow> char \<Rightarrow> string option" where
  "printnum num base width padc = do {
     width \<leftarrow> c_int (width - 1);
     before \<leftarrow> (if 2 \<le> base \<and> base \<le> num then printnum (num div base) base width padc
                else Some (replicate (nat width) padc));
     Some (before @ [digit_char (num mod base)])
   }"
  by pat_completeness auto
termination
  by (relation "measure (\<lambda>(num, base, width, padc). num)") auto

declare printnum.simps [simp del]

section \<open>Strings\<close>

definition byte_char :: "u8 \<Rightarrow> char" where
  "byte_char b = char_of (unat b)"

text \<open>
  The loop of \<open>%s\<close>, for a limit of \<open>n\<close> characters: it reads the next character
  before it looks at the limit.
\<close>

fun string_loop :: "(u32 \<Rightarrow> u8 option) \<Rightarrow> u32 \<Rightarrow> nat \<Rightarrow> bool \<Rightarrow> string option" where
  "string_loop mem p n altflag =
    (case mem p of
       None \<Rightarrow> None
     | Some ch \<Rightarrow>
         if ch = 0 then Some []
         else (case n of
             0 \<Rightarrow> Some []
           | Suc m \<Rightarrow>
               map_option ((#) (if altflag \<and> (ch < 32 \<or> ch > 126) then CHR ''?'' else byte_char ch))
                 (string_loop mem (p + 1) m altflag)))"

declare string_loop.simps [simp del]

text \<open>
  A negative precision is no limit. A string that runs through the whole address space without a
  NUL is printed for ever.
\<close>

definition print_string :: "(u32 \<Rightarrow> u8 option) \<Rightarrow> u32 \<Rightarrow> int \<Rightarrow> bool \<Rightarrow> string option" where
  "print_string mem p precision altflag =
    (if precision < 0 then
       (case string_loop mem p (2 ^ 32) altflag of
          None \<Rightarrow> None
        | Some out \<Rightarrow> if length out = 2 ^ 32 then None else Some out)
     else string_loop mem p (nat precision) altflag)"

text \<open>\<open>strnlen\<close>, with the precision converted to \<open>size_t\<close>.\<close>

fun strnlen_loop :: "(u32 \<Rightarrow> u8 option) \<Rightarrow> u32 \<Rightarrow> nat \<Rightarrow> nat option" where
  "strnlen_loop mem p 0 = Some 0"
| "strnlen_loop mem p (Suc n) =
    (case mem p of
       None \<Rightarrow> None
     | Some ch \<Rightarrow> if ch = 0 then Some 0 else map_option Suc (strnlen_loop mem (p + 1) n))"

fun error_string :: "nat \<Rightarrow> string option" where
  "error_string err =
    (if err = 1 then Some ''unspecified error''
     else if err = 2 then Some ''bad environment''
     else if err = 3 then Some ''invalid parameter''
     else if err = 4 then Some ''out of memory''
     else if err = 5 then Some ''out of environments''
     else if err = 6 then Some ''segmentation fault''
     else if err = 7 then Some ''env is not recving''
     else if err = 8 then Some ''unexpected end of file''
     else if err = 9 then Some ''transmit queue full''
     else if err = 10 then Some ''packet size exceeds limit''
     else if err = 11 then Some ''receive queue empty''
     else if err = 12 then Some ''no free space on disk''
     else if err = 13 then Some ''too many files are open''
     else if err = 14 then Some ''file or block not found''
     else if err = 15 then Some ''invalid path''
     else if err = 16 then Some ''file already exists''
     else if err = 17 then Some ''file is not a valid executable''
     else if err = 18 then Some ''operation not supported''
     else None)"

declare error_string.simps [simp del]

section \<open>The format interpreter\<close>

record fmt_state =
  fs_padc :: char
  fs_width :: int
  fs_precision :: int
  fs_lflag :: nat
  fs_altflag :: bool

definition fmt_start :: fmt_state where
  "fmt_start = \<lparr>fs_padc = CHR '' '', fs_width = -1, fs_precision = -1, fs_lflag = 0, fs_altflag = False\<rparr>"

definition is_digit :: "char \<Rightarrow> bool" where
  "is_digit c \<longleftrightarrow> of_char CHR ''0'' \<le> (of_char c :: nat) \<and> of_char c \<le> (of_char CHR ''9'' :: nat)"

definition digit_val :: "char \<Rightarrow> nat" where
  "digit_val c = of_char c - of_char CHR ''0''"

text \<open>The loop that reads a number, from its first digit on.\<close>

definition next_precision :: "int \<Rightarrow> char \<Rightarrow> int option" where
  "next_precision n c = do {
     n \<leftarrow> c_int (n * 10);
     n \<leftarrow> c_int (n + of_char c);
     c_int (n - of_char CHR ''0'')
   }"

fun read_number :: "int \<Rightarrow> string \<Rightarrow> (int \<times> string) option" where
  "read_number n [] = Some (n, [])"
| "read_number n (c # fmt) =
    (if is_digit c then do { n \<leftarrow> next_precision n c; read_number n fmt } else Some (n, c # fmt))"

definition process_precision :: "int \<Rightarrow> fmt_state \<Rightarrow> fmt_state" where
  "process_precision n st =
    (if fs_width st < 0 then st\<lparr>fs_width := n, fs_precision := -1\<rparr> else st\<lparr>fs_precision := n\<rparr>)"

text \<open>\<open>getuint\<close> and \<open>getint\<close>: the value and the arguments left.\<close>

definition getuint :: "nat \<Rightarrow> u32 list \<Rightarrow> (nat \<times> u32 list) option" where
  "getuint lflag args =
    (case args of
       [] \<Rightarrow> None
     | lo # as \<Rightarrow>
         if lflag < 2 then Some (unat lo, as)
         else (case as of [] \<Rightarrow> None | hi # bs \<Rightarrow> Some (unat lo + 2 ^ 32 * unat hi, bs)))"

definition getint :: "nat \<Rightarrow> u32 list \<Rightarrow> (int \<times> u32 list) option" where
  "getint lflag args =
    (case args of
       [] \<Rightarrow> None
     | lo # as \<Rightarrow>
         if lflag < 2 then Some (sint lo, as)
         else (case as of [] \<Rightarrow> None | hi # bs \<Rightarrow> Some (uint lo + 2 ^ 32 * sint hi, bs)))"

text \<open>The last switch arms: the conversion \<open>ch\<close> itself.\<close>

definition literal_mem :: "string \<Rightarrow> u32 \<Rightarrow> u8 option" where
  "literal_mem s a = (if unat a < length s then Some (of_char (s ! unat a))
     else if unat a = length s then Some 0 else None)"

definition print_arg_string :: "(u32 \<Rightarrow> u8 option) \<Rightarrow> fmt_state \<Rightarrow> u32 \<Rightarrow> string option" where
  "print_arg_string mem st p = do {
     let mem = (if p = 0 then literal_mem ''(null)'' else mem);
     width \<leftarrow> (if fs_width st > 0 \<and> fs_padc st \<noteq> CHR ''-''
       then do {
         n \<leftarrow> strnlen_loop mem p (if fs_precision st < 0 then nat (2 ^ 32 + fs_precision st) else nat (fs_precision st));
         n \<leftarrow> c_int (int n);
         c_int (fs_width st - n) }
       else Some (fs_width st));
     let pad = (if fs_width st > 0 \<and> fs_padc st \<noteq> CHR ''-'' then replicate (nat width) (fs_padc st) else []);
     let left = (if fs_width st > 0 \<and> fs_padc st \<noteq> CHR ''-'' then min width 0 else width);
     out \<leftarrow> print_string mem p (fs_precision st) (fs_altflag st);
     left \<leftarrow> c_int (left - int (length out));
     Some (pad @ out @ replicate (nat left) CHR '' '')
   }"

definition print_error :: "u32 \<Rightarrow> string option" where
  "print_error w = do {
     err \<leftarrow> (if sint w < 0 then c_int (- sint w) else Some (sint w));
     case (if err \<ge> int MAXERROR then None else error_string (nat err)) of
       None \<Rightarrow> map_option ((@) ''error '') (printnum (nat err) 10 (-1) CHR '' '')
     | Some p \<Rightarrow> Some p
   }"

definition convert :: "(u32 \<Rightarrow> u8 option) \<Rightarrow> char \<Rightarrow> fmt_state \<Rightarrow> u32 list \<Rightarrow> (string \<times> u32 list) option option" where
  "convert mem ch st args =
    (if ch = CHR ''c'' then
       Some (case args of [] \<Rightarrow> None | w # as \<Rightarrow> Some ([byte_char (ucast w)], as))
     else if ch = CHR ''e'' then
       Some (case args of [] \<Rightarrow> None | w # as \<Rightarrow> map_option (\<lambda>out. (out, as)) (print_error w))
     else if ch = CHR ''s'' then
       Some (case args of [] \<Rightarrow> None | p # as \<Rightarrow>
         do { out \<leftarrow> print_arg_string mem st p; Some (out, as) })
     else if ch = CHR ''d'' then
       Some (do { (n, as) \<leftarrow> getint (fs_lflag st) args;
         out \<leftarrow> (if n = - (2 ^ 63) then None else printnum (nat \<bar>n\<bar>) 10 (fs_width st) (fs_padc st));
         Some ((if n < 0 then ''-'' else []) @ out, as) })
     else if ch = CHR ''u'' then
       Some (do { (n, as) \<leftarrow> getuint (fs_lflag st) args;
         out \<leftarrow> printnum n 10 (fs_width st) (fs_padc st);
         Some (out, as) })
     else if ch = CHR ''o'' then Some (Some (''XXX'', args))
     else if ch = CHR ''p'' then
       Some (case args of [] \<Rightarrow> None | w # as \<Rightarrow>
         map_option (\<lambda>out. (''0x'' @ out, as)) (printnum (unat w) 16 (fs_width st) (fs_padc st)))
     else if ch = CHR ''x'' then
       Some (do { (n, as) \<leftarrow> getuint (fs_lflag st) args;
         out \<leftarrow> printnum n 16 (fs_width st) (fs_padc st);
         Some (out, as) })
     else if ch = CHR ''%'' then Some (Some (''%'', args))
     else None)"

text \<open>
  The escape after a \<open>%\<close>: its output, the rest of the format and of the arguments. An
  unrecognised escape prints the \<open>%\<close> and goes back to the character after it, \<open>start\<close>.
\<close>

lemma read_number_length: "read_number n fmt = Some (m, rest) \<Longrightarrow> length rest \<le> length fmt"
  by (induction n fmt rule: read_number.induct) (auto simp: bind_eq_Some_conv split: if_splits)

function escape :: "(u32 \<Rightarrow> u8 option) \<Rightarrow> string \<Rightarrow> string \<Rightarrow> fmt_state \<Rightarrow> u32 list \<Rightarrow>
    (string \<times> string \<times> u32 list) option" where
  "escape mem start fmt st args =
    (case fmt of
       [] \<Rightarrow> Some (''%'', start, args)
     | ch # fmt' \<Rightarrow>
         if ch = CHR ''-'' then escape mem start fmt' (st\<lparr>fs_padc := CHR ''-''\<rparr>) args
         else if ch = CHR ''0'' then escape mem start fmt' (st\<lparr>fs_padc := CHR ''0''\<rparr>) args
         else if is_digit ch then
           (case read_number (int (digit_val ch)) fmt' of
              None \<Rightarrow> None
            | Some (n, rest) \<Rightarrow> escape mem start rest (process_precision n st) args)
         else if ch = CHR ''*'' then
           (case args of
              [] \<Rightarrow> None
            | w # as \<Rightarrow> escape mem start fmt' (process_precision (sint w) st) as)
         else if ch = CHR ''.'' then
           escape mem start fmt' (if fs_width st < 0 then st\<lparr>fs_width := 0\<rparr> else st) args
         else if ch = CHR ''#'' then escape mem start fmt' (st\<lparr>fs_altflag := True\<rparr>) args
         else if ch = CHR ''l'' then escape mem start fmt' (st\<lparr>fs_lflag := fs_lflag st + 1\<rparr>) args
         else (case convert mem ch st args of
             Some r \<Rightarrow> map_option (\<lambda>(out, as). (out, fmt', as)) r
           | None \<Rightarrow> Some (''%'', start, args)))"
  by pat_completeness auto
termination
  by (relation "measure (\<lambda>(mem, start, fmt, st, args). length fmt)")
    (auto dest: read_number_length simp: less_Suc_eq_le)

declare escape.simps [simp del]

lemma escape_length:
  "escape mem start fmt st args = Some (out, rest, as) \<Longrightarrow> length rest \<le> max (length start) (length fmt)"
proof (induction mem start fmt st args rule: escape.induct)
  case (1 mem start fmt st args)
  show ?case
  proof (cases fmt)
    case Nil
    with 1(8) show ?thesis by (subst (asm) escape.simps) auto
  next
    case (Cons ch fmt')
    note eq = 1(8) [unfolded Cons, unfolded escape.simps [of mem start "ch # fmt'"] list.case]
    note IH = 1(1-7) [OF Cons]
    have le: "n \<le> max (length start) (length fmt') \<Longrightarrow> n \<le> max (length start) (length fmt)" for n
      using Cons by auto
    consider "ch = CHR ''-''" | "ch = CHR ''0''" | "ch \<noteq> CHR ''-''" "ch \<noteq> CHR ''0''" "is_digit ch"
      | "ch \<noteq> CHR ''-''" "ch \<noteq> CHR ''0''" "\<not> is_digit ch" "ch \<in> {CHR ''*'', CHR ''.'', CHR ''#'', CHR ''l''}"
      | "ch \<noteq> CHR ''-''" "ch \<noteq> CHR ''0''" "\<not> is_digit ch" "ch \<notin> {CHR ''*'', CHR ''.'', CHR ''#'', CHR ''l''}"
      by blast
    then show ?thesis
    proof cases
      case 1
      with eq IH(1) le show ?thesis by simp
    next
      case 2
      with eq IH(2) le show ?thesis by simp
    next
      case 3
      with eq obtain n r where n: "read_number (int (digit_val ch)) fmt' = Some (n, r)"
        by (auto split: option.splits)
      have "length rest \<le> max (length start) (length r)"
        using eq IH(3) [OF _ _ _ n refl] 3 n by simp
      then show ?thesis using read_number_length [OF n] Cons by simp
    next
      case 4
      with eq IH(4-7) le show ?thesis by (auto split: list.splits if_splits)
    next
      case 5
      with eq Cons show ?thesis by (auto split: option.splits if_splits)
    qed
  qed
qed

function vprintfmt :: "(u32 \<Rightarrow> u8 option) \<Rightarrow> string \<Rightarrow> u32 list \<Rightarrow> string option" where
  "vprintfmt mem fmt args =
    (case fmt of
       [] \<Rightarrow> Some []
     | ch # fmt' \<Rightarrow>
         if ch \<noteq> CHR ''%'' then map_option ((#) ch) (vprintfmt mem fmt' args)
         else (case escape mem fmt' fmt' fmt_start args of
             None \<Rightarrow> None
           | Some (out, rest, as) \<Rightarrow> map_option ((@) out) (vprintfmt mem rest as)))"
  by pat_completeness auto
termination
  by (relation "measure (\<lambda>(mem, fmt, args). length fmt)")
    (auto dest: escape_length simp: less_Suc_eq_le)

declare vprintfmt.simps [simp del]

section \<open>Printing into a buffer\<close>

text \<open>The characters stored so far, the room that is left and the count of characters printed.\<close>

record sprintbuf =
  sb_buf :: string
  sb_room :: nat
  sb_cnt :: int

definition sprintputch :: "char \<Rightarrow> sprintbuf \<Rightarrow> sprintbuf option" where
  "sprintputch ch b = do {
     cnt \<leftarrow> c_int (sb_cnt b + 1);
     let b = b\<lparr>sb_cnt := cnt\<rparr>;
     Some (if sb_room b > 0 then b\<lparr>sb_buf := sb_buf b @ [ch], sb_room := sb_room b - 1\<rparr> else b)
   }"

text \<open>The calls of \<open>putch\<close> that \<open>vprintfmt\<close> makes for its output.\<close>

fun sprint_all :: "string \<Rightarrow> sprintbuf \<Rightarrow> sprintbuf option" where
  "sprint_all [] b = Some b"
| "sprint_all (ch # out) b = do { b \<leftarrow> sprintputch ch b; sprint_all out b }"

text \<open>The result and the bytes from the address \<open>buf\<close> on that have been stored.\<close>

definition vsnprintf ::
  "(u32 \<Rightarrow> u8 option) \<Rightarrow> u32 \<Rightarrow> int \<Rightarrow> string \<Rightarrow> u32 list \<Rightarrow> (jos_error + int \<times> string) option" where
  "vsnprintf mem buf n fmt args =
    (if buf = 0 \<or> n < 1 then Some (Inl E_INVAL)
     else do {
       out \<leftarrow> vprintfmt mem fmt args;
       b \<leftarrow> sprint_all out \<lparr>sb_buf = [], sb_room = nat (n - 1), sb_cnt = 0\<rparr>;
       Some (Inr (sb_cnt b, sb_buf b @ [CHR 0x00]))
     })"

section \<open>What is printed\<close>

function digits :: "nat \<Rightarrow> nat \<Rightarrow> string" where
  "digits num base =
    (if 2 \<le> base \<and> base \<le> num then digits (num div base) base @ [digit_char (num mod base)]
     else [digit_char (num mod base)])"
  by pat_completeness auto
termination
  by (relation "measure (\<lambda>(num, base). num)") auto

declare digits.simps [simp del]

lemma printnum_digits:
  "2 \<le> base \<Longrightarrow> - (2 ^ 31) \<le> width - int (length (digits num base)) \<Longrightarrow> width < 2 ^ 31 \<Longrightarrow>
     printnum num base width padc =
     Some (replicate (nat (width - int (length (digits num base)))) padc @ digits num base)"
proof (induction num base width padc rule: printnum.induct)
  case (1 num base width padc)
  show ?case
  proof (cases "base \<le> num")
    case True
    have d: "digits num base = digits (num div base) base @ [digit_char (num mod base)]"
      using True 1(2) by (subst digits.simps) simp
    have w: "c_int (width - 1) = Some (width - 1)" using 1(3,4) d by (intro c_int_eq) simp_all
    have "nat (width - 1 - int (length (digits (num div base) base))) =
        nat (width - int (length (digits num base)))" unfolding d by simp
    then show ?thesis using 1(1) [OF w] 1(2-4) True w unfolding printnum.simps [of num] d by simp
  next
    case False
    then have d: "digits num base = [digit_char (num mod base)]" by (subst digits.simps) simp
    have w: "c_int (width - 1) = Some (width - 1)" using 1(3,4) d by (intro c_int_eq) simp_all
    show ?thesis using False w unfolding printnum.simps [of num] d by simp
  qed
qed

definition char_digit :: "char \<Rightarrow> nat" where
  "char_digit c = (if is_digit c then digit_val c else of_char c - of_char CHR ''a'' + 10)"

lemma char_digit_char: "d < 16 \<Longrightarrow> char_digit (digit_char d) = d"
proof -
  assume "d < 16"
  moreover have "\<forall>d\<in>set [0..<16]. char_digit (digit_char d) = d" by code_simp
  ultimately show ?thesis by simp
qed

lemma digits_value:
  "2 \<le> base \<Longrightarrow> base \<le> 16 \<Longrightarrow> foldl (\<lambda>v c. v * base + char_digit c) 0 (digits num base) = num"
proof (induction num base rule: digits.induct)
  case (1 num base)
  have m: "num mod base < 16" using 1(2,3) by (intro less_le_trans [OF mod_less_divisor]) auto
  show ?case
  proof (cases "base \<le> num")
    case True
    with 1 m show ?thesis by (subst digits.simps) (simp add: char_digit_char)
  next
    case False
    with 1 m show ?thesis by (subst digits.simps) (simp add: char_digit_char)
  qed
qed

lemma digits_nonempty: "digits num base \<noteq> []"
  by (subst digits.simps) simp

lemma digits_leading: "2 \<le> base \<Longrightarrow> base \<le> 16 \<Longrightarrow> 0 < num \<Longrightarrow> hd (digits num base) \<noteq> CHR ''0''"
proof (induction num base rule: digits.induct)
  case (1 num base)
  show ?case
  proof (cases "base \<le> num")
    case True
    then have "0 < num div base" using 1(2) by (simp add: div_greater_zero_iff)
    with 1 True digits_nonempty show ?thesis by (subst digits.simps) simp
  next
    case False
    then have "num mod base < 16" "num mod base \<noteq> 0" using 1(2-4) by auto
    then have "digit_char (num mod base) \<noteq> CHR ''0''"
      using char_digit_char [of "num mod base"] by (auto simp: char_digit_def is_digit_def digit_val_def)
    with False 1(2) show ?thesis by (subst digits.simps) simp
  qed
qed

text \<open>A number of so many bits has at most as many digits.\<close>

lemma digits_length: "2 \<le> base \<Longrightarrow> num < 2 ^ Suc n \<Longrightarrow> length (digits num base) \<le> Suc n"
proof (induction n arbitrary: num)
  case 0
  then show ?case by (subst digits.simps) simp
next
  case (Suc n)
  have "num div base \<le> num div 2" using Suc.prems(1) by (intro div_le_mono2) simp_all
  also have "\<dots> < 2 ^ Suc n" using Suc.prems(2) by simp
  finally have "length (digits (num div base) base) \<le> Suc n" by (rule Suc.IH [OF Suc.prems(1)])
  then show ?case by (subst digits.simps) simp
qed

text \<open>
  \<open>printnum\<close> prints the digits of a number, without a leading zero, whose value in the
  base is the number, and pads them on the left to the width with the pad character.
\<close>

theorem printnum_correct:
  assumes "2 \<le> base" "base \<le> 16" "num < 2 ^ 64" "- 1 \<le> width" "width < 2 ^ 31"
  shows "\<exists>ds. printnum num base width padc = Some (replicate (nat (width - int (length ds))) padc @ ds) \<and>
    foldl (\<lambda>v c. v * base + char_digit c) 0 ds = num \<and> ds \<noteq> [] \<and> (num \<noteq> 0 \<longrightarrow> hd ds \<noteq> CHR ''0'')"
proof -
  have "- (2 ^ 31) \<le> width - int (length (digits num base))"
    using digits_length [OF assms(1), of num 63] assms(3,4) by simp
  then show ?thesis
    using printnum_digits [OF assms(1) _ assms(5)] digits_value [OF assms(1,2)] digits_nonempty
      digits_leading [OF assms(1,2)] by blast
qed

theorem printnum_correct_witness:
  "\<exists>ds. printnum 48879 16 8 CHR ''0'' = Some (replicate (nat (8 - int (length ds))) CHR ''0'' @ ds) \<and>
     foldl (\<lambda>v c. v * 16 + char_digit c) 0 ds = 48879 \<and> ds \<noteq> []"
  using printnum_correct [of 16 48879 8 "CHR ''0''"] by auto

lemma sprint_all_stores:
  "0 \<le> sb_cnt b \<Longrightarrow> sb_cnt b + int (length out) < 2 ^ 31 \<Longrightarrow> sprint_all out b = Some
     \<lparr>sb_buf = sb_buf b @ take (sb_room b) out, sb_room = sb_room b - length out, sb_cnt = sb_cnt b + int (length out)\<rparr>"
proof (induction out arbitrary: b)
  case (Cons c out)
  have "c_int (sb_cnt b + 1) = Some (sb_cnt b + 1)" using Cons.prems by (intro c_int_eq) simp_all
  then show ?case using Cons by (cases "sb_room b") (simp_all add: sprintputch_def)
qed simp

text \<open>
  C39: when the formatted output \<open>out\<close> is defined and shorter than 2 GB, where the counter of characters overflows,
  \<open>vsnprintf\<close> into a buffer of \<open>n\<close> bytes stores at most \<open>n\<close> bytes: as much of the output as
  fits before a terminating NUL; it returns the length of the whole output.
\<close>

theorem vsnprintf_bounded:
  assumes "vprintfmt mem fmt args = Some out" "length out < 2 ^ 31" "buf \<noteq> 0" "1 \<le> n"
  shows "vsnprintf mem buf n fmt args = Some (Inr (int (length out), take (nat n - 1) out @ [CHR 0x00])) \<and>
    length (take (nat n - 1) out @ [CHR 0x00]) \<le> nat n"
  using assms by (auto simp: vsnprintf_def sprint_all_stores nat_diff_distrib)

theorem vsnprintf_bounded_witness:
  "vsnprintf (\<lambda>_. None) 0x800000 4 ''abcdef'' [] = Some (Inr (6, ''abc'' @ [CHR 0x00]))"
proof -
  have "vprintfmt (\<lambda>_. None) ''abcdef'' [] = Some ''abcdef''" by (simp add: vprintfmt.simps)
  from vsnprintf_bounded [OF this, of "0x800000" 4] show ?thesis by simp
qed

text \<open>
  The string conversion looks at one character more than its precision allows: with a limit of
  \<open>n\<close> characters and no NUL among the first \<open>n\<close>, it still reads byte \<open>n\<close>, and
  faults when that byte is not mapped.
\<close>

theorem print_string_overreads:
  assumes "\<And>i. i < n \<Longrightarrow> \<exists>b. mem (p + word_of_nat i) = Some b \<and> b \<noteq> 0"
    and "mem (p + word_of_nat n) = None"
  shows "print_string mem p (int n) altflag = None"
proof -
  have "string_loop mem p n altflag = None"
    using assms
  proof (induction n arbitrary: p)
    case 0
    then show ?case by (subst string_loop.simps) simp
  next
    case (Suc n)
    obtain b where b: "mem p = Some b" "b \<noteq> 0" using Suc.prems(1) [of 0] by auto
    have "string_loop mem (p + 1) n altflag = None"
    proof (rule Suc.IH)
      show "\<exists>b. mem (p + 1 + word_of_nat i) = Some b \<and> b \<noteq> 0" if "i < n" for i
        using Suc.prems(1) [of "Suc i"] that by (simp add: add.assoc)
      show "mem (p + 1 + word_of_nat n) = None" using Suc.prems(2) by (simp add: add.assoc)
    qed
    with b show ?case by (subst string_loop.simps) simp
  qed
  then show ?thesis by (simp add: print_string_def)
qed

theorem print_string_overreads_witness:
  "print_string (\<lambda>a. if 0x1000 \<le> a \<and> a < 0x1003 then Some 65 else None) 0x1000 3 False = None \<and>
   print_string (\<lambda>a. if 0x1000 \<le> a \<and> a < 0x1003 then Some 65 else None) 0x1000 2 False = Some ''AA''"
proof -
  let ?m = "\<lambda>a :: u32. if 0x1000 \<le> a \<and> a < 0x1003 then Some 65 else None :: u8 option"
  have "\<exists>b. ?m (0x1000 + word_of_nat i) = Some b \<and> b \<noteq> 0" if "i < 3" for i
  proof -
    from that have "i = 0 \<or> i = 1 \<or> i = 2" by auto
    then show ?thesis by auto
  qed
  then have "print_string ?m 0x1000 (int 3) False = None"
    by (intro print_string_overreads) simp_all
  moreover have "print_string ?m 0x1000 2 False = Some ''AA''"
    by code_simp
  ultimately show ?thesis by simp
qed

lemma nat_sint:
  fixes w :: u32
  assumes "0 \<le> sint w"
  shows "nat (sint w) = unat w"
proof -
  have "uint w = take_bit 32 (sint w)" using uint_sint [of w] by simp
  also have "\<dots> = sint w" using assms sint_less [of w] by (simp add: take_bit_int_eq_self_iff)
  finally show ?thesis by (metis nat_uint_eq)
qed

text \<open>
  The flag \<open>-\<close> is commented as padding on the right, but for numbers it only makes the pad
  character a minus sign: \<open>%-5d\<close> pads on the left with minus signs.
\<close>

theorem minus_flag_pads_left:
  assumes "0 \<le> sint w"
  shows "vprintfmt mem ''%-5d'' [w] =
    Some (replicate (nat (5 - int (length (digits (unat w) 10)))) CHR ''-'' @ digits (unat w) 10)"
proof -
  have "nat (sint w) = unat w" using assms by (rule nat_sint)
  moreover have "printnum (unat w) 10 5 CHR ''-'' =
      Some (replicate (nat (5 - int (length (digits (unat w) 10)))) CHR ''-'' @ digits (unat w) 10)"
    using digits_length [of 10 "unat w" 31] unat_u32_lt [of w] by (intro printnum_digits) simp_all
  moreover have "sint w \<noteq> - (2 ^ 63)" using assms by simp
  ultimately show ?thesis
    using assms
    by (simp add: vprintfmt.simps escape.simps fmt_start_def is_digit_def digit_val_def convert_def
        getint_def process_precision_def printnum_digits)
qed

theorem minus_flag_pads_left_witness: "vprintfmt (\<lambda>_. None) ''%-5d'' [42] = Some ''---42''"
proof -
  have d: "digits 42 10 = ''42''" by code_simp
  have r: "replicate 3 CHR ''-'' = ''---''" by (simp add: numeral_eq_Suc)
  show ?thesis using minus_flag_pads_left [of 42 "\<lambda>_. None"] by (simp add: d r)
qed

end
