(* ===== verification/Syscalls.thy ===== *)
theory Syscalls
  imports Sched User_Check Printfmt
begin

text \<open>
  The system calls of \<^verbatim>\<open>kern/syscall.c\<close> on environments, memory and IPC. A call that
  returns an error or a value has the type \<open>jos_error + u32\<close>; calls that may destroy or
  deschedule the caller end in a \<open>run\<close>. \<open>curenv\<close> being NULL, like every other NULL
  dereference, is a panic.
\<close>

section \<open>Memory as the processor sees it\<close>

text \<open>
  The page walk of the MMU for an access by the kernel: the user bit does not matter, a large page
  is used directly. A byte is taken from the little-endian word that holds it.
\<close>

definition mmu_translate :: "nat \<Rightarrow> u32 \<Rightarrow> 'z pmem_scheme \<Rightarrow> u32 option" where
  "mmu_translate cr3 va s =
    (let pde = phys s cr3 (pdx va)
     in if \<not> present pde then None
        else if pde AND PTE_PS \<noteq> 0 then Some ((pde AND 0xFFC00000) OR (va AND 0x3FFFFF))
        else let pte = phys s (ppn_of pde) (ptx va)
             in if \<not> present pte then None else Some (PTE_ADDR pte OR PGOFF va))"

definition load_byte :: "'z pmem_scheme \<Rightarrow> u32 \<Rightarrow> u8" where
  "load_byte s pa =
    ucast (drop_bit (8 * unat (pa AND 3)) (phys s (unat (PGNUM pa)) (unat (drop_bit 2 (PGOFF pa)))))"

definition kread :: "'z kernel_scheme \<Rightarrow> u32 \<Rightarrow> u8 option" where
  "kread k va = map_option (load_byte k) (mmu_translate (cpu_cr3 (cpus k (thiscpu k))) va k)"

definition kread32 :: "'z kernel_scheme \<Rightarrow> u32 \<Rightarrow> u32 option" where
  "kread32 k va = do {
     b0 \<leftarrow> kread k va; b1 \<leftarrow> kread k (va + 1); b2 \<leftarrow> kread k (va + 2); b3 \<leftarrow> kread k (va + 3);
     Some (ucast b0 OR push_bit 8 (ucast b1) OR push_bit 16 (ucast b2) OR push_bit 24 (ucast b3))
   }"

definition kread16 :: "'z kernel_scheme \<Rightarrow> u32 \<Rightarrow> u16 option" where
  "kread16 k va = do {
     b0 \<leftarrow> kread k va; b1 \<leftarrow> kread k (va + 1);
     Some (ucast b0 OR push_bit 8 (ucast b1))
   }"

section \<open>Helpers\<close>

type_synonym sysres = "jos_error + u32"

definition result_word :: "sysres \<Rightarrow> u32" where
  "result_word r = (case r of Inl e \<Rightarrow> - word_of_nat (errcode e) | Inr w \<Rightarrow> w)"

definition user_mem_assert :: "nat \<Rightarrow> u32 \<Rightarrow> u32 \<Rightarrow> u32 \<Rightarrow> 'z kernel_scheme \<Rightarrow> (unit, 'z kernel_scheme) run" where
  "user_mem_assert e va len perm k =
    (case env_pgdir (envs k e) of
       None \<Rightarrow> Panics
     | Some pgdir \<Rightarrow>
         (case user_mem_check pgdir va len (perm OR PTE_U) k of
            None \<Rightarrow> Panics
          | Some (Inl _) \<Rightarrow> env_destroy e k
          | Some (Inr _) \<Rightarrow> Returns () k))"

text \<open>The test on permissions that three calls share.\<close>

definition perm_invalid :: "u32 \<Rightarrow> bool" where
  "perm_invalid perm \<longleftrightarrow> perm AND PTE_U = 0 \<or> perm AND PTE_P = 0 \<or> perm AND NOT PTE_SYSCALL \<noteq> 0"

definition page_offset_bad :: "u32 \<Rightarrow> bool" where
  "page_offset_bad va \<longleftrightarrow> va AND (PGSIZE - 1) \<noteq> 0"

section \<open>Environments\<close>

definition sys_cputs :: "u32 \<Rightarrow> u32 \<Rightarrow> 'z kernel_scheme \<Rightarrow> (unit, 'z kernel_scheme) run" where
  "sys_cputs s len k =
    (case curenv k of
       None \<Rightarrow> Panics
     | Some c \<Rightarrow> run_bind (user_mem_assert c s len 0 k)
         (\<lambda>_ k. case print_string (kread k) s (sint len) False of
            None \<Rightarrow> Panics
          | Some out \<Rightarrow> Returns () (k\<lparr>console := console k @ out\<rparr>)))"

definition sys_getenvid :: "'z kernel_scheme \<Rightarrow> (sysres \<times> 'z kernel_scheme) option" where
  "sys_getenvid k = do { c \<leftarrow> curenv k; Some (Inr (env_id (envs k c)), k) }"

definition sys_env_destroy :: "envid \<Rightarrow> 'z kernel_scheme \<Rightarrow> (sysres, 'z kernel_scheme) run" where
  "sys_env_destroy envid k =
    (case envid2env envid True k of
       None \<Rightarrow> Panics
     | Some (Inl r) \<Rightarrow> Returns (Inl r) k
     | Some (Inr None) \<Rightarrow> Panics
     | Some (Inr (Some e)) \<Rightarrow> run_bind (env_destroy e k) (\<lambda>_ k. Returns (Inr 0) k))"

definition sys_yield :: "'z kernel_scheme \<Rightarrow> (sysres, 'z kernel_scheme) run" where
  "sys_yield k = sched_yield k"

definition sys_exofork :: "'z kernel_scheme \<Rightarrow> (sysres \<times> 'z kernel_scheme) option" where
  "sys_exofork k = do {
     c \<leftarrow> curenv k;
     (r, k) \<leftarrow> env_alloc (env_id (envs k c)) k;
     case r of
       Inl err \<Rightarrow> Some (Inl err, k)
     | Inr e \<Rightarrow>
         let tf = env_tf (envs k c);
             k = upd_env e (\<lambda>v. v\<lparr>env_status := ENV_NOT_RUNNABLE,
                   env_tf := tf\<lparr>tf_regs := (tf_regs tf)\<lparr>reg_eax := 0\<rparr>\<rparr>\<rparr>) k
         in Some (Inr (env_id (envs k e)), k)
   }"

text \<open>\<open>envid2env\<close> with permission check followed by a dereference of the result.\<close>

definition with_env ::
  "envid \<Rightarrow> bool \<Rightarrow> 'z kernel_scheme \<Rightarrow> (nat \<Rightarrow> (sysres \<times> 'z kernel_scheme) option) \<Rightarrow> (sysres \<times> 'z kernel_scheme) option" where
  "with_env envid checkperm k f =
    (case envid2env envid checkperm k of
       None \<Rightarrow> None
     | Some (Inl r) \<Rightarrow> Some (Inl r, k)
     | Some (Inr None) \<Rightarrow> None
     | Some (Inr (Some e)) \<Rightarrow> f e)"

definition sys_env_set_status :: "envid \<Rightarrow> u32 \<Rightarrow> 'z kernel_scheme \<Rightarrow> (sysres \<times> 'z kernel_scheme) option" where
  "sys_env_set_status envid status k =
    (if status \<noteq> 2 \<and> status \<noteq> 4 then Some (Inl E_INVAL, k)
     else with_env envid True k (\<lambda>e.
       Some (Inr 0, upd_env e (\<lambda>v. v\<lparr>env_status := if status = 2 then ENV_RUNNABLE else ENV_NOT_RUNNABLE\<rparr>) k)))"

definition sys_env_set_pgfault_upcall :: "envid \<Rightarrow> u32 \<Rightarrow> 'z kernel_scheme \<Rightarrow> (sysres \<times> 'z kernel_scheme) option" where
  "sys_env_set_pgfault_upcall envid func k =
    with_env envid True k (\<lambda>e. Some (Inr 0, upd_env e (\<lambda>v. v\<lparr>env_pgfault_upcall := func\<rparr>) k))"

text \<open>
  A \<open>struct Trapframe\<close> is 68 bytes: eight registers, the segment registers in the low
  halves of their words, and the words of the interrupt frame.
\<close>

definition read_trapframe :: "'z kernel_scheme \<Rightarrow> u32 \<Rightarrow> trapframe option" where
  "read_trapframe k a = do {
     edi \<leftarrow> kread32 k a; esi \<leftarrow> kread32 k (a + 4); ebp \<leftarrow> kread32 k (a + 8); oesp \<leftarrow> kread32 k (a + 12);
     ebx \<leftarrow> kread32 k (a + 16); edx \<leftarrow> kread32 k (a + 20); ecx \<leftarrow> kread32 k (a + 24); eax \<leftarrow> kread32 k (a + 28);
     es \<leftarrow> kread16 k (a + 32); ds \<leftarrow> kread16 k (a + 36); trapno \<leftarrow> kread32 k (a + 40);
     err \<leftarrow> kread32 k (a + 44); eip \<leftarrow> kread32 k (a + 48); cs \<leftarrow> kread16 k (a + 52);
     eflags \<leftarrow> kread32 k (a + 56); esp \<leftarrow> kread32 k (a + 60); ss \<leftarrow> kread16 k (a + 64);
     Some \<lparr>tf_regs = \<lparr>reg_edi = edi, reg_esi = esi, reg_ebp = ebp, reg_oesp = oesp, reg_ebx = ebx,
             reg_edx = edx, reg_ecx = ecx, reg_eax = eax\<rparr>,
           tf_es = es, tf_ds = ds, tf_trapno = trapno, tf_err = err, tf_eip = eip, tf_cs = cs,
           tf_eflags = eflags, tf_esp = esp, tf_ss = ss\<rparr>
   }"

text \<open>The fields are sanitised first and then overwritten by the user's frame.\<close>

definition sys_env_set_trapframe :: "envid \<Rightarrow> u32 \<Rightarrow> 'z kernel_scheme \<Rightarrow> (sysres \<times> 'z kernel_scheme) option" where
  "sys_env_set_trapframe envid tf k =
    with_env envid True k (\<lambda>e.
      let k = upd_env e (\<lambda>v. v\<lparr>env_tf := (env_tf v)\<lparr>tf_ds := GD_UD OR 3, tf_es := GD_UD OR 3,
                tf_ss := GD_UD OR 3, tf_cs := GD_UT OR 3,
                tf_eflags := (tf_eflags (env_tf v) AND NOT FL_IOPL_MASK) OR FL_IF\<rparr>\<rparr>) k
      in do {
        frame \<leftarrow> read_trapframe k tf;
        Some (Inr 0, upd_env e (\<lambda>v. v\<lparr>env_tf := frame\<rparr>) k)
      })"

section \<open>Memory\<close>

definition sys_page_alloc :: "envid \<Rightarrow> u32 \<Rightarrow> u32 \<Rightarrow> 'z kernel_scheme \<Rightarrow> (sysres \<times> 'z kernel_scheme) option" where
  "sys_page_alloc envid va perm k =
    (if va \<ge> UTOP \<or> page_offset_bad va then Some (Inl E_INVAL, k)
     else if perm_invalid perm then Some (Inl E_INVAL, k)
     else with_env envid True k (\<lambda>e. do {
       (pinfo, k) \<leftarrow> page_alloc ALLOC_ZERO k;
       pgdir \<leftarrow> env_pgdir (envs k e);
       (r, k) \<leftarrow> page_insert pgdir pinfo va perm k;
       case r of
         Inl err \<Rightarrow> Some (Inl err, k)
       | Inr _ \<Rightarrow> Some (Inr 0, k)
     }))"

definition sys_page_map ::
  "envid \<Rightarrow> u32 \<Rightarrow> envid \<Rightarrow> u32 \<Rightarrow> u32 \<Rightarrow> 'z kernel_scheme \<Rightarrow> (sysres \<times> 'z kernel_scheme) option" where
  "sys_page_map src_envid src_pg dst_envid dst_pg perm k =
    (if src_pg \<ge> UTOP \<or> dst_pg \<ge> UTOP \<or> page_offset_bad src_pg \<or> page_offset_bad dst_pg
     then Some (Inl E_INVAL, k)
     else if perm_invalid perm then Some (Inl E_INVAL, k)
     else with_env src_envid True k (\<lambda>src_e. with_env dst_envid True k (\<lambda>dst_e. do {
       src_pgdir \<leftarrow> env_pgdir (envs k src_e);
       found \<leftarrow> page_lookup src_pgdir src_pg k;
       case found of
         None \<Rightarrow> Some (Inl E_INVAL, k)
       | Some (pginfo, src_pte) \<Rightarrow>
           if perm AND PTE_W \<noteq> 0 \<and> get_pte k src_pte AND PTE_W = 0 then Some (Inl E_INVAL, k)
           else do {
             dst_pgdir \<leftarrow> env_pgdir (envs k dst_e);
             (r, k) \<leftarrow> page_insert dst_pgdir (Some pginfo) dst_pg perm k;
             case r of
               Inl err \<Rightarrow> Some (Inl err, k)
             | Inr _ \<Rightarrow> Some (Inr 0, k)
           }
     })))"

definition sys_page_unmap :: "envid \<Rightarrow> u32 \<Rightarrow> 'z kernel_scheme \<Rightarrow> (sysres \<times> 'z kernel_scheme) option" where
  "sys_page_unmap envid va k =
    (if va \<ge> UTOP \<or> page_offset_bad va then Some (Inl E_INVAL, k)
     else with_env envid True k (\<lambda>e. do {
       pgdir \<leftarrow> env_pgdir (envs k e);
       k \<leftarrow> page_remove pgdir va k;
       Some (Inr 0, k)
     }))"

section \<open>IPC\<close>

definition sys_ipc_recv :: "u32 \<Rightarrow> 'z kernel_scheme \<Rightarrow> (sysres, 'z kernel_scheme) run" where
  "sys_ipc_recv dstva k =
    (if dstva < UTOP \<and> page_offset_bad dstva then Returns (Inl E_INVAL) k
     else (case curenv k of
         None \<Rightarrow> Panics
       | Some c \<Rightarrow>
           sched_yield (upd_env c (\<lambda>v. v\<lparr>env_status := ENV_NOT_RUNNABLE, env_ipc_dstva := dstva,
             env_ipc_value := 0, env_ipc_perm := 0, env_ipc_from := 0, env_ipc_recving := True,
             env_tf := (env_tf v)\<lparr>tf_regs := (tf_regs (env_tf v))\<lparr>reg_eax := 0\<rparr>\<rparr>\<rparr>) k)))"

text \<open>The end of a successful send, with the permission recorded for the receiver.\<close>

definition ipc_deliver :: "nat \<Rightarrow> u32 \<Rightarrow> u32 \<Rightarrow> nat \<Rightarrow> 'z kernel_scheme \<Rightarrow> 'z kernel_scheme" where
  "ipc_deliver e value perm c k =
    upd_env e (\<lambda>v. v\<lparr>env_ipc_perm := perm, env_ipc_value := value,
      env_ipc_from := env_id (envs k c), env_ipc_recving := False, env_status := ENV_RUNNABLE\<rparr>) k"

definition sys_ipc_try_send ::
  "envid \<Rightarrow> u32 \<Rightarrow> u32 \<Rightarrow> u32 \<Rightarrow> 'z kernel_scheme \<Rightarrow> (sysres \<times> 'z kernel_scheme) option" where
  "sys_ipc_try_send envid value srcva perm k =
    with_env envid False k (\<lambda>e.
      if \<not> env_ipc_recving (envs k e) then Some (Inl E_IPC_NOT_RECV, k)
      else if srcva < UTOP then
        if page_offset_bad srcva then Some (Inl E_INVAL, k)
        else if perm_invalid perm then Some (Inl E_INVAL, k)
        else do {
          c \<leftarrow> curenv k;
          src_pgdir \<leftarrow> env_pgdir (envs k c);
          found \<leftarrow> page_lookup src_pgdir srcva k;
          case found of
            None \<Rightarrow> Some (Inl E_INVAL, k)
          | Some (pinfo, pte) \<Rightarrow>
              if perm AND PTE_W \<noteq> 0 \<and> get_pte k pte AND PTE_W = 0 then Some (Inl E_INVAL, k)
              else do {
                pgdir \<leftarrow> env_pgdir (envs k e);
                (r, k) \<leftarrow> page_insert pgdir (Some pinfo) (env_ipc_dstva (envs k e)) perm k;
                case r of
                  Inl err \<Rightarrow> Some (Inl err, k)
                | Inr _ \<Rightarrow> Some (Inr 1, ipc_deliver e value perm c k)
              }
        }
      else do { c \<leftarrow> curenv k; Some (Inr 0, ipc_deliver e value 0 c k) })"

section \<open>Time\<close>

definition time_init :: "'z kernel_scheme \<Rightarrow> 'z kernel_scheme" where
  "time_init k = k\<lparr>ticks := 0\<rparr>"

definition time_tick :: "'z kernel_scheme \<Rightarrow> 'z kernel_scheme option" where
  "time_tick k =
    (let k = k\<lparr>ticks := ticks k + 1\<rparr> in if ticks k * 10 < ticks k then None else Some k)"

definition time_msec :: "'z kernel_scheme \<Rightarrow> u32" where
  "time_msec k = ticks k * 10"

definition sys_time_msec :: "'z kernel_scheme \<Rightarrow> (sysres \<times> 'z kernel_scheme) option" where
  "sys_time_msec k = Some (Inr (time_msec k), k)"

end
