(* ===== verification/Syscall_Props.thy ===== *)
theory Syscall_Props
  imports Syscalls
begin

text \<open>
  What the system calls guarantee: environment ids are checked, the memory calls keep the kernel
  invariant and change exactly the mapping they name, IPC delivers one message per receive; and the
  calls whose checks fall short of their comments.
\<close>

section \<open>Environment ids\<close>

text \<open>
  A non-zero id is resolved to an environment exactly when the environment in the slot the
  id encodes is live, has this very id and, if permission is checked, is the caller or a child of
  the caller; any other id, in particular one of a previous occupant of the slot, is refused.
\<close>

theorem envid2env_exact:
  assumes "kinv k held ps fs" "curenv k = Some c" "envid \<noteq> 0"
  shows "envid2env envid checkperm k =
    (if \<exists>e. live k e \<and> env_id (envs k e) = envid \<and>
            (checkperm \<longrightarrow> e = c \<or> env_parent_id (envs k e) = env_id (envs k c))
     then Some (Inr (Some (ENVX envid))) else Some (Inl E_BAD_ENV))"
proof -
  let ?e = "ENVX envid"
  have lt: "?e < NENV"
  proof -
    have "envid AND 1023 \<le> 1023" by (rule word_and_le1)
    then show ?thesis by (simp add: ENVX_def NENV_def word_le_nat_alt)
  qed
  have id: "e = ?e" if "live k e" "env_id (envs k e) = envid" for e
    using that assms(1,3) unfolding kinv_def env_table_def live_def by metis
  have lv: "env_status (envs k ?e) = ENV_FREE \<longleftrightarrow> \<not> live k ?e" using lt by (simp add: live_def)
  show ?thesis
  proof (cases "live k ?e \<and> env_id (envs k ?e) = envid")
    case False
    then have "\<not> (\<exists>e. live k e \<and> env_id (envs k e) = envid \<and>
        (checkperm \<longrightarrow> e = c \<or> env_parent_id (envs k e) = env_id (envs k c)))" using id by metis
    with False assms(3) show ?thesis by (auto simp: envid2env_def Let_def lv)
  next
    case True
    then have "(\<exists>e. live k e \<and> env_id (envs k e) = envid \<and>
        (checkperm \<longrightarrow> e = c \<or> env_parent_id (envs k e) = env_id (envs k c))) \<longleftrightarrow>
      (checkperm \<longrightarrow> ?e = c \<or> env_parent_id (envs k ?e) = env_id (envs k c))" using id by metis
    with True assms(2,3) show ?thesis by (auto simp: envid2env_def Let_def lv)
  qed
qed

section \<open>Memory calls keep the invariant\<close>

lemma same_envs_dirs: "same_envs k k' \<Longrightarrow> dirs k' = dirs k"
  by (simp add: same_envs_def dirs_def live_def)

lemma same_envs_table: "same_envs k k' \<Longrightarrow> env_table k' fs \<longleftrightarrow> env_table k fs"
  by (simp add: same_envs_def env_table_def live_def)

lemma kinv_mem:
  assumes "kinv k held ps fs" "same_envs k k'" "npages k' = npages k" "vm_inv k' (dirs k) held' ps'"
    and "snaps_ok k' ps'"
  shows "kinv k' held' ps' fs"
  using assms unfolding kinv_def by (simp add: same_envs_dirs same_envs_table)

lemma vm_alloc_page:
  assumes v: "vm_inv s D held (p # ps)"
  shows "vm_inv (alloc_result fl p s) D held ps"
    and "\<And>d va. d \<in> D \<Longrightarrow> va < UTOP \<Longrightarrow> user_pte (alloc_result fl p s) d va = user_pte s d va"
    and "\<And>d i. d \<in> D \<Longrightarrow> phys (alloc_result fl p s) d i = phys s d i"
    and "\<And>q. is_table (alloc_result fl p s) D q \<longleftrightarrow> is_table s D q"
proof -
  let ?s = "alloc_result fl p s"
  have unr: "site_target s x \<noteq> Some p" if "x \<in> all_sites D" for x
    using vm_free_unreferenced [OF v _ that, of p] by simp
  have dp: "d \<noteq> p" if "d \<in> D" for d using unr [of "Dir d"] that by auto
  have pde: "entry_target (phys s d i) \<noteq> Some p" if "d \<in> D" "i < NUPDE" for d i
    using unr [of "Pde d i"] that by simp
  have ph: "phys ?s f = phys s f" if "f \<noteq> p" for f using that by simp
  show d: "\<And>d i. d \<in> D \<Longrightarrow> phys ?s d i = phys s d i" using ph dp by simp
  have tp: "phys ?s t = phys s t" if "entry_target (phys s d i) = Some t" "d \<in> D" "i < NUPDE" for d i t
    using pde [OF that(2,3)] that(1) ph by (metis option.inject)
  have st: "site_target ?s x = site_target s x" if x: "x \<in> all_sites D" for x
  proof (cases x)
    case (Pte d' i j)
    with x have d': "d' \<in> D" "i < NUPDE" by auto
    show ?thesis
      by (cases "entry_target (phys s d' i)")
        (simp_all add: Pte d [OF d'(1)] tp [OF _ d'] del: entry_target_Some entry_target_None alloc_result_fields(3))
  qed (use x d in auto)
  have rf: "refs ?s D q = refs s D q" for q by (rule refs_cong) (rule st)
  show "vm_inv ?s D held ps"
  proof (rule vm_invI)
    show "avail ?s ps" by (rule alloc_result_avail [OF vm_avail [OF v]])
    show "unat (pref ?s q) = refs ?s D q + held q" if "q < npages ?s" for q
      using vm_count [OF v, of q] that rf by simp
  qed (use st vm_structural [OF v] vm_target_lt [OF v] vm_finite [OF v] in auto)
  show "user_pte ?s d' va = user_pte s d' va" if "d' \<in> D" "va < UTOP" for d' va
    unfolding user_pte_def
    by (cases "entry_target (phys s d' (pdx va))")
      (simp_all add: d [OF that(1)] tp [OF _ that(1) pdx_user [OF that(2)]]
        del: entry_target_Some entry_target_None alloc_result_fields(3))
  show "is_table ?s D q \<longleftrightarrow> is_table s D q" for q
    unfolding is_table_def using d by auto
qed

lemma perm_ok_mask: "\<not> perm_invalid perm \<Longrightarrow> perm AND NOT 0xFFF = 0"
proof -
  assume "\<not> perm_invalid perm"
  then have z: "perm AND NOT PTE_SYSCALL = 0" by (simp add: perm_invalid_def)
  have "NOT (0xFFF :: u32) = NOT PTE_SYSCALL AND NOT 0xFFF" by (simp add: kdefs)
  then have "perm AND NOT 0xFFF = (perm AND NOT PTE_SYSCALL) AND NOT 0xFFF" by (metis and.assoc)
  with z show ?thesis by simp
qed

lemma live_pgdir: "live k e \<Longrightarrow> env_pgdir (envs k e) = Some d \<Longrightarrow> d \<in> dirs k"
  by (auto simp: dirs_def)

lemma snaps_ok_but:
  assumes "snaps_ok k ps" "snapshots k' = snapshots k" "npages k' = npages k" "idle_but p k ps k' ps'"
    and "\<forall>i<NSNAPSHOTS. p \<notin> set (snap_pages k i)"
  shows "snaps_ok k' ps'"
proof -
  have sp: "snap_pages k' i = snap_pages k i" for i using assms(2) by (simp add: snap_pages_def)
  have "q < npages k' \<and> pref k' q = 0 \<and> q \<notin> set ps'" if "i < NSNAPSHOTS" "q \<in> set (snap_pages k i)" for i q
  proof -
    have "q < npages k" "pref k q = 0" "q \<notin> set ps" "q \<noteq> p" using assms(1,5) that by (auto simp: snaps_ok_def)
    then show ?thesis using assms(3,4) unfolding idle_but_def by simp
  qed
  then show ?thesis using assms(1) unfolding snaps_ok_def sp by blast
qed

text \<open>
  \<open>page_insert\<close> of a page that no snapshot holds, in terms of the kernel invariant.
\<close>

lemma kinv_insert:
  assumes k: "kinv k held ps fs" and d: "d \<in> dirs k" "va < UTOP"
    and p: "p < npages k" "\<not> is_table k (dirs k) p" "p \<notin> set ps" "unat (pref k p) < 65535"
    and perm: "perm AND NOT 0xFFF = 0" and mem: "ps \<noteq> [] \<or> present (phys k d (pdx va))"
    and sn: "\<forall>i<NSNAPSHOTS. p \<notin> set (snap_pages k i)"
  shows "\<exists>k' ps'. page_insert d (Some p) va perm k = Some (Inr (), k') \<and> kinv k' held ps' fs \<and>
    same_envs k k' \<and> dirs k' = dirs k \<and> npages k' = npages k \<and> set (tl ps) \<subseteq> set ps' \<and>
    (present (phys k d (pdx va)) \<longrightarrow> set ps \<subseteq> set ps') \<and> (\<forall>q. unat (pref k' q) \<le> Suc (unat (pref k q))) \<and>
    (\<forall>f. \<not> is_table k (dirs k) f \<longrightarrow> f \<notin> set ps \<longrightarrow> phys k' f = phys k f) \<and>
    (\<forall>d'\<in>dirs k. \<forall>va'<UTOP. user_pte k' d' va' =
       (if d' = d \<and> same_page va' va then Some (page2pa p OR perm OR PTE_P) else user_pte k d' va'))"
proof -
  note kv = k [unfolded kinv_def, THEN conjunct1] and ks = k [unfolded kinv_def, THEN conjunct2, THEN conjunct2]
  obtain k' ps' where k': "page_insert d (Some p) va perm k = Some (Inr (), k')"
    "vm_inv k' (dirs k) held ps'" "npages k' = npages k" "idle_but p k ps k' ps'" "set (tl ps) \<subseteq> set ps'"
    "present (phys k d (pdx va)) \<longrightarrow> set ps \<subseteq> set ps'" "\<forall>q. unat (pref k' q) \<le> Suc (unat (pref k q))"
    "\<forall>f. \<not> is_table k (dirs k) f \<longrightarrow> f \<notin> set ps \<longrightarrow> phys k' f = phys k f"
    "\<forall>d'\<in>dirs k. \<forall>va'<UTOP. user_pte k' d' va' =
       (if d' = d \<and> same_page va' va then Some (page2pa p OR perm OR PTE_P) else user_pte k d' va')"
    using page_insert_ok [OF kv d p perm mem] by blast
  note se = same_envs_insert [OF k'(1)]
  have "snaps_ok k' ps'" using snaps_ok_but [OF ks _ k'(3,4) sn] se by (simp add: same_envs_def)
  then have "kinv k' held ps' fs" using kinv_mem [OF k se k'(3,2)] by blast
  with k' se same_envs_dirs [OF se] show ?thesis by blast
qed

lemma page_alloc_runs:
  assumes inv: "kinv k held (p # q # ps) fs"
    and e: "envid2env envid True k = Some (Inr (Some e))" "live k e" "env_pgdir (envs k e) = Some d"
    and va: "va < UTOP" "\<not> page_offset_bad va" "\<not> perm_invalid perm"
  shows "\<exists>k' ps'. sys_page_alloc envid va perm k = Some (Inr 0, k') \<and> kinv k' held ps' fs \<and>
    same_envs k k' \<and> phys k' p = (\<lambda>_. 0) \<and> npages k' = npages k \<and> set ps \<subseteq> set ps' \<and>
    (present (phys k d (pdx va)) \<longrightarrow> set (q # ps) \<subseteq> set ps') \<and>
    (\<forall>x. unat (pref k' x) \<le> Suc (unat (pref k x))) \<and>
    (\<forall>f. \<not> is_table k (dirs k) f \<longrightarrow> f \<notin> set (p # q # ps) \<longrightarrow> phys k' f = phys k f) \<and>
    (\<forall>d'\<in>dirs k. \<forall>va'<UTOP. user_pte k' d' va' =
       (if d' = d \<and> same_page va' va then Some (page2pa p OR perm OR PTE_P) else user_pte k d' va'))"
proof -
  note kv = inv [unfolded kinv_def, THEN conjunct1] and ks = inv [unfolded kinv_def, THEN conjunct2, THEN conjunct2]
  have d: "d \<in> dirs k" by (rule live_pgdir [OF e(2,3)])
  let ?k1 = "alloc_result ALLOC_ZERO p k"
  have al: "page_alloc ALLOC_ZERO k = Some (Some p, ?k1)" by (rule page_alloc_Cons [OF vm_avail [OF kv]])
  note a1 = vm_alloc_page [OF kv, where fl = ALLOC_ZERO]
  note se = same_envs_page_alloc [OF al]
  have D: "dirs ?k1 = dirs k" by (rule same_envs_dirs [OF se])
  have p: "p < npages k" "pref k p = 0" "p \<notin> set (q # ps)"
    using vm_avail [OF kv] avail_distinct [OF vm_avail [OF kv]] by (auto simp: avail_def)
  have nt: "\<not> is_table k (dirs k) p" using vm_free_not_table [OF kv] by simp
  have snp: "\<forall>i<NSNAPSHOTS. p \<notin> set (snap_pages k i)" using ks by (auto simp: snaps_ok_def)
  have "idle_kept k (p # q # ps) ?k1 (q # ps)" by (simp add: idle_kept_def)
  then have sn1: "snaps_ok ?k1 (q # ps)"
    using snaps_ok_mono [OF ks, of ?k1] se by (simp add: same_envs_def)
  have k1: "kinv ?k1 held (q # ps) fs" by (rule kinv_mem [OF inv se _ a1(1) sn1]) simp
  have "\<exists>k' ps'. page_insert d (Some p) va perm ?k1 = Some (Inr (), k') \<and> kinv k' held ps' fs \<and>
    same_envs ?k1 k' \<and> dirs k' = dirs ?k1 \<and> npages k' = npages ?k1 \<and> set (tl (q # ps)) \<subseteq> set ps' \<and>
    (present (phys ?k1 d (pdx va)) \<longrightarrow> set (q # ps) \<subseteq> set ps') \<and> (\<forall>x. unat (pref k' x) \<le> Suc (unat (pref ?k1 x))) \<and>
    (\<forall>f. \<not> is_table ?k1 (dirs ?k1) f \<longrightarrow> f \<notin> set (q # ps) \<longrightarrow> phys k' f = phys ?k1 f) \<and>
    (\<forall>d'\<in>dirs ?k1. \<forall>va'<UTOP. user_pte k' d' va' =
       (if d' = d \<and> same_page va' va then Some (page2pa p OR perm OR PTE_P) else user_pte ?k1 d' va'))"
  proof (rule kinv_insert [OF k1])
    show "\<forall>i<NSNAPSHOTS. p \<notin> set (snap_pages ?k1 i)"
      using snp se by (simp add: snap_pages_def same_envs_def)
    show "\<not> is_table ?k1 (dirs ?k1) p" unfolding D a1(4) by (rule nt)
  qed (use d va p perm_ok_mask D in auto)
  then obtain k' ps' where k': "page_insert d (Some p) va perm ?k1 = Some (Inr (), k')" "kinv k' held ps' fs"
    "same_envs ?k1 k'" "npages k' = npages ?k1" "set ps \<subseteq> set ps'"
    "present (phys ?k1 d (pdx va)) \<longrightarrow> set (q # ps) \<subseteq> set ps'" "\<forall>x. unat (pref k' x) \<le> Suc (unat (pref ?k1 x))"
    "\<forall>f. \<not> is_table ?k1 (dirs ?k1) f \<longrightarrow> f \<notin> set (q # ps) \<longrightarrow> phys k' f = phys ?k1 f"
    "\<forall>d'\<in>dirs ?k1. \<forall>va'<UTOP. user_pte k' d' va' =
       (if d' = d \<and> same_page va' va then Some (page2pa p OR perm OR PTE_P) else user_pte ?k1 d' va')"
    by (simp only: list.sel) blast
  have en: "envs ?k1 = envs k" using se by (simp add: same_envs_def)
  have "sys_page_alloc envid va perm k = Some (Inr 0, k')"
    using va e al k'(1) en by (simp add: sys_page_alloc_def with_env_def not_le)
  moreover have "phys k' p = (\<lambda>_. 0)"
    using k'(8) nt p(3) unfolding D a1(4) by (simp add: ALLOC_ZERO_def)
  moreover have "\<forall>f. \<not> is_table k (dirs k) f \<longrightarrow> f \<notin> set (p # q # ps) \<longrightarrow> phys k' f = phys k f"
    using k'(8) unfolding D a1(4) by simp
  moreover have "present (phys k d (pdx va)) \<longrightarrow> set (q # ps) \<subseteq> set ps'" using k'(6) a1(3) [OF d] by simp
  moreover have "\<forall>x. unat (pref k' x) \<le> Suc (unat (pref k x))" using k'(7) by simp
  moreover have "same_envs k k'" by (rule same_envs_trans [OF se k'(3)])
  moreover have "npages k' = npages k" using k'(4) by simp
  moreover have "\<forall>d'\<in>dirs k. \<forall>va'<UTOP. user_pte k' d' va' =
       (if d' = d \<and> same_page va' va then Some (page2pa p OR perm OR PTE_P) else user_pte k d' va')"
    using k'(9) a1(2) unfolding D by simp
  ultimately show ?thesis using k'(2,5) by blast
qed

text \<open>
  C4: for an environment the caller may access, a page-aligned user address, permissions within
  \<open>PTE_SYSCALL\<close> and two free pages, \<open>sys_page_alloc\<close> returns 0 and maps a fresh zeroed page
  at exactly this address; every other mapping of every environment stays as it was, no environment
  changes, and the kernel invariant is kept.
\<close>

theorem sys_page_alloc_maps_zero_page:
  assumes inv: "kinv k held (p # q # ps) fs"
    and e: "envid2env envid True k = Some (Inr (Some e))" "live k e" "env_pgdir (envs k e) = Some d"
    and va: "va < UTOP" "\<not> page_offset_bad va" "\<not> perm_invalid perm"
  shows "\<exists>k' ps'. sys_page_alloc envid va perm k = Some (Inr 0, k') \<and> kinv k' held ps' fs \<and>
    envs k' = envs k \<and> phys k' p = (\<lambda>_. 0) \<and>
    (\<forall>d'\<in>dirs k. \<forall>va'<UTOP. user_pte k' d' va' =
       (if d' = d \<and> same_page va' va then Some (page2pa p OR perm OR PTE_P) else user_pte k d' va'))"
  using page_alloc_runs [OF assms] unfolding same_envs_def by blast

text \<open>
  \<open>sys_page_alloc\<close> does not check that a page was allocated: with no free page and the page
  table already present it increments a NULL page's reference count, a kernel panic, where its
  comment promises \<open>E_NO_MEM\<close>.
\<close>

theorem sys_page_alloc_out_of_memory_panics:
  assumes inv: "kinv k held [] fs"
    and e: "envid2env envid True k = Some (Inr (Some e))" "live k e" "env_pgdir (envs k e) = Some d"
    and va: "va < UTOP" "\<not> page_offset_bad va" "\<not> perm_invalid perm"
    and pde: "present (phys k d (pdx va))"
  shows "sys_page_alloc envid va perm k = None"
proof -
  note kv = inv [unfolded kinv_def, THEN conjunct1]
  have d: "d \<in> dirs k" by (rule live_pgdir [OF e(2,3)])
  have al: "page_alloc ALLOC_ZERO k = Some (None, k)" by (rule page_alloc_Nil [OF vm_avail [OF kv]])
  obtain t where t: "entry_target (phys k d (pdx va)) = Some t" using pde by simp
  have "pgdir_walk d va True k = Some (Some (t, ptx va), k)" by (rule walk_present [OF kv d va(1) t])
  then have "page_insert d None va perm k = None" by (simp add: page_insert_def)
  with va e al show ?thesis by (simp add: sys_page_alloc_def with_env_def not_le)
qed

text \<open>
  With the last free page needed for the page, \<open>sys_page_alloc\<close> reports \<open>E_NO_MEM\<close> for the
  page table but loses the page: it is neither free nor referenced any more.
\<close>

theorem sys_page_alloc_leaks_page:
  assumes inv: "kinv k held [p] fs"
    and e: "envid2env envid True k = Some (Inr (Some e))" "live k e" "env_pgdir (envs k e) = Some d"
    and va: "va < UTOP" "\<not> page_offset_bad va" "\<not> perm_invalid perm"
    and pde: "\<not> present (phys k d (pdx va))"
  shows "\<exists>k'. sys_page_alloc envid va perm k = Some (Inl E_NO_MEM, k') \<and> vm_inv k' (dirs k) held [] \<and>
    pref k' p = 0 \<and> refs k' (dirs k) p = 0"
proof -
  note kv = inv [unfolded kinv_def, THEN conjunct1]
  have d: "d \<in> dirs k" by (rule live_pgdir [OF e(2,3)])
  let ?k1 = "alloc_result ALLOC_ZERO p k"
  have al: "page_alloc ALLOC_ZERO k = Some (Some p, ?k1)" by (rule page_alloc_Cons [OF vm_avail [OF kv]])
  note a1 = vm_alloc_page [OF kv, where fl = ALLOC_ZERO]
  have "\<not> present (phys ?k1 d (pdx va))" using a1(3) [OF d] pde by simp
  from page_insert_no_memory [OF a1(1) this] have
    "page_insert d (Some p) va perm ?k1 = Some (Inl E_NO_MEM, ?k1)" .
  moreover have "envs ?k1 = envs k" using same_envs_page_alloc [OF al] by (simp add: same_envs_def)
  ultimately have "sys_page_alloc envid va perm k = Some (Inl E_NO_MEM, ?k1)"
    using va e al by (simp add: sys_page_alloc_def with_env_def not_le)
  moreover have p: "pref ?k1 p = 0" "p < npages ?k1" using vm_avail [OF kv] by (auto simp: avail_def)
  moreover have "refs ?k1 (dirs k) p = 0" using vm_count [OF a1(1) p(2)] p(1) by simp
  ultimately show ?thesis using a1(1) by blast
qed

lemma page_map_runs:
  assumes inv: "kinv k held ps fs"
    and src: "envid2env srcid True k = Some (Inr (Some e1))" "live k e1" "env_pgdir (envs k e1) = Some d1"
    and dst: "envid2env dstid True k = Some (Inr (Some e2))" "live k e2" "env_pgdir (envs k e2) = Some d2"
    and va: "srcva < UTOP" "dstva < UTOP" "\<not> page_offset_bad srcva" "\<not> page_offset_bad dstva"
      "\<not> perm_invalid perm"
    and m: "user_pte k d1 srcva = Some pte" "perm AND PTE_W \<noteq> 0 \<longrightarrow> pte AND PTE_W \<noteq> 0"
    and mem: "ps \<noteq> [] \<or> present (phys k d2 (pdx dstva))" "unat (pref k (ppn_of pte)) < 65535"
  shows "\<exists>k' ps'. sys_page_map srcid srcva dstid dstva perm k = Some (Inr 0, k') \<and> kinv k' held ps' fs \<and>
    same_envs k k' \<and> npages k' = npages k \<and> set (tl ps) \<subseteq> set ps' \<and>
    (present (phys k d2 (pdx dstva)) \<longrightarrow> set ps \<subseteq> set ps') \<and> (\<forall>q. unat (pref k' q) \<le> Suc (unat (pref k q))) \<and>
    (\<forall>f. \<not> is_table k (dirs k) f \<longrightarrow> f \<notin> set ps \<longrightarrow> phys k' f = phys k f) \<and>
    (\<forall>d'\<in>dirs k. \<forall>va'<UTOP. user_pte k' d' va' =
       (if d' = d2 \<and> same_page va' dstva then Some (page2pa (ppn_of pte) OR perm OR PTE_P)
        else user_pte k d' va'))"
proof -
  note kv = inv [unfolded kinv_def, THEN conjunct1] and ks = inv [unfolded kinv_def, THEN conjunct2, THEN conjunct2]
  have d: "d1 \<in> dirs k" "d2 \<in> dirs k" using live_pgdir src dst by blast+
  note x = pte_site [OF d(1) va(1)] user_pte_site [OF m(1)]
  have lk: "page_lookup d1 srcva k = Some (Some (ppn_of pte, (ppn_of (phys k d1 (pdx srcva)), ptx srcva)))"
    using page_lookup_user [OF kv d(1) va(1)] m(1) by simp
  have gp: "get_pte k (ppn_of (phys k d1 (pdx srcva)), ptx srcva) = pte"
    using m(1) by (auto simp: user_pte_def get_pte_def entry_target_def split: if_splits option.splits)
  have p: "ppn_of pte < npages k" "\<not> is_table k (dirs k) (ppn_of pte)" "ppn_of pte \<notin> set ps"
    using vm_target_lt [OF kv x] vm_mapped_not_table [OF kv x] vm_free_unreferenced [OF kv _ x(1)] x(2) by auto
  have "0 < refs k (dirs k) (ppn_of pte)" using refs_pos [OF vm_finite [OF kv] x] .
  then have "pref k (ppn_of pte) \<noteq> 0" using vm_count [OF kv p(1)] by auto
  then have sn: "\<forall>i<NSNAPSHOTS. ppn_of pte \<notin> set (snap_pages k i)" using ks by (auto simp: snaps_ok_def)
  obtain k' ps' where k': "page_insert d2 (Some (ppn_of pte)) dstva perm k = Some (Inr (), k')"
    "kinv k' held ps' fs" "same_envs k k'" "npages k' = npages k"
    "set (tl ps) \<subseteq> set ps'" "present (phys k d2 (pdx dstva)) \<longrightarrow> set ps \<subseteq> set ps'"
    "\<forall>q. unat (pref k' q) \<le> Suc (unat (pref k q))"
    "\<forall>f. \<not> is_table k (dirs k) f \<longrightarrow> f \<notin> set ps \<longrightarrow> phys k' f = phys k f" "\<forall>d'\<in>dirs k. \<forall>va'<UTOP. user_pte k' d' va' =
       (if d' = d2 \<and> same_page va' dstva then Some (page2pa (ppn_of pte) OR perm OR PTE_P)
        else user_pte k d' va')"
    using kinv_insert [OF inv d(2) va(2) p mem(2) perm_ok_mask [OF va(5)] mem(1) sn] by blast
  have "sys_page_map srcid srcva dstid dstva perm k = Some (Inr 0, k')"
    using va src dst m(2) lk gp k'(1)
    by (cases "perm AND PTE_W = 0") (simp_all add: sys_page_map_def with_env_def not_le)
  with k' show ?thesis by blast
qed

text \<open>The calls of \<open>sys_page_map\<close> that are allowed, for a source in the address space \<open>d1\<close>.\<close>

definition can_map :: "nat \<Rightarrow> u32 \<Rightarrow> u32 \<Rightarrow> u32 \<Rightarrow> 'z kernel_scheme \<Rightarrow> bool" where
  "can_map d1 srcva dstva perm k \<longleftrightarrow> srcva < UTOP \<and> dstva < UTOP \<and> \<not> page_offset_bad srcva \<and> \<not> page_offset_bad dstva \<and>
     \<not> perm_invalid perm \<and>
     (case user_pte k d1 srcva of None \<Rightarrow> False | Some pte \<Rightarrow> perm AND PTE_W \<noteq> 0 \<longrightarrow> pte AND PTE_W \<noteq> 0)"

lemma page_map_refused:
  assumes inv: "kinv k held ps fs"
    and src: "envid2env srcid True k = Some (Inr (Some e1))" "live k e1" "env_pgdir (envs k e1) = Some d1"
    and dst: "envid2env dstid True k = Some (Inr (Some e2))"
    and no: "\<not> can_map d1 srcva dstva perm k"
  shows "sys_page_map srcid srcva dstid dstva perm k = Some (Inl E_INVAL, k)"
proof (cases "srcva < UTOP \<and> dstva < UTOP \<and> \<not> page_offset_bad srcva \<and> \<not> page_offset_bad dstva \<and> \<not> perm_invalid perm")
  case True
  note lk = page_lookup_user [OF inv [unfolded kinv_def, THEN conjunct1] live_pgdir [OF src(2,3)] conjunct1 [OF True]]
  show ?thesis
  proof (cases "user_pte k d1 srcva")
    case None
    then show ?thesis using True src dst lk by (simp add: sys_page_map_def with_env_def not_le)
  next
    case (Some pte)
    then have "get_pte k (ppn_of (phys k d1 (pdx srcva)), ptx srcva) = pte"
      by (auto simp: user_pte_def get_pte_def entry_target_def split: if_splits option.splits)
    then show ?thesis using True Some no src dst lk by (simp add: sys_page_map_def with_env_def not_le can_map_def)
  qed
next
  case False
  then show ?thesis by (auto simp: sys_page_map_def not_le)
qed

text \<open>
  C3: between two environments that the caller may access, \<open>sys_page_map\<close> returns 0 exactly when both addresses are
  page-aligned user addresses, the permissions are those that system calls allow, the source address is mapped, and write permission
  is not asked for unless the source mapping has it. The destination then maps the same page with the requested
  permissions, nothing else changes and the kernel invariant is kept. Otherwise it returns \<open>E_INVAL\<close> and changes nothing at all. It is
  assumed that the destination has a page table for the address or a page is free for one, and that the page's 16-bit
  reference count is not at its maximum.
\<close>

theorem sys_page_map_shares:
  assumes inv: "kinv k held ps fs"
    and src: "envid2env srcid True k = Some (Inr (Some e1))" "live k e1" "env_pgdir (envs k e1) = Some d1"
    and dst: "envid2env dstid True k = Some (Inr (Some e2))" "live k e2" "env_pgdir (envs k e2) = Some d2"
    and mem: "ps \<noteq> [] \<or> present (phys k d2 (pdx dstva))" "\<forall>pte. user_pte k d1 srcva = Some pte \<longrightarrow> unat (pref k (ppn_of pte)) < 65535"
  shows "if can_map d1 srcva dstva perm k
    then \<exists>k' ps' pte. sys_page_map srcid srcva dstid dstva perm k = Some (Inr 0, k') \<and> kinv k' held ps' fs \<and>
      envs k' = envs k \<and> user_pte k d1 srcva = Some pte \<and>
      (\<forall>d'\<in>dirs k. \<forall>va'<UTOP. user_pte k' d' va' =
         (if d' = d2 \<and> same_page va' dstva then Some (page2pa (ppn_of pte) OR perm OR PTE_P)
          else user_pte k d' va'))
    else sys_page_map srcid srcva dstid dstva perm k = Some (Inl E_INVAL, k)"
proof (cases "can_map d1 srcva dstva perm k")
  case True
  then obtain pte where m: "user_pte k d1 srcva = Some pte" "perm AND PTE_W \<noteq> 0 \<longrightarrow> pte AND PTE_W \<noteq> 0"
    and va: "srcva < UTOP" "dstva < UTOP" "\<not> page_offset_bad srcva" "\<not> page_offset_bad dstva" "\<not> perm_invalid perm"
    by (auto simp: can_map_def split: option.splits)
  have "unat (pref k (ppn_of pte)) < 65535" using m(1) mem(2) by blast
  from page_map_runs [OF inv src dst va m mem(1) this] show ?thesis
    unfolding if_P [OF True] same_envs_def using m(1) by blast
qed (simp add: page_map_refused [OF inv src dst(1)])

text \<open>
  C17: a process cannot make a page it can only read writable: whenever \<open>sys_page_map\<close> succeeds
  with write permission, the source mapping was writable.
\<close>

theorem sys_page_map_no_escalation:
  assumes inv: "kinv k held ps fs"
    and src: "envid2env srcid True k = Some (Inr (Some e1))" "live k e1" "env_pgdir (envs k e1) = Some d1"
    and r: "sys_page_map srcid srcva dstid dstva perm k = Some (Inr w, k')"
  shows "\<exists>pte. user_pte k d1 srcva = Some pte \<and> (perm AND PTE_W \<noteq> 0 \<longrightarrow> pte AND PTE_W \<noteq> 0) \<and>
    \<not> perm_invalid perm \<and> dstva < UTOP"
proof -
  note kv = inv [unfolded kinv_def, THEN conjunct1]
  have d: "d1 \<in> dirs k" using live_pgdir src by blast
  have c: "srcva < UTOP" "dstva < UTOP" "\<not> perm_invalid perm"
    using r by (auto simp: sys_page_map_def split: if_splits)
  note lk = page_lookup_user [OF kv d c(1)]
  show ?thesis
  proof (cases "user_pte k d1 srcva")
    case None
    with r c src lk show ?thesis
      by (auto simp: sys_page_map_def with_env_def split: if_splits option.splits sum.splits)
  next
    case (Some pte)
    then have gp: "get_pte k (ppn_of (phys k d1 (pdx srcva)), ptx srcva) = pte"
      by (auto simp: user_pte_def get_pte_def entry_target_def split: if_splits option.splits)
    have "perm AND PTE_W \<noteq> 0 \<longrightarrow> pte AND PTE_W \<noteq> 0"
      using r c src lk Some gp
      by (auto simp: sys_page_map_def with_env_def split: if_splits option.splits sum.splits)
    with c Some show ?thesis by blast
  qed
qed

section \<open>IPC\<close>

lemma ipc_deliver_fields [simp]:
  "envs (ipc_deliver e value perm c k) e' =
     (if e' = e then (envs k e)\<lparr>env_ipc_perm := perm, env_ipc_value := value,
        env_ipc_from := env_id (envs k c), env_ipc_recving := False, env_status := ENV_RUNNABLE\<rparr>
      else envs k e')"
  "phys (ipc_deliver e value perm c k) = phys k"
  by (simp_all add: ipc_deliver_def)

text \<open>
  C18: a message without a page reaches an environment that is waiting: the receiver gets the value
  and the sender's id, becomes runnable and stops receiving, so a second send before the next
  receive is refused with \<open>E_IPC_NOT_RECV\<close> and changes nothing.
\<close>

theorem ipc_send_delivers_once:
  assumes e: "envid2env envid False k = Some (Inr (Some e))" "envid \<noteq> 0" "env_status (envs k e) \<noteq> ENV_FREE"
    and r: "env_ipc_recving (envs k e)" "curenv k = Some c" "UTOP \<le> srcva"
  shows "\<exists>k'. sys_ipc_try_send envid value srcva perm k = Some (Inr 0, k') \<and>
    env_ipc_value (envs k' e) = value \<and> env_ipc_from (envs k' e) = env_id (envs k c) \<and>
    env_ipc_perm (envs k' e) = 0 \<and> env_status (envs k' e) = ENV_RUNNABLE \<and>
    (\<forall>i. i \<noteq> e \<longrightarrow> envs k' i = envs k i) \<and>
    sys_ipc_try_send envid value' srcva' perm' k' = Some (Inl E_IPC_NOT_RECV, k')"
proof -
  let ?k = "ipc_deliver e value 0 c k"
  have x: "e = ENVX envid" "env_id (envs k e) = envid"
    using e(1,2) by (auto simp: envid2env_def Let_def split: if_splits)
  then have "envid2env envid False ?k = Some (Inr (Some e))"
    using e(2) by (simp add: envid2env_def)
  then have "sys_ipc_try_send envid value' srcva' perm' ?k = Some (Inl E_IPC_NOT_RECV, ?k)"
    by (simp add: sys_ipc_try_send_def with_env_def)
  moreover have "sys_ipc_try_send envid value srcva perm k = Some (Inr 0, ?k)"
    using e r(1,2) leD [OF r(3)] by (simp add: sys_ipc_try_send_def with_env_def)
  ultimately show ?thesis by (intro exI [of _ ?k]) simp
qed

theorem ipc_send_delivers_once_witness:
  "\<exists>k'. sys_ipc_try_send 0x1001 42 UTOP 0 demo_kernel = Some (Inr 0, k') \<and>
     env_ipc_value (envs k' 1) = 42 \<and> env_ipc_from (envs k' 1) = 0x1000 \<and>
     sys_ipc_try_send 0x1001 43 UTOP 0 k' = Some (Inl E_IPC_NOT_RECV, k')"
proof -
  have "envid2env 0x1001 False demo_kernel = Some (Inr (Some 1))" by (simp add: envid2env_def ENVX_def)
  from ipc_send_delivers_once [OF this, of 0 UTOP 42 0 43 UTOP 0] show ?thesis by auto
qed

text \<open>
  The comment says that no mapping is transferred when the receiver asks for none, by a
  destination address at or above \<open>UTOP\<close>. The code maps the page there all the same: when the
  receiver's directory has a page table at that address (the kernel's, which every address space
  shares), the send returns 1 and the entry of the shared table points to the sender's page.
\<close>

theorem ipc_send_overwrites_kernel_mapping:
  assumes e: "envid2env envid False k = Some (Inr (Some e))" "env_ipc_recving (envs k e)"
      "env_pgdir (envs k e) = Some d" "UTOP \<le> env_ipc_dstva (envs k e)"
    and t: "present (phys k d (pdx (env_ipc_dstva (envs k e))))"
      "t = ppn_of (phys k d (pdx (env_ipc_dstva (envs k e))))" "t < npages k"
      "\<not> present (phys k t (ptx (env_ipc_dstva (envs k e))))"
    and c: "curenv k = Some c" "env_pgdir (envs k c) = Some dc"
    and src: "srcva < UTOP" "\<not> page_offset_bad srcva" "\<not> perm_invalid perm"
      "page_lookup dc srcva k = Some (Some (p, pte))" "perm AND PTE_W \<noteq> 0 \<longrightarrow> get_pte k pte AND PTE_W \<noteq> 0"
  shows "\<exists>k'. sys_ipc_try_send envid value srcva perm k = Some (Inr 1, k') \<and>
    phys k' t (ptx (env_ipc_dstva (envs k e))) = page2pa p OR perm OR PTE_P \<and>
    env_ipc_perm (envs k' e) = perm"
proof -
  let ?va = "env_ipc_dstva (envs k e)" and ?w = "page2pa p OR perm OR PTE_P"
  let ?k1 = "set_pte (t, ptx ?va) ?w (set_ref p (pref k p + 1) k)"
  have "unat (PGNUM (PTE_ADDR (phys k d (pdx ?va)))) = t" using t(2) by (simp add: ppn_of_def)
  then have w: "pgdir_walk d ?va True k = Some (Some (t, ptx ?va), k)"
    using t(1-3) by (simp add: pgdir_walk_def get_pte_def KADDR_def)
  have ins: "page_insert d (Some p) ?va perm k = Some (Inr (), ?k1)"
    using w t(4) by (simp add: page_insert_def get_pte_def Let_def)
  have "sys_ipc_try_send envid value srcva perm k = Some (Inr 1, ipc_deliver e value perm c ?k1)"
    using e c src ins
    by (cases "perm AND PTE_W = 0") (simp_all add: sys_ipc_try_send_def with_env_def)
  moreover have "phys ?k1 t (ptx ?va) = ?w" by (simp add: set_pte_def)
  ultimately show ?thesis by (intro exI [of _ "ipc_deliver e value perm c ?k1"]) simp
qed

text \<open>The concrete kernel with a kernel page table, in frame 9, at the receiver's \<open>UTOP\<close>.\<close>

definition demo_shared :: kernel where
  "demo_shared = demo_kernel\<lparr>phys := (\<lambda>f i. if f \<in> {5, 6} \<and> i = 955 then 0x9005 else demo_phys f i)\<rparr>"

theorem ipc_send_overwrites_kernel_mapping_witness:
  "\<exists>k'. sys_ipc_try_send 0x1001 42 0x800000 7 demo_shared = Some (Inr 1, k') \<and> phys k' 9 0 = 0x4007 \<and>
     env_ipc_perm (envs k' 1) = 7"
proof -
  have f: "envs demo_shared = demo_envs" "npages demo_shared = 16" "curenv demo_shared = Some 0"
    "phys demo_shared f i = (if f \<in> {5, 6} \<and> i = 955 then 0x9005 else demo_phys f i)" for f i
    by (simp_all add: demo_shared_def demo_kernel_def curenv_def)
  have e: "envid2env 0x1001 False demo_shared = Some (Inr (Some 1))" by (simp add: envid2env_def ENVX_def f)
  have dst: "env_ipc_dstva (envs demo_shared 1) = UTOP" by (simp add: demo_envs_def f)
  have ix: "pdx UTOP = 955" "ptx UTOP = 0" "pdx 0x800000 = 2" "ptx 0x800000 = 0"
    by (simp_all add: kdefs PDX_def PTX_def)
  have w: "pgdir_walk 5 0x800000 False demo_shared = Some (Some (7, 0), demo_shared)"
    by (simp add: pgdir_walk_def get_pte_def KADDR_def f ix demo_phys_def PTE_P_def
        PTE_ADDR_def PGNUM_def ppn_of_def)
  have lk: "page_lookup 5 0x800000 demo_shared = Some (Some (4, (7, 0)))"
    unfolding page_lookup_def w
    by (simp add: get_pte_def pa2page_def f demo_phys_def PTE_P_def PTE_ADDR_def PGNUM_def)
  have p: "\<not> perm_invalid 7" "\<not> page_offset_bad 0x800000" "(0x800000 :: u32) < UTOP"
    "page2pa 4 OR 7 OR PTE_P = 0x4007"
    by (simp_all add: perm_invalid_def page_offset_bad_def kdefs page2pa_def PGSHIFT_def)
  have "\<exists>k'. sys_ipc_try_send 0x1001 42 0x800000 7 demo_shared = Some (Inr 1, k') \<and>
    phys k' 9 (ptx (env_ipc_dstva (envs demo_shared 1))) = page2pa 4 OR 7 OR PTE_P \<and>
    env_ipc_perm (envs k' 1) = 7"
  proof (rule ipc_send_overwrites_kernel_mapping [OF e, where d = 6 and c = 0 and dc = 5 and pte = "(7, 0)"])
    show "present (phys demo_shared 6 (pdx (env_ipc_dstva (envs demo_shared 1))))"
      "9 = ppn_of (phys demo_shared 6 (pdx (env_ipc_dstva (envs demo_shared 1))))"
      "\<not> present (phys demo_shared 9 (ptx (env_ipc_dstva (envs demo_shared 1))))"
      unfolding dst ix f(4) by (simp_all add: demo_phys_def PTE_P_def ppn_of_def PTE_ADDR_def PGNUM_def)
    show "perm AND PTE_W \<noteq> 0 \<longrightarrow> get_pte demo_shared (7, 0) AND PTE_W \<noteq> 0" for perm
      by (simp add: get_pte_def f demo_phys_def PTE_W_def)
  qed (simp_all only: dst lk p, simp_all add: f)
  then show ?thesis unfolding dst ix p(4) .
qed

section \<open>Trap frames, time and printing\<close>

lemma kread_upd_env [simp]: "kread (upd_env e f k) = kread k"
proof -
  have "load_byte (upd_env e f k) = load_byte k" by (rule ext) (simp add: load_byte_def)
  moreover have "mmu_translate c va (upd_env e f k) = mmu_translate c va k" for c va
    unfolding mmu_translate_def Let_def by simp
  ultimately show ?thesis by (intro ext) (simp add: kread_def)
qed

lemma read_trapframe_upd_env [simp]: "read_trapframe (upd_env e f k) = read_trapframe k"
  by (rule ext) (simp add: read_trapframe_def kread32_def kread16_def)

text \<open>
  \<open>sys_env_set_trapframe\<close> is meant to force user segments, interrupts on and an I/O
  privilege level of 0. It does so before it copies the caller's frame over the result, so the
  environment runs with exactly the frame the caller supplied, whatever code segment and flags
  it names.
\<close>

theorem set_trapframe_not_sanitised:
  assumes "envid2env envid True k = Some (Inr (Some e))" "read_trapframe k tf = Some frame"
  shows "\<exists>k'. sys_env_set_trapframe envid tf k = Some (Inr 0, k') \<and> env_tf (envs k' e) = frame"
  using assms by (simp add: sys_env_set_trapframe_def with_env_def)

lemma unat_times_10: "unat ((w :: u32) * 10) = 10 * unat w mod 4294967296"
  by (simp add: unat_word_ariths mult.commute)

text \<open>
  The tick counter never wraps unnoticed: as long as ten times the counter fits in 32 bits,
  the next tick either is counted and the reported time is exactly ten milliseconds per tick, or,
  exactly when it no longer fits, panics.
\<close>

theorem time_tick_exact:
  assumes "10 * unat (ticks k) < 2 ^ 32"
  shows "(if 10 * (unat (ticks k) + 1) < 2 ^ 32
     then \<exists>k'. time_tick k = Some k' \<and> unat (ticks k') = unat (ticks k) + 1 \<and>
            unat (time_msec k') = 10 * unat (ticks k')
     else time_tick k = None)"
proof -
  let ?t = "ticks k + 1"
  have t: "unat ?t = unat (ticks k) + 1"
    using assms by (subst unat_add_no_wrap) simp_all
  show ?thesis
  proof (cases "10 * (unat (ticks k) + 1) < 2 ^ 32")
    case True
    then have m: "unat (?t * 10) = 10 * unat ?t"
      unfolding unat_times_10 t by simp
    then have "\<not> ?t * 10 < ?t" by (simp add: word_less_nat_alt)
    with True m t show ?thesis by (simp add: time_tick_def time_msec_def Let_def)
  next
    case False
    have "10 * unat ?t < 4294967296 + 10" "4294967296 \<le> 10 * unat ?t" using False assms t by auto
    then obtain r where r: "10 * unat ?t = 4294967296 + r" "r < 10" by (metis add_less_cancel_left le_Suc_ex)
    have "unat (?t * 10) = (10 * unat ?t) mod 4294967296" by (rule unat_times_10)
    also have "\<dots> \<le> r" unfolding r(1) mod_add_self1 by (rule mod_less_eq_dividend)
    finally have "unat (?t * 10) < 10" using r(2) by simp
    moreover have "10 \<le> unat ?t" using r(1) by linarith
    ultimately have "?t * 10 < ?t" by (simp add: word_less_nat_alt)
    with False show ?thesis by (simp add: time_tick_def Let_def)
  qed
qed

text \<open>
  Printing can bring the kernel down: \<open>sys_cputs\<close> of one byte at a page-aligned address that
  is not mapped passes the user memory check and then faults in the kernel.
\<close>

theorem sys_cputs_unmapped_panics:
  assumes "curenv k = Some c" "env_pgdir (envs k c) = Some d"
    and "s AND 0xFFF = 0" "mmu_translate (cpu_cr3 (cpus k (thiscpu k))) s k = None"
  shows "sys_cputs s 1 k = Panics"
proof -
  have "user_mem_assert c s 1 0 k = Returns () k"
    using assms(2) check_one_byte [OF assms(3), of d "0 OR PTE_U" k] by (simp add: user_mem_assert_def)
  then show ?thesis
    using assms(1,4)
    by (simp add: sys_cputs_def print_string_def string_loop.simps kread_def)
qed

section \<open>The calls on the concrete kernel\<close>

lemma demo_ids:
  "envid2env 0x1001 True demo_kernel = Some (Inr (Some 1))"
  "envid2env 0 True demo_kernel = Some (Inr (Some 0))"
  "envid2env 0 True (demo_low b) = Some (Inr (Some 0))"
  by (simp_all add: envid2env_def ENVX_def)

lemma demo_perms:
  "\<not> perm_invalid 7" "\<not> perm_invalid 5" "\<not> page_offset_bad 0x800000" "\<not> page_offset_bad 0x801000"
  "\<not> page_offset_bad 0xC00000" "(0x800000 :: u32) < UTOP" "(0x801000 :: u32) < UTOP" "(0xC00000 :: u32) < UTOP"
  "page2pa 2 OR 7 OR PTE_P = 0x2007" "page2pa 4 OR 5 OR PTE_P = 0x4005"
  by (simp_all add: perm_invalid_def page_offset_bad_def kdefs page2pa_def PGSHIFT_def)

lemma demo_pdx: "pdx 0x800000 = 2" "pdx 0x801000 = 2" "pdx 0xC00000 = 3"
  by (simp_all add: PDX_def)

theorem envid2env_exact_witness:
  "envid2env 0x1001 True demo_kernel = Some (Inr (Some 1)) \<and>
   envid2env 0x2001 True demo_kernel = Some (Inl E_BAD_ENV)"
proof -
  have c: "curenv demo_kernel = Some 0" "(0x1001 :: u32) \<noteq> 0" "(0x2001 :: u32) \<noteq> 0" by simp_all
  have "\<exists>e. live demo_kernel e \<and> env_id (envs demo_kernel e) = 0x1001 \<and>
      (True \<longrightarrow> e = 0 \<or> env_parent_id (envs demo_kernel e) = env_id (envs demo_kernel 0))"
    by (rule exI [of _ 1]) (simp add: demo_live)
  from envid2env_exact [OF demo_kinv c(1,2), of True, unfolded if_P [OF this]]
  have "envid2env 0x1001 True demo_kernel = Some (Inr (Some 1))" by (simp add: ENVX_def)
  moreover have "\<not> (\<exists>e. live demo_kernel e \<and> env_id (envs demo_kernel e) = 0x2001 \<and>
      (True \<longrightarrow> e = 0 \<or> env_parent_id (envs demo_kernel e) = env_id (envs demo_kernel 0)))"
    by (auto simp: demo_live)
  from envid2env_exact [OF demo_kinv c(1,3), of True, unfolded if_not_P [OF this]]
  have "envid2env 0x2001 True demo_kernel = Some (Inl E_BAD_ENV)" .
  ultimately show ?thesis by (rule conjI)
qed

theorem sys_page_alloc_maps_zero_page_witness:
  "\<exists>k' ps'. sys_page_alloc 0x1001 0x800000 7 demo_kernel = Some (Inr 0, k') \<and>
     kinv k' demo_kheld ps' [2..<1024] \<and> user_pte k' 6 0x800000 = Some 0x2007 \<and>
     user_pte k' 5 0x800000 = Some 0x4007 \<and> phys k' 2 = (\<lambda>_. 0)"
proof -
  have l: "live demo_kernel 1" "env_pgdir (envs demo_kernel 1) = Some 6" by (simp_all add: demo_live)
  obtain k' ps' where k': "sys_page_alloc 0x1001 0x800000 7 demo_kernel = Some (Inr 0, k')"
    "kinv k' demo_kheld ps' [2..<1024]" "phys k' 2 = (\<lambda>_. 0)"
    "\<forall>d'\<in>dirs demo_kernel. \<forall>va'<UTOP. user_pte k' d' va' =
       (if d' = 6 \<and> same_page va' 0x800000 then Some (page2pa 2 OR 7 OR PTE_P) else user_pte demo_kernel d' va')"
    using sys_page_alloc_maps_zero_page [OF demo_kinv demo_ids(1) l demo_perms(6,3,1)] by blast
  have "user_pte k' 6 0x800000 = Some 0x2007" "user_pte k' 5 0x800000 = Some 0x4007"
    using k'(4) demo_perms(6,9) demo_user_pte unfolding demo_dirs by simp_all
  with k'(1-3) show ?thesis by blast
qed

theorem sys_page_alloc_out_of_memory_panics_witness:
  "sys_page_alloc 0 0x801000 7 (demo_low False) = None"
proof -
  have k: "kinv (demo_low False) (demo_lheld False) [] [2..<1024]" using demo_low_kinv [of False] by simp
  show ?thesis
    by (rule sys_page_alloc_out_of_memory_panics [OF k demo_ids(3) _ _ demo_perms(7,4,1), where d = 5])
      (simp_all add: live_def NENV_def demo_pdx demo_phys_def PTE_P_def)
qed

theorem sys_page_alloc_leaks_page_witness:
  "\<exists>k'. sys_page_alloc 0 0xC00000 7 (demo_low True) = Some (Inl E_NO_MEM, k') \<and> pref k' 8 = 0 \<and>
     refs k' (dirs (demo_low True)) 8 = 0 \<and> vm_inv k' (dirs (demo_low True)) (demo_lheld True) []"
proof -
  have k: "kinv (demo_low True) (demo_lheld True) [8] [2..<1024]" using demo_low_kinv [of True] by simp
  have l: "live (demo_low True) 0" "env_pgdir (envs (demo_low True) 0) = Some 5"
    "\<not> present (phys (demo_low True) 5 (pdx 0xC00000))"
    by (simp_all add: live_def NENV_def demo_pdx demo_phys_def)
  show ?thesis
    using sys_page_alloc_leaks_page [OF k demo_ids(3) l(1,2) demo_perms(8,5,1) l(3)] by blast
qed

lemma demo_map:
  "live demo_kernel 0" "env_pgdir (envs demo_kernel 0) = Some 5"
  "live demo_kernel 1" "env_pgdir (envs demo_kernel 1) = Some 6"
  "5 AND PTE_W \<noteq> 0 \<longrightarrow> 0x4007 AND PTE_W \<noteq> 0" "[2, 3, 8] \<noteq> ([] :: nat list) \<or> present (phys demo_kernel 6 (pdx 0x801000))"
  "unat (pref demo_kernel (ppn_of 0x4007)) < 65535" "ppn_of 0x4007 = 4"
  by (simp_all add: demo_live PTE_W_def demo_pages_def ppn_of_def PGNUM_def PTE_ADDR_def)

theorem sys_page_map_shares_witness:
  "\<exists>k' ps'. sys_page_map 0 0x800000 0x1001 0x801000 5 demo_kernel = Some (Inr 0, k') \<and>
     kinv k' demo_kheld ps' [2..<1024] \<and> user_pte k' 6 0x801000 = Some 0x4005 \<and>
     user_pte k' 5 0x800000 = Some 0x4007"
proof -
  have "can_map 5 0x800000 0x801000 5 demo_kernel" using demo_perms demo_user_pte demo_map by (simp add: can_map_def)
  then obtain k' ps' where k': "sys_page_map 0 0x800000 0x1001 0x801000 5 demo_kernel = Some (Inr 0, k')"
    "kinv k' demo_kheld ps' [2..<1024]"
    "\<forall>d'\<in>dirs demo_kernel. \<forall>va'<UTOP. user_pte k' d' va' =
       (if d' = 6 \<and> same_page va' 0x801000 then Some (page2pa (ppn_of 0x4007) OR 5 OR PTE_P)
        else user_pte demo_kernel d' va')"
    using sys_page_map_shares [OF demo_kinv demo_ids(2) demo_map(1,2) demo_ids(1) demo_map(3,4), of "0x801000" "0x800000" 5]
      demo_user_pte demo_map(5-7) by auto
  have "user_pte k' 6 0x801000 = Some 0x4005" "user_pte k' 5 0x800000 = Some 0x4007"
    using k'(3) demo_perms(6,7,10) demo_user_pte demo_map(8) unfolding demo_dirs by simp_all
  with k'(1,2) show ?thesis by blast
qed

theorem sys_page_map_no_escalation_witness:
  "\<exists>w k' pte. sys_page_map 0 0x800000 0x1001 0x801000 5 demo_kernel = Some (Inr w, k') \<and>
     user_pte demo_kernel 5 0x800000 = Some pte"
proof -
  obtain w k' where "sys_page_map 0 0x800000 0x1001 0x801000 5 demo_kernel = Some (Inr w, k')"
    using page_map_runs [OF demo_kinv demo_ids(2) demo_map(1,2) demo_ids(1) demo_map(3,4)
        demo_perms(6,7,3,4,2) demo_user_pte demo_map(5-7)] by blast
  with sys_page_map_no_escalation [OF demo_kinv demo_ids(2) demo_map(1,2)] show ?thesis by blast
qed

lemma demo_kread: "pdx va = 2 \<Longrightarrow> ptx va = 0 \<Longrightarrow> kread demo_kernel va = Some 0"
proof -
  assume va: "pdx va = 2" "ptx va = 0"
  have pa: "PGNUM (0x4000 OR PGOFF va) = 4"
    unfolding PGNUM_def PGOFF_def by (rule bit_word_eqI) (auto simp: bit_simps bit_numeral_rec)
  have "mmu_translate 5 va demo_kernel = Some (0x4000 OR PGOFF va)"
    by (simp add: mmu_translate_def va demo_phys_def PTE_P_def PTE_PS_def ppn_of_def PTE_ADDR_def PGNUM_def)
  moreover have "load_byte demo_kernel (0x4000 OR PGOFF va) = 0"
    unfolding load_byte_def pa by (simp add: demo_phys_def)
  ultimately show ?thesis by (simp add: kread_def)
qed

lemma demo_frame: "read_trapframe demo_kernel 0x800000 = Some zero_tf"
  by (simp add: read_trapframe_def kread32_def kread16_def demo_kread PDX_def PTX_def zero_tf_def zero_regs_def)

theorem set_trapframe_not_sanitised_witness:
  "\<exists>k'. sys_env_set_trapframe 0 0x800000 demo_kernel = Some (Inr 0, k') \<and>
     tf_cs (env_tf (envs k' 0)) = 0 \<and> tf_eflags (env_tf (envs k' 0)) AND FL_IF = 0"
  using set_trapframe_not_sanitised [OF demo_ids(2) demo_frame] by (auto simp: zero_tf_def)

theorem time_tick_exact_witness: "\<exists>k'. time_tick demo_kernel = Some k' \<and> time_msec k' = 10"
proof -
  have "10 * unat (ticks demo_kernel) < 2 ^ 32" by simp
  from time_tick_exact [OF this] obtain k' where "time_tick demo_kernel = Some k'"
    "unat (ticks k') = 1" "unat (time_msec k') = 10 * unat (ticks k')"
    by auto
  moreover from this have "time_msec k' = 10" by (simp add: word_unat_eq_iff)
  ultimately show ?thesis by blast
qed

theorem sys_cputs_unmapped_panics_witness: "sys_cputs 0x900000 1 demo_kernel = Panics"
proof -
  have "mmu_translate (cpu_cr3 (cpus demo_kernel (thiscpu demo_kernel))) 0x900000 demo_kernel = None"
    by (simp add: mmu_translate_def demo_phys_def PTE_P_def PTE_PS_def ppn_of_def PTE_ADDR_def PGNUM_def
        PDX_def PTX_def)
  from sys_cputs_unmapped_panics [of demo_kernel 0 5 "0x900000", OF _ _ _ this] show ?thesis by simp
qed

end
