(* ===== verification/Fork.thy ===== *)
theory Fork
  imports Syscalls
begin

text \<open>
  Copy-on-write \<open>fork\<close>, \<^verbatim>\<open>lib/fork.c\<close> and \<^verbatim>\<open>lib/pgfault.c\<close>: user code that reads its
  own page tables through the window at \<open>UVPT\<close> and changes its own and its child's mappings by system
  calls. The state is the kernel's, in which the running environment is the process; of the process's own variables
  \<open>_pgfault_handler\<close> is an argument and a result. What the compiled code of \<open>fork\<close> stores in its stack between the system
  calls is an argument, as the stack is one of the pages that become copy-on-write under its feet. The page of the exception stack, on
  which the kernel and the handler work during a fault, is not followed. Panics are None.
\<close>

definition PTE_SHARE :: u32 where "PTE_SHARE = 0x400"
definition PTE_COW :: u32 where "PTE_COW = 0x800"
definition FEC_PR :: u32 where "FEC_PR = 1"
definition FEC_WR :: u32 where "FEC_WR = 2"
definition FEC_U :: u32 where "FEC_U = 4"

section \<open>The process and its page tables\<close>

definition own_dir :: "'z kernel_scheme \<Rightarrow> nat option" where
  "own_dir k = do { c \<leftarrow> curenv k; env_pgdir (envs k c) }"

text \<open>The arrays \<open>uvpd\<close> and \<open>uvpt\<close>: reading the latter faults where there is no page table.\<close>

definition uvpd :: "nat \<Rightarrow> u32 \<Rightarrow> 'z pmem_scheme \<Rightarrow> u32" where
  "uvpd d i s = phys s d (unat i)"

definition uvpt :: "nat \<Rightarrow> u32 \<Rightarrow> 'z pmem_scheme \<Rightarrow> u32 option" where
  "uvpt d pn s =
    (let pde = uvpd d (drop_bit 10 pn) s
     in if \<not> present pde then None else Some (phys s (ppn_of pde) (unat (pn AND 0x3FF))))"

text \<open>
  The frame that a page-aligned access of the process goes to. Page directory entries of user pages grant
  everything (\<open>pgdir_walk\<close> makes them so); the page table entry decides.
\<close>

definition user_frame :: "nat \<Rightarrow> u32 \<Rightarrow> bool \<Rightarrow> 'z pmem_scheme \<Rightarrow> nat option" where
  "user_frame d va wr s = do {
     pte \<leftarrow> uvpt d (PGNUM va) s;
     if present pte \<and> pte AND PTE_U \<noteq> 0 \<and> (wr \<longrightarrow> pte AND PTE_W \<noteq> 0) then Some (ppn_of pte) else None
   }"

text \<open>\<open>memmove\<close> of a whole page between page-aligned addresses.\<close>

definition user_copy_page :: "u32 \<Rightarrow> u32 \<Rightarrow> 'z kernel_scheme \<Rightarrow> 'z kernel_scheme option" where
  "user_copy_page dst src k = do {
     d \<leftarrow> own_dir k;
     p \<leftarrow> user_frame d dst True k;
     q \<leftarrow> user_frame d src False k;
     Some (k\<lparr>phys := (phys k)(p := phys k q)\<rparr>)
   }"

section \<open>The page fault handler\<close>

definition pgfault :: "u32 \<Rightarrow> u32 \<Rightarrow> 'z kernel_scheme \<Rightarrow> 'z kernel_scheme option" where
  "pgfault addr err k = do {
     d \<leftarrow> own_dir k;
     pte \<leftarrow> uvpt d (PGNUM addr) k;
     (me, k) \<leftarrow> sys_getenvid k;
     let myid = result_word me;
     if err AND FEC_WR = 0 \<or> pte AND PTE_COW = 0 then None
     else do {
       (r, k) \<leftarrow> sys_page_alloc myid PFTEMP (PTE_P OR PTE_U OR PTE_W) k;
       case r of
         Inl _ \<Rightarrow> None
       | Inr _ \<Rightarrow> do {
           k \<leftarrow> user_copy_page PFTEMP (ROUNDDOWN addr PGSIZE) k;
           (r, k) \<leftarrow> sys_page_map myid PFTEMP myid (ROUNDDOWN addr PGSIZE) (PTE_P OR PTE_U OR PTE_W) k;
           case r of
             Inl _ \<Rightarrow> None
           | Inr _ \<Rightarrow> do {
               (r, k) \<leftarrow> sys_page_unmap myid PFTEMP k;
               case r of Inl _ \<Rightarrow> None | Inr _ \<Rightarrow> Some k
             }
         }
     }
   }"

text \<open>
  A store of the process to the page of \<open>esp\<close>, which turns its contents \<open>x\<close> into \<open>f x\<close>. Where the page
  is not writable the processor faults, the kernel calls the handler, and the store is made again when that has returned.
\<close>

definition user_store :: "u32 \<Rightarrow> ((nat \<Rightarrow> u32) \<Rightarrow> nat \<Rightarrow> u32) \<Rightarrow> 'z kernel_scheme \<Rightarrow> 'z kernel_scheme option" where
  "user_store esp f k = do {
     d \<leftarrow> own_dir k;
     k \<leftarrow> (if user_frame d esp True k = None then pgfault esp (FEC_PR OR FEC_WR OR FEC_U) k else Some k);
     p \<leftarrow> user_frame d esp True k;
     Some (k\<lparr>phys := (phys k)(p := f (phys k p))\<rparr>)
   }"

text \<open>\<open>h\<close> is the current \<open>_pgfault_handler\<close>, \<open>upcall\<close> the address of \<open>_pgfault_upcall\<close>.\<close>

definition set_pgfault_handler :: "u32 \<Rightarrow> u32 \<Rightarrow> u32 \<Rightarrow> 'z kernel_scheme \<Rightarrow> (u32 \<times> 'z kernel_scheme) option" where
  "set_pgfault_handler upcall handler h k = do {
     k \<leftarrow> (if h = 0 then do {
             (me, k) \<leftarrow> sys_getenvid k;
             (r, k) \<leftarrow> sys_page_alloc (result_word me) (UXSTACKTOP - PGSIZE) (PTE_U OR PTE_W OR PTE_P) k;
             case r of Inl _ \<Rightarrow> None | Inr _ \<Rightarrow> Some k
           }
           else Some k);
     (me, k) \<leftarrow> sys_getenvid k;
     (_, k) \<leftarrow> sys_env_set_pgfault_upcall (result_word me) upcall k;
     Some (handler, k)
   }"

section \<open>Fork\<close>

definition duppage :: "envid \<Rightarrow> u32 \<Rightarrow> 'z kernel_scheme \<Rightarrow> (sysres \<times> 'z kernel_scheme) option" where
  "duppage envid pn k = do {
     d \<leftarrow> own_dir k;
     pte \<leftarrow> uvpt d pn k;
     let va = pn * PGSIZE;
     let perm = PTE_FLAGS pte;
     if pte AND PTE_SHARE \<noteq> 0 then do {
       (r, k) \<leftarrow> sys_page_map 0 va envid va perm k;
       case r of Inl err \<Rightarrow> Some (Inl err, k) | Inr _ \<Rightarrow> Some (Inr 0, k)
     }
     else if pte AND PTE_W \<noteq> 0 \<or> pte AND PTE_COW \<noteq> 0 then do {
       (r, k) \<leftarrow> sys_page_map 0 va envid va (PTE_P OR PTE_U OR PTE_COW) k;
       case r of
         Inl err \<Rightarrow> Some (Inl err, k)
       | Inr _ \<Rightarrow> do {
           (r, k) \<leftarrow> sys_page_map 0 va 0 va (PTE_P OR PTE_U OR PTE_COW) k;
           case r of Inl err \<Rightarrow> Some (Inl err, k) | Inr _ \<Rightarrow> Some (Inr 0, k)
         }
     }
     else do {
       (r, k) \<leftarrow> sys_page_map 0 va envid va perm k;
       case r of Inl err \<Rightarrow> Some (Inl err, k) | Inr _ \<Rightarrow> Some (Inr 0, k)
     }
   }"

text \<open>
  The stack pointer is \<open>esp\<close>, and \<open>st addr\<close> is what the code stores on its stack, between two rounds, while the loop variable is
  \<open>addr\<close>. The stores inside a round go to a page that the round has found or made writable before, or, between the two system
  calls for the stack page itself, is about to make read-only; they only add to the contents that the preceding store leaves.
\<close>

fun fork_loop :: "envid \<Rightarrow> u32 \<Rightarrow> (u32 \<Rightarrow> (nat \<Rightarrow> u32) \<Rightarrow> nat \<Rightarrow> u32) \<Rightarrow> nat \<Rightarrow> u32 \<Rightarrow> 'z kernel_scheme \<Rightarrow>
    (sysres \<times> 'z kernel_scheme) option" where
  "fork_loop child esp st 0 addr k = Some (Inr 0, k)"
| "fork_loop child esp st (Suc n) addr k = do {
     d \<leftarrow> own_dir k;
     mapped \<leftarrow> (if present (uvpd d (PDX addr) k) then map_option (\<lambda>e. present e) (uvpt d (PGNUM addr) k)
               else Some False);
     (r, k) \<leftarrow> (if mapped then duppage child (PGNUM addr) k else Some (Inr 0, k));
     case r of
       Inl err \<Rightarrow> Some (Inl err, k)
     | Inr _ \<Rightarrow> do {
         k \<leftarrow> user_store esp (st (addr + PGSIZE)) k;
         fork_loop child esp st n (addr + PGSIZE) k
       }
   }"

text \<open>
  What follows the return of \<open>sys_exofork\<close>, in the parent with the child's id and in the child with 0. The
  second component is the new value of the variable \<open>thisenv\<close>, an index in \<open>envs\<close>, where it changes.
\<close>

definition fork_returned :: "u32 \<Rightarrow> u32 \<Rightarrow> (u32 \<Rightarrow> (nat \<Rightarrow> u32) \<Rightarrow> nat \<Rightarrow> u32) \<Rightarrow> envid \<Rightarrow> 'z kernel_scheme \<Rightarrow>
    (sysres \<times> nat option \<times> 'z kernel_scheme) option" where
  "fork_returned upcall esp st child k =
    (if child = 0 then do {
       (r, k) \<leftarrow> sys_getenvid k;
       Some (Inr child, Some (ENVX (result_word r)), k)
     }
     else do {
       k \<leftarrow> user_store esp (st UTEXT) k;
       (r, k) \<leftarrow> fork_loop child esp st (unat ((USTACKTOP - UTEXT) div PGSIZE)) UTEXT k;
       case r of
         Inl err \<Rightarrow> Some (Inl err, None, k)
       | Inr _ \<Rightarrow> do {
           (r, k) \<leftarrow> sys_page_alloc child (UXSTACKTOP - PGSIZE) (PTE_P OR PTE_U OR PTE_W) k;
           case r of
             Inl err \<Rightarrow> Some (Inl err, None, k)
           | Inr _ \<Rightarrow> do {
               (r, k) \<leftarrow> sys_env_set_pgfault_upcall child upcall k;
               case r of
                 Inl err \<Rightarrow> Some (Inl err, None, k)
               | Inr _ \<Rightarrow> do {
                   (r, k) \<leftarrow> sys_env_set_status child 2 k;
                   case r of
                     Inl err \<Rightarrow> Some (Inl err, None, k)
                   | Inr _ \<Rightarrow> Some (Inr child, None, k)
                 }
             }
         }
     })"

definition fork :: "u32 \<Rightarrow> u32 \<Rightarrow> u32 \<Rightarrow> (u32 \<Rightarrow> (nat \<Rightarrow> u32) \<Rightarrow> nat \<Rightarrow> u32) \<Rightarrow> u32 \<Rightarrow> 'z kernel_scheme \<Rightarrow>
    (sysres \<times> u32 \<times> 'z kernel_scheme) option" where
  "fork upcall handler esp st h k = do {
     (h, k) \<leftarrow> set_pgfault_handler upcall handler h k;
     (r, k) \<leftarrow> sys_exofork k;
     case r of
       Inl err \<Rightarrow> Some (Inl err, h, k)
     | Inr child \<Rightarrow> do {
         (r, _, k) \<leftarrow> fork_returned upcall esp st child k;
         Some (r, h, k)
       }
   }"

end
