(* ===== verification/Phys_Bytes.thy ===== *)
theory Phys_Bytes
  imports Syscalls
begin

text \<open>
  Bytes and 32-bit stores in physical memory, which the kernel reaches at \<open>KERNBASE\<close>. A
  frame is an array of words, so a store of one byte replaces eight bits of a word and a store
  to an address that is not a multiple of four touches two of them. The lemmas are the array laws
  of this memory: what is read is what was stored last at that address.
\<close>

definition byte_frame :: "u32 \<Rightarrow> nat" where "byte_frame pa = unat (PGNUM pa)"
definition byte_index :: "u32 \<Rightarrow> nat" where "byte_index pa = unat (drop_bit 2 (PGOFF pa))"
definition byte_lane :: "u32 \<Rightarrow> nat" where "byte_lane pa = unat (pa AND 3)"

definition put_lane :: "nat \<Rightarrow> u8 \<Rightarrow> u32 \<Rightarrow> u32" where
  "put_lane l b w = (w AND NOT (push_bit (8 * l) 0xFF)) OR push_bit (8 * l) (ucast b)"

definition store_byte :: "u32 \<Rightarrow> u8 \<Rightarrow> 'z pmem_scheme \<Rightarrow> 'z pmem_scheme" where
  "store_byte pa b s = s\<lparr>phys := (phys s)(byte_frame pa :=
     (phys s (byte_frame pa))(byte_index pa := put_lane (byte_lane pa) b (phys s (byte_frame pa) (byte_index pa))))\<rparr>"

definition word_byte :: "nat \<Rightarrow> u32 \<Rightarrow> u8" where
  "word_byte n w = ucast (drop_bit (8 * n) w)"

definition store32 :: "u32 \<Rightarrow> u32 \<Rightarrow> 'z pmem_scheme \<Rightarrow> 'z pmem_scheme" where
  "store32 pa w s = store_byte (pa + 3) (word_byte 3 w) (store_byte (pa + 2) (word_byte 2 w)
     (store_byte (pa + 1) (word_byte 1 w) (store_byte pa (word_byte 0 w) s)))"

definition load32 :: "'z pmem_scheme \<Rightarrow> u32 \<Rightarrow> u32" where
  "load32 s pa = ucast (load_byte s pa) OR push_bit 8 (ucast (load_byte s (pa + 1))) OR
     push_bit 16 (ucast (load_byte s (pa + 2))) OR push_bit 24 (ucast (load_byte s (pa + 3)))"

fun store_words :: "u32 \<Rightarrow> u32 list \<Rightarrow> 'z pmem_scheme \<Rightarrow> 'z pmem_scheme" where
  "store_words pa [] s = s"
| "store_words pa (w # ws) s = store_words (pa + 4) ws (store32 pa w s)"

lemma lane_lt: "byte_lane pa < 4"
proof -
  have "pa AND 3 \<le> 3" by (rule word_and_le1)
  then show ?thesis by (simp add: byte_lane_def word_le_nat_alt)
qed

lemma lane_cases: "l < (4 :: nat) \<Longrightarrow> l = 0 \<or> l = 1 \<or> l = 2 \<or> l = 3"
  by auto

lemma mask8: "(0xFF :: u32) = mask 8"
  by (simp add: mask_eq_exp_minus_1)

lemma bit_byte: "bit (b :: u8) n \<Longrightarrow> n < 8"
  using bit_imp_le_length [of b n] by simp

lemma bit_word_byte: "bit (word_byte m w) n \<longleftrightarrow> n < 8 \<and> bit w (8 * m + n)"
  by (auto simp: word_byte_def bit_simps)

lemma bit_put_lane:
  assumes "l < 4"
  shows "bit (put_lane l b w) n \<longleftrightarrow> (if 8 * l \<le> n \<and> n < 8 * l + 8 then bit b (n - 8 * l) else bit w n)"
proof -
  have n: "n < 32" if "n < 8 * l + 8" using that assms by simp
  have b: "n < 8 * l + 8" if "8 * l \<le> n" "bit b (n - 8 * l)" using bit_byte [OF that(2)] that(1) by simp
  show ?thesis
    unfolding put_lane_def mask8 using n b bit_imp_le_length [of w n]
    by (auto simp: bit_simps)
qed

lemma get_put_lane:
  assumes "l < 4" "m < 4"
  shows "word_byte m (put_lane l b w) = (if m = l then b else word_byte m w)"
proof (rule bit_word_eqI)
  fix n assume n: "n < LENGTH(8)"
  show "bit (word_byte m (put_lane l b w)) n = bit (if m = l then b else word_byte m w) n"
    using n by (auto simp: bit_word_byte bit_put_lane [OF assms(1)])
qed

lemma bit_shifted_byte: "k \<le> 24 \<Longrightarrow> bit (push_bit k (ucast (b :: u8)) :: u32) n \<longleftrightarrow> k \<le> n \<and> bit b (n - k)"
proof -
  assume k: "k \<le> 24"
  have "n < 32" if "k \<le> n" "bit b (n - k)" using bit_byte [OF that(2)] that(1) k by simp
  then show ?thesis by (auto simp: bit_simps)
qed

lemma word_bytes_join:
  "ucast (word_byte 0 w) OR push_bit 8 (ucast (word_byte 1 w)) OR push_bit 16 (ucast (word_byte 2 w)) OR
     push_bit 24 (ucast (word_byte 3 w)) = w"
proof (rule bit_word_eqI)
  fix n assume n: "n < LENGTH(32)"
  have z: "bit (ucast (word_byte 0 w) :: u32) n \<longleftrightarrow> n < 8 \<and> bit w n"
    using bit_shifted_byte [of 0 "word_byte 0 w" n] by (simp add: bit_word_byte)
  show "bit (ucast (word_byte 0 w) OR push_bit 8 (ucast (word_byte 1 w)) OR
      push_bit 16 (ucast (word_byte 2 w)) OR push_bit 24 (ucast (word_byte 3 w)) :: u32) n = bit w n"
    using n unfolding bit_or_iff z
    by (cases "n < 8"; cases "n < 16"; cases "n < 24") (auto simp: bit_shifted_byte bit_word_byte not_less)
qed

lemma load_byte_eq: "load_byte s pa = word_byte (byte_lane pa) (phys s (byte_frame pa) (byte_index pa))"
  by (simp add: load_byte_def word_byte_def byte_lane_def byte_frame_def byte_index_def)

text \<open>An address is determined by its frame, its word in the frame and its lane.\<close>

lemma byte_address:
  assumes "byte_frame a = byte_frame b" "byte_index a = byte_index b" "byte_lane a = byte_lane b"
  shows "a = b"
proof (rule bit_word_eqI)
  fix n assume n: "n < LENGTH(32)"
  have f: "PGNUM a = PGNUM b" "drop_bit 2 (PGOFF a) = drop_bit 2 (PGOFF b)" "a AND 3 = b AND 3"
    using assms unfolding byte_frame_def byte_index_def byte_lane_def by (simp_all only: unsigned_word_eqI)
  have three: "(3 :: u32) = mask 2" by (simp add: mask_eq_exp_minus_1)
  have "bit a n = bit (a AND 3) n" "bit b n = bit (b AND 3) n" if "n < 2"
    using that n by (simp_all add: three bit_simps)
  moreover have "bit x n = bit (drop_bit 2 (PGOFF x)) (n - 2)" if "2 \<le> n" "n < 12" for x
  proof -
    obtain m where "n = 2 + m" using \<open>2 \<le> n\<close> le_Suc_ex by blast
    then show ?thesis using that n by (simp add: PGOFF_def mask12 bit_simps)
  qed
  moreover have "bit x n = bit (PGNUM x) (n - 12)" if "12 \<le> n" for x
    using that n by (simp add: PGNUM_def bit_simps)
  ultimately show "bit a n = bit b n" using f by (cases "n < 2"; cases "n < 12") auto
qed

lemma load_store_byte: "load_byte (store_byte pa b s) a = (if a = pa then b else load_byte s a)"
proof -
  have "put_lane (byte_lane pa) b w = put_lane (byte_lane pa) b w" for w by simp
  show ?thesis
    using byte_address [of a pa] get_put_lane [OF lane_lt lane_lt]
    by (auto simp: load_byte_eq store_byte_def)
qed

lemma load_store32: "load32 (store32 pa w s) pa = w"
  using word_bytes_join [of w] by (simp add: load32_def store32_def load_store_byte)

text \<open>The bytes from \<open>pa\<close> on, as a distance that does not wrap.\<close>

lemma load_store32_other: "3 < unat (a - pa) \<Longrightarrow> load_byte (store32 pa w s) a = load_byte s a"
proof -
  assume "3 < unat (a - pa)"
  then have "a \<noteq> pa" "a \<noteq> pa + 1" "a \<noteq> pa + 2" "a \<noteq> pa + 3" by auto
  then show ?thesis by (simp add: store32_def load_store_byte)
qed

lemma load32_store32_other:
  assumes "3 < unat (a - pa)" "3 < unat (pa - a)"
  shows "load32 (store32 pa w s) a = load32 s a"
proof -
  have "load_byte (store32 pa w s) (a + i) = load_byte s (a + i)" if "i \<in> {0, 1, 2, 3}" for i
  proof -
    have ne: "a + i \<noteq> pa + j" if j: "j \<in> {0, 1, 2, 3}" for j
    proof
      assume eq: "a + i = pa + j"
      then have "a - pa = j - i" "pa - a = i - j" by (simp_all add: algebra_simps)
      moreover have "unat (j - i) \<le> 3 \<or> unat (i - j) \<le> 3"
        using j \<open>i \<in> {0, 1, 2, 3}\<close> by auto
      ultimately show False using assms by auto
    qed
    show ?thesis using ne [of 0] ne [of 1] ne [of 2] ne [of 3] by (simp add: store32_def load_store_byte)
  qed
  from this [of 0] this [of 1] this [of 2] this [of 3] show ?thesis unfolding load32_def by simp
qed

lemma store_words_keeps:
  assumes "4 * length ws + unat d + 8 < 2 ^ 32" "3 < unat (d :: u32)"
  shows "load32 (store_words (pa + d) ws s) pa = load32 s pa"
  using assms
proof (induction ws arbitrary: d s)
  case (Cons w ws)
  have d4: "unat (d + 4) = unat d + 4" using Cons.prems by (subst unat_add_no_wrap) simp_all
  have "load32 (store_words (pa + (d + 4)) ws (store32 (pa + d) w s)) pa = load32 (store32 (pa + d) w s) pa"
    by (rule Cons.IH) (use Cons.prems d4 in simp_all)
  moreover have "3 < unat (pa - (pa + d))"
  proof -
    have "3 < unat (- d)"
    proof (rule ccontr)
      assume "\<not> 3 < unat (- d)"
      then have "unat (d + - d) = unat d + unat (- d)"
        using Cons.prems(1) by (intro unat_add_no_wrap) simp
      then show False using Cons.prems(2) by simp
    qed
    then show ?thesis by simp
  qed
  ultimately show ?case using Cons.prems(2) by (simp add: add.assoc load32_store32_other)
qed simp

text \<open>Reading back a structure that was stored word by word.\<close>

lemma load_store_words:
  assumes "i < length ws" "4 * length ws + 8 < 2 ^ 32"
  shows "load32 (store_words pa ws s) (pa + 4 * word_of_nat i) = ws ! i"
  using assms
proof (induction ws arbitrary: i pa s)
  case (Cons w ws)
  show ?case
  proof (cases i)
    case 0
    have "load32 (store_words (pa + 4) ws (store32 pa w s)) pa = load32 (store32 pa w s) pa"
      by (rule store_words_keeps) (use Cons.prems in simp_all)
    then show ?thesis using 0 by (simp add: load_store32)
  next
    case (Suc j)
    then have "load32 (store_words (pa + 4) ws (store32 pa w s)) (pa + 4 + 4 * word_of_nat j) = ws ! j"
      by (intro Cons.IH) (use Cons.prems in simp_all)
    then show ?thesis using Suc by (simp add: algebra_simps)
  qed
qed simp

lemma store_words_outside:
  assumes "4 * length ws \<le> unat (a - pa)"
  shows "load_byte (store_words pa ws s) a = load_byte s a"
  using assms
proof (induction ws arbitrary: pa s)
  case (Cons w ws)
  have "unat (a - (pa + 4)) = unat (a - pa) - 4"
  proof -
    have "a - (pa + 4) = a - pa - 4" by simp
    moreover have "4 \<le> a - pa" using Cons.prems by (simp add: word_le_nat_alt)
    then have "unat (a - pa - 4) = unat (a - pa) - 4" by (simp add: unat_sub)
    ultimately show ?thesis by (simp only:)
  qed
  then have "load_byte (store_words (pa + 4) ws (store32 pa w s)) a = load_byte (store32 pa w s) a"
    by (intro Cons.IH) (use Cons.prems in simp)
  then show ?case using Cons.prems by (simp add: load_store32_other)
qed simp

end
