(* ===== verification/Snapshot.thy ===== *)
theory Snapshot
  imports Phys_Bytes
begin

text \<open>
  Checkpoints of a process: \<open>sys_env_snapshot\<close> and \<open>sys_env_resume\<close> of
  \<^verbatim>\<open>kern/syscall.c\<close> with \<open>snapshot_alloc\<close> of \<^verbatim>\<open>kern/env.c\<close>. The nodes of
  the lists come from \<open>kmalloc\<close>, which panics rather than return NULL; that the kernel heap
  is large enough is taken for granted here. The code leaves some fields of fresh nodes
  uninitialised and may read them; what they hold is the argument of type \<open>junk\<close>.
\<close>

record junk =
  junk_snapshot :: snapshot
  junk_page :: "nat option"
  junk_next :: "saved_page list"

text \<open>\<open>snapshot_alloc\<close> returns the index by reference; the new structure is uninitialised.\<close>

definition snapshot_alloc :: "junk \<Rightarrow> 'z kernel_scheme \<Rightarrow> (jos_error + nat) \<times> 'z kernel_scheme" where
  "snapshot_alloc j k =
    (case find (\<lambda>i. snapshots k i = None) [0..<NSNAPSHOTS] of
       None \<Rightarrow> (Inl E_NO_MEM, k)
     | Some i \<Rightarrow> (Inr i, k\<lparr>snapshots := (snapshots k)(i \<mapsto> junk_snapshot j)\<rparr>))"

definition copy_frame :: "nat \<Rightarrow> nat \<Rightarrow> 'z pmem_scheme \<Rightarrow> 'z pmem_scheme" where
  "copy_frame dst src s = s\<lparr>phys := (phys s)(dst := phys s src)\<rparr>"

text \<open>
  The loop over the \<open>n\<close> pages from \<open>va\<close>; the nodes after the dummy are collected in
  order. The first component is False when the code jumps to \<open>bad\<close>: the last node is then
  in the list, its \<open>saved_page\<close> not yet written.
\<close>

fun snapshot_loop ::
  "junk \<Rightarrow> nat \<Rightarrow> nat \<Rightarrow> u32 \<Rightarrow> saved_page list \<Rightarrow> 'z kernel_scheme \<Rightarrow> (bool \<times> saved_page list \<times> 'z kernel_scheme) option" where
  "snapshot_loop j pgdir 0 va acc k = Some (True, acc, k)"
| "snapshot_loop j pgdir (Suc n) va acc k = do {
     found \<leftarrow> page_lookup pgdir va k;
     case found of
       None \<Rightarrow> snapshot_loop j pgdir n (va + PGSIZE) acc k
     | Some (_, pte) \<Rightarrow>
         let cur = \<lparr>page_vm = va, page_perm = PTE_FLAGS (get_pte k pte), saved_page = junk_page j\<rparr>;
             pa = PTE_ADDR (get_pte k pte)
         in do {
           (pinfo, k) \<leftarrow> page_alloc 0 k;
           case pinfo of
             None \<Rightarrow> Some (False, acc @ [cur], k)
           | Some p \<Rightarrow> do {
               _ \<leftarrow> page2kva k p;
               _ \<leftarrow> KADDR k pa;
               snapshot_loop j pgdir n (va + PGSIZE) (acc @ [cur\<lparr>saved_page := Some p\<rparr>])
                 (copy_frame p (unat (PGNUM pa)) k)
             }
         }
   }"

definition upd_snapshot :: "nat \<Rightarrow> (snapshot \<Rightarrow> snapshot) \<Rightarrow> 'z kernel_scheme \<Rightarrow> 'z kernel_scheme" where
  "upd_snapshot i f k = k\<lparr>snapshots := (snapshots k)(i := map_option f (snapshots k i))\<rparr>"

definition dummy_node :: "junk \<Rightarrow> saved_page" where
  "dummy_node j = \<lparr>page_vm = 0, page_perm = 0, saved_page = junk_page j\<rparr>"

text \<open>
  \<open>r = snapshot_alloc(&ssid) < 0\<close> assigns the comparison, so a full table is reported as 1.
  With no page mapped the list is the uninitialised \<open>next\<close> of the dummy.
\<close>

definition sys_env_snapshot :: "junk \<Rightarrow> envid \<Rightarrow> 'z kernel_scheme \<Rightarrow> (sysres \<times> 'z kernel_scheme) option" where
  "sys_env_snapshot j envid k =
    with_env envid True k (\<lambda>e.
      case snapshot_alloc j k of
        (Inl _, k) \<Rightarrow> Some (Inr 1, k)
      | (Inr ssid, k) \<Rightarrow> do {
          let k = upd_snapshot ssid (\<lambda>ss. ss\<lparr>ss_envid := envid\<rparr>) k;
          pgdir \<leftarrow> env_pgdir (envs k e);
          (ok, nodes, k) \<leftarrow> snapshot_loop j pgdir (unat ((UTOP - UTEXT) div PGSIZE)) UTEXT [] k;
          if ok then
            let tf = env_tf (envs k e);
                utf = \<lparr>utf_fault_va = 0, utf_err = tf_err tf, utf_regs = tf_regs tf, utf_eip = tf_eip tf,
                       utf_eflags = tf_eflags tf, utf_esp = tf_esp tf\<rparr>
            in Some (Inr (word_of_nat ssid), upd_snapshot ssid (\<lambda>ss. ss\<lparr>
                 saved_pages := (if nodes = [] then junk_next j else nodes), ss_utf := utf\<rparr>) k)
          else do {
            k \<leftarrow> snapshot_free ssid (upd_snapshot ssid (\<lambda>ss. ss\<lparr>saved_pages := dummy_node j # nodes\<rparr>) k);
            Some (Inl E_NO_MEM, k)
          }
        })"

text \<open>
  \<open>sys_env_resume\<close> first copies every saved page to a fresh one. The list of the new nodes
  starts with a dummy; the last node's \<open>next\<close> is NULL only when the allocation fails.
\<close>

fun resume_alloc :: "saved_page list \<Rightarrow> nat option list \<Rightarrow> 'z kernel_scheme \<Rightarrow> (bool \<times> nat option list \<times> 'z kernel_scheme) option" where
  "resume_alloc [] acc k = Some (True, acc, k)"
| "resume_alloc (cur # rest) acc k = do {
     (pinfo, k) \<leftarrow> page_alloc 0 k;
     case pinfo of
       None \<Rightarrow> Some (False, acc @ [None], k)
     | Some p \<Rightarrow> do {
         _ \<leftarrow> page2kva k p;
         q \<leftarrow> saved_page cur;
         _ \<leftarrow> page2kva k q;
         resume_alloc rest (acc @ [Some p]) (copy_frame p q k)
       }
   }"

fun resume_insert :: "nat \<Rightarrow> (saved_page \<times> nat option) list \<Rightarrow> 'z kernel_scheme \<Rightarrow> ((jos_error + unit) \<times> 'z kernel_scheme) option" where
  "resume_insert pgdir [] k = Some (Inr (), k)"
| "resume_insert pgdir ((cur, p) # rest) k = do {
     (r, k) \<leftarrow> page_insert pgdir p (page_vm cur) (page_perm cur) k;
     case r of
       Inl err \<Rightarrow> Some (Inl err, k)
     | Inr _ \<Rightarrow> resume_insert pgdir rest k
   }"

definition new_node :: "nat option \<Rightarrow> saved_page" where
  "new_node p = \<lparr>page_vm = 0, page_perm = 0, saved_page = p\<rparr>"

definition sys_env_resume :: "junk \<Rightarrow> envid \<Rightarrow> u32 \<Rightarrow> 'z kernel_scheme \<Rightarrow> (sysres \<times> 'z kernel_scheme) option" where
  "sys_env_resume j envid snapshotid k =
    with_env envid True k (\<lambda>e.
      case id2snapshot snapshotid k of
        None \<Rightarrow> Some (Inl E_INVAL, k)
      | Some ss \<Rightarrow>
          if ss_envid ss \<noteq> envid then Some (Inl E_INVAL, k)
          else do {
            (ok, new, k) \<leftarrow> resume_alloc (saved_pages ss) [] k;
            if \<not> ok then do {
              k \<leftarrow> savedpages_free (dummy_node j # map new_node new) k;
              Some (Inl E_NO_MEM, k)
            }
            else do {
              k \<leftarrow> env_flush_addr_space e k;
              pgdir \<leftarrow> env_pgdir (envs k e);
              (r, k) \<leftarrow> resume_insert pgdir (zip (saved_pages ss) new) k;
              case r of
                Inl err \<Rightarrow> do {
                  k \<leftarrow> savedpages_free (dummy_node j # map new_node new @ junk_next j) k;
                  k \<leftarrow> env_free e k;
                  Some (Inl err, k)
                }
              | Inr _ \<Rightarrow>
                  let utf = ss_utf ss;
                      k = upd_env e (\<lambda>v. v\<lparr>env_tf := (env_tf v)\<lparr>tf_eflags := utf_eflags utf,
                            tf_esp := utf_esp utf, tf_eip := utf_eip utf, tf_regs := utf_regs utf\<rparr>\<rparr>) k;
                      k = upd_env e (\<lambda>v. v\<lparr>env_status :=
                            if curenv k = Some e then ENV_RUNNING else ENV_RUNNABLE\<rparr>) k
                  in Some (Inr 0, k)
            }
          })"

end
