(* ===== verification/Snapshot_Props.thy ===== *)
theory Snapshot_Props
  imports Snapshot Syscall_Props
begin

text \<open>
  Checkpoints of a process: a snapshot saves every page that the process maps between \<open>UTEXT\<close> and
  \<open>UTOP\<close>, and resuming it gives the process these pages back, whatever it has written, mapped and unmapped since.
\<close>

section \<open>Frames that are no page tables\<close>

lemma vm_write_frame:
  assumes v: "vm_inv s D held ps" and p: "\<not> is_table s D p" and s': "phys s' = (phys s)(p := c)"
    "npages s' = npages s" "pages s' = pages s" "page_free_list s' = page_free_list s"
  shows "vm_inv s' D held ps"
    and "\<And>d va. d \<in> D \<Longrightarrow> va < UTOP \<Longrightarrow> user_pte s' d va = user_pte s d va"
    and "\<And>q. is_table s' D q \<longleftrightarrow> is_table s D q"
proof -
  have d: "phys s' d i = phys s d i" if "d \<in> D" for d i
    using p that s'(1) by (auto simp: is_table_def)
  have tp: "phys s' t = phys s t" if "entry_target (phys s d i) = Some t" "d \<in> D" "i < NUPDE" for d i t
  proof -
    have "is_table s D t" using that unfolding is_table_def by blast
    then show ?thesis using p s'(1) by auto
  qed
  have st: "site_target s' x = site_target s x" if x: "x \<in> all_sites D" for x
  proof (cases x)
    case (Pte d' i j)
    with x have d': "d' \<in> D" "i < NUPDE" by auto
    show ?thesis
      by (cases "entry_target (phys s d' i)")
        (simp_all add: Pte d [OF d'(1)] tp [OF _ d'] del: entry_target_Some entry_target_None)
  qed (use x d in auto)
  have rf: "refs s' D q = refs s D q" for q by (rule refs_cong) (rule st)
  show "vm_inv s' D held ps"
  proof (rule vm_invI)
    show "avail s' ps" using vm_avail [OF v] s'(2-4) by (simp add: avail_def)
    show "unat (pref s' q) = refs s' D q + held q" if "q < npages s'" for q
      using vm_count [OF v, of q] that rf s'(2,3) by simp
    show "pref s' q = 1 \<and> held q = 0" if "x \<in> all_sites D" "structural x" "site_target s' x = Some q" for x q
      using vm_structural [OF v that(1,2)] that(3) st [OF that(1)] s'(3) by simp
  qed (use st vm_target_lt [OF v] vm_finite [OF v] s'(2) in auto)
  show "user_pte s' d' va = user_pte s d' va" if "d' \<in> D" "va < UTOP" for d' va
    unfolding user_pte_def
    by (cases "entry_target (phys s d' (pdx va))")
      (simp_all add: d [OF that(1)] tp [OF _ that(1) pdx_user [OF that(2)]] del: entry_target_Some entry_target_None)
  show "is_table s' D q \<longleftrightarrow> is_table s D q" for q
    unfolding is_table_def using d by auto
qed

text \<open>A page that is free, or that nothing refers to, holds no page table and is not mapped.\<close>

lemma idle_not_table: "vm_inv s D held ps \<Longrightarrow> pref s p = 0 \<Longrightarrow> \<not> is_table s D p"
  using vm_table_held by fastforce

lemma mapped_frame:
  assumes v: "vm_inv s D held ps" "d \<in> D" "va < UTOP" "user_pte s d va = Some e"
  shows "ppn_of e < npages s" "pref s (ppn_of e) \<noteq> 0"
proof -
  note x = pte_site [OF v(2,3)] user_pte_site [OF v(4)]
  show lt: "ppn_of e < npages s" by (rule vm_target_lt [OF v(1) x])
  have "0 < refs s D (ppn_of e)" by (rule refs_pos [OF vm_finite [OF v(1)] x])
  then show "pref s (ppn_of e) \<noteq> 0" using vm_count [OF v(1) lt] by auto
qed

section \<open>Saving the address space\<close>

text \<open>The mapped pages among the \<open>n\<close> from \<open>va\<close>, and the node that saves one.\<close>

fun user_vas :: "'z pmem_scheme \<Rightarrow> nat \<Rightarrow> nat \<Rightarrow> u32 \<Rightarrow> u32 list" where
  "user_vas s d 0 va = []"
| "user_vas s d (Suc n) va = (if user_pte s d va = None then [] else [va]) @ user_vas s d n (va + PGSIZE)"

definition save_node :: "'z pmem_scheme \<Rightarrow> nat \<Rightarrow> u32 \<Rightarrow> nat \<Rightarrow> saved_page" where
  "save_node s d va p = \<lparr>page_vm = va, page_perm = PTE_FLAGS (the (user_pte s d va)), saved_page = Some p\<rparr>"

definition save_nodes :: "'z pmem_scheme \<Rightarrow> nat \<Rightarrow> u32 list \<Rightarrow> nat list \<Rightarrow> saved_page list" where
  "save_nodes s d vas ps = map (\<lambda>(va, p). save_node s d va p) (zip vas ps)"

lemma page_step: "unat va + Suc n * 4096 \<le> unat UTOP \<Longrightarrow> va < UTOP \<and> unat (va + PGSIZE) = unat va + 4096"
  using unat_add_lem [of va PGSIZE] by (simp add: word_less_nat_alt kdefs)

lemma user_vas_cong_None:
  assumes "\<forall>w<UTOP. user_pte s' d w = None \<longleftrightarrow> user_pte s d w = None"
  shows "unat va + n * 4096 \<le> unat UTOP \<Longrightarrow> user_vas s' d n va = user_vas s d n va"
proof (induction n arbitrary: va)
  case (Suc n)
  note step = page_step [OF Suc.prems]
  then show ?case using Suc.IH [of "va + PGSIZE"] Suc.prems assms by simp
qed simp

lemma user_vas_cong:
  assumes "\<forall>w<UTOP. user_pte s' d w = user_pte s d w"
  shows "unat va + n * 4096 \<le> unat UTOP \<Longrightarrow> user_vas s' d n va = user_vas s d n va"
  by (rule user_vas_cong_None) (use assms in simp)

lemma user_vas_range:
  assumes "w \<in> set (user_vas s d n va)" "unat va + n * 4096 \<le> unat UTOP"
  shows "w < UTOP \<and> va \<le> w \<and> user_pte s d w \<noteq> None"
  using assms
proof (induction n arbitrary: va)
  case (Suc n)
  note step = page_step [OF Suc.prems(2)]
  show ?case
  proof (cases "w \<in> set (user_vas s d n (va + PGSIZE))")
    case True
    then have "w < UTOP \<and> va + PGSIZE \<le> w \<and> user_pte s d w \<noteq> None"
      using Suc.IH [of "va + PGSIZE"] step Suc.prems(2) by simp
    then show ?thesis using step by (simp add: word_le_nat_alt)
  next
    case False
    then show ?thesis using Suc.prems(1) step by (auto split: if_splits)
  qed
qed simp

lemma save_nodes_cong:
  assumes "\<forall>w\<in>set vas. user_pte s' d w = user_pte s d w"
  shows "save_nodes s' d vas ps = save_nodes s d vas ps"
  using assms by (auto simp: save_nodes_def save_node_def dest: set_zip_leftD)

lemma saved_free_page:
  assumes v: "vm_inv k D held (p # ps)" and src: "src < npages k"
  shows "page_alloc 0 k = Some (Some p, alloc_result 0 p k)"
    and "page2kva (alloc_result 0 p k) p \<noteq> None"
    and "vm_inv (copy_frame p src (alloc_result 0 p k)) D held ps"
    and "\<And>d va. d \<in> D \<Longrightarrow> va < UTOP \<Longrightarrow> user_pte (copy_frame p src (alloc_result 0 p k)) d va = user_pte k d va"
    and "phys (copy_frame p src (alloc_result 0 p k)) = (phys k)(p := phys k src)"
    and "pref (copy_frame p src (alloc_result 0 p k)) q = pref k q"
    and "npages (copy_frame p src (alloc_result 0 p k)) = npages k"
proof -
  let ?k1 = "alloc_result 0 p k" let ?k2 = "copy_frame p src ?k1"
  have a: "avail k (p # ps)" by (rule vm_avail [OF v])
  show "page_alloc 0 k = Some (Some p, ?k1)" by (rule page_alloc_Cons [OF a])
  show "page2kva ?k1 p \<noteq> None" using page2kva_lt [of p ?k1] a by (simp add: avail_def)
  have nt: "\<not> is_table ?k1 D p" using vm_alloc_page(4) [OF v] vm_free_not_table [OF v] by simp
  have k2: "phys ?k2 = (phys ?k1)(p := phys ?k1 src)" "npages ?k2 = npages ?k1" "pages ?k2 = pages ?k1"
    "page_free_list ?k2 = page_free_list ?k1"
    by (simp_all add: copy_frame_def)
  note w = vm_write_frame [OF vm_alloc_page(1) [OF v] nt k2]
  show "vm_inv ?k2 D held ps" by (rule w(1))
  show "user_pte ?k2 d va = user_pte k d va" if "d \<in> D" "va < UTOP" for d va
    using w(2) [OF that] vm_alloc_page(2) [OF v that] by simp
  show "phys ?k2 = (phys k)(p := phys k src)" "pref ?k2 q = pref k q" "npages ?k2 = npages k"
    by (simp_all add: copy_frame_def)
qed

lemma same_envs_copy: "same_envs k (copy_frame p src k)"
  by (simp add: same_envs_def copy_frame_def)

text \<open>What saving pages to the first \<open>n\<close> free pages leaves alone.\<close>

definition kept_but :: "nat list \<Rightarrow> nat set \<Rightarrow> 'z kernel_scheme \<Rightarrow> 'z kernel_scheme \<Rightarrow> bool" where
  "kept_but qs D k k' \<longleftrightarrow> same_envs k k' \<and> npages k' = npages k \<and> (\<forall>q. pref k' q = pref k q) \<and>
     (\<forall>f. f \<notin> set qs \<longrightarrow> phys k' f = phys k f) \<and> (\<forall>d\<in>D. \<forall>w<UTOP. user_pte k' d w = user_pte k d w)"

lemma kept_but_refl: "kept_but qs D k k"
  by (simp add: kept_but_def)

lemma kept_but_trans: "kept_but [q] D k k1 \<Longrightarrow> kept_but qs D k1 k2 \<Longrightarrow> kept_but (q # qs) D k k2"
  unfolding kept_but_def by (auto intro: same_envs_trans)

lemma kept_but_saved:
  assumes v: "vm_inv k D held (p # ps)" and src: "src < npages k"
  shows "kept_but [p] D k (copy_frame p src (alloc_result 0 p k))"
  using same_envs_trans [OF same_envs_page_alloc [OF saved_free_page(1) [OF v src]] same_envs_copy]
    saved_free_page(4-7) [OF v src] by (simp add: kept_but_def)

lemma saved_pte:
  assumes v: "vm_inv k D held ps" "d \<in> D" "va < UTOP" "user_pte k d va = Some e"
  shows "get_pte k (ppn_of (phys k d (pdx va)), ptx va) = e" "page_lookup d va k = Some (Some (ppn_of e, (ppn_of (phys k d (pdx va)), ptx va)))"
  using v(4) page_lookup_user [OF v(1-3)]
  by (auto simp: get_pte_def user_pte_def entry_target_def split: if_splits)

lemma snapshot_loop_saves:
  assumes "vm_inv k D held ps" "d \<in> D" "unat va + n * 4096 \<le> unat UTOP"
    "length (user_vas k d n va) \<le> length ps"
  shows "\<exists>k'. snapshot_loop j d n va acc k = Some (True, acc @ save_nodes k d (user_vas k d n va) ps, k') \<and>
    vm_inv k' D held (drop (length (user_vas k d n va)) ps) \<and> kept_but (take (length (user_vas k d n va)) ps) D k k' \<and>
    (\<forall>(w, p)\<in>set (zip (user_vas k d n va) ps). phys k' p = phys k (ppn_of (the (user_pte k d w))))"
  using assms
proof (induction n arbitrary: va acc k ps)
  case 0
  then show ?case by (simp add: save_nodes_def kept_but_refl)
next
  case (Suc n)
  note step = page_step [OF Suc.prems(3)]
  have range: "unat (va + PGSIZE) + n * 4096 \<le> unat UTOP" using step Suc.prems(3) by simp
  show ?case
  proof (cases "user_pte k d va")
    case None
    then have "page_lookup d va k = Some None"
      using page_lookup_user [OF Suc.prems(1,2) conjunct1 [OF step]] by simp
    then have "snapshot_loop j d (Suc n) va acc k = snapshot_loop j d n (va + PGSIZE) acc k" by simp
    then show ?thesis using Suc.IH [OF Suc.prems(1,2) range] Suc.prems(4) None by simp
  next
    case (Some e)
    then obtain p qs where ps: "ps = p # qs" using Suc.prems(4) by (cases ps) auto
    note v = Suc.prems(1) [unfolded ps]
    have src: "ppn_of e < npages k" "pref k (ppn_of e) \<noteq> 0"
      using mapped_frame [OF v Suc.prems(2) conjunct1 [OF step] Some] by blast+
    let ?k1 = "alloc_result 0 p k" let ?k2 = "copy_frame p (ppn_of e) ?k1"
    note s = saved_free_page [OF v src(1)]
    have vas: "user_vas ?k2 d n (va + PGSIZE) = user_vas k d n (va + PGSIZE)"
      using user_vas_cong [OF _ range] s(4) [OF Suc.prems(2)] by blast
    let ?vas = "user_vas k d n (va + PGSIZE)"
    have len: "length (user_vas ?k2 d n (va + PGSIZE)) \<le> length qs"
      unfolding vas using Suc.prems(4) Some ps by simp
    obtain k' where k': "snapshot_loop j d n (va + PGSIZE) (acc @ [save_node k d va p]) ?k2 =
          Some (True, (acc @ [save_node k d va p]) @ save_nodes ?k2 d ?vas qs, k')"
        "vm_inv k' D held (drop (length ?vas) qs)" "kept_but (take (length ?vas) qs) D ?k2 k'"
        "\<forall>(w, p)\<in>set (zip ?vas qs). phys k' p = phys ?k2 (ppn_of (the (user_pte ?k2 d w)))"
      using Suc.IH [OF s(3) Suc.prems(2) range len] unfolding vas by blast
    have uw: "user_pte ?k2 d w = user_pte k d w" "user_pte k d w \<noteq> None" "w < UTOP" if "w \<in> set ?vas" for w
      using user_vas_range [OF that range] s(4) [OF Suc.prems(2)] by auto
    have nodes: "save_nodes ?k2 d ?vas qs = save_nodes k d ?vas qs"
      by (rule save_nodes_cong) (use uw in blast)
    have "KADDR ?k1 (PTE_ADDR e) \<noteq> None"
      using src(1) by (simp add: KADDR_def ppn_of_def)
    moreover have "get_pte ?k1 (ppn_of (phys k d (pdx va)), ptx va) = e"
      using saved_pte(1) [OF v Suc.prems(2) conjunct1 [OF step] Some] by (simp add: get_pte_def)
    ultimately have "snapshot_loop j d (Suc n) va acc k =
        snapshot_loop j d n (va + PGSIZE) (acc @ [save_node k d va p]) ?k2"
      using saved_pte [OF v Suc.prems(2) conjunct1 [OF step] Some] s(1,2) Some
      by (auto simp: save_node_def Let_def ppn_of_def)
    moreover have "save_nodes k d (user_vas k d (Suc n) va) ps = save_node k d va p # save_nodes k d ?vas qs"
      using Some ps by (simp add: save_nodes_def)
    moreover have "kept_but (take (length (user_vas k d (Suc n) va)) ps) D k k'"
      using kept_but_trans [OF kept_but_saved [OF v src(1)] k'(3)] Some ps by simp
    moreover have "\<forall>(w, q)\<in>set (zip (user_vas k d (Suc n) va) ps). phys k' q = phys k (ppn_of (the (user_pte k d w)))"
    proof -
      have "p \<notin> set qs" using avail_distinct [OF vm_avail [OF v]] by simp
      then have "phys k' p = phys k (ppn_of e)"
        using k'(3) s(5) set_take_subset [of "length ?vas" qs] by (auto simp: kept_but_def)
      moreover have "phys k' q = phys k (ppn_of (the (user_pte k d w)))" if "(w, q) \<in> set (zip ?vas qs)" for w q
      proof -
        have w: "w \<in> set ?vas" using that by (rule set_zip_leftD)
        then obtain e' where e': "user_pte k d w = Some e'" using uw by blast
        then have "ppn_of e' \<noteq> p"
          using mapped_frame(2) [OF v Suc.prems(2) uw(3) [OF w]] vm_avail [OF v] by (auto simp: avail_def)
        then show ?thesis using k'(4) that uw(1) [OF w] e' s(5) by auto
      qed
      ultimately show ?thesis using Some ps by auto
    qed
    ultimately show ?thesis using k'(1,2) nodes Some ps by simp
  qed
qed

section \<open>Taking a snapshot\<close>

definition user_pages :: "nat" where
  "user_pages = unat ((UTOP - UTEXT) div PGSIZE)"

lemma user_pages_range: "unat UTEXT + user_pages * 4096 \<le> unat UTOP"
  by (simp add: user_pages_def kdefs)

definition mapped_pages :: "'z pmem_scheme \<Rightarrow> nat \<Rightarrow> u32 list" where
  "mapped_pages s d = user_vas s d user_pages UTEXT"

text \<open>The node \<open>n\<close> holds in \<open>k'\<close> what was mapped in \<open>k\<close>.\<close>

definition saves :: "'z pmem_scheme \<Rightarrow> nat \<Rightarrow> 'z pmem_scheme \<Rightarrow> saved_page \<Rightarrow> bool" where
  "saves k d k' n \<longleftrightarrow> (\<exists>e p. user_pte k d (page_vm n) = Some e \<and> page_perm n = PTE_FLAGS e \<and>
     saved_page n = Some p \<and> phys k' p = phys k (ppn_of e))"

lemma length_save_nodes: "length vas \<le> length ps \<Longrightarrow> length (save_nodes k d vas ps) = length vas"
  by (simp add: save_nodes_def)

lemma save_nodes_vm: "length vas \<le> length ps \<Longrightarrow> map page_vm (save_nodes k d vas ps) = vas"
  by (induction vas arbitrary: ps) (auto simp: save_nodes_def save_node_def zip_Cons1 split: list.splits)

lemma save_nodes_pages: "length vas \<le> length ps \<Longrightarrow>
    List.map_filter saved_page (save_nodes k d vas ps) = take (length vas) ps"
proof (induction vas arbitrary: ps)
  case (Cons va vas)
  then show ?case by (cases ps) (auto simp: save_nodes_def save_node_def List.map_filter_def)
qed (simp add: save_nodes_def List.map_filter_def)

lemma saves_node:
  assumes "n \<in> set (save_nodes k d vas ps)" "\<forall>w\<in>set vas. user_pte k d w \<noteq> None"
    and "\<forall>(w, p)\<in>set (zip vas ps). phys k' p = phys k (ppn_of (the (user_pte k d w)))"
  shows "saves k d k' n"
proof -
  obtain w p where wp: "(w, p) \<in> set (zip vas ps)" "n = save_node k d w p"
    using assms(1) by (auto simp: save_nodes_def)
  moreover have "w \<in> set vas" using wp(1) by (rule set_zip_leftD)
  ultimately show ?thesis using assms(2,3) by (fastforce simp: saves_def save_node_def)
qed

lemma snaps_ok_add:
  assumes ok: "snaps_ok k ps" and av: "avail k ps" and i: "i < NSNAPSHOTS"
    and k': "npages k' = npages k" "\<forall>q. pref k' q = pref k q" "\<forall>j. j \<noteq> i \<longrightarrow> snapshots k' j = snapshots k j"
      "snap_pages k' i = take c ps"
  shows "snaps_ok k' (drop c ps)"
proof -
  have other: "snap_pages k' j = snap_pages k j" if "j \<noteq> i" for j
    using k'(3) that by (simp add: snap_pages_def)
  have dist: "distinct (take c ps)" "set (take c ps) \<inter> set (drop c ps) = {}"
    using avail_distinct [OF av] set_take_disj_set_drop_if_distinct [of ps c c] by simp_all
  have sub: "set (take c ps) \<subseteq> set ps" "set (drop c ps) \<subseteq> set ps"
    by (simp_all add: set_take_subset set_drop_subset)
  have "distinct (snap_pages k' j) \<and> set (snap_pages k' j) \<inter> set (drop c ps) = {} \<and>
      (\<forall>p\<in>set (snap_pages k' j). p < npages k' \<and> pref k' p = 0)" if "j < NSNAPSHOTS" for j
  proof (cases "j = i")
    case True
    then show ?thesis using k' dist sub av by (auto simp: avail_def)
  next
    case False
    then show ?thesis using ok that sub k' unfolding snaps_ok_def other [OF False] by fastforce
  qed
  moreover have "set (snap_pages k' j) \<inter> set (snap_pages k' j') = {}" if "j < NSNAPSHOTS" "j' < NSNAPSHOTS" "j \<noteq> j'" for j j'
  proof -
    have "set (snap_pages k j) \<inter> set (take c ps) = {}" "set (snap_pages k j') \<inter> set (take c ps) = {}"
      "set (snap_pages k j) \<inter> set (snap_pages k j') = {}"
      using ok that sub unfolding snaps_ok_def by blast+
    then show ?thesis
      using other that(3) k'(4) by (cases "j = i"; cases "j' = i") auto
  qed
  ultimately show ?thesis unfolding snaps_ok_def by blast
qed

lemma find_index: "find P [0..<n] = Some i \<Longrightarrow> i < n \<and> P i"
  by (auto simp: find_Some_iff)

lemma env_snapshot_saves:
  assumes inv: "kinv k held ps fs" and e: "envid2env envid True k = Some (Inr (Some e))" "live k e"
      "env_pgdir (envs k e) = Some d"
    and room: "find (\<lambda>i. snapshots k i = None) [0..<NSNAPSHOTS] = Some i"
    and pages: "mapped_pages k d \<noteq> []" "length (mapped_pages k d) \<le> length ps"
  shows "\<exists>k' ss. sys_env_snapshot j envid k = Some (Inr (word_of_nat i), k') \<and>
    kinv k' held (drop (length (mapped_pages k d)) ps) fs \<and> envs k' = envs k \<and> curenv k' = curenv k \<and>
    (\<forall>d'\<in>dirs k. \<forall>w<UTOP. user_pte k' d' w = user_pte k d' w) \<and>
    snapshots k' i = Some ss \<and> ss_envid ss = envid \<and> map page_vm (saved_pages ss) = mapped_pages k d \<and>
    (\<forall>n\<in>set (saved_pages ss). saves k d k' n) \<and>
    utf_regs (ss_utf ss) = tf_regs (env_tf (envs k e)) \<and> utf_eip (ss_utf ss) = tf_eip (env_tf (envs k e)) \<and>
    utf_esp (ss_utf ss) = tf_esp (env_tf (envs k e)) \<and> utf_eflags (ss_utf ss) = tf_eflags (env_tf (envs k e))"
proof -
  note kv = inv [unfolded kinv_def, THEN conjunct1] and kt = inv [unfolded kinv_def, THEN conjunct2, THEN conjunct1]
    and ks = inv [unfolded kinv_def, THEN conjunct2, THEN conjunct2]
  let ?c = "length (mapped_pages k d)"
  have d: "d \<in> dirs k" by (rule live_pgdir [OF e(2,3)])
  have i: "i < NSNAPSHOTS" using find_index [OF room] by blast
  let ?k1 = "upd_snapshot i (\<lambda>ss. ss\<lparr>ss_envid := envid\<rparr>) (k\<lparr>snapshots := (snapshots k)(i \<mapsto> junk_snapshot j)\<rparr>)"
  have k1: "npages ?k1 = npages k" "pages ?k1 = pages k" "page_free_list ?k1 = page_free_list k" "phys ?k1 = phys k"
    "envs ?k1 = envs k" "env_free_list ?k1 = env_free_list k"
    "snapshots ?k1 = (snapshots k)(i \<mapsto> (junk_snapshot j)\<lparr>ss_envid := envid\<rparr>)"
    by (simp_all add: upd_snapshot_def)
  have v1: "vm_inv ?k1 (dirs k) held ps" using kv by (subst vm_inv_mem [of _ k]) (simp_all only: k1)
  have u1: "user_pte ?k1 d' w = user_pte k d' w" for d' w
    by (simp add: user_pte_def k1 cong: option.case_cong if_cong)
  have vas: "user_vas ?k1 d user_pages UTEXT = mapped_pages k d"
    unfolding mapped_pages_def by (rule user_vas_cong [OF _ user_pages_range]) (simp add: u1)
  obtain k' where k': "snapshot_loop j d user_pages UTEXT [] ?k1 = Some (True, save_nodes ?k1 d (mapped_pages k d) ps, k')"
      "vm_inv k' (dirs k) held (drop ?c ps)" "kept_but (take ?c ps) (dirs k) ?k1 k'"
      "\<forall>(w, p)\<in>set (zip (mapped_pages k d) ps). phys k' p = phys ?k1 (ppn_of (the (user_pte ?k1 d w)))"
    using snapshot_loop_saves [OF v1 d user_pages_range, of j "[]"] pages(2) unfolding vas by auto
  have nodes: "save_nodes ?k1 d (mapped_pages k d) ps = save_nodes k d (mapped_pages k d) ps"
    by (rule save_nodes_cong) (simp add: u1)
  let ?nodes = "save_nodes k d (mapped_pages k d) ps" let ?tf = "env_tf (envs k e)"
  have ne: "?nodes \<noteq> []" using length_save_nodes [OF pages(2), of k d] pages(1) by (metis length_0_conv)
  let ?utf = "\<lparr>utf_fault_va = 0, utf_err = tf_err ?tf, utf_regs = tf_regs ?tf, utf_eip = tf_eip ?tf,
    utf_eflags = tf_eflags ?tf, utf_esp = tf_esp ?tf\<rparr>"
  let ?ss = "(junk_snapshot j)\<lparr>ss_envid := envid, saved_pages := ?nodes, ss_utf := ?utf\<rparr>"
  let ?k2 = "upd_snapshot i (\<lambda>ss. ss\<lparr>saved_pages := ?nodes, ss_utf := ?utf\<rparr>) k'"
  have same: "envs k' = envs k" "env_free_list k' = env_free_list k" "snapshots k' = snapshots ?k1" "npages k' = npages k"
      "pref k' q = pref k q" for q
    using k'(3) k1 by (simp_all add: kept_but_def same_envs_def)
  have k2: "npages ?k2 = npages k" "pages ?k2 = pages k'" "page_free_list ?k2 = page_free_list k'" "phys ?k2 = phys k'"
    "envs ?k2 = envs k" "env_free_list ?k2 = env_free_list k" "snapshots ?k2 = (snapshots k)(i \<mapsto> ?ss)"
    using same k1(7) by (simp_all add: upd_snapshot_def)
  have run: "sys_env_snapshot j envid k = Some (Inr (word_of_nat i), ?k2)"
    using e(1,3) room k'(1) ne same(1) k1(5) nodes
    by (simp add: sys_env_snapshot_def with_env_def snapshot_alloc_def Let_def user_pages_def)
  have cur: "curenv ?k2 = curenv k"
    using k'(3) by (simp add: curenv_def upd_snapshot_def kept_but_def same_envs_def)
  have D2: "dirs ?k2 = dirs k" by (simp add: dirs_def live_def k2)
  have "snap_pages ?k2 i = take ?c ps"
    using save_nodes_pages [OF pages(2)] by (simp add: snap_pages_def k2)
  then have "snaps_ok ?k2 (drop ?c ps)"
    using snaps_ok_add [OF ks vm_avail [OF kv] i, of ?k2] k2 same(5) by simp
  moreover have "env_table ?k2 fs"
    using kt by (simp add: env_table_def live_def k2)
  moreover have "vm_inv ?k2 (dirs ?k2) held (drop ?c ps)"
    unfolding D2 using k'(2) by (subst vm_inv_mem [of _ k']) (simp_all add: k2 same(4))
  ultimately have "kinv ?k2 held (drop ?c ps) fs" by (simp add: kinv_def)
  moreover have "user_pte ?k2 d' w = user_pte k d' w" if "d' \<in> dirs k" "w < UTOP" for d' w
    using k'(3) that u1 user_pte_phys [of ?k2 k'] by (simp add: kept_but_def k2 user_pte_def cong: option.case_cong if_cong)
  moreover have "saves k d ?k2 n" if "n \<in> set ?nodes" for n
  proof (rule saves_node [OF that])
    show "\<forall>w\<in>set (mapped_pages k d). user_pte k d w \<noteq> None"
      unfolding mapped_pages_def using user_vas_range user_pages_range by blast
    show "\<forall>(w, p)\<in>set (zip (mapped_pages k d) ps). phys ?k2 p = phys k (ppn_of (the (user_pte k d w)))"
      using k'(4) by (simp add: k2 k1 u1)
  qed
  ultimately show ?thesis
    using run k2(5,7) cur save_nodes_vm [OF pages(2)] by (intro exI [of _ ?k2] exI [of _ ?ss]) simp
qed

section \<open>Resuming\<close>

text \<open>The copies go to the first free pages.\<close>

lemma resume_alloc_copies:
  assumes "vm_inv k D held ps" "length nodes \<le> length ps"
    "\<forall>n\<in>set nodes. \<exists>q. saved_page n = Some q \<and> q < npages k \<and> q \<notin> set ps"
  shows "\<exists>k'. resume_alloc nodes acc k = Some (True, acc @ map Some (take (length nodes) ps), k') \<and>
    vm_inv k' D held (drop (length nodes) ps) \<and> kept_but (take (length nodes) ps) D k k' \<and>
    (\<forall>(n, p)\<in>set (zip nodes ps). phys k' p = phys k (the (saved_page n)))"
  using assms
proof (induction nodes arbitrary: acc k ps)
  case Nil
  then show ?case by (simp add: kept_but_refl)
next
  case (Cons n nodes)
  then obtain p qs where ps: "ps = p # qs" by (cases ps) auto
  obtain q where q: "saved_page n = Some q" "q < npages k" "q \<notin> set ps" using Cons.prems(3) by auto
  note v = Cons.prems(1) [unfolded ps]
  let ?k1 = "alloc_result 0 p k" let ?k2 = "copy_frame p q ?k1"
  note s = saved_free_page [OF v q(2)]
  have pre: "length nodes \<le> length qs" "\<forall>n\<in>set nodes. \<exists>q. saved_page n = Some q \<and> q < npages ?k2 \<and> q \<notin> set qs"
    using Cons.prems(2,3) s(7) ps by auto
  obtain k' where k': "resume_alloc nodes (acc @ [Some p]) ?k2 =
        Some (True, (acc @ [Some p]) @ map Some (take (length nodes) qs), k')"
      "vm_inv k' D held (drop (length nodes) qs)" "kept_but (take (length nodes) qs) D ?k2 k'"
      "\<forall>(n, p)\<in>set (zip nodes qs). phys k' p = phys ?k2 (the (saved_page n))"
    using Cons.IH [OF s(3) pre, of "acc @ [Some p]"] by blast
  have "page2kva ?k1 q \<noteq> None"
    using page2kva_lt [of q ?k1] q(2) vm_npages [OF v] by simp
  then have "resume_alloc (n # nodes) acc k = resume_alloc nodes (acc @ [Some p]) ?k2"
    using s(1,2) q(1) by auto
  moreover have "kept_but (take (length (n # nodes)) ps) D k k'"
    using kept_but_trans [OF kept_but_saved [OF v q(2)] k'(3)] ps by simp
  moreover have "\<forall>(m, r)\<in>set (zip (n # nodes) ps). phys k' r = phys k (the (saved_page m))"
  proof -
    have "p \<notin> set qs" using avail_distinct [OF vm_avail [OF v]] by simp
    then have "phys k' p = phys k q"
      using k'(3) s(5) set_take_subset [of "length nodes" qs] by (auto simp: kept_but_def)
    moreover have "phys k' r = phys k (the (saved_page m))" if "(m, r) \<in> set (zip nodes qs)" for m r
    proof -
      have "m \<in> set nodes" using that by (rule set_zip_leftD)
      then obtain q' where "saved_page m = Some q'" "q' \<noteq> p" using Cons.prems(3) ps by auto
      then show ?thesis using k'(4) that s(5) by auto
    qed
    ultimately show ?thesis using q(1) ps by auto
  qed
  ultimately show ?case using k'(1,2) ps by simp
qed

text \<open>Flushing the address space leaves the frames alone that nothing refers to.\<close>

lemma flush_pdes_idle:
  assumes "vm_inv s D held ps" "d \<in> D" "set js \<subseteq> {..<NUPDE}"
  shows "\<exists>s' ps'. flush_pdes d js s = Some s' \<and> vm_inv s' D held ps' \<and> set ps \<subseteq> set ps' \<and> npages s' = npages s \<and>
    (\<forall>i. \<not> present (phys s d i) \<longrightarrow> \<not> present (phys s' d i)) \<and> (\<forall>i\<in>set js. \<not> present (phys s' d i)) \<and>
    idle_kept s ps s' ps' \<and> (\<forall>d'\<in>D. \<forall>va<UTOP. d' \<noteq> d \<longrightarrow> user_pte s' d' va = user_pte s d' va) \<and>
    (\<forall>f. pref s f = 0 \<longrightarrow> f \<notin> set ps \<longrightarrow> phys s' f = phys s f)"
  using assms
proof (induction js arbitrary: s ps)
  case (Cons i js)
  have js: "set js \<subseteq> {..<NUPDE}" and i: "i < NUPDE" using Cons.prems(3) by auto
  show ?case
  proof (cases "present (phys s d i)")
    case False
    from Cons.IH [OF Cons.prems(1,2) js] obtain s' ps' where s':
      "flush_pdes d js s = Some s'" "vm_inv s' D held ps'" "set ps \<subseteq> set ps'" "npages s' = npages s"
      "\<forall>i. \<not> present (phys s d i) \<longrightarrow> \<not> present (phys s' d i)" "\<forall>i\<in>set js. \<not> present (phys s' d i)"
      "idle_kept s ps s' ps'" "\<forall>d'\<in>D. \<forall>va<UTOP. d' \<noteq> d \<longrightarrow> user_pte s' d' va = user_pte s d' va"
      "\<forall>f. pref s f = 0 \<longrightarrow> f \<notin> set ps \<longrightarrow> phys s' f = phys s f" by blast
    have "flush_pdes d (i # js) s = Some s'" using False s'(1) by (simp add: get_pte_def)
    moreover have "\<forall>k\<in>set (i # js). \<not> present (phys s' d k)" using s'(5,6) False by simp
    ultimately show ?thesis using s'(2-5,7-9) by blast
  next
    case True
    obtain s1 ps1 where s1: "flush_pdes d (i # js) s = flush_pdes d js s1" "vm_inv s1 D held ps1"
      "set ps \<subseteq> set ps1" "npages s1 = npages s" "phys s1 d = (phys s d)(i := 0)"
      "\<forall>d'\<in>D. \<forall>va<UTOP. d' \<noteq> d \<longrightarrow> user_pte s1 d' va = user_pte s d' va"
      "idle_kept s ps s1 ps1" "\<forall>f. pref s f = 0 \<longrightarrow> phys s1 f = phys s f"
      using flush_pde_ok [OF Cons.prems(1,2) i True] by blast
    from Cons.IH [OF s1(2) Cons.prems(2) js] obtain s' ps' where s':
      "flush_pdes d js s1 = Some s'" "vm_inv s' D held ps'" "set ps1 \<subseteq> set ps'" "npages s' = npages s1"
      "\<forall>i. \<not> present (phys s1 d i) \<longrightarrow> \<not> present (phys s' d i)" "\<forall>i\<in>set js. \<not> present (phys s' d i)"
      "idle_kept s1 ps1 s' ps'" "\<forall>d'\<in>D. \<forall>va<UTOP. d' \<noteq> d \<longrightarrow> user_pte s' d' va = user_pte s1 d' va"
      "\<forall>f. pref s1 f = 0 \<longrightarrow> f \<notin> set ps1 \<longrightarrow> phys s' f = phys s1 f" by blast
    have z: "\<not> present (0 :: u32)" by simp
    have "\<forall>k. \<not> present (phys s d k) \<longrightarrow> \<not> present (phys s' d k)" using s'(5) s1(5) z by simp
    moreover have "\<forall>k\<in>set (i # js). \<not> present (phys s' d k)" using s'(5,6) s1(5) z by simp
    moreover have "phys s' f = phys s f" if "pref s f = 0" "f \<notin> set ps" for f
      using s1(7,8) s'(9) that by (simp add: idle_kept_def)
    ultimately show ?thesis
      using s'(1-4,7,8) s1(1,3,4,6) idle_kept_trans [OF s1(7) s'(7)]
      by (intro exI [of _ s'] exI [of _ ps']) auto
  qed
next
  case Nil
  then show ?case by (intro exI [of _ s] exI [of _ ps]) simp
qed

text \<open>The pages to be mapped, each with the node that says where.\<close>

definition resume_list :: "'z pmem_scheme \<Rightarrow> nat list \<Rightarrow> (saved_page \<times> nat) list \<Rightarrow> bool" where
  "resume_list k ps xs \<longleftrightarrow> distinct (map snd xs) \<and> distinct (map (\<lambda>x. PGNUM (page_vm (fst x))) xs) \<and>
     (\<forall>x\<in>set xs. page_vm (fst x) < UTOP \<and> page_perm (fst x) AND NOT 0xFFF = 0 \<and>
        snd x < npages k \<and> pref k (snd x) = 0 \<and> snd x \<notin> set ps)"

text \<open>\<open>resumed\<close>: the pages of \<open>xs\<close> have been mapped in the directory and nothing else has changed.\<close>

definition resumed :: "nat \<Rightarrow> nat set \<Rightarrow> nat list \<Rightarrow> (saved_page \<times> nat) list \<Rightarrow> 'z pmem_scheme \<Rightarrow> nat list \<Rightarrow> 'z pmem_scheme \<Rightarrow> bool" where
  "resumed d D ps xs k ps' k' \<longleftrightarrow>
     (\<forall>x\<in>set xs. \<forall>va<UTOP. same_page va (page_vm (fst x)) \<longrightarrow>
        user_pte k' d va = Some (page2pa (snd x) OR page_perm (fst x) OR PTE_P)) \<and>
     (\<forall>va<UTOP. (\<forall>x\<in>set xs. \<not> same_page va (page_vm (fst x))) \<longrightarrow> user_pte k' d va = user_pte k d va) \<and>
     (\<forall>d'\<in>D. d' \<noteq> d \<longrightarrow> (\<forall>va<UTOP. user_pte k' d' va = user_pte k d' va)) \<and>
     (\<forall>q. pref k q = 0 \<longrightarrow> q \<notin> set ps \<longrightarrow> q \<notin> snd ` set xs \<longrightarrow>
        pref k' q = 0 \<and> q \<notin> set ps' \<and> phys k' q = phys k q) \<and>
     (\<forall>va<UTOP. \<forall>e. user_pte k d va = Some e \<longrightarrow> (\<forall>x\<in>set xs. \<not> same_page va (page_vm (fst x))) \<longrightarrow>
        phys k' (ppn_of e) = phys k (ppn_of e)) \<and>
     (\<forall>x\<in>set xs. phys k' (snd x) = phys k (snd x)) \<and> npages k' = npages k"

lemma resumedD:
  assumes "resumed d D ps xs k ps' k'"
  shows "x \<in> set xs \<Longrightarrow> va < UTOP \<Longrightarrow> same_page va (page_vm (fst x)) \<Longrightarrow>
      user_pte k' d va = Some (page2pa (snd x) OR page_perm (fst x) OR PTE_P)"
    "va < UTOP \<Longrightarrow> \<forall>x\<in>set xs. \<not> same_page va (page_vm (fst x)) \<Longrightarrow> user_pte k' d va = user_pte k d va"
    "d' \<in> D \<Longrightarrow> d' \<noteq> d \<Longrightarrow> va < UTOP \<Longrightarrow> user_pte k' d' va = user_pte k d' va"
    "pref k q = 0 \<Longrightarrow> q \<notin> set ps \<Longrightarrow> q \<notin> snd ` set xs \<Longrightarrow> pref k' q = 0 \<and> q \<notin> set ps' \<and> phys k' q = phys k q"
    "va < UTOP \<Longrightarrow> user_pte k d va = Some e \<Longrightarrow> \<forall>x\<in>set xs. \<not> same_page va (page_vm (fst x)) \<Longrightarrow>
      phys k' (ppn_of e) = phys k (ppn_of e)"
    "x \<in> set xs \<Longrightarrow> phys k' (snd x) = phys k (snd x)" "npages k' = npages k"
  using assms unfolding resumed_def by blast+

lemma resumed_Nil: "resumed d D ps [] k ps k"
  by (simp add: resumed_def)

lemma resume_list_rest:
  assumes "resume_list k ps (x # xs)" "y \<in> set xs"
  shows "snd y \<noteq> snd x" "\<not> same_page (page_vm (fst x)) (page_vm (fst y))" "pref k (snd y) = 0" "snd y \<notin> set ps"
proof -
  have "snd x \<notin> snd ` set xs" "PGNUM (page_vm (fst x)) \<notin> (\<lambda>x. PGNUM (page_vm (fst x))) ` set xs"
    using assms(1) by (simp_all add: resume_list_def)
  then show "snd y \<noteq> snd x" "\<not> same_page (page_vm (fst x)) (page_vm (fst y))"
    using assms(2) by (metis image_eqI)+
  show "pref k (snd y) = 0" "snd y \<notin> set ps"
    using assms by (simp_all add: resume_list_def)
qed

lemma resumed_first:
  assumes v: "vm_inv k D held ps" and d: "d \<in> D" and list: "resume_list k ps (x # xs)" and ps: "ps \<noteq> []"
  shows "\<exists>k1 ps1. page_insert d (Some (snd x)) (page_vm (fst x)) (page_perm (fst x)) k = Some (Inr (), k1) \<and>
    vm_inv k1 D held ps1 \<and> resumed d D ps [x] k ps1 k1 \<and> resume_list k1 ps1 xs \<and> length ps - 1 \<le> length ps1"
proof -
  let ?p = "snd x" and ?va = "page_vm (fst x)"
  have x: "?va < UTOP" "page_perm (fst x) AND NOT 0xFFF = 0" "?p < npages k" "pref k ?p = 0" "?p \<notin> set ps"
    using list by (simp_all add: resume_list_def)
  have nt: "\<not> is_table k D ?p" by (rule idle_not_table [OF v x(4)])
  have "unat (pref k ?p) < 65535" using x(4) by simp
  then obtain k1 ps1 where k1: "page_insert d (Some ?p) ?va (page_perm (fst x)) k = Some (Inr (), k1)" "vm_inv k1 D held ps1"
      "npages k1 = npages k" "set (tl ps) \<subseteq> set ps1" "idle_but ?p k ps k1 ps1"
      "\<forall>f. \<not> is_table k D f \<longrightarrow> f \<notin> set ps \<longrightarrow> phys k1 f = phys k f"
      "\<forall>d'\<in>D. \<forall>va'<UTOP. user_pte k1 d' va' =
         (if d' = d \<and> same_page va' ?va then Some (page2pa ?p OR page_perm (fst x) OR PTE_P) else user_pte k d' va')"
    using page_insert_ok [OF v d x(1,3) nt x(5) _ x(2)] ps by blast
  have "phys k1 (ppn_of e) = phys k (ppn_of e)" if "user_pte k d va = Some e" "va < UTOP" for va e
  proof -
    have "\<not> is_table k D (ppn_of e)"
      by (rule vm_mapped_not_table [OF v pte_site [OF d that(2)] user_pte_site [OF that(1)]])
    moreover have "ppn_of e \<notin> set ps"
      using mapped_frame(2) [OF v d that(2,1)] vm_avail [OF v] by (auto simp: avail_def)
    ultimately show ?thesis using k1(6) by blast
  qed
  then have "resumed d D ps [x] k ps1 k1"
    using k1(3,5-7) x(5) nt d idle_not_table [OF v] by (auto simp: resumed_def idle_but_def)
  moreover have "pref k1 (snd y) = 0 \<and> snd y \<notin> set ps1" if "y \<in> set xs" for y
    using k1(5) resume_list_rest [OF list that] by (simp add: idle_but_def)
  then have "resume_list k1 ps1 xs" using list k1(3) by (simp add: resume_list_def)
  moreover have "length ps - 1 \<le> length ps1"
  proof -
    have "length (tl ps) = card (set (tl ps))"
      using distinct_tl [OF avail_distinct [OF vm_avail [OF v]]] by (simp add: distinct_card)
    also have "\<dots> \<le> card (set ps1)" using k1(4) by (simp add: card_mono)
    also have "\<dots> \<le> length ps1" by (rule card_length)
    finally show ?thesis by simp
  qed
  ultimately show ?thesis using k1(1,2) by blast
qed

lemma resumed_next:
  assumes r1: "resumed d D ps [x] k ps1 k1" and r2: "resumed d D ps1 xs k1 ps' k'"
    and list: "resume_list k ps (x # xs)" and ps: "npages k \<le> 2 ^ 20"
  shows "resumed d D ps (x # xs) k ps' k'"
proof -
  let ?e = "page2pa (snd x) OR page_perm (fst x) OR PTE_P"
  have x: "page_vm (fst x) < UTOP" "ppn_of ?e = snd x"
    using list ps ppn_of_entry by (simp_all add: resume_list_def)
  have apart: "\<forall>y\<in>set xs. \<not> same_page (page_vm (fst x)) (page_vm (fst y))" "\<forall>y\<in>set xs. snd y \<noteq> snd x"
    using resume_list_rest [OF list] by blast+
  note D1 = resumedD [OF r1] and D2 = resumedD [OF r2]
  have at: "user_pte k1 d va = Some ?e" if "va < UTOP" "same_page va (page_vm (fst x))" for va
    using D1(1) [of x va] that by simp
  have "phys k' (snd x) = phys k (snd x)"
    using D2(5) [OF x(1) at [OF x(1) refl]] apart(1) D1(6) [of x] x(2) by simp
  moreover have "phys k' (snd y) = phys k (snd y)" if "y \<in> set xs" for y
    using D2(6) [OF that] D1(4) [of "snd y"] resume_list_rest [OF list that] by simp
  ultimately have pages: "\<forall>y\<in>set (x # xs). phys k' (snd y) = phys k (snd y)" by simp
  have first: "user_pte k' d va = Some ?e" if "va < UTOP" "same_page va (page_vm (fst x))" for va
    using D2(2) [OF that(1)] at [OF that] apart(1) that(2) by simp
  show ?thesis
    unfolding resumed_def
    using pages first D1(2-5,7) D2 by (auto simp: image_iff)
qed

lemma resume_insert_maps:
  assumes "vm_inv k D held ps" "d \<in> D" "resume_list k ps xs" "length xs \<le> length ps"
  shows "\<exists>k' ps'. resume_insert d (map (\<lambda>(n, p). (n, Some p)) xs) k = Some (Inr (), k') \<and>
    vm_inv k' D held ps' \<and> resumed d D ps xs k ps' k'"
  using assms
proof (induction xs arbitrary: k ps)
  case Nil
  then show ?case using resumed_Nil by fastforce
next
  case (Cons x xs)
  then have "ps \<noteq> []" by auto
  then obtain k1 ps1 where k1: "page_insert d (Some (snd x)) (page_vm (fst x)) (page_perm (fst x)) k = Some (Inr (), k1)"
      "vm_inv k1 D held ps1" "resumed d D ps [x] k ps1 k1" "resume_list k1 ps1 xs" "length ps - 1 \<le> length ps1"
    using resumed_first [OF Cons.prems(1-3)] by blast
  obtain k' ps' where k': "resume_insert d (map (\<lambda>(n, p). (n, Some p)) xs) k1 = Some (Inr (), k')"
      "vm_inv k' D held ps'" "resumed d D ps1 xs k1 ps' k'"
    using Cons.IH [OF k1(2) Cons.prems(2) k1(4)] k1(5) Cons.prems(4) le_diff_conv by fastforce
  have "resume_insert d (map (\<lambda>(n, p). (n, Some p)) (x # xs)) k = Some (Inr (), k')"
    using k1(1) k'(1) by (simp add: case_prod_beta)
  then show ?case
    using k'(2) resumed_next [OF k1(3) k'(3) Cons.prems(3) vm_npages [OF Cons.prems(1)]] by blast
qed

section \<open>Permissions and pages\<close>

lemma PTE_SYSCALL_mask: "PTE_SYSCALL = 0xE07"
  by (simp add: kdefs)

lemma flags_small: "PTE_FLAGS e AND NOT 0xFFF = 0"
  unfolding PTE_FLAGS_def PTE_SYSCALL_mask by (simp add: and.assoc)

lemma entry_flags: "PTE_FLAGS (page2pa pp OR PTE_FLAGS e OR PTE_P) = PTE_FLAGS e OR PTE_P"
proof -
  have "page2pa pp AND PTE_SYSCALL = 0"
  proof -
    have "page2pa pp AND PTE_SYSCALL = PTE_ADDR (page2pa pp) AND PTE_SYSCALL"
      by (simp add: page2pa_aligned)
    also have "\<dots> = 0"
      unfolding PTE_ADDR_def PTE_SYSCALL_mask by (simp add: and.assoc)
    finally show ?thesis .
  qed
  moreover have "PTE_P AND PTE_SYSCALL = PTE_P"
    by (simp add: kdefs)
  ultimately show ?thesis
    by (simp add: PTE_FLAGS_def bit.conj_disj_distrib2 and.assoc)
qed

lemma present_flags:
  assumes "present e"
  shows "PTE_FLAGS e OR PTE_P = PTE_FLAGS e"
proof -
  have "bit e 0"
    using assms by (simp add: PTE_P_def and_one_eq odd_iff_mod_2_eq_one bit_0 split: if_splits)
  then show ?thesis
    unfolding PTE_FLAGS_def PTE_SYSCALL_mask PTE_P_def
    by (intro bit_word_eqI) (auto simp: bit_simps)
qed

lemma page_number: "unat (PGNUM va) = unat va div 4096"
  by (simp add: PGNUM_def drop_bit_eq_div unat_div)

lemma user_pte_page: "same_page va w \<Longrightarrow> user_pte s d va = user_pte s d w"
  by (simp add: user_pte_def same_page_index cong: option.case_cong if_cong)

lemma user_vas_pages:
  assumes "unat va + n * 4096 \<le> unat UTOP"
  shows "distinct (map PGNUM (user_vas s d n va)) \<and> (\<forall>w\<in>set (user_vas s d n va). PGNUM va \<le> PGNUM w)"
  using assms
proof (induction n arbitrary: va)
  case (Suc n)
  note step = page_step [OF Suc.prems]
  have IH: "distinct (map PGNUM (user_vas s d n (va + PGSIZE)))"
      "\<forall>w\<in>set (user_vas s d n (va + PGSIZE)). PGNUM (va + PGSIZE) \<le> PGNUM w"
    using Suc.IH [of "va + PGSIZE"] step Suc.prems by simp_all
  have "PGNUM va < PGNUM (va + PGSIZE)"
    using step by (simp add: word_less_nat_alt page_number)
  then have "\<forall>w\<in>set (user_vas s d n (va + PGSIZE)). PGNUM va < PGNUM w"
    using IH(2) by fastforce
  then show ?case using IH(1) by auto
qed simp

lemma user_vas_complete:
  assumes "unat base + n * 4096 \<le> unat UTOP" "base \<le> va" "unat va < unat base + n * 4096"
    "unat base mod 4096 = 0" "user_pte s d va \<noteq> None"
  shows "\<exists>w\<in>set (user_vas s d n base). same_page va w"
  using assms
proof (induction n arbitrary: base)
  case 0
  then show ?case by (simp add: word_le_nat_alt)
next
  case (Suc n)
  note step = page_step [OF Suc.prems(1)]
  show ?case
  proof (cases "unat va < unat base + 4096")
    case True
    then have "unat va div 4096 = unat base div 4096"
      using Suc.prems(2,4) by (auto simp: word_le_nat_alt elim!: dvdE simp flip: mod_0_imp_dvd dvd_eq_mod_eq_0)
    then have "same_page va base" by (simp add: word_unat_eq_iff page_number)
    then show ?thesis using Suc.prems(5) user_pte_page [of va base s d] by auto
  next
    case False
    have "(unat base + 4096) mod 4096 = 0" using Suc.prems(4) by simp
    then show ?thesis
      using Suc.IH [of "base + PGSIZE"] Suc.prems step False by (simp add: word_le_nat_alt)
  qed
qed

section \<open>Resuming a snapshot\<close>

lemma zip_map_Some: "zip xs (map Some ys) = map (\<lambda>(x, y). (x, Some y)) (zip xs ys)"
  by (simp add: zip_map2)

lemma length_distinct_subset: "distinct xs \<Longrightarrow> set xs \<subseteq> set ys \<Longrightarrow> length xs \<le> length ys"
  by (metis card_length card_mono distinct_card finite_set order_trans)

lemma flushed_unmapped: "\<forall>i\<in>set [0..<NUPDE]. \<not> present (phys k d i) \<Longrightarrow> va < UTOP \<Longrightarrow> user_pte k d va = None"
  using pdx_user [of va] by (simp add: user_pte_def entry_target_def)

lemma snaps_idle:
  assumes "snaps_ok k ps" "snapshots k i = Some ss" "i < NSNAPSHOTS" "n \<in> set (saved_pages ss)" "saved_page n = Some q"
  shows "q < npages k" "pref k q = 0" "q \<notin> set ps"
proof -
  have "q \<in> set (snap_pages k i)"
    using assms(2,4,5) by (force simp: snap_pages_def List.map_filter_def)
  then show "q < npages k" "pref k q = 0" "q \<notin> set ps"
    using assms(1,3) by (auto simp: snaps_ok_def)
qed

text \<open>What \<open>sys_env_resume\<close> does to memory once the snapshot has been found.\<close>

lemma resume_memory:
  assumes inv: "kinv k held ps fs" and e: "live k e" "env_pgdir (envs k e) = Some d"
    and ss: "snapshots k i = Some ss" "i < NSNAPSHOTS" "2 * length (saved_pages ss) \<le> length ps"
    and nodes: "distinct (map (\<lambda>n. PGNUM (page_vm n)) (saved_pages ss))"
      "\<forall>n\<in>set (saved_pages ss). page_vm n < UTOP \<and> page_perm n AND NOT 0xFFF = 0 \<and> saved_page n \<noteq> None"
  shows "\<exists>new k1 k2 k3 ps3. resume_alloc (saved_pages ss) [] k = Some (True, new, k1) \<and>
    env_flush_addr_space e k1 = Some k2 \<and> envs k2 = (envs k)(e := (envs k e)\<lparr>env_status := ENV_NOT_RUNNABLE\<rparr>) \<and>
    env_free_list k2 = env_free_list k \<and> snapshots k2 = snapshots k \<and>
    resume_insert d (zip (saved_pages ss) new) k2 = Some (Inr (), k3) \<and> vm_inv k3 (dirs k) held ps3 \<and> npages k3 = npages k \<and>
    (\<forall>n\<in>set (saved_pages ss). \<exists>p<2 ^ 20. phys k3 p = phys k (the (saved_page n)) \<and>
      (\<forall>va<UTOP. same_page va (page_vm n) \<longrightarrow> user_pte k3 d va = Some (page2pa p OR page_perm n OR PTE_P))) \<and>
    (\<forall>va<UTOP. (\<forall>n\<in>set (saved_pages ss). \<not> same_page va (page_vm n)) \<longrightarrow> user_pte k3 d va = None) \<and>
    (\<forall>d'\<in>dirs k. d' \<noteq> d \<longrightarrow> (\<forall>va<UTOP. user_pte k3 d' va = user_pte k d' va)) \<and>
    (\<forall>q. pref k q = 0 \<longrightarrow> q \<notin> set ps \<longrightarrow> pref k3 q = 0 \<and> q \<notin> set ps3 \<and> phys k3 q = phys k q)"
proof -
  let ?nodes = "saved_pages ss" let ?c = "length ?nodes" let ?D = "dirs k"
  note kv = inv [unfolded kinv_def, THEN conjunct1] and ks = inv [unfolded kinv_def, THEN conjunct2, THEN conjunct2]
  have d: "d \<in> ?D" by (rule live_pgdir [OF e])
  note dist = avail_distinct [OF vm_avail [OF kv]]
  have free: "p < npages k \<and> pref k p = 0" if "p \<in> set ps" for p
    using vm_avail [OF kv] that by (auto simp: avail_def)
  have "\<forall>n\<in>set ?nodes. \<exists>q. saved_page n = Some q \<and> q < npages k \<and> q \<notin> set ps"
    using nodes(2) snaps_idle [OF ks ss(1,2)] by blast
  then obtain k1 where k1: "resume_alloc ?nodes [] k = Some (True, map Some (take ?c ps), k1)"
      "vm_inv k1 ?D held (drop ?c ps)" "kept_but (take ?c ps) ?D k k1"
      "\<forall>(n, p)\<in>set (zip ?nodes ps). phys k1 p = phys k (the (saved_page n))"
    using resume_alloc_copies [OF kv, of ?nodes "[]"] ss(3) by auto
  have kept: "npages k1 = npages k" "pref k1 q = pref k q" "envs k1 = envs k" for q
    using k1(3) by (simp_all add: kept_but_def same_envs_def)
  have "set [0..<NUPDE] \<subseteq> {..<NUPDE}" by auto
  from flush_pdes_idle [OF k1(2) d this] obtain k1' ps1 where f: "flush_pdes d [0..<NUPDE] k1 = Some k1'"
      "vm_inv k1' ?D held ps1" "set (drop ?c ps) \<subseteq> set ps1" "npages k1' = npages k1"
      "\<forall>i\<in>set [0..<NUPDE]. \<not> present (phys k1' d i)" "idle_kept k1 (drop ?c ps) k1' ps1"
      "\<forall>d'\<in>?D. \<forall>va<UTOP. d' \<noteq> d \<longrightarrow> user_pte k1' d' va = user_pte k1 d' va"
      "\<forall>f. pref k1 f = 0 \<longrightarrow> f \<notin> set (drop ?c ps) \<longrightarrow> phys k1' f = phys k1 f" by blast
  let ?k2 = "upd_env e (\<lambda>v. v\<lparr>env_status := ENV_NOT_RUNNABLE\<rparr>) k1'"
  have envs1: "envs k1' = envs k" using same_envs_flush_pdes [OF f(1)] kept(3) by (simp add: same_envs_def)
  have flush: "env_flush_addr_space e k1 = Some ?k2"
    using f(1) kept(3) e(2) by (simp add: env_flush_addr_space_def NUPDE_def)
  have envs2: "envs ?k2 = (envs k)(e := (envs k e)\<lparr>env_status := ENV_NOT_RUNNABLE\<rparr>)"
    using envs1 by (auto simp: fun_eq_iff)
  have lists2: "env_free_list ?k2 = env_free_list k" "snapshots ?k2 = snapshots k"
    using same_envs_flush_pdes [OF f(1)] k1(3) by (simp_all add: same_envs_def kept_but_def)
  have idle: "pref k1' q = 0 \<and> q \<notin> set ps1 \<and> phys k1' q = phys k1 q" if "pref k q = 0" "q \<notin> set (drop ?c ps)" for q
    using f(6,8) that kept(2) by (simp add: idle_kept_def)
  have apart: "set (take ?c ps) \<inter> set (drop ?c ps) = {}"
    by (rule set_take_disj_set_drop_if_distinct [OF dist order_refl])
  let ?xs = "zip ?nodes (take ?c ps)"
  have c: "?c \<le> length ps" using ss(3) by simp
  have len: "length (take ?c ps) = ?c" using c by simp
  have snds: "map snd ?xs = take ?c ps" and fsts: "map fst ?xs = ?nodes"
    using len by (simp_all add: map_snd_zip map_fst_zip)
  have in_xs: "fst x \<in> set ?nodes \<and> snd x \<in> set (take ?c ps)" if "x \<in> set ?xs" for x
    using that by (metis prod.collapse set_zip_leftD set_zip_rightD)
  have "map (\<lambda>x. PGNUM (page_vm (fst x))) ?xs = map (\<lambda>n. PGNUM (page_vm n)) (map fst ?xs)"
    unfolding map_map comp_def ..
  then have "map (\<lambda>x. PGNUM (page_vm (fst x))) ?xs = map (\<lambda>n. PGNUM (page_vm n)) ?nodes"
    unfolding fsts .
  moreover have "snd x < npages ?k2 \<and> pref ?k2 (snd x) = 0 \<and> snd x \<notin> set ps1" if "x \<in> set ?xs" for x
  proof -
    have "snd x \<in> set ps" "snd x \<notin> set (drop ?c ps)"
      using in_xs [OF that] set_take_subset apart by fast+
    then show ?thesis using free [of "snd x"] idle [of "snd x"] f(4) kept(1) by simp
  qed
  ultimately have list: "resume_list ?k2 ps1 ?xs"
    using nodes in_xs distinct_take [OF dist, of ?c] by (simp add: resume_list_def snds)
  have "length ps - ?c \<le> length ps1"
    using length_distinct_subset [OF distinct_drop [OF dist] f(3)] by simp
  then have "length ?xs \<le> length ps1" using ss(3) by simp
  moreover have "vm_inv ?k2 ?D held ps1" using f(2) by simp
  ultimately obtain k3 ps3 where k3: "resume_insert d (map (\<lambda>(n, p). (n, Some p)) ?xs) ?k2 = Some (Inr (), k3)"
      "vm_inv k3 ?D held ps3" "resumed d ?D ps1 ?xs ?k2 ps3 k3"
    using resume_insert_maps [OF _ d list] by blast
  note R = resumedD [OF k3(3)]
  have u2: "user_pte ?k2 d' va = user_pte k1' d' va" for d' va
    by (simp add: user_pte_def cong: option.case_cong if_cong)
  have none: "user_pte ?k2 d va = None" if "va < UTOP" for va
    using flushed_unmapped [OF f(5) that] u2 by simp
  have new: "\<exists>p<2 ^ 20. phys k3 p = phys k (the (saved_page n)) \<and>
      (\<forall>va<UTOP. same_page va (page_vm n) \<longrightarrow> user_pte k3 d va = Some (page2pa p OR page_perm n OR PTE_P))"
    if n: "n \<in> set ?nodes" for n
  proof -
    obtain m where m: "m < ?c" "n = ?nodes ! m" using n by (metis in_set_conv_nth)
    then have x: "(n, ps ! m) \<in> set ?xs" and z: "(n, ps ! m) \<in> set (zip ?nodes ps)"
      using c by (auto simp: in_set_zip)
    let ?p = "ps ! m"
    have p: "?p \<in> set ps" "?p \<notin> set (drop ?c ps)"
      using in_xs [OF x] set_take_subset apart by fastforce+
    have "phys k3 ?p = phys k1' ?p" using R(6) [OF x] by simp
    also have "\<dots> = phys k (the (saved_page n))" using idle [of ?p] free [of ?p] p k1(4) z by auto
    finally show ?thesis
      using R(1) [OF x] free [OF p(1)] vm_npages [OF kv] by (intro exI [of _ ?p]) simp
  qed
  have rest: "user_pte k3 d va = None" if "va < UTOP" "\<forall>n\<in>set ?nodes. \<not> same_page va (page_vm n)" for va
    using R(2) [OF that(1)] in_xs that(2) none [OF that(1)] by simp
  have others: "user_pte k3 d' va = user_pte k d' va" if "d' \<in> ?D" "d' \<noteq> d" "va < UTOP" for d' va
    using R(3) [OF that] u2 f(7) k1(3) that by (simp add: kept_but_def)
  have keep: "pref k3 q = 0 \<and> q \<notin> set ps3 \<and> phys k3 q = phys k q" if "pref k q = 0" "q \<notin> set ps" for q
  proof -
    have "q \<notin> set (take ?c ps)" "q \<notin> set (drop ?c ps)" using that(2) by (meson in_set_takeD in_set_dropD)+
    then have "q \<notin> snd ` set ?xs" using snds by (metis image_set)
    then show ?thesis
      using R(4) [of q] idle [OF that(1) \<open>q \<notin> set (drop ?c ps)\<close>] k1(3) \<open>q \<notin> set (take ?c ps)\<close> by (simp add: kept_but_def)
  qed
  have "npages k3 = npages k" using R(7) f(4) kept(1) by simp
  then show ?thesis
    using k1(1) flush envs2 lists2 k3(1,2) new rest others keep
    by (intro exI [of _ "map Some (take ?c ps)"] exI [of _ k1] exI [of _ ?k2] exI [of _ k3] exI [of _ ps3])
      (simp add: zip_map_Some)
qed

lemma same_envs_resume_insert: "resume_insert d xs k = Some (r, k') \<Longrightarrow> same_envs k k'"
proof (induction d xs k rule: resume_insert.induct)
  case (2 d cur p rest k)
  then obtain r1 k1 where k1: "page_insert d p (page_vm cur) (page_perm cur) k = Some (r1, k1)"
    by (auto simp: bind_eq_Some_conv)
  note se = same_envs_insert [OF k1]
  show ?case
  proof (cases r1)
    case (Inl err)
    then show ?thesis using 2(2) k1 se by simp
  next
    case (Inr u)
    then show ?thesis using 2 k1 same_envs_trans [OF se] by auto
  qed
qed simp

text \<open>The invariant does not depend on a live environment's registers and on which live state it is in.\<close>

lemma kinv_live_env:
  fixes k k' :: "'z kernel_scheme"
  assumes inv: "kinv k held ps fs" and e: "live k e" and st: "env_status (f (envs k e)) \<noteq> ENV_FREE"
    and f: "env_pgdir (f (envs k e)) = env_pgdir (envs k e)" "env_id (f (envs k e)) = env_id (envs k e)"
      "env_link (f (envs k e)) = env_link (envs k e)"
    and k': "envs k' = (envs k)(e := f (envs k e))" "env_free_list k' = env_free_list k" "snapshots k' = snapshots k"
      "npages k' = npages k" "vm_inv k' (dirs k) held ps'" "\<forall>q. pref k q = 0 \<longrightarrow> q \<notin> set ps \<longrightarrow> pref k' q = 0 \<and> q \<notin> set ps'"
  shows "kinv k' held ps' fs" "dirs k' = dirs k"
proof -
  note kt = inv [unfolded kinv_def, THEN conjunct2, THEN conjunct1] and ks = inv [unfolded kinv_def, THEN conjunct2, THEN conjunct2]
  have l: "live k' x = live k x" for x using e st k'(1) by (auto simp: live_def)
  have g: "env_pgdir (envs k' x) = env_pgdir (envs k x)" "env_id (envs k' x) = env_id (envs k x)"
    "env_link (envs k' x) = env_link (envs k x)" for x
    using f k'(1) by auto
  show D: "dirs k' = dirs k" by (simp add: dirs_def l g)
  have "{x. x < NENV \<and> env_status (envs k' x) = ENV_FREE} = {x. x < NENV \<and> env_status (envs k x) = ENV_FREE}"
    using l unfolding live_def by blast
  then have "env_table k' fs" using kt by (simp add: env_table_def l g k'(2))
  moreover have "snaps_ok k' ps'"
    using snaps_ok_mono [OF ks k'(3,4)] k'(6) by (simp add: idle_kept_def)
  ultimately show "kinv k' held ps' fs" using k'(5) D by (simp add: kinv_def)
qed

lemma env_resume_restores:
  assumes inv: "kinv k held ps fs" and e: "envid2env envid True k = Some (Inr (Some e))" "live k e"
      "env_pgdir (envs k e) = Some d"
    and ss: "snapshots k i = Some ss" "i < NSNAPSHOTS" "2 * length (saved_pages ss) \<le> length ps" "ss_envid ss = envid"
    and nodes: "distinct (map (\<lambda>n. PGNUM (page_vm n)) (saved_pages ss))"
      "\<forall>n\<in>set (saved_pages ss). page_vm n < UTOP \<and> page_perm n AND NOT 0xFFF = 0 \<and> saved_page n \<noteq> None"
  shows "\<exists>k' ps'. sys_env_resume j envid (word_of_nat i) k = Some (Inr 0, k') \<and> kinv k' held ps' fs \<and>
    (\<forall>n\<in>set (saved_pages ss). \<exists>p<2 ^ 20. phys k' p = phys k (the (saved_page n)) \<and>
      (\<forall>va<UTOP. same_page va (page_vm n) \<longrightarrow> user_pte k' d va = Some (page2pa p OR page_perm n OR PTE_P))) \<and>
    (\<forall>va<UTOP. (\<forall>n\<in>set (saved_pages ss). \<not> same_page va (page_vm n)) \<longrightarrow> user_pte k' d va = None) \<and>
    (\<forall>d'\<in>dirs k. d' \<noteq> d \<longrightarrow> (\<forall>va<UTOP. user_pte k' d' va = user_pte k d' va)) \<and>
    env_pgdir (envs k' e) = Some d \<and> tf_regs (env_tf (envs k' e)) = utf_regs (ss_utf ss) \<and>
    tf_eip (env_tf (envs k' e)) = utf_eip (ss_utf ss) \<and> tf_esp (env_tf (envs k' e)) = utf_esp (ss_utf ss) \<and>
    tf_eflags (env_tf (envs k' e)) = utf_eflags (ss_utf ss)"
proof -
  obtain new k1 k2 k3 ps3 where m: "resume_alloc (saved_pages ss) [] k = Some (True, new, k1)"
      "env_flush_addr_space e k1 = Some k2" "envs k2 = (envs k)(e := (envs k e)\<lparr>env_status := ENV_NOT_RUNNABLE\<rparr>)"
      "env_free_list k2 = env_free_list k" "snapshots k2 = snapshots k"
      "resume_insert d (zip (saved_pages ss) new) k2 = Some (Inr (), k3)" "vm_inv k3 (dirs k) held ps3" "npages k3 = npages k"
      "\<forall>n\<in>set (saved_pages ss). \<exists>p<2 ^ 20. phys k3 p = phys k (the (saved_page n)) \<and>
        (\<forall>va<UTOP. same_page va (page_vm n) \<longrightarrow> user_pte k3 d va = Some (page2pa p OR page_perm n OR PTE_P))"
      "\<forall>va<UTOP. (\<forall>n\<in>set (saved_pages ss). \<not> same_page va (page_vm n)) \<longrightarrow> user_pte k3 d va = None"
      "\<forall>d'\<in>dirs k. d' \<noteq> d \<longrightarrow> (\<forall>va<UTOP. user_pte k3 d' va = user_pte k d' va)"
      "\<forall>q. pref k q = 0 \<longrightarrow> q \<notin> set ps \<longrightarrow> pref k3 q = 0 \<and> q \<notin> set ps3 \<and> phys k3 q = phys k q"
    using resume_memory [OF inv e(2,3) ss(1-3) nodes] by auto
  note se = same_envs_resume_insert [OF m(6)]
  let ?utf = "ss_utf ss"
  let ?k4 = "upd_env e (\<lambda>v. v\<lparr>env_tf := (env_tf v)\<lparr>tf_eflags := utf_eflags ?utf, tf_esp := utf_esp ?utf,
    tf_eip := utf_eip ?utf, tf_regs := utf_regs ?utf\<rparr>\<rparr>) k3"
  let ?st = "if curenv ?k4 = Some e then ENV_RUNNING else ENV_RUNNABLE"
  let ?k5 = "upd_env e (\<lambda>v. v\<lparr>env_status := ?st\<rparr>) ?k4"
  have "sint (word_of_nat i :: u32) = int i" "unat (word_of_nat i :: u32) = i"
    using ss(2) by (simp_all add: NSNAPSHOTS_def sint_uint uint_nat unat_of_nat take_bit_nat_eq_self signed_take_bit_int_eq_self)
  then have id: "id2snapshot (word_of_nat i) k = Some ss"
    using ss(1,2) by (simp add: id2snapshot_def)
  have dir: "env_pgdir (envs k2 e) = Some d" using m(3) e(3) by simp
  have run: "sys_env_resume j envid (word_of_nat i) k = Some (Inr 0, ?k5)"
    using e(1) id ss(4) m(1,2,6) dir by (simp add: sys_env_resume_def with_env_def Let_def)
  let ?f = "\<lambda>v. v\<lparr>env_status := ?st, env_tf := (env_tf v)\<lparr>tf_eflags := utf_eflags ?utf, tf_esp := utf_esp ?utf,
    tf_eip := utf_eip ?utf, tf_regs := utf_regs ?utf\<rparr>\<rparr>"
  have envs5: "envs ?k5 = (envs k)(e := ?f (envs k e))"
    using se m(3) by (auto simp: same_envs_def fun_eq_iff)
  have lists5: "env_free_list ?k5 = env_free_list k" "snapshots ?k5 = snapshots k" "npages ?k5 = npages k"
    using se m(4,5,8) by (simp_all add: same_envs_def)
  have "vm_inv ?k5 (dirs k) held ps3" using m(7) by simp
  moreover have "\<forall>q. pref k q = 0 \<longrightarrow> q \<notin> set ps \<longrightarrow> pref ?k5 q = 0 \<and> q \<notin> set ps3" using m(12) by simp
  ultimately have kinv5: "kinv ?k5 held ps3 fs"
    by (intro kinv_live_env(1) [where f="?f", OF inv e(2) _ _ _ _ envs5 lists5]) simp_all
  have u5: "user_pte ?k5 d' va = user_pte k3 d' va" for d' va
    by (simp add: user_pte_def cong: option.case_cong if_cong)
  have tf5: "env_pgdir (envs ?k5 e) = Some d" "tf_regs (env_tf (envs ?k5 e)) = utf_regs ?utf" "tf_eip (env_tf (envs ?k5 e)) = utf_eip ?utf"
    "tf_esp (env_tf (envs ?k5 e)) = utf_esp ?utf" "tf_eflags (env_tf (envs ?k5 e)) = utf_eflags ?utf"
    unfolding envs5 using e(3) by simp_all
  have ph: "phys ?k5 = phys k3" by simp
  note mem = m(9-11) [folded u5 ph]
  show ?thesis by (intro exI [of _ ?k5] exI [of _ ps3] conjI run kinv5 tf5 mem)
qed

section \<open>Rolling back\<close>

text \<open>What a process can see of its memory: for each address, whether it is mapped, with which permissions and to which contents.\<close>

definition view :: "'z pmem_scheme \<Rightarrow> nat \<Rightarrow> u32 \<Rightarrow> (u32 \<times> (nat \<Rightarrow> u32)) option" where
  "view s d va = map_option (\<lambda>e. (PTE_FLAGS e, phys s (ppn_of e))) (user_pte s d va)"

lemma user_pte_present: "user_pte s d va = Some e \<Longrightarrow> present e"
  by (auto simp: user_pte_def split: option.splits if_splits)

lemma restored_view:
  assumes "user_pte k d w = Some e" "same_page va w" "p < 2 ^ 20" "phys k3 p = phys k (ppn_of e)"
    and "user_pte k3 d3 va = Some (page2pa p OR PTE_FLAGS e OR PTE_P)"
  shows "view k3 d3 va = view k d va"
proof -
  have "user_pte k d va = Some e" using assms(1) user_pte_page [OF assms(2), of k d] by simp
  moreover have "PTE_FLAGS (page2pa p OR PTE_FLAGS e OR PTE_P) = PTE_FLAGS e"
    unfolding entry_flags by (rule present_flags [OF user_pte_present [OF assms(1)]])
  moreover have "ppn_of (page2pa p OR PTE_FLAGS e OR PTE_P) = p"
    by (rule ppn_of_entry [OF assms(3) flags_small])
  ultimately show ?thesis using assms(4,5) by (simp add: view_def)
qed

text \<open>The nodes of a snapshot, put back, give the view of the moment it was taken.\<close>

lemma view_of_saved:
  assumes vm: "map page_vm ns = mapped_pages k d" and sv: "\<forall>n\<in>set ns. saves k d k1 n"
    and ph: "\<forall>n\<in>set ns. phys k2 (the (saved_page n)) = phys k1 (the (saved_page n))"
    and new: "\<forall>n\<in>set ns. \<exists>p<2 ^ 20. phys k3 p = phys k2 (the (saved_page n)) \<and>
      (\<forall>va<UTOP. same_page va (page_vm n) \<longrightarrow> user_pte k3 d3 va = Some (page2pa p OR page_perm n OR PTE_P))"
    and none: "\<forall>va<UTOP. (\<forall>n\<in>set ns. \<not> same_page va (page_vm n)) \<longrightarrow> user_pte k3 d3 va = None"
    and va: "UTEXT \<le> va" "va < UTOP"
  shows "view k3 d3 va = view k d va"
proof (cases "\<exists>n\<in>set ns. same_page va (page_vm n)")
  case True
  then obtain n where n: "n \<in> set ns" "same_page va (page_vm n)" by blast
  then obtain e where e: "user_pte k d (page_vm n) = Some e" "page_perm n = PTE_FLAGS e"
      "phys k1 (the (saved_page n)) = phys k (ppn_of e)"
    using sv by (fastforce simp: saves_def)
  obtain p where "p < 2 ^ 20" "phys k3 p = phys k2 (the (saved_page n))"
      "user_pte k3 d3 va = Some (page2pa p OR page_perm n OR PTE_P)"
    using new n va(2) by blast
  then show ?thesis using restored_view [OF e(1) n(2)] e(2,3) ph n(1) by simp
next
  case False
  have "user_pte k d va = None"
  proof (rule ccontr)
    assume m: "user_pte k d va \<noteq> None"
    have "unat va < unat UTEXT + user_pages * 4096" using va(2) by (simp add: word_less_nat_alt user_pages_def kdefs)
    moreover have "unat UTEXT mod 4096 = 0" by (simp add: kdefs)
    ultimately obtain w where "w \<in> set (mapped_pages k d)" "same_page va w"
      using user_vas_complete [OF user_pages_range va(1) _ _ m] unfolding mapped_pages_def by metis
    then show False using False unfolding vm [symmetric] by auto
  qed
  then show ?thesis using none False va(2) by (simp add: view_def)
qed

lemma saved_nodes_ok:
  assumes vm: "map page_vm ns = mapped_pages k d" and sv: "\<forall>n\<in>set ns. saves k d k1 n"
  shows "distinct (map (\<lambda>n. PGNUM (page_vm n)) ns)"
    "\<forall>n\<in>set ns. page_vm n < UTOP \<and> page_perm n AND NOT 0xFFF = 0 \<and> saved_page n \<noteq> None"
proof -
  have "map (\<lambda>n. PGNUM (page_vm n)) ns = map PGNUM (mapped_pages k d)"
    unfolding vm [symmetric] by simp
  then show "distinct (map (\<lambda>n. PGNUM (page_vm n)) ns)"
    using user_vas_pages [OF user_pages_range] unfolding mapped_pages_def by metis
  show "\<forall>n\<in>set ns. page_vm n < UTOP \<and> page_perm n AND NOT 0xFFF = 0 \<and> saved_page n \<noteq> None"
  proof
    fix n assume n: "n \<in> set ns"
    then have "page_vm n \<in> set (mapped_pages k d)" unfolding vm [symmetric] by simp
    then have "page_vm n < UTOP"
      using user_vas_range [OF _ user_pages_range] unfolding mapped_pages_def by blast
    then show "page_vm n < UTOP \<and> page_perm n AND NOT 0xFFF = 0 \<and> saved_page n \<noteq> None"
      using sv n flags_small by (auto simp: saves_def)
  qed
qed

text \<open>
  C26: taking a snapshot succeeds when a slot and as many free pages as the process maps are
  left, and \<open>sys_env_resume\<close>, called in any later state in which the snapshot still stands and enough pages
  are free, gives the process back the memory it had from \<open>UTEXT\<close> to \<open>UTOP\<close> - the same addresses mapped,
  with the same permissions and contents - and the registers it had, whatever it has done to them in the
  meantime; the other processes' mappings are untouched and both states keep the kernel's invariant.
\<close>

theorem snapshot_rolls_back:
  fixes k :: "'z kernel_scheme"
  assumes "kinv k held ps fs" "envid2env envid True k = Some (Inr (Some e))" "live k e"
      "env_pgdir (envs k e) = Some d" "find (\<lambda>i. snapshots k i = None) [0..<NSNAPSHOTS] = Some i"
      "mapped_pages k d \<noteq> []" "length (mapped_pages k d) \<le> length ps"
  shows "\<exists>k1. sys_env_snapshot j envid k = Some (Inr (word_of_nat i), k1) \<and>
    kinv k1 held (drop (length (mapped_pages k d)) ps) fs \<and> envs k1 = envs k \<and> curenv k1 = curenv k \<and>
    (\<forall>d'\<in>dirs k. \<forall>va<UTOP. user_pte k1 d' va = user_pte k d' va) \<and>
    (\<forall>(k2 :: 'z kernel_scheme) held2 ps2 fs2 d2 j2.
       kinv k2 held2 ps2 fs2 \<longrightarrow> envid2env envid True k2 = Some (Inr (Some e)) \<longrightarrow> live k2 e \<longrightarrow>
       env_pgdir (envs k2 e) = Some d2 \<longrightarrow> snapshots k2 i = snapshots k1 i \<longrightarrow>
       (\<forall>p\<in>set (snap_pages k1 i). phys k2 p = phys k1 p) \<longrightarrow> 2 * length (mapped_pages k d) \<le> length ps2 \<longrightarrow>
       (\<exists>k3 ps3. sys_env_resume j2 envid (word_of_nat i) k2 = Some (Inr 0, k3) \<and> kinv k3 held2 ps3 fs2 \<and>
          (\<forall>va. UTEXT \<le> va \<longrightarrow> va < UTOP \<longrightarrow> view k3 d2 va = view k d va) \<and>
          (\<forall>d'\<in>dirs k2. d' \<noteq> d2 \<longrightarrow> (\<forall>va<UTOP. user_pte k3 d' va = user_pte k2 d' va)) \<and>
          env_pgdir (envs k3 e) = Some d2 \<and>
          tf_regs (env_tf (envs k3 e)) = tf_regs (env_tf (envs k e)) \<and>
          tf_eip (env_tf (envs k3 e)) = tf_eip (env_tf (envs k e)) \<and>
          tf_esp (env_tf (envs k3 e)) = tf_esp (env_tf (envs k e)) \<and>
          tf_eflags (env_tf (envs k3 e)) = tf_eflags (env_tf (envs k e))))"
proof -
  obtain k1 ss where k1: "sys_env_snapshot j envid k = Some (Inr (word_of_nat i), k1)"
      "kinv k1 held (drop (length (mapped_pages k d)) ps) fs" "envs k1 = envs k" "curenv k1 = curenv k"
      "\<forall>d'\<in>dirs k. \<forall>va<UTOP. user_pte k1 d' va = user_pte k d' va"
    and ss: "snapshots k1 i = Some ss" "ss_envid ss = envid" "map page_vm (saved_pages ss) = mapped_pages k d"
      "\<forall>n\<in>set (saved_pages ss). saves k d k1 n"
      "utf_regs (ss_utf ss) = tf_regs (env_tf (envs k e))" "utf_eip (ss_utf ss) = tf_eip (env_tf (envs k e))"
      "utf_esp (ss_utf ss) = tf_esp (env_tf (envs k e))" "utf_eflags (ss_utf ss) = tf_eflags (env_tf (envs k e))"
    using env_snapshot_saves [OF assms, of j] by blast
  have i: "i < NSNAPSHOTS" using find_index [OF assms(5)] by blast
  have len: "length (saved_pages ss) = length (mapped_pages k d)" unfolding ss(3) [symmetric] by simp
  have saved: "the (saved_page n) \<in> set (snap_pages k1 i)" if "n \<in> set (saved_pages ss)" for n
    using ss(1,4) that by (force simp: snap_pages_def saves_def List.map_filter_def)
  note nodes = saved_nodes_ok [OF ss(3,4)]
  show ?thesis
  proof (rule exI [of _ k1], intro conjI k1 allI impI, goal_cases)
    case (1 k2 held2 ps2 fs2 d2 j2)
    have sn: "snapshots k2 i = Some ss" using 1(5) ss(1) by simp
    have n: "2 * length (saved_pages ss) \<le> length ps2" using 1(7) len by simp
    have ph: "\<forall>n\<in>set (saved_pages ss). phys k2 (the (saved_page n)) = phys k1 (the (saved_page n))"
      using 1(6) saved by blast
    obtain k3 ps3 where k3: "sys_env_resume j2 envid (word_of_nat i) k2 = Some (Inr 0, k3)" "kinv k3 held2 ps3 fs2"
      and mem: "\<forall>n\<in>set (saved_pages ss). \<exists>p<2 ^ 20. phys k3 p = phys k2 (the (saved_page n)) \<and>
          (\<forall>va<UTOP. same_page va (page_vm n) \<longrightarrow> user_pte k3 d2 va = Some (page2pa p OR page_perm n OR PTE_P))"
        "\<forall>va<UTOP. (\<forall>n\<in>set (saved_pages ss). \<not> same_page va (page_vm n)) \<longrightarrow> user_pte k3 d2 va = None"
      and rest: "\<forall>d'\<in>dirs k2. d' \<noteq> d2 \<longrightarrow> (\<forall>va<UTOP. user_pte k3 d' va = user_pte k2 d' va)"
        "env_pgdir (envs k3 e) = Some d2" "tf_regs (env_tf (envs k3 e)) = utf_regs (ss_utf ss)"
        "tf_eip (env_tf (envs k3 e)) = utf_eip (ss_utf ss)" "tf_esp (env_tf (envs k3 e)) = utf_esp (ss_utf ss)"
        "tf_eflags (env_tf (envs k3 e)) = utf_eflags (ss_utf ss)"
      using env_resume_restores [OF 1(1-4) sn i n ss(2) nodes, of j2] by blast
    show ?case
      using k3 rest view_of_saved [OF ss(3,4) ph mem] ss(5-8) by (intro exI [of _ k3] exI [of _ ps3]) simp
  qed
qed

text \<open>On the concrete kernel: the process overwrites its only page after the snapshot and gets it back.\<close>

lemma demo_page_only:
  assumes "user_pte demo_kernel 5 va \<noteq> None" "va < UTOP"
  shows "same_page va 0x800000"
proof -
  obtain e where "user_pte demo_kernel 5 va = Some e" using assms(1) by auto
  from user_pte_site [OF this] have "pdx va = 2 \<and> ptx va = 0"
    using demo_site [OF pte_site [OF _ assms(2)], of 5 "ppn_of e"] by auto
  moreover have "ptx 0x800000 = 0" by (simp add: PTX_def)
  ultimately show ?thesis unfolding same_page_index demo_pdx(1) by simp
qed

lemma at_most_one_page:
  assumes "\<forall>w<UTOP. user_pte k d w \<noteq> None \<longrightarrow> same_page w b" "unat base + n * 4096 \<le> unat UTOP"
  shows "length (user_vas k d n base) \<le> 1"
proof -
  let ?vas = "user_vas k d n base"
  have "same_page w b" if "w \<in> set ?vas" for w using user_vas_range [OF that assms(2)] assms(1) by blast
  then have "set (map PGNUM ?vas) \<subseteq> {PGNUM b}" by auto
  then have "card (set (map PGNUM ?vas)) \<le> card {PGNUM b}" by (intro card_mono) simp_all
  moreover have "distinct (map PGNUM ?vas)" using user_vas_pages [OF assms(2)] by blast
  ultimately show ?thesis using distinct_card [of "map PGNUM ?vas"] by simp
qed

lemma demo_one_page: "length (mapped_pages demo_kernel 5) = 1" "mapped_pages demo_kernel 5 \<noteq> []"
proof -
  let ?vas = "mapped_pages demo_kernel 5"
  have "length ?vas \<le> 1"
    unfolding mapped_pages_def by (rule at_most_one_page [OF _ user_pages_range, where b = "0x800000"]) (use demo_page_only in blast)
  moreover have "\<exists>w\<in>set ?vas. same_page 0x800000 w"
    unfolding mapped_pages_def by (rule user_vas_complete [OF user_pages_range])
      (simp_all add: demo_user_pte user_pages_def kdefs)
  then show "?vas \<noteq> []" by auto
  ultimately show "length ?vas = 1" by (cases ?vas) auto
qed

lemma kinv_write_page:
  assumes kv: "kinv k held ps fs" and p: "\<not> is_table k (dirs k) p"
  shows "kinv (k\<lparr>phys := (phys k)(p := c)\<rparr>) held ps fs"
proof -
  let ?k = "k\<lparr>phys := (phys k)(p := c)\<rparr>"
  have "vm_inv ?k (dirs k) held ps" by (rule vm_write_frame(1) [OF _ p]) (use kv in \<open>simp_all add: kinv_def\<close>)
  then show ?thesis
    using kv by (simp add: kinv_def env_table_def snaps_ok_def snap_pages_def dirs_def live_def)
qed

theorem snapshot_rolls_back_witness:
  "\<forall>j. \<exists>k1 k3. sys_env_snapshot j 0 demo_kernel = Some (Inr 0, k1) \<and>
     sys_env_resume j 0 0 (k1\<lparr>phys := (phys k1)(4 := (\<lambda>_. 1))\<rparr>) = Some (Inr 0, k3) \<and>
     view k3 5 0x800000 = Some (7, \<lambda>_. 0)" (is "\<forall>j. ?P j")
proof
  fix j
  note va = demo_perms(6)
  have l: "live demo_kernel 0" "env_pgdir (envs demo_kernel 0) = Some 5" by (simp_all add: demo_live)
  have f: "find (\<lambda>i. snapshots demo_kernel i = None) [0..<NSNAPSHOTS] = Some 0"
    by (simp add: NSNAPSHOTS_def upt_conv_Cons)
  have n: "length (mapped_pages demo_kernel 5) \<le> length [2, 3, 8 :: nat]" by (simp add: demo_one_page)
  have ids: "drop (length (mapped_pages demo_kernel 5)) [2, 3, 8] = [3, 8 :: nat]" "2 * length (mapped_pages demo_kernel 5) \<le> length [3, 8 :: nat]"
    by (simp_all add: demo_one_page(1))
  have seen: "view demo_kernel 5 0x800000 = Some (7, \<lambda>_. 0)"
    using demo_user_pte demo_map(8) by (simp add: view_def demo_phys_def PTE_FLAGS_def PTE_SYSCALL_mask fun_eq_iff)
  show "?P j"
    using snapshot_rolls_back [where j = j, OF demo_kinv demo_ids(2) l f demo_one_page(2) n, unfolded ids(1)]
  proof (elim exE conjE, goal_cases)
    case (1 k1)
    let ?k2 = "k1\<lparr>phys := (phys k1)(4 := (\<lambda>_. 1))\<rparr>"
    have envs1: "envs k1 = demo_envs" using 1(3) by simp
    have d: "5 \<in> dirs k1" using envs1 by (auto simp: dirs_def live_def NENV_def)
    have vm: "vm_inv k1 (dirs k1) demo_kheld [3, 8]" using 1(2) by (simp add: kinv_def)
    have e: "user_pte k1 5 0x800000 = Some 0x4007" using 1(5) va demo_user_pte unfolding demo_dirs by simp
    have m: "site_target k1 (Pte 5 (pdx 0x800000) (ptx 0x800000)) = Some 4"
      using user_pte_site [OF e] demo_map(8) by simp
    have nt: "\<not> is_table k1 (dirs k1) 4" by (rule vm_mapped_not_table [OF vm pte_site [OF d va] m])
    have "pref k1 4 \<noteq> 0" using mapped_frame(2) [OF vm d va e] demo_map(8) by simp
    moreover have "snaps_ok k1 [3, 8]" using 1(2) unfolding kinv_def by (elim conjE)
    ultimately have "4 \<notin> set (snap_pages k1 0)" unfolding snaps_ok_def NSNAPSHOTS_def by (meson zero_less_numeral)
    then have keep: "\<forall>p\<in>set (snap_pages k1 0). phys ?k2 p = phys k1 p" by auto
    have k2: "envid2env 0 True ?k2 = Some (Inr (Some 0))" "live ?k2 0" "env_pgdir (envs ?k2 0) = Some 5"
      "snapshots ?k2 0 = snapshots k1 0"
      using envs1 1(4) by (simp_all add: envid2env_def live_def NENV_def curenv_def)
    have "(UTEXT :: u32) \<le> 0x800000" by (simp add: kdefs)
    then show ?case
      using 1(6) [rule_format, OF kinv_write_page [OF 1(2) nt] k2 _ ids(2), of j] keep va seen 1(1) by auto
  qed
qed

end
