(* ===== verification/Fork_Fault.thy ===== *)
theory Fork_Fault
  imports Fork Snapshot_Props
begin

text \<open>
  System calls that a process makes for itself, and what the handler of copy-on-write faults, \<open>pgfault\<close> of \<^verbatim>\<open>lib/fork.c\<close>, makes of
  them: the write that faults gets a private copy of the page.
\<close>

section \<open>Page numbers and entries\<close>

lemma PGNUM_parts: "drop_bit 10 (PGNUM va) = PDX va" "PGNUM va AND 0x3FF = PTX va"
proof -
  have "drop_bit 22 va AND 0x3FF = drop_bit 22 va"
    by (rule bit_word_eqI) (use bit_imp_le_length [of va] in \<open>fastforce simp: mask10 bit_simps\<close>)
  then show "drop_bit 10 (PGNUM va) = PDX va" by (simp add: PGNUM_def PDX_def drop_bit_drop_bit)
qed (simp add: PGNUM_def PTX_def)

lemma uvpt_page: "uvpt d (PGNUM va) s =
  (if present (phys s d (pdx va)) then Some (phys s (ppn_of (phys s d (pdx va))) (ptx va)) else None)"
  by (simp add: uvpt_def uvpd_def PGNUM_parts Let_def)

lemma uvpt_mapped: "user_pte s d va = Some e \<Longrightarrow> uvpt d (PGNUM va) s = Some e \<and> present e \<and> present (uvpd d (PDX va) s)"
  by (auto simp: uvpt_page uvpd_def user_pte_def entry_target_def split: if_splits)

lemma uvpt_unmapped: "user_pte s d va = None \<Longrightarrow>
  (if present (uvpd d (PDX va) s) then map_option (\<lambda>e. present e) (uvpt d (PGNUM va) s) else Some False) = Some False"
  by (auto simp: uvpt_page uvpd_def user_pte_def entry_target_def split: if_splits)

lemma page_start: "\<not> page_offset_bad va \<Longrightarrow> PGNUM va * PGSIZE = va"
proof -
  assume "\<not> page_offset_bad va"
  then have "va AND 0xFFF = 0" by (simp add: page_offset_bad_def PGSIZE_def)
  then have "push_bit 12 (PGNUM va) = va"
    unfolding mask12 PGNUM_def by (metis and.commute take_bit_eq_mask bits_ident [of 12 va] add.right_neutral)
  moreover have "push_bit 12 (PGNUM va) = PGNUM va * PGSIZE" by (simp add: push_bit_eq_mult PGSIZE_def)
  ultimately show ?thesis by simp
qed

lemma ppn_small: "ppn_of e < 2 ^ 20"
  using unat_u32_lt [of "PTE_ADDR e"] by (simp add: ppn_of_def unat_PGNUM less_mult_imp_div_less)

lemma same_envs_ids: "same_envs k k' \<Longrightarrow> curenv k' = curenv k \<and> envid2env i chk k' = envid2env i chk k"
  by (simp add: same_envs_def curenv_def envid2env_def Let_def cong: if_cong option.case_cong)

lemma mapped_frame_safe:
  assumes "kinv k held ps fs" "d \<in> dirs k" "w < UTOP" "user_pte k d w = Some e"
  shows "\<not> is_table k (dirs k) (ppn_of e)" "ppn_of e \<notin> set ps"
proof -
  note kv = assms(1) [unfolded kinv_def, THEN conjunct1]
  note x = pte_site [OF assms(2,3)] user_pte_site [OF assms(4)]
  show "\<not> is_table k (dirs k) (ppn_of e)" by (rule vm_mapped_not_table [OF kv x])
  show "ppn_of e \<notin> set ps" using vm_free_unreferenced [OF kv _ x(1)] x(2) by blast
qed

lemma length_subset: "distinct xs \<Longrightarrow> set (tl xs) \<subseteq> set ys \<Longrightarrow> length xs \<le> length ys + 1"
  using length_distinct_subset [of "tl xs" ys] distinct_tl [of xs] by (cases xs) auto

lemma same_page_nat: "same_page w va \<longleftrightarrow> unat w div 4096 = unat va div 4096"
  by (simp add: word_unat_eq_iff page_number)

lemma page_index: "x div 4096 = j \<longleftrightarrow> 4096 * j \<le> x \<and> x < 4096 * j + (4096 :: nat)"
  using mult_div_mod_eq [of 4096 x] mod_less_divisor [of 4096 x] div_nat_eqI [of 4096 j x] by auto

lemma aligned_page: "unat va mod 4096 = 0 \<Longrightarrow> \<not> page_offset_bad va"
  using page_offset_zero [of va] by (simp add: page_offset_bad_def PGSIZE_def)

section \<open>System calls of the process\<close>

lemma env_by_id:
  assumes "kinv k held ps fs" "live k e" "curenv k = Some c" "e = c \<or> env_parent_id (envs k e) = env_id (envs k c)"
  shows "envid2env (env_id (envs k e)) True k = Some (Inr (Some e))"
proof -
  have "ENVX (env_id (envs k e)) = e" "env_id (envs k e) \<noteq> 0"
    using assms(1,2) by (auto simp: kinv_def env_table_def live_def)
  then show ?thesis using assms(2-4) by (auto simp: envid2env_def live_def)
qed

text \<open>A fresh zeroed page at \<open>va\<close>, in terms of what other pages keep.\<close>

lemma fresh_page:
  assumes inv: "kinv k held ps fs" and e: "envid2env i True k = Some (Inr (Some e))" "live k e" "env_pgdir (envs k e) = Some d"
    and va: "va < UTOP" "\<not> page_offset_bad va" "\<not> perm_invalid perm" and mem: "2 \<le> length ps"
  shows "\<exists>k' ps' p. sys_page_alloc i va perm k = Some (Inr 0, k') \<and> kinv k' held ps' fs \<and> same_envs k k' \<and>
    npages k' = npages k \<and> length ps \<le> length ps' + 2 \<and> (\<forall>q. unat (pref k' q) \<le> Suc (unat (pref k q))) \<and>
    (\<forall>w<UTOP. same_page w va \<longrightarrow> user_pte k' d w = Some (page2pa p OR perm OR PTE_P)) \<and> p < 2 ^ 20 \<and> p \<in> set ps \<and> phys k' p = (\<lambda>_. 0) \<and>
    (\<forall>x\<in>dirs k. \<forall>w<UTOP. \<not> (x = d \<and> same_page w va) \<longrightarrow> user_pte k' x w = user_pte k x w) \<and>
    (\<forall>x\<in>dirs k. \<forall>w<UTOP. \<forall>e. user_pte k x w = Some e \<longrightarrow> phys k' (ppn_of e) = phys k (ppn_of e))"
proof -
  obtain p q qs where ps: "ps = p # q # qs" using mem by (cases ps; cases "tl ps") auto
  note kv = inv [unfolded kinv_def, THEN conjunct1]
  have d: "d \<in> dirs k" by (rule live_pgdir [OF e(2,3)])
  obtain k' ps' where k': "sys_page_alloc i va perm k = Some (Inr 0, k')" "kinv k' held ps' fs" "same_envs k k'"
    "phys k' p = (\<lambda>_. 0)" "npages k' = npages k" "set qs \<subseteq> set ps'" "\<forall>x. unat (pref k' x) \<le> Suc (unat (pref k x))"
    "\<forall>f. \<not> is_table k (dirs k) f \<longrightarrow> f \<notin> set ps \<longrightarrow> phys k' f = phys k f"
    "\<forall>x\<in>dirs k. \<forall>w<UTOP. user_pte k' x w =
       (if x = d \<and> same_page w va then Some (page2pa p OR perm OR PTE_P) else user_pte k x w)"
    using page_alloc_runs [OF inv [unfolded ps] e va] unfolding ps by blast
  have "distinct qs" "p < 2 ^ 20"
    using avail_distinct [OF vm_avail [OF kv]] vm_avail [OF kv] ps by (auto simp: avail_def)
  then have "length ps \<le> length ps' + 2" using length_distinct_subset [OF _ k'(6)] ps by simp
  moreover have "phys k' (ppn_of e) = phys k (ppn_of e)" if "x \<in> dirs k" "w < UTOP" "user_pte k x w = Some e" for x w e
    using k'(8) mapped_frame_safe [OF inv that] by blast
  ultimately show ?thesis using k'(1-5,7,9) d \<open>p < 2 ^ 20\<close> ps by (intro exI [of _ k'] exI [of _ ps'] exI [of _ p]) auto
qed

abbreviation UXSTACK :: u32 where
  "UXSTACK \<equiv> UXSTACKTOP - PGSIZE"

lemma UXSTACK_ok: "UXSTACK < UTOP" "\<not> page_offset_bad UXSTACK" "\<not> perm_invalid (PTE_P OR PTE_U OR PTE_W)"
    "\<not> perm_invalid (PTE_U OR PTE_W OR PTE_P)"
  by (simp_all add: page_offset_bad_def perm_invalid_def kdefs)

lemma entry_write: "(page2pa p OR perm OR PTE_P) AND PTE_W = perm AND PTE_W"
proof -
  have "page2pa p AND PTE_W = PTE_ADDR (page2pa p) AND PTE_W" by (simp add: page2pa_aligned)
  also have "\<dots> = 0" unfolding PTE_ADDR_def by (simp add: and.assoc PTE_W_def)
  finally show ?thesis by (simp add: bit.conj_disj_distrib2 PTE_P_def PTE_W_def)
qed

lemma page_unmap_runs:
  assumes inv: "kinv k held ps fs" and e: "envid2env i True k = Some (Inr (Some e))" "live k e" "env_pgdir (envs k e) = Some d"
    and va: "va < UTOP" "\<not> page_offset_bad va" "user_pte k d va = Some pte"
  shows "\<exists>k' ps'. sys_page_unmap i va k = Some (Inr 0, k') \<and> kinv k' held ps' fs \<and> same_envs k k' \<and>
    npages k' = npages k \<and> set ps \<subseteq> set ps' \<and> (\<forall>q. unat (pref k' q) \<le> unat (pref k q)) \<and>
    (\<forall>x\<in>dirs k. \<forall>w<UTOP. user_pte k' x w = (if x = d \<and> same_page w va then None else user_pte k x w)) \<and>
    (\<forall>x\<in>dirs k. \<forall>w<UTOP. \<forall>e. user_pte k x w = Some e \<longrightarrow> phys k' (ppn_of e) = phys k (ppn_of e))"
proof -
  note kv = inv [unfolded kinv_def, THEN conjunct1] and ks = inv [unfolded kinv_def, THEN conjunct2, THEN conjunct2]
  have d: "d \<in> dirs k" by (rule live_pgdir [OF e(2,3)])
  obtain t where t: "entry_target (phys k d (pdx va)) = Some t" using va(3) by (auto simp: user_pte_def split: option.splits)
  obtain k' ps' where k': "page_remove d va k = Some k'" "vm_inv k' (dirs k) held ps'" "npages k' = npages k"
      "phys k' = phys (set_pte (t, ptx va) 0 k)" "idle_kept k ps k' ps'" "set ps \<subseteq> set ps'"
      "\<forall>q. unat (pref k' q) \<le> unat (pref k q)"
    using page_remove_mapped_phys [OF kv d va(1,3) t] by blast
  have u: "user_pte k' x w = (if x = d \<and> same_page w va then None else user_pte k x w)" if "x \<in> dirs k" "w < UTOP" for x w
    using page_remove_mapped [OF kv d va(1,3)] k'(1) that by auto
  note se = same_envs_remove [OF k'(1)]
  have "snaps_ok k' ps'" using snaps_ok_mono [OF ks _ k'(3,5)] se by (simp add: same_envs_def)
  then have "kinv k' held ps' fs" using kinv_mem [OF inv se k'(3,2)] by blast
  moreover have "is_table k (dirs k) t" unfolding is_table_def using t d pdx_user [OF va(1)] by blast
  then have "phys k' (ppn_of a) = phys k (ppn_of a)" if "x \<in> dirs k" "w < UTOP" "user_pte k x w = Some a" for x w a
    using mapped_frame_safe(1) [OF inv that] k'(4) by (auto simp: set_pte_def)
  moreover have "sys_page_unmap i va k = Some (Inr 0, k')"
    using va(1,2) e k'(1) by (simp add: sys_page_unmap_def with_env_def not_le)
  ultimately show ?thesis using se u k'(3,6,7) by (intro exI [of _ k'] exI [of _ ps']) simp
qed

lemma PFTEMP_ok: "PFTEMP < UTOP" "\<not> page_offset_bad PFTEMP"
  by (simp_all add: page_offset_bad_def kdefs)

lemma page_floor: "same_page (ROUNDDOWN va PGSIZE) va" "\<not> page_offset_bad (ROUNDDOWN va PGSIZE)"
    "va < UTOP \<Longrightarrow> ROUNDDOWN va PGSIZE < UTOP"
proof -
  have "unat (ROUNDDOWN va PGSIZE) = 4096 * (unat va div 4096)" using unat_page_down [of va] by simp
  then show "same_page (ROUNDDOWN va PGSIZE) va" "\<not> page_offset_bad (ROUNDDOWN va PGSIZE)"
    using aligned_page [of "ROUNDDOWN va PGSIZE"] by (simp_all add: same_page_nat)
  show "va < UTOP \<Longrightarrow> ROUNDDOWN va PGSIZE < UTOP"
    using unat_page_down [of va] by (simp add: word_less_nat_alt)
qed

abbreviation PUW :: u32 where
  "PUW \<equiv> PTE_P OR PTE_U OR PTE_W"

lemma PUW_entry:
  assumes "p < 2 ^ 20"
  shows "ppn_of (page2pa p OR PUW OR PTE_P) = p" "(page2pa p OR PUW OR PTE_P) AND PTE_W \<noteq> 0"
    "(page2pa p OR PUW OR PTE_P) AND PTE_U \<noteq> 0" "\<not> perm_invalid PUW"
proof -
  have "PUW AND NOT 0xFFF = (0 :: u32)" by (simp add: kdefs)
  then show "ppn_of (page2pa p OR PUW OR PTE_P) = p" by (rule ppn_of_entry [OF assms])
  show "(page2pa p OR PUW OR PTE_P) AND PTE_W \<noteq> 0" unfolding entry_write by (simp add: kdefs)
  have "bit ((page2pa p OR PUW OR PTE_P) AND PTE_U) 2" by (simp add: kdefs bit_simps bit_numeral_rec)
  then show "(page2pa p OR PUW OR PTE_P) AND PTE_U \<noteq> 0" by (metis bit_0_eq bot_apply bot_bool_def)
qed (rule UXSTACK_ok(3))

text \<open>Writing a page of the process at \<open>dst\<close> with the contents of its page at \<open>src\<close>.\<close>

lemma user_copy_ok:
  assumes inv: "kinv k held ps fs" and c: "curenv k = Some c" "live k c" "env_pgdir (envs k c) = Some d"
    and dst: "dst < UTOP" "user_pte k d dst = Some a" "a AND PTE_U \<noteq> 0" "a AND PTE_W \<noteq> 0"
    and src: "user_pte k d src = Some b" "b AND PTE_U \<noteq> 0"
  shows "\<exists>k'. user_copy_page dst src k = Some k' \<and> kinv k' held ps fs \<and> same_envs k k' \<and> npages k' = npages k \<and> (\<forall>q. pref k' q = pref k q) \<and>
    (\<forall>x\<in>dirs k. \<forall>w<UTOP. user_pte k' x w = user_pte k x w) \<and> phys k' = (phys k)(ppn_of a := phys k (ppn_of b))"
proof -
  note kv = inv [unfolded kinv_def, THEN conjunct1]
  have d: "d \<in> dirs k" by (rule live_pgdir [OF c(2,3)])
  note nt = mapped_frame_safe(1) [OF inv d dst(1,2)]
  let ?k' = "k\<lparr>phys := (phys k)(ppn_of a := phys k (ppn_of b))\<rparr>"
  have "user_copy_page dst src k = Some ?k'"
    using c(1,3) dst(3,4) src(2) uvpt_mapped [OF dst(2)] uvpt_mapped [OF src(1)]
    by (simp add: user_copy_page_def own_dir_def user_frame_def)
  moreover have "kinv ?k' held ps fs" by (rule kinv_write_page [OF inv nt])
  moreover have "user_pte ?k' x w = user_pte k x w" if "x \<in> dirs k" "w < UTOP" for x w
    by (rule vm_write_frame(2) [OF kv nt _ _ _ _ that]) simp_all
  ultimately show ?thesis by (intro exI [of _ ?k']) simp
qed

text \<open>Moving a page of the process from \<open>src\<close> to the place of another one at \<open>dst\<close>.\<close>

lemma move_page:
  assumes inv: "kinv k held ps fs" and c: "envid2env i True k = Some (Inr (Some c))" "live k c" "env_pgdir (envs k c) = Some d"
    and src: "src < UTOP" "\<not> page_offset_bad src" "user_pte k d src = Some a" "a AND PTE_W \<noteq> 0" "unat (pref k (ppn_of a)) < 65535"
    and dst: "dst < UTOP" "\<not> page_offset_bad dst" "user_pte k d dst = Some e" "\<not> same_page dst src"
  shows "\<exists>k1 k' ps'. sys_page_map i src i dst PUW k = Some (Inr 0, k1) \<and> sys_page_unmap i src k1 = Some (Inr 0, k') \<and>
    kinv k' held ps' fs \<and> same_envs k k' \<and> phys k' (ppn_of a) = phys k (ppn_of a) \<and>
    npages k' = npages k \<and> set ps \<subseteq> set ps' \<and> (\<forall>q. unat (pref k' q) \<le> Suc (unat (pref k q))) \<and>
    (\<forall>x\<in>dirs k. \<forall>w<UTOP. user_pte k' x w = (if x = d \<and> same_page w dst then Some (page2pa (ppn_of a) OR PUW OR PTE_P)
       else if x = d \<and> same_page w src then None else user_pte k x w)) \<and>
    (\<forall>x\<in>dirs k. \<forall>w<UTOP. \<forall>b. \<not> (x = d \<and> same_page w dst) \<longrightarrow> user_pte k x w = Some b \<longrightarrow> phys k' (ppn_of b) = phys k (ppn_of b))"
proof -
  have d: "d \<in> dirs k" by (rule live_pgdir [OF c(2,3)])
  have here: "present (phys k d (pdx dst))" using dst(3) by (auto simp: user_pte_def split: option.splits)
  then have pde: "ps \<noteq> [] \<or> present (phys k d (pdx dst))" ..
  obtain k1 ps1 where k1: "sys_page_map i src i dst PUW k = Some (Inr 0, k1)" "kinv k1 held ps1 fs" "same_envs k k1"
    and n1: "npages k1 = npages k" "set ps \<subseteq> set ps1" "\<forall>q. unat (pref k1 q) \<le> Suc (unat (pref k q))"
    and k1': "\<forall>f. \<not> is_table k (dirs k) f \<longrightarrow> f \<notin> set ps \<longrightarrow> phys k1 f = phys k f"
    "\<forall>x\<in>dirs k. \<forall>w<UTOP. user_pte k1 x w = (if x = d \<and> same_page w dst then Some (page2pa (ppn_of a) OR PUW OR PTE_P) else user_pte k x w)"
    using page_map_runs [OF inv c c src(1) dst(1) src(2) dst(2) UXSTACK_ok(3) src(3) _ pde src(5)] src(4) here by blast
  have same1: "live k1 c" "env_pgdir (envs k1 c) = Some d" "dirs k1 = dirs k"
    using k1(3) c same_envs_dirs [OF k1(3)] by (simp_all add: same_envs_def live_def)
  have id1: "envid2env i True k1 = Some (Inr (Some c))" using c(1) same_envs_ids [OF k1(3)] by simp
  have s1: "user_pte k1 d src = Some a" using k1'(2) d src(1,3) dst(4) by auto
  obtain k2 ps2 where k2: "sys_page_unmap i src k1 = Some (Inr 0, k2)" "kinv k2 held ps2 fs" "same_envs k1 k2"
    and n2: "npages k2 = npages k1" "set ps1 \<subseteq> set ps2" "\<forall>q. unat (pref k2 q) \<le> unat (pref k1 q)"
    and k2': "\<forall>x\<in>dirs k1. \<forall>w<UTOP. user_pte k2 x w = (if x = d \<and> same_page w src then None else user_pte k1 x w)"
    "\<forall>x\<in>dirs k1. \<forall>w<UTOP. \<forall>e. user_pte k1 x w = Some e \<longrightarrow> phys k2 (ppn_of e) = phys k1 (ppn_of e)"
    using page_unmap_runs [OF k1(2) id1 same1(1,2) src(1,2) s1] by blast
  have keep: "phys k2 (ppn_of b) = phys k (ppn_of b)"
    if w: "x \<in> dirs k" "w < UTOP" "\<not> (x = d \<and> same_page w dst)" "user_pte k x w = Some b" for x w b
  proof -
    have "user_pte k1 x w = Some b" using k1'(2) w by auto
    then have "phys k2 (ppn_of b) = phys k1 (ppn_of b)" using k2'(2) w(1,2) same1(3) by blast
    then show ?thesis using k1'(1) mapped_frame_safe [OF inv w(1,2,4)] by simp
  qed
  have "user_pte k2 x w = (if x = d \<and> same_page w dst then Some (page2pa (ppn_of a) OR PUW OR PTE_P)
       else if x = d \<and> same_page w src then None else user_pte k x w)" if "x \<in> dirs k" "w < UTOP" for x w
    using k2'(1) k1'(2) that same1(3) dst(4) by auto
  moreover have "phys k2 (ppn_of a) = phys k (ppn_of a)" using keep [OF d src(1) _ src(3)] dst(4) by simp
  moreover have "npages k2 = npages k" "set ps \<subseteq> set ps2" using n1(1,2) n2(1,2) by auto
  moreover have "unat (pref k2 q) \<le> Suc (unat (pref k q))" for q using n1(3) n2(3) le_trans by blast
  ultimately show ?thesis
    using k1(1) k2(1,2) same_envs_trans [OF k1(3) k2(3)] keep by (intro exI [of _ k1] exI [of _ k2] exI [of _ ps2]) blast
qed

section \<open>The fault\<close>

lemma pgfault_ok:
  assumes inv: "kinv k held ps fs" and c: "curenv k = Some c" "live k c" "env_pgdir (envs k c) = Some d"
    and va: "va < UTOP" "user_pte k d va = Some e" "e AND PTE_COW \<noteq> 0" "e AND PTE_U \<noteq> 0" "\<not> same_page va PFTEMP"
    and err: "err AND FEC_WR \<noteq> 0" and mem: "2 \<le> length ps"
  shows "\<exists>k' ps' p. pgfault va err k = Some k' \<and> kinv k' held ps' fs \<and> same_envs k k' \<and> p < 2 ^ 20 \<and>
    npages k' = npages k \<and> length ps \<le> length ps' + 2 \<and> (\<forall>q. unat (pref k' q) \<le> unat (pref k q) + 2) \<and>
    phys k' p = phys k (ppn_of e) \<and>
    (\<forall>x\<in>dirs k. \<forall>w<UTOP. user_pte k' x w =
       (if x = d \<and> same_page w va then Some (page2pa p OR PUW OR PTE_P)
        else if x = d \<and> same_page w PFTEMP then None else user_pte k x w)) \<and>
    (\<forall>x\<in>dirs k. \<forall>w<UTOP. \<forall>a. \<not> (x = d \<and> (same_page w va \<or> same_page w PFTEMP)) \<longrightarrow> user_pte k x w = Some a \<longrightarrow>
       ppn_of a \<noteq> p \<and> phys k' (ppn_of a) = phys k (ppn_of a))"
proof -
  let ?i = "env_id (envs k c)" and ?va = "ROUNDDOWN va PGSIZE"
  note kv = inv [unfolded kinv_def, THEN conjunct1] and fl = page_floor [of va]
  have d: "d \<in> dirs k" by (rule live_pgdir [OF c(2,3)])
  have id: "envid2env ?i True k = Some (Inr (Some c))" by (rule env_by_id [OF inv c(2,1)]) simp
  have e: "user_pte k d ?va = Some e" using user_pte_page [OF fl(1), of k d] va(2) by simp
  obtain k1 ps1 p where k1: "sys_page_alloc ?i PFTEMP PUW k = Some (Inr 0, k1)" "kinv k1 held ps1 fs" "same_envs k k1"
    "\<forall>q. unat (pref k1 q) \<le> Suc (unat (pref k q))" "npages k1 = npages k" "length ps \<le> length ps1 + 2" "user_pte k1 d PFTEMP = Some (page2pa p OR PUW OR PTE_P)"
    "p < 2 ^ 20" "p \<in> set ps" and u1: "\<forall>x\<in>dirs k. \<forall>w<UTOP. user_pte k1 x w = (if x = d \<and> same_page w PFTEMP
      then Some (page2pa p OR PUW OR PTE_P) else user_pte k x w)"
    and ph1: "\<forall>x\<in>dirs k. \<forall>w<UTOP. \<forall>e. user_pte k x w = Some e \<longrightarrow> phys k1 (ppn_of e) = phys k (ppn_of e)"
    using fresh_page [OF inv id c(2,3) PFTEMP_ok UXSTACK_ok(3) mem] PFTEMP_ok(1) by (metis (no_types, lifting))
  note P = PUW_entry [OF k1(8)]
  have same1: "curenv k1 = Some c" "live k1 c" "env_pgdir (envs k1 c) = Some d" "dirs k1 = dirs k" "envs k1 = envs k"
    using k1(3) c same_envs_ids [OF k1(3)] same_envs_dirs [OF k1(3)] by (simp_all add: same_envs_def live_def)
  have "\<not> same_page ?va PFTEMP" using fl(1) va(5) by simp
  then have e1: "user_pte k1 d ?va = Some e" using u1 d e fl(3) va(1) by simp
  obtain k2 where k2: "user_copy_page PFTEMP ?va k1 = Some k2" "kinv k2 held ps1 fs" "same_envs k1 k2" "npages k2 = npages k1" "\<forall>q. pref k2 q = pref k1 q"
    "\<forall>x\<in>dirs k1. \<forall>w<UTOP. user_pte k2 x w = user_pte k1 x w" "phys k2 = (phys k1)(p := phys k1 (ppn_of e))"
    using user_copy_ok [OF k1(2) same1(1-3) PFTEMP_ok(1) k1(7) P(3,2) e1 va(4)] unfolding P(1) by blast
  note se2 = same_envs_trans [OF k1(3) k2(3)]
  have same2: "live k2 c" "env_pgdir (envs k2 c) = Some d" "dirs k2 = dirs k" "envid2env ?i True k2 = Some (Inr (Some c))"
    using se2 c id same_envs_ids [OF se2] same_envs_dirs [OF se2] by (simp_all add: same_envs_def live_def)
  have t2: "user_pte k2 d PFTEMP = Some (page2pa p OR PUW OR PTE_P)" using k2(6) k1(7) PFTEMP_ok(1) d same1(4) by simp
  have e2: "user_pte k2 d ?va = Some e" using k2(6) e1 fl(3) va(1) d same1(4) by simp
  have "pref k p = 0" using vm_avail [OF kv] k1(9) by (auto simp: avail_def)
  then have "unat (pref k2 p) \<le> 1" using k1(4) [rule_format, of p] k2(5) by simp
  then have pr: "unat (pref k2 (ppn_of (page2pa p OR PUW OR PTE_P))) < 65535" unfolding P(1) by simp
  obtain k3 k4 ps4 where k3: "sys_page_map ?i PFTEMP ?i ?va PUW k2 = Some (Inr 0, k3)"
      "sys_page_unmap ?i PFTEMP k3 = Some (Inr 0, k4)" "kinv k4 held ps4 fs" "same_envs k2 k4" "phys k4 p = phys k2 p"
    and n4: "npages k4 = npages k2" "set ps1 \<subseteq> set ps4" "\<forall>q. unat (pref k4 q) \<le> Suc (unat (pref k2 q))"
    and u4: "\<forall>x\<in>dirs k. \<forall>w<UTOP. user_pte k4 x w = (if x = d \<and> same_page w ?va then Some (page2pa p OR PUW OR PTE_P)
       else if x = d \<and> same_page w PFTEMP then None else user_pte k2 x w)"
    and ph4: "\<forall>x\<in>dirs k. \<forall>w<UTOP. \<forall>b. \<not> (x = d \<and> same_page w ?va) \<longrightarrow> user_pte k2 x w = Some b \<longrightarrow>
       phys k4 (ppn_of b) = phys k2 (ppn_of b)"
    using move_page [OF k2(2) same2(4,1,2) PFTEMP_ok t2 P(2) pr fl(3) [OF va(1)] fl(2) e2 \<open>\<not> same_page ?va PFTEMP\<close>]
    unfolding P(1) same2(3) by blast
  have "pgfault va err k = Some k4"
    using c(1,3) uvpt_mapped [OF va(2)] va(3) err k1(1) k2(1) k3(1,2)
    by (simp add: pgfault_def own_dir_def sys_getenvid_def result_word_def Let_def)
  moreover have "user_pte k4 x w = (if x = d \<and> same_page w va then Some (page2pa p OR PUW OR PTE_P)
      else if x = d \<and> same_page w PFTEMP then None else user_pte k x w)" if "x \<in> dirs k" "w < UTOP" for x w
    using u4 k2(6) u1 that same1(4) fl(1) by auto
  moreover have "ppn_of a \<noteq> p \<and> phys k4 (ppn_of a) = phys k (ppn_of a)"
    if w: "x \<in> dirs k" "w < UTOP" "\<not> (x = d \<and> (same_page w va \<or> same_page w PFTEMP))" "user_pte k x w = Some a" for x w a
  proof -
    have m2: "user_pte k2 x w = Some a" using k2(6) u1 w same1(4) by auto
    have "ppn_of a \<noteq> p" using mapped_frame_safe(2) [OF inv w(1,2,4)] k1(9) by blast
    then show ?thesis using ph4 m2 k2(7) ph1 w fl(1) by simp
  qed
  moreover have "npages k4 = npages k" using k1(5) k2(4) n4(1) by simp
  moreover have "unat (pref k4 q) \<le> unat (pref k q) + 2" for q
    using k1(4) [rule_format, of q] k2(5) n4(3) [rule_format, of q] by simp
  moreover have "length ps \<le> length ps4 + 2"
    using k1(6) length_distinct_subset [OF avail_distinct [OF vm_avail [OF k1(2) [unfolded kinv_def, THEN conjunct1]]] n4(2)] by simp
  moreover have "phys k4 p = phys k (ppn_of e)" using k3(5) k2(7) ph1 d va(1,2) by simp
  ultimately show ?thesis
    using k3(3) same_envs_trans [OF se2 k3(4)] k1(8) by (intro exI [of _ k4] exI [of _ ps4] exI [of _ p]) blast
qed

text \<open>A store that does not fault.\<close>

lemma user_store_direct:
  assumes inv: "kinv k held ps fs" and c: "curenv k = Some c" "live k c" "env_pgdir (envs k c) = Some d"
    and e: "esp < UTOP" "user_pte k d esp = Some es" "es AND PTE_U \<noteq> 0" "es AND PTE_W \<noteq> 0"
  shows "\<exists>k'. user_store esp f k = Some k' \<and> kinv k' held ps fs \<and> same_envs k k' \<and> npages k' = npages k \<and>
    (\<forall>q. pref k' q = pref k q) \<and> (\<forall>x\<in>dirs k. \<forall>w<UTOP. user_pte k' x w = user_pte k x w) \<and>
    phys k' = (phys k)(ppn_of es := f (phys k (ppn_of es)))"
proof -
  note kv = inv [unfolded kinv_def, THEN conjunct1]
  have d: "d \<in> dirs k" by (rule live_pgdir [OF c(2,3)])
  note nt = mapped_frame_safe(1) [OF inv d e(1,2)]
  let ?k' = "k\<lparr>phys := (phys k)(ppn_of es := f (phys k (ppn_of es)))\<rparr>"
  have "user_store esp f k = Some ?k'"
    using c(1,3) e(3,4) uvpt_mapped [OF e(2)] by (simp add: user_store_def own_dir_def user_frame_def)
  moreover have "kinv ?k' held ps fs" by (rule kinv_write_page [OF inv nt])
  moreover have "user_pte ?k' x w = user_pte k x w" if "x \<in> dirs k" "w < UTOP" for x w
    by (rule vm_write_frame(2) [OF kv nt _ _ _ _ that]) simp_all
  ultimately show ?thesis by (intro exI [of _ ?k']) simp
qed

end
