(* ===== verification/Fork_Props.thy ===== *)
theory Fork_Props
  imports Fork_Fault
begin

text \<open>
  What \<open>fork\<close> does to the two address spaces: the child sees what its parent sees, and no page that only one of them was meant
  to write is writable by both.
\<close>

section \<open>Copy-on-write entries\<close>

definition becomes_cow :: "u32 \<Rightarrow> bool" where
  "becomes_cow e \<longleftrightarrow> e AND PTE_SHARE = 0 \<and> (e AND PTE_W \<noteq> 0 \<or> e AND PTE_COW \<noteq> 0)"

definition fork_perm :: "u32 \<Rightarrow> u32" where
  "fork_perm e = (if becomes_cow e then PTE_P OR PTE_U OR PTE_COW else PTE_FLAGS e)"

text \<open>The entry that the child gets for the parent's \<open>e\<close>, and the one that the parent keeps.\<close>

definition child_entry :: "u32 \<Rightarrow> u32" where
  "child_entry e = page2pa (ppn_of e) OR fork_perm e OR PTE_P"

definition parent_entry :: "u32 \<Rightarrow> u32" where
  "parent_entry e = (if becomes_cow e then child_entry e else e)"

lemma fork_perm_small: "fork_perm e AND NOT 0xFFF = 0"
  using flags_small [of e] by (simp add: fork_perm_def) (simp add: kdefs PTE_COW_def)

lemma child_entry_ppn [simp]: "ppn_of (child_entry e) = ppn_of e" "ppn_of (parent_entry e) = ppn_of e"
  unfolding child_entry_def parent_entry_def by (simp_all add: ppn_of_entry [OF ppn_small fork_perm_small])

lemma fork_perm_valid: "present e \<Longrightarrow> e AND PTE_U \<noteq> 0 \<Longrightarrow> \<not> perm_invalid (fork_perm e)"
  unfolding perm_invalid_def fork_perm_def PTE_FLAGS_def PTE_SYSCALL_mask
  by (simp add: PTE_P_def PTE_U_def PTE_COW_def and.assoc)

lemma fork_perm_write: "fork_perm e AND PTE_W \<noteq> 0 \<Longrightarrow> e AND PTE_W \<noteq> 0 \<and> e AND PTE_SHARE \<noteq> 0"
  by (auto simp: fork_perm_def becomes_cow_def PTE_FLAGS_def PTE_SYSCALL_mask PTE_P_def PTE_U_def PTE_W_def
      PTE_COW_def and.assoc split: if_splits)


section \<open>A parent and its child\<close>

definition forking :: "'z kernel_scheme \<Rightarrow> nat \<Rightarrow> nat \<Rightarrow> envid \<Rightarrow> nat \<Rightarrow> nat \<Rightarrow> bool" where
  "forking k c d child e2 d2 \<longleftrightarrow> curenv k = Some c \<and> live k c \<and> env_pgdir (envs k c) = Some d \<and>
     envid2env child True k = Some (Inr (Some e2)) \<and> live k e2 \<and> env_pgdir (envs k e2) = Some d2 \<and> d \<noteq> d2"

lemma forking_same: "same_envs k k' \<Longrightarrow> forking k' c d child e2 d2 = forking k c d child e2 d2"
  using same_envs_ids [of k k' child True] by (simp add: forking_def live_def same_envs_def)

lemma own_id: "envid2env 0 True k = Some (Inr (curenv k))"
  by (simp add: envid2env_def)

text \<open>
  What forking the pages of \<open>R\<close>, \<open>m\<close> of them mapped, does to the kernel with free pages \<open>ps\<close>, when the process writes to no
  other frames than those of \<open>F\<close> meanwhile.
\<close>

definition forked ::
  "nat \<Rightarrow> nat \<Rightarrow> nat set \<Rightarrow> (u32 \<Rightarrow> bool) \<Rightarrow> nat \<Rightarrow> 'z kernel_scheme \<Rightarrow> nat list \<Rightarrow> 'z kernel_scheme \<Rightarrow> nat list \<Rightarrow> bool" where
  "forked d d2 F R m k ps k' ps' \<longleftrightarrow> same_envs k k' \<and> npages k' = npages k \<and> length ps \<le> length ps' + m \<and>
     (\<forall>q. unat (pref k' q) \<le> unat (pref k q) + 2 * m) \<and>
     (\<forall>w<UTOP. user_pte k' d w = (if R w then map_option parent_entry (user_pte k d w) else user_pte k d w)) \<and>
     (\<forall>w<UTOP. user_pte k' d2 w =
        (if R w \<and> user_pte k d w \<noteq> None then map_option child_entry (user_pte k d w) else user_pte k d2 w)) \<and>
     (\<forall>d'\<in>dirs k. d' \<noteq> d \<longrightarrow> d' \<noteq> d2 \<longrightarrow> (\<forall>w<UTOP. user_pte k' d' w = user_pte k d' w)) \<and>
     (\<forall>d'\<in>dirs k. \<forall>w<UTOP. \<forall>e. (d' = d2 \<longrightarrow> \<not> R w) \<longrightarrow> user_pte k d' w = Some e \<longrightarrow> ppn_of e \<notin> F \<longrightarrow>
        phys k' (ppn_of e) = phys k (ppn_of e))"

lemma forkedD:
  assumes "forked d d2 F R m k ps k' ps'"
  shows "same_envs k k'" "npages k' = npages k" "length ps \<le> length ps' + m" "unat (pref k' q) \<le> unat (pref k q) + 2 * m"
    and "w < UTOP \<Longrightarrow> user_pte k' d w = (if R w then map_option parent_entry (user_pte k d w) else user_pte k d w)"
    and "w < UTOP \<Longrightarrow> user_pte k' d2 w =
      (if R w \<and> user_pte k d w \<noteq> None then map_option child_entry (user_pte k d w) else user_pte k d2 w)"
    and "d' \<in> dirs k \<Longrightarrow> d' \<noteq> d \<Longrightarrow> d' \<noteq> d2 \<Longrightarrow> w < UTOP \<Longrightarrow> user_pte k' d' w = user_pte k d' w"
    and "d' \<in> dirs k \<Longrightarrow> w < UTOP \<Longrightarrow> d' = d2 \<longrightarrow> \<not> R w \<Longrightarrow> user_pte k d' w = Some e \<Longrightarrow> ppn_of e \<notin> F \<Longrightarrow>
      phys k' (ppn_of e) = phys k (ppn_of e)"
  using assms unfolding forked_def by blast+

lemma forked_none:
  assumes "\<forall>w<UTOP. R w \<longrightarrow> user_pte k d w = None"
  shows "forked d d2 F R 0 k ps k ps"
  using assms by (auto simp: forked_def)

lemma forked_more_frames: "forked d d2 {} R m k ps k' ps' \<Longrightarrow> forked d d2 F R m k ps k' ps'"
  unfolding forked_def by blast

text \<open>Frames stay where they are mapped.\<close>

lemma forked_frame:
  assumes f: "forked d d2 F R m k ps k1 ps1" and w: "x \<in> dirs k" "w < UTOP" "x = d2 \<longrightarrow> \<not> R w" "user_pte k x w = Some e"
  shows "\<exists>e1. user_pte k1 x w = Some e1 \<and> ppn_of e1 = ppn_of e"
proof -
  note A = forkedD [OF f]
  consider "x = d" | "x = d2" | "x \<noteq> d" "x \<noteq> d2" by blast
  then show ?thesis
  proof cases
    case 1
    then show ?thesis using A(5) [OF w(2)] w(4) by auto
  next
    case 2
    then show ?thesis using A(6) [OF w(2)] w(3,4) by auto
  next
    case 3
    then show ?thesis using A(7) [OF w(1) _ _ w(2)] w(4) by auto
  qed
qed

lemma forked_trans:
  assumes a: "forked d d2 F R m k ps k1 ps1" and b: "forked d d2 F S n k1 ps1 k' ps'"
    and d: "d \<in> dirs k" "d2 \<in> dirs k" "d \<noteq> d2" and dis: "\<forall>w<UTOP. \<not> (R w \<and> S w)"
  shows "forked d d2 F (\<lambda>w. R w \<or> S w) (m + n) k ps k' ps'"
proof -
  note A = forkedD [OF a] and B = forkedD [OF b]
  have D: "dirs k1 = dirs k" by (rule same_envs_dirs [OF A(1)])
  have "user_pte k' d w = (if R w \<or> S w then map_option parent_entry (user_pte k d w) else user_pte k d w)" if "w < UTOP" for w
    using A(5) [OF that] B(5) [OF that] dis that by auto
  moreover have "user_pte k' d2 w =
      (if (R w \<or> S w) \<and> user_pte k d w \<noteq> None then map_option child_entry (user_pte k d w) else user_pte k d2 w)" if "w < UTOP" for w
    using A(5,6) [OF that] B(6) [OF that] dis that by auto
  moreover have "user_pte k' d' w = user_pte k d' w" if "d' \<in> dirs k" "d' \<noteq> d" "d' \<noteq> d2" "w < UTOP" for d' w
    using A(7) [OF that] B(7) [of d'] that D by simp
  moreover have "phys k' (ppn_of e) = phys k (ppn_of e)"
    if w: "d' \<in> dirs k" "w < UTOP" "d' = d2 \<longrightarrow> \<not> (R w \<or> S w)" "user_pte k d' w = Some e" "ppn_of e \<notin> F" for d' w e
  proof -
    obtain e1 where "user_pte k1 d' w = Some e1" "ppn_of e1 = ppn_of e" using forked_frame [OF a w(1,2) _ w(4)] w(3) by blast
    then have "phys k' (ppn_of e) = phys k1 (ppn_of e)" using B(8) [of d' w e1] w D by simp
    then show ?thesis using A(8) [OF w(1,2) _ w(4,5)] w(3) by simp
  qed
  moreover have "length ps \<le> length ps' + (m + n)" using A(3) B(3) by simp
  moreover have "unat (pref k' q) \<le> unat (pref k q) + 2 * (m + n)" for q using A(4) [of q] B(4) [of q] by simp
  ultimately show ?thesis
    using same_envs_trans [OF A(1) B(1)] A(2) B(2) unfolding forked_def by auto
qed

section \<open>Duplicating one page\<close>

text \<open>A system call that maps the page of \<open>e\<close> with the permissions of \<open>fork\<close>, at \<open>va\<close> in \<open>d'\<close>.\<close>

lemma fork_map:
  assumes inv: "kinv k held ps fs" and fk: "forking k c d child e2 d2" and t: "t = 0 \<and> d' = d \<or> t = child \<and> d' = d2"
    and va: "va < UTOP" "\<not> page_offset_bad va" and e: "user_pte k d va = Some e" "present e" "e AND PTE_U \<noteq> 0"
    and mem: "ps \<noteq> [] \<or> d' = d" "unat (pref k (ppn_of e)) < 65535"
  shows "\<exists>k' ps'. sys_page_map 0 va t va (fork_perm e) k = Some (Inr 0, k') \<and> kinv k' held ps' fs \<and> same_envs k k' \<and>
    npages k' = npages k \<and> length ps \<le> length ps' + (if d' = d then 0 else 1) \<and> (\<forall>q. unat (pref k' q) \<le> Suc (unat (pref k q))) \<and>
    (\<forall>x\<in>dirs k. \<forall>w<UTOP. \<forall>e. user_pte k x w = Some e \<longrightarrow> phys k' (ppn_of e) = phys k (ppn_of e)) \<and>
    (\<forall>x\<in>dirs k. \<forall>w<UTOP. user_pte k' x w = (if x = d' \<and> same_page w va then Some (child_entry e) else user_pte k x w))"
proof -
  note kv = inv [unfolded kinv_def, THEN conjunct1]
  have c: "envid2env 0 True k = Some (Inr (Some c))" "live k c" "env_pgdir (envs k c) = Some d"
    using fk by (simp_all add: forking_def own_id)
  obtain t2 where t2: "envid2env t True k = Some (Inr (Some t2))" "live k t2" "env_pgdir (envs k t2) = Some d'"
    using fk t c unfolding forking_def by blast
  have w: "fork_perm e AND PTE_W \<noteq> 0 \<longrightarrow> e AND PTE_W \<noteq> 0" using fork_perm_write by blast
  have p: "present (phys k d (pdx va))" using e(1) by (auto simp: user_pte_def split: option.splits)
  then have mem1: "ps \<noteq> [] \<or> present (phys k d' (pdx va))" using mem(1) by auto
  obtain k' ps' where k': "sys_page_map 0 va t va (fork_perm e) k = Some (Inr 0, k')" "kinv k' held ps' fs" "same_envs k k'"
    "npages k' = npages k" "set (tl ps) \<subseteq> set ps'" "present (phys k d' (pdx va)) \<longrightarrow> set ps \<subseteq> set ps'"
    "\<forall>q. unat (pref k' q) \<le> Suc (unat (pref k q))"
    "\<forall>f. \<not> is_table k (dirs k) f \<longrightarrow> f \<notin> set ps \<longrightarrow> phys k' f = phys k f"
    "\<forall>x\<in>dirs k. \<forall>w<UTOP. user_pte k' x w =
       (if x = d' \<and> same_page w va then Some (page2pa (ppn_of e) OR fork_perm e OR PTE_P) else user_pte k x w)"
    using page_map_runs [OF inv c t2 va(1) va(1) va(2) va(2) fork_perm_valid [OF e(2,3)] e(1) w mem1 mem(2)] by blast
  note dist = avail_distinct [OF vm_avail [OF kv]]
  have "length ps \<le> length ps' + (if d' = d then 0 else 1)"
    using length_subset [OF dist k'(5)] length_distinct_subset [OF dist] k'(6) p by auto
  moreover have "\<forall>x\<in>dirs k. \<forall>w<UTOP. \<forall>e. user_pte k x w = Some e \<longrightarrow> phys k' (ppn_of e) = phys k (ppn_of e)"
    using k'(8) mapped_frame_safe [OF inv] by blast
  ultimately show ?thesis using k'(1-4,7,9) unfolding child_entry_def by blast
qed

lemma duppage_ok:
  assumes inv: "kinv k held ps fs" and fk: "forking k c d child e2 d2"
    and va: "va < UTOP" "\<not> page_offset_bad va" and e: "user_pte k d va = Some e" "e AND PTE_U \<noteq> 0"
    and mem: "ps \<noteq> []" "unat (pref k (ppn_of e)) + 1 < 65535"
  shows "\<exists>k' ps'. duppage child (PGNUM va) k = Some (Inr 0, k') \<and> kinv k' held ps' fs \<and>
    forked d d2 {} (\<lambda>w. same_page w va) 1 k ps k' ps'"
proof -
  have d: "own_dir k = Some d" "d \<noteq> d2" "d \<in> dirs k" "d2 \<in> dirs k"
    using fk live_pgdir by (auto simp: forking_def own_dir_def)
  have u: "uvpt d (PGNUM va) k = Some e" "present e" using uvpt_mapped [OF e(1)] by auto
  note pg = page_start [OF va(2)]
  have same: "user_pte k d w = Some e" if "same_page w va" for w using user_pte_page [OF that, of k d] e(1) by simp
  have "unat (pref k (ppn_of e)) < 65535" using mem(2) by simp
  from fork_map [OF inv fk _ va e(1) u(2) e(2) _ this, of child d2] mem(1)
  obtain k1 ps1 where k1: "sys_page_map 0 va child va (fork_perm e) k = Some (Inr 0, k1)" "kinv k1 held ps1 fs" "same_envs k k1"
    "npages k1 = npages k" "length ps \<le> length ps1 + 1" "\<forall>q. unat (pref k1 q) \<le> Suc (unat (pref k q))"
    "\<forall>x\<in>dirs k. \<forall>w<UTOP. \<forall>e. user_pte k x w = Some e \<longrightarrow> phys k1 (ppn_of e) = phys k (ppn_of e)"
    "\<forall>x\<in>dirs k. \<forall>w<UTOP. user_pte k1 x w = (if x = d2 \<and> same_page w va then Some (child_entry e) else user_pte k x w)"
    using d(2) by auto
  show ?thesis
  proof (cases "becomes_cow e")
    case False
    then have "fork_perm e = PTE_FLAGS e" by (simp add: fork_perm_def)
    then have "duppage child (PGNUM va) k = Some (Inr 0, k1)"
      using k1(1) d(1) u(1) pg False by (simp add: duppage_def Let_def becomes_cow_def)
    moreover have "forked d d2 {} (\<lambda>w. same_page w va) 1 k ps k1 ps1"
      using k1(3-8) d False same unfolding forked_def by (auto simp: parent_entry_def le_SucI)
    ultimately show ?thesis using k1(2) by blast
  next
    case True
    have e1: "user_pte k1 d va = Some e" using k1(8) d va(1) e(1) by simp
    have fk1: "forking k1 c d child e2 d2" using fk forking_same [OF k1(3)] by simp
    have "unat (pref k1 (ppn_of e)) < 65535" using k1(6) mem(2) by (metis Suc_eq_plus1 le_less_trans)
    from fork_map [OF k1(2) fk1 _ va e1 u(2) e(2) _ this, of 0 d]
    obtain k2 ps2 where k2: "sys_page_map 0 va 0 va (fork_perm e) k1 = Some (Inr 0, k2)" "kinv k2 held ps2 fs" "same_envs k1 k2"
      "npages k2 = npages k1" "length ps1 \<le> length ps2" "\<forall>q. unat (pref k2 q) \<le> Suc (unat (pref k1 q))"
      "\<forall>x\<in>dirs k1. \<forall>w<UTOP. \<forall>e. user_pte k1 x w = Some e \<longrightarrow> phys k2 (ppn_of e) = phys k1 (ppn_of e)"
      "\<forall>x\<in>dirs k1. \<forall>w<UTOP. user_pte k2 x w = (if x = d \<and> same_page w va then Some (child_entry e) else user_pte k1 x w)"
      by auto
    have D: "dirs k1 = dirs k" by (rule same_envs_dirs [OF k1(3)])
    have "duppage child (PGNUM va) k = Some (Inr 0, k2)"
      using k1(1) k2(1) d(1) u(1) pg True by (simp add: duppage_def Let_def fork_perm_def becomes_cow_def)
    moreover have "unat (pref k2 q) \<le> unat (pref k q) + 2" for q
      using k1(6) k2(6) by (metis Suc_1 Suc_le_mono add_2_eq_Suc' le_trans)
    moreover have "phys k2 (ppn_of a) = phys k (ppn_of a)"
      if "x \<in> dirs k" "w < UTOP" "x = d2 \<longrightarrow> \<not> same_page w va" "user_pte k x w = Some a" for x w a
    proof -
      have "user_pte k1 x w = Some a" using k1(8) that by auto
      then show ?thesis using k1(7) k2(7) that D by simp
    qed
    ultimately show ?thesis
      using k2(2,4,5,8) k1(4,5,8) same_envs_trans [OF k1(3) k2(3)] d same True D unfolding forked_def
      by (intro exI [of _ k2] exI [of _ ps2]) (simp add: parent_entry_def)
  qed
qed

section \<open>Duplicating the address space\<close>

definition in_pages :: "u32 \<Rightarrow> nat \<Rightarrow> u32 \<Rightarrow> bool" where
  "in_pages va n w \<longleftrightarrow> unat va \<le> unat w \<and> unat w < unat va + n * 4096"

lemma in_pages_Suc:
  assumes "unat va mod 4096 = 0" "unat (va + PGSIZE) = unat va + 4096"
  shows "in_pages va (Suc n) w \<longleftrightarrow> same_page w va \<or> in_pages (va + PGSIZE) n w"
    "\<not> (same_page w va \<and> in_pages (va + PGSIZE) n w)"
proof -
  obtain j where j: "unat va = 4096 * j" using assms(1) by auto
  have "same_page w va \<longleftrightarrow> 4096 * j \<le> unat w \<and> unat w < 4096 * j + 4096"
    unfolding same_page_nat j by (simp add: page_index)
  then show "in_pages va (Suc n) w \<longleftrightarrow> same_page w va \<or> in_pages (va + PGSIZE) n w"
    "\<not> (same_page w va \<and> in_pages (va + PGSIZE) n w)"
    unfolding in_pages_def assms(2) j by auto
qed

text \<open>One round, up to the store that ends it.\<close>

lemma fork_round:
  assumes inv: "kinv k held ps fs" and fk: "forking k c d child e2 d2" and va: "unat va mod 4096 = 0" "va < UTOP"
    and mem: "length (user_vas k d 1 va) \<le> length ps" "\<forall>q. unat (pref k q) + 2 * length (user_vas k d 1 va) < 65535"
    and us: "\<forall>e. user_pte k d va = Some e \<longrightarrow> e AND PTE_U \<noteq> 0"
  shows "\<exists>k1 ps1. (\<forall>n. fork_loop child esp st (Suc n) va k =
      do { k \<leftarrow> user_store esp (st (va + PGSIZE)) k1; fork_loop child esp st n (va + PGSIZE) k }) \<and>
    kinv k1 held ps1 fs \<and> forked d d2 {} (\<lambda>w. same_page w va) (length (user_vas k d 1 va)) k ps k1 ps1"
proof -
  have d: "own_dir k = Some d" using fk by (auto simp: forking_def own_dir_def)
  show ?thesis
  proof (cases "user_pte k d va")
    case None
    have "forked d d2 {} (\<lambda>w. same_page w va) 0 k ps k ps"
      by (rule forked_none) (use user_pte_page [of _ va k d] None in auto)
    moreover have "fork_loop child esp st (Suc n) va k =
        do { k \<leftarrow> user_store esp (st (va + PGSIZE)) k; fork_loop child esp st n (va + PGSIZE) k }" for n
      using d uvpt_unmapped [OF None] by simp
    ultimately show ?thesis using inv None by (intro exI [of _ k] exI [of _ ps]) simp
  next
    case (Some e)
    have "ps \<noteq> []" "unat (pref k (ppn_of e)) + 1 < 65535" using mem(1) mem(2) [rule_format, of "ppn_of e"] Some by auto
    then obtain k1 ps1 where k1: "duppage child (PGNUM va) k = Some (Inr 0, k1)" "kinv k1 held ps1 fs"
        "forked d d2 {} (\<lambda>w. same_page w va) 1 k ps k1 ps1"
      using duppage_ok [OF inv fk va(2) aligned_page [OF va(1)] Some] us Some by blast
    have "fork_loop child esp st (Suc n) va k =
        do { k \<leftarrow> user_store esp (st (va + PGSIZE)) k1; fork_loop child esp st n (va + PGSIZE) k }" for n
      using d k1(1) uvpt_mapped [OF Some] by simp
    then show ?thesis using k1(2,3) Some by (intro exI [of _ k1] exI [of _ ps1]) simp
  qed
qed

text \<open>What the first \<open>n\<close> rounds from \<open>va\<close> on store in a page.\<close>

fun stores :: "(u32 \<Rightarrow> (nat \<Rightarrow> u32) \<Rightarrow> nat \<Rightarrow> u32) \<Rightarrow> nat \<Rightarrow> u32 \<Rightarrow> (nat \<Rightarrow> u32) \<Rightarrow> nat \<Rightarrow> u32" where
  "stores st 0 va x = x"
| "stores st (Suc n) va x = stores st n (va + PGSIZE) (st (va + PGSIZE) x)"

text \<open>A page of the process on which it can store without a fault.\<close>

definition own_page :: "'z kernel_scheme \<Rightarrow> nat \<Rightarrow> u32 \<Rightarrow> u32 \<Rightarrow> bool" where
  "own_page k d esp es \<longleftrightarrow> esp < UTOP \<and> user_pte k d esp = Some es \<and> es AND PTE_U \<noteq> 0 \<and> es AND PTE_W \<noteq> 0"

lemma fork_store:
  assumes inv: "kinv k held ps fs" and fk: "forking k c d child e2 d2" and es: "own_page k d esp es"
  shows "\<exists>k'. user_store esp f k = Some k' \<and> kinv k' held ps fs \<and> forked d d2 {ppn_of es} (\<lambda>_. False) 0 k ps k' ps \<and>
    phys k' (ppn_of es) = f (phys k (ppn_of es))"
proof -
  note c = fk [unfolded forking_def] and e = es [unfolded own_page_def]
  obtain k' where k': "user_store esp f k = Some k'" "kinv k' held ps fs" "same_envs k k'" "npages k' = npages k"
    "\<forall>q. pref k' q = pref k q" "\<forall>x\<in>dirs k. \<forall>w<UTOP. user_pte k' x w = user_pte k x w"
    "phys k' = (phys k)(ppn_of es := f (phys k (ppn_of es)))"
    using user_store_direct [OF inv, of c d esp es f] c e by blast
  have "d \<in> dirs k" "d2 \<in> dirs k" using c live_pgdir by blast+
  then have "forked d d2 {ppn_of es} (\<lambda>_. False) 0 k ps k' ps" using k'(3-7) unfolding forked_def by auto
  then show ?thesis using k'(1,2,7) by (intro exI [of _ k']) simp
qed

text \<open>Rounds over other pages than that of the stack.\<close>

lemma fork_loop_quiet:
  assumes "kinv k held ps fs" "forking k c d child e2 d2" "unat va mod 4096 = 0" "unat va + n * 4096 \<le> unat UTOP"
    and "length (user_vas k d n va) \<le> length ps" "\<forall>q. unat (pref k q) + 2 * length (user_vas k d n va) < 65535"
    and "\<forall>w e. in_pages va n w \<longrightarrow> user_pte k d w = Some e \<longrightarrow> e AND PTE_U \<noteq> 0"
    and "own_page k d esp es" "\<not> in_pages va n esp"
  shows "\<exists>k' ps'. fork_loop child esp st n va k = Some (Inr 0, k') \<and> kinv k' held ps' fs \<and>
    forked d d2 {ppn_of es} (in_pages va n) (length (user_vas k d n va)) k ps k' ps' \<and>
    phys k' (ppn_of es) = stores st n va (phys k (ppn_of es))"
  using assms
proof (induction n arbitrary: va k ps)
  case 0
  have "forked d d2 {ppn_of es} (in_pages va 0) 0 k ps k ps" by (rule forked_none) (auto simp: in_pages_def)
  then show ?case using 0 by auto
next
  case (Suc n)
  note step = page_step [OF Suc.prems(4)]
  let ?va = "va + PGSIZE" and ?s = "ppn_of es"
  have d: "d \<noteq> d2" "d \<in> dirs k" "d2 \<in> dirs k"
    using Suc.prems(2) live_pgdir by (auto simp: forking_def)
  have va: "unat ?va mod 4096 = 0" "unat ?va + n * 4096 \<le> unat UTOP" using Suc.prems(3,4) step by simp_all
  note pages = in_pages_Suc [OF Suc.prems(3) conjunct2 [OF step], where n = n]
  have R: "in_pages va (Suc n) = (\<lambda>w. (same_page w va \<or> False) \<or> in_pages ?va n w)" using pages(1) by (intro ext) simp
  let ?v1 = "user_vas k d 1 va" and ?vas = "user_vas k d n ?va"
  have len: "length (user_vas k d (Suc n) va) = length ?v1 + length ?vas" by simp
  have "length ?v1 \<le> length ps" "\<forall>q. unat (pref k q) + 2 * length ?v1 < 65535" "\<forall>e. user_pte k d va = Some e \<longrightarrow> e AND PTE_U \<noteq> 0"
    using Suc.prems(5-7) pages(1) unfolding len by (simp, metis add_lessD1 add_mult_distrib2 add.assoc, simp)
  from fork_round [OF Suc.prems(1-3) conjunct1 [OF step] this, of esp st] obtain k1 ps1 where
    k1: "fork_loop child esp st (Suc n) va k = do { k \<leftarrow> user_store esp (st ?va) k1; fork_loop child esp st n ?va k }"
      "kinv k1 held ps1 fs" "forked d d2 {} (\<lambda>w. same_page w va) (length ?v1) k ps k1 ps1" by blast
  note F1 = forkedD [OF k1(3)]
  have fk1: "forking k1 c d child e2 d2" using forking_same [OF F1(1)] Suc.prems(2) by simp
  have es1: "own_page k1 d esp es"
    using Suc.prems(8,9) F1(5) [of esp] pages(1) unfolding own_page_def by auto
  obtain k2 where k2: "user_store esp (st ?va) k1 = Some k2" "kinv k2 held ps1 fs"
      "forked d d2 {?s} (\<lambda>_. False) 0 k1 ps1 k2 ps1" "phys k2 ?s = st ?va (phys k1 ?s)"
    using fork_store [OF k1(2) fk1 es1] by blast
  have F: "forked d d2 {?s} (\<lambda>w. same_page w va \<or> False) (length ?v1 + 0) k ps k2 ps1"
    by (rule forked_trans [OF forked_more_frames [OF k1(3)] k2(3) d(2,3,1)]) simp
  note F2 = forkedD [OF F]
  have fk2: "forking k2 c d child e2 d2" using forking_same [OF F2(1)] Suc.prems(2) by simp
  have es2: "own_page k2 d esp es" "\<not> in_pages ?va n esp"
    using Suc.prems(8,9) F2(5) [of esp] pages(1) unfolding own_page_def by auto
  have vas: "user_vas k2 d n ?va = ?vas"
    by (rule user_vas_cong_None [OF _ va(2)]) (simp add: F2(5))
  have "length ?vas \<le> length ps1" using F2(3) Suc.prems(5) unfolding len by simp
  moreover have "unat (pref k2 q) + 2 * length ?vas < 65535" for q
    using F2(4) [of q] Suc.prems(6) [rule_format, of q] unfolding len by simp
  moreover have "e AND PTE_U \<noteq> 0" if "in_pages ?va n w" "user_pte k2 d w = Some e" for w e
  proof -
    have "w < UTOP" using that(1) va(2) by (simp add: in_pages_def word_less_nat_alt)
    then have "user_pte k d w = Some e" using F2(5) [of w] that pages(2) [of w] by auto
    then show ?thesis using Suc.prems(7) that(1) pages(1) by blast
  qed
  ultimately obtain k' ps' where k': "fork_loop child esp st n ?va k2 = Some (Inr 0, k')" "kinv k' held ps' fs"
      "forked d d2 {?s} (in_pages ?va n) (length ?vas) k2 ps1 k' ps'" "phys k' ?s = stores st n ?va (phys k2 ?s)"
    using Suc.IH [OF k2(2) fk2 va _ _ _ es2] unfolding vas by blast
  have "forked d d2 {?s} (in_pages va (Suc n)) (length ?v1 + 0 + length ?vas) k ps k' ps'"
    unfolding R by (rule forked_trans [OF F k'(3) d(2,3,1)]) (use pages(2) in simp)
  moreover have "fork_loop child esp st (Suc n) va k = Some (Inr 0, k')" using k1(1) k2(1) k'(1) by simp
  moreover have "phys k1 ?s = phys k ?s"
    using F1(8) [OF d(2) _ _ _ ] Suc.prems(8) d(1) unfolding own_page_def by blast
  ultimately show ?case using k'(2,4) k2(4) by (intro exI [of _ k'] exI [of _ ps']) simp
qed

section \<open>The page of the stack\<close>

text \<open>
  The round for the page of the stack, with the entry \<open>es\<close>, leaves it copy-on-write; the next store of \<open>fork\<close> itself
  faults, so that the parent continues on a copy, the frame \<open>p\<close>.
\<close>

definition forked_stack ::
  "nat \<Rightarrow> nat \<Rightarrow> u32 \<Rightarrow> u32 \<Rightarrow> nat \<Rightarrow> (u32 \<Rightarrow> bool) \<Rightarrow> nat \<Rightarrow> 'z kernel_scheme \<Rightarrow> nat list \<Rightarrow> 'z kernel_scheme \<Rightarrow> nat list \<Rightarrow> bool" where
  "forked_stack d d2 esp es p R m k ps k' ps' \<longleftrightarrow> same_envs k k' \<and> npages k' = npages k \<and> length ps \<le> length ps' + m + 2 \<and>
     (\<forall>q. unat (pref k' q) \<le> unat (pref k q) + 2 * m + 2) \<and>
     (\<forall>w<UTOP. user_pte k' d w =
        (if same_page w esp then Some (page2pa p OR PUW OR PTE_P) else if same_page w PFTEMP then None
         else if R w then map_option parent_entry (user_pte k d w) else user_pte k d w)) \<and>
     (\<forall>w<UTOP. user_pte k' d2 w =
        (if R w \<and> user_pte k d w \<noteq> None then map_option child_entry (user_pte k d w) else user_pte k d2 w)) \<and>
     (\<forall>d'\<in>dirs k. d' \<noteq> d \<longrightarrow> d' \<noteq> d2 \<longrightarrow> (\<forall>w<UTOP. user_pte k' d' w = user_pte k d' w)) \<and>
     (\<forall>d'\<in>dirs k. \<forall>w<UTOP. \<forall>e. (d' = d2 \<longrightarrow> \<not> R w) \<longrightarrow> \<not> (d' = d \<and> same_page w PFTEMP) \<longrightarrow> user_pte k d' w = Some e \<longrightarrow>
        ppn_of e \<noteq> p \<and> (ppn_of e \<noteq> ppn_of es \<longrightarrow> phys k' (ppn_of e) = phys k (ppn_of e)))"

lemma forked_stackD:
  assumes "forked_stack d d2 esp es p R m k ps k' ps'"
  shows "same_envs k k'" "npages k' = npages k" "length ps \<le> length ps' + m + 2" "unat (pref k' q) \<le> unat (pref k q) + 2 * m + 2"
    and "w < UTOP \<Longrightarrow> user_pte k' d w =
        (if same_page w esp then Some (page2pa p OR PUW OR PTE_P) else if same_page w PFTEMP then None
         else if R w then map_option parent_entry (user_pte k d w) else user_pte k d w)"
    and "w < UTOP \<Longrightarrow> user_pte k' d2 w =
      (if R w \<and> user_pte k d w \<noteq> None then map_option child_entry (user_pte k d w) else user_pte k d2 w)"
    and "d' \<in> dirs k \<Longrightarrow> d' \<noteq> d \<Longrightarrow> d' \<noteq> d2 \<Longrightarrow> w < UTOP \<Longrightarrow> user_pte k' d' w = user_pte k d' w"
    and "d' \<in> dirs k \<Longrightarrow> w < UTOP \<Longrightarrow> d' = d2 \<longrightarrow> \<not> R w \<Longrightarrow> \<not> (d' = d \<and> same_page w PFTEMP) \<Longrightarrow> user_pte k d' w = Some e \<Longrightarrow>
      ppn_of e \<noteq> p \<and> (ppn_of e \<noteq> ppn_of es \<longrightarrow> phys k' (ppn_of e) = phys k (ppn_of e))"
  using assms unfolding forked_stack_def by blast+

lemma stack_entry:
  assumes "es AND PTE_W \<noteq> 0" "es AND PTE_SHARE = 0"
  shows "becomes_cow es" "parent_entry es = child_entry es" "child_entry es AND PTE_COW \<noteq> 0" "child_entry es AND PTE_U \<noteq> 0"
    "child_entry es AND PTE_W = 0"
proof -
  show b: "becomes_cow es" using assms by (simp add: becomes_cow_def)
  then show "parent_entry es = child_entry es" by (simp add: parent_entry_def)
  have c: "child_entry es = page2pa (ppn_of es) OR (PTE_P OR PTE_U OR PTE_COW) OR PTE_P"
    using b by (simp add: child_entry_def fork_perm_def)
  have "bit (child_entry es AND PTE_COW) 11" "bit (child_entry es AND PTE_U) 2"
    unfolding c by (simp_all add: kdefs PTE_COW_def bit_simps bit_numeral_rec)
  then show "child_entry es AND PTE_COW \<noteq> 0" "child_entry es AND PTE_U \<noteq> 0" by (metis bit_0_eq bot_apply bot_bool_def)+
  show "child_entry es AND PTE_W = 0" unfolding c entry_write by (simp add: kdefs PTE_COW_def)
qed

text \<open>A store to a page that has become copy-on-write.\<close>

lemma user_store_fault:
  assumes inv: "kinv k held ps fs" and c: "curenv k = Some c" "live k c" "env_pgdir (envs k c) = Some d"
    and e: "esp < UTOP" "user_pte k d esp = Some e" "e AND PTE_COW \<noteq> 0" "e AND PTE_U \<noteq> 0" "e AND PTE_W = 0" "\<not> same_page esp PFTEMP"
    and mem: "2 \<le> length ps"
  shows "\<exists>k' ps' p. user_store esp f k = Some k' \<and> kinv k' held ps' fs \<and> same_envs k k' \<and> p < 2 ^ 20 \<and>
    npages k' = npages k \<and> length ps \<le> length ps' + 2 \<and> (\<forall>q. unat (pref k' q) \<le> unat (pref k q) + 2) \<and>
    phys k' p = f (phys k (ppn_of e)) \<and>
    (\<forall>x\<in>dirs k. \<forall>w<UTOP. user_pte k' x w =
       (if x = d \<and> same_page w esp then Some (page2pa p OR PUW OR PTE_P)
        else if x = d \<and> same_page w PFTEMP then None else user_pte k x w)) \<and>
    (\<forall>x\<in>dirs k. \<forall>w<UTOP. \<forall>a. \<not> (x = d \<and> (same_page w esp \<or> same_page w PFTEMP)) \<longrightarrow> user_pte k x w = Some a \<longrightarrow>
       ppn_of a \<noteq> p \<and> phys k' (ppn_of a) = phys k (ppn_of a))"
proof -
  let ?err = "FEC_PR OR FEC_WR OR FEC_U :: u32"
  have err: "?err AND FEC_WR \<noteq> 0" by (simp add: FEC_PR_def FEC_WR_def FEC_U_def)
  have d: "d \<in> dirs k" by (rule live_pgdir [OF c(2,3)])
  obtain k1 ps1 p where k1: "pgfault esp ?err k = Some k1" "kinv k1 held ps1 fs" "same_envs k k1" "p < 2 ^ 20"
    "npages k1 = npages k" "length ps \<le> length ps1 + 2" "\<forall>q. unat (pref k1 q) \<le> unat (pref k q) + 2" "phys k1 p = phys k (ppn_of e)"
    and u1: "\<forall>x\<in>dirs k. \<forall>w<UTOP. user_pte k1 x w =
       (if x = d \<and> same_page w esp then Some (page2pa p OR PUW OR PTE_P)
        else if x = d \<and> same_page w PFTEMP then None else user_pte k x w)"
    and ph1: "\<forall>x\<in>dirs k. \<forall>w<UTOP. \<forall>a. \<not> (x = d \<and> (same_page w esp \<or> same_page w PFTEMP)) \<longrightarrow> user_pte k x w = Some a \<longrightarrow>
       ppn_of a \<noteq> p \<and> phys k1 (ppn_of a) = phys k (ppn_of a)"
    using pgfault_ok [OF inv c e(1-4,6) err mem] by blast
  have c1: "curenv k1 = Some c" "live k1 c" "env_pgdir (envs k1 c) = Some d" "dirs k1 = dirs k"
    using k1(3) c same_envs_ids [OF k1(3)] same_envs_dirs [OF k1(3)] by (simp_all add: same_envs_def live_def)
  note P = PUW_entry [OF k1(4)]
  have e1: "user_pte k1 d esp = Some (page2pa p OR PUW OR PTE_P)" using u1 d e(1) by simp
  obtain k2 where k2: "user_store esp f k1 = Some k2" "kinv k2 held ps1 fs" "same_envs k1 k2" "npages k2 = npages k1"
    "\<forall>q. pref k2 q = pref k1 q" "\<forall>x\<in>dirs k1. \<forall>w<UTOP. user_pte k2 x w = user_pte k1 x w" "phys k2 = (phys k1)(p := f (phys k1 p))"
    using user_store_direct [OF k1(2) c1(1-3) e(1) e1 P(3,2), of f] unfolding P(1) by blast
  have fr: "user_frame d esp True k = None" "user_frame d esp True k1 = Some p"
    using uvpt_mapped [OF e(2)] uvpt_mapped [OF e1] e(5) P by (simp_all add: user_frame_def)
  have "user_store esp f k = user_store esp f k1"
    using fr k1(1) c c1 by (simp add: user_store_def own_dir_def)
  moreover have "phys k2 p = f (phys k (ppn_of e))" using k2(7) k1(8) by simp
  moreover have "phys k2 (ppn_of a) = phys k (ppn_of a) \<and> ppn_of a \<noteq> p"
    if "x \<in> dirs k" "w < UTOP" "\<not> (x = d \<and> (same_page w esp \<or> same_page w PFTEMP))" "user_pte k x w = Some a" for x w a
    using ph1 that k2(7) by auto
  moreover have "\<forall>x\<in>dirs k. \<forall>w<UTOP. user_pte k2 x w =
       (if x = d \<and> same_page w esp then Some (page2pa p OR PUW OR PTE_P)
        else if x = d \<and> same_page w PFTEMP then None else user_pte k x w)" using k2(6) u1 c1(4) by simp
  ultimately show ?thesis
    using k2(1,2,4,5) k1(4-7) same_envs_trans [OF k1(3) k2(3)]
    by (intro exI [of _ k2] exI [of _ ps1] exI [of _ p]) (simp only: simp_thms, blast)
qed

lemma stack_round:
  assumes inv: "kinv k held ps fs" and fk: "forking k c d child e2 d2" and va: "unat va mod 4096 = 0" "va < UTOP" "same_page esp va"
    and es: "own_page k d esp es" "es AND PTE_SHARE = 0" "\<not> same_page esp PFTEMP"
    and mem: "3 \<le> length ps" "\<forall>q. unat (pref k q) + 2 < 65535"
  shows "\<exists>k' ps' p. (\<forall>n. fork_loop child esp st (Suc n) va k = fork_loop child esp st n (va + PGSIZE) k') \<and> kinv k' held ps' fs \<and>
    forked_stack d d2 esp es p (\<lambda>w. same_page w va) 1 k ps k' ps' \<and> p < 2 ^ 20 \<and>
    phys k' (ppn_of es) = phys k (ppn_of es) \<and> phys k' p = st (va + PGSIZE) (phys k (ppn_of es))"
proof -
  let ?s = "ppn_of es" and ?f = "st (va + PGSIZE)"
  have d: "d \<noteq> d2" "d \<in> dirs k" "d2 \<in> dirs k" using fk live_pgdir by (auto simp: forking_def)
  note o = es(1) [unfolded own_page_def] and en = stack_entry [OF _ es(2)]
  have e: "user_pte k d va = Some es" using o user_pte_page [OF va(3), of k d] by simp
  then have v: "length (user_vas k d 1 va) = 1" by simp
  have m: "length (user_vas k d 1 va) \<le> length ps" "\<forall>q. unat (pref k q) + 2 * length (user_vas k d 1 va) < 65535"
    "\<forall>e. user_pte k d va = Some e \<longrightarrow> e AND PTE_U \<noteq> 0"
    using mem e o unfolding v by simp_all
  obtain k1 ps1 where k1: "\<forall>n. fork_loop child esp st (Suc n) va k =
      do { k \<leftarrow> user_store esp ?f k1; fork_loop child esp st n (va + PGSIZE) k }" "kinv k1 held ps1 fs"
      "forked d d2 {} (\<lambda>w. same_page w va) 1 k ps k1 ps1"
    using fork_round [OF inv fk va(1,2) m, of esp st] unfolding v by blast
  note F = forkedD [OF k1(3)]
  have fk1: "forking k1 c d child e2 d2" using forking_same [OF F(1)] fk by simp
  have c1: "curenv k1 = Some c" "live k1 c" "env_pgdir (envs k1 c) = Some d" using fk1 by (simp_all add: forking_def)
  have D: "dirs k1 = dirs k" by (rule same_envs_dirs [OF F(1)])
  have e1: "user_pte k1 d esp = Some (child_entry es)" "user_pte k1 d2 esp = Some (child_entry es)"
    using F(5,6) [of esp] o va(3) en(2) by simp_all
  have W: "es AND PTE_W \<noteq> 0" using o by simp
  have "2 \<le> length ps1" using F(3) mem(1) by simp
  from user_store_fault [OF k1(2) c1 _ e1(1) en(3-5) [OF W] es(3) this, of ?f] o obtain k2 ps2 p where
    k2: "user_store esp ?f k1 = Some k2" "kinv k2 held ps2 fs" "same_envs k1 k2" "p < 2 ^ 20" "npages k2 = npages k1"
      "length ps1 \<le> length ps2 + 2" "\<forall>q. unat (pref k2 q) \<le> unat (pref k1 q) + 2" "phys k2 p = ?f (phys k1 ?s)"
    and u2: "\<forall>x\<in>dirs k1. \<forall>w<UTOP. user_pte k2 x w =
       (if x = d \<and> same_page w esp then Some (page2pa p OR PUW OR PTE_P)
        else if x = d \<and> same_page w PFTEMP then None else user_pte k1 x w)"
    and ph2: "\<forall>x\<in>dirs k1. \<forall>w<UTOP. \<forall>a. \<not> (x = d \<and> (same_page w esp \<or> same_page w PFTEMP)) \<longrightarrow> user_pte k1 x w = Some a \<longrightarrow>
       ppn_of a \<noteq> p \<and> phys k2 (ppn_of a) = phys k1 (ppn_of a)"
    unfolding child_entry_ppn by blast
  have sp: "?s \<noteq> p" "phys k2 ?s = phys k1 ?s" using ph2 [rule_format, of d2 esp "child_entry es"] e1(2) o d D by auto
  have s1: "phys k1 ?s = phys k ?s" using F(8) [of d esp es] o d by simp
  have "ppn_of a \<noteq> p \<and> (ppn_of a \<noteq> ?s \<longrightarrow> phys k2 (ppn_of a) = phys k (ppn_of a))"
    if w: "x \<in> dirs k" "w < UTOP" "x = d2 \<longrightarrow> \<not> same_page w va" "\<not> (x = d \<and> same_page w PFTEMP)" "user_pte k x w = Some a" for x w a
  proof (cases "x = d \<and> same_page w esp")
    case True
    then have "a = es" using w(5) user_pte_page [of w esp k d] o by simp
    then show ?thesis using sp(1) by simp
  next
    case False
    obtain a1 where a1: "user_pte k1 x w = Some a1" "ppn_of a1 = ppn_of a" using forked_frame [OF k1(3) w(1-3,5)] by blast
    then have "ppn_of a \<noteq> p \<and> phys k2 (ppn_of a) = phys k1 (ppn_of a)" using ph2 w(1,2,4) False D by (metis (no_types, lifting))
    then show ?thesis using F(8) [OF w(1-3,5)] by simp
  qed
  moreover have "user_pte k2 d w = (if same_page w esp then Some (page2pa p OR PUW OR PTE_P) else if same_page w PFTEMP then None
         else if same_page w va then map_option parent_entry (user_pte k d w) else user_pte k d w)" if "w < UTOP" for w
    using u2 F(5) that d D by simp
  moreover have "user_pte k2 x w = user_pte k1 x w" if "x \<in> dirs k" "x \<noteq> d" "w < UTOP" for x w using u2 that D by simp
  moreover have "length ps \<le> length ps2 + 1 + 2" using F(3) k2(6) by simp
  moreover have "unat (pref k2 q) \<le> unat (pref k q) + 2 * 1 + 2" for q using F(4) [of q] k2(7) [rule_format, of q] by simp
  ultimately have "forked_stack d d2 esp es p (\<lambda>w. same_page w va) 1 k ps k2 ps2"
    using same_envs_trans [OF F(1) k2(3)] F(2,6,7) k2(5) d unfolding forked_stack_def by auto
  then show ?thesis using k1(1) k2(1,2,4,8) s1 sp(2) by (intro exI [of _ k2] exI [of _ ps2] exI [of _ p]) simp
qed

text \<open>Rounds before and after that one.\<close>

lemma forked_then_stack:
  assumes a: "forked d d2 {ppn_of es} R m k ps k1 ps1" and b: "forked_stack d d2 esp es p S n k1 ps1 k' ps'"
    and d: "d \<in> dirs k" "d2 \<in> dirs k" "d \<noteq> d2" and dis: "\<forall>w<UTOP. \<not> (R w \<and> S w)"
  shows "forked_stack d d2 esp es p (\<lambda>w. R w \<or> S w) (m + n) k ps k' ps'"
proof -
  note A = forkedD [OF a] and B = forked_stackD [OF b]
  have D: "dirs k1 = dirs k" by (rule same_envs_dirs [OF A(1)])
  have "user_pte k' d w = (if same_page w esp then Some (page2pa p OR PUW OR PTE_P) else if same_page w PFTEMP then None
         else if R w \<or> S w then map_option parent_entry (user_pte k d w) else user_pte k d w)" if "w < UTOP" for w
    using A(5) [OF that] B(5) [OF that] dis that by auto
  moreover have "user_pte k' d2 w =
      (if (R w \<or> S w) \<and> user_pte k d w \<noteq> None then map_option child_entry (user_pte k d w) else user_pte k d2 w)" if "w < UTOP" for w
    using A(5,6) [OF that] B(6) [OF that] dis that by auto
  moreover have "user_pte k' d' w = user_pte k d' w" if "d' \<in> dirs k" "d' \<noteq> d" "d' \<noteq> d2" "w < UTOP" for d' w
    using A(7) [OF that] B(7) [of d'] that D by simp
  moreover have "ppn_of e \<noteq> p \<and> (ppn_of e \<noteq> ppn_of es \<longrightarrow> phys k' (ppn_of e) = phys k (ppn_of e))"
    if w: "d' \<in> dirs k" "w < UTOP" "d' = d2 \<longrightarrow> \<not> (R w \<or> S w)" "\<not> (d' = d \<and> same_page w PFTEMP)" "user_pte k d' w = Some e" for d' w e
  proof -
    obtain e1 where "user_pte k1 d' w = Some e1" "ppn_of e1 = ppn_of e" using forked_frame [OF a w(1,2) _ w(5)] w(3) by blast
    then have "ppn_of e \<noteq> p \<and> (ppn_of e \<noteq> ppn_of es \<longrightarrow> phys k' (ppn_of e) = phys k1 (ppn_of e))"
      using B(8) [of d' w e1] w D by simp
    then show ?thesis using A(8) [OF w(1,2) _ w(5)] w(3) by auto
  qed
  moreover have "length ps \<le> length ps' + (m + n) + 2" using A(3) B(3) by simp
  moreover have "unat (pref k' q) \<le> unat (pref k q) + 2 * (m + n) + 2" for q using A(4) [of q] B(4) [of q] by simp
  ultimately show ?thesis
    using same_envs_trans [OF A(1) B(1)] A(2) B(2) unfolding forked_stack_def by auto
qed

lemma stack_then_forked:
  assumes a: "forked_stack d d2 esp es p R m k ps k1 ps1" and b: "forked d d2 {p} S n k1 ps1 k' ps'"
    and d: "d \<in> dirs k" "d2 \<in> dirs k" "d \<noteq> d2" and dis: "\<forall>w<UTOP. \<not> (R w \<and> S w)"
    and S: "\<forall>w<UTOP. S w \<longrightarrow> \<not> same_page w esp \<and> \<not> same_page w PFTEMP"
    and R: "\<forall>w<UTOP. same_page w esp \<longrightarrow> R w" and es: "user_pte k d esp = Some es" "esp < UTOP"
  shows "forked_stack d d2 esp es p (\<lambda>w. R w \<or> S w) (m + n) k ps k' ps'"
proof -
  note A = forked_stackD [OF a] and B = forkedD [OF b]
  have D: "dirs k1 = dirs k" by (rule same_envs_dirs [OF A(1)])
  have "user_pte k' d w = (if same_page w esp then Some (page2pa p OR PUW OR PTE_P) else if same_page w PFTEMP then None
         else if R w \<or> S w then map_option parent_entry (user_pte k d w) else user_pte k d w)" if w: "w < UTOP" for w
    using A(5) [OF w] B(5) [OF w] dis w S R by auto
  moreover have "user_pte k' d2 w =
      (if (R w \<or> S w) \<and> user_pte k d w \<noteq> None then map_option child_entry (user_pte k d w) else user_pte k d2 w)" if "w < UTOP" for w
  proof (cases "S w")
    case True
    then show ?thesis using A(5,6) [OF that] B(6) [OF that] dis that S by auto
  next
    case False
    then show ?thesis using A(6) [OF that] B(6) [OF that] by simp
  qed
  moreover have "user_pte k' d' w = user_pte k d' w" if "d' \<in> dirs k" "d' \<noteq> d" "d' \<noteq> d2" "w < UTOP" for d' w
    using A(7) [OF that] B(7) [of d'] that D by simp
  moreover have "ppn_of e \<noteq> p \<and> (ppn_of e \<noteq> ppn_of es \<longrightarrow> phys k' (ppn_of e) = phys k (ppn_of e))"
    if w: "d' \<in> dirs k" "w < UTOP" "d' = d2 \<longrightarrow> \<not> (R w \<or> S w)" "\<not> (d' = d \<and> same_page w PFTEMP)" "user_pte k d' w = Some e" for d' w e
  proof (cases "d' = d \<and> same_page w esp")
    case True
    then have "e = es" using w(5) es user_pte_page [of w esp k d] by simp
    then show ?thesis using A(8) [OF w(1,2) _ w(4,5)] w(3) by simp
  next
    case False
    have x: "ppn_of e \<noteq> p \<and> (ppn_of e \<noteq> ppn_of es \<longrightarrow> phys k1 (ppn_of e) = phys k (ppn_of e))"
      using A(8) [OF w(1,2) _ w(4,5)] w(3) by blast
    have "\<exists>e1. user_pte k1 d' w = Some e1 \<and> ppn_of e1 = ppn_of e"
      using A(5) [OF w(2)] A(6) [OF w(2)] A(7) [OF w(1) _ _ w(2)] w(3,4,5) False
      by (cases "d' = d"; cases "d' = d2") (auto split: if_splits)
    then show ?thesis using B(8) [of d' w] w(1,2,3) x D by auto
  qed
  moreover have "length ps \<le> length ps' + (m + n) + 2" using A(3) B(3) by simp
  moreover have "unat (pref k' q) \<le> unat (pref k q) + 2 * (m + n) + 2" for q using A(4) [of q] B(4) [of q] by simp
  ultimately show ?thesis
    using same_envs_trans [OF A(1) B(1)] A(2) B(2) unfolding forked_stack_def by auto
qed

lemma user_vas_local:
  "unat va + n * 4096 \<le> unat UTOP \<Longrightarrow> \<forall>w. in_pages va n w \<longrightarrow> user_pte s' d w = user_pte s d w \<Longrightarrow> user_vas s' d n va = user_vas s d n va"
proof (induction n arbitrary: va)
  case (Suc n)
  note step = page_step [OF Suc.prems(1)]
  have "in_pages va (Suc n) va" "in_pages (va + PGSIZE) n w \<Longrightarrow> in_pages va (Suc n) w" for w
    using step by (auto simp: in_pages_def)
  then show ?case using Suc.IH [of "va + PGSIZE"] Suc.prems step by simp
qed simp

text \<open>The loop as a whole: the stack page is one of those that it duplicates, after so many others.\<close>

definition pages_between :: "u32 \<Rightarrow> u32 \<Rightarrow> nat" where
  "pages_between va esp = (unat esp - unat va) div 4096"

lemma pages_between:
  assumes "unat va mod 4096 = 0"
  shows "same_page esp va \<Longrightarrow> pages_between va esp = 0 \<and> ROUNDDOWN esp PGSIZE = va"
    and "unat va' = unat va + 4096 \<Longrightarrow> unat va' \<le> unat esp \<Longrightarrow> pages_between va esp = Suc (pages_between va' esp)"
proof -
  obtain j where j: "unat va = 4096 * j" using assms by auto
  show "same_page esp va \<Longrightarrow> pages_between va esp = 0 \<and> ROUNDDOWN esp PGSIZE = va"
  proof -
    assume "same_page esp va"
    then have e: "unat esp div 4096 = j" unfolding same_page_nat j by simp
    then have "4096 * j \<le> unat esp \<and> unat esp < 4096 * j + 4096" by (simp only: page_index)
    then have "unat esp - unat va < 4096" using j by linarith
    then have "pages_between va esp = 0" unfolding pages_between_def by (rule div_less)
    moreover have "unat (ROUNDDOWN esp PGSIZE) = unat va" using unat_page_down [of esp] e j by simp
    ultimately show ?thesis by (simp add: word_unat_eq_iff)
  qed
  assume "unat va' = unat va + 4096" "unat va' \<le> unat esp"
  then have "unat esp - unat va = (unat esp - unat va') + 4096" by simp
  then show "pages_between va esp = Suc (pages_between va' esp)" unfolding pages_between_def by simp
qed

lemma above_PFTEMP: "unat UTEXT \<le> unat w \<Longrightarrow> \<not> same_page w PFTEMP"
proof -
  assume "unat UTEXT \<le> unat w"
  then have "unat UTEXT div 4096 \<le> unat w div 4096" by (rule div_le_mono)
  then show ?thesis unfolding same_page_nat by (simp add: kdefs)
qed

lemma fork_loop_ok:
  assumes "kinv k held ps fs" "forking k c d child e2 d2" "unat va mod 4096 = 0" "unat va + n * 4096 \<le> unat UTOP" "unat UTEXT \<le> unat va"
    and "length (user_vas k d n va) + 2 \<le> length ps" "\<forall>q. unat (pref k q) + 2 * length (user_vas k d n va) + 2 < 65535"
    and "\<forall>w e. in_pages va n w \<longrightarrow> user_pte k d w = Some e \<longrightarrow> e AND PTE_U \<noteq> 0"
    and "own_page k d esp es" "es AND PTE_SHARE = 0" "in_pages va n esp"
  shows "\<exists>k' ps' p. fork_loop child esp st n va k = Some (Inr 0, k') \<and> kinv k' held ps' fs \<and>
    forked_stack d d2 esp es p (in_pages va n) (length (user_vas k d n va)) k ps k' ps' \<and> p < 2 ^ 20 \<and>
    phys k' (ppn_of es) = stores st (pages_between va esp) va (phys k (ppn_of es)) \<and>
    phys k' p = stores st (n - pages_between va esp) (ROUNDDOWN esp PGSIZE) (phys k' (ppn_of es))"
  using assms
proof (induction n arbitrary: va k ps)
  case 0
  from this(11) have False unfolding in_pages_def by linarith
  then show ?case ..
next
  case (Suc n)
  note step = page_step [OF Suc.prems(4)] and W = Suc.prems(9) [unfolded own_page_def]
  let ?va = "va + PGSIZE" and ?s = "ppn_of es"
  have d: "d \<noteq> d2" "d \<in> dirs k" "d2 \<in> dirs k" using Suc.prems(2) live_pgdir by (auto simp: forking_def)
  have va: "unat ?va mod 4096 = 0" "unat ?va + n * 4096 \<le> unat UTOP" "unat UTEXT \<le> unat ?va" using Suc.prems(3-5) step by simp_all
  note pages = in_pages_Suc [OF Suc.prems(3) conjunct2 [OF step], where n = n]
  have user: "w < UTOP" if "in_pages ?va n w" for w using that va(2) by (simp add: in_pages_def word_less_nat_alt)
  have high: "\<not> same_page w PFTEMP" if "in_pages va (Suc n) w" for w
    using above_PFTEMP [of w] that Suc.prems(5) by (simp add: in_pages_def)
  let ?v1 = "user_vas k d 1 va" and ?vas = "user_vas k d n ?va"
  have len: "length (user_vas k d (Suc n) va) = length ?v1 + length ?vas" by simp
  show ?case
  proof (cases "same_page esp va")
    case True
    have R: "in_pages va (Suc n) = (\<lambda>w. same_page w va \<or> in_pages ?va n w)" using pages(1) by (intro ext)
    have "user_pte k d va = Some es" using W user_pte_page [OF True, of k d] by simp
    then have l1: "length ?v1 = 1" by simp
    have m: "3 \<le> length ps" using Suc.prems(6) unfolding len l1 by simp
    have "\<forall>q. unat (pref k q) + 2 < 65535"
    proof
      fix q show "unat (pref k q) + 2 < 65535" using Suc.prems(7) [rule_format, of q] unfolding len l1 by simp
    qed
    note m = m this
    obtain k1 ps1 p where k1: "\<forall>n. fork_loop child esp st (Suc n) va k = fork_loop child esp st n ?va k1" "kinv k1 held ps1 fs"
      "forked_stack d d2 esp es p (\<lambda>w. same_page w va) 1 k ps k1 ps1" "p < 2 ^ 20"
      "phys k1 ?s = phys k ?s" "phys k1 p = st ?va (phys k ?s)"
      using stack_round [OF Suc.prems(1-3) conjunct1 [OF step] True Suc.prems(9,10) high [OF Suc.prems(11)] m, of st] by blast
    note F1 = forked_stackD [OF k1(3)] and P = PUW_entry [OF k1(4)]
    have fk1: "forking k1 c d child e2 d2" using forking_same [OF F1(1)] Suc.prems(2) by simp
    have D: "dirs k1 = dirs k" by (rule same_envs_dirs [OF F1(1)])
    have own: "own_page k1 d esp (page2pa p OR PUW OR PTE_P)" using F1(5) [of esp] W P(2,3) unfolding own_page_def by simp
    have out: "\<not> in_pages ?va n esp" using pages(2) True by blast
    have S: "\<not> same_page w esp \<and> \<not> same_page w PFTEMP" if "in_pages ?va n w" for w
      using pages(1,2) [of w] that True high [of w] by simp
    have low: "user_pte k1 d w = user_pte k d w" if "in_pages ?va n w" for w
      using F1(5) [OF user [OF that]] S [OF that] pages(2) [of w] that by simp
    have vas: "user_vas k1 d n ?va = ?vas" by (rule user_vas_local [OF va(2)]) (use low in blast)
    have "length ?vas \<le> length ps1" using F1(3) Suc.prems(6) unfolding len l1 by simp
    moreover have "unat (pref k1 q) + 2 * length ?vas < 65535" for q
      using F1(4) [of q] Suc.prems(7) [rule_format, of q] unfolding len l1 by simp
    moreover have "e AND PTE_U \<noteq> 0" if "in_pages ?va n w" "user_pte k1 d w = Some e" for w e
      using Suc.prems(8) low [OF that(1)] that pages(1) by auto
    ultimately obtain k' ps' where k': "fork_loop child esp st n ?va k1 = Some (Inr 0, k')" "kinv k' held ps' fs"
        "forked d d2 {p} (in_pages ?va n) (length ?vas) k1 ps1 k' ps'" "phys k' p = stores st n ?va (phys k1 p)"
      using fork_loop_quiet [OF k1(2) fk1 va(1,2) _ _ _ own out, of st] unfolding vas P(1) by blast
    have "forked_stack d d2 esp es p (in_pages va (Suc n)) (1 + length ?vas) k ps k' ps'"
      unfolding R by (rule stack_then_forked [OF k1(3) k'(3) d(2,3,1)]) (use pages(2) S True W in auto)
    moreover have "phys k' ?s = phys k1 ?s"
    proof -
      have "user_pte k1 d2 esp = Some (child_entry es)" using F1(6) [of esp] W True by simp
      moreover have "?s \<noteq> p" using F1(8) [of d esp es] W d high [OF Suc.prems(11)] by simp
      ultimately show ?thesis using forkedD(8) [OF k'(3), of d2 esp "child_entry es"] W out d D by simp
    qed
    moreover have "fork_loop child esp st (Suc n) va k = Some (Inr 0, k')" using k1(1) k'(1) by simp
    ultimately show ?thesis
      using k'(2,4) k1(4-6) pages_between(1) [OF Suc.prems(3) True] l1 by (intro exI [of _ k'] exI [of _ ps'] exI [of _ p]) simp
  next
    case False
    have R: "in_pages va (Suc n) = (\<lambda>w. (same_page w va \<or> False) \<or> in_pages ?va n w)" using pages(1) by (intro ext) simp
    have m: "length ?v1 \<le> length ps" "\<forall>q. unat (pref k q) + 2 * length ?v1 < 65535" "\<forall>e. user_pte k d va = Some e \<longrightarrow> e AND PTE_U \<noteq> 0"
      using Suc.prems(6-8) pages(1) unfolding len by (simp, metis add_lessD1 add_mult_distrib2 add.assoc, simp)
    from fork_round [OF Suc.prems(1-3) conjunct1 [OF step] m, of esp st] obtain k1 ps1 where
      k1: "fork_loop child esp st (Suc n) va k = do { k \<leftarrow> user_store esp (st ?va) k1; fork_loop child esp st n ?va k }"
        "kinv k1 held ps1 fs" "forked d d2 {} (\<lambda>w. same_page w va) (length ?v1) k ps k1 ps1" by blast
    note F1 = forkedD [OF k1(3)]
    have fk1: "forking k1 c d child e2 d2" using forking_same [OF F1(1)] Suc.prems(2) by simp
    have es1: "own_page k1 d esp es" using Suc.prems(9) F1(5) [of esp] False unfolding own_page_def by auto
    obtain k2 where k2: "user_store esp (st ?va) k1 = Some k2" "kinv k2 held ps1 fs"
        "forked d d2 {?s} (\<lambda>_. False) 0 k1 ps1 k2 ps1" "phys k2 ?s = st ?va (phys k1 ?s)"
      using fork_store [OF k1(2) fk1 es1] by blast
    have F: "forked d d2 {?s} (\<lambda>w. same_page w va \<or> False) (length ?v1 + 0) k ps k2 ps1"
      by (rule forked_trans [OF forked_more_frames [OF k1(3)] k2(3) d(2,3,1)]) simp
    note F2 = forkedD [OF F]
    have fk2: "forking k2 c d child e2 d2" using forking_same [OF F2(1)] Suc.prems(2) by simp
    have es2: "own_page k2 d esp es" "in_pages ?va n esp"
      using Suc.prems(9,11) F2(5) [of esp] False pages(1) unfolding own_page_def by auto
    have vas: "user_vas k2 d n ?va = ?vas"
      by (rule user_vas_cong_None [OF _ va(2)]) (simp add: F2(5))
    have "length ?vas + 2 \<le> length ps1" using F2(3) Suc.prems(6) unfolding len by simp
    moreover have "unat (pref k2 q) + 2 * length ?vas + 2 < 65535" for q
      using F2(4) [of q] Suc.prems(7) [rule_format, of q] unfolding len by simp
    moreover have "e AND PTE_U \<noteq> 0" if "in_pages ?va n w" "user_pte k2 d w = Some e" for w e
      using F2(5) [OF user [OF that(1)]] that pages(1,2) [of w] Suc.prems(8) by simp
    ultimately obtain k' ps' p where k': "fork_loop child esp st n ?va k2 = Some (Inr 0, k')" "kinv k' held ps' fs"
        "forked_stack d d2 esp es p (in_pages ?va n) (length ?vas) k2 ps1 k' ps'" "p < 2 ^ 20"
        "phys k' ?s = stores st (pages_between ?va esp) ?va (phys k2 ?s)"
        "phys k' p = stores st (n - pages_between ?va esp) (ROUNDDOWN esp PGSIZE) (phys k' ?s)"
      using Suc.IH [OF k2(2) fk2 va _ _ _ es2(1) Suc.prems(10) es2(2)] unfolding vas by blast
    have "forked_stack d d2 esp es p (in_pages va (Suc n)) (length ?v1 + 0 + length ?vas) k ps k' ps'"
      unfolding R by (rule forked_then_stack [OF F k'(3) d(2,3,1)]) (use pages(2) in simp)
    moreover have "fork_loop child esp st (Suc n) va k = Some (Inr 0, k')" using k1(1) k2(1) k'(1) by simp
    moreover have "phys k1 ?s = phys k ?s" using F1(8) [of d esp es] d W by simp
    moreover have "pages_between va esp = Suc (pages_between ?va esp)"
      using pages_between(2) [OF Suc.prems(3) conjunct2 [OF step]] es2(2) by (simp add: in_pages_def)
    ultimately show ?thesis
      using k'(2,4-6) k2(4) by (intro exI [of _ k'] exI [of _ ps'] exI [of _ p]) simp
  qed
qed

section \<open>The steps around the loop\<close>

lemma kinv_upd_env:
  assumes inv: "kinv k held ps fs" and e: "live k e"
    and f: "env_status (f (envs k e)) \<noteq> ENV_FREE" "env_pgdir (f (envs k e)) = env_pgdir (envs k e)"
      "env_id (f (envs k e)) = env_id (envs k e)" "env_link (f (envs k e)) = env_link (envs k e)"
  shows "kinv (upd_env e f k) held ps fs" "dirs (upd_env e f k) = dirs k"
proof -
  have m: "envs (upd_env e f k) = (envs k)(e := f (envs k e))" "vm_inv (upd_env e f k) (dirs k) held ps"
    "\<forall>q. pref k q = 0 \<longrightarrow> q \<notin> set ps \<longrightarrow> pref (upd_env e f k) q = 0 \<and> q \<notin> set ps"
    using inv by (auto simp: kinv_def fun_eq_iff)
  show "kinv (upd_env e f k) held ps fs" "dirs (upd_env e f k) = dirs k"
    using kinv_live_env [where f = f, OF inv e f m(1) _ _ _ m(2,3)] by simp_all
qed

lemma user_pte_upd_env [simp]: "user_pte (upd_env e f k) = user_pte k"
  by (rule user_pte_phys) simp

lemma held_not_free:
  assumes "kinv k held ps fs" "0 < held p" "p < npages k"
  shows "p \<notin> set ps"
proof
  note kv = assms(1) [unfolded kinv_def, THEN conjunct1]
  assume "p \<in> set ps"
  then have "pref k p = 0" using vm_avail [OF kv] by (auto simp: avail_def)
  then show False using vm_count [OF kv assms(3)] assms(2) by simp
qed

lemma exofork_ok:
  assumes inv: "kinv k held (p # ps) (e2 # fs)" and c: "curenv k = Some c" "live k c"
    and n: "npages k \<le> 65536" "kern_pgdir k \<noteq> p"
  shows "\<exists>k'. sys_exofork k = Some (Inr (env_id (envs k' e2)), k') \<and> kinv k' held ps fs \<and> dirs k' = insert p (dirs k) \<and>
    live k' e2 \<and> env_pgdir (envs k' e2) = Some p \<and> env_parent_id (envs k' e2) = env_id (envs k c) \<and>
    ENVX (env_id (envs k' e2)) = e2 \<and> env_id (envs k' e2) \<noteq> 0 \<and>
    env_tf (envs k' e2) = (env_tf (envs k c))\<lparr>tf_regs := (tf_regs (env_tf (envs k c)))\<lparr>reg_eax := 0\<rparr>\<rparr> \<and>
    e2 \<noteq> c \<and> (\<forall>i. i \<noteq> e2 \<longrightarrow> envs k' i = envs k i) \<and> curenv k' = curenv k \<and> (\<forall>va<UTOP. user_pte k' p va = None) \<and>
    (\<forall>x\<in>dirs k. \<forall>va<UTOP. user_pte k' x va = user_pte k x va) \<and> npages k' = npages k \<and>
    (\<forall>f. f \<noteq> p \<longrightarrow> phys k' f = phys k f) \<and> (\<forall>q. unat (pref k' q) \<le> Suc (unat (pref k q)))"
proof -
  obtain k1 where k1: "env_alloc (env_id (envs k c)) k = Some (Inr e2, k1)" "kinv k1 held ps fs"
    "env_status (envs k1 e2) = ENV_RUNNABLE" "env_parent_id (envs k1 e2) = env_id (envs k c)"
    "env_pgdir (envs k1 e2) = Some p" "ENVX (env_id (envs k1 e2)) = e2" "0 < sint (env_id (envs k1 e2))"
    "\<forall>i. i \<noteq> e2 \<longrightarrow> envs k1 i = envs k i" "curenv k1 = curenv k" "\<forall>va<UTOP. user_pte k1 p va = None"
    "\<forall>x\<in>dirs k. \<forall>va<UTOP. user_pte k1 x va = user_pte k x va" "dirs k1 = insert p (dirs k)" "npages k1 = npages k"
    "\<forall>f. f \<noteq> p \<longrightarrow> phys k1 f = phys k f" "\<forall>q. pref k1 q = (if q = p then 1 else pref k q)"
    using env_alloc_runs [OF inv n, of "env_id (envs k c)"] by blast
  have "e2 < NENV \<and> env_status (envs k e2) = ENV_FREE" using inv by (auto simp: kinv_def env_table_def)
  then have e2: "e2 < NENV" "e2 \<noteq> c" using c(2) by (auto simp: live_def)
  then have l: "live k1 e2" using k1(3) by (simp add: live_def)
  have "env_id (envs k1 e2) \<noteq> 0" using k1(7) by auto
  let ?tf = "(env_tf (envs k c))\<lparr>tf_regs := (tf_regs (env_tf (envs k c)))\<lparr>reg_eax := 0\<rparr>\<rparr>"
  let ?f = "\<lambda>v. v\<lparr>env_status := ENV_NOT_RUNNABLE, env_tf := ?tf\<rparr>"
  let ?k' = "upd_env e2 ?f k1"
  have "sys_exofork k = Some (Inr (env_id (envs ?k' e2)), ?k')"
    using c(1) k1(1,8,9) e2(2) by (simp add: sys_exofork_def Let_def)
  moreover have "kinv ?k' held ps fs" "dirs ?k' = insert p (dirs k)"
    using kinv_upd_env [OF k1(2) l, of ?f] k1(12) by simp_all
  moreover have "curenv ?k' = curenv k" using k1(9) by (simp add: curenv_def)
  moreover have "\<forall>q. unat (pref ?k' q) \<le> Suc (unat (pref k q))" using k1(15) by simp
  moreover have "live ?k' e2" using e2(1) by (simp add: live_def)
  ultimately show ?thesis
    using k1(4-6,8,10,11,13,14) e2(2) \<open>env_id (envs k1 e2) \<noteq> 0\<close> by (intro exI [of _ ?k'] conjI) simp_all
qed

lemma set_handler_ok:
  assumes inv: "kinv k held ps fs" and c: "curenv k = Some c" "live k c" "env_pgdir (envs k c) = Some d" and mem: "2 \<le> length ps"
  shows "\<exists>k' ps'. set_pgfault_handler upcall handler h k = Some (handler, k') \<and> kinv k' held ps' fs \<and> dirs k' = dirs k \<and>
    envs k' = (envs k)(c := (envs k c)\<lparr>env_pgfault_upcall := upcall\<rparr>) \<and> curenv k' = curenv k \<and> npages k' = npages k \<and>
    kern_pgdir k' = kern_pgdir k \<and> length ps \<le> length ps' + 2 \<and> (\<forall>q. unat (pref k' q) \<le> Suc (unat (pref k q))) \<and>
    (\<forall>x\<in>dirs k. \<forall>w<UTOP. \<not> (x = d \<and> same_page w UXSTACK) \<longrightarrow> user_pte k' x w = user_pte k x w) \<and>
    (\<forall>x\<in>dirs k. \<forall>w<UTOP. \<forall>e. user_pte k x w = Some e \<longrightarrow> phys k' (ppn_of e) = phys k (ppn_of e))"
proof -
  let ?f = "\<lambda>v. v\<lparr>env_pgfault_upcall := upcall\<rparr>"
  have "\<exists>k1 ps1. (if h = 0 then do {
             (me, k) \<leftarrow> sys_getenvid k;
             (r, k) \<leftarrow> sys_page_alloc (result_word me) UXSTACK (PTE_U OR PTE_W OR PTE_P) k;
             case r of Inl _ \<Rightarrow> None | Inr _ \<Rightarrow> Some k
           } else Some k) = Some k1 \<and> kinv k1 held ps1 fs \<and> same_envs k k1 \<and>
      npages k1 = npages k \<and> length ps \<le> length ps1 + 2 \<and> (\<forall>q. unat (pref k1 q) \<le> Suc (unat (pref k q))) \<and>
      (\<forall>x\<in>dirs k. \<forall>w<UTOP. \<not> (x = d \<and> same_page w UXSTACK) \<longrightarrow> user_pte k1 x w = user_pte k x w) \<and>
      (\<forall>x\<in>dirs k. \<forall>w<UTOP. \<forall>e. user_pte k x w = Some e \<longrightarrow> phys k1 (ppn_of e) = phys k (ppn_of e))"
  proof (cases "h = 0")
    case True
    have id: "envid2env (env_id (envs k c)) True k = Some (Inr (Some c))" by (rule env_by_id [OF inv c(2,1)]) simp
    obtain k1 ps1 where "sys_page_alloc (env_id (envs k c)) UXSTACK (PTE_U OR PTE_W OR PTE_P) k = Some (Inr 0, k1)"
      "kinv k1 held ps1 fs" "same_envs k k1" "npages k1 = npages k" "length ps \<le> length ps1 + 2"
      "\<forall>q. unat (pref k1 q) \<le> Suc (unat (pref k q))"
      "\<forall>x\<in>dirs k. \<forall>w<UTOP. \<not> (x = d \<and> same_page w UXSTACK) \<longrightarrow> user_pte k1 x w = user_pte k x w"
      "\<forall>x\<in>dirs k. \<forall>w<UTOP. \<forall>e. user_pte k x w = Some e \<longrightarrow> phys k1 (ppn_of e) = phys k (ppn_of e)"
      using fresh_page [OF inv id c(2,3) UXSTACK_ok(1,2,4) mem] by blast
    then show ?thesis using True c(1) by (intro exI [of _ k1] exI [of _ ps1]) (simp add: sys_getenvid_def result_word_def)
  next
    case False
    then show ?thesis using inv by (intro exI [of _ k] exI [of _ ps]) simp
  qed
  then obtain k1 ps1 where k1: "(if h = 0 then do {
             (me, k) \<leftarrow> sys_getenvid k;
             (r, k) \<leftarrow> sys_page_alloc (result_word me) UXSTACK (PTE_U OR PTE_W OR PTE_P) k;
             case r of Inl _ \<Rightarrow> None | Inr _ \<Rightarrow> Some k
           } else Some k) = Some k1" "kinv k1 held ps1 fs" "same_envs k k1"
      "npages k1 = npages k" "length ps \<le> length ps1 + 2" "\<forall>q. unat (pref k1 q) \<le> Suc (unat (pref k q))"
      "\<forall>x\<in>dirs k. \<forall>w<UTOP. \<not> (x = d \<and> same_page w UXSTACK) \<longrightarrow> user_pte k1 x w = user_pte k x w"
      "\<forall>x\<in>dirs k. \<forall>w<UTOP. \<forall>e. user_pte k x w = Some e \<longrightarrow> phys k1 (ppn_of e) = phys k (ppn_of e)" by blast
  have en: "envs k1 = envs k" "curenv k1 = Some c" "live k1 c" "kern_pgdir k1 = kern_pgdir k"
    using k1(3) c same_envs_ids [OF k1(3)] by (simp_all add: same_envs_def live_def)
  have id1: "envid2env (env_id (envs k1 c)) True k1 = Some (Inr (Some c))" by (rule env_by_id [OF k1(2) en(3,2)]) simp
  have "set_pgfault_handler upcall handler h k = Some (handler, upd_env c ?f k1)"
    using k1(1) en(2) id1 by (simp add: set_pgfault_handler_def sys_getenvid_def result_word_def
        sys_env_set_pgfault_upcall_def with_env_def)
  moreover have "kinv (upd_env c ?f k1) held ps1 fs" "dirs (upd_env c ?f k1) = dirs k"
    using kinv_upd_env [OF k1(2) en(3), of ?f] same_envs_dirs [OF k1(3)] en(3) by (simp_all add: live_def)
  moreover have "envs (upd_env c ?f k1) = (envs k)(c := (envs k c)\<lparr>env_pgfault_upcall := upcall\<rparr>)"
    using en(1) by (auto simp: fun_eq_iff)
  moreover have "curenv (upd_env c ?f k1) = curenv k" using en(2) c(1) by (simp add: curenv_def)
  ultimately show ?thesis
    using k1(4-8) en(4) by (intro exI [of _ "upd_env c ?f k1"] exI [of _ ps1]) simp
qed

section \<open>Fork as a whole\<close>

definition fork_pages :: nat where
  "fork_pages = unat ((USTACKTOP - UTEXT) div PGSIZE)"

lemma fork_range: "in_pages UTEXT fork_pages w \<longleftrightarrow> UTEXT \<le> w \<and> w < USTACKTOP"
  by (simp add: in_pages_def fork_pages_def word_le_nat_alt word_less_nat_alt kdefs)

lemma fork_range_ok: "unat UTEXT mod 4096 = 0" "unat UTEXT + fork_pages * 4096 \<le> unat UTOP"
  by (simp_all add: fork_pages_def kdefs)

lemma fork_range_stack: "w < USTACKTOP \<Longrightarrow> w < UTOP \<and> \<not> same_page w UXSTACK"
proof -
  assume "w < USTACKTOP"
  then have w: "unat w < unat USTACKTOP" by (simp add: word_less_nat_alt)
  have "unat w div 4096 \<noteq> unat UXSTACK div 4096"
    using w by (simp add: kdefs page_index)
  then show ?thesis using w by (simp add: same_page_nat word_less_nat_alt) (simp add: kdefs)
qed

lemma envid2env_cong:
  "curenv k' = curenv k \<Longrightarrow> (\<And>i. env_status (envs k' i) = env_status (envs k i)) \<Longrightarrow> (\<And>i. env_id (envs k' i) = env_id (envs k i)) \<Longrightarrow>
   (\<And>i. env_parent_id (envs k' i) = env_parent_id (envs k i)) \<Longrightarrow> envid2env i chk k' = envid2env i chk k"
  by (simp add: envid2env_def Let_def cong: if_cong option.case_cong)

lemma child_setup_ok:
  assumes inv: "kinv k held ps fs" and fk: "forking k c d child e2 d2" and mem: "2 \<le> length ps"
  shows "\<exists>k1 k' ps' p. sys_page_alloc child UXSTACK (PTE_P OR PTE_U OR PTE_W) k = Some (Inr 0, k1) \<and>
    sys_env_set_pgfault_upcall child upcall k1 = Some (Inr 0, upd_env e2 (\<lambda>v. v\<lparr>env_pgfault_upcall := upcall\<rparr>) k1) \<and>
    sys_env_set_status child 2 (upd_env e2 (\<lambda>v. v\<lparr>env_pgfault_upcall := upcall\<rparr>) k1) = Some (Inr 0, k') \<and>
    kinv k' held ps' fs \<and> dirs k' = dirs k \<and> npages k' = npages k \<and> curenv k' = curenv k \<and> length ps \<le> length ps' + 2 \<and>
    envs k' = (envs k)(e2 := (envs k e2)\<lparr>env_pgfault_upcall := upcall, env_status := ENV_RUNNABLE\<rparr>) \<and>
    user_pte k' d2 UXSTACK = Some (page2pa p OR (PTE_P OR PTE_U OR PTE_W) OR PTE_P) \<and> p < 2 ^ 20 \<and> phys k' p = (\<lambda>_. 0) \<and>
    (\<forall>x\<in>dirs k. \<forall>w<UTOP. \<not> (x = d2 \<and> same_page w UXSTACK) \<longrightarrow> user_pte k' x w = user_pte k x w) \<and>
    (\<forall>x\<in>dirs k. \<forall>w<UTOP. \<forall>e. user_pte k x w = Some e \<longrightarrow> phys k' (ppn_of e) = phys k (ppn_of e))"
proof -
  note ch = fk [unfolded forking_def]
  obtain k1 ps1 p where k1: "sys_page_alloc child UXSTACK (PTE_P OR PTE_U OR PTE_W) k = Some (Inr 0, k1)" "kinv k1 held ps1 fs"
    "same_envs k k1" "npages k1 = npages k" "length ps \<le> length ps1 + 2" "\<forall>w<UTOP. same_page w UXSTACK \<longrightarrow> user_pte k1 d2 w = Some (page2pa p OR (PTE_P OR PTE_U OR PTE_W) OR PTE_P)"
    "p < 2 ^ 20" "phys k1 p = (\<lambda>_. 0)"
    "\<forall>x\<in>dirs k. \<forall>w<UTOP. \<not> (x = d2 \<and> same_page w UXSTACK) \<longrightarrow> user_pte k1 x w = user_pte k x w"
    "\<forall>x\<in>dirs k. \<forall>w<UTOP. \<forall>e. user_pte k x w = Some e \<longrightarrow> phys k1 (ppn_of e) = phys k (ppn_of e)"
    using fresh_page [OF inv _ _ _ UXSTACK_ok(1-3) mem, of child e2 d2] ch by blast
  let ?f = "\<lambda>v. v\<lparr>env_pgfault_upcall := upcall\<rparr>" let ?g = "\<lambda>v. v\<lparr>env_status := ENV_RUNNABLE\<rparr>"
  let ?k2 = "upd_env e2 ?f k1" let ?k' = "upd_env e2 ?g ?k2"
  have fk1: "forking k1 c d child e2 d2" using forking_same [OF k1(3)] fk by simp
  have l: "live k1 e2" "envid2env child True k1 = Some (Inr (Some e2))" using fk1 by (simp_all add: forking_def)
  have l2: "live ?k2 e2" using l(1) by (simp add: live_def)
  have "envid2env child True ?k2 = envid2env child True k1" by (rule envid2env_cong) (simp_all add: curenv_def)
  then have calls: "sys_env_set_pgfault_upcall child upcall k1 = Some (Inr 0, ?k2)" "sys_env_set_status child 2 ?k2 = Some (Inr 0, ?k')"
    using l(2) by (simp_all add: sys_env_set_pgfault_upcall_def sys_env_set_status_def with_env_def)
  note u2 = kinv_upd_env [OF k1(2) l(1), of ?f]
  have v2: "kinv ?k2 held ps1 fs" "dirs ?k2 = dirs k"
    using u2 l(1) same_envs_dirs [OF k1(3)] by (simp_all add: live_def)
  have v': "kinv ?k' held ps1 fs" "dirs ?k' = dirs k"
    using kinv_upd_env [OF v2(1) l2, of ?g] v2(2) by simp_all
  have "envs ?k' = (envs k)(e2 := (envs k e2)\<lparr>env_pgfault_upcall := upcall, env_status := ENV_RUNNABLE\<rparr>)"
    using k1(3) by (auto simp: fun_eq_iff same_envs_def)
  moreover have "curenv ?k' = curenv k" using same_envs_ids [OF k1(3)] by (simp add: curenv_def)
  ultimately show ?thesis
    using k1(1,4-10) calls v' UXSTACK_ok(1) by (intro exI [of _ k1] exI [of _ ?k'] exI [of _ ps1] exI [of _ p]) simp
qed

lemma fork_returned_ok:
  assumes inv: "kinv k held ps fs" and fk: "forking k c d child e2 d2" "child \<noteq> 0"
    and mem: "length (user_vas k d fork_pages UTEXT) + 4 \<le> length ps"
      "\<forall>q. unat (pref k q) + 2 * length (user_vas k d fork_pages UTEXT) + 2 < 65535"
    and us: "\<forall>w e. UTEXT \<le> w \<longrightarrow> w < USTACKTOP \<longrightarrow> user_pte k d w = Some e \<longrightarrow> e AND PTE_U \<noteq> 0"
    and new: "\<forall>w<UTOP. user_pte k d2 w = None"
    and st: "UTEXT \<le> esp" "esp < USTACKTOP" "user_pte k d esp = Some es" "es AND PTE_W \<noteq> 0" "es AND PTE_SHARE = 0"
  shows "\<exists>k' ps' p p2. fork_returned upcall esp st child k = Some (Inr child, None, k') \<and> kinv k' held ps' fs \<and>
    curenv k' = curenv k \<and>
    envs k' = (envs k)(e2 := (envs k e2)\<lparr>env_pgfault_upcall := upcall, env_status := ENV_RUNNABLE\<rparr>) \<and>
    user_pte k' d2 UXSTACK = Some (page2pa p OR (PTE_P OR PTE_U OR PTE_W) OR PTE_P) \<and> p < 2 ^ 20 \<and> phys k' p = (\<lambda>_. 0) \<and>
    (\<forall>w. UTEXT \<le> w \<longrightarrow> w < USTACKTOP \<longrightarrow>
       user_pte k' d w = (if same_page w esp then Some (page2pa p2 OR PUW OR PTE_P) else map_option parent_entry (user_pte k d w)) \<and>
       user_pte k' d2 w = map_option child_entry (user_pte k d w)) \<and>
    p2 < 2 ^ 20 \<and> phys k' (ppn_of es) = stores st (pages_between UTEXT esp) UTEXT (st UTEXT (phys k (ppn_of es))) \<and>
    phys k' p2 = stores st (fork_pages - pages_between UTEXT esp) (ROUNDDOWN esp PGSIZE) (phys k' (ppn_of es)) \<and>
    (\<forall>x\<in>dirs k. x \<noteq> d \<longrightarrow> x \<noteq> d2 \<longrightarrow> (\<forall>w<UTOP. user_pte k' x w = user_pte k x w)) \<and>
    (\<forall>x\<in>dirs k. \<forall>w<UTOP. \<forall>e. x \<noteq> d2 \<longrightarrow> \<not> (x = d \<and> same_page w PFTEMP) \<longrightarrow> user_pte k x w = Some e \<longrightarrow>
       ppn_of e \<noteq> p2 \<and> (ppn_of e \<noteq> ppn_of es \<longrightarrow> phys k' (ppn_of e) = phys k (ppn_of e)))"
proof -
  let ?m = "length (user_vas k d fork_pages UTEXT)" and ?s = "ppn_of es"
  have d: "d \<noteq> d2" "d \<in> dirs k" "d2 \<in> dirs k" using fk(1) live_pgdir by (auto simp: forking_def)
  have own: "own_page k d esp es" using st us fork_range_stack [OF st(2)] unfolding own_page_def by blast
  obtain k0 where k0: "user_store esp (st UTEXT) k = Some k0" "kinv k0 held ps fs"
      "forked d d2 {?s} (\<lambda>_. False) 0 k ps k0 ps" "phys k0 ?s = st UTEXT (phys k ?s)"
    using fork_store [OF inv fk(1) own] by blast
  note F0 = forkedD [OF k0(3)]
  have fk0: "forking k0 c d child e2 d2" using forking_same [OF F0(1)] fk(1) by simp
  have low: "user_pte k0 d w = user_pte k d w" if "w < UTOP" for w using F0(5) [OF that] by simp
  have range: "w < UTOP" if "in_pages UTEXT fork_pages w" for w using that fork_range fork_range_stack by blast
  have vas: "user_vas k0 d fork_pages UTEXT = user_vas k d fork_pages UTEXT"
    by (rule user_vas_local [OF fork_range_ok(2)]) (use low range in blast)
  have "\<forall>q. unat (pref k0 q) + 2 * ?m + 2 < 65535"
  proof
    fix q show "unat (pref k0 q) + 2 * ?m + 2 < 65535" using F0(4) [of q] mem(2) [rule_format, of q] by linarith
  qed
  moreover have "?m + 2 \<le> length ps" using mem(1) by linarith
  moreover have "\<forall>w e. in_pages UTEXT fork_pages w \<longrightarrow> user_pte k0 d w = Some e \<longrightarrow> e AND PTE_U \<noteq> 0"
    using us low range fork_range by auto
  moreover have "own_page k0 d esp es" using own low unfolding own_page_def by simp
  moreover have "in_pages UTEXT fork_pages esp" using st(1,2) fork_range by blast
  ultimately obtain k1 ps1 p2 where k1: "fork_loop child esp st fork_pages UTEXT k0 = Some (Inr 0, k1)" "kinv k1 held ps1 fs"
      "forked_stack d d2 esp es p2 (in_pages UTEXT fork_pages) ?m k0 ps k1 ps1" "p2 < 2 ^ 20"
      "phys k1 ?s = stores st (pages_between UTEXT esp) UTEXT (phys k0 ?s)"
      "phys k1 p2 = stores st (fork_pages - pages_between UTEXT esp) (ROUNDDOWN esp PGSIZE) (phys k1 ?s)"
    using fork_loop_ok [OF k0(2) fk0 fork_range_ok(1,2) order_refl, of esp es st] st(5) unfolding vas by blast
  have "forked_stack d d2 esp es p2 (\<lambda>w. False \<or> in_pages UTEXT fork_pages w) (0 + ?m) k ps k1 ps1"
    by (rule forked_then_stack [OF k0(3) k1(3) d(2,3,1)]) simp
  then have k1': "forked_stack d d2 esp es p2 (in_pages UTEXT fork_pages) ?m k ps k1 ps1" by simp
  note F = forked_stackD [OF k1']
  have D: "dirs k1 = dirs k" by (rule same_envs_dirs [OF F(1)])
  have fk1: "forking k1 c d child e2 d2" using forking_same [OF F(1)] fk(1) by simp
  have "2 \<le> length ps1" using F(3) mem(1) by simp
  from child_setup_ok [OF k1(2) fk1 this, of upcall] obtain k2 k' ps' p where
    k2: "sys_page_alloc child UXSTACK (PTE_P OR PTE_U OR PTE_W) k1 = Some (Inr 0, k2)"
      "sys_env_set_pgfault_upcall child upcall k2 = Some (Inr 0, upd_env e2 (\<lambda>v. v\<lparr>env_pgfault_upcall := upcall\<rparr>) k2)"
      "sys_env_set_status child 2 (upd_env e2 (\<lambda>v. v\<lparr>env_pgfault_upcall := upcall\<rparr>) k2) = Some (Inr 0, k')"
    and k': "kinv k' held ps' fs" "curenv k' = curenv k1"
      "envs k' = (envs k1)(e2 := (envs k1 e2)\<lparr>env_pgfault_upcall := upcall, env_status := ENV_RUNNABLE\<rparr>)"
      "user_pte k' d2 UXSTACK = Some (page2pa p OR (PTE_P OR PTE_U OR PTE_W) OR PTE_P)" "p < 2 ^ 20" "phys k' p = (\<lambda>_. 0)"
      "\<forall>x\<in>dirs k1. \<forall>w<UTOP. \<not> (x = d2 \<and> same_page w UXSTACK) \<longrightarrow> user_pte k' x w = user_pte k1 x w"
      "\<forall>x\<in>dirs k1. \<forall>w<UTOP. \<forall>e. user_pte k1 x w = Some e \<longrightarrow> phys k' (ppn_of e) = phys k1 (ppn_of e)" by blast
  have run: "fork_returned upcall esp st child k = Some (Inr child, None, k')"
    using fk(2) k0(1) k1(1) k2 by (simp add: fork_returned_def fork_pages_def)
  have stack: "user_pte k1 d esp = Some (page2pa p2 OR PUW OR PTE_P)" "user_pte k1 d2 esp = Some (child_entry es)"
    using F(5,6) [of esp] own st(1,2) fork_range by (simp_all add: own_page_def)
  have "phys k' p2 = phys k1 p2" "phys k' ?s = phys k1 ?s"
    using k'(8) [rule_format, of d esp, OF _ _ stack(1)] k'(8) [rule_format, of d2 esp, OF _ _ stack(2)] d D own PUW_entry(1) [OF k1(4)]
    by (simp_all add: own_page_def)
  moreover have "user_pte k' d w = (if same_page w esp then Some (page2pa p2 OR PUW OR PTE_P) else map_option parent_entry (user_pte k d w)) \<and>
       user_pte k' d2 w = map_option child_entry (user_pte k d w)" if "UTEXT \<le> w" "w < USTACKTOP" for w
  proof -
    note w = fork_range_stack [OF that(2)]
    have "user_pte k' d w = user_pte k1 d w" "user_pte k' d2 w = user_pte k1 d2 w" using k'(7) w d D by simp_all
    moreover have "\<not> same_page w PFTEMP" using above_PFTEMP [of w] that(1) by (simp add: word_le_nat_alt)
    ultimately show ?thesis using F(5,6) [of w] w that new by (simp add: fork_range)
  qed
  moreover have "user_pte k' x w = user_pte k x w" if "x \<in> dirs k" "x \<noteq> d" "x \<noteq> d2" "w < UTOP" for x w
    using k'(7) F(7) [OF that] that D by simp
  moreover have "ppn_of e \<noteq> p2 \<and> (ppn_of e \<noteq> ?s \<longrightarrow> phys k' (ppn_of e) = phys k (ppn_of e))"
    if w: "x \<in> dirs k" "w < UTOP" "x \<noteq> d2" "\<not> (x = d \<and> same_page w PFTEMP)" "user_pte k x w = Some e" for x w e
  proof -
    note f = F(8) [OF w(1,2) _ w(4,5)]
    have "phys k' (ppn_of e) = phys k1 (ppn_of e)" if "ppn_of e \<noteq> ?s"
    proof -
      have "\<not> (x = d \<and> same_page w esp)" using that w(5) st(3) user_pte_page [of w esp k d] by auto
      then have "\<exists>e1. user_pte k1 x w = Some e1 \<and> ppn_of e1 = ppn_of e"
        using F(5) [OF w(2)] F(7) [OF w(1) _ w(3,2)] w(4,5) by (cases "x = d") (auto split: if_splits)
      then show ?thesis using k'(8) w(1,2) D by metis
    qed
    then show ?thesis using f w(3) by simp
  qed
  moreover have "curenv k1 = curenv k" "envs k1 = envs k" using F(1) same_envs_ids [OF F(1)] by (simp_all add: same_envs_def)
  ultimately show ?thesis
    using run k'(1-6) k1(4-6) k0(4) by (intro exI [of _ k'] exI [of _ ps'] exI [of _ p] exI [of _ p2] conjI) simp_all
qed

lemma cow_not_writable:
  "e AND PTE_SHARE = 0 \<Longrightarrow> child_entry e AND PTE_W = 0 \<and> parent_entry e AND PTE_W = 0"
  using fork_perm_write [of e] entry_write [of "ppn_of e" "fork_perm e"]
  by (auto simp: child_entry_def parent_entry_def becomes_cow_def)

text \<open>The state in which the child exists and the duplication begins.\<close>

definition fork_ready ::
  "u32 \<Rightarrow> nat \<Rightarrow> nat \<Rightarrow> nat \<Rightarrow> nat \<Rightarrow> 'z kernel_scheme \<Rightarrow> 'z kernel_scheme \<Rightarrow> bool" where
  "fork_ready upcall c d e2 p k k2 \<longleftrightarrow> env_id (envs k2 e2) \<noteq> 0 \<and> ENVX (env_id (envs k2 e2)) = e2 \<and>
     env_parent_id (envs k2 e2) = env_id (envs k c) \<and> env_pgdir (envs k2 e2) = Some p \<and>
     env_tf (envs k2 e2) = (env_tf (envs k c))\<lparr>tf_regs := (tf_regs (env_tf (envs k c)))\<lparr>reg_eax := 0\<rparr>\<rparr> \<and>
     envs k2 c = (envs k c)\<lparr>env_pgfault_upcall := upcall\<rparr> \<and> e2 \<noteq> c \<and> dirs k2 = insert p (dirs k) \<and> p \<notin> dirs k \<and>
     forking k2 c d (env_id (envs k2 e2)) e2 p \<and> (\<forall>w<UTOP. user_pte k2 p w = None) \<and>
     (\<forall>x\<in>dirs k. \<forall>w<UTOP. \<not> (x = d \<and> same_page w UXSTACK) \<longrightarrow> user_pte k2 x w = user_pte k x w) \<and>
     (\<forall>x\<in>dirs k. \<forall>w<UTOP. \<forall>e. user_pte k2 x w = Some e \<longrightarrow> user_pte k x w = Some e \<longrightarrow> phys k2 (ppn_of e) = phys k (ppn_of e))"

lemma fork_ready_ok:
  fixes k :: "'z kernel_scheme"
  assumes "kinv k held ps (e2 # fs)" "curenv k = Some c" "live k c" "env_pgdir (envs k c) = Some d"
    and "npages k \<le> 65536" "kern_pgdir k < npages k" "0 < held (kern_pgdir k)" "3 \<le> length ps"
  shows "\<exists>k1 k2 ps2 p. set_pgfault_handler upcall handler h k = Some (handler, k1) \<and>
    sys_exofork k1 = Some (Inr (env_id (envs k2 e2)), k2) \<and> kinv k2 held ps2 fs \<and> fork_ready upcall c d e2 p k k2 \<and>
    length ps \<le> length ps2 + 3 \<and> (\<forall>q. unat (pref k2 q) \<le> unat (pref k q) + 2)"
proof -
  have d: "d \<in> dirs k" by (rule live_pgdir [OF assms(3,4)])
  have "2 \<le> length ps" using assms(8) by simp
  from set_handler_ok [OF assms(1-4) this, of upcall handler h] obtain k1 ps1 where
    k1: "set_pgfault_handler upcall handler h k = Some (handler, k1)" "kinv k1 held ps1 (e2 # fs)" "dirs k1 = dirs k"
      "envs k1 = (envs k)(c := (envs k c)\<lparr>env_pgfault_upcall := upcall\<rparr>)" "curenv k1 = curenv k" "npages k1 = npages k" "kern_pgdir k1 = kern_pgdir k"
      "length ps \<le> length ps1 + 2" "\<forall>q. unat (pref k1 q) \<le> Suc (unat (pref k q))"
      "\<forall>x\<in>dirs k. \<forall>w<UTOP. \<not> (x = d \<and> same_page w UXSTACK) \<longrightarrow> user_pte k1 x w = user_pte k x w"
      "\<forall>x\<in>dirs k. \<forall>w<UTOP. \<forall>e. user_pte k x w = Some e \<longrightarrow> phys k1 (ppn_of e) = phys k (ppn_of e)" by blast
  obtain p ps2 where ps1: "ps1 = p # ps2" using k1(8) assms(8) by (cases ps1) auto
  note inv1 = k1(2) [unfolded ps1]
  note kv1 = inv1 [unfolded kinv_def, THEN conjunct1]
  have c1: "curenv k1 = Some c" "live k1 c" using k1(4,5) assms(2,3) by (simp_all add: live_def)
  have np: "npages k1 \<le> 65536" "kern_pgdir k1 \<noteq> p"
    using held_not_free [OF inv1, of "kern_pgdir k1"] k1(6,7) assms(5-7) by auto
  obtain k2 where k2: "sys_exofork k1 = Some (Inr (env_id (envs k2 e2)), k2)" "kinv k2 held ps2 fs" "dirs k2 = insert p (dirs k1)"
      "live k2 e2" "env_pgdir (envs k2 e2) = Some p" "env_parent_id (envs k2 e2) = env_id (envs k1 c)"
      "ENVX (env_id (envs k2 e2)) = e2" "env_id (envs k2 e2) \<noteq> 0"
      "env_tf (envs k2 e2) = (env_tf (envs k1 c))\<lparr>tf_regs := (tf_regs (env_tf (envs k1 c)))\<lparr>reg_eax := 0\<rparr>\<rparr>"
      "e2 \<noteq> c" "\<forall>i. i \<noteq> e2 \<longrightarrow> envs k2 i = envs k1 i" "curenv k2 = curenv k1" "\<forall>va<UTOP. user_pte k2 p va = None"
      "\<forall>x\<in>dirs k1. \<forall>va<UTOP. user_pte k2 x va = user_pte k1 x va" "npages k2 = npages k1"
      "\<forall>f. f \<noteq> p \<longrightarrow> phys k2 f = phys k1 f" "\<forall>q. unat (pref k2 q) \<le> Suc (unat (pref k1 q))"
    using exofork_ok [OF inv1 c1 np] by blast
  have pD: "p \<notin> dirs k" using vm_free_not_table [OF kv1, of p] k1(3) by (auto simp: is_table_def)
  have l2: "live k2 c" "env_pgdir (envs k2 c) = Some d" using k2(10,11) k1(4) assms(3,4) by (simp_all add: live_def)
  have "envid2env (env_id (envs k2 e2)) True k2 = Some (Inr (Some e2))"
    by (rule env_by_id [OF k2(2,4), of c]) (use k2(6,10-12) c1 in simp_all)
  then have fk: "forking k2 c d (env_id (envs k2 e2)) e2 p" using l2 k2(4,5,12) c1 d pD by (auto simp: forking_def)
  have "phys k2 (ppn_of e) = phys k (ppn_of e)"
    if "x \<in> dirs k" "w < UTOP" "user_pte k2 x w = Some e" "user_pte k x w = Some e" for x w e
  proof -
    have "user_pte k1 x w = Some e" using k2(14) that(1-3) k1(3) by simp
    then have "ppn_of e \<noteq> p" using mapped_frame_safe(2) [OF inv1, of x w e] that(1,2) k1(3) by auto
    then show ?thesis using k2(16) k1(11) that by simp
  qed
  moreover have "user_pte k2 x w = user_pte k x w" if "x \<in> dirs k" "w < UTOP" "\<not> (x = d \<and> same_page w UXSTACK)" for x w
    using k2(14) k1(3,10) that by simp
  ultimately have "fork_ready upcall c d e2 p k k2"
    using k2(3,5-11,13) k1(3,4) pD fk unfolding fork_ready_def by simp
  moreover have "unat (pref k2 q) \<le> unat (pref k q) + 2" for q
    using k2(17) [rule_format, of q] k1(9) [rule_format, of q] by linarith
  moreover have "length ps \<le> length ps2 + 3" using k1(8) ps1 by simp
  ultimately show ?thesis using k1(1) k2(1,2) by blast
qed


section \<open>The copy-on-write fault\<close>

text \<open>
  C20: a process that writes to a copy-on-write page other than the one at \<open>PFTEMP\<close>, while two pages are free, one for the copy
  and one for a page table of \<open>PFTEMP\<close>, gets from the handler a page of its own in its place:
  a frame that nothing mapped before, with the contents of the shared one and writable. No other mapping of any process
  changes (the temporary one at \<open>PFTEMP\<close> is gone again), and neither do the contents of any frame that was mapped, so that no
  other process sees the write that follows.
\<close>

theorem cow_fault_gives_private_copy:
  assumes inv: "kinv k held ps fs" and c: "curenv k = Some c" "live k c" "env_pgdir (envs k c) = Some d"
    and va: "va < UTOP" "user_pte k d va = Some e" "e AND PTE_COW \<noteq> 0" "e AND PTE_U \<noteq> 0" "\<not> same_page va PFTEMP"
    and err: "err AND FEC_WR \<noteq> 0" and mem: "2 \<le> length ps"
  shows "\<exists>k' ps' p. pgfault va err k = Some k' \<and> kinv k' held ps' fs \<and> same_envs k k' \<and> p < 2 ^ 20 \<and>
    phys k' p = phys k (ppn_of e) \<and>
    (\<forall>x\<in>dirs k. \<forall>w<UTOP. user_pte k' x w =
       (if x = d \<and> same_page w va then Some (page2pa p OR PUW OR PTE_P)
        else if x = d \<and> same_page w PFTEMP then None else user_pte k x w)) \<and>
    (\<forall>x\<in>dirs k. \<forall>w<UTOP. \<forall>a. \<not> (x = d \<and> (same_page w va \<or> same_page w PFTEMP)) \<longrightarrow> user_pte k x w = Some a \<longrightarrow>
       ppn_of a \<noteq> p \<and> phys k' (ppn_of a) = phys k (ppn_of a))"
  using pgfault_ok [OF assms] by blast

section \<open>Forking and faulting on a concrete kernel\<close>

text \<open>The small kernel with eight free pages; the only user mapping is \<open>e\<close>.\<close>

definition demo_rich :: "u32 \<Rightarrow> kernel" where
  "demo_rich e = demo_kernel\<lparr>npages := 24, phys := demo_phys(7 := (demo_phys 7)(0 := e)),
     pages := (\<lambda>p. \<lparr>pp_link = if p \<in> {16..<23} then Some (p + 1) else None, pp_ref = if p \<in> {16..<24} then 0 else 1\<rparr>),
     page_free_list := Some 16\<rparr>"

definition demo_rheld :: "nat \<Rightarrow> nat" where
  "demo_rheld p = (if p \<in> {4, 5, 6, 7} \<union> {16..<24} then 0 else 1)"

lemma demo_rich_fields [simp]:
  "npages (demo_rich e) = 24" "kern_pgdir (demo_rich e) = 0" "envs (demo_rich e) = demo_envs"
  "env_free_list (demo_rich e) = Some 2" "snapshots (demo_rich e) = (\<lambda>_. None)" "curenv (demo_rich e) = Some 0"
  "phys (demo_rich e) = demo_phys(7 := (demo_phys 7)(0 := e))" "pref (demo_rich e) p = (if p \<in> {16..<24} then 0 else 1)"
  by (simp_all add: demo_rich_def demo_kernel_def curenv_def)

lemma demo_rich_target: "entry_target e = Some 4 \<Longrightarrow> site_target (demo_rich e) x = site_target demo_kernel x"
  by (cases x) (auto simp: demo_target fun_upd_apply split: option.splits simp del: entry_target_Some entry_target_None)

lemma demo_rich_kinv:
  assumes e: "entry_target e = Some 4"
  shows "kinv (demo_rich e) demo_rheld [16, 17, 18, 19, 20, 21, 22, 23] [2..<1024]" "dirs (demo_rich e) = {5, 6}"
proof -
  let ?ps = "[16, 17, 18, 19, 20, 21, 22, 23] :: nat list"
  note st = demo_rich_target [OF e]
  have rf: "refs (demo_rich e) {5, 6} q = (if q \<in> {4, 5, 6, 7} then 1 else 0)" for q
    using refs_cong [of "{5, 6}" "demo_rich e" demo_kernel q] st demo_refs [of q] by simp
  have "vm_inv (demo_rich e) {5, 6} demo_rheld ?ps"
  proof (rule vm_invI)
    show "avail (demo_rich e) ?ps" by (auto simp: avail_def) (simp_all add: demo_rich_def)
    show "p < npages (demo_rich e)" if "x \<in> all_sites {5, 6}" "site_target (demo_rich e) x = Some p" for x p
      using demo_site [OF that(1), of p] that(2) unfolding st by auto
    show "pref (demo_rich e) p = 1 \<and> demo_rheld p = 0"
      if "x \<in> all_sites {5, 6}" "structural x" "site_target (demo_rich e) x = Some p" for x p
      using demo_site [OF that(1), of p] that(2,3) unfolding st by (auto simp: demo_rheld_def)
    show "unat (pref (demo_rich e) p) = refs (demo_rich e) {5, 6} p + demo_rheld p" for p
      unfolding rf by (simp add: demo_rheld_def)
  qed simp
  moreover show D: "dirs (demo_rich e) = {5, 6}"
    using demo_dirs by (simp add: dirs_def live_def)
  moreover have "env_table (demo_rich e) [2..<1024] = env_table demo_kernel [2..<1024]"
    by (rule env_table_cong) simp_all
  moreover have "env_table demo_kernel [2..<1024]" using demo_kinv unfolding kinv_def by (elim conjE)
  moreover have "snaps_ok (demo_rich e) ?ps" by (simp add: snaps_ok_def snap_pages_def)
  ultimately show "kinv (demo_rich e) demo_rheld ?ps [2..<1024]" unfolding kinv_def by (simp only: simp_thms)
qed

lemma demo_rich_pte:
  assumes e: "entry_target e = Some 4"
  shows "user_pte (demo_rich e) 5 0x800000 = Some e"
    "va < UTOP \<Longrightarrow> user_pte (demo_rich e) 5 va \<noteq> None \<Longrightarrow> same_page va 0x800000 \<and> user_pte (demo_rich e) 5 va = Some e"
proof -
  have "entry_target 0x7007 = Some 7" by (simp add: demo_target [of 5 2, unfolded demo_phys_def, simplified])
  moreover have "ptx 0x800000 = 0" by (simp add: PTX_def)
  moreover have "present e" using e by simp
  ultimately show p: "user_pte (demo_rich e) 5 0x800000 = Some e"
    by (simp add: user_pte_def demo_pdx(1) demo_phys_def del: entry_target_Some)
  assume va: "va < UTOP" "user_pte (demo_rich e) 5 va \<noteq> None"
  then obtain a where "user_pte (demo_rich e) 5 va = Some a" by auto
  from user_pte_site [OF this] have "pdx va = 2 \<and> ptx va = 0"
    using demo_site [OF pte_site [OF _ va(1)], of 5 "ppn_of a"] unfolding demo_rich_target [OF e] by auto
  then have "same_page va 0x800000" unfolding same_page_index demo_pdx(1) using \<open>ptx 0x800000 = 0\<close> by simp
  then show "same_page va 0x800000 \<and> user_pte (demo_rich e) 5 va = Some e"
    using user_pte_page [of va "0x800000" "demo_rich e" 5] p by simp
qed

lemma demo_entries: "entry_target 0x4007 = Some 4" "entry_target 0x4805 = Some 4"
  by (simp_all add: ppn_of_def PGNUM_def PTE_ADDR_def PTE_P_def)

lemma demo_rich_live: "live (demo_rich e) 0" "env_pgdir (envs (demo_rich e) 0) = Some 5"
  by (simp_all add: live_def NENV_def)


theorem cow_fault_gives_private_copy_witness:
  "\<exists>k' p. pgfault 0x800123 2 (demo_rich 0x4805) = Some k' \<and>
     user_pte k' 5 0x800000 = Some (page2pa p OR PUW OR PTE_P) \<and> phys k' p = (\<lambda>_. 0)"
proof -
  let ?k = "demo_rich 0x4805"
  note e = demo_entries(2) and pte = demo_rich_pte [OF demo_entries(2)]
  have c: "curenv ?k = Some 0" by simp
  have va: "(0x800123 :: u32) < UTOP" "same_page 0x800123 0x800000" "\<not> same_page 0x800123 PFTEMP" "(0x800000 :: u32) < UTOP"
    by (simp_all add: PGNUM_def kdefs)
  have a: "user_pte ?k 5 0x800123 = Some 0x4805" using user_pte_page [OF va(2), of ?k 5] pte(1) by simp
  have fl: "(0x4805 :: u32) AND PTE_COW \<noteq> 0" "(0x4805 :: u32) AND PTE_U \<noteq> 0" "(2 :: u32) AND FEC_WR \<noteq> 0"
    "2 \<le> length [16, 17, 18, 19, 20, 21, 22, 23 :: nat]"
    by (simp_all add: PTE_COW_def PTE_U_def FEC_WR_def)
  obtain k' p where k': "pgfault 0x800123 2 ?k = Some k'" "phys k' p = phys ?k (ppn_of 0x4805)"
    "\<forall>x\<in>dirs ?k. \<forall>w<UTOP. user_pte k' x w = (if x = 5 \<and> same_page w 0x800123 then Some (page2pa p OR PUW OR PTE_P)
        else if x = 5 \<and> same_page w PFTEMP then None else user_pte ?k x w)"
    using cow_fault_gives_private_copy [OF demo_rich_kinv(1) [OF e] c demo_rich_live va(1) a fl(1,2) va(3) fl(3,4)] by blast
  have "user_pte k' 5 0x800000 = Some (page2pa p OR PUW OR PTE_P)"
    using k'(3) va(2,4) demo_rich_kinv(2) [OF e] by simp
  moreover have "phys k' p = (\<lambda>_. 0)" using k'(2) e by (simp add: demo_phys_def fun_eq_iff)
  ultimately show ?thesis using k'(1) by blast
qed

end
