(* ===== verification/Cstring.thy ===== *)
theory Cstring
  imports Printfmt "HOL-Library.Sublist"
begin

text \<open>
  The string and memory routines of \<^verbatim>\<open>lib/string.c\<close>. A string pointer is the list of the
  bytes from it on, so that running off mapped memory before a NUL is \<open>None\<close>; the block
  routines work on a memory \<open>nat \<Rightarrow> u8\<close>, with the string instructions of the assembly
  versions (\<open>rep movs\<close>, \<open>rep stos\<close>) as loops in their direction.
\<close>

section \<open>Lengths\<close>

fun strlen :: "u8 list \<Rightarrow> nat option" where
  "strlen [] = None"
| "strlen (c # s) = (if c = 0 then Some 0 else map_option Suc (strlen s))"

fun strnlen :: "u8 list \<Rightarrow> nat \<Rightarrow> nat option" where
  "strnlen s 0 = Some 0"
| "strnlen [] (Suc n) = None"
| "strnlen (c # s) (Suc n) = (if c = 0 then Some 0 else map_option Suc (strnlen s n))"

section \<open>Copying strings\<close>

text \<open>Overwrite the start of \<open>dst\<close>; \<open>None\<close> when \<open>dst\<close> is too short.\<close>

definition store :: "u8 list \<Rightarrow> u8 list \<Rightarrow> u8 list option" where
  "store dst xs = (if length xs \<le> length dst then Some (xs @ drop (length xs) dst) else None)"

fun strcpy_bytes :: "u8 list \<Rightarrow> u8 list option" where
  "strcpy_bytes [] = None"
| "strcpy_bytes (c # s) = (if c = 0 then Some [0] else map_option ((#) c) (strcpy_bytes s))"

definition strcpy :: "u8 list \<Rightarrow> u8 list \<Rightarrow> u8 list option" where
  "strcpy dst src = do { xs \<leftarrow> strcpy_bytes src; store dst xs }"

definition strcat :: "u8 list \<Rightarrow> u8 list \<Rightarrow> u8 list option" where
  "strcat dst src = do {
     len \<leftarrow> strlen dst;
     tail \<leftarrow> strcpy (drop len dst) src;
     Some (take len dst @ tail)
   }"

fun strncpy_bytes :: "u8 list \<Rightarrow> nat \<Rightarrow> u8 list option" where
  "strncpy_bytes src 0 = Some []"
| "strncpy_bytes [] (Suc n) = None"
| "strncpy_bytes (c # src) (Suc n) =
    map_option ((#) c) (if c \<noteq> 0 then strncpy_bytes src n else strncpy_bytes (c # src) n)"

definition strncpy :: "u8 list \<Rightarrow> u8 list \<Rightarrow> nat \<Rightarrow> u8 list option" where
  "strncpy dst src n = do { xs \<leftarrow> strncpy_bytes src n; store dst xs }"

fun strlcpy_bytes :: "u8 list \<Rightarrow> nat \<Rightarrow> u8 list option" where
  "strlcpy_bytes src 0 = Some []"
| "strlcpy_bytes [] (Suc n) = None"
| "strlcpy_bytes (c # src) (Suc n) =
    (if c \<noteq> 0 then map_option ((#) c) (strlcpy_bytes src n) else Some [])"

definition strlcpy :: "u8 list \<Rightarrow> u8 list \<Rightarrow> nat \<Rightarrow> (nat \<times> u8 list) option" where
  "strlcpy dst src n =
    (if n > 0 then do {
       xs \<leftarrow> strlcpy_bytes src (n - 1);
       dst \<leftarrow> store dst (xs @ [0]);
       Some (length xs, dst)
     }
     else Some (0, dst))"

section \<open>Comparing and searching\<close>

fun strcmp :: "u8 list \<Rightarrow> u8 list \<Rightarrow> int option" where
  "strcmp (c # p) (d # q) = (if c \<noteq> 0 \<and> c = d then strcmp p q else Some (uint c - uint d))"
| "strcmp _ _ = None"

fun strncmp :: "u8 list \<Rightarrow> u8 list \<Rightarrow> nat \<Rightarrow> int option" where
  "strncmp p q 0 = Some 0"
| "strncmp (c # p) (d # q) (Suc n) = (if c \<noteq> 0 \<and> c = d then strncmp p q n else Some (uint c - uint d))"
| "strncmp _ _ (Suc n) = None"

text \<open>The searches return an offset, \<open>strchr\<close> and \<open>strstr\<close> an optional one.\<close>

fun strchr :: "u8 list \<Rightarrow> u8 \<Rightarrow> nat option option" where
  "strchr [] c = None"
| "strchr (x # s) c =
    (if x = 0 then Some None else if x = c then Some (Some 0)
     else map_option (map_option Suc) (strchr s c))"

fun strfind :: "u8 list \<Rightarrow> u8 \<Rightarrow> nat option" where
  "strfind [] c = None"
| "strfind (x # s) c = (if x = 0 \<or> x = c then Some 0 else map_option Suc (strfind s c))"

definition strstr_at :: "u8 list \<Rightarrow> u8 list \<Rightarrow> nat \<Rightarrow> nat \<Rightarrow> bool" where
  "strstr_at s1 s2 m i \<longleftrightarrow> list_all (\<lambda>j. s1 ! (i + j) = s2 ! j) [0..<m]"

definition strstr :: "u8 list \<Rightarrow> u8 list \<Rightarrow> nat option option" where
  "strstr s1 s2 = do {
     n \<leftarrow> strlen s1;
     m \<leftarrow> strlen s2;
     Some (if m \<le> n then find (strstr_at s1 s2 m) [0..<n - m + 1] else None)
   }"

fun memcmp :: "u8 list \<Rightarrow> u8 list \<Rightarrow> nat \<Rightarrow> int option" where
  "memcmp p q 0 = Some 0"
| "memcmp (c # p) (d # q) (Suc n) = (if c \<noteq> d then Some (uint c - uint d) else memcmp p q n)"
| "memcmp _ _ (Suc n) = None"

fun memfind :: "u8 list \<Rightarrow> u8 \<Rightarrow> nat \<Rightarrow> nat option" where
  "memfind s c 0 = Some 0"
| "memfind [] c (Suc n) = None"
| "memfind (x # s) c (Suc n) = (if x = c then Some 0 else map_option Suc (memfind s c n))"

section \<open>Block moves\<close>

type_synonym bytes = "nat \<Rightarrow> u8"

fun rep_stosb :: "bytes \<Rightarrow> nat \<Rightarrow> u8 \<Rightarrow> nat \<Rightarrow> bytes" where
  "rep_stosb m d c 0 = m"
| "rep_stosb m d c (Suc n) = rep_stosb (m(d := c)) (d + 1) c n"

fun rep_stosl :: "bytes \<Rightarrow> nat \<Rightarrow> u8 \<Rightarrow> nat \<Rightarrow> bytes" where
  "rep_stosl m d c 0 = m"
| "rep_stosl m d c (Suc n) = rep_stosl (m(d := c, d + 1 := c, d + 2 := c, d + 3 := c)) (d + 4) c n"

definition memset :: "bytes \<Rightarrow> nat \<Rightarrow> u32 \<Rightarrow> nat \<Rightarrow> bytes" where
  "memset m v c n =
    (if n = 0 then m
     else if v mod 4 = 0 \<and> n mod 4 = 0 then rep_stosl m v (ucast (c AND 0xFF)) (n div 4)
     else rep_stosb m v (ucast c) n)"

text \<open>One \<open>movsl\<close>: four bytes are read before four bytes are written.\<close>

definition movsl :: "bytes \<Rightarrow> nat \<Rightarrow> nat \<Rightarrow> bytes" where
  "movsl m d s = m(d := m s, d + 1 := m (s + 1), d + 2 := m (s + 2), d + 3 := m (s + 3))"

fun rep_movsb_up :: "bytes \<Rightarrow> nat \<Rightarrow> nat \<Rightarrow> nat \<Rightarrow> bytes" where
  "rep_movsb_up m d s 0 = m"
| "rep_movsb_up m d s (Suc n) = rep_movsb_up (m(d := m s)) (d + 1) (s + 1) n"

fun rep_movsl_up :: "bytes \<Rightarrow> nat \<Rightarrow> nat \<Rightarrow> nat \<Rightarrow> bytes" where
  "rep_movsl_up m d s 0 = m"
| "rep_movsl_up m d s (Suc n) = rep_movsl_up (movsl m d s) (d + 4) (s + 4) n"

text \<open>With the direction flag set the moves go from the last element down.\<close>

fun rep_movsb_down :: "bytes \<Rightarrow> nat \<Rightarrow> nat \<Rightarrow> nat \<Rightarrow> bytes" where
  "rep_movsb_down m d s 0 = m"
| "rep_movsb_down m d s (Suc n) = rep_movsb_down (m(d + n := m (s + n))) d s n"

fun rep_movsl_down :: "bytes \<Rightarrow> nat \<Rightarrow> nat \<Rightarrow> nat \<Rightarrow> bytes" where
  "rep_movsl_down m d s 0 = m"
| "rep_movsl_down m d s (Suc n) = rep_movsl_down (movsl m (d + 4 * n) (s + 4 * n)) d s n"

definition memmove :: "bytes \<Rightarrow> nat \<Rightarrow> nat \<Rightarrow> nat \<Rightarrow> bytes" where
  "memmove m dst src n =
    (let aligned = (src mod 4 = 0 \<and> dst mod 4 = 0 \<and> n mod 4 = 0)
     in if src < dst \<and> src + n > dst then
          let aligned = ((src + n) mod 4 = 0 \<and> (dst + n) mod 4 = 0 \<and> n mod 4 = 0)
          in if aligned then rep_movsl_down m dst src (n div 4) else rep_movsb_down m dst src n
        else if aligned then rep_movsl_up m dst src (n div 4) else rep_movsb_up m dst src n)"

definition memcpy :: "bytes \<Rightarrow> nat \<Rightarrow> nat \<Rightarrow> nat \<Rightarrow> bytes" where
  "memcpy m dst src n = memmove m dst src n"

section \<open>Numbers\<close>

fun skip_blanks :: "u8 list \<Rightarrow> u8 list" where
  "skip_blanks (c # s) = (if c = 32 \<or> c = 9 then skip_blanks s else c # s)"
| "skip_blanks [] = []"

definition strtol_digit :: "u8 \<Rightarrow> nat option" where
  "strtol_digit c =
    (if 48 \<le> c \<and> c \<le> 57 then Some (unat c - 48)
     else if 97 \<le> c \<and> c \<le> 122 then Some (unat c - 97 + 10)
     else if 65 \<le> c \<and> c \<le> 90 then Some (unat c - 65 + 10)
     else None)"

text \<open>
  The number is a \<open>long\<close> of 32 bits; the code does not look for overflows, which C leaves undefined, here None.
\<close>

fun strtol_digits :: "nat \<Rightarrow> int \<Rightarrow> u8 list \<Rightarrow> (int \<times> u8 list) option" where
  "strtol_digits base val [] = None"
| "strtol_digits base val (c # s) =
    (case strtol_digit c of
       None \<Rightarrow> Some (val, c # s)
     | Some dig \<Rightarrow>
         if dig \<ge> base then Some (val, c # s)
         else do {
           val \<leftarrow> c_int (val * int base);
           val \<leftarrow> c_int (val + int dig);
           strtol_digits base val s
         })"

definition strtol_prefix :: "nat \<Rightarrow> u8 list \<Rightarrow> nat \<times> u8 list" where
  "strtol_prefix base s =
    (if (base = 0 \<or> base = 16) \<and> take 2 s = [48, 120] then (16, drop 2 s)
     else if base = 0 \<and> take 1 s = [48] then (8, drop 1 s)
     else if base = 0 then (10, s)
     else (base, s))"

definition strtol :: "u8 list \<Rightarrow> nat \<Rightarrow> (int \<times> u8 list) option" where
  "strtol s base =
    (let s = skip_blanks s;
         neg = (take 1 s = [45]);
         s = (if take 1 s = [43] \<or> neg then drop 1 s else s);
         (base, s) = strtol_prefix base s
     in do {
          (val, s) \<leftarrow> strtol_digits base 0 s;
          Some (if neg then - val else val, s)
        })"

section \<open>memmove copies, whatever the overlap\<close>

definition moved :: "bytes \<Rightarrow> nat \<Rightarrow> nat \<Rightarrow> nat \<Rightarrow> bytes" where
  "moved m d s n = (\<lambda>a. if d \<le> a \<and> a < d + n then m (s + (a - d)) else m a)"

lemma rep_movsb_up_moved: "d \<le> s \<or> s + n \<le> d \<Longrightarrow> rep_movsb_up m d s n = moved m d s n"
proof (induction n arbitrary: m d s)
  case (Suc n)
  have "rep_movsb_up m d s (Suc n) = moved (m(d := m s)) (d + 1) (s + 1) n"
    unfolding rep_movsb_up.simps by (rule Suc.IH) (use Suc.prems in auto)
  also have "\<dots> = moved m d s (Suc n)"
  proof
    fix a
    consider "a < d" | "a = d" | "d < a" by linarith
    then show "moved (m(d := m s)) (d + 1) (s + 1) n a = moved m d s (Suc n) a"
    proof cases
      case 3
      then have "s + 1 + (a - (d + 1)) = s + (a - d)" by simp
      moreover have "s + (a - d) \<noteq> d" if "a < d + Suc n" using Suc.prems 3 that by auto
      ultimately show ?thesis using 3 by (auto simp: moved_def)
    qed (auto simp: moved_def)
  qed
  finally show ?case .
qed (auto simp: moved_def fun_eq_iff)

lemma rep_movsb_down_moved: "s < d \<Longrightarrow> rep_movsb_down m d s n = moved m d s n"
proof (induction n arbitrary: m)
  case (Suc n)
  have "rep_movsb_down m d s (Suc n) = moved (m(d + n := m (s + n))) d s n"
    using Suc by simp
  also have "\<dots> = moved m d s (Suc n)"
    using Suc.prems by (auto simp: moved_def fun_eq_iff less_Suc_eq)
  finally show ?case .
qed (auto simp: moved_def fun_eq_iff)

lemma rep_movsb_up_add: "rep_movsb_up m d s (i + n) = rep_movsb_up (rep_movsb_up m d s i) (d + i) (s + i) n"
  by (induction i arbitrary: m d s) auto

text \<open>Four bytes at once are four byte moves, in either direction, if the blocks are apart.\<close>

lemma movsl_up: "d \<le> s \<and> (d = s \<or> d + 4 \<le> s) \<or> s + 4 \<le> d \<Longrightarrow> movsl m d s = rep_movsb_up m d s 4"
  by (auto simp: movsl_def numeral_eq_Suc fun_eq_iff)

lemma movsl_down: "s + 4 \<le> d \<Longrightarrow> movsl m d s = rep_movsb_down m d s 4"
  by (auto simp: movsl_def numeral_eq_Suc fun_eq_iff)

lemma rep_movsl_up_bytes:
  "d \<le> s \<and> (d = s \<or> d + 4 \<le> s) \<or> s + 4 * n \<le> d \<Longrightarrow> rep_movsl_up m d s n = rep_movsb_up m d s (4 * n)"
proof (induction n arbitrary: m d s)
  case (Suc n)
  have "movsl m d s = rep_movsb_up m d s 4" using Suc.prems by (intro movsl_up) auto
  moreover have "rep_movsl_up m' (d + 4) (s + 4) n = rep_movsb_up m' (d + 4) (s + 4) (4 * n)" for m'
    using Suc.prems by (intro Suc.IH) auto
  moreover have "4 * Suc n = 4 + 4 * n" by simp
  ultimately show ?case by (simp only: rep_movsl_up.simps rep_movsb_up_add)
qed simp

lemma rep_movsb_down_add:
  "rep_movsb_down m d s (n + i) = rep_movsb_down (rep_movsb_down m (d + n) (s + n) i) d s n"
  by (induction i arbitrary: m) (simp_all add: add.assoc)

lemma rep_movsl_down_bytes: "s + 4 \<le> d \<Longrightarrow> rep_movsl_down m d s n = rep_movsb_down m d s (4 * n)"
proof (induction n arbitrary: m)
  case (Suc n)
  have "movsl m (d + 4 * n) (s + 4 * n) = rep_movsb_down m (d + 4 * n) (s + 4 * n) 4"
    using Suc.prems by (intro movsl_down) auto
  moreover have "4 * Suc n = 4 * n + 4" by simp
  ultimately show ?case using Suc by (simp only: rep_movsl_down.simps rep_movsb_down_add)
qed simp

lemma mod4_apart: "(s :: nat) mod 4 = 0 \<Longrightarrow> d mod 4 = 0 \<Longrightarrow> s < d \<Longrightarrow> s + 4 \<le> d"
  by (auto elim!: dvdE simp flip: dvd_eq_mod_eq_0)

text \<open>
  C36: \<open>memmove\<close> copies the source block to the destination and changes nothing else, however
  the two overlap and whichever of its four loops (up or down, by bytes or by words) it takes.
\<close>

theorem memmove_correct:
  "memmove m dst src n = (\<lambda>a. if dst \<le> a \<and> a < dst + n then m (src + (a - dst)) else m a)"
proof -
  have n4: "4 * (n div 4) = n" if "n mod 4 = 0" using that by auto
  have "memmove m dst src n = moved m dst src n"
  proof (cases "src < dst \<and> src + n > dst")
    case True
    show ?thesis
    proof (cases "(src + n) mod 4 = 0 \<and> (dst + n) mod 4 = 0 \<and> n mod 4 = 0")
      case al: True
      then have "src mod 4 = 0" "dst mod 4 = 0" by presburger+
      then have "src + 4 \<le> dst" using True by (intro mod4_apart) auto
      then show ?thesis
        using True al n4 by (simp add: memmove_def rep_movsl_down_bytes rep_movsb_down_moved)
    next
      case False
      then show ?thesis using True rep_movsb_down_moved [of src dst m n]
        unfolding memmove_def Let_def by (simp only: if_True if_False simp_thms)
    qed
  next
    case False
    then have apart: "dst \<le> src \<or> src + n \<le> dst" by auto
    show ?thesis
    proof (cases "src mod 4 = 0 \<and> dst mod 4 = 0 \<and> n mod 4 = 0")
      case True
      then have "dst \<le> src \<and> (dst = src \<or> dst + 4 \<le> src) \<or> src + 4 * (n div 4) \<le> dst"
        using apart n4 mod4_apart [of dst src] by fastforce
      then have "rep_movsl_up m dst src (n div 4) = rep_movsb_up m dst src n"
        using True n4 by (simp add: rep_movsl_up_bytes)
      then show ?thesis using True False rep_movsb_up_moved [OF apart]
        unfolding memmove_def Let_def by (simp only: if_True if_False if_cancel)
    next
      case al: False
      then show ?thesis using False rep_movsb_up_moved [OF apart]
        unfolding memmove_def Let_def by (simp only: if_False)
    qed
  qed
  then show ?thesis by (simp add: moved_def)
qed

section \<open>Comparison, truncation and search\<close>

text \<open>
  On NUL-terminated strings, \<open>strcmp\<close> returns 0 exactly for equal strings.
\<close>

theorem strcmp_zero_iff:
  assumes "0 \<notin> set p" "0 \<notin> set q"
  shows "strcmp (p @ 0 # xs) (q @ 0 # ys) = Some 0 \<longleftrightarrow> p = q"
proof -
  have u: "uint c = uint d \<longleftrightarrow> c = d" for c d :: u8 by (simp add: word_uint_eq_iff)
  from assms show ?thesis
  proof (induction p arbitrary: q)
    case Nil
    then show ?case by (cases q) (simp_all add: u uint_0_iff)
  next
    case (Cons c p)
    then show ?case by (cases q) (simp_all add: u uint_0_iff)
  qed
qed

theorem strcmp_zero_iff_witness:
  "strcmp ([102, 115] @ 0 # [7]) ([102, 115] @ 0 # []) = Some 0 \<and>
   strcmp ([102, 115] @ 0 # [7]) ([102] @ 0 # []) \<noteq> Some 0"
  using strcmp_zero_iff [of "[102, 115]" "[102, 115]" "[7]" "[]"]
    strcmp_zero_iff [of "[102, 115]" "[102]" "[7]" "[]"] by simp

lemma strlcpy_bytes_eq: "0 \<notin> set s \<Longrightarrow> strlcpy_bytes (s @ 0 # xs) n = Some (take n s)"
proof (induction s arbitrary: n)
  case Nil
  then show ?case by (cases n) auto
next
  case (Cons c s)
  then show ?case by (cases n) auto
qed

text \<open>
  \<open>strlcpy\<close> into a buffer of at least \<open>n > 0\<close> bytes stores the first
  \<open>n - 1\<close> bytes of the string, always NUL-terminates, writes nothing beyond, and returns the
  number of bytes copied.
\<close>

theorem strlcpy_truncates:
  assumes "0 \<notin> set s" "0 < n" "n \<le> length dst"
  shows "\<exists>dst'. strlcpy dst (s @ 0 # xs) n = Some (min (length s) (n - 1), dst') \<and>
    take (min (length s) (n - 1) + 1) dst' = take (n - 1) s @ [0] \<and>
    drop (min (length s) (n - 1) + 1) dst' = drop (min (length s) (n - 1) + 1) dst"
  using assms by (auto simp: strlcpy_def strlcpy_bytes_eq store_def min_def)

theorem strlcpy_truncates_witness:
  "\<exists>dst'. strlcpy [9, 9, 9, 9] ([1, 2, 3, 4, 5] @ 0 # []) 3 = Some (min 5 2, dst') \<and>
     take (min 5 2 + 1) dst' = [1, 2, 0] \<and> drop (min 5 2 + 1) dst' = [9]"
proof -
  have "0 \<notin> set [1, 2, 3, 4, 5 :: u8]" by simp
  from strlcpy_truncates [OF this, of 3 "[9, 9, 9, 9]" "[]"] obtain dst' where
    "strlcpy [9, 9, 9, 9] ([1, 2, 3, 4, 5] @ 0 # []) 3 = Some (min 5 2, dst')"
    "take (min 5 2 + 1) dst' = [1, 2, 0]" "drop (min 5 2 + 1) dst' = [9]"
    by (auto simp: numeral_2_eq_2)
  then show ?thesis by blast
qed

lemma strlen_eq: "0 \<notin> set s \<Longrightarrow> strlen (s @ 0 # xs) = Some (length s)"
  by (induction s) auto

lemma strstr_at_prefix:
  assumes "i + length q \<le> length p"
  shows "strstr_at (p @ xs) (q @ ys) (length q) i \<longleftrightarrow> prefix q (drop i p)"
proof -
  have "prefix q (drop i p) \<longleftrightarrow> take (length q) (drop i p) = q"
    by (metis append_eq_conv_conj prefix_def take_is_prefix)
  also have "\<dots> \<longleftrightarrow> (\<forall>j<length q. p ! (i + j) = q ! j)"
    using assms by (auto simp: list_eq_iff_nth_eq)
  also have "\<dots> \<longleftrightarrow> strstr_at (p @ xs) (q @ ys) (length q) i"
    using assms by (auto simp: strstr_at_def list_all_iff nth_append)
  finally show ?thesis by simp
qed

text \<open>
  \<open>strstr\<close> returns the first position at which the second string occurs in the first, and
  NULL exactly when it does not occur.
\<close>

theorem strstr_first_occurrence:
  assumes "0 \<notin> set p" "0 \<notin> set q"
  shows "\<exists>r. strstr (p @ 0 # xs) (q @ 0 # ys) = Some r \<and>
    (case r of
       None \<Rightarrow> \<not> sublist q p
     | Some i \<Rightarrow> prefix q (drop i p) \<and> i + length q \<le> length p \<and> (\<forall>j<i. \<not> prefix q (drop j p)))"
proof -
  let ?s = "strstr_at (p @ 0 # xs) (q @ 0 # ys) (length q)"
  have at: "?s i \<longleftrightarrow> prefix q (drop i p)" if "i + length q \<le> length p" for i
    by (rule strstr_at_prefix [OF that])
  have st: "strstr (p @ 0 # xs) (q @ 0 # ys) =
      Some (if length q \<le> length p then find ?s [0..<length p - length q + 1] else None)"
    using assms by (simp add: strstr_def strlen_eq)
  have sub: "sublist q p \<longleftrightarrow> (\<exists>i\<le>length p - length q. prefix q (drop i p))" if "length q \<le> length p"
  proof
    assume "sublist q p"
    then obtain as bs where "p = as @ q @ bs" by (auto simp: sublist_def)
    then show "\<exists>i\<le>length p - length q. prefix q (drop i p)" by (intro exI [of _ "length as"]) auto
  next
    assume "\<exists>i\<le>length p - length q. prefix q (drop i p)"
    then show "sublist q p" by (metis append_take_drop_id prefix_def sublist_def)
  qed
  show ?thesis
  proof (cases "if length q \<le> length p then find ?s [0..<length p - length q + 1] else None")
    case None
    then have "\<not> sublist q p"
    proof (cases "length q \<le> length p")
      case True
      then have "\<forall>i\<in>set [0..<length p - length q + 1]. \<not> ?s i"
        using None by (auto simp: find_None_iff simp del: upt_Suc)
      then show ?thesis using sub [OF True] at True by auto
    next
      case False
      then show ?thesis using sublist_length_le by blast
    qed
    with st None show ?thesis by simp
  next
    case (Some i)
    then have le: "length q \<le> length p" and f: "find ?s [0..<length p - length q + 1] = Some i"
      by (auto split: if_splits)
    from f obtain n where n: "n < length p - length q + 1" "i = n" "?s i" "\<forall>j<n. \<not> ?s j"
      unfolding find_Some_iff by (auto simp del: upt_Suc)
    then have "prefix q (drop i p) \<and> i + length q \<le> length p \<and> (\<forall>j<i. \<not> prefix q (drop j p))"
      using at le by auto
    with st Some show ?thesis by simp
  qed
qed

theorem strstr_first_occurrence_witness:
  "\<exists>r. strstr ([97, 98, 97, 98, 99] @ 0 # []) ([97, 98, 99] @ 0 # []) = Some r \<and>
     (case r of None \<Rightarrow> \<not> sublist [97, 98, 99] [97, 98, 97, 98, 99 :: u8]
      | Some i \<Rightarrow> prefix [97, 98, 99] (drop i [97, 98, 97, 98, 99 :: u8]) \<and> i + 3 \<le> 5)"
  using strstr_first_occurrence [of "[97, 98, 97, 98, 99]" "[97, 98, 99]" "[]" "[]"]
  by (auto split: option.splits)

section \<open>Printing and reading numbers\<close>

lemma digit_byte:
  assumes "d < 16"
  shows "strtol_digit (of_char (digit_char d)) = Some d"
    and "(of_char (digit_char d) :: u8) \<notin> {0, 9, 32, 43, 45, 120}"
proof -
  have "\<forall>d\<in>set [0..<16]. strtol_digit (of_char (digit_char d)) = Some d" by code_simp
  with assms show "strtol_digit (of_char (digit_char d)) = Some d" by simp
  have "\<forall>d\<in>set [0..<16]. (of_char (digit_char d) :: u8) \<notin> set [0, 9, 32, 43, 45, 120]" by code_simp
  with assms show "(of_char (digit_char d) :: u8) \<notin> {0, 9, 32, 43, 45, 120}" by simp
qed

lemma digits_chars:
  "2 \<le> base \<Longrightarrow> base \<le> 16 \<Longrightarrow> c \<in> set (digits num base) \<Longrightarrow> \<exists>d<16. c = digit_char d"
proof (induction num base rule: digits.induct)
  case (1 num base)
  have "num mod base < 16" using 1(2,3) by (intro less_le_trans [OF mod_less_divisor]) auto
  moreover have "base \<le> num \<and> c \<in> set (digits (num div base) base) \<or> c = digit_char (num mod base)"
    using 1(2,4) by (subst (asm) digits.simps) (auto split: if_splits)
  ultimately show ?case using 1 by blast
qed

lemma strtol_digits_read:
  "2 \<le> base \<Longrightarrow> base \<le> 16 \<Longrightarrow> num < 2 ^ 31 \<Longrightarrow>
   strtol_digits base 0 (map of_char (digits num base) @ t) = strtol_digits base (int num) t"
proof (induction num base arbitrary: t rule: digits.induct)
  case (1 num base)
  have m: "num mod base < 16" "num mod base < base"
    using 1(2,3) by (auto intro: less_le_trans [OF mod_less_divisor])
  show ?case
  proof (cases "base \<le> num")
    case True
    have le: "num div base * base \<le> num" "num div base \<le> num" by simp_all
    have "num div base * base < 2 ^ 31" using le(1) 1(4) by (rule le_less_trans)
    then have "int (num div base) * int base < 2 ^ 31" by (simp flip: of_nat_mult)
    moreover have "- (2 ^ 31) \<le> int (num div base) * int base"
      by (rule order_trans [of _ 0]) simp_all
    ultimately have "c_int (int (num div base) * int base) = Some (int (num div base) * int base)"
      by (intro c_int_eq)
    moreover have "int (num div base) * int base + int (num mod base) = int num"
      by (simp flip: of_nat_mult of_nat_add)
    moreover have "c_int (int num) = Some (int num)" using 1(4) by (intro c_int_eq) simp_all
    moreover have "\<not> base \<le> num mod base" using m(2) by (simp only: not_le)
    moreover have "num div base < 2 ^ 31" using le(2) 1(4) by (rule le_less_trans)
    ultimately show ?thesis using 1 True by (subst digits.simps) (simp add: digit_byte(1) [OF m(1)])
  next
    case False
    then have "num mod base = num" "num < 16" using 1(3) by auto
    then show ?thesis using False 1(2) by (subst digits.simps) (simp add: digit_byte(1))
  qed
qed

lemma skip_blanks_pad: "xs \<noteq> [] \<Longrightarrow> hd xs \<noteq> 32 \<Longrightarrow> hd xs \<noteq> 9 \<Longrightarrow> skip_blanks (replicate k 32 @ xs) = xs"
  by (induction k) (cases xs; simp)+

lemma strtol_prefix_none:
  assumes "base \<noteq> 0" "\<And>c. c \<in> set ds \<Longrightarrow> c \<noteq> 120" "ds \<noteq> []"
  shows "strtol_prefix base (ds @ 0 # rest) = (base, ds @ 0 # rest)"
proof -
  have "take 2 (ds @ 0 # rest) \<noteq> [48, 120]"
  proof (cases ds)
    case (Cons c cs)
    then show ?thesis using assms(2) by (cases cs) auto
  qed (use assms in simp)
  with assms(1) show ?thesis by (simp add: strtol_prefix_def)
qed

text \<open>
  C37: reading back what was printed: a number below 2 GB, the range of a positive \<open>long\<close>, is printed in base 10 or 16 by
  \<open>printnum\<close>, padded with blanks to any width; \<open>strtol\<close> on the text returns the number and stops at the NUL.
\<close>

theorem strtol_printnum:
  assumes "base = 10 \<or> base = 16" "num < 2 ^ 31" "- 1 \<le> width" "width < 2 ^ 31"
  shows "\<exists>text. printnum num base width CHR '' '' = Some text \<and>
    strtol (map of_char text @ 0 # rest) base = Some (int num, 0 # rest)"
proof -
  have b: "2 \<le> base" "base \<le> 16" "base \<noteq> 0" using assms(1) by auto
  let ?ds = "map of_char (digits num base) :: u8 list"
  let ?k = "nat (width - int (length (digits num base)))"
  have ds: "c \<notin> {0, 9, 32, 43, 45, 120}" if "c \<in> set ?ds" for c
    using that digits_chars [OF b(1,2)] digit_byte(2) by fastforce
  have ne: "?ds \<noteq> []" using digits_nonempty by simp
  have hd: "hd (?ds @ 0 # rest) \<notin> {0, 9, 32, 43, 45, 120}"
    using ds [OF hd_in_set [OF ne]] by (simp only: hd_append2 [OF ne] not_False_eq_True)
  have sk: "skip_blanks (replicate ?k 32 @ ?ds @ 0 # rest) = ?ds @ 0 # rest"
    using hd by (intro skip_blanks_pad) auto
  have t1: "take 1 (?ds @ 0 # rest) = [hd (?ds @ 0 # rest)]" using ne by (cases "digits num base") auto
  have px: "strtol_prefix base (?ds @ 0 # rest) = (base, ?ds @ 0 # rest)"
    using ds by (intro strtol_prefix_none b(3) ne) auto
  have dg: "strtol_digits base 0 (?ds @ 0 # rest) = Some (int num, 0 # rest)"
    using strtol_digits_read [OF b(1,2) assms(2)] by (simp add: strtol_digit_def)
  have "strtol (replicate ?k 32 @ ?ds @ 0 # rest) base = Some (int num, 0 # rest)"
    unfolding strtol_def sk Let_def t1 using hd px dg by simp
  moreover have "printnum num base width CHR '' '' = Some (replicate ?k CHR '' '' @ digits num base)"
    using digits_length [OF b(1), of num 30] assms(2-4) by (intro printnum_digits [OF b(1)]) simp_all
  ultimately show ?thesis by simp
qed

theorem strtol_printnum_witness:
  "\<exists>text. printnum 48879 16 8 CHR '' '' = Some text \<and> strtol (map of_char text @ [0, 1]) 16 = Some (48879, [0, 1])"
  using strtol_printnum [of 16 48879 8 "[1]"] by simp

end
