(* ===== verification/Ph_Table.thy ===== *)
theory Ph_Table
  imports Jos_Prelude
begin

text \<open>
  The hash table of \<^verbatim>\<open>hw_multithreaded_programming/ph.c\<close> under concurrent insertion: every thread puts its share
  of the keys, waits until all have done so, and then looks up every key. The steps are the atomic accesses to the
  shared memory; \<open>malloc\<close> returns any address not in use, with any contents. The keys are what
  \<open>random\<close> returns, which is not negative; the timing and the printing are left out.
\<close>

section \<open>State\<close>

definition NBUCKET :: nat where "NBUCKET = 5"
definition NKEYS :: nat where "NKEYS = 100000"

record ph_entry =
  e_key :: nat
  e_value :: nat
  e_next :: "nat option"

text \<open>Where a thread is: \<open>Put_lock e\<close> is before the lock in \<open>insert\<close> with \<open>e\<close> filled in, and so on.\<close>

datatype ph_pc =
    Put_loop
  | Put_lock nat
  | Put_next nat
  | Put_head nat
  | Put_unlock nat
  | Barrier
  | Spin
  | Get_loop
  | Get_walk "nat option"
  | Finished

record ph_thread =
  ph_pc :: ph_pc
  ph_i :: nat
  ph_missing :: nat

record ph_state =
  ph_mem :: "nat \<Rightarrow> ph_entry option"
  ph_table :: "nat \<Rightarrow> nat option"
  bucket_locks :: "nat \<Rightarrow> nat option"
  ph_done :: nat
  ph_threads :: "nat \<Rightarrow> ph_thread"

definition ph_init :: ph_state where
  "ph_init = \<lparr>ph_mem = (\<lambda>_. None), ph_table = (\<lambda>_. None), bucket_locks = (\<lambda>_. None), ph_done = 0,
     ph_threads = (\<lambda>_. \<lparr>ph_pc = Put_loop, ph_i = 0, ph_missing = 0\<rparr>)\<rparr>"

definition bucket :: "nat \<Rightarrow> nat" where
  "bucket key = key mod NBUCKET"

definition key_at :: "ph_state \<Rightarrow> nat \<Rightarrow> nat" where
  "key_at s e = (case ph_mem s e of None \<Rightarrow> 0 | Some x \<Rightarrow> e_key x)"

definition next_at :: "ph_state \<Rightarrow> nat \<Rightarrow> nat option" where
  "next_at s e = (case ph_mem s e of None \<Rightarrow> None | Some x \<Rightarrow> e_next x)"

definition set_thread :: "nat \<Rightarrow> (ph_thread \<Rightarrow> ph_thread) \<Rightarrow> ph_state \<Rightarrow> ph_state" where
  "set_thread t f s = s\<lparr>ph_threads := (ph_threads s)(t := f (ph_threads s t))\<rparr>"

definition goto :: "ph_pc \<Rightarrow> ph_thread \<Rightarrow> ph_thread" where
  "goto c w = w\<lparr>ph_pc := c\<rparr>"

definition goto_next :: "ph_pc \<Rightarrow> ph_thread \<Rightarrow> ph_thread" where
  "goto_next c w = w\<lparr>ph_pc := c, ph_i := ph_i w + 1\<rparr>"

section \<open>Steps\<close>

text \<open>\<open>b\<close> is the number of keys that each of the \<open>nthread\<close> threads puts.\<close>

inductive ph_step :: "nat \<Rightarrow> (nat \<Rightarrow> nat) \<Rightarrow> ph_state \<Rightarrow> ph_state \<Rightarrow> bool" for nthread keys where
  ph_alloc: "t < nthread \<Longrightarrow> ph_pc (ph_threads s t) = Put_loop \<Longrightarrow> ph_i (ph_threads s t) < NKEYS div nthread \<Longrightarrow>
    ph_mem s e = None \<Longrightarrow> k = keys (NKEYS div nthread * t + ph_i (ph_threads s t)) \<Longrightarrow>
    ph_step nthread keys s (set_thread t (goto (Put_lock e)) (s\<lparr>ph_mem := (ph_mem s)(e \<mapsto> \<lparr>e_key = k, e_value = t, e_next = junk\<rparr>)\<rparr>))"
| ph_lock: "t < nthread \<Longrightarrow> ph_pc (ph_threads s t) = Put_lock e \<Longrightarrow> h = bucket (key_at s e) \<Longrightarrow> bucket_locks s h = None \<Longrightarrow>
    ph_step nthread keys s (set_thread t (goto (Put_next e)) (s\<lparr>bucket_locks := (bucket_locks s)(h \<mapsto> t)\<rparr>))"
| ph_link: "t < nthread \<Longrightarrow> ph_pc (ph_threads s t) = Put_next e \<Longrightarrow> h = bucket (key_at s e) \<Longrightarrow>
    ph_step nthread keys s (set_thread t (goto (Put_head e))
      (s\<lparr>ph_mem := (ph_mem s)(e := map_option (\<lambda>x. x\<lparr>e_next := ph_table s h\<rparr>) (ph_mem s e))\<rparr>))"
| ph_publish: "t < nthread \<Longrightarrow> ph_pc (ph_threads s t) = Put_head e \<Longrightarrow> h = bucket (key_at s e) \<Longrightarrow>
    ph_step nthread keys s (set_thread t (goto (Put_unlock h)) (s\<lparr>ph_table := (ph_table s)(h \<mapsto> e)\<rparr>))"
| ph_unlock: "t < nthread \<Longrightarrow> ph_pc (ph_threads s t) = Put_unlock h \<Longrightarrow>
    ph_step nthread keys s (set_thread t (goto_next Put_loop) (s\<lparr>bucket_locks := (bucket_locks s)(h := None)\<rparr>))"
| ph_puts_end: "t < nthread \<Longrightarrow> ph_pc (ph_threads s t) = Put_loop \<Longrightarrow> \<not> ph_i (ph_threads s t) < NKEYS div nthread \<Longrightarrow>
    ph_step nthread keys s (set_thread t (goto Barrier) s)"
| ph_barrier: "t < nthread \<Longrightarrow> ph_pc (ph_threads s t) = Barrier \<Longrightarrow>
    ph_step nthread keys s (set_thread t (goto Spin) (s\<lparr>ph_done := ph_done s + 1\<rparr>))"
| ph_spin: "t < nthread \<Longrightarrow> ph_pc (ph_threads s t) = Spin \<Longrightarrow> \<not> ph_done s < nthread \<Longrightarrow>
    ph_step nthread keys s (set_thread t (\<lambda>w. w\<lparr>ph_pc := Get_loop, ph_i := 0\<rparr>) s)"
| ph_get: "t < nthread \<Longrightarrow> ph_pc (ph_threads s t) = Get_loop \<Longrightarrow> ph_i (ph_threads s t) < NKEYS \<Longrightarrow>
    c = ph_table s (bucket (keys (ph_i (ph_threads s t)))) \<Longrightarrow> ph_step nthread keys s (set_thread t (goto (Get_walk c)) s)"
| ph_walk: "t < nthread \<Longrightarrow> ph_pc (ph_threads s t) = Get_walk (Some e) \<Longrightarrow> key_at s e \<noteq> keys (ph_i (ph_threads s t)) \<Longrightarrow>
    ph_step nthread keys s (set_thread t (goto (Get_walk (next_at s e))) s)"
| ph_found: "t < nthread \<Longrightarrow> ph_pc (ph_threads s t) = Get_walk (Some e) \<Longrightarrow> key_at s e = keys (ph_i (ph_threads s t)) \<Longrightarrow>
    ph_step nthread keys s (set_thread t (goto_next Get_loop) s)"
| ph_miss: "t < nthread \<Longrightarrow> ph_pc (ph_threads s t) = Get_walk None \<Longrightarrow>
    ph_step nthread keys s (set_thread t (\<lambda>w. (goto_next Get_loop w)\<lparr>ph_missing := ph_missing w + 1\<rparr>) s)"
| ph_gets_end: "t < nthread \<Longrightarrow> ph_pc (ph_threads s t) = Get_loop \<Longrightarrow> \<not> ph_i (ph_threads s t) < NKEYS \<Longrightarrow>
    ph_step nthread keys s (set_thread t (goto Finished) s)"

inductive_cases ph_stepE: "ph_step nthread keys s s'"

abbreviation ph_reaches :: "nat \<Rightarrow> (nat \<Rightarrow> nat) \<Rightarrow> ph_state \<Rightarrow> bool" where
  "ph_reaches nthread keys s \<equiv> (ph_step nthread keys)\<^sup>*\<^sup>* ph_init s"

lemma set_thread_simps [simp]:
  "ph_mem (set_thread t f s) = ph_mem s" "ph_table (set_thread t f s) = ph_table s"
  "bucket_locks (set_thread t f s) = bucket_locks s" "ph_done (set_thread t f s) = ph_done s"
  "ph_threads (set_thread t f s) u = (if u = t then f (ph_threads s t) else ph_threads s u)"
  "key_at (set_thread t f s) = key_at s" "next_at (set_thread t f s) = next_at s"
  by (simp_all add: set_thread_def key_at_def next_at_def fun_eq_iff)

lemma goto_simps [simp]:
  "ph_pc (goto c w) = c" "ph_i (goto c w) = ph_i w" "ph_missing (goto c w) = ph_missing w"
  "ph_pc (goto_next c w) = c" "ph_i (goto_next c w) = ph_i w + 1" "ph_missing (goto_next c w) = ph_missing w"
  by (simp_all add: goto_def goto_next_def)

end
