(* ===== verification/Ph_Props.thy ===== *)
theory Ph_Props
  imports Ph_Table
begin

text \<open>
  No key is lost: whatever the interleaving, every key that has been put is in its bucket's list, so that no thread counts
  a missing key; and some thread can always go on until all have finished.
\<close>

section \<open>Invariant\<close>

text \<open>\<open>L h\<close> is the list of entries reachable from bucket \<open>h\<close>.\<close>

definition stored :: "ph_state \<Rightarrow> (nat \<Rightarrow> nat list) \<Rightarrow> nat \<Rightarrow> bool" where
  "stored s L k \<longleftrightarrow> (\<exists>e\<in>set (L (bucket k)). key_at s e = k)"

definition lists_ok :: "ph_state \<Rightarrow> (nat \<Rightarrow> nat list) \<Rightarrow> bool" where
  "lists_ok s L \<longleftrightarrow> (\<forall>h. chain (next_at s) (ph_table s h) (L h)) \<and>
     (\<forall>h. \<forall>e\<in>set (L h). ph_mem s e \<noteq> None \<and> bucket (key_at s e) = h)"

fun pending :: "ph_pc \<Rightarrow> nat option" where
  "pending (Put_lock e) = Some e"
| "pending (Put_next e) = Some e"
| "pending (Put_head e) = Some e"
| "pending _ = None"

fun holds :: "ph_state \<Rightarrow> ph_pc \<Rightarrow> nat option" where
  "holds s (Put_next e) = Some (bucket (key_at s e))"
| "holds s (Put_head e) = Some (bucket (key_at s e))"
| "holds s (Put_unlock h) = Some h"
| "holds s _ = None"

fun getting :: "ph_pc \<Rightarrow> bool" where
  "getting Get_loop = True"
| "getting (Get_walk _) = True"
| "getting Finished = True"
| "getting _ = False"

definition past :: "ph_pc \<Rightarrow> bool" where
  "past c \<longleftrightarrow> c = Spin \<or> getting c"

definition putting :: "ph_pc \<Rightarrow> bool" where
  "putting c \<longleftrightarrow> \<not> past c \<and> c \<noteq> Barrier"

definition thread_ok :: "nat \<Rightarrow> (nat \<Rightarrow> nat) \<Rightarrow> ph_state \<Rightarrow> (nat \<Rightarrow> nat list) \<Rightarrow> nat \<Rightarrow> bool" where
  "thread_ok n keys s L t \<longleftrightarrow>
    (let w = ph_threads s t; b = NKEYS div n; c = ph_pc w; i = ph_i w
     in ph_missing w = 0 \<and>
       (if putting c then (\<forall>j<i. stored s L (keys (b * t + j))) \<and> (if c = Put_loop then i \<le> b else i < b) \<and>
          (\<forall>h. c = Put_unlock h \<longrightarrow> stored s L (keys (b * t + i)))
        else \<forall>j<b. stored s L (keys (b * t + j))) \<and>
       (\<forall>e. pending c = Some e \<longrightarrow> ph_mem s e \<noteq> None \<and> key_at s e = keys (b * t + i) \<and> (\<forall>h. e \<notin> set (L h))) \<and>
       (\<forall>e. c = Put_head e \<longrightarrow> next_at s e = ph_table s (bucket (key_at s e))) \<and>
       (getting c \<longrightarrow> ph_done s = n) \<and>
       (\<forall>p. c = Get_walk p \<longrightarrow> i < NKEYS \<and> (\<exists>xs. chain (next_at s) p xs \<and> (\<exists>e\<in>set xs. key_at s e = keys i))))"

definition ph_inv :: "nat \<Rightarrow> (nat \<Rightarrow> nat) \<Rightarrow> ph_state \<Rightarrow> (nat \<Rightarrow> nat list) \<Rightarrow> bool" where
  "ph_inv n keys s L \<longleftrightarrow> lists_ok s L \<and> (\<forall>t<n. thread_ok n keys s L t) \<and>
     (\<forall>t<n. \<forall>u<n. t \<noteq> u \<longrightarrow> pending (ph_pc (ph_threads s t)) \<noteq> None \<longrightarrow>
        pending (ph_pc (ph_threads s t)) \<noteq> pending (ph_pc (ph_threads s u))) \<and>
     (\<forall>h t. bucket_locks s h = Some t \<longleftrightarrow> t < n \<and> holds s (ph_pc (ph_threads s t)) = Some h) \<and>
     ph_done s = card {t. t < n \<and> past (ph_pc (ph_threads s t))} \<and> finite (dom (ph_mem s))"

lemma ph_invD:
  assumes "ph_inv n keys s L"
  shows "lists_ok s L" "t < n \<Longrightarrow> thread_ok n keys s L t"
    "t < n \<Longrightarrow> u < n \<Longrightarrow> t \<noteq> u \<Longrightarrow> pending (ph_pc (ph_threads s t)) = Some e \<Longrightarrow> pending (ph_pc (ph_threads s u)) \<noteq> Some e"
    "bucket_locks s h = Some t \<longleftrightarrow> t < n \<and> holds s (ph_pc (ph_threads s t)) = Some h"
    "ph_done s = card {t. t < n \<and> past (ph_pc (ph_threads s t))}" "finite (dom (ph_mem s))"
  using assms unfolding ph_inv_def by (blast, blast, force, blast, blast, blast)

lemma all_past:
  assumes "ph_inv n keys s L" "ph_done s = n" "t < n"
  shows "past (ph_pc (ph_threads s t))"
proof -
  have "card {t. t < n \<and> past (ph_pc (ph_threads s t))} = card {..<n}" using ph_invD(5) [OF assms(1)] assms(2) by simp
  then have "{t. t < n \<and> past (ph_pc (ph_threads s t))} = {..<n}" by (intro card_subset_eq) auto
  then show ?thesis using assms(3) by auto
qed

text \<open>What a step of one thread has to leave alone for another.\<close>

lemma thread_ok_kept:
  assumes "thread_ok n keys s L t" "ph_threads s' t = ph_threads s t" "\<And>k. stored s L k \<Longrightarrow> stored s' L' k"
    and "\<And>e. pending (ph_pc (ph_threads s t)) = Some e \<Longrightarrow>
      ph_mem s' e = ph_mem s e \<and> (\<forall>h. e \<notin> set (L h) \<longrightarrow> e \<notin> set (L' h))"
    and "\<And>e. ph_pc (ph_threads s t) = Put_head e \<Longrightarrow> ph_table s' (bucket (key_at s e)) = ph_table s (bucket (key_at s e))"
    and "getting (ph_pc (ph_threads s t)) \<Longrightarrow> ph_done s' = ph_done s \<and> ph_mem s' = ph_mem s"
  shows "thread_ok n keys s' L' t"
proof -
  have at: "key_at s' e = key_at s e" "next_at s' e = next_at s e" if "ph_mem s' e = ph_mem s e" for e
    using that by (simp_all add: key_at_def next_at_def)
  have walk: "key_at s' = key_at s" "next_at s' = next_at s" if "ph_mem s' = ph_mem s"
    using that by (simp_all add: key_at_def next_at_def fun_eq_iff)
  show ?thesis
    using assms(1) unfolding thread_ok_def Let_def assms(2)
    apply (elim conjE, intro conjI)
    subgoal by simp
    subgoal using assms(3) by (auto split: if_splits)
    subgoal using assms(4) at by fastforce
    subgoal using assms(4,5) at by force
    subgoal using assms(6) by auto
    subgoal using assms(6) walk by (metis getting.simps(2))
    done
qed

section \<open>Steps keep the invariant\<close>

lemma holds_set_thread [simp]: "holds (set_thread t f s) c = holds s c"
  by (cases c) simp_all

lemma stored_set_thread [simp]: "stored (set_thread t f s) L k = stored s L k"
  by (simp add: stored_def)

lemma lists_ok_set_thread [simp]: "lists_ok (set_thread t f s) L = lists_ok s L"
  by (simp add: lists_ok_def)

lemma past_count:
  assumes "t < (n :: nat)" "P t \<longrightarrow> Q t" "\<And>u. u \<noteq> t \<Longrightarrow> Q u = P u"
  shows "card {u. u < n \<and> Q u} = card {u. u < n \<and> P u} + (if Q t \<and> \<not> P t then 1 else 0)"
proof (cases "Q t \<and> \<not> P t")
  case True
  then have "u < n \<and> Q u \<longleftrightarrow> u = t \<or> u < n \<and> P u" for u using assms by (cases "u = t") auto
  then have "{u. u < n \<and> Q u} = insert t {u. u < n \<and> P u}" by blast
  moreover have "finite {u. u < n \<and> P u}" by simp
  ultimately show ?thesis using True by simp
next
  case False
  then have "Q u = P u" for u using assms by (cases "u = t") auto
  then show ?thesis using False by simp
qed

lemma ph_invI:
  assumes inv: "ph_inv n keys s L" and t: "t < n" and s1: "ph_threads s1 = ph_threads s" "finite (dom (ph_mem s1))" "lists_ok s1 L'"
    and ok: "thread_ok n keys (set_thread t f s1) L' t"
      "\<And>u. u < n \<Longrightarrow> u \<noteq> t \<Longrightarrow> thread_ok n keys (set_thread t f s1) L' u"
    and pend: "\<And>e u. pending (ph_pc (f (ph_threads s t))) = Some e \<Longrightarrow> u < n \<Longrightarrow> u \<noteq> t \<Longrightarrow> pending (ph_pc (ph_threads s u)) \<noteq> Some e"
    and locks: "\<And>h u. bucket_locks s1 h = Some u \<longleftrightarrow>
      u < n \<and> holds s1 (ph_pc (if u = t then f (ph_threads s t) else ph_threads s u)) = Some h"
    and past: "past (ph_pc (ph_threads s t)) \<longrightarrow> past (ph_pc (f (ph_threads s t)))"
      "ph_done s1 = ph_done s + (if past (ph_pc (f (ph_threads s t))) \<and> \<not> past (ph_pc (ph_threads s t)) then 1 else 0)"
  shows "ph_inv n keys (set_thread t f s1) L'"
proof -
  let ?s = "set_thread t f s1"
  have th: "ph_threads ?s u = (if u = t then f (ph_threads s t) else ph_threads s u)" for u using s1(1) by simp
  have "thread_ok n keys ?s L' u" if "u < n" for u using ok that by (cases "u = t") simp_all
  moreover have "pending (ph_pc (ph_threads ?s u)) \<noteq> pending (ph_pc (ph_threads ?s v))"
    if "u < n" "v < n" "u \<noteq> v" "pending (ph_pc (ph_threads ?s u)) \<noteq> None" for u v
    using that pend [of _ u] pend [of _ v] ph_invD(3) [OF inv that(1-3)] unfolding th by (auto split: if_splits)
  moreover have "ph_done ?s = card {u. u < n \<and> past (ph_pc (ph_threads ?s u))}"
    unfolding th using past(2) ph_invD(5) [OF inv] past_count [OF t, of "\<lambda>u. past (ph_pc (ph_threads s u))"
      "\<lambda>u. past (ph_pc (if u = t then f (ph_threads s t) else ph_threads s u))"] past(1) by simp
  moreover have "bucket_locks ?s h = Some u \<longleftrightarrow> u < n \<and> holds ?s (ph_pc (ph_threads ?s u)) = Some h" for h u
    unfolding th using locks by simp
  ultimately show ?thesis using s1(2,3) unfolding ph_inv_def by simp
qed

text \<open>A step that changes nothing but the thread's own record.\<close>

lemma ph_inv_local:
  assumes inv: "ph_inv n keys s L" and t: "t < n" and ok: "thread_ok n keys (set_thread t f s) L t"
    and pc: "pending (ph_pc (f (ph_threads s t))) = pending (ph_pc (ph_threads s t))"
      "holds s (ph_pc (f (ph_threads s t))) = holds s (ph_pc (ph_threads s t))"
      "past (ph_pc (f (ph_threads s t))) = past (ph_pc (ph_threads s t))"
  shows "ph_inv n keys (set_thread t f s) L"
proof (rule ph_invI [OF inv t _ _ _ ok])
  show "thread_ok n keys (set_thread t f s) L u" if "u < n" "u \<noteq> t" for u
    by (rule thread_ok_kept [OF ph_invD(2) [OF inv that(1)]]) (use that in simp_all)
  show "pending (ph_pc (ph_threads s u)) \<noteq> Some e" if "pending (ph_pc (f (ph_threads s t))) = Some e" "u < n" "u \<noteq> t" for e u
    using ph_invD(3) [OF inv t that(2)] that pc(1) by metis
qed (use ph_invD(1,4,6) [OF inv] pc in auto)

lemma stored_cong: "(\<And>e. e \<in> set (L (bucket k)) \<Longrightarrow> key_at s' e = key_at s e) \<Longrightarrow> stored s' L k = stored s L k"
  by (simp add: stored_def)

lemma lists_ok_cong:
  assumes "lists_ok s L" "ph_table s' = ph_table s" "\<And>h e. e \<in> set (L h) \<Longrightarrow> ph_mem s' e = ph_mem s e"
  shows "lists_ok s' L"
proof -
  have "chain (next_at s') (ph_table s h) (L h) = chain (next_at s) (ph_table s h) (L h)" for h
    by (rule chain_cong) (use assms(3) in \<open>simp add: next_at_def\<close>)
  then show ?thesis using assms unfolding lists_ok_def by (simp add: key_at_def)
qed

text \<open>The shared state after the access is \<open>s1\<close>, given by its fields.\<close>

lemma ph_inv_alloc:
  assumes inv: "ph_inv n keys s L" and t: "t < n" "ph_pc (ph_threads s t) = Put_loop" "ph_i (ph_threads s t) < NKEYS div n"
    and e: "ph_mem s e = None" "k = keys (NKEYS div n * t + ph_i (ph_threads s t))"
    and s1: "ph_mem s1 = (ph_mem s)(e \<mapsto> \<lparr>e_key = k, e_value = v, e_next = junk\<rparr>)" "ph_table s1 = ph_table s"
      "bucket_locks s1 = bucket_locks s" "ph_done s1 = ph_done s" "ph_threads s1 = ph_threads s"
  shows "ph_inv n keys (set_thread t (goto (Put_lock e)) s1) L"
proof -
  have new: "e \<notin> set (L h)" for h using ph_invD(1) [OF inv] e(1) unfolding lists_ok_def by blast
  have key: "key_at s1 x = key_at s x" if "x \<noteq> e" for x using that s1(1) by (simp add: key_at_def)
  have st: "stored s1 L x = stored s L x" for x by (rule stored_cong) (use new key in metis)
  have np: "\<not> past (ph_pc (ph_threads s t))" using t(2) by (simp add: past_def)
  have other: "pending (ph_pc (ph_threads s u)) \<noteq> Some e" if "u < n" for u
    using ph_invD(2) [OF inv that] e(1) by (auto simp: thread_ok_def Let_def)
  have hold: "holds s1 (ph_pc (ph_threads s u)) = holds s (ph_pc (ph_threads s u))" if "u < n" for u
    using other [OF that] key by (cases "ph_pc (ph_threads s u)") auto
  show ?thesis
  proof (rule ph_invI [OF inv t(1) s1(5)])
    show "lists_ok s1 L" by (rule lists_ok_cong [OF ph_invD(1) [OF inv] s1(2)]) (use new s1(1) in auto)
    have "key_at s1 e = k" using s1(1) by (simp add: key_at_def)
    then show "thread_ok n keys (set_thread t (goto (Put_lock e)) s1) L t"
      using ph_invD(2) [OF inv t(1)] t(2,3) st new e(2) s1 by (simp add: thread_ok_def Let_def putting_def past_def)
    show "thread_ok n keys (set_thread t (goto (Put_lock e)) s1) L u" if u: "u < n" "u \<noteq> t" for u
    proof (rule thread_ok_kept [OF ph_invD(2) [OF inv u(1)]])
      show "ph_done (set_thread t (goto (Put_lock e)) s1) = ph_done s \<and> ph_mem (set_thread t (goto (Put_lock e)) s1) = ph_mem s"
        if "getting (ph_pc (ph_threads s u))"
        using ph_invD(2) [OF inv u(1)] that all_past [OF inv _ t(1)] np by (auto simp: thread_ok_def Let_def)
    qed (use u st other s1 in auto)
    show "bucket_locks s1 h = Some u \<longleftrightarrow> u < n \<and> holds s1 (ph_pc (if u = t then goto (Put_lock e) (ph_threads s t) else ph_threads s u)) = Some h" for h u
      using ph_invD(4) [OF inv, of h u] hold t(1,2) s1(3) by auto
  qed (use ph_invD(6) [OF inv] other np t(1) s1 in \<open>auto simp: past_def\<close>)
qed

lemma ph_inv_lock:
  assumes inv: "ph_inv n keys s L" and t: "t < n" "ph_pc (ph_threads s t) = Put_lock e" and l: "bucket_locks s (bucket (key_at s e)) = None"
    and s1: "ph_mem s1 = ph_mem s" "ph_table s1 = ph_table s"
      "bucket_locks s1 = (bucket_locks s)(bucket (key_at s e) \<mapsto> t)" "ph_done s1 = ph_done s" "ph_threads s1 = ph_threads s"
  shows "ph_inv n keys (set_thread t (goto (Put_next e)) s1) L"
proof -
  have at: "key_at s1 = key_at s" using s1(1) by (simp add: key_at_def fun_eq_iff)
  have st: "stored s1 L x = stored s L x" for x by (simp add: stored_def at)
  have hold: "holds s1 c = holds s c" for c by (cases c) (simp_all add: at)
  show ?thesis
  proof (rule ph_invI [OF inv t(1) s1(5)])
    show "lists_ok s1 L" by (rule lists_ok_cong [OF ph_invD(1) [OF inv] s1(2)]) (simp add: s1(1))
    show "thread_ok n keys (set_thread t (goto (Put_next e)) s1) L t"
      using ph_invD(2) [OF inv t(1)] t(2) st s1 by (simp add: thread_ok_def Let_def putting_def past_def at)
    show "thread_ok n keys (set_thread t (goto (Put_next e)) s1) L u" if u: "u < n" "u \<noteq> t" for u
      by (rule thread_ok_kept [OF ph_invD(2) [OF inv u(1)]]) (use u st s1 in simp_all)
    show "pending (ph_pc (ph_threads s u)) \<noteq> Some x" if "pending (ph_pc (goto (Put_next e) (ph_threads s t))) = Some x" "u < n" "u \<noteq> t" for x u
      using ph_invD(3) [OF inv t(1) that(2)] that t(2) by simp
    show "bucket_locks s1 h = Some u \<longleftrightarrow> u < n \<and> holds s1 (ph_pc (if u = t then goto (Put_next e) (ph_threads s t) else ph_threads s u)) = Some h" for h u
      using ph_invD(4) [OF inv, of h u] hold at t l s1(3) by auto
  qed (use ph_invD(6) [OF inv] t s1 in \<open>auto simp: past_def\<close>)
qed

lemma ph_inv_link:
  assumes inv: "ph_inv n keys s L" and t: "t < n" "ph_pc (ph_threads s t) = Put_next e" and h: "h = bucket (key_at s e)"
    and s1: "ph_mem s1 = (ph_mem s)(e := map_option (\<lambda>x. x\<lparr>e_next := ph_table s h\<rparr>) (ph_mem s e))" "ph_table s1 = ph_table s"
      "bucket_locks s1 = bucket_locks s" "ph_done s1 = ph_done s" "ph_threads s1 = ph_threads s"
  shows "ph_inv n keys (set_thread t (goto (Put_head e)) s1) L"
proof -
  have ok: "ph_mem s e \<noteq> None" "e \<notin> set (L x)" for x
    using ph_invD(2) [OF inv t(1)] t(2) by (simp_all add: thread_ok_def Let_def)
  have np: "\<not> past (ph_pc (ph_threads s t))" using t(2) by (simp add: past_def)
  have key: "key_at s1 = key_at s" using s1(1) by (auto simp: key_at_def fun_eq_iff split: option.split)
  have nx: "next_at s1 e = ph_table s h" "ph_mem s1 e \<noteq> None" using s1(1) ok(1) by (auto simp: next_at_def)
  have st: "stored s1 L x = stored s L x" for x by (simp add: stored_def key)
  have hold: "holds s1 c = holds s c" for c by (cases c) (simp_all add: key)
  have other: "pending (ph_pc (ph_threads s u)) \<noteq> Some e" if "u < n" "u \<noteq> t" for u
    using ph_invD(3) [OF inv t(1) that(1)] that(2) t(2) by simp
  show ?thesis
  proof (rule ph_invI [OF inv t(1) s1(5)])
    show "lists_ok s1 L" by (rule lists_ok_cong [OF ph_invD(1) [OF inv] s1(2)]) (use ok(2) s1(1) in auto)
    show "thread_ok n keys (set_thread t (goto (Put_head e)) s1) L t"
      using ph_invD(2) [OF inv t(1)] t(2) st nx h s1(2,4,5) by (simp add: thread_ok_def Let_def putting_def past_def key)
    show "thread_ok n keys (set_thread t (goto (Put_head e)) s1) L u" if u: "u < n" "u \<noteq> t" for u
    proof (rule thread_ok_kept [OF ph_invD(2) [OF inv u(1)]])
      show "ph_done (set_thread t (goto (Put_head e)) s1) = ph_done s \<and> ph_mem (set_thread t (goto (Put_head e)) s1) = ph_mem s"
        if "getting (ph_pc (ph_threads s u))"
        using ph_invD(2) [OF inv u(1)] that all_past [OF inv _ t(1)] np by (auto simp: thread_ok_def Let_def)
    qed (use u st other s1 in auto)
    show "pending (ph_pc (ph_threads s u)) \<noteq> Some x" if "pending (ph_pc (goto (Put_head e) (ph_threads s t))) = Some x" "u < n" "u \<noteq> t" for x u
      using other that by simp
    show "bucket_locks s1 x = Some u \<longleftrightarrow> u < n \<and> holds s1 (ph_pc (if u = t then goto (Put_head e) (ph_threads s t) else ph_threads s u)) = Some x" for x u
      using ph_invD(4) [OF inv, of x u] hold t s1(3) by auto
  qed (use ph_invD(6) [OF inv] t s1 in \<open>auto simp: past_def\<close>)
qed

lemma ph_inv_publish:
  assumes inv: "ph_inv n keys s L" and t: "t < n" "ph_pc (ph_threads s t) = Put_head e" and h: "h = bucket (key_at s e)"
    and s1: "ph_mem s1 = ph_mem s" "ph_table s1 = (ph_table s)(h \<mapsto> e)"
      "bucket_locks s1 = bucket_locks s" "ph_done s1 = ph_done s" "ph_threads s1 = ph_threads s"
  shows "ph_inv n keys (set_thread t (goto (Put_unlock h)) s1) (L(h := e # L h))"
proof -
  let ?L = "L(h := e # L h)"
  have ok: "ph_mem s e \<noteq> None" "e \<notin> set (L x)" "next_at s e = ph_table s h" "key_at s e = keys (NKEYS div n * t + ph_i (ph_threads s t))" for x
    using ph_invD(2) [OF inv t(1)] t(2) h by (simp_all add: thread_ok_def Let_def)
  have np: "\<not> past (ph_pc (ph_threads s t))" using t(2) by (simp add: past_def)
  have at: "key_at s1 = key_at s" "next_at s1 = next_at s" using s1(1) by (simp_all add: key_at_def next_at_def fun_eq_iff)
  have st: "stored s1 ?L x" if "stored s L x" for x using that by (auto simp: stored_def at)
  have mine: "stored s1 ?L (key_at s e)" using h by (simp add: stored_def at)
  have hold: "holds s1 c = holds s c" for c by (cases c) (simp_all add: at)
  have other: "pending (ph_pc (ph_threads s u)) \<noteq> Some e" if "u < n" "u \<noteq> t" for u
    using ph_invD(3) [OF inv t(1) that(1)] that(2) t(2) by simp
  have alone: "bucket (key_at s x) \<noteq> h" if "u < n" "u \<noteq> t" "ph_pc (ph_threads s u) = Put_head x" for u x
    using ph_invD(4) [OF inv, of h u] ph_invD(4) [OF inv, of h t] t h that by auto
  show ?thesis
  proof (rule ph_invI [OF inv t(1) s1(5)])
    show "lists_ok s1 ?L" using ph_invD(1) [OF inv] s1(1,2) ok h by (auto simp: lists_ok_def at)
    show "thread_ok n keys (set_thread t (goto (Put_unlock h)) s1) ?L t"
      using ph_invD(2) [OF inv t(1)] t(2) st mine s1(4,5) ok(4) by (simp add: thread_ok_def Let_def putting_def past_def)
    show "thread_ok n keys (set_thread t (goto (Put_unlock h)) s1) ?L u" if u: "u < n" "u \<noteq> t" for u
    proof (rule thread_ok_kept [OF ph_invD(2) [OF inv u(1)]])
      show "ph_mem (set_thread t (goto (Put_unlock h)) s1) x = ph_mem s x \<and> (\<forall>h'. x \<notin> set (L h') \<longrightarrow> x \<notin> set (?L h'))"
        if "pending (ph_pc (ph_threads s u)) = Some x" for x using other [OF u] that s1(1) by auto
      show "ph_table (set_thread t (goto (Put_unlock h)) s1) (bucket (key_at s x)) = ph_table s (bucket (key_at s x))"
        if "ph_pc (ph_threads s u) = Put_head x" for x using alone [OF u that] s1(2) by simp
    qed (use u st s1 in auto)
    show "bucket_locks s1 x = Some u \<longleftrightarrow> u < n \<and> holds s1 (ph_pc (if u = t then goto (Put_unlock h) (ph_threads s t) else ph_threads s u)) = Some x" for x u
      using ph_invD(4) [OF inv, of x u] hold t h s1(3) by auto
  qed (use ph_invD(6) [OF inv] t s1 in \<open>auto simp: past_def\<close>)
qed

lemma ph_inv_unlock:
  assumes inv: "ph_inv n keys s L" and t: "t < n" "ph_pc (ph_threads s t) = Put_unlock h"
    and s1: "ph_mem s1 = ph_mem s" "ph_table s1 = ph_table s"
      "bucket_locks s1 = (bucket_locks s)(h := None)" "ph_done s1 = ph_done s" "ph_threads s1 = ph_threads s"
  shows "ph_inv n keys (set_thread t (goto_next Put_loop) s1) L"
proof -
  have at: "key_at s1 = key_at s" using s1(1) by (simp add: key_at_def fun_eq_iff)
  have st: "stored s1 L x = stored s L x" for x by (simp add: stored_def at)
  have hold: "holds s1 c = holds s c" for c by (cases c) (simp_all add: at)
  have mine: "bucket_locks s h = Some t" using ph_invD(4) [OF inv, of h t] t by simp
  show ?thesis
  proof (rule ph_invI [OF inv t(1) s1(5)])
    show "lists_ok s1 L" by (rule lists_ok_cong [OF ph_invD(1) [OF inv] s1(2)]) (simp add: s1(1))
    show "thread_ok n keys (set_thread t (goto_next Put_loop) s1) L t"
      using ph_invD(2) [OF inv t(1)] t(2) st s1 by (auto simp: thread_ok_def Let_def putting_def past_def at less_Suc_eq)
    show "thread_ok n keys (set_thread t (goto_next Put_loop) s1) L u" if u: "u < n" "u \<noteq> t" for u
      by (rule thread_ok_kept [OF ph_invD(2) [OF inv u(1)]]) (use u st s1 in simp_all)
    show "bucket_locks s1 x = Some u \<longleftrightarrow> u < n \<and> holds s1 (ph_pc (if u = t then goto_next Put_loop (ph_threads s t) else ph_threads s u)) = Some x" for x u
      using ph_invD(4) [OF inv, of x u] hold t mine s1(3) by auto
  qed (use ph_invD(6) [OF inv] t s1 in \<open>auto simp: past_def\<close>)
qed

lemma ph_inv_barrier:
  assumes inv: "ph_inv n keys s L" and t: "t < n" "ph_pc (ph_threads s t) = Barrier"
    and s1: "ph_mem s1 = ph_mem s" "ph_table s1 = ph_table s"
      "bucket_locks s1 = bucket_locks s" "ph_done s1 = ph_done s + 1" "ph_threads s1 = ph_threads s"
  shows "ph_inv n keys (set_thread t (goto Spin) s1) L"
proof -
  have at: "key_at s1 = key_at s" using s1(1) by (simp add: key_at_def fun_eq_iff)
  have st: "stored s1 L x = stored s L x" for x by (simp add: stored_def at)
  have hold: "holds s1 c = holds s c" for c by (cases c) (simp_all add: at)
  have np: "\<not> past (ph_pc (ph_threads s t))" using t(2) by (simp add: past_def)
  show ?thesis
  proof (rule ph_invI [OF inv t(1) s1(5)])
    show "lists_ok s1 L" by (rule lists_ok_cong [OF ph_invD(1) [OF inv] s1(2)]) (simp add: s1(1))
    show "thread_ok n keys (set_thread t (goto Spin) s1) L t"
      using ph_invD(2) [OF inv t(1)] t(2) st s1 by (simp add: thread_ok_def Let_def putting_def past_def)
    show "thread_ok n keys (set_thread t (goto Spin) s1) L u" if u: "u < n" "u \<noteq> t" for u
    proof (rule thread_ok_kept [OF ph_invD(2) [OF inv u(1)]])
      show "ph_done (set_thread t (goto Spin) s1) = ph_done s \<and> ph_mem (set_thread t (goto Spin) s1) = ph_mem s"
        if "getting (ph_pc (ph_threads s u))"
        using ph_invD(2) [OF inv u(1)] that all_past [OF inv _ t(1)] np by (auto simp: thread_ok_def Let_def)
    qed (use u st s1 in simp_all)
    show "bucket_locks s1 x = Some u \<longleftrightarrow> u < n \<and> holds s1 (ph_pc (if u = t then goto Spin (ph_threads s t) else ph_threads s u)) = Some x" for x u
      using ph_invD(4) [OF inv, of x u] hold t s1(3) by auto
  qed (use ph_invD(6) [OF inv] t s1 in \<open>auto simp: past_def\<close>)
qed

lemma all_stored:
  assumes inv: "ph_inv n keys s L" and d: "ph_done s = n" and n: "0 < n" "n dvd NKEYS" and i: "i < NKEYS"
  shows "stored s L (keys i)"
proof -
  let ?b = "NKEYS div n"
  have b: "?b * n = NKEYS" using n(2) by simp
  have pos: "0 < ?b" using b by (cases "?b") (simp_all add: NKEYS_def)
  have "i < n * ?b" using i b by (simp add: mult.commute)
  then have u: "i div ?b < n" by (rule less_mult_imp_div_less)
  have "past (ph_pc (ph_threads s (i div ?b)))" by (rule all_past [OF inv d u])
  then have all: "\<forall>j<?b. stored s L (keys (?b * (i div ?b) + j))"
    using ph_invD(2) [OF inv u] by (simp add: thread_ok_def Let_def putting_def)
  have "i mod ?b < ?b" using pos by (rule mod_less_divisor)
  with all have "stored s L (keys (?b * (i div ?b) + i mod ?b))" by blast
  then show ?thesis unfolding mult_div_mod_eq .
qed

lemma ph_inv_get:
  assumes inv: "ph_inv n keys s L" and n: "0 < n" "n dvd NKEYS" and t: "t < n" "ph_pc (ph_threads s t) = Get_loop"
    and i: "ph_i (ph_threads s t) < NKEYS"
  shows "ph_inv n keys (set_thread t (goto (Get_walk (ph_table s (bucket (keys (ph_i (ph_threads s t))))))) s) L"
proof (rule ph_inv_local [OF inv t(1)])
  let ?k = "keys (ph_i (ph_threads s t))"
  have d: "ph_done s = n" using ph_invD(2) [OF inv t(1)] t(2) by (simp add: thread_ok_def Let_def)
  have "chain (next_at s) (ph_table s (bucket ?k)) (L (bucket ?k))" using ph_invD(1) [OF inv] by (simp add: lists_ok_def)
  moreover have "\<exists>e\<in>set (L (bucket ?k)). key_at s e = ?k" using all_stored [OF inv d n i] by (simp add: stored_def)
  ultimately show "thread_ok n keys (set_thread t (goto (Get_walk (ph_table s (bucket ?k)))) s) L t"
    using ph_invD(2) [OF inv t(1)] t(2) i by (auto simp: thread_ok_def Let_def putting_def past_def)
qed (simp_all add: t past_def)

lemma ph_inv_step:
  assumes step: "ph_step n keys s s'" and inv: "ph_inv n keys s L" and n: "0 < n" "n dvd NKEYS"
  shows "\<exists>L'. ph_inv n keys s' L'"
  using step
proof (cases rule: ph_step.cases)
  case (ph_alloc t e k junk)
  then show ?thesis using ph_inv_alloc [OF inv ph_alloc(2-6)] by (intro exI [of _ L]) simp
next
  case (ph_lock t e h)
  have "bucket_locks s (bucket (key_at s e)) = None" using ph_lock by simp
  from ph_inv_lock [OF inv ph_lock(2,3) this] show ?thesis using ph_lock(1,4) by (intro exI [of _ L]) simp
next
  case (ph_link t e h)
  then show ?thesis using ph_inv_link [OF inv ph_link(2-4)] by (intro exI [of _ L]) simp
next
  case (ph_publish t e h)
  then show ?thesis using ph_inv_publish [OF inv ph_publish(2-4)] by (intro exI [of _ "L(h := e # L h)"]) simp
next
  case (ph_unlock t h)
  then show ?thesis using ph_inv_unlock [OF inv ph_unlock(2,3)] by (intro exI [of _ L]) simp
next
  case (ph_puts_end t)
  have "thread_ok n keys (set_thread t (goto Barrier) s) L t"
    using ph_invD(2) [OF inv ph_puts_end(2)] ph_puts_end(3,4) by (auto simp: thread_ok_def Let_def putting_def past_def)
  then show ?thesis
    unfolding ph_puts_end(1) using ph_puts_end(2,3) by (intro exI [of _ L] ph_inv_local [OF inv]) (simp_all add: past_def)
next
  case (ph_barrier t)
  then show ?thesis using ph_inv_barrier [OF inv ph_barrier(2,3)] by (intro exI [of _ L]) simp
next
  case (ph_spin t)
  have "card {u. u < n \<and> past (ph_pc (ph_threads s u))} \<le> card {..<n}" by (intro card_mono) auto
  then have d: "ph_done s = n" using ph_invD(5) [OF inv] ph_spin(4) by simp
  have "thread_ok n keys (set_thread t (\<lambda>w. w\<lparr>ph_pc := Get_loop, ph_i := 0\<rparr>) s) L t"
    using ph_invD(2) [OF inv ph_spin(2)] ph_spin(3) d by (simp add: thread_ok_def Let_def putting_def past_def)
  then show ?thesis
    unfolding ph_spin(1) using ph_spin(2,3) by (intro exI [of _ L] ph_inv_local [OF inv]) (simp_all add: past_def)
next
  case (ph_get t c)
  then show ?thesis using ph_inv_get [OF inv n ph_get(2-4)] by auto
next
  case (ph_walk t e)
  obtain ys where "chain (next_at s) (Some e) ys" "\<exists>a\<in>set ys. key_at s a = keys (ph_i (ph_threads s t))"
    using ph_invD(2) [OF inv ph_walk(2)] ph_walk(3) by (auto simp: thread_ok_def Let_def)
  then have "\<exists>xs. chain (next_at s) (next_at s e) xs \<and> (\<exists>a\<in>set xs. key_at s a = keys (ph_i (ph_threads s t)))"
    using ph_walk(4) by (auto simp: chain_Some) blast
  then have "thread_ok n keys (set_thread t (goto (Get_walk (next_at s e))) s) L t"
    using ph_invD(2) [OF inv ph_walk(2)] ph_walk(3) by (simp add: thread_ok_def Let_def putting_def past_def)
  then show ?thesis
    unfolding ph_walk(1) using ph_walk(2,3) by (intro exI [of _ L] ph_inv_local [OF inv]) (simp_all add: past_def)
next
  case (ph_found t e)
  have "thread_ok n keys (set_thread t (goto_next Get_loop) s) L t"
    using ph_invD(2) [OF inv ph_found(2)] ph_found(3) by (simp add: thread_ok_def Let_def putting_def past_def)
  then show ?thesis
    unfolding ph_found(1) using ph_found(2,3) by (intro exI [of _ L] ph_inv_local [OF inv]) (simp_all add: past_def)
next
  case (ph_miss t)
  then have False using ph_invD(2) [OF inv ph_miss(2)] by (simp add: thread_ok_def Let_def)
  then show ?thesis ..
next
  case (ph_gets_end t)
  have "thread_ok n keys (set_thread t (goto Finished) s) L t"
    using ph_invD(2) [OF inv ph_gets_end(2)] ph_gets_end(3) by (simp add: thread_ok_def Let_def putting_def past_def)
  then show ?thesis
    unfolding ph_gets_end(1) using ph_gets_end(2,3) by (intro exI [of _ L] ph_inv_local [OF inv]) (simp_all add: past_def)
qed

lemma ph_inv_init: "ph_inv n keys ph_init (\<lambda>_. [])"
  by (simp add: ph_inv_def lists_ok_def thread_ok_def ph_init_def putting_def past_def)

lemma ph_reaches_inv:
  assumes "ph_reaches n keys s" "0 < n" "n dvd NKEYS"
  shows "\<exists>L. ph_inv n keys s L"
  using assms(1)
proof (induction rule: rtranclp_induct)
  case base
  show ?case using ph_inv_init by blast
next
  case (step s s')
  then show ?case using ph_inv_step assms(2,3) by blast
qed

section \<open>No key is missing, and no thread waits for ever\<close>

text \<open>
  C8: whatever the interleaving of the threads' memory accesses, no thread ever counts a key as missing, and
  once every thread has passed the barrier each key is in the list of its bucket, whose entries all belong there.
\<close>

theorem ph_no_key_missing:
  assumes "ph_reaches nthread keys s" "0 < nthread" "nthread dvd NKEYS" "t < nthread"
  shows "ph_missing (ph_threads s t) = 0 \<and> (ph_done s = nthread \<longrightarrow> (\<forall>i<NKEYS.
    \<exists>xs. chain (next_at s) (ph_table s (bucket (keys i))) xs \<and> keys i \<in> key_at s ` set xs \<and>
      (\<forall>e\<in>set xs. bucket (key_at s e) = bucket (keys i))))"
proof -
  obtain L where inv: "ph_inv nthread keys s L" using ph_reaches_inv [OF assms(1-3)] by blast
  have "ph_missing (ph_threads s t) = 0" using ph_invD(2) [OF inv assms(4)] by (simp add: thread_ok_def Let_def)
  moreover have "\<exists>xs. chain (next_at s) (ph_table s (bucket (keys i))) xs \<and> keys i \<in> key_at s ` set xs \<and>
      (\<forall>e\<in>set xs. bucket (key_at s e) = bucket (keys i))" if "ph_done s = nthread" "i < NKEYS" for i
    using all_stored [OF inv that(1) assms(2,3) that(2)] ph_invD(1) [OF inv]
    by (intro exI [of _ "L (bucket (keys i))"]) (force simp: stored_def lists_ok_def)
  ultimately show ?thesis by blast
qed

theorem ph_no_key_missing_witness:
  "ph_missing (ph_threads (set_thread 1 (goto (Put_lock 7)) (ph_init\<lparr>ph_mem := (ph_mem ph_init)(7 \<mapsto>
     \<lparr>e_key = 50003, e_value = 1, e_next = None\<rparr>)\<rparr>)) 1) = 0"
proof -
  have "ph_step 2 (\<lambda>i. i + 3) ph_init (set_thread 1 (goto (Put_lock 7)) (ph_init\<lparr>ph_mem := (ph_mem ph_init)(7 \<mapsto>
     \<lparr>e_key = 50003, e_value = 1, e_next = None\<rparr>)\<rparr>))"
    by (rule ph_alloc) (simp_all add: ph_init_def NKEYS_def)
  then show ?thesis
    by (rule ph_no_key_missing [OF r_into_rtranclp, THEN conjunct1]) (simp_all add: NKEYS_def)
qed

text \<open>A thread waits only for a lock, held by a thread that can go on, or at the barrier, for a thread that has not arrived.\<close>

lemma ph_thread_goes_on:
  assumes inv: "ph_inv n keys s L" and t: "t < n" "ph_pc (ph_threads s t) \<noteq> Finished"
    and lock: "\<And>e. ph_pc (ph_threads s t) = Put_lock e \<Longrightarrow> bucket_locks s (bucket (key_at s e)) = None"
    and spin: "ph_pc (ph_threads s t) = Spin \<Longrightarrow> \<not> ph_done s < n"
  shows "\<exists>s'. ph_step n keys s s'"
proof (cases "ph_pc (ph_threads s t)")
  case Put_loop
  obtain e where "e \<notin> dom (ph_mem s)" using ph_invD(6) [OF inv] ex_new_if_finite infinite_UNIV_nat by blast
  then have e: "ph_mem s e = None" by blast
  show ?thesis
    using ph_alloc [OF t(1) Put_loop _ e refl] ph_puts_end [OF t(1) Put_loop]
    by (cases "ph_i (ph_threads s t) < NKEYS div n") blast+
next
  case (Put_lock e)
  show ?thesis by (rule exI, rule ph_lock [OF t(1) Put_lock refl lock [OF Put_lock]])
next
  case (Put_next e)
  show ?thesis by (rule exI, rule ph_link [OF t(1) Put_next refl])
next
  case (Put_head e)
  show ?thesis by (rule exI, rule ph_publish [OF t(1) Put_head refl])
next
  case (Put_unlock h)
  show ?thesis by (rule exI, rule ph_unlock [OF t(1) Put_unlock])
next
  case Barrier
  show ?thesis by (rule exI, rule ph_barrier [OF t(1) Barrier])
next
  case Spin
  show ?thesis by (rule exI, rule ph_spin [OF t(1) Spin spin [OF Spin]])
next
  case Get_loop
  show ?thesis
    using ph_get [OF t(1) Get_loop _ refl] ph_gets_end [OF t(1) Get_loop]
    by (cases "ph_i (ph_threads s t) < NKEYS") blast+
next
  case (Get_walk p)
  show ?thesis
  proof (cases p)
    case None
    then show ?thesis using ph_miss [OF t(1)] Get_walk by blast
  next
    case (Some e)
    then have w: "ph_pc (ph_threads s t) = Get_walk (Some e)" using Get_walk by simp
    show ?thesis
      using ph_walk [OF t(1) w] ph_found [OF t(1) w] by (cases "key_at s e = keys (ph_i (ph_threads s t))") blast+
  qed
qed (use t in simp)

lemma ph_lock_or_owner:
  assumes inv: "ph_inv n keys s L" and t: "t < n" "ph_pc (ph_threads s t) = Put_lock e"
  shows "\<exists>s'. ph_step n keys s s'"
proof (cases "bucket_locks s (bucket (key_at s e))")
  case None
  then show ?thesis using t by (intro ph_thread_goes_on [OF inv t(1)]) simp_all
next
  case (Some u)
  then have u: "u < n" "holds s (ph_pc (ph_threads s u)) \<noteq> None" using ph_invD(4) [OF inv] by auto
  then show ?thesis by (intro ph_thread_goes_on [OF inv u(1)]) auto
qed

text \<open>
  C9: in every reachable state in which some thread has not finished, some thread can take a step: the locks of the
  buckets and the barrier never leave all of them waiting for each other.
\<close>

theorem ph_never_stuck:
  assumes "ph_reaches nthread keys s" "0 < nthread" "nthread dvd NKEYS" "t < nthread" "ph_pc (ph_threads s t) \<noteq> Finished"
  shows "\<exists>s'. ph_step nthread keys s s'"
proof -
  obtain L where inv: "ph_inv nthread keys s L" using ph_reaches_inv [OF assms(1-3)] by blast
  show ?thesis
  proof (cases "ph_pc (ph_threads s t) = Spin \<and> ph_done s < nthread")
    case True
    have "\<exists>u<nthread. \<not> past (ph_pc (ph_threads s u))"
    proof (rule ccontr)
      assume "\<not> (\<exists>u<nthread. \<not> past (ph_pc (ph_threads s u)))"
      then have "{u. u < nthread \<and> past (ph_pc (ph_threads s u))} = {..<nthread}" by auto
      then show False using True ph_invD(5) [OF inv] by simp
    qed
    then obtain u where u: "u < nthread" "\<not> past (ph_pc (ph_threads s u))" by blast
    show ?thesis
    proof (cases "\<exists>e. ph_pc (ph_threads s u) = Put_lock e")
      case False
      with u show ?thesis by (intro ph_thread_goes_on [OF inv u(1)]) (auto simp: past_def)
    qed (use ph_lock_or_owner [OF inv u(1)] in blast)
  next
    case False
    then show ?thesis using ph_thread_goes_on [OF inv assms(4,5)] ph_lock_or_owner [OF inv assms(4)] by blast
  qed
qed

theorem ph_never_stuck_witness: "\<exists>s'. ph_step 2 (\<lambda>i. i + 3) ph_init s'"
  by (rule ph_never_stuck [OF rtranclp.rtrancl_refl, of 2 0]) (simp_all add: ph_init_def NKEYS_def)

end
