(* ===== verification/Fd.thy ===== *)
theory Fd
  imports Fork
begin

text \<open>
  File descriptors, \<^verbatim>\<open>lib/fd.c\<close>: descriptor \<open>i\<close> of a process is open when the \<open>i\<close>-th page at \<open>FDTABLE\<close> is mapped, and
  is shared by mapping that page again. The state is the kernel's, in which the running environment is the process. The
  table of the devices is an argument: like the \<open>struct Dev\<close> of \<^verbatim>\<open>inc/fd.h\<close> an entry holds the operations of a device, which may be
  missing and act on the same state. Filling in the \<open>struct Stat\<close> of a caller is left out.
\<close>

section \<open>Descriptors and devices\<close>

definition MAXFD :: nat where "MAXFD = 32"
definition FDTABLE :: u32 where "FDTABLE = 0xD0000000"
definition FILEDATA :: u32 where "FILEDATA = FDTABLE + word_of_nat MAXFD * PGSIZE"

definition INDEX2FD :: "u32 \<Rightarrow> u32" where
  "INDEX2FD i = FDTABLE + i * PGSIZE"

definition INDEX2DATA :: "u32 \<Rightarrow> u32" where
  "INDEX2DATA i = FILEDATA + i * PGSIZE"

text \<open>Access modes, \<^verbatim>\<open>inc/lib.h\<close>.\<close>

definition FD_RDONLY :: u32 where "FD_RDONLY = 0"
definition FD_WRONLY :: u32 where "FD_WRONLY = 1"
definition FD_ACCMODE :: u32 where "FD_ACCMODE = 3"

type_synonym 'k fd_op = "u32 \<Rightarrow> u32 \<Rightarrow> u32 \<Rightarrow> 'k \<Rightarrow> (sysres \<times> 'k) option"

record 'k dev =
  dev_id :: u32
  dev_read :: "'k fd_op option"
  dev_write :: "'k fd_op option"
  dev_close :: "(u32 \<Rightarrow> 'k \<Rightarrow> (sysres \<times> 'k) option) option"
  dev_trunc :: "(u32 \<Rightarrow> u32 \<Rightarrow> 'k \<Rightarrow> (sysres \<times> 'k) option) option"

text \<open>A word of the process's memory; the fields of a \<open>struct Fd\<close> are the first words of its page.\<close>

definition user_word :: "u32 \<Rightarrow> 'z kernel_scheme \<Rightarrow> u32 option" where
  "user_word va k = do {
     d \<leftarrow> own_dir k;
     p \<leftarrow> user_frame d va False k;
     Some (phys k p (unat (va AND 0xFFF) div 4))
   }"

definition set_user_word :: "u32 \<Rightarrow> u32 \<Rightarrow> 'z kernel_scheme \<Rightarrow> 'z kernel_scheme option" where
  "set_user_word va w k = do {
     d \<leftarrow> own_dir k;
     p \<leftarrow> user_frame d va True k;
     Some (k\<lparr>phys := (phys k)(p := (phys k p)(unat (va AND 0xFFF) div 4 := w))\<rparr>)
   }"

definition fd_dev_id :: "u32 \<Rightarrow> 'z kernel_scheme \<Rightarrow> u32 option" where
  "fd_dev_id fd = user_word fd"

definition fd_omode :: "u32 \<Rightarrow> 'z kernel_scheme \<Rightarrow> u32 option" where
  "fd_omode fd = user_word (fd + 8)"

section \<open>Manipulating descriptors\<close>

definition fd2num :: "u32 \<Rightarrow> u32" where
  "fd2num fd = (fd - FDTABLE) div PGSIZE"

definition fd2data :: "u32 \<Rightarrow> u32" where
  "fd2data fd = INDEX2DATA (fd2num fd)"

text \<open>The test of \<open>uvpd\<close> and \<open>uvpt\<close>.\<close>

definition page_mapped :: "u32 \<Rightarrow> 'z kernel_scheme \<Rightarrow> bool option" where
  "page_mapped va k = do {
     d \<leftarrow> own_dir k;
     if present (uvpd d (PDX va) k) then map_option (\<lambda>e. present e) (uvpt d (PGNUM va) k)
     else Some False
   }"

fun fd_alloc_loop :: "nat \<Rightarrow> u32 \<Rightarrow> 'z kernel_scheme \<Rightarrow> sysres option" where
  "fd_alloc_loop 0 i k = Some (Inl E_MAX_OPEN)"
| "fd_alloc_loop (Suc n) i k = do {
     m \<leftarrow> page_mapped (INDEX2FD i) k;
     if \<not> m then Some (Inr (INDEX2FD i)) else fd_alloc_loop n (i + 1) k
   }"

definition fd_alloc :: "'z kernel_scheme \<Rightarrow> sysres option" where
  "fd_alloc k = fd_alloc_loop MAXFD 0 k"

definition fd_lookup :: "u32 \<Rightarrow> 'z kernel_scheme \<Rightarrow> sysres option" where
  "fd_lookup fdnum k =
    (if sint fdnum < 0 \<or> sint fdnum \<ge> int MAXFD then Some (Inl E_INVAL)
     else do {
       m \<leftarrow> page_mapped (INDEX2FD fdnum) k;
       Some (if \<not> m then Inl E_INVAL else Inr (INDEX2FD fdnum))
     })"

definition dev_lookup :: "'k dev list \<Rightarrow> u32 \<Rightarrow> jos_error + 'k dev" where
  "dev_lookup devtab i = (case find (\<lambda>d. dev_id d = i) devtab of None \<Rightarrow> Inl E_INVAL | Some d \<Rightarrow> Inr d)"

definition fd_close :: "'z kernel_scheme dev list \<Rightarrow> u32 \<Rightarrow> bool \<Rightarrow> 'z kernel_scheme \<Rightarrow> (sysres \<times> 'z kernel_scheme) option" where
  "fd_close devtab fd must_exist k = do {
     r \<leftarrow> fd_lookup (fd2num fd) k;
     case r of
       Inl e \<Rightarrow> Some (if must_exist then Inl e else Inr 0, k)
     | Inr fd2 \<Rightarrow>
         if fd \<noteq> fd2 then Some (Inr 0, k)
         else do {
           i \<leftarrow> fd_dev_id fd k;
           (r, k) \<leftarrow> (case dev_lookup devtab i of
               Inl e \<Rightarrow> Some (Inl e, k)
             | Inr dev \<Rightarrow> (case dev_close dev of None \<Rightarrow> Some (Inr 0, k) | Some f \<Rightarrow> f fd k));
           (_, k) \<leftarrow> sys_page_unmap 0 fd k;
           Some (r, k)
         }
   }"

section \<open>Operations on descriptors\<close>

definition close :: "'z kernel_scheme dev list \<Rightarrow> u32 \<Rightarrow> 'z kernel_scheme \<Rightarrow> (sysres \<times> 'z kernel_scheme) option" where
  "close devtab fdnum k = do {
     r \<leftarrow> fd_lookup fdnum k;
     case r of Inl e \<Rightarrow> Some (Inl e, k) | Inr fd \<Rightarrow> fd_close devtab fd True k
   }"

fun close_from :: "'z kernel_scheme dev list \<Rightarrow> nat \<Rightarrow> u32 \<Rightarrow> 'z kernel_scheme \<Rightarrow> 'z kernel_scheme option" where
  "close_from devtab 0 i k = Some k"
| "close_from devtab (Suc n) i k = do {
     (_, k) \<leftarrow> close devtab i k;
     close_from devtab n (i + 1) k
   }"

definition close_all :: "'z kernel_scheme dev list \<Rightarrow> 'z kernel_scheme \<Rightarrow> 'z kernel_scheme option" where
  "close_all devtab k = close_from devtab MAXFD 0 k"

text \<open>Mapping the page at \<open>src\<close> at \<open>dst\<close> as well, as \<open>dup\<close> does twice.\<close>

definition share_page :: "u32 \<Rightarrow> u32 \<Rightarrow> 'z kernel_scheme \<Rightarrow> (sysres \<times> 'z kernel_scheme) option" where
  "share_page src dst k = do {
     d \<leftarrow> own_dir k;
     pte \<leftarrow> uvpt d (PGNUM src) k;
     sys_page_map 0 src 0 dst (pte AND PTE_SYSCALL) k
   }"

definition dup_failed :: "u32 \<Rightarrow> u32 \<Rightarrow> jos_error \<Rightarrow> 'z kernel_scheme \<Rightarrow> (sysres \<times> 'z kernel_scheme) option" where
  "dup_failed newfd nva e k = do {
     (_, k) \<leftarrow> sys_page_unmap 0 newfd k;
     (_, k) \<leftarrow> sys_page_unmap 0 nva k;
     Some (Inl e, k)
   }"

definition dup :: "'z kernel_scheme dev list \<Rightarrow> u32 \<Rightarrow> u32 \<Rightarrow> 'z kernel_scheme \<Rightarrow> (sysres \<times> 'z kernel_scheme) option" where
  "dup devtab oldfdnum newfdnum k = do {
     r \<leftarrow> fd_lookup oldfdnum k;
     case r of
       Inl e \<Rightarrow> Some (Inl e, k)
     | Inr oldfd \<Rightarrow> do {
         (_, k) \<leftarrow> close devtab newfdnum k;
         let newfd = INDEX2FD newfdnum;
         let ova = fd2data oldfd;
         let nva = fd2data newfd;
         m \<leftarrow> page_mapped ova k;
         (r, k) \<leftarrow> (if m then share_page ova nva k else Some (Inr 0, k));
         case r of
           Inl e \<Rightarrow> dup_failed newfd nva e k
         | Inr _ \<Rightarrow> do {
             (r, k) \<leftarrow> share_page oldfd newfd k;
             case r of
               Inl e \<Rightarrow> dup_failed newfd nva e k
             | Inr _ \<Rightarrow> Some (Inr newfdnum, k)
           }
       }
   }"

text \<open>The descriptor and the device that \<open>read\<close>, \<open>write\<close> and \<open>ftruncate\<close> begin by looking up.\<close>

definition fd_device :: "'k dev list \<Rightarrow> u32 \<Rightarrow> 'z kernel_scheme \<Rightarrow> (jos_error + u32 \<times> 'k dev) option" where
  "fd_device devtab fdnum k = do {
     r \<leftarrow> fd_lookup fdnum k;
     case r of
       Inl e \<Rightarrow> Some (Inl e)
     | Inr fd \<Rightarrow> do {
         i \<leftarrow> fd_dev_id fd k;
         Some (case dev_lookup devtab i of Inl e \<Rightarrow> Inl e | Inr dev \<Rightarrow> Inr (fd, dev))
       }
   }"

definition fd_read :: "'z kernel_scheme dev list \<Rightarrow> u32 \<Rightarrow> u32 \<Rightarrow> u32 \<Rightarrow> 'z kernel_scheme \<Rightarrow> (sysres \<times> 'z kernel_scheme) option" where
  "fd_read devtab fdnum buf n k = do {
     r \<leftarrow> fd_device devtab fdnum k;
     case r of
       Inl e \<Rightarrow> Some (Inl e, k)
     | Inr (fd, dev) \<Rightarrow> do {
         m \<leftarrow> fd_omode fd k;
         if m AND FD_ACCMODE = FD_WRONLY then Some (Inl E_INVAL, k)
         else case dev_read dev of None \<Rightarrow> Some (Inl E_NOT_SUPP, k) | Some f \<Rightarrow> f fd buf n k
       }
   }"

definition fd_write :: "'z kernel_scheme dev list \<Rightarrow> u32 \<Rightarrow> u32 \<Rightarrow> u32 \<Rightarrow> 'z kernel_scheme \<Rightarrow> (sysres \<times> 'z kernel_scheme) option" where
  "fd_write devtab fdnum buf n k = do {
     r \<leftarrow> fd_device devtab fdnum k;
     case r of
       Inl e \<Rightarrow> Some (Inl e, k)
     | Inr (fd, dev) \<Rightarrow> do {
         m \<leftarrow> fd_omode fd k;
         if m AND FD_ACCMODE = FD_RDONLY then Some (Inl E_INVAL, k)
         else case dev_write dev of None \<Rightarrow> Some (Inl E_NOT_SUPP, k) | Some f \<Rightarrow> f fd buf n k
       }
   }"

text \<open>None also where the device returns for ever less than is asked for and never 0.\<close>

partial_function (option) readn_loop ::
    "'z kernel_scheme dev list \<Rightarrow> u32 \<Rightarrow> u32 \<Rightarrow> u32 \<Rightarrow> u32 \<Rightarrow> 'z kernel_scheme \<Rightarrow> (sysres \<times> 'z kernel_scheme) option" where
  "readn_loop devtab fdnum buf n tot k =
    (if tot < n then
       Option.bind (fd_read devtab fdnum (buf + tot) (n - tot) k) (\<lambda>(r, k).
         case r of
           Inl e \<Rightarrow> Some (Inl e, k)
         | Inr m \<Rightarrow> if m = 0 then Some (Inr tot, k) else readn_loop devtab fdnum buf n (tot + m) k)
     else Some (Inr tot, k))"

definition readn :: "'z kernel_scheme dev list \<Rightarrow> u32 \<Rightarrow> u32 \<Rightarrow> u32 \<Rightarrow> 'z kernel_scheme \<Rightarrow> (sysres \<times> 'z kernel_scheme) option" where
  "readn devtab fdnum buf n k = readn_loop devtab fdnum buf n 0 k"

definition seek :: "u32 \<Rightarrow> u32 \<Rightarrow> 'z kernel_scheme \<Rightarrow> (sysres \<times> 'z kernel_scheme) option" where
  "seek fdnum offset k = do {
     r \<leftarrow> fd_lookup fdnum k;
     case r of
       Inl e \<Rightarrow> Some (Inl e, k)
     | Inr fd \<Rightarrow> do { k \<leftarrow> set_user_word (fd + 4) offset k; Some (Inr 0, k) }
   }"

definition ftruncate :: "'z kernel_scheme dev list \<Rightarrow> u32 \<Rightarrow> u32 \<Rightarrow> 'z kernel_scheme \<Rightarrow> (sysres \<times> 'z kernel_scheme) option" where
  "ftruncate devtab fdnum newsize k = do {
     r \<leftarrow> fd_device devtab fdnum k;
     case r of
       Inl e \<Rightarrow> Some (Inl e, k)
     | Inr (fd, dev) \<Rightarrow> do {
         m \<leftarrow> fd_omode fd k;
         if m AND FD_ACCMODE = FD_RDONLY then Some (Inl E_INVAL, k)
         else case dev_trunc dev of None \<Rightarrow> Some (Inl E_NOT_SUPP, k) | Some f \<Rightarrow> f fd newsize k
       }
   }"

end
