(* ===== verification/Fd_Props.thy ===== *)
theory Fd_Props
  imports Fd Fork_Props Demo_Kernel
begin

text \<open>
  What the descriptor operations do to the address space of the process, which is the whole state of the descriptors:
  finding a free one, and sharing one with \<open>dup\<close>.
\<close>

section \<open>The pages of the descriptors\<close>

definition fd_page :: "nat \<Rightarrow> u32" where
  "fd_page m = INDEX2FD (word_of_nat m)"

lemma unat_fd_page: "m < 128 \<Longrightarrow> unat (fd_page m) = 3489660928 + 4096 * m"
  by (simp add: fd_page_def INDEX2FD_def FDTABLE_def PGSIZE_def unat_word_ariths unat_of_nat)

lemma fd_page_number: "m < 128 \<Longrightarrow> unat (PGNUM (fd_page m)) = 851968 + m"
  by (simp add: unat_PGNUM unat_fd_page)

lemma same_fd_page [simp]: "a < 128 \<Longrightarrow> b < 128 \<Longrightarrow> same_page (fd_page a) (fd_page b) \<longleftrightarrow> a = b"
  using fd_page_number [of a] fd_page_number [of b] by (auto simp: word_unat_eq_iff)

lemma fd_page_ok: "m < 128 \<Longrightarrow> fd_page m < UTOP" "m < 128 \<Longrightarrow> \<not> page_offset_bad (fd_page m)" "m < 128 \<Longrightarrow> pdx (fd_page m) = 832"
proof -
  assume m: "m < 128"
  show "fd_page m < UTOP" using m by (simp add: word_less_nat_alt unat_fd_page kdefs)
  have "unat (fd_page m) mod 4096 = 0" using unat_fd_page [OF m] by (simp add: mod_mult_self3)
  then show "\<not> page_offset_bad (fd_page m)" by (rule aligned_page)
  show "pdx (fd_page m) = 832" using m unfolding pdx_div unat_fd_page [OF m] by (intro div_nat_eqI) simp_all
qed

lemma data_page: "m < 96 \<Longrightarrow> INDEX2DATA (word_of_nat m) = fd_page (m + 32)"
  by (simp add: fd_page_def INDEX2DATA_def INDEX2FD_def FILEDATA_def FDTABLE_def MAXFD_def PGSIZE_def algebra_simps)

lemma fd2num_page: "m < 128 \<Longrightarrow> fd2num (fd_page m) = word_of_nat m"
proof -
  assume m: "m < 128"
  have "unat (word_of_nat m * PGSIZE) = 4096 * m" using m by (simp add: PGSIZE_def unat_word_ariths unat_of_nat)
  then have "unat (fd2num (fd_page m)) = m" by (simp add: fd2num_def fd_page_def INDEX2FD_def unat_div PGSIZE_def)
  then show ?thesis using m by (simp add: word_unat_eq_iff unat_of_nat)
qed

lemma fd2data_page: "m < 96 \<Longrightarrow> fd2data (fd_page m) = fd_page (m + 32)"
  by (simp add: fd2data_def fd2num_page data_page)

lemma page_mapped_user: "own_dir k = Some d \<Longrightarrow> page_mapped va k = Some (user_pte k d va \<noteq> None)"
  using uvpt_mapped [of k d va] uvpt_unmapped [of k d va] by (cases "user_pte k d va") (auto simp: page_mapped_def)

lemma fd_lookup_exact:
  assumes "own_dir k = Some d" "m < 128"
  shows "fd_lookup (word_of_nat m) k =
    Some (if m < 32 \<and> user_pte k d (fd_page m) \<noteq> None then Inr (fd_page m) else Inl E_INVAL)"
proof -
  have "sint (word_of_nat m :: u32) = int m" using assms(2) by (simp add: sint_uint uint_nat unat_of_nat signed_take_bit_int_eq_self)
  then show ?thesis using assms by (simp add: fd_lookup_def page_mapped_user MAXFD_def fd_page_def)
qed

section \<open>Finding a free descriptor\<close>

lemma fd_alloc_loop_find:
  assumes "own_dir k = Some d"
  shows "fd_alloc_loop n (word_of_nat i) k =
    Some (case find (\<lambda>j. user_pte k d (fd_page j) = None) [i..<i + n] of None \<Rightarrow> Inl E_MAX_OPEN | Some j \<Rightarrow> Inr (fd_page j))"
proof (induction n arbitrary: i)
  case (Suc n)
  have "[i..<i + Suc n] = i # [Suc i..<Suc i + n]" by (simp add: upt_conv_Cons)
  then show ?case
    using Suc.IH [of "Suc i"] page_mapped_user [OF assms, of "fd_page i"] by (simp add: algebra_simps fd_page_def)
qed simp

text \<open>
  \<open>fd_alloc\<close> always returns: the page of the lowest descriptor that is not open or, when all 32 are, the error. The lowest
  free one is what \<open>open\<close> and \<open>pipe\<close> hand out and what the shell relies on when it closes 0 to reopen it.
\<close>

theorem fd_alloc_lowest:
  assumes "own_dir k = Some d"
  shows "fd_alloc k =
    Some (if \<forall>j<32. user_pte k d (INDEX2FD (word_of_nat j)) \<noteq> None then Inl E_MAX_OPEN
      else Inr (INDEX2FD (word_of_nat (LEAST j. user_pte k d (INDEX2FD (word_of_nat j)) = None))))"
proof -
  let ?P = "\<lambda>j. user_pte k d (fd_page j) = None"
  have f: "fd_alloc k = Some (case find ?P [0..<32] of None \<Rightarrow> Inl E_MAX_OPEN | Some j \<Rightarrow> Inr (fd_page j))"
    using fd_alloc_loop_find [OF assms, of 32 0] by (simp add: fd_alloc_def MAXFD_def)
  show ?thesis
    unfolding fd_page_def [symmetric]
  proof (cases "find ?P [0..<32]")
    case None
    then have "\<forall>j<32. \<not> ?P j" by (simp add: find_None_iff)
    then show "fd_alloc k = Some (if \<forall>j<32. \<not> ?P j then Inl E_MAX_OPEN else Inr (fd_page (LEAST j. ?P j)))"
      using f None by simp
  next
    case (Some j)
    then have j: "j < 32" "?P j" "\<forall>i<j. \<not> ?P i" by (auto simp: find_Some_iff)
    then have "(LEAST j. ?P j) = j" by (intro Least_equality) (auto simp: not_less [symmetric])
    then show "fd_alloc k = Some (if \<forall>j<32. \<not> ?P j then Inl E_MAX_OPEN else Inr (fd_page (LEAST j. ?P j)))"
      using f Some j(1,2) by auto
  qed
qed

section \<open>Sharing a descriptor\<close>

definition shared_entry :: "u32 \<Rightarrow> u32" where
  "shared_entry e = page2pa (ppn_of e) OR PTE_FLAGS e OR PTE_P"

lemma flags_valid: "present e \<Longrightarrow> e AND PTE_U \<noteq> 0 \<Longrightarrow> \<not> perm_invalid (PTE_FLAGS e)"
  unfolding perm_invalid_def PTE_FLAGS_def PTE_SYSCALL_mask by (simp add: PTE_P_def PTE_U_def and.assoc)

lemma flags_write: "PTE_FLAGS e AND PTE_W \<noteq> 0 \<Longrightarrow> e AND PTE_W \<noteq> 0"
  by (auto simp: PTE_FLAGS_def PTE_SYSCALL_mask PTE_W_def and.assoc)

lemma share_page_ok:
  assumes inv: "kinv k held ps fs" and c: "curenv k = Some c" "live k c" "env_pgdir (envs k c) = Some d"
    and a: "a < 128" "user_pte k d (fd_page a) = Some e" "e AND PTE_U \<noteq> 0" "unat (pref k (ppn_of e)) < 65535" and b: "b < 128"
  shows "\<exists>k' ps'. share_page (fd_page a) (fd_page b) k = Some (Inr 0, k') \<and> kinv k' held ps' fs \<and> same_envs k k' \<and>
    (\<forall>q. unat (pref k' q) \<le> Suc (unat (pref k q))) \<and>
    (\<forall>x\<in>dirs k. \<forall>w<UTOP. user_pte k' x w =
      (if x = d \<and> same_page w (fd_page b) then Some (shared_entry e) else user_pte k x w))"
proof -
  have i: "envid2env 0 True k = Some (Inr (Some c))" using own_id [of k] c(1) by simp
  have u: "uvpt d (PGNUM (fd_page a)) k = Some e" "present e" using uvpt_mapped [OF a(2)] by auto
  have "present (phys k d (pdx (fd_page a)))" using a(2) by (auto simp: user_pte_def split: option.splits)
  then have p: "ps \<noteq> [] \<or> present (phys k d (pdx (fd_page b)))" using fd_page_ok(3) a(1) b by simp
  note run = page_map_runs [OF inv i c(2,3) i c(2,3) fd_page_ok(1) [OF a(1)] fd_page_ok(1) [OF b] fd_page_ok(2) [OF a(1)]
      fd_page_ok(2) [OF b] flags_valid [OF u(2) a(3)] a(2) impI [OF flags_write] p a(4)]
  have "share_page (fd_page a) (fd_page b) k = sys_page_map 0 (fd_page a) 0 (fd_page b) (PTE_FLAGS e) k"
    using u(1) c by (simp add: share_page_def own_dir_def PTE_FLAGS_def)
  then show ?thesis using run unfolding shared_entry_def by auto
qed

lemma dup_runs:
  assumes inv: "kinv k held ps fs" and c: "curenv k = Some c" "live k c" "env_pgdir (envs k c) = Some d"
    and i: "i < 32" "user_pte k d (fd_page i) = Some e" "e AND PTE_U \<noteq> 0" "unat (pref k (ppn_of e)) + 1 < 65535"
    and a: "\<forall>a. user_pte k d (fd_page (i + 32)) = Some a \<longrightarrow> a AND PTE_U \<noteq> 0 \<and> unat (pref k (ppn_of a)) + 1 < 65535"
    and j: "j < 96" "j \<noteq> i" "32 \<le> j \<or> user_pte k d (fd_page j) = None"
  shows "\<exists>k' ps'. dup devtab (word_of_nat i) (word_of_nat j) k = Some (Inr (word_of_nat j), k') \<and> kinv k' held ps' fs \<and>
    same_envs k k' \<and> (\<forall>x\<in>dirs k. \<forall>w<UTOP. user_pte k' x w =
      (if x = d \<and> same_page w (fd_page j) then Some (shared_entry e)
       else if x = d \<and> same_page w (fd_page (j + 32)) \<and> user_pte k d (fd_page (i + 32)) \<noteq> None
       then map_option shared_entry (user_pte k d (fd_page (i + 32))) else user_pte k x w))"
proof -
  have own: "own_dir k = Some d" using c by (simp add: own_dir_def)
  have d: "d \<in> dirs k" by (rule live_pgdir [OF c(2,3)])
  have "fd_lookup (word_of_nat j) k = Some (Inl E_INVAL)" using fd_lookup_exact [OF own, of j] j by auto
  then have cl: "close devtab (word_of_nat j) k = Some (Inl E_INVAL, k)" by (simp add: close_def)
  have lk: "fd_lookup (word_of_nat i) k = Some (Inr (fd_page i))" using fd_lookup_exact [OF own, of i] i by simp
  note addr = fd2data_page [of i] fd2data_page [OF j(1)]
  have run: "dup devtab (word_of_nat i) (word_of_nat j) k = Some (Inr (word_of_nat j), k')"
    if "(if user_pte k d (fd_page (i + 32)) \<noteq> None then share_page (fd_page (i + 32)) (fd_page (j + 32)) k
         else Some (Inr 0, k)) = Some (Inr 0, k1)"
      "share_page (fd_page i) (fd_page j) k1 = Some (Inr 0, k')" for k1 k'
    using that i(1) addr cl lk page_mapped_user [OF own] by (simp add: dup_def fd_page_def [symmetric])
  have "\<exists>k1 ps1. (if user_pte k d (fd_page (i + 32)) \<noteq> None then share_page (fd_page (i + 32)) (fd_page (j + 32)) k
         else Some (Inr 0, k)) = Some (Inr 0, k1) \<and> kinv k1 held ps1 fs \<and> same_envs k k1 \<and>
      (\<forall>q. unat (pref k1 q) \<le> Suc (unat (pref k q))) \<and>
      (\<forall>x\<in>dirs k. \<forall>w<UTOP. user_pte k1 x w =
        (if x = d \<and> same_page w (fd_page (j + 32)) \<and> user_pte k d (fd_page (i + 32)) \<noteq> None
         then map_option shared_entry (user_pte k d (fd_page (i + 32))) else user_pte k x w))"
  proof (cases "user_pte k d (fd_page (i + 32))")
    case None
    then show ?thesis using inv by (intro exI [of _ k] exI [of _ ps]) simp
  next
    case (Some x)
    have "x AND PTE_U \<noteq> 0" "unat (pref k (ppn_of x)) < 65535" using a Some by auto
    from share_page_ok [OF inv c _ Some this, of "j + 32"] i(1) j(1)
    obtain k1 ps1 where "share_page (fd_page (i + 32)) (fd_page (j + 32)) k = Some (Inr 0, k1)" "kinv k1 held ps1 fs" "same_envs k k1"
        "\<forall>q. unat (pref k1 q) \<le> Suc (unat (pref k q))"
        "\<forall>y\<in>dirs k. \<forall>w<UTOP. user_pte k1 y w =
          (if y = d \<and> same_page w (fd_page (j + 32)) then Some (shared_entry x) else user_pte k y w)"
      by auto
    then show ?thesis using Some by (intro exI [of _ k1] exI [of _ ps1]) simp
  qed
  then obtain k1 ps1 where k1: "(if user_pte k d (fd_page (i + 32)) \<noteq> None then share_page (fd_page (i + 32)) (fd_page (j + 32)) k
         else Some (Inr 0, k)) = Some (Inr 0, k1)" "kinv k1 held ps1 fs" "same_envs k k1"
      "\<forall>q. unat (pref k1 q) \<le> Suc (unat (pref k q))"
      "\<forall>x\<in>dirs k. \<forall>w<UTOP. user_pte k1 x w =
        (if x = d \<and> same_page w (fd_page (j + 32)) \<and> user_pte k d (fd_page (i + 32)) \<noteq> None
         then map_option shared_entry (user_pte k d (fd_page (i + 32))) else user_pte k x w)"
    by blast
  have c1: "curenv k1 = Some c" "live k1 c" "env_pgdir (envs k1 c) = Some d" "dirs k1 = dirs k"
    using same_envs_ids [OF k1(3)] same_envs_dirs [OF k1(3)] k1(3) c by (simp_all add: same_envs_def live_def)
  have e1: "user_pte k1 d (fd_page i) = Some e" using k1(5) d i(1,2) j(1) fd_page_ok(1) [of i] by auto
  have "unat (pref k1 (ppn_of e)) < 65535" using k1(4) [rule_format, of "ppn_of e"] i(4) by simp
  from share_page_ok [OF k1(2) c1(1-3) _ e1 i(3) this, of j] i(1) j(1)
  obtain k' ps' where k': "share_page (fd_page i) (fd_page j) k1 = Some (Inr 0, k')" "kinv k' held ps' fs" "same_envs k1 k'"
      "\<forall>x\<in>dirs k1. \<forall>w<UTOP. user_pte k' x w =
        (if x = d \<and> same_page w (fd_page j) then Some (shared_entry e) else user_pte k1 x w)"
    by auto
  have "user_pte k' x w =
      (if x = d \<and> same_page w (fd_page j) then Some (shared_entry e)
       else if x = d \<and> same_page w (fd_page (j + 32)) \<and> user_pte k d (fd_page (i + 32)) \<noteq> None
       then map_option shared_entry (user_pte k d (fd_page (i + 32))) else user_pte k x w)" if "x \<in> dirs k" "w < UTOP" for x w
    using k'(4) [unfolded c1(4), rule_format, OF that] k1(5) [rule_format, OF that] by argo
  then show ?thesis using run [OF k1(1) k'(1)] k'(2) same_envs_trans [OF k1(3) k'(3)] by blast
qed

text \<open>
  C23: \<open>dup\<close> of an open descriptor \<open>i\<close> to one \<open>j\<close> that is not open, both below \<open>MAXFD\<close>, succeeds, provided that the process
  may access the page of the descriptor and its data page (\<open>PTE_U\<close>) and that the 16-bit reference count of neither is within two of its
  maximum, where it would wrap: \<open>j\<close> then maps the very page that \<open>i\<close> maps, so that they have one file offset, and likewise the
  data page next to it, each with the permissions of the original; no other mapping of any process changes.
\<close>

theorem dup_shares_descriptor:
  assumes inv: "kinv k held ps fs" and c: "curenv k = Some c" "live k c" "env_pgdir (envs k c) = Some d"
    and i: "i < 32" "user_pte k d (INDEX2FD (word_of_nat i)) = Some e" "e AND PTE_U \<noteq> 0" "unat (pref k (ppn_of e)) + 1 < 65535"
    and a: "\<forall>a. user_pte k d (INDEX2DATA (word_of_nat i)) = Some a \<longrightarrow> a AND PTE_U \<noteq> 0 \<and> unat (pref k (ppn_of a)) + 1 < 65535"
    and j: "j < 32" "user_pte k d (INDEX2FD (word_of_nat j)) = None"
  shows "\<exists>k' ps'. dup devtab (word_of_nat i) (word_of_nat j) k = Some (Inr (word_of_nat j), k') \<and> kinv k' held ps' fs \<and>
    (\<forall>x\<in>dirs k. \<forall>w<UTOP. user_pte k' x w =
      (if x = d \<and> same_page w (INDEX2FD (word_of_nat j))
       then Some (page2pa (ppn_of e) OR PTE_FLAGS e OR PTE_P)
       else if x = d \<and> same_page w (INDEX2DATA (word_of_nat j)) \<and> user_pte k d (INDEX2DATA (word_of_nat i)) \<noteq> None
       then map_option (\<lambda>a. page2pa (ppn_of a) OR PTE_FLAGS a OR PTE_P) (user_pte k d (INDEX2DATA (word_of_nat i)))
       else user_pte k x w))"
proof -
  have data: "INDEX2DATA (word_of_nat i) = fd_page (i + 32)" "INDEX2DATA (word_of_nat j) = fd_page (j + 32)"
    using i(1) j(1) by (simp_all add: data_page)
  have ne: "j \<noteq> i" "j < 96" using i(2) j by auto
  have sh: "(\<lambda>a. page2pa (ppn_of a) OR PTE_FLAGS a OR PTE_P) = shared_entry" by (simp add: shared_entry_def fun_eq_iff)
  show ?thesis
    unfolding data sh fd_page_def [symmetric] shared_entry_def [symmetric]
    using dup_runs [OF inv c i(1) _ i(3,4) _ ne(2,1), of devtab] i(2) a j(2) unfolding data fd_page_def [symmetric] by blast
qed

text \<open>
  \<open>dup\<close> does not check the number of the new descriptor. For \<open>32 + m\<close> it succeeds, and maps the page of the
  descriptor at the place of the data page of descriptor \<open>m\<close>, a pipe's buffer for instance.
\<close>

theorem dup_out_of_range:
  assumes inv: "kinv k held ps fs" and c: "curenv k = Some c" "live k c" "env_pgdir (envs k c) = Some d"
    and i: "i < 32" "user_pte k d (INDEX2FD (word_of_nat i)) = Some e" "e AND PTE_U \<noteq> 0" "unat (pref k (ppn_of e)) + 1 < 65535"
    and a: "user_pte k d (INDEX2DATA (word_of_nat i)) = None" and m: "m < 32"
  shows "\<exists>k' ps'. dup devtab (word_of_nat i) (word_of_nat (32 + m)) k = Some (Inr (word_of_nat (32 + m)), k') \<and>
    kinv k' held ps' fs \<and> user_pte k' d (INDEX2DATA (word_of_nat m)) = Some (page2pa (ppn_of e) OR PTE_FLAGS e OR PTE_P)"
proof -
  have data: "INDEX2DATA (word_of_nat i) = fd_page (i + 32)" "INDEX2DATA (word_of_nat m) = fd_page (32 + m)"
    using i(1) m by (simp_all add: data_page add.commute)
  have ne: "32 + m < 96" "32 + m \<noteq> i" "32 \<le> 32 + m" using i(1) m by simp_all
  have d: "d \<in> dirs k" by (rule live_pgdir [OF c(2,3)])
  have "fd_page (32 + m) < UTOP" using fd_page_ok(1) [of "32 + m"] m by simp
  then show ?thesis
    using dup_runs [OF inv c i(1) _ i(3,4) _ ne(1,2) disjI1 [OF ne(3)], of devtab] i(2) a d
    unfolding data fd_page_def [symmetric] shared_entry_def [symmetric] by auto
qed

section \<open>The operations on the concrete kernel\<close>

lemma demo_fd_unmapped: "m < 128 \<Longrightarrow> user_pte demo_kernel 5 (fd_page m) = None"
  by (simp add: user_pte_def demo_target fd_page_ok(3))

theorem fd_alloc_lowest_witness: "fd_alloc demo_kernel = Some (Inr 0xD0000000)"
proof -
  have own: "own_dir demo_kernel = Some 5" by (simp add: own_dir_def)
  have free: "user_pte demo_kernel 5 (INDEX2FD (word_of_nat 0)) = None"
    using demo_fd_unmapped [of 0] unfolding fd_page_def by simp
  then have "(LEAST j. user_pte demo_kernel 5 (INDEX2FD (word_of_nat j)) = None) = 0" by (rule Least_eq_0)
  moreover have "\<not> (\<forall>j<32. user_pte demo_kernel 5 (INDEX2FD (word_of_nat j)) \<noteq> None)" using free by force
  ultimately show ?thesis using fd_alloc_lowest [OF own] by (simp add: INDEX2FD_def FDTABLE_def)
qed

text \<open>Descriptor 0 of the running environment is opened by mapping its page at \<open>0x800000\<close> in the table.\<close>

lemma demo_fd:
  "\<exists>k ps. sys_page_map 0 0x800000 0 0xD0000000 7 demo_kernel = Some (Inr 0, k) \<and> kinv k demo_kheld ps [2..<1024] \<and>
     curenv k = Some 0 \<and> live k 0 \<and> env_pgdir (envs k 0) = Some 5 \<and> dirs k = {5, 6} \<and> user_pte k 5 (fd_page 0) = Some 0x4007 \<and>
     (\<forall>m<128. 0 < m \<longrightarrow> user_pte k 5 (fd_page m) = None) \<and> unat (pref k 4) + 1 < 65535"
proof -
  have f0: "fd_page 0 = 0xD0000000" by (simp add: fd_page_def INDEX2FD_def FDTABLE_def)
  have mem: "[2, 3, 8] \<noteq> ([] :: nat list) \<or> present (phys demo_kernel 5 (pdx (fd_page 0)))" by simp
  have w: "7 AND PTE_W \<noteq> 0 \<longrightarrow> 0x4007 AND PTE_W \<noteq> 0" by (simp add: PTE_W_def)
  obtain k ps where k: "sys_page_map 0 0x800000 0 (fd_page 0) 7 demo_kernel = Some (Inr 0, k)"
    "kinv k demo_kheld ps [2..<1024]" "same_envs demo_kernel k" "\<forall>q. unat (pref k q) \<le> Suc (unat (pref demo_kernel q))"
    "\<forall>d'\<in>dirs demo_kernel. \<forall>va'<UTOP. user_pte k d' va' =
       (if d' = 5 \<and> same_page va' (fd_page 0) then Some (page2pa (ppn_of 0x4007) OR 7 OR PTE_P)
        else user_pte demo_kernel d' va')"
    using page_map_runs [OF demo_kinv demo_ids(2) demo_map(1,2) demo_ids(2) demo_map(1,2) demo_perms(6) fd_page_ok(1) demo_perms(3)
        fd_page_ok(2) demo_perms(1) demo_user_pte w mem demo_map(7)] by auto
  have "user_pte k 5 (fd_page m) = (if m = 0 then Some 0x4007 else None)" if "m < 128" for m
  proof -
    have "same_page (fd_page m) (fd_page 0) \<longleftrightarrow> m = 0" using that by simp
    moreover have "page2pa (ppn_of 0x4007) OR 7 OR PTE_P = 0x4007"
      by (simp add: page2pa_def PGSHIFT_def PTE_P_def demo_map(8))
    ultimately show ?thesis using k(5) fd_page_ok(1) [OF that] demo_fd_unmapped [OF that] by (simp add: demo_dirs)
  qed
  moreover have "unat (pref demo_kernel 4) = 1" by (simp add: demo_pages_def)
  then have "unat (pref k 4) + 1 < 65535" using k(4) [rule_format, of 4] by simp
  moreover have "curenv k = Some 0" "live k 0" "env_pgdir (envs k 0) = Some 5" "dirs k = {5, 6}"
    using same_envs_ids [OF k(3)] same_envs_dirs [OF k(3)] k(3) demo_map(1) by (simp_all add: same_envs_def live_def demo_dirs)
  ultimately show ?thesis
    using k(1,2) unfolding f0 by (intro exI [of _ k] exI [of _ ps] conjI) (assumption | simp add: f0 [symmetric])+
qed

lemma demo_fd_entry: "(0x4007 :: u32) AND PTE_U \<noteq> 0" "ppn_of 0x4007 = 4" "page2pa 4 OR PTE_FLAGS 0x4007 OR PTE_P = 0x4007"
  by (simp_all add: demo_map(8) kdefs PTE_FLAGS_def page2pa_def PGSHIFT_def)

theorem dup_shares_descriptor_witness:
  "\<exists>k k'. sys_page_map 0 0x800000 0 0xD0000000 7 demo_kernel = Some (Inr 0, k) \<and>
     dup [] 0 5 k = Some (Inr 5, k') \<and> user_pte k' 5 0xD0005000 = Some 0x4007"
proof -
  obtain k ps where k: "sys_page_map 0 0x800000 0 0xD0000000 7 demo_kernel = Some (Inr 0, k)" "kinv k demo_kheld ps [2..<1024]"
    "curenv k = Some 0" "live k 0" "env_pgdir (envs k 0) = Some 5" "dirs k = {5, 6}" "user_pte k 5 (fd_page 0) = Some 0x4007"
    "\<forall>m<128. 0 < m \<longrightarrow> user_pte k 5 (fd_page m) = None" "unat (pref k 4) + 1 < 65535"
    using demo_fd by blast
  have none: "user_pte k 5 (INDEX2DATA (word_of_nat 0)) = None" "user_pte k 5 (INDEX2FD (word_of_nat 5)) = None"
    using k(8) [rule_format, of 32] k(8) [rule_format, of 5] data_page [of 0] by (simp_all add: fd_page_def)
  have r: "unat (pref k (ppn_of 0x4007)) + 1 < 65535" using k(9) demo_fd_entry(2) by simp
  have a: "\<forall>a. user_pte k 5 (INDEX2DATA (word_of_nat 0)) = Some a \<longrightarrow> a AND PTE_U \<noteq> 0 \<and> unat (pref k (ppn_of a)) + 1 < 65535"
    using none(1) by simp
  from dup_shares_descriptor [OF k(2-5) _ k(7) [unfolded fd_page_def] demo_fd_entry(1) r a _ none(2), of "[]"]
  obtain k' where k': "dup [] 0 5 k = Some (Inr 5, k')" "\<forall>x\<in>dirs k. \<forall>w<UTOP. user_pte k' x w =
      (if x = 5 \<and> same_page w (INDEX2FD 5) then Some (page2pa (ppn_of 0x4007) OR PTE_FLAGS 0x4007 OR PTE_P)
       else user_pte k x w)"
    using none(1) by auto
  have "INDEX2FD 5 = 0xD0005000" "(0xD0005000 :: u32) < UTOP" by (simp_all add: INDEX2FD_def kdefs FDTABLE_def)
  then have "user_pte k' 5 0xD0005000 = Some 0x4007" using k'(2) k(6) demo_fd_entry(2,3) by simp
  then show ?thesis using k(1) k'(1) by blast
qed

theorem dup_out_of_range_witness:
  "\<exists>k k'. sys_page_map 0 0x800000 0 0xD0000000 7 demo_kernel = Some (Inr 0, k) \<and>
     dup [] 0 35 k = Some (Inr 35, k') \<and> user_pte k' 5 (INDEX2DATA 3) = Some 0x4007"
proof -
  obtain k ps where k: "sys_page_map 0 0x800000 0 0xD0000000 7 demo_kernel = Some (Inr 0, k)" "kinv k demo_kheld ps [2..<1024]"
    "curenv k = Some 0" "live k 0" "env_pgdir (envs k 0) = Some 5" "dirs k = {5, 6}" "user_pte k 5 (fd_page 0) = Some 0x4007"
    "\<forall>m<128. 0 < m \<longrightarrow> user_pte k 5 (fd_page m) = None" "unat (pref k 4) + 1 < 65535"
    using demo_fd by blast
  have none: "user_pte k 5 (INDEX2DATA (word_of_nat 0)) = None" using k(8) data_page [of 0] by simp
  have r: "unat (pref k (ppn_of 0x4007)) + 1 < 65535" using k(9) demo_fd_entry(2) by simp
  from dup_out_of_range [OF k(2-5) _ k(7) [unfolded fd_page_def] demo_fd_entry(1) r none, of 3 "[]"]
  show ?thesis using k(1) demo_fd_entry(2,3) by auto
qed

end
