(* ===== verification/Pipe_Open.thy ===== *)
theory Pipe_Open
  imports Fd
begin

text \<open>
  Making a pipe, \<open>pipe\<close> of \<^verbatim>\<open>lib/pipe.c\<close>: two descriptors and one page of data that both map, set up by system
  calls, each of which may fail; what has been mapped by then is unmapped again.
\<close>

definition devpipe_id :: u32 where "devpipe_id = 0x70"

definition PIPE_PERM :: u32 where "PIPE_PERM = PTE_P OR PTE_W OR PTE_U OR PTE_SHARE"

definition set_fd_dev_id :: "u32 \<Rightarrow> u32 \<Rightarrow> 'z kernel_scheme \<Rightarrow> 'z kernel_scheme option" where
  "set_fd_dev_id fd w k = set_user_word fd w k"

definition set_fd_omode :: "u32 \<Rightarrow> u32 \<Rightarrow> 'z kernel_scheme \<Rightarrow> 'z kernel_scheme option" where
  "set_fd_omode fd w k = set_user_word (fd + 8) w k"

text \<open>The labels \<open>err1\<close>, \<open>err2\<close> and \<open>err3\<close>.\<close>

definition pipe_err1 :: "u32 \<Rightarrow> jos_error \<Rightarrow> 'z kernel_scheme \<Rightarrow> ((jos_error + u32 \<times> u32) \<times> 'z kernel_scheme) option" where
  "pipe_err1 fd0 e k = do {
     (_, k) \<leftarrow> sys_page_unmap 0 fd0 k;
     Some (Inl e, k)
   }"

definition pipe_err2 :: "u32 \<Rightarrow> u32 \<Rightarrow> jos_error \<Rightarrow> 'z kernel_scheme \<Rightarrow> ((jos_error + u32 \<times> u32) \<times> 'z kernel_scheme) option" where
  "pipe_err2 fd0 fd1 e k = do {
     (_, k) \<leftarrow> sys_page_unmap 0 fd1 k;
     pipe_err1 fd0 e k
   }"

definition pipe_err3 :: "u32 \<Rightarrow> u32 \<Rightarrow> u32 \<Rightarrow> jos_error \<Rightarrow> 'z kernel_scheme \<Rightarrow> ((jos_error + u32 \<times> u32) \<times> 'z kernel_scheme) option" where
  "pipe_err3 fd0 fd1 va e k = do {
     (_, k) \<leftarrow> sys_page_unmap 0 va k;
     pipe_err2 fd0 fd1 e k
   }"

text \<open>From the comment on the data page, when both descriptor pages are there.\<close>

definition pipe_connect :: "u32 \<Rightarrow> u32 \<Rightarrow> 'z kernel_scheme \<Rightarrow> ((jos_error + u32 \<times> u32) \<times> 'z kernel_scheme) option" where
  "pipe_connect fd0 fd1 k = do {
     let va = fd2data fd0;
     (r, k) \<leftarrow> sys_page_alloc 0 va PIPE_PERM k;
     case r of
       Inl e \<Rightarrow> pipe_err2 fd0 fd1 e k
     | Inr _ \<Rightarrow> do {
         (r, k) \<leftarrow> sys_page_map 0 va 0 (fd2data fd1) PIPE_PERM k;
         case r of
           Inl e \<Rightarrow> pipe_err3 fd0 fd1 va e k
         | Inr _ \<Rightarrow> do {
             k \<leftarrow> set_fd_dev_id fd0 devpipe_id k;
             k \<leftarrow> set_fd_omode fd0 FD_RDONLY k;
             k \<leftarrow> set_fd_dev_id fd1 devpipe_id k;
             k \<leftarrow> set_fd_omode fd1 FD_WRONLY k;
             Some (Inr (fd2num fd0, fd2num fd1), k)
           }
       }
   }"

definition pipe_open :: "'z kernel_scheme \<Rightarrow> ((jos_error + u32 \<times> u32) \<times> 'z kernel_scheme) option" where
  "pipe_open k = do {
     r \<leftarrow> fd_alloc k;
     case r of
       Inl e \<Rightarrow> Some (Inl e, k)
     | Inr fd0 \<Rightarrow> do {
         (r, k) \<leftarrow> sys_page_alloc 0 fd0 PIPE_PERM k;
         case r of
           Inl e \<Rightarrow> Some (Inl e, k)
         | Inr _ \<Rightarrow> do {
             r \<leftarrow> fd_alloc k;
             case r of
               Inl e \<Rightarrow> pipe_err1 fd0 e k
             | Inr fd1 \<Rightarrow> do {
                 (r, k) \<leftarrow> sys_page_alloc 0 fd1 PIPE_PERM k;
                 case r of
                   Inl e \<Rightarrow> pipe_err1 fd0 e k
                 | Inr _ \<Rightarrow> pipe_connect fd0 fd1 k
               }
           }
       }
   }"

end
