(* ===== verification/Pipe_Open_Props.thy ===== *)
theory Pipe_Open_Props
  imports Pipe_Open Fd_Props
begin

text \<open>
  A pipe is made of the two lowest free descriptors and three pages of their own.
\<close>

section \<open>Single steps\<close>

definition ready :: "'z kernel_scheme \<Rightarrow> nat \<Rightarrow> nat \<Rightarrow> (nat \<Rightarrow> nat) \<Rightarrow> nat list \<Rightarrow> nat list \<Rightarrow> bool" where
  "ready k c d held ps fs \<longleftrightarrow> kinv k held ps fs \<and> curenv k = Some c \<and> live k c \<and> env_pgdir (envs k c) = Some d"

lemma readyD:
  assumes "ready k c d held ps fs"
  shows "kinv k held ps fs" "curenv k = Some c" "live k c" "env_pgdir (envs k c) = Some d" "own_dir k = Some d"
    "envid2env 0 True k = Some (Inr (Some c))" "d \<in> dirs k"
  using assms live_pgdir [of k c d] own_id [of k] by (auto simp: ready_def own_dir_def)

lemma ready_same: "ready k c d held ps fs \<Longrightarrow> same_envs k k' \<Longrightarrow> kinv k' held ps' fs \<Longrightarrow> ready k' c d held ps' fs"
  using same_envs_ids [of k k'] by (simp add: ready_def same_envs_def live_def)

definition pipe_entry :: "nat \<Rightarrow> u32" where
  "pipe_entry p = page2pa p OR PIPE_PERM OR PTE_P"

lemma pipe_perm: "\<not> perm_invalid PIPE_PERM" "PIPE_PERM AND NOT 0xFFF = 0" "PIPE_PERM AND PTE_W \<noteq> 0"
  by (simp_all add: perm_invalid_def PIPE_PERM_def PTE_SHARE_def kdefs)

lemma pipe_entry_bits:
  assumes "p < 2 ^ 20"
  shows "ppn_of (pipe_entry p) = p" "pipe_entry p AND PTE_W \<noteq> 0" "pipe_entry p AND PTE_U \<noteq> 0"
proof -
  show "ppn_of (pipe_entry p) = p" unfolding pipe_entry_def by (rule ppn_of_entry [OF assms pipe_perm(2)])
  show "pipe_entry p AND PTE_W \<noteq> 0" unfolding pipe_entry_def entry_write by (rule pipe_perm(3))
  have "bit (pipe_entry p AND PTE_U) 2" by (simp add: pipe_entry_def PIPE_PERM_def kdefs PTE_SHARE_def bit_simps bit_numeral_rec)
  then show "pipe_entry p AND PTE_U \<noteq> 0" by (metis bit_0_eq bot_apply bot_bool_def)
qed

lemma set_word_ok:
  assumes r: "ready k c d held ps fs" and a: "va < UTOP" "user_pte k d va = Some a" "a AND PTE_U \<noteq> 0" "a AND PTE_W \<noteq> 0"
  shows "\<exists>k'. set_user_word va x k = Some k' \<and> ready k' c d held ps fs \<and> same_envs k k' \<and>
    (\<forall>y\<in>dirs k. \<forall>w<UTOP. user_pte k' y w = user_pte k y w) \<and>
    phys k' = (phys k)(ppn_of a := (phys k (ppn_of a))(unat (va AND 0xFFF) div 4 := x))"
proof -
  note R = readyD [OF r]
  note kv = R(1) [unfolded kinv_def, THEN conjunct1]
  note nt = mapped_frame_safe(1) [OF R(1,7) a(1,2)]
  let ?c = "(phys k (ppn_of a))(unat (va AND 0xFFF) div 4 := x)"
  let ?k' = "k\<lparr>phys := (phys k)(ppn_of a := ?c)\<rparr>"
  have run: "set_user_word va x k = Some ?k'"
    using R(5) a(3,4) uvpt_mapped [OF a(2)] by (simp add: set_user_word_def user_frame_def)
  have inv: "kinv ?k' held ps fs" by (rule kinv_write_page [OF R(1) nt])
  have u: "user_pte ?k' y w = user_pte k y w" if "y \<in> dirs k" "w < UTOP" for y w
    by (rule vm_write_frame(2) [OF kv nt _ _ _ _ that]) simp_all
  have "same_envs k ?k'" by simp
  then show ?thesis using run ready_same [OF r _ inv] u by (intro exI [of _ ?k']) simp
qed

lemma fd_fresh:
  assumes r: "ready k c d held ps fs" and m: "m < 128" and mem: "2 \<le> length ps"
  shows "\<exists>k' ps' p. sys_page_alloc 0 (fd_page m) PIPE_PERM k = Some (Inr 0, k') \<and> ready k' c d held ps' fs \<and> same_envs k k' \<and>
    length ps \<le> length ps' + 2 \<and> (\<forall>q. unat (pref k' q) \<le> Suc (unat (pref k q))) \<and> p < 2 ^ 20 \<and> p \<in> set ps \<and> phys k' p = (\<lambda>_. 0) \<and>
    (\<forall>x\<in>dirs k. \<forall>w<UTOP. user_pte k' x w = (if x = d \<and> same_page w (fd_page m) then Some (pipe_entry p) else user_pte k x w)) \<and>
    (\<forall>x\<in>dirs k. \<forall>w<UTOP. \<forall>e. user_pte k x w = Some e \<longrightarrow> phys k' (ppn_of e) = phys k (ppn_of e))"
proof -
  note R = readyD [OF r]
  obtain k' ps' p where k': "sys_page_alloc 0 (fd_page m) PIPE_PERM k = Some (Inr 0, k')" "kinv k' held ps' fs" "same_envs k k'"
    "length ps \<le> length ps' + 2" "\<forall>q. unat (pref k' q) \<le> Suc (unat (pref k q))"
    "\<forall>w<UTOP. same_page w (fd_page m) \<longrightarrow> user_pte k' d w = Some (page2pa p OR PIPE_PERM OR PTE_P)" "p < 2 ^ 20" "p \<in> set ps"
    "phys k' p = (\<lambda>_. 0)" "\<forall>x\<in>dirs k. \<forall>w<UTOP. \<not> (x = d \<and> same_page w (fd_page m)) \<longrightarrow> user_pte k' x w = user_pte k x w"
    "\<forall>x\<in>dirs k. \<forall>w<UTOP. \<forall>e. user_pte k x w = Some e \<longrightarrow> phys k' (ppn_of e) = phys k (ppn_of e)"
    using fresh_page [OF R(1,6,3,4) fd_page_ok(1) [OF m] fd_page_ok(2) [OF m] pipe_perm(1) mem] by blast
  have "user_pte k' x w = (if x = d \<and> same_page w (fd_page m) then Some (pipe_entry p) else user_pte k x w)"
    if "x \<in> dirs k" "w < UTOP" for x w
    using k'(6) [rule_format, OF that(2)] k'(10) [rule_format, OF that] unfolding pipe_entry_def by simp
  then show ?thesis using k' ready_same [OF r k'(3,2)] by blast
qed

lemma fd_alloc_at:
  assumes "own_dir k = Some d" "i < 32" "user_pte k d (fd_page i) = None" "\<forall>m<i. user_pte k d (fd_page m) \<noteq> None"
  shows "fd_alloc k = Some (Inr (fd_page i))"
proof -
  have "find (\<lambda>j. user_pte k d (fd_page j) = None) [0..<32] = Some i"
    using assms(2-4) by (auto simp: find_Some_iff intro!: exI [of _ i])
  then show ?thesis using fd_alloc_loop_find [OF assms(1), of 32 0] by (simp add: fd_alloc_def MAXFD_def)
qed

section \<open>The two descriptors and their data\<close>

text \<open>
  The four pages in the address space of the process, with the frames \<open>p\<close>, \<open>q\<close> and \<open>b\<close>; \<open>f\<close> is what was mapped before.
\<close>

definition pipe_maps :: "nat \<Rightarrow> nat \<Rightarrow> nat \<Rightarrow> nat \<Rightarrow> nat \<Rightarrow> (u32 \<Rightarrow> u32 option) \<Rightarrow> u32 \<Rightarrow> u32 option" where
  "pipe_maps i j p q b f w =
    (if same_page w (fd_page i) then Some (pipe_entry p)
     else if same_page w (fd_page j) then Some (pipe_entry q)
     else if same_page w (fd_page (i + 32)) \<or> same_page w (fd_page (j + 32)) then Some (pipe_entry b) else f w)"

lemma pipe_maps_at:
  assumes "i < 32" "j < 32" "i \<noteq> j"
  shows "pipe_maps i j p q b f (fd_page i) = Some (pipe_entry p)" "pipe_maps i j p q b f (fd_page j) = Some (pipe_entry q)"
    "pipe_maps i j p q b f (fd_page (i + 32)) = Some (pipe_entry b)" "pipe_maps i j p q b f (fd_page (j + 32)) = Some (pipe_entry b)"
  using assms by (simp_all add: pipe_maps_def)

definition pipe_pages :: "nat \<Rightarrow> nat \<Rightarrow> u32 \<Rightarrow> bool" where
  "pipe_pages i j w \<longleftrightarrow> same_page w (fd_page i) \<or> same_page w (fd_page j) \<or> same_page w (fd_page (i + 32)) \<or> same_page w (fd_page (j + 32))"

lemma pipe_maps_other [simp]: "\<not> pipe_pages i j w \<Longrightarrow> pipe_maps i j p q b f w = f w"
  by (simp add: pipe_maps_def pipe_pages_def)

lemma pipe_mapped:
  assumes r: "ready k c d held ps fs" and ij: "i < 32" "j < 32" "i \<noteq> j" and mem: "6 \<le> length ps"
  shows "\<exists>k1 k2 k3 k4 ps4 p q b. sys_page_alloc 0 (fd_page i) PIPE_PERM k = Some (Inr 0, k1) \<and>
    sys_page_alloc 0 (fd_page j) PIPE_PERM k1 = Some (Inr 0, k2) \<and>
    sys_page_alloc 0 (fd_page (i + 32)) PIPE_PERM k2 = Some (Inr 0, k3) \<and>
    sys_page_map 0 (fd_page (i + 32)) 0 (fd_page (j + 32)) PIPE_PERM k3 = Some (Inr 0, k4) \<and> ready k4 c d held ps4 fs \<and>
    own_dir k1 = Some d \<and> same_envs k k4 \<and> distinct [p, q, b] \<and> p < 2 ^ 20 \<and> q < 2 ^ 20 \<and> b < 2 ^ 20 \<and>
    phys k4 p = (\<lambda>_. 0) \<and> phys k4 q = (\<lambda>_. 0) \<and> phys k4 b = (\<lambda>_. 0) \<and>
    (\<forall>w<UTOP. user_pte k1 d w = (if same_page w (fd_page i) then Some (pipe_entry p) else user_pte k d w)) \<and>
    (\<forall>w<UTOP. user_pte k4 d w = pipe_maps i j p q b (user_pte k d) w) \<and>
    (\<forall>x\<in>dirs k. \<forall>w<UTOP. \<not> (x = d \<and> pipe_pages i j w) \<longrightarrow> user_pte k4 x w = user_pte k x w) \<and>
    (\<forall>x\<in>dirs k. \<forall>w<UTOP. \<forall>e. user_pte k x w = Some e \<longrightarrow> \<not> (x = d \<and> pipe_pages i j w) \<longrightarrow>
       ppn_of e \<notin> {p, q, b} \<and> phys k4 (ppn_of e) = phys k (ppn_of e))"
proof -
  have lt: "i < 128" "j < 128" "i + 32 < 128" "j + 32 < 128" using ij by simp_all
  obtain k1 ps1 p where k1: "sys_page_alloc 0 (fd_page i) PIPE_PERM k = Some (Inr 0, k1)" "ready k1 c d held ps1 fs" "same_envs k k1"
    "length ps \<le> length ps1 + 2" "p < 2 ^ 20" "p \<in> set ps" "phys k1 p = (\<lambda>_. 0)"
    "\<forall>x\<in>dirs k. \<forall>w<UTOP. user_pte k1 x w = (if x = d \<and> same_page w (fd_page i) then Some (pipe_entry p) else user_pte k x w)"
    "\<forall>x\<in>dirs k. \<forall>w<UTOP. \<forall>e. user_pte k x w = Some e \<longrightarrow> phys k1 (ppn_of e) = phys k (ppn_of e)"
    using fd_fresh [OF r lt(1)] mem by auto
  obtain k2 ps2 q where k2: "sys_page_alloc 0 (fd_page j) PIPE_PERM k1 = Some (Inr 0, k2)" "ready k2 c d held ps2 fs" "same_envs k1 k2"
    "length ps1 \<le> length ps2 + 2" "q < 2 ^ 20" "q \<in> set ps1" "phys k2 q = (\<lambda>_. 0)"
    "\<forall>x\<in>dirs k1. \<forall>w<UTOP. user_pte k2 x w = (if x = d \<and> same_page w (fd_page j) then Some (pipe_entry q) else user_pte k1 x w)"
    "\<forall>x\<in>dirs k1. \<forall>w<UTOP. \<forall>e. user_pte k1 x w = Some e \<longrightarrow> phys k2 (ppn_of e) = phys k1 (ppn_of e)"
    using fd_fresh [OF k1(2) lt(2)] mem k1(4) by auto
  obtain k3 ps3 b where k3: "sys_page_alloc 0 (fd_page (i + 32)) PIPE_PERM k2 = Some (Inr 0, k3)" "ready k3 c d held ps3 fs" "same_envs k2 k3"
    "\<forall>q. unat (pref k3 q) \<le> Suc (unat (pref k2 q))" "b < 2 ^ 20" "b \<in> set ps2" "phys k3 b = (\<lambda>_. 0)"
    "\<forall>x\<in>dirs k2. \<forall>w<UTOP. user_pte k3 x w = (if x = d \<and> same_page w (fd_page (i + 32)) then Some (pipe_entry b) else user_pte k2 x w)"
    "\<forall>x\<in>dirs k2. \<forall>w<UTOP. \<forall>e. user_pte k2 x w = Some e \<longrightarrow> phys k3 (ppn_of e) = phys k2 (ppn_of e)"
    using fd_fresh [OF k2(2) lt(3)] mem k1(4) k2(4) by auto
  note R = readyD [OF r] and R1 = readyD [OF k1(2)] and R2 = readyD [OF k2(2)] and R3 = readyD [OF k3(2)]
  have D: "dirs k1 = dirs k" "dirs k2 = dirs k" "dirs k3 = dirs k"
    using same_envs_dirs k1(3) k2(3) k3(3) by metis+
  note up = fd_page_ok(1)
  have data: "user_pte k3 d (fd_page (i + 32)) = Some (pipe_entry b)" using k3(8) up [OF lt(3)] R(7) D by simp
  then have "present (phys k3 d (pdx (fd_page (i + 32))))" by (auto simp: user_pte_def split: option.splits)
  then have pde: "ps3 \<noteq> [] \<or> present (phys k3 d (pdx (fd_page (j + 32))))" using fd_page_ok(3) lt by simp
  have "pref k2 b = 0" using k3(6) vm_avail [OF R2(1) [unfolded kinv_def, THEN conjunct1]] by (auto simp: avail_def)
  then have "unat (pref k3 (ppn_of (pipe_entry b))) < 65535"
    using k3(4) [rule_format, of b] pipe_entry_bits(1) [OF k3(5)] by simp
  note run = page_map_runs [OF R3(1,6,3,4,6,3,4) up [OF lt(3)] up [OF lt(4)] fd_page_ok(2) [OF lt(3)] fd_page_ok(2) [OF lt(4)] pipe_perm(1)
      data impI [OF pipe_entry_bits(2) [OF k3(5)]] pde this]
  obtain k4 ps4 where k4: "sys_page_map 0 (fd_page (i + 32)) 0 (fd_page (j + 32)) PIPE_PERM k3 = Some (Inr 0, k4)"
    "kinv k4 held ps4 fs" "same_envs k3 k4" "\<forall>f. \<not> is_table k3 (dirs k3) f \<longrightarrow> f \<notin> set ps3 \<longrightarrow> phys k4 f = phys k3 f"
    "\<forall>x\<in>dirs k3. \<forall>w<UTOP. user_pte k4 x w = (if x = d \<and> same_page w (fd_page (j + 32)) then Some (pipe_entry b) else user_pte k3 x w)"
    using run [unfolded pipe_entry_bits(1) [OF k3(5)], folded pipe_entry_def] by blast
  have keep4: "phys k4 (ppn_of e) = phys k3 (ppn_of e)" if "x \<in> dirs k" "w < UTOP" "user_pte k3 x w = Some e" for x w e
    using k4(4) mapped_frame_safe [OF R3(1) _ that(2,3)] that(1) D by simp
  have P1: "user_pte k1 d (fd_page i) = Some (pipe_entry p)" using k1(8) up [OF lt(1)] R(7) by simp
  then have P2: "user_pte k2 d (fd_page i) = Some (pipe_entry p)" "user_pte k2 d (fd_page j) = Some (pipe_entry q)"
    using k2(8) up [OF lt(1)] up [OF lt(2)] R(7) D ij by simp_all
  then have P3: "user_pte k3 d (fd_page i) = Some (pipe_entry p)" "user_pte k3 d (fd_page j) = Some (pipe_entry q)"
    using k3(8) up [OF lt(1)] up [OF lt(2)] R(7) D ij by simp_all
  note frame = pipe_entry_bits(1) [OF k1(5)] pipe_entry_bits(1) [OF k2(5)] pipe_entry_bits(1) [OF k3(5)]
  have "distinct [p, q, b]"
    using mapped_frame_safe(2) [OF R1(1,7) up [OF lt(1)] P1] mapped_frame_safe(2) [OF R2(1,7) up [OF lt(1)] P2(1)]
      mapped_frame_safe(2) [OF R2(1,7) up [OF lt(2)] P2(2)] k2(6) k3(6) frame by auto
  moreover have "phys k4 p = (\<lambda>_. 0) \<and> phys k4 q = (\<lambda>_. 0) \<and> phys k4 b = (\<lambda>_. 0)"
    using keep4 [OF R(7) up [OF lt(1)] P3(1)] keep4 [OF R(7) up [OF lt(2)] P3(2)] keep4 [OF R(7) up [OF lt(3)] data]
      k3(9) [rule_format, OF _ up [OF lt(1)] P2(1)] k3(9) [rule_format, OF _ up [OF lt(2)] P2(2)]
      k2(9) [rule_format, OF _ up [OF lt(1)] P1] k1(7) k2(7) k3(7) frame D R(7) by simp
  moreover have "user_pte k1 d w = (if same_page w (fd_page i) then Some (pipe_entry p) else user_pte k d w)" if "w < UTOP" for w
    using k1(8) R(7) that by simp
  moreover have "user_pte k4 d w = pipe_maps i j p q b (user_pte k d) w" if "w < UTOP" for w
  proof -
    have ne: "PGNUM (fd_page i) \<noteq> PGNUM (fd_page j)" "PGNUM (fd_page i) \<noteq> PGNUM (fd_page (i + 32))"
      "PGNUM (fd_page i) \<noteq> PGNUM (fd_page (j + 32))" "PGNUM (fd_page j) \<noteq> PGNUM (fd_page (i + 32))"
      "PGNUM (fd_page j) \<noteq> PGNUM (fd_page (j + 32))"
      using lt ij by simp_all
    have d: "d \<in> dirs k1" "d \<in> dirs k2" "d \<in> dirs k3" using R(7) D by simp_all
    show ?thesis
      using k1(8) [rule_format, OF R(7) that] k2(8) [rule_format, OF d(1) that] k3(8) [rule_format, OF d(2) that]
        k4(5) [rule_format, OF d(3) that] ne
      by (cases "same_page w (fd_page i)"; cases "same_page w (fd_page j)"; cases "same_page w (fd_page (i + 32))")
        (simp_all add: pipe_maps_def)
  qed
  moreover have other: "user_pte k3 x w = user_pte k x w \<and> user_pte k2 x w = user_pte k x w \<and> user_pte k1 x w = user_pte k x w \<and> user_pte k4 x w = user_pte k x w"
    if "x \<in> dirs k" "w < UTOP" "\<not> (x = d \<and> pipe_pages i j w)" for x w
    using that k1(8) k2(8) k3(8) k4(5) D unfolding pipe_pages_def by auto
  moreover have "ppn_of e \<notin> {p, q, b} \<and> phys k4 (ppn_of e) = phys k (ppn_of e)"
    if x: "x \<in> dirs k" "w < UTOP" "user_pte k x w = Some e" "\<not> (x = d \<and> pipe_pages i j w)" for x w e
  proof -
    have u: "user_pte k3 x w = Some e" "user_pte k2 x w = Some e" "user_pte k1 x w = Some e" using other [OF x(1,2,4)] x(3) by simp_all
    have dx: "x \<in> dirs k1" "x \<in> dirs k2" using x(1) D by simp_all
    have "ppn_of e \<notin> {p, q, b}"
      using mapped_frame_safe(2) [OF R(1) x(1-3)] mapped_frame_safe(2) [OF R1(1) dx(1) x(2) u(3)]
        mapped_frame_safe(2) [OF R2(1) dx(2) x(2) u(2)] k1(6) k2(6) k3(6) by auto
    then show ?thesis using keep4 [OF x(1,2) u(1)] k3(9) k2(9) k1(9) x u D by simp
  qed
  moreover have "ready k4 c d held ps4 fs" by (rule ready_same [OF k3(2) k4(3,2)])
  moreover have "same_envs k k4" using k1(3) k2(3) k3(3) k4(3) same_envs_trans by blast
  ultimately show ?thesis using k1(1,5) k2(1,5) k3(1,5) k4(1) R1(5) by blast
qed

section \<open>The fields of the descriptors\<close>

lemma fd_field:
  assumes "m < 128"
  shows "same_page (fd_page m + 8) (fd_page m)" "unat (fd_page m AND 0xFFF) = 0" "unat ((fd_page m + 8) AND 0xFFF) = 8" "fd_page m + 8 < UTOP"
proof -
  have u: "unat (fd_page m + 8) = unat (fd_page m) + 8" using unat_fd_page [OF assms] assms by (simp add: unat_word_ariths)
  then have n: "unat (fd_page m + 8) = 4096 * (851968 + m) + 8" using unat_fd_page [OF assms] by simp
  have "unat (fd_page m + 8) div 4096 = 851968 + m" unfolding n by (intro div_nat_eqI) simp_all
  then show "same_page (fd_page m + 8) (fd_page m)"
    using fd_page_number [OF assms] by (simp add: word_unat_eq_iff unat_PGNUM)
  have off: "unat (w AND 0xFFF) = unat w mod 4096" for w :: u32
    unfolding mask12 take_bit_eq_mask [symmetric] unsigned_take_bit_eq by (simp add: take_bit_eq_mod)
  show "unat (fd_page m AND 0xFFF) = 0" unfolding off using unat_fd_page [OF assms] by simp
  show "unat ((fd_page m + 8) AND 0xFFF) = 8" unfolding off n by simp
  show "fd_page m + 8 < UTOP" using n assms by (simp add: word_less_nat_alt kdefs)
qed

lemma set_fields_ok:
  assumes r: "ready k c d held ps fs" and m: "m < 128" and a: "user_pte k d (fd_page m) = Some (pipe_entry p)" "p < 2 ^ 20"
  shows "\<exists>k1 k'. set_fd_dev_id (fd_page m) x k = Some k1 \<and> set_fd_omode (fd_page m) y k1 = Some k' \<and> ready k' c d held ps fs \<and>
    same_envs k k' \<and> (\<forall>z\<in>dirs k. \<forall>w<UTOP. user_pte k' z w = user_pte k z w) \<and>
    phys k' = (phys k)(p := (phys k p)(0 := x, 2 := y))"
proof -
  note e = pipe_entry_bits [OF a(2)] and f = fd_field [OF m]
  obtain k1 where k1: "set_user_word (fd_page m) x k = Some k1" "ready k1 c d held ps fs" "same_envs k k1"
    "\<forall>z\<in>dirs k. \<forall>w<UTOP. user_pte k1 z w = user_pte k z w"
    "phys k1 = (phys k)(p := (phys k p)(0 := x))"
    using set_word_ok [OF r fd_page_ok(1) [OF m] a(1) e(3,2), of x] e(1) f(2) by auto
  have D: "dirs k1 = dirs k" by (rule same_envs_dirs [OF k1(3)])
  have "user_pte k1 d (fd_page m + 8) = Some (pipe_entry p)"
    using user_pte_page [OF f(1), of k1 d] k1(4) readyD(7) [OF r] fd_page_ok(1) [OF m] a(1) by simp
  from set_word_ok [OF k1(2) f(4) this e(3,2), of y]
  obtain k2 where k2: "set_user_word (fd_page m + 8) y k1 = Some k2" "ready k2 c d held ps fs" "same_envs k1 k2"
    "\<forall>z\<in>dirs k1. \<forall>w<UTOP. user_pte k2 z w = user_pte k1 z w"
    "phys k2 = (phys k1)(p := (phys k1 p)(2 := y))"
    using e(1) f(3) by auto
  have "phys k2 = (phys k)(p := (phys k p)(0 := x, 2 := y))" unfolding k2(5) k1(5) by simp
  then show ?thesis
    using k1(1,4) k2(1,2,4) same_envs_trans [OF k1(3) k2(3)] D
    by (intro exI [of _ k1] exI [of _ k2]) (simp add: set_fd_dev_id_def set_fd_omode_def)
qed

text \<open>
  C24: when two descriptors are free, the lowest being \<open>i\<close> and the next one \<open>j\<close>, and there is memory, \<open>pipe\<close> opens these: each gets a page of its own
  that names the device and the direction, and both share one zeroed page, an empty pipe, as their data. Every other
  mapping of every process stays, with its contents, and none refers to one of the three pages.
\<close>

theorem pipe_open_connects:
  assumes inv: "kinv k held ps fs" and c: "curenv k = Some c" "live k c" "env_pgdir (envs k c) = Some d" and mem: "6 \<le> length ps"
    and ij: "i < j" "j < 32" "user_pte k d (INDEX2FD (word_of_nat i)) = None" "user_pte k d (INDEX2FD (word_of_nat j)) = None"
    and low: "\<forall>m<j. m \<noteq> i \<longrightarrow> user_pte k d (INDEX2FD (word_of_nat m)) \<noteq> None"
  shows "\<exists>k' ps' p q b. pipe_open k = Some (Inr (word_of_nat i, word_of_nat j), k') \<and> kinv k' held ps' fs \<and> distinct [p, q, b] \<and>
    (\<forall>w<UTOP. user_pte k' d w =
      (if same_page w (INDEX2FD (word_of_nat i)) then Some (page2pa p OR PIPE_PERM OR PTE_P)
       else if same_page w (INDEX2FD (word_of_nat j)) then Some (page2pa q OR PIPE_PERM OR PTE_P)
       else if same_page w (INDEX2DATA (word_of_nat i)) \<or> same_page w (INDEX2DATA (word_of_nat j))
       then Some (page2pa b OR PIPE_PERM OR PTE_P) else user_pte k d w)) \<and>
    phys k' p 0 = devpipe_id \<and> phys k' p 2 = FD_RDONLY \<and> phys k' q 0 = devpipe_id \<and> phys k' q 2 = FD_WRONLY \<and> phys k' b = (\<lambda>_. 0) \<and>
    (\<forall>x\<in>dirs k. \<forall>w<UTOP. \<forall>e. user_pte k x w = Some e \<longrightarrow> \<not> (x = d \<and> (\<exists>m\<in>{i, j}. same_page w (INDEX2DATA (word_of_nat m)))) \<longrightarrow>
       user_pte k' x w = Some e \<and> ppn_of e \<notin> {p, q, b} \<and> phys k' (ppn_of e) = phys k (ppn_of e))"
proof -
  have lt: "i < 32" "j < 32" "i \<noteq> j" "i < 128" "j < 128" "i < 96" "j < 96" using ij by simp_all
  have data: "INDEX2DATA (word_of_nat i) = fd_page (i + 32)" "INDEX2DATA (word_of_nat j) = fd_page (j + 32)"
    using lt by (simp_all add: data_page)
  note free = ij(3,4) [folded fd_page_def] and low' = low [folded fd_page_def]
  have r: "ready k c d held ps fs" using inv c by (simp add: ready_def)
  note own = readyD(5) [OF r]
  obtain k1 k2 k3 k4 ps4 p q b where k4: "sys_page_alloc 0 (fd_page i) PIPE_PERM k = Some (Inr 0, k1)"
    "sys_page_alloc 0 (fd_page j) PIPE_PERM k1 = Some (Inr 0, k2)"
    "sys_page_alloc 0 (fd_page (i + 32)) PIPE_PERM k2 = Some (Inr 0, k3)"
    "sys_page_map 0 (fd_page (i + 32)) 0 (fd_page (j + 32)) PIPE_PERM k3 = Some (Inr 0, k4)" "ready k4 c d held ps4 fs"
    "own_dir k1 = Some d" "same_envs k k4" "distinct [p, q, b]" "p < 2 ^ 20" "q < 2 ^ 20" "b < 2 ^ 20"
    "phys k4 p = (\<lambda>_. 0)" "phys k4 q = (\<lambda>_. 0)" "phys k4 b = (\<lambda>_. 0)"
    "\<forall>w<UTOP. user_pte k1 d w = (if same_page w (fd_page i) then Some (pipe_entry p) else user_pte k d w)"
    "\<forall>w<UTOP. user_pte k4 d w = pipe_maps i j p q b (user_pte k d) w"
    "\<forall>x\<in>dirs k. \<forall>w<UTOP. \<not> (x = d \<and> pipe_pages i j w) \<longrightarrow> user_pte k4 x w = user_pte k x w"
    "\<forall>x\<in>dirs k. \<forall>w<UTOP. \<forall>e. user_pte k x w = Some e \<longrightarrow> \<not> (x = d \<and> pipe_pages i j w) \<longrightarrow>
       ppn_of e \<notin> {p, q, b} \<and> phys k4 (ppn_of e) = phys k (ppn_of e)"
    using pipe_mapped [OF r lt(1-3) mem] by blast
  have alloc0: "fd_alloc k = Some (Inr (fd_page i))"
    using fd_alloc_at [OF own lt(1) free(1)] low' ij(1) by simp
  have "user_pte k1 d (fd_page m) = (if m = i then Some (pipe_entry p) else user_pte k d (fd_page m))" if "m < 32" for m
    using k4(15) fd_page_ok(1) [of m] that lt(4) by simp
  then have alloc1: "fd_alloc k1 = Some (Inr (fd_page j))"
    using low' free(2) lt by (intro fd_alloc_at [OF k4(6) lt(2)]) auto
  note at = pipe_maps_at [OF lt(1-3), of p q b "user_pte k d"]
  have m4: "user_pte k4 d (fd_page i) = Some (pipe_entry p)" "user_pte k4 d (fd_page j) = Some (pipe_entry q)"
    using k4(16) fd_page_ok(1) [OF lt(4)] fd_page_ok(1) [OF lt(5)] at by simp_all
  obtain k5 k6 where k6: "set_fd_dev_id (fd_page i) devpipe_id k4 = Some k5" "set_fd_omode (fd_page i) FD_RDONLY k5 = Some k6"
    "ready k6 c d held ps4 fs" "same_envs k4 k6" "\<forall>z\<in>dirs k4. \<forall>w<UTOP. user_pte k6 z w = user_pte k4 z w"
    "phys k6 = (phys k4)(p := (phys k4 p)(0 := devpipe_id, 2 := FD_RDONLY))"
    using set_fields_ok [OF k4(5) lt(4) m4(1) k4(9)] by blast
  have D: "dirs k4 = dirs k" "dirs k6 = dirs k" using same_envs_dirs k4(7) k6(4) by metis+
  have m6: "user_pte k6 d (fd_page j) = Some (pipe_entry q)"
    using k6(5) m4(2) readyD(7) [OF k4(5)] fd_page_ok(1) [OF lt(5)] by simp
  obtain k7 k8 where k8: "set_fd_dev_id (fd_page j) devpipe_id k6 = Some k7" "set_fd_omode (fd_page j) FD_WRONLY k7 = Some k8"
    "ready k8 c d held ps4 fs" "same_envs k6 k8" "\<forall>z\<in>dirs k6. \<forall>w<UTOP. user_pte k8 z w = user_pte k6 z w"
    "phys k8 = (phys k6)(q := (phys k6 q)(0 := devpipe_id, 2 := FD_WRONLY))"
    using set_fields_ok [OF k6(3) lt(5) m6 k4(10)] by blast
  have "pipe_open k = Some (Inr (word_of_nat i, word_of_nat j), k8)"
    using alloc0 alloc1 k4(1-4) k6(1,2) k8(1,2) lt
    by (simp add: pipe_open_def pipe_connect_def fd2data_page fd2num_page)
  moreover have u8: "user_pte k8 x w = user_pte k4 x w" if "x \<in> dirs k" "w < UTOP" for x w using k8(5) k6(5) D that by simp
  have "user_pte k8 d w = pipe_maps i j p q b (user_pte k d) w" if "w < UTOP" for w
    using u8 [OF readyD(7) [OF r] that] k4(16) that by simp
  moreover have "phys k8 p 0 = devpipe_id \<and> phys k8 p 2 = FD_RDONLY \<and> phys k8 q 0 = devpipe_id \<and> phys k8 q 2 = FD_WRONLY \<and>
      phys k8 b = (\<lambda>_. 0)"
    using k4(8,14) unfolding k8(6) k6(6) by simp
  moreover have "user_pte k8 x w = Some e \<and> ppn_of e \<notin> {p, q, b} \<and> phys k8 (ppn_of e) = phys k (ppn_of e)"
    if x: "x \<in> dirs k" "w < UTOP" "user_pte k x w = Some e" "\<not> (x = d \<and> (\<exists>m\<in>{i, j}. same_page w (INDEX2DATA (word_of_nat m))))"
    for x w e
  proof -
    have "user_pte k d w = None" if "same_page w (fd_page i) \<or> same_page w (fd_page j)"
      using that free user_pte_page [of w _ k d] by metis
    then have np: "\<not> (x = d \<and> pipe_pages i j w)" using x(3,4) data unfolding pipe_pages_def by auto
    note o = k4(18) [rule_format, OF x(1-3) np]
    have "phys k8 (ppn_of e) = phys k4 (ppn_of e)" using o unfolding k8(6) k6(6) by simp
    then show ?thesis using o u8 [OF x(1,2)] k4(17) x(1-3) np by simp
  qed
  ultimately show ?thesis
    using readyD(1) [OF k8(3)] k4(8)
    unfolding pipe_maps_def pipe_entry_def data [symmetric] unfolding fd_page_def
    by (intro exI [of _ k8] exI [of _ ps4] exI [of _ p] exI [of _ q] exI [of _ b]) blast
qed

theorem pipe_open_connects_witness:
  "\<exists>k' b. pipe_open (demo_rich 0x4007) = Some (Inr (0, 1), k') \<and>
     user_pte k' 5 0xD0020000 = Some (page2pa b OR PIPE_PERM OR PTE_P) \<and>
     user_pte k' 5 0xD0021000 = Some (page2pa b OR PIPE_PERM OR PTE_P) \<and> phys k' b = (\<lambda>_. 0)"
proof -
  note e = demo_entries(1)
  have none: "user_pte (demo_rich 0x4007) 5 (fd_page m) = None" if "m < 128" for m
  proof (rule ccontr)
    assume "user_pte (demo_rich 0x4007) 5 (fd_page m) \<noteq> None"
    then have "same_page (fd_page m) 0x800000" using demo_rich_pte(2) [OF e, of "fd_page m"] fd_page_ok(1) [OF that] by blast
    moreover have "unat (PGNUM 0x800000) = 2048" by (simp add: unat_PGNUM)
    ultimately show False using fd_page_number [OF that] by simp
  qed
  have cur: "curenv (demo_rich 0x4007) = Some 0" by simp
  have free: "user_pte (demo_rich 0x4007) 5 (INDEX2FD (word_of_nat 0)) = None" "user_pte (demo_rich 0x4007) 5 (INDEX2FD (word_of_nat 1)) = None"
    using none [of 0] none [of 1] unfolding fd_page_def by simp_all
  have low: "\<forall>m<1. m \<noteq> 0 \<longrightarrow> user_pte (demo_rich 0x4007) 5 (INDEX2FD (word_of_nat m)) \<noteq> None" by simp
  obtain k' p q b where k': "pipe_open (demo_rich 0x4007) = Some (Inr (word_of_nat 0, word_of_nat 1), k')" "phys k' b = (\<lambda>_. 0)"
    "\<forall>w<UTOP. user_pte k' 5 w =
      (if same_page w (INDEX2FD (word_of_nat 0)) then Some (page2pa p OR PIPE_PERM OR PTE_P)
       else if same_page w (INDEX2FD (word_of_nat 1)) then Some (page2pa q OR PIPE_PERM OR PTE_P)
       else if same_page w (INDEX2DATA (word_of_nat 0)) \<or> same_page w (INDEX2DATA (word_of_nat 1))
       then Some (page2pa b OR PIPE_PERM OR PTE_P) else user_pte (demo_rich 0x4007) 5 w)"
    using pipe_open_connects [OF demo_rich_kinv(1) [OF e] cur demo_rich_live _ _ _ free low] by auto
  have "INDEX2FD (word_of_nat 0) = 0xD0000000" "INDEX2FD (word_of_nat 1) = 0xD0001000" "INDEX2DATA (word_of_nat 0) = 0xD0020000"
    "INDEX2DATA (word_of_nat 1) = 0xD0021000" "(0xD0020000 :: u32) < UTOP" "(0xD0021000 :: u32) < UTOP"
    by (simp_all add: INDEX2FD_def INDEX2DATA_def FILEDATA_def FDTABLE_def MAXFD_def PGSIZE_def kdefs)
  then have "user_pte k' 5 0xD0020000 = Some (page2pa b OR PIPE_PERM OR PTE_P)" "user_pte k' 5 0xD0021000 = Some (page2pa b OR PIPE_PERM OR PTE_P)"
    using k'(3) by (simp_all add: PGNUM_def)
  then show ?thesis using k'(1,2) by auto
qed

end
