(* ===== verification/Shell.thy ===== *)
theory Shell
  imports Main
begin

text \<open>
  The shell of the first homework, \<^verbatim>\<open>src/hw1_shell/sh.c\<close>: its recursive-descent parser and the execution of
  the parsed command. A pointer into the line is the rest of the line from there, so that \<open>es\<close> is the empty string.
  Of the host system, processes appear as the events they end in, and the table of open files as a map.
\<close>

section \<open>Commands\<close>

definition MAXARGS :: nat where "MAXARGS = 10"

datatype open_flag = O_RDONLY | O_WRONLY | O_CREAT | O_TRUNC

datatype sh_cmd =
    Exec_cmd "string list"
  | Redir_cmd char sh_cmd string "open_flag list" nat
  | Pipe_cmd sh_cmd sh_cmd

datatype sh_error = Leftovers string | Missing_file | Syntax_error | Too_many_args

definition execcmd :: sh_cmd where "execcmd = Exec_cmd []"

definition redircmd :: "sh_cmd \<Rightarrow> string \<Rightarrow> char \<Rightarrow> sh_cmd" where
  "redircmd subcmd file type =
     Redir_cmd type subcmd file (if type = CHR ''<'' then [O_RDONLY] else [O_WRONLY, O_CREAT, O_TRUNC])
       (if type = CHR ''<'' then 0 else 1)"

definition pipecmd :: "sh_cmd \<Rightarrow> sh_cmd \<Rightarrow> sh_cmd" where
  "pipecmd left right = Pipe_cmd left right"

text \<open>The assignment \<open>cmd->argv[argc] = a\<close>, through the pointer to the \<open>execcmd\<close> that \<open>ret\<close> may wrap by now.\<close>

fun add_arg :: "string \<Rightarrow> sh_cmd \<Rightarrow> sh_cmd" where
  "add_arg a (Exec_cmd argv) = Exec_cmd (argv @ [a])"
| "add_arg a (Redir_cmd t c file flags fd) = Redir_cmd t (add_arg a c) file flags fd"
| "add_arg a (Pipe_cmd l r) = Pipe_cmd l r"

section \<open>Tokens\<close>

definition whitespace :: string where
  "whitespace = [CHR '' '', CHR 0x09, CHR 0x0D, CHR 0x0A, CHR 0x0B]"

definition symbols :: string where "symbols = ''<|>''"

definition skip_white :: "string \<Rightarrow> string" where
  "skip_white s = dropWhile (\<lambda>c. c \<in> set whitespace) s"

definition wordchar :: "char \<Rightarrow> bool" where
  "wordchar c \<longleftrightarrow> c \<notin> set whitespace \<and> c \<notin> set symbols"

text \<open>The kind of token, its text and the rest of the line.\<close>

definition gettoken :: "string \<Rightarrow> char \<times> string \<times> string" where
  "gettoken ps =
    (let s = skip_white ps
     in case s of
       [] \<Rightarrow> (CHR 0x00, [], [])
     | c # s' \<Rightarrow>
         if c = CHR ''|'' \<or> c = CHR ''<'' \<or> c = CHR ''>'' then (c, [c], skip_white s')
         else (CHR ''a'', takeWhile wordchar s, skip_white (dropWhile wordchar s)))"

definition peek :: "string \<Rightarrow> string \<Rightarrow> bool \<times> string" where
  "peek ps toks = (let s = skip_white ps in (s \<noteq> [] \<and> hd s \<in> set toks, s))"

lemma skip_white_length [simp]: "length (skip_white s) \<le> length s"
  by (simp add: skip_white_def length_dropWhile_le)

lemma skip_white_idem [simp]: "skip_white (skip_white s) = skip_white s"
  by (simp add: skip_white_def dropWhile_idem)

lemma symbols_simps [simp]: "c \<in> set symbols \<longleftrightarrow> c = CHR ''|'' \<or> c = CHR ''<'' \<or> c = CHR ''>''"
  by (auto simp: symbols_def)

lemma skip_white_Cons: "skip_white s = c # s' \<Longrightarrow> c \<notin> set whitespace"
  unfolding skip_white_def using hd_dropWhile [of "\<lambda>c. c \<in> set whitespace" s] by fastforce

lemma gettoken_progress:
  assumes "gettoken s = (t, q, r)" "t \<noteq> CHR 0x00"
  shows "length r < length s"
proof (cases "skip_white s")
  case Nil
  then show ?thesis using assms by (simp add: gettoken_def)
next
  case (Cons c s')
  then have len: "length s' < length s" using skip_white_length [of s] by simp
  have "wordchar c \<or> c = CHR ''|'' \<or> c = CHR ''<'' \<or> c = CHR ''>''"
    using skip_white_Cons [OF Cons] by (auto simp: wordchar_def)
  then have "length r \<le> length s'"
    using assms Cons order_trans [OF skip_white_length length_dropWhile_le, of wordchar s']
    by (auto simp: gettoken_def Let_def split: if_splits)
  then show ?thesis using len by simp
qed

lemma gettoken_rest: "gettoken s = (t, q, r) \<Longrightarrow> length r \<le> length s"
  using gettoken_progress [of s t q r] by (cases "t = CHR 0x00") (auto simp: gettoken_def Let_def split: list.splits if_splits)

lemma peek_rest: "peek s toks = (b, r) \<Longrightarrow> length r \<le> length s"
  by (auto simp: peek_def Let_def)

section \<open>The parser\<close>

function parseredirs :: "sh_cmd \<Rightarrow> string \<Rightarrow> sh_error + sh_cmd \<times> string" where
  "parseredirs cmd s =
    (let (found, s) = peek s ''<>''
     in if \<not> found then Inr (cmd, s)
     else let (tok, _, s) = gettoken s; (tok2, q, s) = gettoken s
     in if tok2 \<noteq> CHR ''a'' then Inl Missing_file
     else parseredirs (if tok = CHR ''<'' then redircmd cmd q CHR ''<''
       else if tok = CHR ''>'' then redircmd cmd q CHR ''>'' else cmd) s)"
  by auto
termination
proof (relation "measure (\<lambda>(_, s). length s)", goal_cases)
  case (2 cmd s x found s1 y tok z q0 s2 w tok2 v q s3)
  have "peek s ''<>'' = (found, s1)" "gettoken s1 = (tok, q0, s2)" "gettoken s2 = (tok2, q, s3)" "tok2 \<noteq> CHR 0x00"
    using 2 by simp_all
  then show ?case using peek_rest gettoken_rest gettoken_progress by fastforce
qed simp

declare parseredirs.simps [simp del]

lemma parseredirs_rest: "parseredirs cmd s = Inr (c, r) \<Longrightarrow> length r \<le> length s"
proof (induction cmd s rule: parseredirs.induct)
  case (1 cmd s)
  obtain found s1 where p: "peek s ''<>'' = (found, s1)" by force
  obtain tok q0 s2 where g1: "gettoken s1 = (tok, q0, s2)" by (cases "gettoken s1") auto
  obtain tok2 q s3 where g2: "gettoken s2 = (tok2, q, s3)" by (cases "gettoken s2") auto
  have "length s1 \<le> length s" "length s2 \<le> length s1" "length s3 \<le> length s2"
    using peek_rest [OF p] gettoken_rest [OF g1] gettoken_rest [OF g2] by auto
  then show ?case
    using 1(1) [OF p [symmetric] refl _ g1 [symmetric] refl refl g2 [symmetric] refl refl] 1(2) p g1 g2
    by (subst (asm) parseredirs.simps) (fastforce split: if_splits)
qed

text \<open>The loop of \<open>parseexec\<close>.\<close>

function parseexec_loop :: "nat \<Rightarrow> sh_cmd \<Rightarrow> string \<Rightarrow> sh_error + sh_cmd \<times> string" where
  "parseexec_loop argc ret s =
    (let (bar, s) = peek s ''|''
     in if bar then Inr (ret, s)
     else let (tok, q, s) = gettoken s
     in if tok = CHR 0x00 then Inr (ret, s)
     else if tok \<noteq> CHR ''a'' then Inl Syntax_error
     else if argc + 1 \<ge> MAXARGS then Inl Too_many_args
     else case parseredirs (add_arg q ret) s of
         Inl e \<Rightarrow> Inl e
       | Inr (ret, s) \<Rightarrow> parseexec_loop (argc + 1) ret s)"
  by auto
termination
proof (relation "measure (\<lambda>(_, _, s). length s)", goal_cases)
  case (2 argc ret s x bar s1 y tok z q s2 w ret' s3)
  have "peek s ''|'' = (bar, s1)" "gettoken s1 = (tok, q, s2)" "tok \<noteq> CHR 0x00" "parseredirs (add_arg q ret) s2 = Inr (ret', s3)"
    using 2 by simp_all
  then show ?case using peek_rest gettoken_progress parseredirs_rest by fastforce
qed simp

declare parseexec_loop.simps [simp del]

definition parseexec :: "string \<Rightarrow> sh_error + sh_cmd \<times> string" where
  "parseexec s =
    (case parseredirs execcmd s of
       Inl e \<Rightarrow> Inl e
     | Inr (ret, s) \<Rightarrow> parseexec_loop 0 ret s)"

lemma parseexec_loop_rest: "parseexec_loop argc ret s = Inr (c, r) \<Longrightarrow> length r \<le> length s"
proof (induction argc ret s rule: parseexec_loop.induct)
  case (1 argc ret s)
  obtain bar s1 where p: "peek s ''|'' = (bar, s1)" by force
  obtain tok q s2 where g: "gettoken s1 = (tok, q, s2)" by (cases "gettoken s1") auto
  have "length s1 \<le> length s" "length s2 \<le> length s1" using peek_rest [OF p] gettoken_rest [OF g] .
  then show ?case
    using 1(2) p g 1(1) [OF p [symmetric] refl _ g [symmetric] refl refl] parseredirs_rest [of "add_arg q ret" s2]
    by (subst (asm) parseexec_loop.simps) (fastforce split: if_splits sum.splits)
qed

lemma parseexec_rest: "parseexec s = Inr (c, r) \<Longrightarrow> length r \<le> length s"
  unfolding parseexec_def using parseredirs_rest parseexec_loop_rest by (fastforce split: sum.splits)

function parsepipe :: "string \<Rightarrow> sh_error + sh_cmd \<times> string" where
  "parsepipe s =
    (case parseexec s of
       Inl e \<Rightarrow> Inl e
     | Inr (cmd, s) \<Rightarrow>
         let (bar, s) = peek s ''|''
         in if bar then
              let (_, _, s) = gettoken s
              in case parsepipe s of
                   Inl e \<Rightarrow> Inl e
                 | Inr (right, s) \<Rightarrow> Inr (pipecmd cmd right, s)
            else Inr (cmd, s))"
  by auto
termination
proof (relation "measure length", goal_cases)
  case (2 s w cmd s1 x bar s2 y tok z q s3)
  have "parseexec s = Inr (cmd, s1)" "peek s1 ''|'' = (bar, s2)" "gettoken s2 = (tok, q, s3)" "bar"
    using 2 by simp_all
  moreover have "tok \<noteq> CHR 0x00"
    using calculation by (auto simp: peek_def gettoken_def Let_def split: list.splits if_splits)
  ultimately show ?case using parseexec_rest peek_rest gettoken_progress by fastforce
qed simp

declare parsepipe.simps [simp del]

definition parseline :: "string \<Rightarrow> sh_error + sh_cmd \<times> string" where
  "parseline s = parsepipe s"

definition parsecmd :: "string \<Rightarrow> sh_error + sh_cmd" where
  "parsecmd s =
    (case parseline (takeWhile (\<lambda>c. c \<noteq> CHR 0x00) s) of
       Inl e \<Rightarrow> Inl e
     | Inr (cmd, s) \<Rightarrow> let (_, s) = peek s [] in if s \<noteq> [] then Inl (Leftovers s) else Inr cmd)"

section \<open>Running a command\<close>

text \<open>The host's calls: which of them succeed is a parameter; descriptors are the lowest that are free, as POSIX has it.\<close>

record host =
  open_max :: nat
  can_open :: "string \<Rightarrow> open_flag list \<Rightarrow> bool"
  pipe_ok :: "nat \<Rightarrow> bool"
  fork_ok :: "nat \<Rightarrow> bool"
  can_exec :: "string list \<Rightarrow> bool"

datatype sh_file = Inherited nat | Opened string "open_flag list" | Pipe_read nat | Pipe_write nat

type_synonym sh_fds = "nat \<Rightarrow> sh_file option"

definition lowest_free :: "nat \<Rightarrow> sh_fds \<Rightarrow> nat option" where
  "lowest_free m fds = find (\<lambda>i. fds i = None) [0..<m]"

definition host_open :: "host \<Rightarrow> string \<Rightarrow> open_flag list \<Rightarrow> sh_fds \<Rightarrow> (nat \<times> sh_fds) option" where
  "host_open H file flags fds =
    (if can_open H file flags then map_option (\<lambda>i. (i, fds(i \<mapsto> Opened file flags))) (lowest_free (open_max H) fds)
     else None)"

definition host_pipe :: "host \<Rightarrow> nat \<Rightarrow> sh_fds \<Rightarrow> (nat \<times> nat \<times> sh_fds) option" where
  "host_pipe H n fds =
    (if pipe_ok H n then
       case lowest_free (open_max H) fds of
         None \<Rightarrow> None
       | Some i \<Rightarrow>
           let fds = fds(i \<mapsto> Pipe_read n)
           in map_option (\<lambda>j. (i, j, fds(j \<mapsto> Pipe_write n))) (lowest_free (open_max H) fds)
     else None)"

definition host_dup2 :: "host \<Rightarrow> nat \<Rightarrow> nat \<Rightarrow> sh_fds \<Rightarrow> sh_fds option" where
  "host_dup2 H i j fds =
    (case fds i of
       None \<Rightarrow> None
     | Some f \<Rightarrow> if j < open_max H then Some (fds(j \<mapsto> f)) else None)"

definition redirfd :: "host \<Rightarrow> nat \<Rightarrow> nat \<Rightarrow> sh_fds \<Rightarrow> sh_fds option" where
  "redirfd H new_fd target_fd fds =
    (case host_dup2 H new_fd target_fd fds of
       None \<Rightarrow> None
     | Some fds \<Rightarrow> if fds new_fd = None then None else Some (fds(new_fd := None)))"

text \<open>What becomes of a process: the program it runs with its descriptors, or its exit status; and what the shell itself does.\<close>

datatype sh_event = Ran "string list" sh_fds | Exited int | Chdir string

text \<open>
  The events of the process and of its children in the order of their ends, and the number that the next pipe or process gets. The
  right side of a pipe starts when the left side has ended.
\<close>

fun runcmd :: "host \<Rightarrow> sh_cmd \<Rightarrow> sh_fds \<Rightarrow> nat \<Rightarrow> sh_event list \<times> nat" where
  "runcmd H (Exec_cmd argv) fds n =
    (if argv = [] then ([Exited 0], n)
     else if can_exec H argv then ([Ran argv fds], n)
     else ([Exited 0], n))"
| "runcmd H (Redir_cmd type cmd file flags target) fds n =
    (case host_open H file flags fds of
       None \<Rightarrow> ([Exited (-1)], n)
     | Some (fd, fds) \<Rightarrow>
         (case redirfd H fd target fds of
            None \<Rightarrow> ([Exited (-1)], n)
          | Some fds \<Rightarrow> runcmd H cmd fds n))"
| "runcmd H (Pipe_cmd left right) fds n =
    (case host_pipe H n fds of
       None \<Rightarrow> ([Exited (-1)], n)
     | Some (p0, p1, fds) \<Rightarrow>
         let (evs, m) =
           (if fork_ok H n then
              case redirfd H p1 1 (fds(p0 := None)) of
                None \<Rightarrow> ([Exited (-1)], n + 1)
              | Some fds \<Rightarrow> runcmd H left fds (n + 1)
            else ([], n + 1))
         in case redirfd H p0 0 (fds(p1 := None)) of
              None \<Rightarrow> (evs @ [Exited (-1)], m)
            | Some fds \<Rightarrow> let (evs', m) = runcmd H right fds m in (evs @ evs', m))"

section \<open>The main loop\<close>

text \<open>\<open>fgets\<close> with room for \<open>n\<close> characters beside the terminator.\<close>

fun fgets :: "nat \<Rightarrow> string \<Rightarrow> string \<times> string" where
  "fgets 0 inp = ([], inp)"
| "fgets (Suc n) [] = ([], [])"
| "fgets (Suc n) (c # inp) =
    (if c = CHR 0x0A then ([c], inp) else let (line, rest) = fgets n inp in (c # line, rest))"

lemma fgets_append: "fgets n inp = (line, rest) \<Longrightarrow> inp = line @ rest"
  by (induction n inp arbitrary: line rule: fgets.induct) (auto split: if_splits prod.splits)

lemma fgets_progress: "fgets (Suc n) inp = (line, rest) \<Longrightarrow> inp \<noteq> [] \<Longrightarrow> length rest < length inp"
  using fgets_append [of "Suc n" inp line rest] by (cases inp) (auto split: if_splits prod.splits)

definition getcmd :: "nat \<Rightarrow> string \<Rightarrow> (string \<times> string) option" where
  "getcmd nbuf inp = (if inp = [] then None else Some (fgets (nbuf - 1) inp))"

text \<open>All events for the input \<open>inp\<close>: the parent waits for each command before it reads the next line.\<close>

function sh_main :: "host \<Rightarrow> sh_fds \<Rightarrow> nat \<Rightarrow> string \<Rightarrow> sh_event list" where
  "sh_main H fds n inp =
    (case getcmd 100 inp of
       None \<Rightarrow> []
     | Some (line, inp) \<Rightarrow>
         let buf = takeWhile (\<lambda>c. c \<noteq> CHR 0x00) line
         in if take 3 buf = ''cd '' then Chdir (butlast (drop 3 buf)) # sh_main H fds n inp
            else if fork_ok H n then
              case parsecmd buf of
                Inl _ \<Rightarrow> Exited (-1) # sh_main H fds (n + 1) inp
              | Inr cmd \<Rightarrow> let (evs, m) = runcmd H cmd fds (n + 1) in evs @ sh_main H fds m inp
            else sh_main H fds (n + 1) inp)"
  by auto
termination
proof (relation "measure (\<lambda>(_, _, _, inp). length inp)", goal_cases)
  case (2 H fds n inp x line rest)
  then show ?case using fgets_progress [of 98] by (auto simp: getcmd_def eval_nat_numeral split: if_splits)
qed (use fgets_progress [of 98] in \<open>auto simp: getcmd_def eval_nat_numeral split: if_splits\<close>)

declare sh_main.simps [simp del]

end
