(* ===== verification/Jos_Shell.thy ===== *)
theory Jos_Shell
  imports Shell
begin

text \<open>
  The shell of JOS, \<^verbatim>\<open>src/lab6/jos/user/sh.c\<close>, which executes a line while it reads its tokens: the redirections are made
  and the processes of a pipe forked before the rest of the line is looked at. Open files are as in \<open>Shell\<close>; descriptors are the
  lowest free ones (\<open>fd_alloc\<close>). The result is what each process of the pipeline does, from left to right, or None where the code writes
  beyond an array on its stack.
\<close>

section \<open>Tokens\<close>

definition JOS_WHITESPACE :: string where
  "JOS_WHITESPACE = [CHR '' '', CHR 0x09, CHR 0x0D, CHR 0x0A]"

definition JOS_SYMBOLS :: string where "JOS_SYMBOLS = ''<|>&;()''"

definition jos_wordchar :: "char \<Rightarrow> bool" where
  "jos_wordchar c \<longleftrightarrow> c \<notin> set JOS_WHITESPACE \<and> c \<notin> set JOS_SYMBOLS"

text \<open>\<open>_gettoken\<close>: the kind of token, its text, and where to go on; a NULL pointer is None.\<close>

definition scan_token :: "string option \<Rightarrow> char \<times> string \<times> string option" where
  "scan_token p =
    (case p of
       None \<Rightarrow> (CHR 0x00, [], None)
     | Some s \<Rightarrow>
         (case dropWhile (\<lambda>c. c \<in> set JOS_WHITESPACE) s of
            [] \<Rightarrow> (CHR 0x00, [], None)
          | c # s' \<Rightarrow>
              if c \<in> set JOS_SYMBOLS then (c, [c], Some s')
              else (CHR ''w'', takeWhile jos_wordchar (c # s'), Some (dropWhile jos_wordchar (c # s')))))"

text \<open>The static variables \<open>nc\<close>, \<open>np1\<close> and \<open>np2\<close>: the token that has been read ahead.\<close>

type_synonym ahead = "char \<times> string \<times> string option"

definition jos_gettoken :: "ahead \<Rightarrow> char \<times> string \<times> ahead" where
  "jos_gettoken st = (case st of (nc, np1, np2) \<Rightarrow> (nc, np1, scan_token np2))"

text \<open>How much there is left to read.\<close>

definition ahead_size :: "ahead \<Rightarrow> nat" where
  "ahead_size st = (case st of (nc, np1, np2) \<Rightarrow>
     (if nc = CHR 0x00 then 0 else 1) + (case np2 of None \<Rightarrow> 0 | Some s \<Rightarrow> length s + 1))"

lemma scan_token_size: "ahead_size (scan_token p) \<le> (case p of None \<Rightarrow> 0 | Some s \<Rightarrow> length s + 1)"
proof (cases p)
  case None
  then show ?thesis by (simp add: scan_token_def ahead_size_def)
next
  case (Some s)
  let ?r = "dropWhile (\<lambda>c. c \<in> set JOS_WHITESPACE) s"
  have le: "length ?r \<le> length s" by (rule length_dropWhile_le)
  show ?thesis
  proof (cases ?r)
    case Nil
    then show ?thesis unfolding Some scan_token_def option.case Nil by (simp add: ahead_size_def)
  next
    case (Cons c s')
    have "c \<notin> set JOS_WHITESPACE" using hd_dropWhile [of "\<lambda>c. c \<in> set JOS_WHITESPACE" s] Cons by simp
    then have "c \<in> set JOS_SYMBOLS \<or> jos_wordchar c" by (auto simp: jos_wordchar_def)
    then show ?thesis
      using Some Cons le length_dropWhile_le [of jos_wordchar s'] by (auto simp: scan_token_def ahead_size_def)
  qed
qed

lemma jos_gettoken_size:
  assumes "jos_gettoken st = (c, t, st')"
  shows "ahead_size st' \<le> ahead_size st" "c \<noteq> CHR 0x00 \<Longrightarrow> ahead_size st' < ahead_size st"
  using assms scan_token_size [of "snd (snd st)"]
  by (auto simp: jos_gettoken_def ahead_size_def [of st] split: prod.splits option.splits)

section \<open>Running a line\<close>

definition JOS_MAXARGS :: nat where "JOS_MAXARGS = 16"
definition JOS_BUFSIZ :: nat where "JOS_BUFSIZ = 1024"

definition jos_maxfd :: nat where "jos_maxfd = 32"

text \<open>What \<open>open\<close>, \<open>pipe\<close> and \<open>fork\<close> answer; pipes and forks are numbered in the order in which they are made.\<close>

record jos_host =
  jos_can_open :: "string \<Rightarrow> bool"
  jos_pipe_ok :: "nat \<Rightarrow> bool"
  jos_fork_ok :: "nat \<Rightarrow> bool"

datatype jos_event =
    Spawned "string list" sh_fds
  | Empty_command
  | Too_many_arguments
  | No_file
  | Open_failed string
  | Pipe_failed
  | Fork_failed
  | Panicked

text \<open>\<open>dup(fd, n)\<close> and then \<open>close(fd)\<close>, unless they are the same.\<close>

definition move_fd :: "nat \<Rightarrow> nat \<Rightarrow> sh_fds \<Rightarrow> sh_fds" where
  "move_fd fd n fds = (if fd \<noteq> n then fds(n := fds fd, fd := None) else fds)"

definition jos_open :: "jos_host \<Rightarrow> string \<Rightarrow> sh_fds \<Rightarrow> (nat \<times> sh_fds) option" where
  "jos_open H file fds =
    (if jos_can_open H file
     then map_option (\<lambda>i. (i, fds(i \<mapsto> Opened file [O_WRONLY, O_CREAT, O_TRUNC]))) (lowest_free jos_maxfd fds)
     else None)"

definition jos_pipe :: "jos_host \<Rightarrow> nat \<Rightarrow> sh_fds \<Rightarrow> (nat \<times> nat \<times> sh_fds) option" where
  "jos_pipe H n fds =
    (if jos_pipe_ok H n then
       case lowest_free jos_maxfd fds of
         None \<Rightarrow> None
       | Some i \<Rightarrow>
           let fds = fds(i \<mapsto> Pipe_read n)
           in map_option (\<lambda>j. (i, j, fds(j \<mapsto> Pipe_write n))) (lowest_free jos_maxfd fds)
     else None)"

text \<open>From the label \<open>runit\<close>. A word of the line is at most 1023 characters long, because the line is.\<close>

definition jos_runit :: "string list \<Rightarrow> sh_fds \<Rightarrow> jos_event option" where
  "jos_runit argv fds =
    (case argv of
       [] \<Rightarrow> Some Empty_command
     | a # as \<Rightarrow>
         if take 1 a \<noteq> ''/'' \<and> length a + 2 > JOS_BUFSIZ then None
         else if length argv \<ge> JOS_MAXARGS then None
         else Some (Spawned ((if take 1 a \<noteq> ''/'' then ''/'' @ a else a) # as) fds))"

text \<open>The loop from the label \<open>again\<close>, with the arguments read so far.\<close>

function jos_runcmd_loop :: "jos_host \<Rightarrow> nat \<Rightarrow> ahead \<Rightarrow> string list \<Rightarrow> sh_fds \<Rightarrow> jos_event list option" where
  "jos_runcmd_loop H n st argv fds =
    (let (c, t, st) = jos_gettoken st
     in if c = CHR 0x00 then map_option (\<lambda>e. [e]) (jos_runit argv fds)
     else if c = CHR ''w'' then
       if length argv = JOS_MAXARGS then Some [Too_many_arguments]
       else jos_runcmd_loop H n st (argv @ [t]) fds
     else if c = CHR ''<'' then
       let (c2, t, st) = jos_gettoken st
       in if c2 \<noteq> CHR ''w'' then Some [No_file] else Some [Panicked]
     else if c = CHR ''>'' then
       let (c2, t, st) = jos_gettoken st
       in if c2 \<noteq> CHR ''w'' then Some [No_file]
       else case jos_open H t fds of
           None \<Rightarrow> Some [Open_failed t]
         | Some (fd, fds) \<Rightarrow> jos_runcmd_loop H n st argv (move_fd fd 1 fds)
     else if c = CHR ''|'' then
       case jos_pipe H n fds of
         None \<Rightarrow> Some [Pipe_failed]
       | Some (p0, p1, fds) \<Rightarrow>
           if \<not> jos_fork_ok H n then Some [Fork_failed]
           else case jos_runit argv ((move_fd p1 1 fds)(p0 := None)) of
               None \<Rightarrow> None
             | Some e \<Rightarrow> map_option ((#) e) (jos_runcmd_loop H (n + 1) st [] ((move_fd p0 0 fds)(p1 := None)))
     else Some [Panicked])"
  by auto
termination
proof (relation "measure (\<lambda>(_, _, st, _, _). ahead_size st)", goal_cases)
  case (2 H n st argv fds x c y t st')
  then have "jos_gettoken st = (c, t, st')" "c \<noteq> CHR 0x00" by simp_all
  then show ?case using jos_gettoken_size(2) by simp
next
  case (3 H n st argv fds x c y t st' x2 c2 y2 t2 st2)
  then have "jos_gettoken st = (c, t, st')" "c \<noteq> CHR 0x00" "jos_gettoken st' = (c2, t2, st2)" by simp_all
  then show ?case using jos_gettoken_size(2) [of st c t st'] jos_gettoken_size(1) [of st' c2 t2 st2] by simp
next
  case (4 H n st argv fds x c y t st')
  then have "jos_gettoken st = (c, t, st')" "c \<noteq> CHR 0x00" by simp_all
  then show ?case using jos_gettoken_size(2) by simp
qed simp

declare jos_runcmd_loop.simps [simp del]

definition jos_runcmd :: "jos_host \<Rightarrow> nat \<Rightarrow> string \<Rightarrow> sh_fds \<Rightarrow> jos_event list option" where
  "jos_runcmd H n s fds = jos_runcmd_loop H n (scan_token (Some (takeWhile (\<lambda>c. c \<noteq> CHR 0x00) s))) [] fds"

end
