(* ===== verification/Shell_Props.thy ===== *)
theory Shell_Props
  imports Shell
begin

text \<open>
  The parser of the shell against a one-pass reading of the line's tokens, and what a command line runs.
\<close>

section \<open>The line as stages of a pipeline\<close>

datatype sh_tok = Word string | Sym char

function tokens :: "string \<Rightarrow> sh_tok list" where
  "tokens [] = []"
| "tokens (c # s) =
    (if c \<in> set whitespace then tokens s
     else if c \<in> set symbols then Sym c # tokens s
     else Word (takeWhile wordchar (c # s)) # tokens (dropWhile wordchar s))"
  by pat_completeness auto
termination
  by (relation "measure length") (auto simp: le_imp_less_Suc length_dropWhile_le)

text \<open>A stage is its arguments and its redirections in the order written.\<close>

type_synonym stage = "string list \<times> (char \<times> string) list"

fun read_stages :: "string list \<Rightarrow> (char \<times> string) list \<Rightarrow> sh_tok list \<Rightarrow> sh_error + stage list" where
  "read_stages args redirs [] = Inr [(args, redirs)]"
| "read_stages args redirs (Word w # ts) =
    (if length args + 1 \<ge> MAXARGS then Inl Too_many_args else read_stages (args @ [w]) redirs ts)"
| "read_stages args redirs (Sym c # ts) =
    (if c = CHR ''|'' then map_sum (\<lambda>e. e) ((#) (args, redirs)) (read_stages [] [] ts)
     else case ts of
       Word f # ts' \<Rightarrow> read_stages args (redirs @ [(c, f)]) ts'
     | _ \<Rightarrow> Inl Missing_file)"

definition stage_cmd :: "string list \<Rightarrow> (char \<times> string) list \<Rightarrow> sh_cmd" where
  "stage_cmd args redirs = foldl (\<lambda>c (t, f). redircmd c f t) (Exec_cmd args) redirs"

fun stages_cmd :: "stage list \<Rightarrow> sh_cmd" where
  "stages_cmd [] = Exec_cmd []"
| "stages_cmd [(args, redirs)] = stage_cmd args redirs"
| "stages_cmd ((args, redirs) # x # xs) = pipecmd (stage_cmd args redirs) (stages_cmd (x # xs))"

section \<open>Tokens\<close>

lemma tokens_skip_white [simp]: "tokens (skip_white s) = tokens s"
  unfolding skip_white_def by (induction s) auto

lemma tokens_nonwhite:
  assumes "c \<notin> set whitespace"
  shows "tokens (c # s) =
    (if wordchar c then Word (takeWhile wordchar (c # s)) # tokens (skip_white (dropWhile wordchar (c # s)))
     else Sym c # tokens (skip_white s))"
  using assms by (simp add: wordchar_def)

lemma gettoken_tokens:
  assumes "gettoken s = (t, q, r)"
  shows "t = CHR 0x00 \<and> r = [] \<and> tokens s = [] \<or> t = CHR ''a'' \<and> tokens s = Word q # tokens r \<or>
    (t = CHR ''|'' \<or> t = CHR ''<'' \<or> t = CHR ''>'') \<and> tokens s = Sym t # tokens r"
proof (cases "skip_white s")
  case Nil
  then show ?thesis using assms tokens_skip_white [of s] by (auto simp: gettoken_def)
next
  case (Cons c s')
  note w = skip_white_Cons [OF Cons]
  have "tokens s = tokens (c # s')" using tokens_skip_white [of s] Cons by simp
  moreover have "wordchar c \<longleftrightarrow> c \<noteq> CHR ''|'' \<and> c \<noteq> CHR ''<'' \<and> c \<noteq> CHR ''>''" using w by (simp add: wordchar_def)
  ultimately show ?thesis
    using assms Cons unfolding tokens_nonwhite [OF w] by (auto simp: gettoken_def Let_def)
qed

lemma peek_tokens:
  assumes "peek s toks = (b, r)" "set toks \<subseteq> set symbols"
  shows "tokens r = tokens s" "b \<longleftrightarrow> (\<exists>c ts. tokens s = Sym c # ts \<and> c \<in> set toks)" "r = [] \<longleftrightarrow> tokens s = []"
proof -
  have r: "r = skip_white s" "b \<longleftrightarrow> r \<noteq> [] \<and> hd r \<in> set toks" using assms(1) by (auto simp: peek_def Let_def)
  show l: "tokens r = tokens s" using r by simp
  have "(b \<longleftrightarrow> (\<exists>c ts. tokens r = Sym c # ts \<and> c \<in> set toks)) \<and> (r = [] \<longleftrightarrow> tokens r = [])"
  proof (cases r)
    case (Cons c s')
    then have w: "c \<notin> set whitespace" using skip_white_Cons r by metis
    show ?thesis using r(2) assms(2) unfolding Cons tokens_nonwhite [OF w] by (auto simp: wordchar_def)
  qed (use r in simp)
  then show "b \<longleftrightarrow> (\<exists>c ts. tokens s = Sym c # ts \<and> c \<in> set toks)" "r = [] \<longleftrightarrow> tokens s = []" unfolding l by blast+
qed

section \<open>The recursive descent\<close>

lemma stage_cmd_redir [simp]: "redircmd (stage_cmd args redirs) f t = stage_cmd args (redirs @ [(t, f)])"
  by (simp add: stage_cmd_def)

lemma add_arg_stage [simp]: "add_arg q (stage_cmd args redirs) = stage_cmd (args @ [q]) redirs"
  by (induction redirs rule: rev_induct) (auto simp: stage_cmd_def redircmd_def)

definition not_redir :: "sh_tok list \<Rightarrow> bool" where
  "not_redir ts \<longleftrightarrow> (\<forall>c us. ts = Sym c # us \<longrightarrow> c = CHR ''|'')"

lemma parseredirs_reads:
  "case parseredirs (stage_cmd args redirs) s of
     Inl e \<Rightarrow> read_stages args redirs (tokens s) = Inl e
   | Inr (c, r) \<Rightarrow> \<exists>redirs'. c = stage_cmd args redirs' \<and> not_redir (tokens r) \<and>
       read_stages args redirs (tokens s) = read_stages args redirs' (tokens r)"
proof (induction s arbitrary: redirs rule: measure_induct_rule [of length])
  case (less s)
  obtain b s1 where p: "peek s ''<>'' = (b, s1)" by force
  obtain t q s2 where g1: "gettoken s1 = (t, q, s2)" by (cases "gettoken s1") auto
  obtain t2 q2 s3 where g2: "gettoken s2 = (t2, q2, s3)" by (cases "gettoken s2") auto
  have sub: "set ''<>'' \<subseteq> set symbols" by auto
  note pl = peek_tokens [OF p sub]
  show ?case
  proof (cases b)
    case False
    then have "not_redir (tokens s1)" using pl(1,2) gettoken_tokens [OF g1] by (auto simp: not_redir_def)
    then show ?thesis using False pl(1) p by (subst parseredirs.simps) auto
  next
    case True
    then have t: "t = CHR ''<'' \<or> t = CHR ''>''" "tokens s = Sym t # tokens s2" using pl gettoken_tokens [OF g1] by auto
    show ?thesis
    proof (cases "t2 = CHR ''a''")
      case False
      then have "read_stages args redirs (tokens s) = Inl Missing_file"
        using t gettoken_tokens [OF g2] by auto
      then show ?thesis using False True p g1 g2 by (subst parseredirs.simps) auto
    next
      case w: True
      then have l: "tokens s2 = Word q2 # tokens s3" using gettoken_tokens [OF g2] by auto
      have "length s3 < length s"
        using peek_rest [OF p] gettoken_rest [OF g1] gettoken_progress [OF g2] w by simp
      note ih = less.IH [OF this, of "redirs @ [(t, q2)]"]
      have e1: "parseredirs (stage_cmd args redirs) s = parseredirs (stage_cmd args (redirs @ [(t, q2)])) s3"
        using True w p g1 g2 t(1) by (subst parseredirs.simps) auto
      have e2: "read_stages args redirs (tokens s) = read_stages args (redirs @ [(t, q2)]) (tokens s3)"
        using t l by auto
      show ?thesis unfolding e1 e2 by (rule ih)
    qed
  qed
qed

lemma parseexec_loop_reads:
  assumes "not_redir (tokens s)" "length args < MAXARGS"
  shows "case parseexec_loop (length args) (stage_cmd args redirs) s of
     Inl e \<Rightarrow> read_stages args redirs (tokens s) = Inl e
   | Inr (c, r) \<Rightarrow> \<exists>args' redirs'. c = stage_cmd args' redirs' \<and> (\<forall>w us. tokens r \<noteq> Word w # us) \<and> not_redir (tokens r) \<and>
       read_stages args redirs (tokens s) = read_stages args' redirs' (tokens r)"
  using assms
proof (induction s arbitrary: args redirs rule: measure_induct_rule [of length])
  case (less s)
  obtain b s1 where p: "peek s ''|'' = (b, s1)" by force
  obtain t q s2 where g: "gettoken s1 = (t, q, s2)" by (cases "gettoken s1") auto
  have sub: "set ''|'' \<subseteq> set symbols" by auto
  note pl = peek_tokens [OF p sub] and gl = gettoken_tokens [OF g]
  show ?case
  proof (cases b)
    case True
    then have "parseexec_loop (length args) (stage_cmd args redirs) s = Inr (stage_cmd args redirs, s1)"
      using p by (subst parseexec_loop.simps) simp
    moreover have "\<forall>w us. tokens s1 \<noteq> Word w # us" using pl(1,2) True by auto
    ultimately show ?thesis
      using less.prems(1) by (simp add: pl(1), intro exI [of _ args] exI [of _ redirs]) simp
  next
    case nb: False
    show ?thesis
    proof (cases "t = CHR ''a''")
      case False
      then have "t = CHR 0x00" "tokens s2 = []" "tokens s = []" using gl pl nb less.prems(1) by (auto simp: not_redir_def)
      moreover have "parseexec_loop (length args) (stage_cmd args redirs) s = Inr (stage_cmd args redirs, s2)"
        using nb p g calculation(1) by (subst parseexec_loop.simps) simp
      ultimately show ?thesis by (auto simp: not_redir_def)
    next
      case True
      then have l: "tokens s = Word q # tokens s2" using gl pl by auto
      show ?thesis
      proof (cases "length args + 1 \<ge> MAXARGS")
        case m: True
        have "parseexec_loop (length args) (stage_cmd args redirs) s = Inl Too_many_args"
          using nb True p g m by (subst parseexec_loop.simps) simp
        then show ?thesis using l m by simp
      next
        case m: False
        note rd = parseredirs_reads [of "args @ [q]" redirs s2]
        show ?thesis
        proof (cases "parseredirs (stage_cmd (args @ [q]) redirs) s2")
          case (Inl e)
          then have "parseexec_loop (length args) (stage_cmd args redirs) s = Inl e"
            using nb True p g m by (subst parseexec_loop.simps) simp
          then show ?thesis using l m rd Inl by simp
        next
          case (Inr cr)
          obtain c r where cr: "cr = (c, r)" by force
          from rd obtain redirs' where c: "c = stage_cmd (args @ [q]) redirs'" "not_redir (tokens r)"
              "read_stages (args @ [q]) redirs (tokens s2) = read_stages (args @ [q]) redirs' (tokens r)"
            using Inr cr by auto
          have "length r < length s"
            using peek_rest [OF p] gettoken_progress [OF g] True parseredirs_rest [OF Inr [unfolded cr]] by simp
          note ih = less.IH [OF this c(2), of "args @ [q]" redirs']
          have e1: "parseexec_loop (length args) (stage_cmd args redirs) s =
              parseexec_loop (length (args @ [q])) (stage_cmd (args @ [q]) redirs') r"
            using nb True p g m Inr cr c(1) by (subst parseexec_loop.simps) simp
          have e2: "read_stages args redirs (tokens s) = read_stages (args @ [q]) redirs' (tokens r)"
            using l m c(3) by simp
          have len: "length (args @ [q]) < MAXARGS" using m by simp
          show ?thesis unfolding e1 e2 by (rule ih [OF len])
        qed
      qed
    qed
  qed
qed

lemma parseexec_reads:
  "case parseexec s of
     Inl e \<Rightarrow> read_stages [] [] (tokens s) = Inl e
   | Inr (c, r) \<Rightarrow> \<exists>args redirs. c = stage_cmd args redirs \<and> (\<forall>w us. tokens r \<noteq> Word w # us) \<and> not_redir (tokens r) \<and>
       read_stages [] [] (tokens s) = read_stages args redirs (tokens r)"
proof -
  have e: "execcmd = stage_cmd [] []" by (simp add: execcmd_def stage_cmd_def)
  note rd = parseredirs_reads [of "[]" "[]" s]
  show ?thesis
  proof (cases "parseredirs (stage_cmd [] []) s")
    case (Inl x)
    then show ?thesis using rd by (simp add: parseexec_def e)
  next
    case (Inr cr)
    obtain c r where cr: "cr = (c, r)" by force
    from rd obtain redirs where c: "c = stage_cmd [] redirs" "not_redir (tokens r)"
        "read_stages [] [] (tokens s) = read_stages [] redirs (tokens r)"
      using Inr cr by auto
    have e1: "parseexec s = parseexec_loop (length ([] :: string list)) (stage_cmd [] redirs) r"
      using Inr cr c(1) by (simp add: parseexec_def e)
    show ?thesis unfolding e1 c(3) by (rule parseexec_loop_reads [OF c(2)]) (simp add: MAXARGS_def)
  qed
qed

lemma parsepipe_reads:
  "case parsepipe s of
     Inl e \<Rightarrow> read_stages [] [] (tokens s) = Inl e
   | Inr (c, r) \<Rightarrow> tokens r = [] \<and> (\<exists>xs. xs \<noteq> [] \<and> c = stages_cmd xs \<and> read_stages [] [] (tokens s) = Inr xs)"
proof (induction s rule: measure_induct_rule [of length])
  case (less s)
  note pe = parseexec_reads [of s]
  show ?case
  proof (cases "parseexec s")
    case (Inl x)
    then show ?thesis using pe by (subst parsepipe.simps) simp
  next
    case (Inr cr)
    obtain c s1 where cr: "cr = (c, s1)" by force
    from pe obtain args redirs where c: "c = stage_cmd args redirs" "\<forall>w us. tokens s1 \<noteq> Word w # us" "not_redir (tokens s1)"
        "read_stages [] [] (tokens s) = read_stages args redirs (tokens s1)"
      using Inr cr by auto
    obtain b s2 where p: "peek s1 ''|'' = (b, s2)" by force
    obtain t q s3 where g: "gettoken s2 = (t, q, s3)" by (cases "gettoken s2") auto
    have sub: "set ''|'' \<subseteq> set symbols" by auto
    note pl = peek_tokens [OF p sub] and gl = gettoken_tokens [OF g]
    show ?thesis
    proof (cases b)
      case False
      then have "tokens s1 = []" using pl c(2,3) by (cases "tokens s1") (auto simp: not_redir_def intro: sh_tok.exhaust)
      then show ?thesis using False Inr cr p c pl by (subst parsepipe.simps) (auto intro: exI [of _ "[(args, redirs)]"])
    next
      case True
      then have l: "tokens s1 = Sym CHR ''|'' # tokens s3" "t = CHR ''|''" using pl gl by auto
      then have "length s3 < length s"
        using parseexec_rest Inr cr peek_rest [OF p] gettoken_progress [OF g] by fastforce
      from less.IH [OF this] show ?thesis
        using True Inr cr p g c l by (subst parsepipe.simps) (auto split: sum.splits simp: neq_Nil_conv)
    qed
  qed
qed

section \<open>What a line parses to\<close>

lemma parsecmd_stages:
  "parsecmd line = map_sum (\<lambda>e. e) stages_cmd (read_stages [] [] (tokens (takeWhile (\<lambda>c. c \<noteq> CHR 0x00) line)))"
proof -
  let ?s = "takeWhile (\<lambda>c. c \<noteq> CHR 0x00) line"
  note pp = parsepipe_reads [of ?s]
  show ?thesis
  proof (cases "parsepipe ?s")
    case (Inl x)
    then show ?thesis using pp by (simp add: parsecmd_def parseline_def)
  next
    case (Inr cr)
    obtain c r where cr: "cr = (c, r)" by force
    have "snd (peek r []) = []" using peek_tokens(3) [of r "[]"] pp Inr cr by (cases "peek r []") auto
    then show ?thesis using pp Inr cr by (auto simp: parsecmd_def parseline_def split: prod.splits)
  qed
qed

text \<open>
  C21: the recursive-descent parser agrees with reading the tokens of the line once from left to right: it yields the
  same stages of a pipeline or the same error, whatever the line. It never reports leftovers or a syntax error.
\<close>

theorem parsecmd_reads_stages:
  "parsecmd line = map_sum (\<lambda>e. e) stages_cmd (read_stages [] [] (tokens (takeWhile (\<lambda>c. c \<noteq> CHR 0x00) line)))"
  by (rule parsecmd_stages)

section \<open>Printing a line and reading it back\<close>

fun stage_text :: "stage \<Rightarrow> string" where
  "stage_text (args, redirs) = concat (map (\<lambda>w. w @ '' '') args) @ concat (map (\<lambda>(t, f). [t] @ f @ '' '') redirs)"

fun stages_text :: "stage list \<Rightarrow> string" where
  "stages_text [] = []"
| "stages_text [x] = stage_text x"
| "stages_text (x # y # xs) = stage_text x @ ''| '' @ stages_text (y # xs)"

definition word_ok :: "string \<Rightarrow> bool" where
  "word_ok w \<longleftrightarrow> w \<noteq> [] \<and> (\<forall>c\<in>set w. wordchar c \<and> c \<noteq> CHR 0x00)"

definition stage_ok :: "stage \<Rightarrow> bool" where
  "stage_ok x \<longleftrightarrow> length (fst x) < MAXARGS \<and> (\<forall>w\<in>set (fst x). word_ok w) \<and>
     (\<forall>(t, f)\<in>set (snd x). (t = CHR ''<'' \<or> t = CHR ''>'') \<and> word_ok f)"

lemma white_simps [simp]:
  "CHR '' '' \<in> set whitespace" "CHR ''|'' \<notin> set whitespace" "CHR ''<'' \<notin> set whitespace" "CHR ''>'' \<notin> set whitespace"
  "\<not> wordchar (CHR '' '')"
  by (simp_all add: whitespace_def wordchar_def)

lemma tokens_word:
  assumes "word_ok w"
  shows "tokens (w @ CHR '' '' # s) = Word w # tokens s"
proof -
  obtain c v where w: "w = c # v" using assms by (cases w) (auto simp: word_ok_def)
  have all: "\<forall>x\<in>set w. wordchar x" using assms by (simp add: word_ok_def)
  have "c \<notin> set whitespace" "wordchar c" using all w by (auto simp: wordchar_def)
  moreover have "takeWhile wordchar (w @ CHR '' '' # s) = w" "dropWhile wordchar (w @ CHR '' '' # s) = CHR '' '' # s"
    using all by (simp_all add: takeWhile_append2 dropWhile_append2)
  ultimately show ?thesis using tokens_nonwhite [of c "v @ CHR '' '' # s"] w by simp
qed

lemma tokens_args: "\<forall>w\<in>set args. word_ok w \<Longrightarrow> tokens (concat (map (\<lambda>w. w @ '' '') args) @ s) = map Word args @ tokens s"
  by (induction args) (simp_all add: tokens_word)

lemma tokens_redirs:
  "\<forall>(t, f)\<in>set redirs. (t = CHR ''<'' \<or> t = CHR ''>'') \<and> word_ok f \<Longrightarrow>
   tokens (concat (map (\<lambda>(t, f). [t] @ f @ '' '') redirs) @ s) = concat (map (\<lambda>(t, f). [Sym t, Word f]) redirs) @ tokens s"
  by (induction redirs) (auto simp: tokens_word)

lemma read_args: "length a + length args < MAXARGS \<Longrightarrow> read_stages a r (map Word args @ ts) = read_stages (a @ args) r ts"
  by (induction args arbitrary: a) simp_all

lemma read_redirs:
  "\<forall>(t, f)\<in>set redirs. t = CHR ''<'' \<or> t = CHR ''>'' \<Longrightarrow>
   read_stages a r (concat (map (\<lambda>(t, f). [Sym t, Word f]) redirs) @ ts) = read_stages a (r @ redirs) ts"
  by (induction redirs arbitrary: r) auto

lemma read_stage:
  assumes "stage_ok x"
  shows "read_stages [] [] (tokens (stage_text x @ s)) = read_stages (fst x) (snd x) (tokens s)"
proof -
  obtain args redirs where x: "x = (args, redirs)" by force
  have r: "\<forall>(t, f)\<in>set redirs. (t = CHR ''<'' \<or> t = CHR ''>'') \<and> word_ok f" using assms x by (simp add: stage_ok_def)
  then have r': "\<forall>(t, f)\<in>set redirs. t = CHR ''<'' \<or> t = CHR ''>''" by fast
  have "tokens (stage_text x @ s) = map Word args @ concat (map (\<lambda>(t, f). [Sym t, Word f]) redirs) @ tokens s"
    using assms tokens_args [of args] tokens_redirs [OF r] unfolding x by (simp add: stage_ok_def)
  then show ?thesis using assms x read_args [of "[]" args] read_redirs [OF r'] by (simp add: stage_ok_def)
qed

lemma read_stages_text: "xs \<noteq> [] \<Longrightarrow> \<forall>x\<in>set xs. stage_ok x \<Longrightarrow> read_stages [] [] (tokens (stages_text xs)) = Inr xs"
proof (induction xs rule: stages_text.induct)
  case (2 x)
  then show ?case using read_stage [of x "[]"] by simp
next
  case (3 x y xs)
  then show ?case using read_stage [of x "''| '' @ stages_text (y # xs)"] by simp
qed simp

lemma stage_text_no_nul:
  assumes "stage_ok x" "c \<in> set (stage_text x)"
  shows "c \<noteq> CHR 0x00"
proof -
  obtain args redirs where x: "x = (args, redirs)" by force
  from assms(2) x consider "c = CHR '' ''" | w where "w \<in> set args" "c \<in> set w" | t f where "(t, f) \<in> set redirs" "c = t \<or> c \<in> set f"
    by (auto split: if_splits)
  then show ?thesis using assms(1) x by cases (fastforce simp: stage_ok_def word_ok_def)+
qed

lemma stages_text_no_nul: "\<forall>x\<in>set xs. stage_ok x \<Longrightarrow> c \<in> set (stages_text xs) \<Longrightarrow> c \<noteq> CHR 0x00"
  by (induction xs rule: stages_text.induct) (use stage_text_no_nul in auto)

text \<open>
  C33: printing a pipeline of commands with arguments and redirections and parsing the text yields that pipeline.
\<close>

theorem parsecmd_roundtrip:
  assumes "xs \<noteq> []" "\<forall>x\<in>set xs. stage_ok x"
  shows "parsecmd (stages_text xs) = Inr (stages_cmd xs)"
proof -
  have line: "takeWhile (\<lambda>c. c \<noteq> CHR 0x00) (stages_text xs) = stages_text xs"
    using stages_text_no_nul [OF assms(2)] unfolding takeWhile_eq_all_conv by blast
  show ?thesis unfolding parsecmd_stages line by (simp add: read_stages_text [OF assms])
qed

theorem parsecmd_roundtrip_witness:
  "parsecmd (stages_text [([''sort'', ''-r''], [(CHR ''<'', ''a'')]), ([''uniq''], []), ([''wc''], [(CHR ''>'', ''b'')])]) =
   Inr (stages_cmd [([''sort'', ''-r''], [(CHR ''<'', ''a'')]), ([''uniq''], []), ([''wc''], [(CHR ''>'', ''b'')])])"
  by (rule parsecmd_roundtrip) (simp_all add: stage_ok_def word_ok_def wordchar_def whitespace_def MAXARGS_def)

section \<open>What a line runs\<close>

definition redirected :: "(char \<times> string) list \<Rightarrow> sh_fds \<Rightarrow> sh_fds" where
  "redirected redirs fds =
     foldr (\<lambda>(t, f) fds. if t = CHR ''<'' then fds(0 \<mapsto> Opened f [O_RDONLY])
       else fds(1 \<mapsto> Opened f [O_WRONLY, O_CREAT, O_TRUNC])) redirs fds"

text \<open>Pipe number \<open>n\<close> is between the first two stages, the next ones follow.\<close>

fun stage_events :: "stage list \<Rightarrow> sh_fds \<Rightarrow> nat \<Rightarrow> sh_event list" where
  "stage_events [] fds n = []"
| "stage_events [(args, redirs)] fds n = [Ran args (redirected redirs fds)]"
| "stage_events ((args, redirs) # x # xs) fds n =
     Ran args (redirected redirs (fds(1 \<mapsto> Pipe_write n))) # stage_events (x # xs) (fds(0 \<mapsto> Pipe_read n)) (n + 1)"

text \<open>Standard input and output are open, and two descriptors are free.\<close>

definition roomy :: "nat \<Rightarrow> sh_fds \<Rightarrow> bool" where
  "roomy m fds \<longleftrightarrow> fds 0 \<noteq> None \<and> fds 1 \<noteq> None \<and> (\<exists>i j. i < j \<and> j < m \<and> fds i = None \<and> fds j = None)"

lemma roomy_upd:
  assumes "roomy m fds" "c = 0 \<or> c = 1"
  shows "roomy m (fds(c \<mapsto> x))"
proof -
  obtain i j where ij: "i < j" "j < m" "fds i = None" "fds j = None" "fds 0 \<noteq> None" "fds 1 \<noteq> None"
    using assms(1) by (auto simp: roomy_def)
  then have "i \<noteq> c" "j \<noteq> c" using assms(2) by metis+
  then have "(fds(c \<mapsto> x)) i = None \<and> (fds(c \<mapsto> x)) j = None \<and> (fds(c \<mapsto> x)) 0 \<noteq> None \<and> (fds(c \<mapsto> x)) 1 \<noteq> None"
    using ij(3-6) by simp
  then show ?thesis unfolding roomy_def using ij(1,2) by blast
qed

lemma roomy_free:
  assumes "roomy m fds" "fds i = None"
  shows "i \<noteq> 0" "i \<noteq> 1" "1 < m"
proof -
  show i: "i \<noteq> 0" "i \<noteq> 1" using assms by (metis roomy_def)+
  obtain a b where "a < b" "b < m" "fds a = None" using assms by (auto simp: roomy_def)
  moreover have "a \<noteq> 0" "a \<noteq> 1" using assms(1) calculation(3) by (metis roomy_def)+
  ultimately show "1 < m" by simp
qed

lemma lowest_free_Some: "lowest_free m fds = Some i \<Longrightarrow> i < m \<and> fds i = None"
  by (auto simp: lowest_free_def find_Some_iff)

lemma lowest_free_ex: "i < m \<Longrightarrow> fds i = None \<Longrightarrow> \<exists>j. lowest_free m fds = Some j \<and> j \<le> i"
proof -
  assume i: "i < m" "fds i = None"
  then obtain j where j: "lowest_free m fds = Some j"
    by (cases "lowest_free m fds") (auto simp: lowest_free_def find_None_iff)
  then have "\<forall>k<j. fds k \<noteq> None" by (auto simp: lowest_free_def find_Some_iff)
  then show ?thesis using i(2) j by (metis not_less)
qed

lemma redirfd_runs:
  assumes "fds i = Some f" "i \<noteq> j" "j < open_max H"
  shows "redirfd H i j fds = Some (fds(j \<mapsto> f, i := None))"
  using assms by (simp add: redirfd_def host_dup2_def)

lemma upd_undo: "i \<noteq> j \<Longrightarrow> fds i = None \<Longrightarrow> (fds(i \<mapsto> x))(j \<mapsto> y, i := None) = fds(j \<mapsto> y)"
  by (rule ext) simp

lemma open_runs:
  assumes r: "roomy (open_max H) fds" and ok: "can_open H file flags" and j: "j = 0 \<or> j = 1"
  shows "\<exists>i fds'. host_open H file flags fds = Some (i, fds') \<and> redirfd H i j fds' = Some (fds(j \<mapsto> Opened file flags))"
proof -
  obtain i where i: "lowest_free (open_max H) fds = Some i" using r lowest_free_ex unfolding roomy_def by (metis less_trans)
  have f: "i < open_max H" "fds i = None" using lowest_free_Some [OF i] by auto
  have ij: "i \<noteq> j" "j < open_max H" using roomy_free [OF r f(2)] j by auto
  have o: "host_open H file flags fds = Some (i, fds(i \<mapsto> Opened file flags))" using ok i by (simp add: host_open_def)
  have r: "redirfd H i j (fds(i \<mapsto> Opened file flags)) = Some (fds(j \<mapsto> Opened file flags))"
    using redirfd_runs [of "fds(i \<mapsto> Opened file flags)" i "Opened file flags" j H] ij
      upd_undo [of i j fds "Opened file flags", OF ij(1) f(2)] by simp
  show ?thesis by (intro exI conjI, rule o, rule r)
qed

lemma pipe_runs:
  assumes r: "roomy (open_max H) fds" and ok: "pipe_ok H n"
  shows "\<exists>p0 p1 fds'. host_pipe H n fds = Some (p0, p1, fds') \<and>
    redirfd H p1 1 (fds'(p0 := None)) = Some (fds(1 \<mapsto> Pipe_write n)) \<and>
    redirfd H p0 0 (fds'(p1 := None)) = Some (fds(0 \<mapsto> Pipe_read n))"
proof -
  obtain a b where ab: "a < b" "b < open_max H" "fds a = None" "fds b = None" using r by (auto simp: roomy_def)
  obtain i where i: "lowest_free (open_max H) fds = Some i" "i \<le> a" using lowest_free_ex [of a "open_max H" fds] ab by auto
  have "(fds(i \<mapsto> Pipe_read n)) b = None" using i ab by simp
  from lowest_free_ex [of b "open_max H" "fds(i \<mapsto> Pipe_read n)", OF ab(2) this] obtain j where j: "lowest_free (open_max H) (fds(i \<mapsto> Pipe_read n)) = Some j" by blast
  have f: "i < open_max H" "fds i = None" "j < open_max H" "fds j = None" "j \<noteq> i"
    using lowest_free_Some [OF i(1)] lowest_free_Some [OF j] by (auto split: if_splits)
  note ne = roomy_free [OF r f(2)] roomy_free [OF r f(4)]
  let ?fds = "fds(i \<mapsto> Pipe_read n, j \<mapsto> Pipe_write n)"
  have swap: "?fds(i := None) = fds(j \<mapsto> Pipe_write n)" "?fds(j := None) = fds(i \<mapsto> Pipe_read n)"
    by (rule ext, use f in simp)+
  have o: "host_pipe H n fds = Some (i, j, ?fds)" using ok i j by (simp add: host_pipe_def)
  have r1: "redirfd H j 1 (?fds(i := None)) = Some (fds(1 \<mapsto> Pipe_write n))"
    unfolding swap using redirfd_runs [of "fds(j \<mapsto> Pipe_write n)" j "Pipe_write n" 1 H] ne
      upd_undo [of j 1 fds "Pipe_write n", OF ne(5) f(4)] by simp
  have r0: "redirfd H i 0 (?fds(j := None)) = Some (fds(0 \<mapsto> Pipe_read n))"
    unfolding swap using redirfd_runs [of "fds(i \<mapsto> Pipe_read n)" i "Pipe_read n" 0 H] ne
      upd_undo [of i 0 fds "Pipe_read n", OF ne(1) f(2)] by simp
  show ?thesis by (intro exI conjI, rule o, rule r1, rule r0)
qed

definition host_ok :: "host \<Rightarrow> bool" where
  "host_ok H \<longleftrightarrow> (\<forall>f flags. can_open H f flags) \<and> (\<forall>n. pipe_ok H n \<and> fork_ok H n) \<and> (\<forall>argv. can_exec H argv)"

lemma stage_runs:
  assumes "roomy (open_max H) fds" "host_ok H" "args \<noteq> []" "\<forall>(t, f)\<in>set redirs. t = CHR ''<'' \<or> t = CHR ''>''"
  shows "runcmd H (stage_cmd args redirs) fds n = ([Ran args (redirected redirs fds)], n)"
  using assms
proof (induction redirs arbitrary: fds rule: rev_induct)
  case Nil
  then show ?case by (simp add: stage_cmd_def redirected_def host_ok_def)
next
  case (snoc x redirs)
  obtain t f where x: "x = (t, f)" by force
  let ?flags = "if t = CHR ''<'' then [O_RDONLY] else [O_WRONLY, O_CREAT, O_TRUNC]"
  let ?j = "if t = CHR ''<'' then 0 else 1 :: nat"
  have c: "stage_cmd args (redirs @ [x]) = Redir_cmd t (stage_cmd args redirs) f ?flags ?j"
    using x stage_cmd_redir [of args redirs f t] by (simp add: redircmd_def)
  have ok: "can_open H f ?flags" "?j = 0 \<or> ?j = 1" using snoc.prems(2) by (auto simp: host_ok_def)
  obtain i fds' where o: "host_open H f ?flags fds = Some (i, fds')" "redirfd H i ?j fds' = Some (fds(?j \<mapsto> Opened f ?flags))"
    using open_runs [OF snoc.prems(1) ok] by blast
  have "roomy (open_max H) (fds(?j \<mapsto> Opened f ?flags))" by (rule roomy_upd [OF snoc.prems(1)]) simp
  then have run: "runcmd H (stage_cmd args redirs) (fds(?j \<mapsto> Opened f ?flags)) n =
      ([Ran args (redirected redirs (fds(?j \<mapsto> Opened f ?flags)))], n)"
    by (rule snoc.IH) (use snoc.prems(2-4) in simp_all)
  have "redirected (redirs @ [x]) fds = redirected redirs (fds(?j \<mapsto> Opened f ?flags))"
    unfolding x by (simp add: redirected_def)
  then show ?case unfolding c using o run by simp
qed

lemma stages_run:
  assumes "roomy (open_max H) fds" "host_ok H" "xs \<noteq> []"
    and "\<forall>(args, redirs)\<in>set xs. args \<noteq> [] \<and> (\<forall>(t, f)\<in>set redirs. t = CHR ''<'' \<or> t = CHR ''>'')"
  shows "fst (runcmd H (stages_cmd xs) fds n) = stage_events xs fds n"
  using assms
proof (induction xs fds n rule: stage_events.induct)
  case (2 args redirs fds n)
  then show ?case by (simp add: stage_runs)
next
  case (3 args redirs x xs fds n)
  obtain p0 p1 fds' where p: "host_pipe H n fds = Some (p0, p1, fds')"
      "redirfd H p1 1 (fds'(p0 := None)) = Some (fds(1 \<mapsto> Pipe_write n))"
      "redirfd H p0 0 (fds'(p1 := None)) = Some (fds(0 \<mapsto> Pipe_read n))"
    using pipe_runs [OF 3(2), of n] 3(3) unfolding host_ok_def by blast
  have left: "runcmd H (stage_cmd args redirs) (fds(1 \<mapsto> Pipe_write n)) (Suc n) =
      ([Ran args (redirected redirs (fds(1 \<mapsto> Pipe_write n)))], Suc n)"
    by (rule stage_runs [OF roomy_upd [OF 3(2)] 3(3)]) (use 3(5) in simp_all)
  have right: "fst (runcmd H (stages_cmd (x # xs)) (fds(0 \<mapsto> Pipe_read n)) (Suc n)) =
      stage_events (x # xs) (fds(0 \<mapsto> Pipe_read n)) (Suc n)"
    unfolding Suc_eq_plus1 by (rule 3(1) [OF roomy_upd [OF 3(2)] 3(3)]) (use 3(5) in simp_all)
  have "fork_ok H n" using 3(3) by (simp add: host_ok_def)
  then show ?case using p left right by (auto simp: pipecmd_def split: prod.splits)
qed simp

lemma read_stages_redirs:
  assumes "read_stages args redirs ts = Inr xs" "\<forall>(t, f)\<in>set redirs. t = CHR ''<'' \<or> t = CHR ''>''"
    and "\<forall>c. Sym c \<in> set ts \<longrightarrow> c \<in> set symbols"
  shows "xs \<noteq> [] \<and> (\<forall>(a, rs)\<in>set xs. \<forall>(t, f)\<in>set rs. t = CHR ''<'' \<or> t = CHR ''>'')"
  using assms
proof (induction args redirs ts arbitrary: xs rule: read_stages.induct)
  case (3 args redirs c ts)
  show ?case
  proof (cases "c = CHR ''|''")
    case True
    then obtain ys where ys: "read_stages [] [] ts = Inr ys" "xs = (args, redirs) # ys"
      using 3(3) by (cases "read_stages [] [] ts") auto
    then show ?thesis using 3(1) [OF True ys(1)] 3(4,5) by simp
  next
    case False
    then obtain f ts' where ts: "ts = Word f # ts'" "read_stages args (redirs @ [(c, f)]) ts' = Inr xs"
      using 3(3) by (cases ts) (auto split: sh_tok.splits)
    have "c \<in> set symbols" using 3(5) by auto
    then have c: "c = CHR ''<'' \<or> c = CHR ''>''" using False by simp
    show ?thesis by (rule 3(2) [OF False ts(1) refl ts(2)]) (use 3(4,5) c ts(1) in auto)
  qed
qed (auto split: if_splits)

lemma tokens_symbols: "Sym c \<in> set (tokens s) \<Longrightarrow> c \<in> set symbols"
  by (induction s rule: tokens.induct) (auto split: if_splits)

text \<open>
  C22: when a line is well formed and every call of the host succeeds, each stage runs its program once, from left to
  right, with its standard output on the pipe that is the next stage's standard input, unless it is redirected. Of
  several redirections of the same descriptor the first one is in force.
\<close>

theorem shell_runs_pipeline:
  assumes "read_stages [] [] (tokens (takeWhile (\<lambda>c. c \<noteq> CHR 0x00) line)) = Inr xs" "\<forall>x\<in>set xs. fst x \<noteq> []"
    and "roomy (open_max H) fds" "host_ok H"
  shows "\<exists>cmd. parsecmd line = Inr cmd \<and> fst (runcmd H cmd fds n) = stage_events xs fds n"
proof -
  have x: "xs \<noteq> []" "\<forall>(a, rs)\<in>set xs. \<forall>(t, f)\<in>set rs. t = CHR ''<'' \<or> t = CHR ''>''"
    using read_stages_redirs [OF assms(1)] tokens_symbols by auto
  have "\<forall>(args, redirs)\<in>set xs. args \<noteq> [] \<and> (\<forall>(t, f)\<in>set redirs. t = CHR ''<'' \<or> t = CHR ''>'')"
    using x(2) assms(2) by fastforce
  then show ?thesis using stages_run [OF assms(3,4) x(1)] assms(1) by (simp add: parsecmd_stages)
qed

definition demo_host :: host where
  "demo_host = \<lparr>open_max = 16, can_open = (\<lambda>_ _. True), pipe_ok = (\<lambda>_. True), fork_ok = (\<lambda>_. True), can_exec = (\<lambda>_. True)\<rparr>"

definition demo_fds :: sh_fds where
  "demo_fds = (\<lambda>i. if i < 3 then Some (Inherited i) else None)"

lemma demo_host_ok: "host_ok demo_host" "roomy (open_max demo_host) demo_fds"
proof -
  show "host_ok demo_host" by (simp add: host_ok_def demo_host_def)
  have "(3 :: nat) < 4" "4 < open_max demo_host" "demo_fds 3 = None" "demo_fds 4 = None" "demo_fds 0 \<noteq> None" "demo_fds 1 \<noteq> None"
    by (simp_all add: demo_host_def demo_fds_def)
  then show "roomy (open_max demo_host) demo_fds" unfolding roomy_def by blast
qed

theorem shell_runs_pipeline_witness:
  "\<exists>cmd. parsecmd ''ls | sort >f >g'' = Inr cmd \<and> fst (runcmd demo_host cmd demo_fds 0) =
     [Ran [''ls''] (demo_fds(1 \<mapsto> Pipe_write 0)),
      Ran [''sort''] (demo_fds(0 \<mapsto> Pipe_read 0, 1 \<mapsto> Opened ''g'' [O_WRONLY, O_CREAT, O_TRUNC],
        1 \<mapsto> Opened ''f'' [O_WRONLY, O_CREAT, O_TRUNC]))]"
proof -
  have "read_stages [] [] (tokens (takeWhile (\<lambda>c. c \<noteq> CHR 0x00) ''ls | sort >f >g'')) =
      Inr [([''ls''], []), ([''sort''], [(CHR ''>'', ''f''), (CHR ''>'', ''g'')])]"
    by (simp add: whitespace_def wordchar_def MAXARGS_def)
  from shell_runs_pipeline [OF this _ demo_host_ok(2,1), of 0] show ?thesis by (simp add: redirected_def)
qed

end
