(* ===== verification/Jos_Shell_Props.thy ===== *)
theory Jos_Shell_Props
  imports Jos_Shell Shell_Props
begin

text \<open>
  What a pipeline runs under the shell of JOS, and two lines with which it writes beyond its arrays.
\<close>

section \<open>Reading the tokens of a printed line\<close>

definition jos_word_ok :: "string \<Rightarrow> bool" where
  "jos_word_ok w \<longleftrightarrow> w \<noteq> [] \<and> (\<forall>c\<in>set w. jos_wordchar c \<and> c \<noteq> CHR 0x00)"

abbreviation looking_at :: "string \<Rightarrow> ahead" where
  "looking_at s \<equiv> scan_token (Some s)"

lemma jos_white_simps [simp]:
  "CHR '' '' \<in> set JOS_WHITESPACE" "CHR ''|'' \<notin> set JOS_WHITESPACE" "CHR ''>'' \<notin> set JOS_WHITESPACE"
  "CHR ''|'' \<in> set JOS_SYMBOLS" "CHR ''>'' \<in> set JOS_SYMBOLS" "\<not> jos_wordchar (CHR '' '')"
  by (simp_all add: JOS_WHITESPACE_def JOS_SYMBOLS_def jos_wordchar_def)

lemma looking_at_space [simp]: "looking_at (CHR '' '' # s) = looking_at s"
  by (simp add: scan_token_def)

lemma looking_at_end [simp]: "jos_gettoken (looking_at []) = (CHR 0x00, [], (CHR 0x00, [], None))"
  by (simp add: scan_token_def jos_gettoken_def)

lemma looking_at_symbol:
  "c \<in> set JOS_SYMBOLS \<Longrightarrow> c \<notin> set JOS_WHITESPACE \<Longrightarrow> jos_gettoken (looking_at (c # s)) = (c, [c], looking_at s)"
  by (simp add: scan_token_def jos_gettoken_def)

lemma looking_at_word:
  assumes "jos_word_ok w"
  shows "jos_gettoken (looking_at (w @ CHR '' '' # s)) = (CHR ''w'', w, looking_at s)"
proof -
  obtain c v where w: "w = c # v" using assms by (cases w) (auto simp: jos_word_ok_def)
  have all: "\<forall>x\<in>set w. jos_wordchar x" using assms by (simp add: jos_word_ok_def)
  have c: "c \<notin> set JOS_WHITESPACE" "c \<notin> set JOS_SYMBOLS" "jos_wordchar c" using all w by (auto simp: jos_wordchar_def)
  have "takeWhile jos_wordchar (w @ CHR '' '' # s) = w" "dropWhile jos_wordchar (w @ CHR '' '' # s) = CHR '' '' # s"
    using all by (simp_all add: takeWhile_append2 dropWhile_append2)
  moreover have "looking_at (w @ CHR '' '' # s) =
      (CHR ''w'', takeWhile jos_wordchar (w @ CHR '' '' # s), Some (dropWhile jos_wordchar (w @ CHR '' '' # s)))"
    using c unfolding w by (simp add: scan_token_def)
  ultimately show ?thesis by (simp add: jos_gettoken_def)
qed

section \<open>Running the parts of a line\<close>

definition jos_redirected :: "(char \<times> string) list \<Rightarrow> sh_fds \<Rightarrow> sh_fds" where
  "jos_redirected outs fds = foldl (\<lambda>fds (t, f). fds(1 \<mapsto> Opened f [O_WRONLY, O_CREAT, O_TRUNC])) fds outs"

lemma run_words:
  "\<forall>w\<in>set args. jos_word_ok w \<Longrightarrow> length argv + length args \<le> JOS_MAXARGS \<Longrightarrow>
   jos_runcmd_loop H n (looking_at (concat (map (\<lambda>w. w @ '' '') args) @ s)) argv fds =
   jos_runcmd_loop H n (looking_at s) (argv @ args) fds"
proof (induction args arbitrary: argv)
  case (Cons w args)
  then show ?case
    by (subst jos_runcmd_loop.simps) (simp add: looking_at_word)
qed simp

lemma roomy_redirected: "roomy m fds \<Longrightarrow> roomy m (jos_redirected outs fds)"
  by (induction outs rule: rev_induct) (auto simp: jos_redirected_def intro!: roomy_upd)

lemma jos_open_runs:
  assumes r: "roomy jos_maxfd fds" and ok: "jos_can_open H f"
  shows "\<exists>i fds'. jos_open H f fds = Some (i, fds') \<and> move_fd i 1 fds' = fds(1 \<mapsto> Opened f [O_WRONLY, O_CREAT, O_TRUNC])"
proof -
  obtain i where i: "lowest_free jos_maxfd fds = Some i"
    using r lowest_free_ex unfolding roomy_def by (metis less_trans)
  note f = conjunct2 [OF lowest_free_Some [OF i]]
  note ne = roomy_free(2) [OF r f]
  let ?x = "Opened f [O_WRONLY, O_CREAT, O_TRUNC]"
  have o: "jos_open H f fds = Some (i, fds(i \<mapsto> ?x))" using ok i by (simp add: jos_open_def)
  have m: "move_fd i 1 (fds(i \<mapsto> ?x)) = fds(1 \<mapsto> ?x)"
    using upd_undo [of i 1 fds ?x ?x, OF ne f] ne by (simp add: move_fd_def)
  show ?thesis by (intro exI conjI, rule o, rule m)
qed

lemma run_outs:
  "\<forall>(t, f)\<in>set outs. t = CHR ''>'' \<and> jos_word_ok f \<Longrightarrow> roomy jos_maxfd fds \<Longrightarrow> \<forall>f. jos_can_open H f \<Longrightarrow>
   jos_runcmd_loop H n (looking_at (concat (map (\<lambda>(t, f). [t] @ f @ '' '') outs) @ s)) argv fds =
   jos_runcmd_loop H n (looking_at s) argv (jos_redirected outs fds)"
proof (induction outs arbitrary: fds)
  case Nil
  then show ?case by (simp add: jos_redirected_def)
next
  case (Cons x outs)
  obtain f where x: "x = (CHR ''>'', f)" "jos_word_ok f" using Cons.prems(1) by (cases x) auto
  obtain i fds' where o: "jos_open H f fds = Some (i, fds')"
      "move_fd i 1 fds' = fds(1 \<mapsto> Opened f [O_WRONLY, O_CREAT, O_TRUNC])"
    using jos_open_runs [OF Cons.prems(2), of H f] Cons.prems(3) by blast
  let ?fds = "fds(1 \<mapsto> Opened f [O_WRONLY, O_CREAT, O_TRUNC])"
  have "jos_runcmd_loop H n (looking_at (concat (map (\<lambda>(t, f). [t] @ f @ '' '') (x # outs)) @ s)) argv fds =
      jos_runcmd_loop H n (looking_at (concat (map (\<lambda>(t, f). [t] @ f @ '' '') outs) @ s)) argv ?fds"
    using o x by (subst jos_runcmd_loop.simps) (simp add: looking_at_symbol looking_at_word)
  also have "\<dots> = jos_runcmd_loop H n (looking_at s) argv (jos_redirected outs ?fds)"
    by (rule Cons.IH [OF _ roomy_upd [OF Cons.prems(2)] Cons.prems(3)]) (use Cons.prems(1) in auto)
  finally show ?case using x(1) by (simp add: jos_redirected_def)
qed

lemma jos_pipe_runs:
  assumes r: "roomy jos_maxfd fds" and ok: "jos_pipe_ok H n"
  shows "\<exists>p0 p1 fds'. jos_pipe H n fds = Some (p0, p1, fds') \<and>
    (move_fd p1 1 fds')(p0 := None) = fds(1 \<mapsto> Pipe_write n) \<and>
    (move_fd p0 0 fds')(p1 := None) = fds(0 \<mapsto> Pipe_read n)"
proof -
  obtain a b where ab: "a < b" "b < jos_maxfd" "fds a = None" "fds b = None" using r by (auto simp: roomy_def)
  obtain i where i: "lowest_free jos_maxfd fds = Some i" "i \<le> a" using lowest_free_ex [of a jos_maxfd fds] ab by auto
  have "(fds(i \<mapsto> Pipe_read n)) b = None" using i ab by simp
  from lowest_free_ex [of b jos_maxfd "fds(i \<mapsto> Pipe_read n)", OF ab(2) this]
  obtain j where j: "lowest_free jos_maxfd (fds(i \<mapsto> Pipe_read n)) = Some j" by blast
  have f: "fds i = None" "fds j = None" "j \<noteq> i"
    using lowest_free_Some [OF i(1)] lowest_free_Some [OF j] by (auto split: if_splits)
  note ne = roomy_free(1,2) [OF r f(1)] roomy_free(1,2) [OF r f(2)]
  let ?fds = "fds(i \<mapsto> Pipe_read n, j \<mapsto> Pipe_write n)"
  have o: "jos_pipe H n fds = Some (i, j, ?fds)" using ok i j by (simp add: jos_pipe_def)
  have w: "(move_fd j 1 ?fds)(i := None) = fds(1 \<mapsto> Pipe_write n)"
    using ne f by (intro ext) (simp add: move_fd_def)
  have q: "(move_fd i 0 ?fds)(j := None) = fds(0 \<mapsto> Pipe_read n)"
    using ne f by (intro ext) (simp add: move_fd_def)
  show ?thesis by (intro exI conjI, rule o, rule w, rule q)
qed

section \<open>Pipelines\<close>

definition jos_prog :: "string list \<Rightarrow> string list" where
  "jos_prog args = (if take 1 (hd args) \<noteq> ''/'' then ''/'' @ hd args else hd args) # tl args"

text \<open>Pipe number \<open>n\<close> is between the first two stages; a stage inherits the output that the stage before it was given.\<close>

fun jos_events :: "stage list \<Rightarrow> sh_fds \<Rightarrow> nat \<Rightarrow> jos_event list" where
  "jos_events [] fds n = []"
| "jos_events [(args, outs)] fds n = [Spawned (jos_prog args) (jos_redirected outs fds)]"
| "jos_events ((args, outs) # x # xs) fds n =
     Spawned (jos_prog args) ((jos_redirected outs fds)(1 \<mapsto> Pipe_write n)) #
     jos_events (x # xs) ((jos_redirected outs fds)(0 \<mapsto> Pipe_read n)) (n + 1)"

definition jos_stage_ok :: "stage \<Rightarrow> bool" where
  "jos_stage_ok x \<longleftrightarrow> fst x \<noteq> [] \<and> length (fst x) < JOS_MAXARGS \<and> length (hd (fst x)) + 2 \<le> JOS_BUFSIZ \<and>
     (\<forall>w\<in>set (fst x). jos_word_ok w) \<and> (\<forall>(t, f)\<in>set (snd x). t = CHR ''>'' \<and> jos_word_ok f)"

definition jos_host_ok :: "jos_host \<Rightarrow> bool" where
  "jos_host_ok H \<longleftrightarrow> (\<forall>f. jos_can_open H f) \<and> (\<forall>n. jos_pipe_ok H n \<and> jos_fork_ok H n)"

lemma jos_runit_ok: "jos_stage_ok (args, outs) \<Longrightarrow> jos_runit args fds = Some (Spawned (jos_prog args) fds)"
  by (cases args) (auto simp: jos_runit_def jos_stage_ok_def jos_prog_def)

lemma run_stage:
  assumes "jos_stage_ok (args, outs)" "roomy jos_maxfd fds" "jos_host_ok H"
  shows "jos_runcmd_loop H n (looking_at (stage_text (args, outs) @ s)) [] fds =
    jos_runcmd_loop H n (looking_at s) args (jos_redirected outs fds)"
proof -
  have w: "\<forall>w\<in>set args. jos_word_ok w" "length ([] :: string list) + length args \<le> JOS_MAXARGS"
    "\<forall>(t, f)\<in>set outs. t = CHR ''>'' \<and> jos_word_ok f" "\<forall>f. jos_can_open H f"
    using assms(1,3) by (auto simp: jos_stage_ok_def jos_host_ok_def)
  show ?thesis
    using run_words [OF w(1,2)] run_outs [OF w(3) assms(2) w(4)] by simp
qed

lemma run_stages:
  assumes "\<forall>x\<in>set xs. jos_stage_ok x" "xs \<noteq> []" "roomy jos_maxfd fds" "jos_host_ok H"
  shows "jos_runcmd_loop H n (looking_at (stages_text xs)) [] fds = Some (jos_events xs fds n)"
  using assms
proof (induction xs fds n rule: jos_events.induct)
  case (2 args outs fds n)
  have ok: "jos_stage_ok (args, outs)" using 2 by simp
  have "jos_runcmd_loop H n (looking_at []) args fds' = Some [Spawned (jos_prog args) fds']" for fds'
    by (subst jos_runcmd_loop.simps) (simp add: jos_runit_ok [OF ok])
  then show ?case using run_stage [OF ok 2(3,4), of n "[]"] by simp
next
  case (3 args outs x xs fds n)
  have ok: "jos_stage_ok (args, outs)" using 3(2) by simp
  let ?fds = "jos_redirected outs fds"
  have r: "roomy jos_maxfd ?fds" by (rule roomy_redirected [OF 3(4)])
  have h: "jos_pipe_ok H n" "jos_fork_ok H n" using 3(5) by (simp_all add: jos_host_ok_def)
  obtain p0 p1 fds' where p: "jos_pipe H n ?fds = Some (p0, p1, fds')"
    "(move_fd p1 1 fds')(p0 := None) = ?fds(1 \<mapsto> Pipe_write n)" "(move_fd p0 0 fds')(p1 := None) = ?fds(0 \<mapsto> Pipe_read n)"
    using jos_pipe_runs [OF r h(1)] by blast
  have "jos_runcmd_loop H n (looking_at (''| '' @ stages_text (x # xs))) args ?fds =
      map_option ((#) (Spawned (jos_prog args) (?fds(1 \<mapsto> Pipe_write n))))
        (jos_runcmd_loop H (n + 1) (looking_at (stages_text (x # xs))) [] (?fds(0 \<mapsto> Pipe_read n)))"
    using p h(2) by (subst jos_runcmd_loop.simps) (simp add: looking_at_symbol jos_runit_ok [OF ok])
  also have "jos_runcmd_loop H (n + 1) (looking_at (stages_text (x # xs))) [] (?fds(0 \<mapsto> Pipe_read n)) =
      Some (jos_events (x # xs) (?fds(0 \<mapsto> Pipe_read n)) (n + 1))"
    by (rule 3(1) [OF _ _ roomy_upd [OF r] 3(5)]) (use 3(2) in simp_all)
  finally show ?case
    using run_stage [OF ok 3(4,5), of n "''| '' @ stages_text (x # xs)"] by (simp add: fun_upd_def)
qed simp

lemma jos_text_no_nul:
  assumes "\<forall>x\<in>set xs. (\<forall>w\<in>set (fst x). jos_word_ok w) \<and> (\<forall>(t, f)\<in>set (snd x). t = CHR ''>'' \<and> jos_word_ok f)"
    and "c \<in> set (stages_text xs)"
  shows "c \<noteq> CHR 0x00"
  using assms
proof (induction xs rule: stages_text.induct)
  case (2 x)
  then show ?case by (cases x) (fastforce simp: jos_word_ok_def split: if_splits)
next
  case (3 x y xs)
  then consider "c \<in> set (stage_text x)" | "c = CHR ''|''" | "c = CHR '' ''" | "c \<in> set (stages_text (y # xs))" by auto
  then show ?case
  proof cases
    case 1
    then show ?thesis using 3(2) by (cases x) (fastforce simp: jos_word_ok_def split: if_splits)
  qed (use 3 in simp_all)
qed simp

lemma jos_runcmd_text:
  assumes "\<forall>x\<in>set xs. (\<forall>w\<in>set (fst x). jos_word_ok w) \<and> (\<forall>(t, f)\<in>set (snd x). t = CHR ''>'' \<and> jos_word_ok f)"
  shows "jos_runcmd H n (stages_text xs) fds = jos_runcmd_loop H n (looking_at (stages_text xs)) [] fds"
proof -
  have line: "takeWhile (\<lambda>c. c \<noteq> CHR 0x00) (stages_text xs) = stages_text xs"
    using jos_text_no_nul [OF assms] unfolding takeWhile_eq_all_conv by blast
  show ?thesis unfolding jos_runcmd_def line ..
qed

text \<open>
  C25: suppose that every call of \<open>open\<close>, \<open>pipe\<close> and \<open>fork\<close> succeeds, that standard input and output are open and two
  descriptors free, and that the line is the text of a pipeline: stages of at least one and fewer than 16 arguments (sixteen overrun
  the array, as the next theorem states), the first of which fits into the buffer for the path, followed by output redirections, all
  words separated by single blanks. Then each program runs once, with its standard output on the pipe that the next one
  reads, whatever was redirected before the \<open>|\<close>; the redirection of a stage is instead in force for the stages after it, which are
  forked when it has been made. Of several redirections of a stage the last one is in force.
\<close>

theorem jos_shell_runs_pipeline:
  assumes "xs \<noteq> []" "\<forall>x\<in>set xs. jos_stage_ok x" "roomy jos_maxfd fds" "jos_host_ok H"
  shows "jos_runcmd H n (stages_text xs) fds = Some (jos_events xs fds n)"
proof -
  have "\<forall>x\<in>set xs. (\<forall>w\<in>set (fst x). jos_word_ok w) \<and> (\<forall>(t, f)\<in>set (snd x). t = CHR ''>'' \<and> jos_word_ok f)"
    using assms(2) unfolding jos_stage_ok_def by blast
  from jos_runcmd_text [OF this] show ?thesis using run_stages [OF assms(2,1,3,4)] by simp
qed

text \<open>
  A line with sixteen arguments is not refused, but the terminating null pointer is written behind the array
  of arguments.
\<close>

theorem jos_sixteen_arguments_overrun:
  assumes "length args = JOS_MAXARGS" "\<forall>w\<in>set args. jos_word_ok w"
  shows "jos_runcmd H n (stages_text [(args, [])]) fds = None"
proof -
  have "jos_runcmd H n (stages_text [(args, [])]) fds = jos_runcmd_loop H n (looking_at (stages_text [(args, [])])) [] fds"
    by (rule jos_runcmd_text) (use assms(2) in simp)
  also have "\<dots> = jos_runcmd_loop H n (looking_at []) args fds"
    using run_words [OF assms(2), of "[]" H n "[]" fds] assms(1) by simp
  also have "\<dots> = map_option (\<lambda>e. [e]) (jos_runit args fds)" by (subst jos_runcmd_loop.simps) simp
  also have "jos_runit args fds = None" using assms(1) by (cases args) (simp_all add: jos_runit_def JOS_MAXARGS_def)
  finally show ?thesis by simp
qed

definition demo_jos_host :: jos_host where
  "demo_jos_host = \<lparr>jos_can_open = (\<lambda>_. True), jos_pipe_ok = (\<lambda>_. True), jos_fork_ok = (\<lambda>_. True)\<rparr>"

lemma demo_roomy: "roomy jos_maxfd demo_fds"
proof -
  have "(3 :: nat) < 4" "4 < jos_maxfd" "demo_fds 3 = None" "demo_fds 4 = None" "demo_fds 0 \<noteq> None" "demo_fds 1 \<noteq> None"
    by (simp_all add: jos_maxfd_def demo_fds_def)
  then show ?thesis unfolding roomy_def by blast
qed

theorem jos_shell_runs_pipeline_witness:
  "jos_runcmd demo_jos_host 0 ''ls >f | sort '' demo_fds =
     Some [Spawned [''/ls''] (demo_fds(1 \<mapsto> Pipe_write 0)),
       Spawned [''/sort''] (demo_fds(0 \<mapsto> Pipe_read 0, 1 \<mapsto> Opened ''f'' [O_WRONLY, O_CREAT, O_TRUNC]))]"
proof -
  let ?xs = "[([''ls''], [(CHR ''>'', ''f'')]), ([''sort''], [])]"
  have ok: "\<forall>x\<in>set ?xs. jos_stage_ok x"
    by (simp add: jos_stage_ok_def jos_word_ok_def jos_wordchar_def JOS_WHITESPACE_def JOS_SYMBOLS_def JOS_MAXARGS_def JOS_BUFSIZ_def)
  have "jos_host_ok demo_jos_host" by (simp add: jos_host_ok_def demo_jos_host_def)
  from jos_shell_runs_pipeline [OF _ ok demo_roomy this, of 0]
  have "jos_runcmd demo_jos_host 0 ''ls >f | sort '' demo_fds = Some (jos_events ?xs demo_fds 0)" by simp
  moreover have "demo_fds(1 \<mapsto> Opened ''f'' [O_WRONLY, O_CREAT, O_TRUNC], 0 \<mapsto> Pipe_read 0) =
      demo_fds(0 \<mapsto> Pipe_read 0, 1 \<mapsto> Opened ''f'' [O_WRONLY, O_CREAT, O_TRUNC])" by (simp add: fun_upd_twist)
  ultimately show ?thesis by (simp add: jos_prog_def jos_redirected_def)
qed

theorem jos_sixteen_arguments_overrun_witness:
  "jos_runcmd demo_jos_host 0 (stages_text [(replicate 16 ''a'', [])]) demo_fds = None"
  by (rule jos_sixteen_arguments_overrun)
    (simp_all add: JOS_MAXARGS_def jos_word_ok_def jos_wordchar_def JOS_WHITESPACE_def JOS_SYMBOLS_def)

end
