(* ===== verification/User_Input.thy ===== *)
theory User_Input
  imports Main
begin

text \<open>
  Command lines of user programs: the iteration over options, \<^verbatim>\<open>lib/args.c\<close>, and the line editor,
  \<^verbatim>\<open>lib/readline.c\<close>. A string pointer is the rest of the string from there, NULL is None.
\<close>

section \<open>Options\<close>

text \<open>The array \<open>argv\<close> has \<open>argc\<close> entries, the first of which is the program's name.\<close>

record argstate =
  args_argv :: "string list"
  curarg :: "string option"
  argvalue :: "string option"

definition argstart :: "string list \<Rightarrow> argstate" where
  "argstart argv = \<lparr>args_argv = argv, curarg = (if length argv > 1 then Some [] else None), argvalue = None\<rparr>"

text \<open>The next option letter, or None for \<open>-1\<close>.\<close>

definition argnext :: "argstate \<Rightarrow> char option \<times> argstate" where
  "argnext st =
    (let st = st\<lparr>argvalue := None\<rparr>; endofargs = (\<lambda>st. (None, st\<lparr>curarg := None\<rparr>))
     in case curarg st of
       None \<Rightarrow> (None, st)
     | Some (c # cs) \<Rightarrow> (Some c, st\<lparr>curarg := Some cs\<rparr>)
     | Some [] \<Rightarrow>
         if length (args_argv st) = 1 \<or> take 1 (args_argv st ! 1) \<noteq> ''-'' \<or> length (args_argv st ! 1) = 1 then endofargs st
         else
           let cur = drop 1 (args_argv st ! 1);
               st = st\<lparr>args_argv := hd (args_argv st) # drop 2 (args_argv st)\<rparr>
           in if cur = ''-'' then endofargs st
              else (Some (hd cur), st\<lparr>curarg := Some (tl cur)\<rparr>))"

definition argnextvalue :: "argstate \<Rightarrow> string option \<times> argstate" where
  "argnextvalue st =
    (case curarg st of
       None \<Rightarrow> (None, st)
     | Some cur \<Rightarrow>
         let st = (if cur \<noteq> [] then st\<lparr>argvalue := Some cur, curarg := Some []\<rparr>
           else if length (args_argv st) > 1 then
             st\<lparr>argvalue := Some (args_argv st ! 1), args_argv := hd (args_argv st) # drop 2 (args_argv st)\<rparr>
           else st\<lparr>argvalue := None, curarg := None\<rparr>)
         in (argvalue st, st))"

definition get_argvalue :: "argstate \<Rightarrow> string option \<times> argstate" where
  "get_argvalue st = (if argvalue st \<noteq> None then (argvalue st, st) else argnextvalue st)"

definition args_left :: "argstate \<Rightarrow> nat" where
  "args_left st = (case curarg st of None \<Rightarrow> 0 | Some c \<Rightarrow> length c + size_list length (drop 1 (args_argv st)))"

lemma argnext_left: "argnext st = (Some c, st') \<Longrightarrow> args_argv st \<noteq> [] \<Longrightarrow> args_left st' < args_left st \<and> args_argv st' \<noteq> []"
proof (cases "args_argv st")
  case (Cons p as)
  then show "argnext st = (Some c, st') \<Longrightarrow> ?thesis"
    by (cases as) (auto simp: argnext_def args_left_def Let_def split: option.splits list.splits if_splits)
qed simp

text \<open>The loop \<open>while ((r = argnext(&args)) >= 0)\<close> of the programs: all the letters it sees.\<close>

function all_options :: "argstate \<Rightarrow> string \<times> argstate" where
  "all_options st =
    (if args_argv st = [] then ([], st)
     else case argnext st of
       (None, st) \<Rightarrow> ([], st)
     | (Some c, st) \<Rightarrow> let (cs, st) = all_options st in (c # cs, st))"
  by auto
termination
proof (relation "measure args_left", goal_cases)
  case (2 st r st' c)
  then have "argnext st = (Some c, st')" by simp
  then show ?case using argnext_left 2(1) by simp
qed simp

declare all_options.simps [simp del]

text \<open>What options are: letters after a dash, up to a word that is not one, a lone dash, or two dashes, which are skipped.\<close>

fun options :: "string list \<Rightarrow> string \<times> string list" where
  "options [] = ([], [])"
| "options (a # as) =
    (if take 1 a \<noteq> ''-'' \<or> a = ''-'' then ([], a # as)
     else if a = ''--'' then ([], as)
     else (drop 1 a @ fst (options as), snd (options as)))"

lemma two_dashes: "take (Suc 0) a = ''-'' \<Longrightarrow> drop (Suc 0) a = ''-'' \<Longrightarrow> a = ''--''"
  by (cases a) auto

lemma all_options_cur:
  assumes "args_argv st = p # as" "curarg st = Some cur"
  shows "all_options st = (cur @ fst (options as), \<lparr>args_argv = p # snd (options as), curarg = None, argvalue = None\<rparr>)"
  using assms
proof (induction st arbitrary: as cur rule: measure_induct_rule [of args_left])
  case (less st)
  have ih: "all_options st' = (cur' @ fst (options as'), \<lparr>args_argv = p # snd (options as'), curarg = None, argvalue = None\<rparr>)"
    if "argnext st = (Some c, st')" "args_argv st' = p # as'" "curarg st' = Some cur'" for c st' as' cur'
    using less.IH [OF _ that(2,3)] argnext_left [OF that(1)] less.prems(1) by simp
  show ?case
  proof (cases "\<exists>c st'. argnext st = (Some c, st')")
    case True
    then obtain c st' where n: "argnext st = (Some c, st')" by blast
    show ?thesis
    proof (cases cur)
      case (Cons d cs)
      then have "args_argv st' = p # as" "curarg st' = Some cs" "c = d"
        using n less.prems by (auto simp: argnext_def Let_def)
      then show ?thesis using ih [OF n] n Cons less.prems by (subst all_options.simps) simp
    next
      case Nil
      then obtain w as' where w: "as = w # as'" "take 1 w = ''-''" "w \<noteq> ''-''" "w \<noteq> ''--''"
        using n less.prems by (cases as; cases "hd as") (auto simp: argnext_def Let_def split: if_splits)
      then obtain e v where v: "w = CHR ''-'' # e # v" by (cases w; cases "tl w") auto
      then have "args_argv st' = p # as'" "curarg st' = Some v" "c = e"
        using n less.prems Nil w by (auto simp: argnext_def Let_def split: if_splits)
      then show ?thesis using ih [OF n] n Nil less.prems w v by (subst all_options.simps) simp
    qed
  next
    case False
    then obtain st' where n: "argnext st = (None, st')" by (cases "argnext st"; cases "fst (argnext st)") auto
    have "cur = []" using n less.prems by (cases cur) (auto simp: argnext_def Let_def)
    then have "fst (options as) = [] \<and> st' = \<lparr>args_argv = p # snd (options as), curarg = None, argvalue = None\<rparr>"
      using n less.prems by (cases as; cases st) (auto simp: argnext_def Let_def length_Suc_conv dest: two_dashes split: if_splits)
    then show ?thesis using n \<open>cur = []\<close> less.prems by (subst all_options.simps) simp
  qed
qed

text \<open>
  C34: the loop over the options of a command line sees exactly the letters of the words that begin with a dash, in their order,
  up to the first word that is not an option, and leaves that word and the ones after it in \<open>argv\<close>.
\<close>

theorem argnext_enumerates_options:
  "all_options (argstart (p # as)) =
    (fst (options as), \<lparr>args_argv = p # snd (options as), curarg = None, argvalue = None\<rparr>)"
proof (cases as)
  case Nil
  then show ?thesis by (subst all_options.simps) (simp add: argstart_def argnext_def)
next
  case (Cons a as')
  then show ?thesis using all_options_cur [of "argstart (p # as)" p as "[]"] by (simp add: argstart_def)
qed

section \<open>Reading a line\<close>

definition BUFLEN :: nat where "BUFLEN = 1024"

text \<open>The line so far, and what has been echoed; \<open>echoing\<close> is whether the input is the console.\<close>

record line_state =
  line_buf :: "nat list"
  echoed :: "nat list"

definition echo :: "bool \<Rightarrow> nat \<Rightarrow> line_state \<Rightarrow> line_state" where
  "echo echoing c st = (if echoing then st\<lparr>echoed := echoed st @ [c]\<rparr> else st)"

text \<open>
  One character \<open>c\<close> from \<open>getchar\<close>; the second component is whether the line is complete.
\<close>

definition readline_char :: "bool \<Rightarrow> nat \<Rightarrow> line_state \<Rightarrow> line_state \<times> bool" where
  "readline_char echoing c st =
    (if (c = 8 \<or> c = 0x7F) \<and> line_buf st \<noteq> [] then
       ((echo echoing 8 st)\<lparr>line_buf := butlast (line_buf st)\<rparr>, False)
     else if c \<ge> 32 \<and> length (line_buf st) < BUFLEN - 1 then
       ((echo echoing c st)\<lparr>line_buf := line_buf st @ [c]\<rparr>, False)
     else if c = 10 \<or> c = 13 then (echo echoing 10 st, True)
     else (st, False))"

text \<open>The input ends with an error: None, for NULL. The rest of the input is returned with the line.\<close>

fun readline_loop :: "bool \<Rightarrow> nat list \<Rightarrow> line_state \<Rightarrow> nat list option \<times> line_state \<times> nat list" where
  "readline_loop echoing [] st = (None, st, [])"
| "readline_loop echoing (c # inp) st =
    (case readline_char echoing c st of
       (st, complete) \<Rightarrow> if complete then (Some (line_buf st), st, inp) else readline_loop echoing inp st)"

definition readline :: "bool \<Rightarrow> nat list \<Rightarrow> nat list option \<times> line_state \<times> nat list" where
  "readline echoing inp = readline_loop echoing inp \<lparr>line_buf = [], echoed = []\<rparr>"

text \<open>The text that is left on a screen when characters are written and backspaces erase.\<close>

definition on_screen :: "nat list \<Rightarrow> nat list" where
  "on_screen cs = foldl (\<lambda>line c. if c = 8 then butlast line else line @ [c]) [] cs"

lemma on_screen_snoc [simp]: "on_screen [] = []"
    "on_screen (cs @ [c]) = (if c = 8 then butlast (on_screen cs) else on_screen cs @ [c])"
  by (simp_all add: on_screen_def)

lemma readline_char_echo:
  assumes "readline_char True c st = (st', complete)" "on_screen (echoed st) = line_buf st" "length (line_buf st) \<le> 1023"
  shows "length (line_buf st') \<le> 1023" "on_screen (echoed st') = line_buf st' @ (if complete then [10] else [])"
  using assms by (auto simp: readline_char_def echo_def BUFLEN_def split: if_splits)

lemma readline_loop_echo:
  "readline_loop True inp st = (Some line, st', rest) \<Longrightarrow> on_screen (echoed st) = line_buf st \<Longrightarrow> length (line_buf st) \<le> 1023 \<Longrightarrow>
   length line \<le> 1023 \<and> on_screen (echoed st') = line @ [10]"
proof (induction True inp st rule: readline_loop.induct)
  case (2 c inp st)
  obtain st1 complete where c: "readline_char True c st = (st1, complete)" by force
  note e = readline_char_echo [OF c 2(3,4)]
  show ?case using 2(1) [OF c [symmetric]] 2(2) c e by (auto split: if_splits)
qed simp

text \<open>
  C35: with echoing, the line that \<open>readline\<close> returns is the one that is left on the screen: erased characters are gone from
  both, the ones that the full buffer refuses appear in neither, and the line with its terminator fits in the buffer.
\<close>

theorem readline_echo_agrees:
  assumes "readline True inp = (Some line, st, rest)"
  shows "on_screen (echoed st) = line @ [10] \<and> length line < BUFLEN"
  using readline_loop_echo [of inp] assms by (fastforce simp: readline_def BUFLEN_def)

theorem readline_echo_agrees_witness:
  "\<exists>st. readline True [108, 115, 120, 127, 13, 65] = (Some [108, 115], st, [65]) \<and> on_screen (echoed st) = [108, 115, 10]"
proof -
  obtain st where st: "readline True [108, 115, 120, 127, 13, 65] = (Some [108, 115], st, [65])"
    by (simp add: readline_def readline_char_def echo_def BUFLEN_def)
  from readline_echo_agrees [OF this] show ?thesis using st by simp
qed

text \<open>Erasing when nothing has been typed enters the character: DEL is printable for the test that follows.\<close>

theorem readline_del_on_empty_line:
  "fst (readline True [127, 10]) = Some [127]"
  by (simp add: readline_def readline_char_def echo_def BUFLEN_def)

end
