(* ===== verification/E1000.thy ===== *)
theory E1000
  imports Snapshot
begin

text \<open>
  The network card driver, \<^verbatim>\<open>kern/e1000.c\<close>: two rings of descriptors that the driver and
  the card share, and the registers of the card, an array of words. The packet buffers are in
  physical memory. What the card does on its own (sending, receiving, moving the head registers) is not
  part of the repository; where a property needs it, it is a hypothesis.
\<close>

section \<open>Registers and descriptors\<close>

definition E1000_NUM_TXDESC :: nat where "E1000_NUM_TXDESC = 64"
definition E1000_NUM_RXDESC :: nat where "E1000_NUM_RXDESC = 128"
definition E1000_PBS :: u16 where "E1000_PBS = 0x1008"

definition E1000_STATUS :: nat where "E1000_STATUS = 0x8 div 4"
definition E1000_TCTL :: nat where "E1000_TCTL = 0x400 div 4"
definition E1000_TIPG :: nat where "E1000_TIPG = 0x410 div 4"
definition E1000_TDBAL :: nat where "E1000_TDBAL = 0x3800 div 4"
definition E1000_TDLEN :: nat where "E1000_TDLEN = 0x3808 div 4"
definition E1000_TDH :: nat where "E1000_TDH = 0x3810 div 4"
definition E1000_TDT :: nat where "E1000_TDT = 0x3818 div 4"
definition E1000_RCTL :: nat where "E1000_RCTL = 0x100 div 4"
definition E1000_RDBAL :: nat where "E1000_RDBAL = 0x2800 div 4"
definition E1000_RDLEN :: nat where "E1000_RDLEN = 0x2808 div 4"
definition E1000_RDH :: nat where "E1000_RDH = 0x2810 div 4"
definition E1000_RDT :: nat where "E1000_RDT = 0x2818 div 4"
definition E1000_RAL :: nat where "E1000_RAL = 0x5400 div 4"
definition E1000_RAH :: nat where "E1000_RAH = 0x5404 div 4"

definition E1000_RAH_AV :: u32 where "E1000_RAH_AV = 0x80000000"
definition E1000_TXD_CMD_RS :: u8 where "E1000_TXD_CMD_RS = 8"
definition E1000_TXD_CMD_EOP :: u8 where "E1000_TXD_CMD_EOP = 1"
definition E1000_TXD_STAT_DD :: u8 where "E1000_TXD_STAT_DD = 1"
definition E1000_RXD_STAT_DD :: u8 where "E1000_RXD_STAT_DD = 1"
definition E1000_RXD_STAT_EOP :: u8 where "E1000_RXD_STAT_EOP = 2"
definition E1000_TCTL_EN :: u32 where "E1000_TCTL_EN = 0x2"
definition E1000_TCTL_PSP :: u32 where "E1000_TCTL_PSP = 0x8"
definition E1000_TCTL_CT :: u32 where "E1000_TCTL_CT = 0xFF0"
definition E1000_TCTL_COLD :: u32 where "E1000_TCTL_COLD = 0x3FF000"
definition E1000_RCTL_EN :: u32 where "E1000_RCTL_EN = 0x2"
definition E1000_RCTL_LPE :: u32 where "E1000_RCTL_LPE = 0x20"
definition E1000_RCTL_LBM_NO :: u32 where "E1000_RCTL_LBM_NO = 0"
definition E1000_RCTL_RDMTS :: u32 where "E1000_RCTL_RDMTS = 0x300"
definition E1000_RCTL_MO :: u32 where "E1000_RCTL_MO = 0x3000"
definition E1000_RCTL_SZ_2048 :: u32 where "E1000_RCTL_SZ_2048 = 0"
definition E1000_RCTL_SECRC :: u32 where "E1000_RCTL_SECRC = 0x4000000"

record e1000_tx_desc =
  tx_buffer_addr :: u64
  tx_length :: u16
  tx_cso :: u8
  tx_cmd :: u8
  tx_status :: u8
  tx_css :: u8
  tx_special :: u16

record e1000_rx_desc =
  rx_buffer_addr :: u64
  rx_length :: u16
  rx_csum :: u16
  rx_status :: u8
  rx_errors :: u8
  rx_special :: u16

record jos = kernel +
  e1000_mmio :: "nat \<Rightarrow> u32"
  tx_desc_queue :: "nat \<Rightarrow> e1000_tx_desc"
  rx_desc_queue :: "nat \<Rightarrow> e1000_rx_desc"

definition set_reg :: "nat \<Rightarrow> u32 \<Rightarrow> 'z jos_scheme \<Rightarrow> 'z jos_scheme" where
  "set_reg r v k = k\<lparr>e1000_mmio := (e1000_mmio k)(r := v)\<rparr>"

definition upd_reg :: "nat \<Rightarrow> (u32 \<Rightarrow> u32) \<Rightarrow> 'z jos_scheme \<Rightarrow> 'z jos_scheme" where
  "upd_reg r f k = set_reg r (f (e1000_mmio k r)) k"

definition set_tx :: "nat \<Rightarrow> e1000_tx_desc \<Rightarrow> 'z jos_scheme \<Rightarrow> 'z jos_scheme" where
  "set_tx i d k = k\<lparr>tx_desc_queue := (tx_desc_queue k)(i := d)\<rparr>"

definition set_rx :: "nat \<Rightarrow> e1000_rx_desc \<Rightarrow> 'z jos_scheme \<Rightarrow> 'z jos_scheme" where
  "set_rx i d k = k\<lparr>rx_desc_queue := (rx_desc_queue k)(i := d)\<rparr>"

section \<open>Initialisation\<close>

text \<open>
  Both arrays of buffers are declared with their dimensions swapped, so that the address
  \<open>&tx_bufs[i]\<close> is \<open>64 * i\<close> and \<open>&rx_bufs[i]\<close> is \<open>128 * i\<close> bytes
  into the array. The arguments are the physical addresses of the queues and of the buffers.
\<close>

definition tx_init_desc :: "u32 \<Rightarrow> nat \<Rightarrow> e1000_tx_desc" where
  "tx_init_desc bufs i = \<lparr>tx_buffer_addr = ucast (bufs + word_of_nat (i * E1000_NUM_TXDESC)),
     tx_length = 0, tx_cso = 0, tx_cmd = 0, tx_status = 0 OR E1000_TXD_STAT_DD, tx_css = 0, tx_special = 0\<rparr>"

definition rx_init_desc :: "u32 \<Rightarrow> nat \<Rightarrow> e1000_rx_desc" where
  "rx_init_desc bufs i = \<lparr>rx_buffer_addr = ucast (bufs + word_of_nat (i * E1000_NUM_RXDESC)),
     rx_length = 0, rx_csum = 0, rx_status = 0, rx_errors = 0, rx_special = 0\<rparr>"

definition e1000_tx_init :: "u32 \<Rightarrow> u32 \<Rightarrow> 'z jos_scheme \<Rightarrow> 'z jos_scheme" where
  "e1000_tx_init queue bufs k =
    (let k = set_reg E1000_TDBAL queue k;
         k = set_reg E1000_TDLEN (word_of_nat (E1000_NUM_TXDESC * 16)) k;
         k = set_reg E1000_TDH 0 k;
         k = set_reg E1000_TDT 0 k;
         k = upd_reg E1000_TCTL (\<lambda>v. v OR E1000_TCTL_EN) k;
         k = upd_reg E1000_TCTL (\<lambda>v. v OR E1000_TCTL_PSP) k;
         k = upd_reg E1000_TCTL (\<lambda>v. v AND NOT E1000_TCTL_CT) k;
         k = upd_reg E1000_TCTL (\<lambda>v. v OR push_bit 4 0x10) k;
         k = upd_reg E1000_TCTL (\<lambda>v. v AND NOT E1000_TCTL_COLD) k;
         k = upd_reg E1000_TCTL (\<lambda>v. v OR push_bit 12 0x40) k;
         k = set_reg E1000_TIPG 0 k;
         k = upd_reg E1000_TIPG (\<lambda>v. v OR push_bit 20 6) k;
         k = upd_reg E1000_TIPG (\<lambda>v. v OR push_bit 10 4) k;
         k = upd_reg E1000_TIPG (\<lambda>v. v OR 0xA) k
     in fold (\<lambda>i. set_tx i (tx_init_desc bufs i)) [0..<E1000_NUM_TXDESC] k)"

definition e1000_rx_init :: "u32 \<Rightarrow> u32 \<Rightarrow> 'z jos_scheme \<Rightarrow> 'z jos_scheme" where
  "e1000_rx_init queue bufs k =
    (let k = set_reg E1000_RAL 0x12005452 k;
         k = set_reg E1000_RAH 0x00005634 k;
         k = upd_reg E1000_RAH (\<lambda>v. v OR E1000_RAH_AV) k;
         k = set_reg E1000_RDBAL queue k;
         k = set_reg E1000_RDLEN (word_of_nat (E1000_NUM_RXDESC * 16)) k;
         k = set_reg E1000_RDH 0 k;
         k = set_reg E1000_RDT (word_of_nat (E1000_NUM_RXDESC - 1)) k;
         k = upd_reg E1000_RCTL (\<lambda>v. v OR E1000_RCTL_EN) k;
         k = upd_reg E1000_RCTL (\<lambda>v. v AND NOT E1000_RCTL_LPE) k;
         k = upd_reg E1000_RCTL (\<lambda>v. v OR E1000_RCTL_LBM_NO) k;
         k = upd_reg E1000_RCTL (\<lambda>v. v AND NOT E1000_RCTL_RDMTS) k;
         k = upd_reg E1000_RCTL (\<lambda>v. v AND NOT E1000_RCTL_MO) k;
         k = upd_reg E1000_RCTL (\<lambda>v. v OR E1000_RCTL_SZ_2048) k;
         k = upd_reg E1000_RCTL (\<lambda>v. v OR E1000_RCTL_SECRC) k
     in fold (\<lambda>i. set_rx i (rx_init_desc bufs i)) [0..<E1000_NUM_RXDESC] k)"

text \<open>
  \<open>e1000_attach\<close> after the PCI function has been enabled: the registers are mapped, the status
  register must show the expected device, and both rings are set up.
\<close>

definition e1000_attach ::
  "u32 \<Rightarrow> u32 \<Rightarrow> u32 \<Rightarrow> u32 \<Rightarrow> u32 \<Rightarrow> u32 \<Rightarrow> 'z jos_scheme \<Rightarrow> (u32 \<times> 'z jos_scheme) option" where
  "e1000_attach reg_base reg_size txq txbufs rxq rxbufs k = do {
     (mmiobase, k) \<leftarrow> mmio_map_region reg_base reg_size k;
     if e1000_mmio k E1000_STATUS \<noteq> 0x80080783 then None
     else Some (mmiobase, e1000_rx_init rxq rxbufs (e1000_tx_init txq txbufs k))
   }"

section \<open>Sending and receiving\<close>

fun store_bytes :: "u32 \<Rightarrow> u8 list \<Rightarrow> 'z pmem_scheme \<Rightarrow> 'z pmem_scheme" where
  "store_bytes pa [] s = s"
| "store_bytes pa (b # bs) s = store_bytes (pa + 1) bs (store_byte pa b s)"

definition load_bytes :: "'z pmem_scheme \<Rightarrow> u32 \<Rightarrow> nat \<Rightarrow> u8 list" where
  "load_bytes s pa n = map (\<lambda>i. load_byte s (pa + word_of_nat i)) [0..<n]"

fun kread_bytes :: "'z kernel_scheme \<Rightarrow> u32 \<Rightarrow> nat \<Rightarrow> u8 list option" where
  "kread_bytes k va 0 = Some []"
| "kread_bytes k va (Suc n) = do {
     b \<leftarrow> kread k va;
     bs \<leftarrow> kread_bytes k (va + 1) n;
     Some (b # bs)
   }"

definition e1000_transmit :: "u32 \<Rightarrow> u16 \<Rightarrow> 'z jos_scheme \<Rightarrow> (sysres \<times> 'z jos_scheme) option" where
  "e1000_transmit data len k =
    (let idx = e1000_mmio k E1000_TDT;
         next = tx_desc_queue k (unat idx)
     in if len > E1000_PBS then Some (Inl E_PKT_TOO_LONG, k)
        else if tx_status next AND E1000_TXD_STAT_DD \<noteq> 0 then do {
          _ \<leftarrow> KADDR k (ucast (tx_buffer_addr next));
          bytes \<leftarrow> kread_bytes k data (unat len);
          let k = store_bytes (ucast (tx_buffer_addr next)) bytes k;
              next = next\<lparr>tx_length := len, tx_cmd := tx_cmd next OR E1000_TXD_CMD_RS OR E1000_TXD_CMD_EOP,
                tx_status := tx_status next AND NOT E1000_TXD_STAT_DD\<rparr>;
              k = set_tx (unat idx) next k
          in Some (Inr 0, set_reg E1000_TDT ((idx + 1) mod word_of_nat E1000_NUM_TXDESC) k)
        }
        else Some (Inl E_TX_FULL, k))"

definition e1000_receive :: "'z jos_scheme \<Rightarrow> ((jos_error + u8 list) \<times> 'z jos_scheme) option" where
  "e1000_receive k =
    (let idx = (e1000_mmio k E1000_RDT + 1) mod word_of_nat E1000_NUM_RXDESC;
         next = rx_desc_queue k (unat idx)
     in if rx_status next AND E1000_RXD_STAT_DD \<noteq> 0 then do {
          _ \<leftarrow> KADDR k (ucast (rx_buffer_addr next));
          let bytes = load_bytes k (ucast (rx_buffer_addr next)) (unat (rx_length next));
              next = next\<lparr>rx_status := rx_status next AND NOT E1000_RXD_STAT_DD AND NOT E1000_RXD_STAT_EOP\<rparr>;
              k = set_rx (unat idx) next k
          in Some (Inr bytes, set_reg E1000_RDT idx k)
        }
        else Some (Inl E_RX_EMPTY, k))"

section \<open>The system calls\<close>

text \<open>
  A store by the kernel to a user address obeys the write bits of the page tables, as
  \<open>CR0_WP\<close> is set.
\<close>

definition mmu_writable :: "nat \<Rightarrow> u32 \<Rightarrow> 'z pmem_scheme \<Rightarrow> bool" where
  "mmu_writable cr3 va s \<longleftrightarrow>
    (let pde = phys s cr3 (pdx va)
     in pde AND PTE_W \<noteq> 0 \<and> (pde AND PTE_PS \<noteq> 0 \<or> phys s (ppn_of pde) (ptx va) AND PTE_W \<noteq> 0))"

definition kwrite :: "u32 \<Rightarrow> u8 \<Rightarrow> 'z kernel_scheme \<Rightarrow> 'z kernel_scheme option" where
  "kwrite va b k =
    (let cr3 = cpu_cr3 (cpus k (thiscpu k))
     in do {
       pa \<leftarrow> mmu_translate cr3 va k;
       if mmu_writable cr3 va k then Some (store_byte pa b k) else None
     })"

fun kwrite_bytes :: "u32 \<Rightarrow> u8 list \<Rightarrow> 'z kernel_scheme \<Rightarrow> 'z kernel_scheme option" where
  "kwrite_bytes va [] k = Some k"
| "kwrite_bytes va (b # bs) k = do { k \<leftarrow> kwrite va b k; kwrite_bytes (va + 1) bs k }"

definition sys_net_transmit :: "u32 \<Rightarrow> u16 \<Rightarrow> 'z jos_scheme \<Rightarrow> (sysres, 'z jos_scheme) run" where
  "sys_net_transmit data len k =
    (case curenv k of
       None \<Rightarrow> Panics
     | Some c \<Rightarrow> run_bind (user_mem_assert c data (ucast len) 0 k) (\<lambda>_ k. run_opt (e1000_transmit data len k)))"

definition sys_net_recv :: "u32 \<Rightarrow> 'z jos_scheme \<Rightarrow> (sysres, 'z jos_scheme) run" where
  "sys_net_recv buf k = run_bind (run_opt (e1000_receive k)) (\<lambda>r k.
     case r of
       Inl err \<Rightarrow> Returns (Inl err) k
     | Inr bytes \<Rightarrow>
         if bytes = [] then Returns (Inr 0) k
         else (case curenv k of
             None \<Rightarrow> Panics
           | Some c \<Rightarrow> run_bind (user_mem_assert c buf (word_of_nat (length bytes)) 0 k) (\<lambda>_ k.
               case env_pgdir (envs k c) of
                 None \<Rightarrow> Panics
               | Some pgdir \<Rightarrow>
                   let k = (if cpu_cr3 (cpus k (thiscpu k)) \<noteq> pgdir then lcr3 pgdir k else k)
                   in run_opt (map_option (\<lambda>k. (Inr (word_of_nat (length bytes)), k)) (kwrite_bytes buf bytes k)))))"

end
