(* ===== verification/Trap.thy ===== *)
theory Trap
  imports E1000
begin

text \<open>
  Entering the kernel: \<open>syscall\<close> of \<^verbatim>\<open>kern/syscall.c\<close>, which dispatches on the
  call number, and \<open>trap\<close>, \<open>trap_dispatch\<close> and \<open>page_fault_handler\<close> of
  \<^verbatim>\<open>kern/trap.c\<close>. The console, keyboard, serial line and kernel monitor are parameters. A
  \<open>struct Trapframe *\<close> points to the frame on the kernel stack or to the copy in an
  environment; no stack frame is looked at again once the trap has been handled.
\<close>

section \<open>System calls\<close>

record 'k devices =
  dev_monitor :: "'k \<Rightarrow> (unit, 'k) run"
  dev_cons_getc :: "'k \<Rightarrow> u32 \<times> 'k"
  dev_kbd_intr :: "'k \<Rightarrow> 'k"
  dev_serial_intr :: "'k \<Rightarrow> 'k"

datatype sysno = SYS_cputs | SYS_cgetc | SYS_getenvid | SYS_env_destroy | SYS_page_alloc | SYS_page_map
  | SYS_page_unmap | SYS_exofork | SYS_env_snapshot | SYS_env_resume | SYS_env_set_status
  | SYS_env_set_pgfault_upcall | SYS_env_set_trapframe | SYS_yield | SYS_ipc_try_send | SYS_ipc_recv
  | SYS_time_msec | SYS_net_transmit | SYS_net_recv

definition sysno_list :: "sysno list" where
  "sysno_list = [SYS_cputs, SYS_cgetc, SYS_getenvid, SYS_env_destroy, SYS_page_alloc, SYS_page_map,
     SYS_page_unmap, SYS_exofork, SYS_env_snapshot, SYS_env_resume, SYS_env_set_status,
     SYS_env_set_pgfault_upcall, SYS_env_set_trapframe, SYS_yield, SYS_ipc_try_send, SYS_ipc_recv,
     SYS_time_msec, SYS_net_transmit, SYS_net_recv]"

definition sysno_of :: "u32 \<Rightarrow> sysno option" where
  "sysno_of n = (if unat n < length sysno_list then Some (sysno_list ! unat n) else None)"

definition sysret :: "(sysres \<times> 'k) option \<Rightarrow> (u32, 'k) run" where
  "sysret x = (case x of None \<Rightarrow> Panics | Some (r, k) \<Rightarrow> Returns (result_word r) k)"

definition sysrun :: "(sysres, 'k) run \<Rightarrow> (u32, 'k) run" where
  "sysrun x = run_bind x (\<lambda>r. Returns (result_word r))"

definition syscall ::
  "'z jos_scheme devices \<Rightarrow> junk \<Rightarrow> u32 \<Rightarrow> u32 \<Rightarrow> u32 \<Rightarrow> u32 \<Rightarrow> u32 \<Rightarrow> u32 \<Rightarrow> 'z jos_scheme \<Rightarrow> (u32, 'z jos_scheme) run" where
  "syscall dev j syscallno a1 a2 a3 a4 a5 k =
    (case sysno_of syscallno of
       None \<Rightarrow> Returns (result_word (Inl E_INVAL)) k
     | Some SYS_cputs \<Rightarrow> run_bind (sys_cputs a1 a2 k) (\<lambda>_. Returns 0)
     | Some SYS_cgetc \<Rightarrow> (case dev_cons_getc dev k of (c, k) \<Rightarrow> Returns c k)
     | Some SYS_getenvid \<Rightarrow> sysret (sys_getenvid k)
     | Some SYS_env_destroy \<Rightarrow> sysrun (sys_env_destroy a1 k)
     | Some SYS_page_alloc \<Rightarrow> sysret (sys_page_alloc a1 a2 a3 k)
     | Some SYS_env_set_trapframe \<Rightarrow> sysret (sys_env_set_trapframe a1 a2 k)
     | Some SYS_page_map \<Rightarrow> sysret (sys_page_map a1 a2 a3 a4 a5 k)
     | Some SYS_page_unmap \<Rightarrow> sysret (sys_page_unmap a1 a2 k)
     | Some SYS_exofork \<Rightarrow> sysret (sys_exofork k)
     | Some SYS_env_snapshot \<Rightarrow> sysret (sys_env_snapshot j a1 k)
     | Some SYS_env_resume \<Rightarrow> sysret (sys_env_resume j a1 a2 k)
     | Some SYS_env_set_status \<Rightarrow> sysret (sys_env_set_status a1 a2 k)
     | Some SYS_env_set_pgfault_upcall \<Rightarrow> sysret (sys_env_set_pgfault_upcall a1 a2 k)
     | Some SYS_yield \<Rightarrow> run_bind (sys_yield k) (\<lambda>_. Returns 0)
     | Some SYS_ipc_try_send \<Rightarrow> sysret (sys_ipc_try_send a1 a2 a3 a4 k)
     | Some SYS_ipc_recv \<Rightarrow> sysrun (sys_ipc_recv a1 k)
     | Some SYS_time_msec \<Rightarrow> sysret (sys_time_msec k)
     | Some SYS_net_transmit \<Rightarrow> sysrun (sys_net_transmit a1 (ucast a2) k)
     | Some SYS_net_recv \<Rightarrow> sysrun (sys_net_recv a1 k))"

section \<open>Page faults\<close>

datatype tfref = On_stack trapframe | In_env nat

definition get_tf :: "'z kernel_scheme \<Rightarrow> tfref \<Rightarrow> trapframe" where
  "get_tf k r = (case r of On_stack tf \<Rightarrow> tf | In_env e \<Rightarrow> env_tf (envs k e))"

definition upd_tf :: "tfref \<Rightarrow> (trapframe \<Rightarrow> trapframe) \<Rightarrow> 'z kernel_scheme \<Rightarrow> 'z kernel_scheme" where
  "upd_tf r f k = (case r of On_stack _ \<Rightarrow> k | In_env e \<Rightarrow> upd_env e (\<lambda>v. v\<lparr>env_tf := f (env_tf v)\<rparr>) k)"

text \<open>A \<open>struct UTrapframe\<close> in memory: 13 words.\<close>

definition utf_words :: "utrapframe \<Rightarrow> u32 list" where
  "utf_words u = [utf_fault_va u, utf_err u, reg_edi (utf_regs u), reg_esi (utf_regs u),
     reg_ebp (utf_regs u), reg_oesp (utf_regs u), reg_ebx (utf_regs u), reg_edx (utf_regs u),
     reg_ecx (utf_regs u), reg_eax (utf_regs u), utf_eip u, utf_eflags u, utf_esp u]"

definition utf_size :: u32 where "utf_size = 52"

text \<open>
  The frame is written through the kernel's mapping of physical memory at \<open>KERNBASE\<close>, where
  \<open>kvm_utf\<close> may be any address; the physical address written is \<open>kvm_utf - KERNBASE\<close>.
\<close>

definition page_fault_handler :: "u32 \<Rightarrow> tfref \<Rightarrow> 'z kernel_scheme \<Rightarrow> (unit, 'z kernel_scheme) run" where
  "page_fault_handler cr2 r k =
    (let tf = get_tf k r
     in if tf_cs tf AND 3 = 0 then Panics
        else (case curenv k of
            None \<Rightarrow> Panics
          | Some c \<Rightarrow>
              if env_pgfault_upcall (envs k c) = 0 then env_destroy c k
              else (case env_pgdir (envs k c) of
                  None \<Rightarrow> Panics
                | Some pgdir \<Rightarrow>
                    (case page_lookup pgdir (UXSTACKTOP - PGSIZE) k of
                       None \<Rightarrow> Panics
                     | Some None \<Rightarrow> env_destroy c k
                     | Some (Some (pinfo, _)) \<Rightarrow>
                         (case page2kva k pinfo of
                            None \<Rightarrow> Panics
                          | Some kva \<Rightarrow>
                              let kvm_uxstacktop = kva + PGSIZE;
                                  kvm_utf = (if tf_esp tf \<le> UXSTACKTOP - 1 \<and> UXSTACKTOP - PGSIZE \<le> tf_esp tf
                                             then kvm_uxstacktop - (UXSTACKTOP - tf_esp tf) - 4
                                             else kvm_uxstacktop);
                                  kvm_utf = kvm_utf - utf_size;
                                  utf = \<lparr>utf_fault_va = cr2, utf_err = tf_err tf, utf_regs = tf_regs tf,
                                         utf_eip = tf_eip tf, utf_eflags = tf_eflags tf, utf_esp = tf_esp tf\<rparr>;
                                  k = store_words (kvm_utf - KERNBASE) (utf_words utf) k
                              in Returns () (upd_tf r (\<lambda>t. t\<lparr>tf_esp := UXSTACKTOP - (kvm_uxstacktop - kvm_utf),
                                   tf_eip := env_pgfault_upcall (envs k c)\<rparr>) k))))))"

section \<open>Traps\<close>

definition T_DEBUG :: u32 where "T_DEBUG = 1"
definition T_BRKPT :: u32 where "T_BRKPT = 3"
definition T_PGFLT :: u32 where "T_PGFLT = 14"
definition T_SYSCALL :: u32 where "T_SYSCALL = 48"
definition IRQ_OFFSET :: u32 where "IRQ_OFFSET = 32"
definition IRQ_TIMER :: u32 where "IRQ_TIMER = 0"
definition IRQ_KBD :: u32 where "IRQ_KBD = 1"
definition IRQ_SERIAL :: u32 where "IRQ_SERIAL = 4"

definition trap_dispatch ::
  "'z jos_scheme devices \<Rightarrow> junk \<Rightarrow> u32 \<Rightarrow> tfref \<Rightarrow> 'z jos_scheme \<Rightarrow> (unit, 'z jos_scheme) run" where
  "trap_dispatch dev j cr2 r k =
    (let tf = get_tf k r; no = tf_trapno tf; regs = tf_regs tf
     in if no = T_DEBUG \<or> no = T_BRKPT then dev_monitor dev k
        else if no = T_PGFLT then page_fault_handler cr2 r k
        else if no = T_SYSCALL then
          run_bind (syscall dev j (reg_eax regs) (reg_edx regs) (reg_ecx regs) (reg_ebx regs)
              (reg_edi regs) (reg_esi regs) k)
            (\<lambda>w k. Returns () (upd_tf r (\<lambda>t. t\<lparr>tf_regs := (tf_regs t)\<lparr>reg_eax := w\<rparr>\<rparr>) k))
        else if no = IRQ_OFFSET + IRQ_TIMER then
          (case time_tick k of None \<Rightarrow> Panics | Some k \<Rightarrow> sched_yield k)
        else if no = IRQ_OFFSET + IRQ_KBD then Returns () (dev_kbd_intr dev k)
        else if no = IRQ_OFFSET + IRQ_SERIAL then Returns () (dev_serial_intr dev k)
        else if tf_cs tf = GD_KT then Panics
        else (case curenv k of None \<Rightarrow> Panics | Some c \<Rightarrow> env_destroy c k))"

text \<open>
  \<open>trap\<close> never returns: it ends by running an environment. \<open>eflags\<close> and \<open>cr2\<close>
  are the processor's registers at entry. A CPU that finds \<open>panicstr\<close> set halts; here a
  panic already ends the run.
\<close>

definition trap_user_entry :: "trapframe \<Rightarrow> 'z kernel_scheme \<Rightarrow> (tfref, 'z kernel_scheme) run" where
  "trap_user_entry tf k =
    (case curenv k of
       None \<Rightarrow> Panics
     | Some c \<Rightarrow>
         (case lock_kernel k of
            None \<Rightarrow> Panics
          | Some k \<Rightarrow>
              if env_status (envs k c) = ENV_DYING then
                (case env_free c k of
                   None \<Rightarrow> Panics
                 | Some k \<Rightarrow> sched_yield (set_curenv None k))
              else Returns (In_env c) (upd_env c (\<lambda>v. v\<lparr>env_tf := tf\<rparr>) k)))"

definition trap_exit :: "'z kernel_scheme \<Rightarrow> (unit, 'z kernel_scheme) run" where
  "trap_exit k =
    (case curenv k of
       Some c \<Rightarrow> if env_status (envs k c) = ENV_RUNNING then env_run c k else sched_yield k
     | None \<Rightarrow> sched_yield k)"

definition trap ::
  "'z jos_scheme devices \<Rightarrow> junk \<Rightarrow> u32 \<Rightarrow> u32 \<Rightarrow> trapframe \<Rightarrow> 'z jos_scheme \<Rightarrow> (unit, 'z jos_scheme) run" where
  "trap dev j eflags cr2 tf k =
    (let halted = (cpu_status (cpus k (thiscpu k)) = CPU_HALTED);
         k = upd_cpu (\<lambda>c. c\<lparr>cpu_status := CPU_STARTED\<rparr>) k
     in case (if halted then lock_kernel k else Some k) of
          None \<Rightarrow> Panics
        | Some k \<Rightarrow>
            if eflags AND FL_IF \<noteq> 0 then Panics
            else run_bind (if tf_cs tf AND 3 = 3 then trap_user_entry tf k else Returns (On_stack tf) k)
                   (\<lambda>r k. run_bind (trap_dispatch dev j cr2 r k) (\<lambda>_. trap_exit)))"

end
