(* ===== verification/Trap_Props.thy ===== *)
theory Trap_Props
  imports Trap
begin

text \<open>
  What the trap code guarantees: where a page fault's frame goes and what it contains, what happens when the
  exception stack overflows, preemption by the timer, and the end of a faulting process.
\<close>

section \<open>Page fault upcalls\<close>

lemma unat_page2pa: "p < 2 ^ 20 \<Longrightarrow> unat (page2pa p) = 4096 * p"
proof -
  assume p: "p < 2 ^ 20"
  have "page2pa p = word_of_nat (4096 * p)"
    by (simp add: page2pa_def PGSHIFT_def push_bit_eq_mult)
  then have "unat (page2pa p) = unat (word_of_nat (4096 * p) :: u32)" by (simp only:)
  also have "\<dots> = 4096 * p" by (rule unat_of_nat_lt) (use p in simp)
  finally show ?thesis .
qed

lemma unat_frame_number: "unat (PGNUM a) = unat a div 4096"
  unfolding PGNUM_def by (simp only: unat_drop_bit_eq) (simp add: drop_bit_eq_div)

lemma unat_page_offset:
  assumes "p < 2 ^ 20" "unat x < 4096"
  shows "unat (page2pa p + x) = 4096 * p + unat x"
proof -
  have "unat (page2pa p + x) = unat (page2pa p) + unat x"
    by (rule unat_add_no_wrap) (use assms unat_page2pa [OF assms(1)] in simp)
  then show ?thesis using unat_page2pa [OF assms(1)] by simp
qed

lemma PGNUM_in_page:
  assumes "p < 2 ^ 20" "unat x < 4096"
  shows "unat (PGNUM (page2pa p + x)) = p"
  unfolding unat_frame_number unat_page_offset [OF assms] using assms(2) by simp

lemma store_words_length: "length (utf_words u) = 13"
  by (simp add: utf_words_def)

text \<open>The words of a frame stored inside one page stay inside it.\<close>

lemma store_words_in_page:
  assumes p: "p < 2 ^ 20" and x: "unat x + 4 * length ws \<le> 4096" and a: "unat (PGNUM a) \<noteq> p"
  shows "load_byte (store_words (page2pa p + x) ws s) a = load_byte s a"
proof (rule store_words_outside, rule ccontr)
  let ?d = "a - (page2pa p + x)"
  assume "\<not> 4 * length ws \<le> unat ?d"
  then have d: "unat x + unat ?d < 4096" using x by simp
  then have "unat (x + ?d) = unat x + unat ?d" by (intro unat_add_no_wrap) simp
  then have "unat (PGNUM (page2pa p + (x + ?d))) = p" using d by (intro PGNUM_in_page [OF p]) simp
  moreover have "page2pa p + (x + ?d) = a" by simp
  ultimately show False using a by simp
qed

definition on_exception_stack :: "u32 \<Rightarrow> bool" where
  "on_exception_stack esp \<longleftrightarrow> esp \<le> UXSTACKTOP - 1 \<and> UXSTACKTOP - PGSIZE \<le> esp"

text \<open>The user address below which the frame is put.\<close>

definition upcall_top :: "u32 \<Rightarrow> u32" where
  "upcall_top esp = (if on_exception_stack esp then esp - 4 else UXSTACKTOP)"

definition fault_utf :: "u32 \<Rightarrow> trapframe \<Rightarrow> utrapframe" where
  "fault_utf cr2 tf = \<lparr>utf_fault_va = cr2, utf_err = tf_err tf, utf_regs = tf_regs tf,
     utf_eip = tf_eip tf, utf_eflags = tf_eflags tf, utf_esp = tf_esp tf\<rparr>"

lemma store_words_fields [simp]:
  "envs (store_words pa ws k) = envs k" "curenv (store_words pa ws k) = curenv k"
  "npages (store_words pa ws k) = npages k" "pages (store_words pa ws k) = pages k"
proof -
  have b: "envs (store_byte a x k) = envs k" "cpus (store_byte a x k) = cpus k"
    "thiscpu (store_byte a x k) = thiscpu k" "npages (store_byte a x k) = npages k"
    "pages (store_byte a x k) = pages k" for a x and k :: "'a kernel_scheme"
    by (simp_all add: store_byte_def)
  have w: "envs (store32 a x k) = envs k" "cpus (store32 a x k) = cpus k"
    "thiscpu (store32 a x k) = thiscpu k" "npages (store32 a x k) = npages k"
    "pages (store32 a x k) = pages k" for a x and k :: "'a kernel_scheme"
    by (simp_all add: store32_def b)
  have "envs (store_words pa ws k) = envs k \<and> cpus (store_words pa ws k) = cpus k \<and>
      thiscpu (store_words pa ws k) = thiscpu k \<and> npages (store_words pa ws k) = npages k \<and>
      pages (store_words pa ws k) = pages k"
    by (induction ws arbitrary: pa k) (simp_all add: w)
  then show "envs (store_words pa ws k) = envs k" "curenv (store_words pa ws k) = curenv k"
    "npages (store_words pa ws k) = npages k" "pages (store_words pa ws k) = pages k"
    by (simp_all add: curenv_def)
qed

lemma handler_runs:
  assumes c: "curenv k = Some c" "env_pgfault_upcall (envs k c) \<noteq> 0" "env_pgdir (envs k c) = Some d"
    and u: "tf_cs (env_tf (envs k c)) AND 3 \<noteq> 0"
    and l: "page_lookup d (UXSTACKTOP - PGSIZE) k = Some (Some (p, pte))" "p < npages k" "npages k \<le> 2 ^ 20"
  shows "page_fault_handler cr2 (In_env c) k = Returns ()
    (upd_env c (\<lambda>v. v\<lparr>env_tf := (env_tf v)\<lparr>tf_esp := upcall_top (tf_esp (env_tf (envs k c))) - 52,
         tf_eip := env_pgfault_upcall (envs k c)\<rparr>\<rparr>)
       (store_words (page2pa p + (upcall_top (tf_esp (env_tf (envs k c))) - 52 - (UXSTACKTOP - PGSIZE)))
          (utf_words (fault_utf cr2 (env_tf (envs k c)))) k))"
proof -
  let ?esp = "tf_esp (env_tf (envs k c))" and ?top = "page2pa p + KERNBASE + PGSIZE"
  have kva: "page2kva k p = Some (page2pa p + KERNBASE)" by (rule page2kva_lt [OF l(2,3)])
  have "(if on_exception_stack ?esp then ?top - (UXSTACKTOP - ?esp) - 4 else ?top) - utf_size - KERNBASE =
      page2pa p + (upcall_top ?esp - 52 - (UXSTACKTOP - PGSIZE))"
    by (simp add: upcall_top_def utf_size_def algebra_simps)
  moreover have "UXSTACKTOP - (?top - ((if on_exception_stack ?esp then ?top - (UXSTACKTOP - ?esp) - 4
      else ?top) - utf_size)) = upcall_top ?esp - 52"
    by (simp add: upcall_top_def utf_size_def algebra_simps)
  ultimately show ?thesis
    using u c l(1) kva
    by (simp add: page_fault_handler_def get_tf_def upd_tf_def Let_def fault_utf_def
        on_exception_stack_def [symmetric])
qed

lemma load_upd_env [simp]: "load_byte (upd_env e f k) a = load_byte k a" "load32 (upd_env e f k) a = load32 k a"
  by (simp_all add: load_byte_def load32_def)

text \<open>
  C27: when a process with an upcall and a mapped exception stack faults and the frame fits, the handler
  returns; the process continues at its upcall with the stack pointer at a \<open>UTrapframe\<close>
  in its exception stack page that holds the fault address, the error code and all its registers,
  below the interrupted frame and one spare word when the fault is nested; no byte of any other page changes.
\<close>

theorem upcall_frame_on_stack:
  assumes c: "curenv k = Some c" "env_pgfault_upcall (envs k c) \<noteq> 0" "env_pgdir (envs k c) = Some d"
    and tf: "tf = env_tf (envs k c)" "tf_cs tf AND 3 \<noteq> 0"
    and l: "page_lookup d (UXSTACKTOP - PGSIZE) k = Some (Some (p, pte))" "p < npages k" "npages k \<le> 2 ^ 20"
    and fits: "unat (UXSTACKTOP - PGSIZE) + 52 \<le> unat (upcall_top (tf_esp tf))"
  shows "\<exists>k'. page_fault_handler cr2 (In_env c) k = Returns () k' \<and>
    tf_eip (env_tf (envs k' c)) = env_pgfault_upcall (envs k c) \<and>
    tf_esp (env_tf (envs k' c)) = upcall_top (tf_esp tf) - 52 \<and>
    (\<forall>i<13. load32 k' (page2pa p + (tf_esp (env_tf (envs k' c)) - (UXSTACKTOP - PGSIZE)) + 4 * word_of_nat i) =
       utf_words (fault_utf cr2 tf) ! i) \<and>
    (\<forall>a. unat (PGNUM a) \<noteq> p \<longrightarrow> load_byte k' a = load_byte k a) \<and>
    (\<forall>e. e \<noteq> c \<longrightarrow> envs k' e = envs k e)"
proof -
  let ?x = "upcall_top (tf_esp tf) - 52 - (UXSTACKTOP - PGSIZE)" and ?ws = "utf_words (fault_utf cr2 tf)"
  let ?k1 = "store_words (page2pa p + ?x) ?ws k"
  let ?k' = "upd_env c (\<lambda>v. v\<lparr>env_tf := (env_tf v)\<lparr>tf_esp := upcall_top (tf_esp tf) - 52,
         tf_eip := env_pgfault_upcall (envs k c)\<rparr>\<rparr>) ?k1"
  have run: "page_fault_handler cr2 (In_env c) k = Returns () ?k'"
    using handler_runs [OF c tf(2) [unfolded tf(1)] l] unfolding tf(1) .
  have top: "upcall_top (tf_esp tf) \<le> UXSTACKTOP"
  proof -
    have "esp - 4 \<le> UXSTACKTOP" if "on_exception_stack esp" for esp
    proof -
      have "unat (esp - 4) = unat esp - 4"
        using that by (subst unat_sub) (simp_all add: on_exception_stack_def kdefs word_le_nat_alt)
      then show ?thesis using that by (simp add: on_exception_stack_def kdefs word_le_nat_alt) linarith
    qed
    then show ?thesis by (simp add: upcall_top_def)
  qed
  have x: "unat ?x + 52 \<le> 4096"
  proof -
    let ?t = "upcall_top (tf_esp tf)"
    have "unat (?t - 52) = unat ?t - 52"
      using fits by (subst unat_sub) (simp_all add: kdefs word_le_nat_alt)
    moreover from this have "unat (?t - 52 - (UXSTACKTOP - PGSIZE)) = unat (?t - 52) - unat (UXSTACKTOP - PGSIZE)"
      using fits by (intro unat_sub) (simp add: kdefs word_le_nat_alt)
    ultimately show ?thesis using top fits by (simp add: kdefs word_le_nat_alt)
  qed
  have p: "p < 2 ^ 20" using l(2,3) by simp
  have words: "load32 ?k1 (page2pa p + ?x + 4 * word_of_nat i) = ?ws ! i" if "i < 13" for i
    by (rule load_store_words) (use that in \<open>simp_all add: store_words_length\<close>)
  have other: "load_byte ?k1 a = load_byte k a" if "unat (PGNUM a) \<noteq> p" for a
    by (rule store_words_in_page [OF p _ that]) (use x in \<open>simp add: store_words_length\<close>)
  show ?thesis
    by (intro exI [of _ ?k'] conjI run) (use words other in \<open>simp_all\<close>)
qed

text \<open>
  The room for the frame is not checked: a nested fault with the stack pointer at the bottom of the
  exception stack makes the kernel write all thirteen words of the frame, the registers chosen by the
  process among them, to the end of the preceding physical page, whoever owns it.
\<close>

theorem exception_stack_overflow_writes_other_page:
  assumes c: "curenv k = Some c" "env_pgfault_upcall (envs k c) \<noteq> 0" "env_pgdir (envs k c) = Some d"
    and tf: "tf = env_tf (envs k c)" "tf_cs tf AND 3 \<noteq> 0" "tf_esp tf = UXSTACKTOP - PGSIZE"
    and l: "page_lookup d (UXSTACKTOP - PGSIZE) k = Some (Some (Suc p, pte))" "Suc p < npages k" "npages k \<le> 2 ^ 20"
  shows "\<exists>k'. page_fault_handler cr2 (In_env c) k = Returns () k' \<and>
    (\<forall>i<13. load32 k' (page2pa p + 4040 + 4 * word_of_nat i) = utf_words (fault_utf cr2 tf) ! i \<and>
       unat (PGNUM (page2pa p + 4040 + 4 * word_of_nat i)) = p)"
proof -
  have on: "on_exception_stack (UXSTACKTOP - PGSIZE)" by (simp add: on_exception_stack_def kdefs)
  have pa: "page2pa (Suc p) + (upcall_top (tf_esp tf) - 52 - (UXSTACKTOP - PGSIZE)) = page2pa p + 4040"
    using on by (simp add: tf(3) upcall_top_def page2pa_def PGSHIFT_def push_bit_eq_mult algebra_simps)
  have run: "page_fault_handler cr2 (In_env c) k = Returns ()
    (upd_env c (\<lambda>v. v\<lparr>env_tf := (env_tf v)\<lparr>tf_esp := upcall_top (tf_esp tf) - 52,
         tf_eip := env_pgfault_upcall (envs k c)\<rparr>\<rparr>)
       (store_words (page2pa p + 4040) (utf_words (fault_utf cr2 tf)) k))"
    using handler_runs [OF c tf(2) [unfolded tf(1)] l] unfolding tf(1) [symmetric] pa .
  have p: "p < 2 ^ 20" using l(2,3) by simp
  have w: "load32 (store_words (page2pa p + 4040) (utf_words (fault_utf cr2 tf)) k)
      (page2pa p + 4040 + 4 * word_of_nat i) = utf_words (fault_utf cr2 tf) ! i" if "i < 13" for i
    by (rule load_store_words) (use that in \<open>simp_all add: store_words_length\<close>)
  have g: "unat (PGNUM (page2pa p + 4040 + 4 * word_of_nat i)) = p" if "i < 13" for i
  proof -
    have "unat (4040 + 4 * word_of_nat i :: u32) = unat (word_of_nat (4040 + 4 * i) :: u32)" by simp
    also have "\<dots> = 4040 + 4 * i" by (rule unat_of_nat_lt) (use that in simp)
    finally have "unat (4040 + 4 * word_of_nat i :: u32) < 4096" using that by simp
    from PGNUM_in_page [OF p this] show ?thesis by (simp only: add.assoc)
  qed
  have "load32 (upd_env c f (store_words (page2pa p + 4040) (utf_words (fault_utf cr2 tf)) k))
      (page2pa p + 4040 + 4 * word_of_nat i) = utf_words (fault_utf cr2 tf) ! i" if "i < 13" for f i
    using w [OF that] load_upd_env(2) by metis
  then show ?thesis unfolding run using g by blast
qed

section \<open>The timer\<close>

text \<open>Switching from a running environment to another one.\<close>

lemma env_run_switch:
  assumes "curenv k = Some c" "env_pgdir (envs k x) = Some d" "kernel_lock k = Some (thiscpu k)"
    and "env_status (envs k c) = ENV_RUNNING" "x = c \<or> env_status (envs k x) = ENV_RUNNABLE"
  shows "\<exists>k'. env_run x k = Leaves k' \<and> curenv k' = Some x \<and> kernel_lock k' = None \<and>
    cpu_cr3 (cpus k' (thiscpu k')) = d \<and> thiscpu k' = thiscpu k \<and> ticks k' = ticks k \<and>
    env_status (envs k' x) = ENV_RUNNING \<and> (x \<noteq> c \<longrightarrow> env_status (envs k' c) = ENV_RUNNABLE) \<and>
    (\<forall>e. env_tf (envs k' e) = env_tf (envs k e)) \<and>
    (\<forall>e. e \<noteq> c \<longrightarrow> e \<noteq> x \<longrightarrow> envs k' e = envs k e)"
proof (cases "x = c")
  case True
  with assms show ?thesis
    by (simp add: env_run_def env_switch_def unlock_kernel_def lcr3_def upd_cpu_def curenv_def)
next
  case False
  with assms show ?thesis
    by (auto simp: env_run_def env_switch_def unlock_kernel_def lcr3_def upd_cpu_def curenv_def
        set_curenv_def upd_env_def)
qed

text \<open>
  A timer interrupt in user mode preempts: the tick is counted, the registers of the interrupted
  environment are saved, and the CPU continues, with the kernel lock released, in the schedulable environment
  that comes first in round-robin order; the interrupted one stays runnable.
\<close>

theorem timer_preempts:
  assumes c: "curenv k = Some c" "c < NENV" "env_status (envs k c) = ENV_RUNNING"
    and cpu: "cpu_status (cpus k (thiscpu k)) = CPU_STARTED" "kernel_lock k = None" "eflags AND FL_IF = 0"
    and tf: "tf_cs tf AND 3 = 3" "tf_trapno tf = IRQ_OFFSET + IRQ_TIMER"
    and tick: "\<not> (ticks k + 1) * 10 < ticks k + 1"
    and dirs: "\<forall>e<NENV. schedulable k e \<longrightarrow> env_pgdir (envs k e) \<noteq> None"
  shows "\<exists>x k'. trap dev j eflags cr2 tf k = Leaves k' \<and> x < NENV \<and> curenv k' = Some x \<and>
    schedulable k x \<and> (\<forall>y<NENV. schedulable k y \<longrightarrow> ahead c x \<le> ahead c y) \<and>
    env_status (envs k' x) = ENV_RUNNING \<and> env_tf (envs k' c) = tf \<and>
    (x \<noteq> c \<longrightarrow> env_status (envs k' c) = ENV_RUNNABLE \<and> env_tf (envs k' x) = env_tf (envs k x)) \<and>
    ticks k' = ticks k + 1 \<and> kernel_lock k' = None"
proof -
  let ?k1 = "upd_cpu (\<lambda>c. c\<lparr>cpu_status := CPU_STARTED\<rparr>) k"
  let ?k2 = "upd_env c (\<lambda>v. v\<lparr>env_tf := tf\<rparr>) (?k1\<lparr>kernel_lock := Some (thiscpu k)\<rparr>)"
  let ?k3 = "?k2\<lparr>ticks := ticks k + 1\<rparr>"
  have cur: "curenv ?k1 = Some c" using c(1) by (simp add: upd_cpu_def curenv_def)
  have f: "curenv ?k3 = Some c" "kernel_lock ?k3 = Some (thiscpu ?k3)" "ticks ?k3 = ticks k + 1"
    "thiscpu ?k3 = thiscpu k"
    "env_status (envs ?k3 e) = env_status (envs k e)" "env_pgdir (envs ?k3 e) = env_pgdir (envs k e)"
    "env_tf (envs ?k3 e) = (if e = c then tf else env_tf (envs k e))" for e
    using c(1) by (simp_all add: upd_env_def upd_cpu_def curenv_def)
  have sch: "schedulable ?k3 = schedulable k"
    by (rule ext) (simp only: schedulable_def f c(1))
  have entry: "trap_user_entry tf ?k1 = Returns (In_env c) ?k2"
    using c cpu(2) cur by (simp add: trap_user_entry_def lock_kernel_def upd_cpu_def)
  have tt: "time_tick ?k2 = Some ?k3"
    using tick by (simp add: time_tick_def upd_env_def upd_cpu_def)
  have no: "tf_trapno (get_tf ?k2 (In_env c)) = 32"
    using tf(2) by (simp add: get_tf_def IRQ_OFFSET_def IRQ_TIMER_def upd_env_def)
  have disp: "trap_dispatch dev j cr2 (In_env c) ?k2 = sched_yield ?k3"
    unfolding trap_dispatch_def Let_def no
    by (simp add: T_DEBUG_def T_BRKPT_def T_PGFLT_def T_SYSCALL_def IRQ_OFFSET_def IRQ_TIMER_def tt)
  have sc: "schedulable k c" using c by (simp add: schedulable_def)
  from sched_choice [OF c(2,2), of "schedulable k", OF sc] obtain x where x: "x < NENV"
    "find (schedulable k) (sched_order (Some c)) = Some x" "schedulable k x"
    "\<forall>y<NENV. schedulable k y \<longrightarrow> ahead c x \<le> ahead c y" by blast
  have yld: "sched_yield ?k3 = (env_run x ?k3 :: (unit, _) run)"
    unfolding sched_yield_def f(1) sch x(2) by simp
  obtain d where d: "env_pgdir (envs ?k3 x) = Some d" using dirs x(1,3) f(6) by auto
  have xs: "x = c \<or> env_status (envs ?k3 x) = ENV_RUNNABLE"
    using x(3) c(1) f(5) by (auto simp: schedulable_def)
  obtain k' where k': "env_run x ?k3 = (Leaves k' :: (unit, _) run)" "curenv k' = Some x" "kernel_lock k' = None"
    "ticks k' = ticks ?k3" "env_status (envs k' x) = ENV_RUNNING"
    "x \<noteq> c \<longrightarrow> env_status (envs k' c) = ENV_RUNNABLE" "\<forall>e. env_tf (envs k' e) = env_tf (envs ?k3 e)"
    using env_run_switch [OF f(1) d f(2) _ xs] c(3) f(5) by auto
  have "trap dev j eflags cr2 tf k = Leaves k'"
    using cpu entry disp yld k'(1) tf(1) by (simp add: trap_def Let_def)
  then show ?thesis using x k' f(3,7) by (intro exI [of _ x] exI [of _ k']) simp
qed

section \<open>Traps on a concrete kernel\<close>

text \<open>
  The concrete kernel whose first environment has an upcall and an exception stack, in frame 10, through the
  page table in frame 9; the stack pointer is at \<open>esp\<close>.
\<close>

definition fault_tf :: "u32 \<Rightarrow> trapframe" where
  "fault_tf esp = zero_tf\<lparr>tf_cs := GD_UT OR 3, tf_esp := esp, tf_regs := zero_regs\<lparr>reg_edi := 0xDEAD\<rparr>\<rparr>"

definition demo_fault :: "u32 \<Rightarrow> kernel" where
  "demo_fault esp = upd_env 0 (\<lambda>v. v\<lparr>env_pgfault_upcall := 0x800020, env_tf := fault_tf esp\<rparr>)
     (demo_kernel\<lparr>phys := (\<lambda>f i. if f = 5 \<and> i = 954 then 0x9007 else if f = 9 \<and> i = 1023 then 0xA007
        else demo_phys f i)\<rparr>)"

lemma demo_fault_fields:
  "curenv (demo_fault esp) = Some 0" "env_pgfault_upcall (envs (demo_fault esp) 0) \<noteq> 0"
  "env_pgdir (envs (demo_fault esp) 0) = Some 5" "fault_tf esp = env_tf (envs (demo_fault esp) 0)"
  "tf_cs (fault_tf esp) AND 3 \<noteq> 0" "npages (demo_fault esp) \<le> 2 ^ 20" "9 + 1 < npages (demo_fault esp)"
  "tf_esp (fault_tf esp) = esp" "env_pgfault_upcall (envs (demo_fault esp) 0) = 0x800020"
  by (simp_all add: demo_fault_def upd_env_def demo_kernel_def curenv_def fault_tf_def GD_UT_def)

lemma demo_fault_lookup: "page_lookup 5 (UXSTACKTOP - PGSIZE) (demo_fault esp) = Some (Some (Suc 9, (9, 1023)))"
proof -
  have ix: "pdx (UXSTACKTOP - PGSIZE) = 954" "ptx (UXSTACKTOP - PGSIZE) = 1023"
    by (simp_all add: kdefs PDX_def PTX_def)
  have ph: "npages (demo_fault esp) = 16" "phys (demo_fault esp) 5 954 = 0x9007" "phys (demo_fault esp) 9 1023 = 0xA007"
    by (simp_all add: demo_fault_def)
  have w: "pgdir_walk 5 (UXSTACKTOP - PGSIZE) False (demo_fault esp) = Some (Some (9, 1023), demo_fault esp)"
    by (simp add: pgdir_walk_def get_pte_def ix ph KADDR_def PTE_P_def PTE_ADDR_def PGNUM_def ppn_of_def)
  show ?thesis
    unfolding page_lookup_def w
    by (simp add: get_pte_def ph pa2page_def PTE_P_def PTE_ADDR_def PGNUM_def)
qed

theorem upcall_frame_on_stack_witness:
  "\<exists>k'. page_fault_handler 0x1234 (In_env 0) (demo_fault 0xEEBFDFF0) = (Returns () k' :: (unit, kernel) run) \<and>
     tf_eip (env_tf (envs k' 0)) = 0x800020 \<and> tf_esp (env_tf (envs k' 0)) = 0xEEBFFFCC \<and>
     load32 k' (page2pa 10 + 0xFCC) = 0x1234 \<and> load32 k' (page2pa 10 + 0xFCC + 8) = 0xDEAD"
proof -
  have top: "upcall_top (tf_esp (fault_tf 0xEEBFDFF0)) = UXSTACKTOP"
    unfolding demo_fault_fields(8) by (simp add: upcall_top_def on_exception_stack_def kdefs)
  have fits: "unat (UXSTACKTOP - PGSIZE) + 52 \<le> unat (upcall_top (tf_esp (fault_tf 0xEEBFDFF0)))"
    unfolding top by (simp add: kdefs)
  have lt: "Suc 9 < npages (demo_fault 0xEEBFDFF0)" using demo_fault_fields(7) by simp
  obtain k' where k': "page_fault_handler 0x1234 (In_env 0) (demo_fault 0xEEBFDFF0) = (Returns () k' :: (unit, kernel) run)"
    "tf_eip (env_tf (envs k' 0)) = 0x800020" "tf_esp (env_tf (envs k' 0)) = UXSTACKTOP - 52"
    "\<forall>i<13. load32 k' (page2pa (Suc 9) + (tf_esp (env_tf (envs k' 0)) - (UXSTACKTOP - PGSIZE)) + 4 * word_of_nat i) =
       utf_words (fault_utf 0x1234 (fault_tf 0xEEBFDFF0)) ! i"
    using upcall_frame_on_stack [OF demo_fault_fields(1-5) demo_fault_lookup lt demo_fault_fields(6) fits, of "0x1234"]
    unfolding top demo_fault_fields(9) by blast
  have x: "UXSTACKTOP - 52 - (UXSTACKTOP - PGSIZE) = (0xFCC :: u32)" by (simp add: kdefs)
  have "load32 k' (page2pa 10 + 0xFCC) = 0x1234" "load32 k' (page2pa 10 + 0xFCC + 8) = 0xDEAD"
    using k'(4) [rule_format, of 0] k'(4) [rule_format, of 2] unfolding k'(3) x
    by (simp_all add: utf_words_def fault_utf_def fault_tf_def)
  moreover have "UXSTACKTOP - 52 = (0xEEBFFFCC :: u32)" by (simp add: kdefs)
  ultimately show ?thesis using k'(1-3) by metis
qed

theorem exception_stack_overflow_writes_other_page_witness:
  "\<exists>k'. page_fault_handler 0x1234 (In_env 0) (demo_fault (UXSTACKTOP - PGSIZE)) = (Returns () k' :: (unit, kernel) run) \<and>
     load32 k' (page2pa 9 + 4048) = 0xDEAD \<and> unat (PGNUM (page2pa 9 + 4048)) = 9"
proof -
  let ?e = "UXSTACKTOP - PGSIZE"
  have lt: "Suc 9 < npages (demo_fault ?e)" using demo_fault_fields(7) by simp
  obtain k' where k': "page_fault_handler 0x1234 (In_env 0) (demo_fault ?e) = (Returns () k' :: (unit, kernel) run)"
    "\<forall>i<13. load32 k' (page2pa 9 + 4040 + 4 * word_of_nat i) = utf_words (fault_utf 0x1234 (fault_tf ?e)) ! i \<and>
       unat (PGNUM (page2pa 9 + 4040 + 4 * word_of_nat i)) = 9"
    using exception_stack_overflow_writes_other_page [OF demo_fault_fields(1-5) demo_fault_fields(8)
        demo_fault_lookup lt demo_fault_fields(6), of "0x1234"] by blast
  have a: "page2pa 9 + 4040 + 4 * word_of_nat 2 = page2pa 9 + 4048" by simp
  have "(2 :: nat) < 13" by simp
  from k'(2) [rule_format, OF this] have "load32 k' (page2pa 9 + 4048) = 0xDEAD" "unat (PGNUM (page2pa 9 + 4048)) = 9"
    unfolding a by (simp_all only:) (simp add: utf_words_def fault_utf_def fault_tf_def)
  with k'(1) show ?thesis by blast
qed

text \<open>A machine with the concrete kernel and an idle network card, about to take a timer interrupt.\<close>

definition demo_jos :: jos where
  "demo_jos = kernel.extend (demo_ready 1\<lparr>kernel_lock := None\<rparr>)
     \<lparr>e1000_mmio = (\<lambda>_. 0), tx_desc_queue = tx_init_desc 0, rx_desc_queue = rx_init_desc 0\<rparr>"

definition idle_devices :: "jos devices" where
  "idle_devices = \<lparr>dev_monitor = Returns (), dev_cons_getc = (\<lambda>k. (0, k)), dev_kbd_intr = id, dev_serial_intr = id\<rparr>"

lemma demo_jos_fields:
  "curenv demo_jos = Some 0" "env_status (envs demo_jos e) = env_status (envs (demo_ready 1) e)"
  "env_pgdir (envs demo_jos e) = env_pgdir (demo_envs e)" "kernel_lock demo_jos = None" "ticks demo_jos = 0"
  "cpu_status (cpus demo_jos (thiscpu demo_jos)) = CPU_STARTED"
  by (simp_all add: demo_jos_def kernel.extend_def curenv_def demo_ready_def upd_env_def demo_kernel_def)

theorem timer_preempts_witness:
  "\<forall>j. \<exists>k'. trap idle_devices j 0 0 (zero_tf\<lparr>tf_cs := GD_UT OR 3, tf_trapno := 32\<rparr>) demo_jos = Leaves k' \<and>
     curenv k' = Some 1 \<and> env_status (envs k' 1) = ENV_RUNNING \<and> env_status (envs k' 0) = ENV_RUNNABLE \<and>
     ticks k' = 1"
proof (rule allI)
  fix j
  let ?tf = "zero_tf\<lparr>tf_cs := GD_UT OR 3, tf_trapno := 32\<rparr>"
  have sch: "schedulable demo_jos e \<longleftrightarrow> e = 0 \<or> e = 1" if "e < NENV" for e
    using that by (auto simp: schedulable_def demo_jos_fields)
  have h: "(0 :: nat) < NENV" "env_status (envs demo_jos 0) = ENV_RUNNING" "0 AND FL_IF = 0"
    "tf_cs ?tf AND 3 = 3" "tf_trapno ?tf = IRQ_OFFSET + IRQ_TIMER"
    "\<not> (ticks demo_jos + 1) * 10 < ticks demo_jos + 1"
    by (simp_all add: NENV_def demo_jos_fields GD_UT_def IRQ_OFFSET_def IRQ_TIMER_def)
  have dd: "\<forall>e<NENV. schedulable demo_jos e \<longrightarrow> env_pgdir (envs demo_jos e) \<noteq> None"
    using sch by (auto simp: demo_jos_fields)
  obtain x k' where x: "trap idle_devices j 0 0 ?tf demo_jos = Leaves k'" "x < NENV" "curenv k' = Some x"
    "schedulable demo_jos x" "\<forall>y<NENV. schedulable demo_jos y \<longrightarrow> ahead 0 x \<le> ahead 0 y"
    "env_status (envs k' x) = ENV_RUNNING" "x \<noteq> 0 \<longrightarrow> env_status (envs k' 0) = ENV_RUNNABLE"
    "ticks k' = ticks demo_jos + 1"
    using timer_preempts [OF demo_jos_fields(1) h(1,2) demo_jos_fields(6,4) h(3-6) dd] by blast
  have "ahead 0 x \<le> ahead 0 1" using x(5) sch [of 1] by (simp add: NENV_def)
  then have "x = 1" using x(2,4) sch [of x] by (auto simp: ahead_def NENV_def)
  with x show "\<exists>k'. trap idle_devices j 0 0 ?tf demo_jos = Leaves k' \<and> curenv k' = Some 1 \<and>
      env_status (envs k' 1) = ENV_RUNNING \<and> env_status (envs k' 0) = ENV_RUNNABLE \<and> ticks k' = 1"
    by (simp add: demo_jos_fields)
qed

end
