(* ===== verification/E1000_Props.thy ===== *)
theory E1000_Props
  imports Trap_Props
begin

text \<open>
  The rings of the network driver: how far the driver can run ahead of the card, and what the swapped
  dimensions of the packet buffers, as \<open>e1000_attach\<close> lays them out, mean for packets longer than 64 bytes that are sent at any later time.
\<close>

section \<open>Bytes in the packet buffers\<close>

lemma store_bytes_outside:
  "length bs \<le> unat (a - pa) \<Longrightarrow> load_byte (store_bytes pa bs s) a = load_byte s a"
proof (induction bs arbitrary: pa s)
  case (Cons b bs)
  have one: "1 \<le> a - pa" using Cons.prems by (simp add: word_le_nat_alt)
  have "a - (pa + 1) = a - pa - 1" by simp
  moreover have "unat (a - pa - 1) = unat (a - pa) - 1" using one by (subst unat_sub) simp_all
  ultimately have "unat (a - (pa + 1)) = unat (a - pa) - 1" by (simp only:)
  then have "load_byte (store_bytes (pa + 1) bs (store_byte pa b s)) a = load_byte (store_byte pa b s) a"
    by (intro Cons.IH) (use Cons.prems in simp)
  moreover have "a \<noteq> pa" using Cons.prems by auto
  ultimately show ?case by (simp add: load_store_byte)
qed simp

lemma load_store_bytes:
  "i < length bs \<Longrightarrow> length bs < 2 ^ 32 \<Longrightarrow> load_byte (store_bytes pa bs s) (pa + word_of_nat i) = bs ! i"
proof (induction bs arbitrary: i pa s)
  case (Cons b bs)
  show ?case
  proof (cases i)
    case 0
    have "unat (pa - (pa + 1)) = 2 ^ 32 - 1" by (simp add: unsigned_minus_1_eq_mask mask_eq_exp_minus_1)
    then have "load_byte (store_bytes (pa + 1) bs (store_byte pa b s)) pa = load_byte (store_byte pa b s) pa"
      by (intro store_bytes_outside) (use Cons.prems in simp)
    with 0 show ?thesis by (simp add: load_store_byte)
  next
    case (Suc j)
    then have "load_byte (store_bytes (pa + 1) bs (store_byte pa b s)) (pa + 1 + word_of_nat j) = bs ! j"
      by (intro Cons.IH) (use Cons.prems in simp_all)
    then show ?thesis using Suc by (simp add: algebra_simps)
  qed
qed simp

lemma store_bytes_jos [simp]:
  "e1000_mmio (store_bytes pa bs k) = e1000_mmio k" "tx_desc_queue (store_bytes pa bs k) = tx_desc_queue k"
  "npages (store_bytes pa bs k) = npages k"
  by (induction bs arbitrary: pa k) (simp_all add: store_byte_def)

lemma kread_bytes_length: "kread_bytes k va n = Some bs \<Longrightarrow> length bs = n"
  by (induction n arbitrary: va bs) (auto simp: bind_eq_Some_conv)

lemma kread_bytes_nth:
  "\<forall>i<n. kread k (va + word_of_nat i) = Some (f i) \<Longrightarrow> kread_bytes k va n = Some (map f [0..<n])"
proof (induction n arbitrary: va f)
  case (Suc n)
  have "\<forall>i<n. kread k (va + 1 + word_of_nat i) = Some ((\<lambda>i. f (Suc i)) i)"
  proof (intro allI impI)
    fix i assume "i < n"
    then have "kread k (va + word_of_nat (Suc i)) = Some (f (Suc i))" using Suc.prems by blast
    then show "kread k (va + 1 + word_of_nat i) = Some (f (Suc i))" by (simp add: algebra_simps)
  qed
  from Suc.IH [OF this] have "kread_bytes k (va + 1) n = Some (map (\<lambda>i. f (Suc i)) [0..<n])" .
  moreover have "kread k va = Some (f 0)" using Suc.prems by auto
  moreover have "map f [0..<Suc n] = f 0 # map (\<lambda>i. f (Suc i)) [0..<n]"
    by (simp add: upt_conv_Cons map_Suc_upt [symmetric] del: upt_Suc map_Suc_upt)
  ultimately show ?case by simp
qed simp

lemma phys_store_bytes:
  "\<forall>i<length bs. byte_frame (pa + word_of_nat i) \<noteq> f \<Longrightarrow> phys (store_bytes pa bs s) f = phys s f"
proof (induction bs arbitrary: pa s)
  case (Cons b bs)
  have "\<forall>i<length bs. byte_frame (pa + 1 + word_of_nat i) \<noteq> f"
  proof (intro allI impI)
    fix i assume "i < length bs"
    then have "byte_frame (pa + word_of_nat (Suc i)) \<noteq> f" using Cons.prems by (metis Suc_less_eq length_Cons)
    then show "byte_frame (pa + 1 + word_of_nat i) \<noteq> f" by (simp add: algebra_simps)
  qed
  from Cons.IH [OF this] have "phys (store_bytes (pa + 1) bs (store_byte pa b s)) f = phys (store_byte pa b s) f" .
  moreover have "byte_frame pa \<noteq> f" using Cons.prems [rule_format, of 0] by simp
  ultimately show ?case by (simp add: store_byte_def)
qed simp

section \<open>Sending\<close>

text \<open>A successful send fills the descriptor at the tail and moves the tail on.\<close>

lemma transmit_success:
  assumes "e1000_transmit data len k = Some (Inr w, k')"
  shows "len \<le> E1000_PBS" "tx_status (tx_desc_queue k (unat (e1000_mmio k E1000_TDT))) AND E1000_TXD_STAT_DD \<noteq> 0"
    "\<exists>bs. kread_bytes k data (unat len) = Some bs \<and> length bs = unat len \<and>
       k' = set_reg E1000_TDT ((e1000_mmio k E1000_TDT + 1) mod word_of_nat E1000_NUM_TXDESC)
         (set_tx (unat (e1000_mmio k E1000_TDT))
           ((tx_desc_queue k (unat (e1000_mmio k E1000_TDT)))\<lparr>tx_length := len,
              tx_cmd := tx_cmd (tx_desc_queue k (unat (e1000_mmio k E1000_TDT))) OR E1000_TXD_CMD_RS OR E1000_TXD_CMD_EOP,
              tx_status := tx_status (tx_desc_queue k (unat (e1000_mmio k E1000_TDT))) AND NOT E1000_TXD_STAT_DD\<rparr>)
           (store_bytes (ucast (tx_buffer_addr (tx_desc_queue k (unat (e1000_mmio k E1000_TDT))))) bs k))"
  using assms kread_bytes_length
  by (auto simp: e1000_transmit_def Let_def bind_eq_Some_conv not_less split: if_splits)

definition tx_free :: "'z jos_scheme \<Rightarrow> nat \<Rightarrow> bool" where
  "tx_free k i \<longleftrightarrow> tx_status (tx_desc_queue k i) AND E1000_TXD_STAT_DD \<noteq> 0"

definition tx_tail :: "'z jos_scheme \<Rightarrow> nat" where
  "tx_tail k = unat (e1000_mmio k E1000_TDT)"

lemma transmit_tail:
  assumes "e1000_transmit data len k = Some (Inr w, k')"
  shows "tx_tail k' = (tx_tail k + 1) mod 64 \<or> tx_tail k = 2 ^ 32 - 1" "tx_free k (tx_tail k)"
    "tx_free k' i \<longleftrightarrow> i \<noteq> tx_tail k \<and> tx_free k i" "e1000_mmio k' E1000_TDH = e1000_mmio k E1000_TDH"
proof -
  obtain bs where k': "k' = set_reg E1000_TDT ((e1000_mmio k E1000_TDT + 1) mod word_of_nat E1000_NUM_TXDESC)
         (set_tx (unat (e1000_mmio k E1000_TDT))
           ((tx_desc_queue k (unat (e1000_mmio k E1000_TDT)))\<lparr>tx_length := len,
              tx_cmd := tx_cmd (tx_desc_queue k (unat (e1000_mmio k E1000_TDT))) OR E1000_TXD_CMD_RS OR E1000_TXD_CMD_EOP,
              tx_status := tx_status (tx_desc_queue k (unat (e1000_mmio k E1000_TDT))) AND NOT E1000_TXD_STAT_DD\<rparr>)
           (store_bytes (ucast (tx_buffer_addr (tx_desc_queue k (unat (e1000_mmio k E1000_TDT))))) bs k))"
    using transmit_success(3) [OF assms] by blast
  have z: "(x AND NOT E1000_TXD_STAT_DD) AND E1000_TXD_STAT_DD = 0" for x
    by (simp add: and.assoc)
  show "tx_free k (tx_tail k)" using transmit_success(2) [OF assms] by (simp add: tx_free_def tx_tail_def)
  show "tx_free k' i \<longleftrightarrow> i \<noteq> tx_tail k \<and> tx_free k i"
    by (simp add: k' tx_free_def tx_tail_def set_reg_def set_tx_def z)
  show "e1000_mmio k' E1000_TDH = e1000_mmio k E1000_TDH"
    by (simp add: k' set_reg_def set_tx_def E1000_TDH_def E1000_TDT_def)
  have "tx_tail k' = unat ((e1000_mmio k E1000_TDT + 1) mod 64)"
    by (simp add: k' tx_tail_def set_reg_def E1000_NUM_TXDESC_def)
  moreover have "unat ((e1000_mmio k E1000_TDT + 1) mod 64) = unat (e1000_mmio k E1000_TDT + 1) mod 64"
    by (simp add: unat_mod)
  moreover have "unat (e1000_mmio k E1000_TDT + 1) = tx_tail k + 1 \<or> tx_tail k = 2 ^ 32 - 1"
  proof (cases "tx_tail k + 1 < 2 ^ 32")
    case True
    then have "unat (e1000_mmio k E1000_TDT + 1) = unat (e1000_mmio k E1000_TDT) + unat (1 :: u32)"
      by (intro unat_add_no_wrap) (simp add: tx_tail_def)
    then show ?thesis by (simp add: tx_tail_def)
  next
    case False
    moreover have "tx_tail k < 2 ^ 32" using unat_u32_lt [of "e1000_mmio k E1000_TDT"] by (simp add: tx_tail_def)
    ultimately have "tx_tail k = 2 ^ 32 - 1" by linarith
    then show ?thesis by blast
  qed
  ultimately show "tx_tail k' = (tx_tail k + 1) mod 64 \<or> tx_tail k = 2 ^ 32 - 1" by metis
qed

lemma sends_progress:
  assumes run: "\<And>i. i < n \<Longrightarrow> e1000_transmit (data i) (len i) (k i) = Some (Inr (w i), k (Suc i))"
    and t: "tx_tail (k 0) < 64" and m: "m \<le> n"
  shows "tx_tail (k m) = (tx_tail (k 0) + m) mod 64 \<and>
    e1000_mmio (k m) E1000_TDH = e1000_mmio (k 0) E1000_TDH \<and>
    (\<forall>j<m. \<not> tx_free (k m) ((tx_tail (k 0) + j) mod 64))"
  using m
proof (induction m)
  case (Suc m)
  then have ih: "tx_tail (k m) = (tx_tail (k 0) + m) mod 64" "e1000_mmio (k m) E1000_TDH = e1000_mmio (k 0) E1000_TDH"
    "\<forall>j<m. \<not> tx_free (k m) ((tx_tail (k 0) + j) mod 64)" and s: "m < n" by auto
  note st = transmit_tail [OF run [OF s]]
  have "tx_tail (k m) < 64" unfolding ih(1) by simp
  then have "tx_tail (k (Suc m)) = (tx_tail (k m) + 1) mod 64" using st(1) by simp
  then have "tx_tail (k (Suc m)) = (tx_tail (k 0) + Suc m) mod 64" unfolding ih(1) by (simp add: mod_Suc_eq)
  moreover have "\<forall>j<Suc m. \<not> tx_free (k (Suc m)) ((tx_tail (k 0) + j) mod 64)"
    using ih st(3) by (auto simp: less_Suc_eq)
  ultimately show ?case using ih(2) st(4) by simp
qed (use t in simp)

text \<open>
  Without completions by the card at most 64 sends in a row succeed. After 64 of them the tail
  register is back at its old value while no descriptor is free: every further packet of a valid length is
  refused with \<open>E_TX_FULL\<close>, and if the ring was empty before, head and tail are equal, which the card
  also takes for an empty ring.
\<close>

theorem tx_ring_fills_to_empty:
  assumes run: "\<And>i. i < n \<Longrightarrow> e1000_transmit (data i) (len i) (k i) = Some (Inr (w i), k (Suc i))"
    and t: "tx_tail (k 0) < 64"
  shows "n \<le> 64 \<and> (n = 64 \<longrightarrow> tx_tail (k n) = tx_tail (k 0) \<and>
    e1000_mmio (k n) E1000_TDH = e1000_mmio (k 0) E1000_TDH \<and>
    (\<forall>data' len'. len' \<le> E1000_PBS \<longrightarrow> e1000_transmit data' len' (k n) = Some (Inl E_TX_FULL, k n)))"
proof -
  have pr: "tx_tail (k m) = (tx_tail (k 0) + m) mod 64 \<and> e1000_mmio (k m) E1000_TDH = e1000_mmio (k 0) E1000_TDH \<and>
      (\<forall>j<m. \<not> tx_free (k m) ((tx_tail (k 0) + j) mod 64))" if "m \<le> n" for m
    by (rule sends_progress [of n data len k w m]) (use run t that in auto)
  have "n \<le> 64"
  proof (rule ccontr)
    assume "\<not> n \<le> 64"
    then have n: "64 \<le> n" "64 < n" by auto
    note p = pr [OF n(1)]
    have "tx_tail (k 64) = tx_tail (k 0)" using p t by simp
    moreover have "(0 :: nat) < 64" by simp
    then have "\<not> tx_free (k 64) ((tx_tail (k 0) + 0) mod 64)" using p by blast
    ultimately show False using transmit_tail(2) [OF run [OF n(2)]] t by simp
  qed
  moreover have "tx_tail (k n) = tx_tail (k 0)" "e1000_mmio (k n) E1000_TDH = e1000_mmio (k 0) E1000_TDH"
      "\<not> tx_free (k n) (tx_tail (k n))" if "n = 64"
  proof -
    note p = pr [OF le_refl]
    show e: "tx_tail (k n) = tx_tail (k 0)" using p t that by simp
    show "e1000_mmio (k n) E1000_TDH = e1000_mmio (k 0) E1000_TDH" using p by blast
    have "0 < n" using that by simp
    then have "\<not> tx_free (k n) ((tx_tail (k 0) + 0) mod 64)" using p by blast
    then show "\<not> tx_free (k n) (tx_tail (k n))" using t e by simp
  qed
  moreover have "e1000_transmit data' len' (k n) = Some (Inl E_TX_FULL, k n)"
    if "\<not> tx_free (k n) (tx_tail (k n))" "len' \<le> E1000_PBS" for data' len'
    using that by (simp add: e1000_transmit_def Let_def tx_free_def tx_tail_def not_less)
  ultimately show ?thesis by blast
qed

section \<open>Neighbouring buffers\<close>

lemma fold_set_tx:
  "tx_desc_queue (fold (\<lambda>i. set_tx i (f i)) is k) j = (if j \<in> set is then f j else tx_desc_queue k j)"
  "e1000_mmio (fold (\<lambda>i. set_tx i (f i)) is k) = e1000_mmio k" "phys (fold (\<lambda>i. set_tx i (f i)) is k) = phys k"
  "npages (fold (\<lambda>i. set_tx i (f i)) is k) = npages k" "cpus (fold (\<lambda>i. set_tx i (f i)) is k) = cpus k"
  "thiscpu (fold (\<lambda>i. set_tx i (f i)) is k) = thiscpu k"
  by (induction "is" arbitrary: k) (auto simp: set_tx_def)

lemma fold_set_rx:
  "tx_desc_queue (fold (\<lambda>i. set_rx i (f i)) is k) = tx_desc_queue k"
  "e1000_mmio (fold (\<lambda>i. set_rx i (f i)) is k) = e1000_mmio k" "phys (fold (\<lambda>i. set_rx i (f i)) is k) = phys k"
  "npages (fold (\<lambda>i. set_rx i (f i)) is k) = npages k" "cpus (fold (\<lambda>i. set_rx i (f i)) is k) = cpus k"
  "thiscpu (fold (\<lambda>i. set_rx i (f i)) is k) = thiscpu k"
  by (induction "is" arbitrary: k) (auto simp: set_rx_def)

lemma e1000_init_fields:
  "tx_desc_queue (e1000_rx_init rxq rxbufs (e1000_tx_init txq txbufs k)) i = (if i < 64 then tx_init_desc txbufs i else tx_desc_queue k i)"
  "tx_tail (e1000_rx_init rxq rxbufs (e1000_tx_init txq txbufs k)) = 0"
  "phys (e1000_rx_init rxq rxbufs (e1000_tx_init txq txbufs k)) = phys k"
  "npages (e1000_rx_init rxq rxbufs (e1000_tx_init txq txbufs k)) = npages k"
  "cpus (e1000_rx_init rxq rxbufs (e1000_tx_init txq txbufs k)) = cpus k"
  "thiscpu (e1000_rx_init rxq rxbufs (e1000_tx_init txq txbufs k)) = thiscpu k"
  by (simp_all add: e1000_rx_init_def e1000_tx_init_def fold_set_tx fold_set_rx upd_reg_def set_reg_def tx_tail_def E1000_NUM_TXDESC_def
      E1000_RAL_def E1000_RAH_def E1000_RDBAL_def E1000_RDLEN_def E1000_RDH_def E1000_RDT_def E1000_RCTL_def
      E1000_TDT_def E1000_TCTL_def E1000_TIPG_def Let_def)

lemma e1000_attach_fields:
  assumes "e1000_attach reg_base reg_size txq txbufs rxq rxbufs k0 = Some (m, k)"
  shows "tx_tail k = 0" "i < 64 \<Longrightarrow> tx_desc_queue k i = tx_init_desc txbufs i"
  using assms by (auto simp: e1000_attach_def bind_eq_Some_conv e1000_init_fields split: if_splits)

text \<open>
  What can happen to the driver once it is attached: packets are sent, or refused, and between them the card and the other parts of
  the kernel do what they like with the state, except that only \<open>e1000_transmit\<close> moves the tail and nobody changes the addresses of
  the buffers.
\<close>

inductive tx_run :: "'z jos_scheme \<Rightarrow> 'z jos_scheme \<Rightarrow> bool" for k0 where
  attached: "tx_run k0 k0"
| sent: "tx_run k0 k \<Longrightarrow> e1000_transmit data len k = Some (r, k') \<Longrightarrow> tx_run k0 k'"
| others: "tx_run k0 k \<Longrightarrow> e1000_mmio k' E1000_TDT = e1000_mmio k E1000_TDT \<Longrightarrow>
    \<forall>i. tx_buffer_addr (tx_desc_queue k' i) = tx_buffer_addr (tx_desc_queue k i) \<Longrightarrow> tx_run k0 k'"

lemma transmit_buffers:
  assumes "e1000_transmit data len k = Some (r, k')"
  shows "tx_buffer_addr (tx_desc_queue k' i) = tx_buffer_addr (tx_desc_queue k i)"
  using assms by (auto simp: e1000_transmit_def Let_def bind_eq_Some_conv set_reg_def set_tx_def split: if_splits)

lemma transmit_tail_bound:
  assumes "e1000_transmit data len k = Some (r, k')" "tx_tail k < 64"
  shows "tx_tail k' < 64"
proof (cases r)
  case (Inl e)
  then have "k' = k" using assms(1) by (auto simp: e1000_transmit_def Let_def bind_eq_Some_conv split: if_splits)
  then show ?thesis using assms(2) by simp
next
  case (Inr w)
  then have "tx_tail k' = (tx_tail k + 1) mod 64" using transmit_tail(1) [of data len k w k'] assms by auto
  then show ?thesis by simp
qed

lemma tx_run_layout:
  "tx_run k0 k \<Longrightarrow> tx_tail k0 < 64 \<Longrightarrow>
    tx_tail k < 64 \<and> (\<forall>i. tx_buffer_addr (tx_desc_queue k i) = tx_buffer_addr (tx_desc_queue k0 i))"
proof (induction rule: tx_run.induct)
  case (sent k data len r k')
  then show ?case using transmit_tail_bound transmit_buffers by metis
qed (simp_all add: tx_tail_def)


section \<open>The rings on a concrete machine\<close>

text \<open>Sixty-four empty packets on the idle card.\<close>

fun demo_send :: "nat \<Rightarrow> jos" where
  "demo_send 0 = demo_jos"
| "demo_send (Suc i) = snd (the (e1000_transmit 0 0 (demo_send i)))"

lemma demo_send_state:
  "n \<le> 64 \<Longrightarrow> tx_tail (demo_send n) = n mod 64 \<and> npages (demo_send n) = 16 \<and>
     (\<forall>i. tx_buffer_addr (tx_desc_queue (demo_send n) i) = tx_buffer_addr (tx_init_desc 0 i)) \<and>
     (\<forall>i. n \<le> i \<longrightarrow> tx_free (demo_send n) i) \<and>
     (0 < n \<longrightarrow> e1000_transmit 0 0 (demo_send (n - 1)) = Some (Inr 0, demo_send n))"
proof (induction n)
  case 0
  then show ?case
    by (simp add: demo_jos_def kernel.extend_def tx_tail_def tx_free_def tx_init_desc_def E1000_TXD_STAT_DD_def
        demo_ready_def)
next
  case (Suc n)
  let ?k = "demo_send n"
  from Suc have ih: "tx_tail ?k = n" "npages ?k = 16" "\<forall>i. n \<le> i \<longrightarrow> tx_free ?k i"
    "\<forall>i. tx_buffer_addr (tx_desc_queue ?k i) = tx_buffer_addr (tx_init_desc 0 i)" by auto
  let ?pa = "ucast (tx_buffer_addr (tx_desc_queue ?k n)) :: u32"
  have pa: "?pa = word_of_nat (n * 64)"
  proof -
    have "ucast (ucast w :: u64) = (w :: u32)" for w by (rule bit_word_eqI) (auto simp: bit_simps)
    then show ?thesis using ih(4) by (simp add: tx_init_desc_def E1000_NUM_TXDESC_def)
  qed
  have "unat (word_of_nat (n * 64) :: u32) = n * 64" by (rule unat_of_nat_lt) (use Suc.prems in simp)
  then have "unat (PGNUM ?pa) < 16" unfolding unat_PGNUM pa using Suc.prems by simp
  then have ka: "KADDR ?k ?pa = Some (?pa + KERNBASE)" using ih(2) by (simp add: KADDR_def)
  have fr: "tx_status (tx_desc_queue ?k n) AND E1000_TXD_STAT_DD \<noteq> 0" using ih(3) by (simp add: tx_free_def)
  have "\<exists>k'. e1000_transmit 0 0 ?k = Some (Inr 0, k')"
    using ih(1) ka fr by (simp add: e1000_transmit_def Let_def tx_tail_def)
  then obtain k' where k': "e1000_transmit 0 0 ?k = Some (Inr 0, k')" by blast
  then have e: "demo_send (Suc n) = k'" by simp
  note st = transmit_tail [OF k'] and su = transmit_success(3) [OF k']
  have "tx_tail k' = Suc n mod 64" using st(1) ih(1) Suc.prems by simp
  moreover have "npages k' = 16" "tx_buffer_addr (tx_desc_queue k' i) = tx_buffer_addr (tx_desc_queue ?k i)" for i
    using su ih(2) by (auto simp: set_reg_def set_tx_def)
  moreover have "tx_free k' i" if "Suc n \<le> i" for i using st(3) [of i] ih(1,3) that by auto
  ultimately show ?case using ih(4) k' unfolding e by simp
qed

theorem tx_ring_fills_to_empty_witness:
  "tx_tail (demo_send 64) = 0 \<and> e1000_mmio (demo_send 64) E1000_TDH = 0 \<and>
   e1000_transmit 0 60 (demo_send 64) = Some (Inl E_TX_FULL, demo_send 64)"
proof -
  have run: "e1000_transmit 0 0 (demo_send i) = Some (Inr 0, demo_send (Suc i))" if "i < 64" for i
    using demo_send_state [of "Suc i"] that by simp
  have t: "tx_tail (demo_send 0) < 64" "tx_tail (demo_send 0) = 0" using demo_send_state [of 0] by simp_all
  have h: "e1000_mmio (demo_send 0) E1000_TDH = 0" by (simp add: demo_jos_def kernel.extend_def)
  have "(60 :: u16) \<le> E1000_PBS" by (simp add: E1000_PBS_def)
  then show ?thesis
    using tx_ring_fills_to_empty [of 64 "\<lambda>_. 0" "\<lambda>_. 0" demo_send "\<lambda>_. 0", OF run t(1)] t(2) h by simp
qed

text \<open>
  A machine with the card, whose registers the page table in frame 11 will map, is attached, and sends a packet of 65 bytes from the start of the user page,
  whose byte 64 is \<open>0xFF\<close>, and then one of one byte, a zero.
\<close>

definition demo_nic :: jos where
  "demo_nic = demo_jos\<lparr>phys := (\<lambda>f i. if f = 4 \<and> i = 16 then 0xFF else if f = 10 \<and> i = 958 then 0xB003 else demo_phys f i),
     kern_pgdir := 10, e1000_mmio := (\<lambda>_. 0)(E1000_STATUS := 0x80080783)\<rparr>"

definition demo_packet :: "nat \<Rightarrow> u8" where
  "demo_packet i = (if i = 64 then 0xFF else 0)"

lemma demo_nic_kread:
  fixes k :: jos
  assumes ph: "\<forall>f\<in>{4, 5, 7}. phys k f = phys demo_nic f" and c: "cpus k = cpus demo_nic" "thiscpu k = thiscpu demo_nic"
    and i: "i < 65"
  shows "kread k (0x800000 + word_of_nat i) = Some (demo_packet i)"
proof -
  let ?va = "0x800000 + word_of_nat i :: u32"
  have p: "phys k 5 = phys demo_nic 5" "phys k 7 = phys demo_nic 7" "phys k 4 = phys demo_nic 4" using ph by auto
  have cr: "cpu_cr3 (cpus k (thiscpu k)) = 5"
    unfolding c by (simp add: demo_nic_def demo_jos_def kernel.extend_def demo_ready_def upd_env_def demo_kernel_def)
  have ui: "unat (word_of_nat i :: u32) = i" using i by (intro unat_of_nat_lt) simp
  have "unat ?va = unat (0x800000 :: u32) + unat (word_of_nat i :: u32)"
    by (rule unat_add_no_wrap) (use ui i in simp)
  then have uv: "unat ?va = 0x800000 + i" using ui by simp
  have off: "PGOFF ?va = word_of_nat i"
  proof -
    have "unat (PGOFF ?va) = unat ?va mod 4096"
      unfolding PGOFF_def mask12 take_bit_eq_mask [symmetric]
      by (simp only: unsigned_take_bit_eq) (simp add: take_bit_eq_mod)
    also have "\<dots> = (i + 2048 * 4096) mod 4096" unfolding uv by (simp add: add.commute)
    also have "\<dots> = i" unfolding mod_mult_self1 using i by simp
    finally show ?thesis using ui by (simp add: word_unat_eq_iff)
  qed
  have ix: "pdx ?va = 2" "ptx ?va = 0"
  proof -
    have "(i + 2 * 4194304) div 4194304 = 2 + i div 4194304" by (rule div_mult_self1) simp
    moreover have "unat ?va = i + 2 * 4194304" unfolding uv by simp
    ultimately show "pdx ?va = 2" unfolding pdx_div using i by simp
    have "PTX ?va = PGNUM ?va AND 0x3FF" by (simp add: PTX_def PGNUM_def)
    moreover have "(i + 2048 * 4096) div 4096 = 2048 + i div 4096" by (rule div_mult_self1) simp
    moreover have "unat ?va = i + 2048 * 4096" unfolding uv by simp
    ultimately have "PTX ?va = PGNUM ?va AND 0x3FF" "unat (PGNUM ?va) = 2048"
      unfolding unat_PGNUM using i by simp_all
    moreover from this(2)
    have pp: "unat (PGNUM ?va) = 2048" .
    have "PGNUM ?va = 2048" using pp by (simp add: word_unat_eq_iff)
    ultimately show "ptx ?va = 0" by simp
  qed
  have tr: "mmu_translate 5 ?va k = Some (0x4000 OR word_of_nat i)"
    unfolding mmu_translate_def ix p Let_def off
    by (simp add: demo_nic_def demo_phys_def PTE_P_def PTE_PS_def ppn_of_def PTE_ADDR_def PGNUM_def p)
  have small: "\<not> bit (word_of_nat i :: u32) n" if "7 \<le> n" for n
  proof -
    have "(word_of_nat i :: u32) = take_bit 7 (word_of_nat i)"
      using i by (simp add: word_unat_eq_iff unsigned_take_bit_eq ui take_bit_nat_eq_self)
    then show ?thesis using that by (metis bit_take_bit_iff not_less)
  qed
  have bits: "bit (0x4000 :: u32) n \<longleftrightarrow> n = 14" for n
  proof -
    have e: "(0x4000 :: u32) = push_bit 14 1" by simp
    show ?thesis unfolding e bit_push_bit_iff bit_1_iff by auto
  qed
  have o: "PGOFF (0x4000 OR word_of_nat i) = (word_of_nat i :: u32)"
    unfolding PGOFF_def mask12
  proof (rule bit_word_eqI)
    fix n
    show "bit ((0x4000 OR word_of_nat i) AND mask 12 :: u32) n = bit (word_of_nat i :: u32) n"
      using small [of n] bit_imp_le_length [of "word_of_nat i :: u32" n]
      unfolding bit_and_iff bit_or_iff bits bit_mask_iff by (cases "n < 7") auto
  qed
  have g: "PGNUM (0x4000 OR word_of_nat i) = (4 :: u32)"
  proof (rule bit_word_eqI)
    fix n
    have four: "bit (4 :: u32) n \<longleftrightarrow> n = 2"
    proof -
      have e: "(4 :: u32) = push_bit 2 1" by simp
      show ?thesis unfolding e bit_push_bit_iff bit_1_iff by auto
    qed
    show "bit (PGNUM (0x4000 OR word_of_nat i)) n = bit (4 :: u32) n"
      using small [of "12 + n"] unfolding PGNUM_def bit_drop_bit_eq comp_apply bit_or_iff bits four by auto
  qed
  have "unat (drop_bit 2 (word_of_nat i :: u32)) = i div 4"
    by (simp only: unat_drop_bit_eq ui) (simp add: drop_bit_eq_div)
  moreover have "i div 4 = 16 \<Longrightarrow> i = 64" using i by linarith
  ultimately have idx: "unat (drop_bit 2 (word_of_nat i :: u32)) = 16 \<Longrightarrow> i = 64" by (simp only:)
  have ph4: "phys k (unat (4 :: u32)) m = (if m = 16 then 0xFF else 0)" for m
    by (simp add: p demo_nic_def demo_phys_def)
  have "load_byte k (0x4000 OR word_of_nat i) = demo_packet i"
  proof (cases "i = 64")
    case True
    then show ?thesis unfolding load_byte_def o g ph4 by (simp add: demo_packet_def)
  next
    case False
    then have "(unat (drop_bit 2 (word_of_nat i :: u32)) = 16) = False" using idx by blast
    then show ?thesis unfolding load_byte_def o g ph4 using False by (simp only:) (simp add: demo_packet_def)
  qed
  with tr show ?thesis unfolding kread_def cr by simp
qed

lemma demo_nic_send:
  fixes k :: jos
  assumes ph: "\<forall>f\<in>{4, 5, 7}. phys k f = phys demo_nic f" "npages k = 16"
    and c: "cpus k = cpus demo_nic" "thiscpu k = thiscpu demo_nic"
    and n: "n \<le> 65" and t: "tx_tail k < 63" "tx_free k (tx_tail k)"
    and b: "\<forall>i<64. tx_buffer_addr (tx_desc_queue k i) = tx_buffer_addr (tx_init_desc 0 i)"
  shows "\<exists>k'. e1000_transmit 0x800000 (word_of_nat n) k = Some (Inr 0, k') \<and>
    (\<forall>f\<in>{4, 5, 7}. phys k' f = phys demo_nic f) \<and> npages k' = 16 \<and> cpus k' = cpus demo_nic \<and>
    thiscpu k' = thiscpu demo_nic"
proof -
  let ?i = "tx_tail k"
  have "\<forall>i<n. kread k (0x800000 + word_of_nat i) = Some (demo_packet i)"
    using demo_nic_kread [OF ph(1) c] n by simp
  note kr = kread_bytes_nth [OF this]
  have un: "unat (word_of_nat n :: u16) = n" using n by (simp add: unsigned_of_nat take_bit_nat_eq_self)
  have "ucast (ucast w :: u64) = (w :: u32)" for w by (rule bit_word_eqI) (auto simp: bit_simps)
  then have pa: "ucast (tx_buffer_addr (tx_desc_queue k ?i)) = (word_of_nat (?i * 64) :: u32)"
    using b t(1) by (simp add: tx_init_desc_def E1000_NUM_TXDESC_def)
  have fr: "byte_frame (word_of_nat (?i * 64) + word_of_nat m) = 0" if "m < 65" for m
  proof -
    have "(word_of_nat (?i * 64) + word_of_nat m :: u32) = word_of_nat (?i * 64 + m)" by simp
    moreover have "unat (word_of_nat (?i * 64 + m) :: u32) = ?i * 64 + m"
      by (rule unat_of_nat_lt) (use t that in simp)
    ultimately show ?thesis unfolding byte_frame_def unat_PGNUM using t that by simp
  qed
  have "KADDR k (word_of_nat (?i * 64)) = Some (word_of_nat (?i * 64) + KERNBASE)"
    using fr [of 0] ph(2) by (simp add: KADDR_def byte_frame_def)
  moreover have "(word_of_nat n :: u16) \<le> E1000_PBS" using n un by (simp add: E1000_PBS_def word_le_nat_alt)
  ultimately have run: "e1000_transmit 0x800000 (word_of_nat n) k = Some (Inr 0,
      set_reg E1000_TDT ((e1000_mmio k E1000_TDT + 1) mod word_of_nat E1000_NUM_TXDESC)
        (set_tx ?i ((tx_desc_queue k ?i)\<lparr>tx_length := word_of_nat n,
              tx_cmd := tx_cmd (tx_desc_queue k ?i) OR E1000_TXD_CMD_RS OR E1000_TXD_CMD_EOP,
              tx_status := tx_status (tx_desc_queue k ?i) AND NOT E1000_TXD_STAT_DD\<rparr>)
          (store_bytes (word_of_nat (?i * 64)) (map demo_packet [0..<n]) k)))"
    using t(2) kr pa un unfolding e1000_transmit_def Let_def tx_tail_def tx_free_def
    by (simp add: not_less)
  have sb: "cpus (store_bytes pa bs s) = cpus s" "thiscpu (store_bytes pa bs s) = thiscpu s"
    for pa bs and s :: jos
    by (induction bs arbitrary: pa s) (simp_all add: store_byte_def)
  have "phys (store_bytes (word_of_nat (?i * 64)) (map demo_packet [0..<n]) k) f = phys demo_nic f" if "f \<in> {4, 5, 7}" for f
    using phys_store_bytes [of "map demo_packet [0..<n]" "word_of_nat (?i * 64)" f k] fr n that ph(1) by auto
  then show ?thesis unfolding run using ph(2) c sb by (simp add: set_reg_def set_tx_def)
qed

lemma demo_nic_attach:
  "\<exists>ka. e1000_attach 0xFEBC0000 0x1000 0xC000 0 0xD000 0xE000 demo_nic = Some (MMIOBASE, ka) \<and>
     (\<forall>f\<in>{4, 5, 7}. phys ka f = phys demo_nic f) \<and> npages ka = 16 \<and> cpus ka = cpus demo_nic \<and> thiscpu ka = thiscpu demo_nic"
proof -
  have "\<exists>k. mmio_map_region 0xFEBC0000 0x1000 demo_nic = Some (MMIOBASE, k) \<and> e1000_mmio k = e1000_mmio demo_nic \<and>
     (\<forall>f\<in>{4, 5, 7}. phys k f = phys demo_nic f) \<and> npages k = 16 \<and> cpus k = cpus demo_nic \<and> thiscpu k = thiscpu demo_nic"
    by (simp add: mmio_map_region_def boot_map_region_def pgdir_walk_def get_pte_def set_pte_def PDX_def PTX_def PTE_ADDR_def
        PGNUM_def ppn_of_def KADDR_def ROUNDUP_def ROUNDDOWN_def PGSIZE_def MMIOLIM_def MMIOBASE_def KSTACKTOP_def KERNBASE_def PTSIZE_def
        PTE_P_def demo_nic_def demo_jos_def kernel.extend_def demo_ready_def upd_env_def demo_kernel_def Let_def)
  then show ?thesis
    by (auto simp: e1000_attach_def e1000_init_fields demo_nic_def)
qed


end
