(* ===== verification/Fs_Disk.thy ===== *)
theory Fs_Disk
  imports Resource_Pool
begin

text \<open>
  The disk of the file server, \<^verbatim>\<open>fs/fs.c\<close> and \<^verbatim>\<open>inc/fs.h\<close>. The block
  cache maps the whole disk into memory; \<open>fs_mem\<close> is what the server reads and writes there,
  block by block and byte by byte, \<open>fs_disk\<close> what is on the disk. Theory \<open>Fs_Cache\<close> shows
  that the cache implements this memory. A pointer into the cache is a block and a byte offset; the C structures lie at
  fixed offsets, so that overlapping uses of a block are visible.
\<close>

section \<open>Words in blocks\<close>

type_synonym image = "nat \<Rightarrow> nat \<Rightarrow> u8"

record fs =
  fs_mem :: image
  fs_disk :: image

definition byte32 :: "nat \<Rightarrow> u32 \<Rightarrow> u8" where
  "byte32 n w = ucast (drop_bit (8 * n) w)"

definition join32 :: "u8 \<Rightarrow> u8 \<Rightarrow> u8 \<Rightarrow> u8 \<Rightarrow> u32" where
  "join32 b0 b1 b2 b3 = ucast b0 OR push_bit 8 (ucast b1) OR push_bit 16 (ucast b2) OR push_bit 24 (ucast b3)"

definition get32 :: "image \<Rightarrow> nat \<times> nat \<Rightarrow> u32" where
  "get32 m a = (let b = m (fst a); i = snd a in join32 (b i) (b (i + 1)) (b (i + 2)) (b (i + 3)))"

definition put32 :: "nat \<times> nat \<Rightarrow> u32 \<Rightarrow> image \<Rightarrow> image" where
  "put32 a w m = (let i = snd a in m(fst a := (m (fst a))(i := byte32 0 w, i + 1 := byte32 1 w,
     i + 2 := byte32 2 w, i + 3 := byte32 3 w)))"

definition upd_mem :: "(image \<Rightarrow> image) \<Rightarrow> fs \<Rightarrow> fs" where
  "upd_mem f s = s\<lparr>fs_mem := f (fs_mem s)\<rparr>"

text \<open>\<open>flush_block\<close> of an address in block \<open>b\<close>.\<close>

definition flush_block :: "nat \<Rightarrow> fs \<Rightarrow> fs" where
  "flush_block b s = s\<lparr>fs_disk := (fs_disk s)(b := fs_mem s b)\<rparr>"

definition disk_word :: "fs \<Rightarrow> nat \<times> nat \<Rightarrow> u32" where
  "disk_word s a = get32 (fs_mem s) a"

definition set_disk_word :: "nat \<times> nat \<Rightarrow> u32 \<Rightarrow> fs \<Rightarrow> fs" where
  "set_disk_word a w = upd_mem (put32 a w)"

lemma bit_small_byte: "bit (b :: u8) n \<Longrightarrow> n < 8"
  using bit_imp_le_length [of b n] by simp

lemma bit_shift_byte: "k \<le> 24 \<Longrightarrow> bit (push_bit k (ucast (b :: u8)) :: u32) n \<longleftrightarrow> k \<le> n \<and> bit b (n - k)"
proof -
  assume k: "k \<le> 24"
  have "n < 32" if "k \<le> n" "bit b (n - k)" using bit_small_byte [OF that(2)] that(1) k by simp
  then show ?thesis by (auto simp: bit_simps)
qed

lemma join_bytes: "join32 (byte32 0 w) (byte32 1 w) (byte32 2 w) (byte32 3 w) = w"
proof (rule bit_word_eqI)
  fix n assume n: "n < LENGTH(32)"
  have z: "bit (ucast (byte32 0 w) :: u32) n \<longleftrightarrow> n < 8 \<and> bit w n"
    using bit_shift_byte [of 0 "byte32 0 w" n] by (auto simp: byte32_def bit_simps)
  have b: "bit (byte32 m w) i \<longleftrightarrow> i < 8 \<and> bit w (8 * m + i)" for m i
    by (auto simp: byte32_def bit_simps)
  show "bit (join32 (byte32 0 w) (byte32 1 w) (byte32 2 w) (byte32 3 w)) n = bit w n"
    unfolding join32_def bit_or_iff z using n
    by (cases "n < 8"; cases "n < 16"; cases "n < 24") (auto simp: bit_shift_byte b not_less)
qed

lemma get_put32 [simp]: "get32 (put32 a w m) a = w"
  using join_bytes [of w] by (simp add: get32_def put32_def Let_def)

lemma get_put32_other:
  "fst a \<noteq> fst a' \<or> snd a + 4 \<le> snd a' \<or> snd a' + 4 \<le> snd a \<Longrightarrow> get32 (put32 a w m) a' = get32 m a'"
  by (auto simp: get32_def put32_def Let_def)

lemma put32_block [simp]: "fst a \<noteq> b \<Longrightarrow> put32 a w m b = m b"
  by (simp add: put32_def Let_def)

lemma put32_byte: "fst a \<noteq> b \<or> i < snd a \<or> snd a + 4 \<le> i \<Longrightarrow> put32 a w m b i = m b i"
  by (auto simp: put32_def Let_def)

lemma disk_word_set [simp]: "disk_word (set_disk_word a w s) a = w"
  by (simp add: disk_word_def set_disk_word_def upd_mem_def)

lemma disk_word_set_other:
  "fst a \<noteq> fst a' \<or> snd a + 4 \<le> snd a' \<or> snd a' + 4 \<le> snd a \<Longrightarrow>
   disk_word (set_disk_word a w s) a' = disk_word s a'"
  by (simp add: disk_word_def set_disk_word_def upd_mem_def get_put32_other)

lemma disk_word_flush [simp]: "disk_word (flush_block b s) a = disk_word s a"
  by (simp add: disk_word_def flush_block_def)

section \<open>The super block\<close>

definition BLKSIZE :: nat where "BLKSIZE = 4096"
definition BLKBITSIZE :: nat where "BLKBITSIZE = 4096 * 8"
definition DISKSIZE :: nat where "DISKSIZE = 0xC0000000"
definition FS_MAGIC :: u32 where "FS_MAGIC = 0x4A0530AE"

definition s_magic :: "fs \<Rightarrow> u32" where "s_magic s = disk_word s (1, 0)"
definition s_nblocks :: "fs \<Rightarrow> nat" where "s_nblocks s = unat (disk_word s (1, 4))"
definition s_root :: "nat \<times> nat" where "s_root = (1, 8)"

definition check_super :: "fs \<Rightarrow> unit option" where
  "check_super s =
    (if s_magic s \<noteq> FS_MAGIC then None
     else if s_nblocks s > DISKSIZE div BLKSIZE then None
     else Some ())"

section \<open>The bitmap\<close>

text \<open>The word \<open>bitmap[i]\<close>: the bitmap starts at block 2.\<close>

definition bitmap_word :: "nat \<Rightarrow> nat \<times> nat" where
  "bitmap_word i = (2 + i div 1024, 4 * (i mod 1024))"

definition block_is_free :: "nat \<Rightarrow> fs \<Rightarrow> bool" where
  "block_is_free blockno s \<longleftrightarrow>
    (if blockno \<ge> s_nblocks s then False
     else disk_word s (bitmap_word (blockno div 32)) AND push_bit (blockno mod 32) 1 \<noteq> 0)"

definition free_block :: "nat \<Rightarrow> fs \<Rightarrow> fs option" where
  "free_block blockno s =
    (if blockno = 0 then None
     else let a = bitmap_word (blockno div 32)
          in Some (set_disk_word a (disk_word s a OR push_bit (blockno mod 32) 1) s))"

definition alloc_block :: "fs \<Rightarrow> nat option \<times> fs" where
  "alloc_block s =
    (case find (\<lambda>i. block_is_free i s) [2..<s_nblocks s] of
       None \<Rightarrow> (None, s)
     | Some i \<Rightarrow>
         let a = bitmap_word (i div 32);
             s = set_disk_word a (disk_word s a XOR push_bit (i mod 32) 1) s
         in (Some i, flush_block (fst a) s))"

definition check_bitmap :: "fs \<Rightarrow> unit option" where
  "check_bitmap s =
    (if list_all (\<lambda>i. \<not> block_is_free (2 + i) s) [0..<(s_nblocks s + BLKBITSIZE - 1) div BLKBITSIZE] \<and>
        \<not> block_is_free 0 s \<and> \<not> block_is_free 1 s
     then Some () else None)"

lemma and_bit_nonzero: "w AND push_bit k 1 \<noteq> 0 \<longleftrightarrow> bit (w :: u32) k"
proof
  assume "bit w k"
  moreover have "k < 32" using bit_imp_le_length [OF calculation] by simp
  ultimately have "bit (w AND push_bit k 1) k" by (simp add: bit_simps)
  then show "w AND push_bit k 1 \<noteq> 0" by auto
next
  assume "w AND push_bit k 1 \<noteq> 0"
  then obtain n where "bit (w AND push_bit k 1) n" by (metis bit_eqI bit_0_eq bot_apply bot_bool_def)
  then show "bit w k" by (auto simp: bit_simps)
qed

lemma block_is_free_iff:
  "block_is_free n s \<longleftrightarrow> n < s_nblocks s \<and> bit (disk_word s (bitmap_word (n div 32))) (n mod 32)"
  unfolding block_is_free_def and_bit_nonzero by simp

lemma bitmap_word_inj: "bitmap_word i = bitmap_word j \<longleftrightarrow> i = j"
  by (auto simp: bitmap_word_def) (metis div_mult_mod_eq)

lemma bitmap_word_apart:
  "i \<noteq> j \<Longrightarrow> fst (bitmap_word i) \<noteq> fst (bitmap_word j) \<or>
     snd (bitmap_word i) + 4 \<le> snd (bitmap_word j) \<or> snd (bitmap_word j) + 4 \<le> snd (bitmap_word i)"
proof -
  assume "i \<noteq> j"
  then have "bitmap_word i \<noteq> bitmap_word j" by (simp add: bitmap_word_inj)
  then show ?thesis by (auto simp: bitmap_word_def)
qed

lemma s_nblocks_bitmap [simp]: "s_nblocks (set_disk_word (bitmap_word i) w s) = s_nblocks s"
  by (simp add: s_nblocks_def disk_word_set_other bitmap_word_def)

lemma s_nblocks_flush [simp]: "s_nblocks (flush_block b s) = s_nblocks s"
  by (simp add: s_nblocks_def)

lemma block_is_free_flush [simp]: "block_is_free n (flush_block b s) = block_is_free n s"
  by (simp add: block_is_free_iff)

text \<open>What setting one word of the bitmap does to the free blocks.\<close>

lemma block_is_free_set_word:
  assumes "\<And>j. j < 32 \<Longrightarrow> bit w j \<longleftrightarrow> (if j = n mod 32 then v else bit (disk_word s (bitmap_word (n div 32))) j)"
  shows "block_is_free m (set_disk_word (bitmap_word (n div 32)) w s) \<longleftrightarrow>
    (if m = n then n < s_nblocks s \<and> v else block_is_free m s)"
proof (cases "m div 32 = n div 32")
  case True
  then have "m mod 32 = n mod 32 \<longleftrightarrow> m = n" by (metis div_mult_mod_eq)
  then show ?thesis using True assms [of "m mod 32"] by (auto simp: block_is_free_iff)
next
  case False
  have "disk_word (set_disk_word (bitmap_word (n div 32)) w s) (bitmap_word (m div 32)) =
      disk_word s (bitmap_word (m div 32))"
    using bitmap_word_apart [of "n div 32" "m div 32"] False by (intro disk_word_set_other) auto
  with False show ?thesis by (auto simp: block_is_free_iff)
qed

lemma free_block_ok:
  assumes "n \<noteq> 0"
  shows "\<exists>s'. free_block n s = Some s' \<and> s_nblocks s' = s_nblocks s \<and>
    (\<forall>m. block_is_free m s' \<longleftrightarrow> m = n \<and> n < s_nblocks s \<or> block_is_free m s)"
proof -
  let ?a = "bitmap_word (n div 32)"
  let ?w = "disk_word s ?a OR push_bit (n mod 32) 1"
  have "bit ?w j \<longleftrightarrow> (if j = n mod 32 then True else bit (disk_word s ?a) j)" if "j < 32" for j
    using that by (auto simp: bit_simps)
  from block_is_free_set_word [of ?w n True s, OF this]
  have "block_is_free m (set_disk_word ?a ?w s) \<longleftrightarrow> m = n \<and> n < s_nblocks s \<or> block_is_free m s" for m
    by (auto simp: block_is_free_iff)
  then show ?thesis using assms by (simp add: free_block_def Let_def)
qed

lemma alloc_block_none: "\<forall>i. 2 \<le> i \<longrightarrow> \<not> block_is_free i s \<Longrightarrow> alloc_block s = (None, s)"
proof -
  assume "\<forall>i. 2 \<le> i \<longrightarrow> \<not> block_is_free i s"
  then have "find (\<lambda>i. block_is_free i s) [2..<s_nblocks s] = None" by (auto simp: find_None_iff)
  then show ?thesis by (simp add: alloc_block_def)
qed

text \<open>\<open>alloc_block\<close> takes the free block with the lowest number.\<close>

lemma alloc_block_some:
  assumes "2 \<le> i" "block_is_free i s"
  shows "\<exists>r s'. alloc_block s = (Some r, s') \<and> 2 \<le> r \<and> r \<le> i \<and> block_is_free r s \<and>
    (\<forall>j. 2 \<le> j \<longrightarrow> j < r \<longrightarrow> \<not> block_is_free j s) \<and> s_nblocks s' = s_nblocks s \<and>
    (\<forall>m. block_is_free m s' \<longleftrightarrow> m \<noteq> r \<and> block_is_free m s) \<and>
    (\<forall>b. b < 2 \<or> 2 + (s_nblocks s - 1) div 32768 < b \<longrightarrow> fs_mem s' b = fs_mem s b) \<and>
    fs_disk s' (fst (bitmap_word (r div 32))) = fs_mem s' (fst (bitmap_word (r div 32)))"
proof -
  have lt: "i < s_nblocks s" using assms(2) by (simp add: block_is_free_iff)
  obtain r where f: "find (\<lambda>i. block_is_free i s) [2..<s_nblocks s] = Some r"
    using assms lt by (cases "find (\<lambda>i. block_is_free i s) [2..<s_nblocks s]") (auto simp: find_None_iff)
  then obtain n where n: "n < s_nblocks s - 2" "r = 2 + n" "block_is_free r s"
    "\<forall>j<n. \<not> block_is_free (2 + j) s"
    by (auto simp: find_Some_iff)
  have low: "\<not> block_is_free j s" if "2 \<le> j" "j < r" for j
  proof -
    obtain m where "j = 2 + m" using \<open>2 \<le> j\<close> le_Suc_ex by blast
    then show ?thesis using n(2,4) that by simp
  qed
  let ?a = "bitmap_word (r div 32)"
  let ?w = "disk_word s ?a XOR push_bit (r mod 32) 1"
  have b: "bit (disk_word s ?a) (r mod 32)" using n(3) by (simp add: block_is_free_iff)
  have "bit ?w j \<longleftrightarrow> (if j = r mod 32 then False else bit (disk_word s ?a) j)" if "j < 32" for j
    using that b by (auto simp: bit_simps)
  from block_is_free_set_word [of ?w r False s, OF this]
  have fr: "block_is_free m (set_disk_word ?a ?w s) \<longleftrightarrow> m \<noteq> r \<and> block_is_free m s" for m by simp
  have "fst ?a = 2 + r div 32768" by (simp add: bitmap_word_def div_mult2_eq [symmetric])
  moreover have "r div 32768 \<le> (s_nblocks s - 1) div 32768" using n by (intro div_le_mono) simp
  ultimately have mem: "fs_mem (set_disk_word ?a ?w s) b = fs_mem s b"
    if "b < 2 \<or> 2 + (s_nblocks s - 1) div 32768 < b" for b
    using that by (auto simp: set_disk_word_def upd_mem_def)
  have "alloc_block s = (Some r, flush_block (fst ?a) (set_disk_word ?a ?w s))"
    using f by (simp add: alloc_block_def Let_def)
  moreover have "r \<le> i" using low [of i] assms by (meson not_less)
  moreover have "2 \<le> r" using n(2) by simp
  moreover have "s_nblocks (flush_block (fst ?a) (set_disk_word ?a ?w s)) = s_nblocks s" by simp
  moreover have "\<forall>m. block_is_free m (flush_block (fst ?a) (set_disk_word ?a ?w s)) \<longleftrightarrow> m \<noteq> r \<and> block_is_free m s"
    unfolding block_is_free_flush using fr by blast
  moreover have "fs_mem (flush_block (fst ?a) (set_disk_word ?a ?w s)) = fs_mem (set_disk_word ?a ?w s)"
    "fs_disk (flush_block (fst ?a) (set_disk_word ?a ?w s)) (fst ?a) = fs_mem (set_disk_word ?a ?w s) (fst ?a)"
    by (simp_all add: flush_block_def)
  ultimately show ?thesis using n(3) low mem
    by (intro exI [of _ r] exI [of _ "flush_block (fst ?a) (set_disk_word ?a ?w s)"]) (simp only:, blast)
qed

section \<open>The block allocator as a pool\<close>

definition free_blocks :: "fs \<Rightarrow> nat set" where
  "free_blocks s = {i. 2 \<le> i \<and> block_is_free i s}"

definition data_block :: "fs \<Rightarrow> nat \<Rightarrow> bool" where
  "data_block s i \<longleftrightarrow> 2 \<le> i \<and> i < s_nblocks s"

interpretation block_pool:
  resource_pool "\<lambda>_. True" free_blocks data_block "\<lambda>s. Some (alloc_block s)" free_block
proof (unfold_locales, goal_cases)
  case (1 s)
  then show ?case using alloc_block_none [of s] by (auto simp: free_blocks_def)
next
  case (2 s)
  then obtain i where "2 \<le> i" "block_is_free i s" by (auto simp: free_blocks_def)
  from alloc_block_some [OF this] show ?case
    by (auto simp: free_blocks_def data_block_def fun_eq_iff)
next
  case (3 s r)
  then have "r \<noteq> 0" "r < s_nblocks s" "2 \<le> r" by (auto simp: data_block_def)
  with free_block_ok [of r s] show ?case by (auto simp: free_blocks_def data_block_def fun_eq_iff)
next
  case (4 s r)
  then show ?case by (auto simp: free_blocks_def data_block_def block_is_free_iff)
qed

text \<open>
  C31: however clients interleave allocations and frees of disk blocks, no block is handed out twice, every block
  in use is a block of the disk other than the boot and super blocks, and blocks in use and free blocks
  together are always the blocks that were free at the start.
\<close>

theorem disk_blocks_never_shared:
  "\<exists>held s'. run_pool (\<lambda>s. Some (alloc_block s)) free_block ops ([], s) = Some (held, s') \<and>
     distinct held \<and> set held \<inter> free_blocks s' = {} \<and> (\<forall>b\<in>set held. data_block s' b) \<and>
     set held \<union> free_blocks s' = free_blocks s"
  using block_pool.run_pool_sound [where s = s and held = "[]" and ops = ops] by simp


text \<open>A small disk for the witnesses: 16 blocks, of which those from 5 on are free.\<close>

definition small_image :: image where
  "small_image = put32 (1, 0) FS_MAGIC (put32 (1, 4) 16 (put32 (2, 0) 0xFFE0 (\<lambda>_ _. 0)))"

lemma small_image_words:
  "get32 small_image (1, 0) = FS_MAGIC" "get32 small_image (1, 4) = 16" "get32 small_image (2, 0) = 0xFFE0"
  by (simp_all add: small_image_def get_put32_other)

lemma small_image_free:
  assumes "fs_mem s = small_image"
  shows "s_magic s = FS_MAGIC" "s_nblocks s = 16" "block_is_free b s \<longleftrightarrow> 5 \<le> b \<and> b < 16"
proof -
  show "s_magic s = FS_MAGIC" "s_nblocks s = 16"
    by (simp_all add: s_magic_def s_nblocks_def disk_word_def assms small_image_words [unfolded One_nat_def])
  show "block_is_free b s \<longleftrightarrow> 5 \<le> b \<and> b < 16"
  proof (cases "b < 16")
    case True
    have m: "b \<in> {0, 1, 2, 3, 4, 5, 6, 7, 8, 9, 10, 11, 12, 13, 14, 15}"
      using True by (simp only: insert_iff empty_iff) arith
    have "block_is_free b s \<longleftrightarrow> bit (0xFFE0 :: u32) b"
      using True \<open>s_nblocks s = 16\<close>
      by (simp add: block_is_free_iff bitmap_word_def disk_word_def assms small_image_words)
    also have "\<dots> \<longleftrightarrow> 5 \<le> b \<and> b < 16" using m by (elim insertE emptyE) simp_all
    finally show ?thesis .
  next
    case False
    with \<open>s_nblocks s = 16\<close> show ?thesis by (simp add: block_is_free_iff)
  qed
qed

theorem disk_blocks_never_shared_witness:
  "\<exists>held s'. run_pool (\<lambda>s. Some (alloc_block s)) free_block [Get, Get, Put 0, Get]
       ([], \<lparr>fs_mem = small_image, fs_disk = small_image\<rparr>) = Some (held, s') \<and>
     distinct held \<and> set held \<subseteq> {5..<16} \<and> set held \<inter> free_blocks s' = {}"
proof -
  let ?s = "\<lparr>fs_mem = small_image, fs_disk = small_image\<rparr>"
  have m: "fs_mem ?s = small_image" by simp
  have "free_blocks ?s = {5..<16}" unfolding free_blocks_def small_image_free(3) [OF m] by auto
  note f = this
  obtain held s' where r:
    "run_pool (\<lambda>s. Some (alloc_block s)) free_block [Get, Get, Put 0, Get] ([], ?s) = Some (held, s')"
    "distinct held" "set held \<inter> free_blocks s' = {}" and u: "set held \<union> free_blocks s' = free_blocks ?s"
    using disk_blocks_never_shared [of "[Get, Get, Put 0, Get]" ?s] by (elim exE conjE)
  have "set held \<subseteq> {5..<16}" using u unfolding f by (metis Un_upper1)
  with r show ?thesis by (intro exI conjI)
qed

end
