(* ===== verification/Fs_Cache.thy ===== *)
theory Fs_Cache
  imports Fs_Disk
begin

text \<open>
  The block cache, \<^verbatim>\<open>fs/bc.c\<close>: a block of the disk is read in by the page fault handler
  when it is first touched, and \<open>flush_block\<close> writes it back when it is dirty. The page table bits
  that the server looks at are \<open>bc_cache\<close> (present) and \<open>bc_dirty\<close>; the drive is an array of
  blocks, some of which it may fail to transfer. The panics of the handler are \<open>None\<close>. The cache implements the memory
  of theory \<open>Fs_Disk\<close>.
\<close>

section \<open>The cache\<close>

record bc =
  bc_cache :: "nat \<Rightarrow> (nat \<Rightarrow> u8) option"
  bc_dirty :: "nat \<Rightarrow> bool"
  bc_disk :: image
  bc_bad :: "nat \<Rightarrow> bool"
  bc_super :: bool
  bc_bitmap :: bool

text \<open>The contents of the mapped disk: the cached copy or else what would be read in.\<close>

definition bc_view :: "bc \<Rightarrow> image" where
  "bc_view s b = (case bc_cache s b of Some x \<Rightarrow> x | None \<Rightarrow> bc_disk s b)"

definition bc_abs :: "bc \<Rightarrow> fs" where
  "bc_abs s = \<lparr>fs_mem = bc_view s, fs_disk = bc_disk s\<rparr>"

definition diskaddr :: "nat \<Rightarrow> bc \<Rightarrow> nat option" where
  "diskaddr b s = (if b = 0 \<or> bc_super s \<and> b \<ge> s_nblocks (bc_abs s) then None else Some b)"

definition va_is_mapped :: "nat \<Rightarrow> bc \<Rightarrow> bool" where
  "va_is_mapped b s \<longleftrightarrow> bc_cache s b \<noteq> None"

definition va_is_dirty :: "nat \<Rightarrow> bc \<Rightarrow> bool" where
  "va_is_dirty b s \<longleftrightarrow> bc_dirty s b"

definition bc_read_in :: "nat \<Rightarrow> bc \<Rightarrow> bc" where
  "bc_read_in b s = s\<lparr>bc_cache := (bc_cache s)(b \<mapsto> bc_disk s b), bc_dirty := (bc_dirty s)(b := False)\<rparr>"

text \<open>
  The handler for an access to block \<open>b\<close>. Its last check reads the bitmap, which may fault in turn; the
  first argument bounds the nesting.
\<close>

fun bc_pgfault :: "nat \<Rightarrow> nat \<Rightarrow> bc \<Rightarrow> bc option" where
  "bc_pgfault 0 b s = None"
| "bc_pgfault (Suc n) b s =
    (if b \<ge> DISKSIZE div BLKSIZE then None
     else if bc_super s \<and> b \<ge> s_nblocks (bc_abs s) then None
     else if bc_bad s b then None
     else
       let s = bc_read_in b s; m = fst (bitmap_word (b div 32))
       in if \<not> bc_bitmap s then Some s
          else do {
            s \<leftarrow> (if va_is_mapped m s then Some s else bc_pgfault n m s);
            if block_is_free b (bc_abs s) then None else Some s
          })"

definition bc_touch :: "nat \<Rightarrow> bc \<Rightarrow> bc option" where
  "bc_touch b s = (if va_is_mapped b s then Some s else bc_pgfault 3 b s)"

definition bc_read :: "nat \<Rightarrow> nat \<Rightarrow> bc \<Rightarrow> (u8 \<times> bc) option" where
  "bc_read b i s = do { _ \<leftarrow> diskaddr b s; s \<leftarrow> bc_touch b s; Some (bc_view s b i, s) }"

definition bc_write :: "nat \<Rightarrow> nat \<Rightarrow> u8 \<Rightarrow> bc \<Rightarrow> bc option" where
  "bc_write b i v s = do {
     _ \<leftarrow> diskaddr b s;
     s \<leftarrow> bc_touch b s;
     Some (s\<lparr>bc_cache := (bc_cache s)(b \<mapsto> (bc_view s b)(i := v)), bc_dirty := (bc_dirty s)(b := True)\<rparr>)
   }"

definition bc_flush_block :: "nat \<Rightarrow> bc \<Rightarrow> bc option" where
  "bc_flush_block b s =
    (if b \<ge> DISKSIZE div BLKSIZE then None
     else if \<not> va_is_mapped b s \<or> \<not> va_is_dirty b s then Some s
     else if bc_bad s b then None
     else Some (s\<lparr>bc_disk := (bc_disk s)(b := bc_view s b), bc_dirty := (bc_dirty s)(b := False)\<rparr>))"

section \<open>A store with a volatile and a persistent image\<close>

text \<open>
  What the file system relies on: reads return what was written last, a flush makes one block persistent, and
  nothing else changes either image.
\<close>

locale block_store =
  fixes inv :: "'s \<Rightarrow> bool"
    and abs :: "'s \<Rightarrow> fs"
    and rd :: "nat \<Rightarrow> nat \<Rightarrow> 's \<Rightarrow> (u8 \<times> 's) option"
    and wr :: "nat \<Rightarrow> nat \<Rightarrow> u8 \<Rightarrow> 's \<Rightarrow> 's option"
    and fl :: "nat \<Rightarrow> 's \<Rightarrow> 's option"
  assumes read_abs: "inv s \<Longrightarrow> rd b i s = Some (v, s') \<Longrightarrow> inv s' \<and> v = fs_mem (abs s) b i \<and> abs s' = abs s"
    and write_abs: "inv s \<Longrightarrow> wr b i v s = Some s' \<Longrightarrow>
      inv s' \<and> abs s' = upd_mem (\<lambda>m. m(b := (m b)(i := v))) (abs s)"
    and flush_abs: "inv s \<Longrightarrow> fl b s = Some s' \<Longrightarrow> inv s' \<and> abs s' = flush_block b (abs s)"

datatype store_op = Read_byte nat nat | Write_byte nat nat u8 | Flush nat

fun run_store ::
  "(nat \<Rightarrow> nat \<Rightarrow> 's \<Rightarrow> (u8 \<times> 's) option) \<Rightarrow> (nat \<Rightarrow> nat \<Rightarrow> u8 \<Rightarrow> 's \<Rightarrow> 's option) \<Rightarrow> (nat \<Rightarrow> 's \<Rightarrow> 's option) \<Rightarrow>
   store_op list \<Rightarrow> 's \<Rightarrow> (u8 list \<times> 's) option" where
  "run_store rd wr fl [] s = Some ([], s)"
| "run_store rd wr fl (Read_byte b i # ops) s = do {
     (v, s) \<leftarrow> rd b i s; (vs, s) \<leftarrow> run_store rd wr fl ops s; Some (v # vs, s) }"
| "run_store rd wr fl (Write_byte b i v # ops) s = do { s \<leftarrow> wr b i v s; run_store rd wr fl ops s }"
| "run_store rd wr fl (Flush b # ops) s = do { s \<leftarrow> fl b s; run_store rd wr fl ops s }"

text \<open>The same operations on the two images directly.\<close>

fun run_images :: "store_op list \<Rightarrow> fs \<Rightarrow> u8 list \<times> fs" where
  "run_images [] s = ([], s)"
| "run_images (Read_byte b i # ops) s = (let (vs, s') = run_images ops s in (fs_mem s b i # vs, s'))"
| "run_images (Write_byte b i v # ops) s = run_images ops (upd_mem (\<lambda>m. m(b := (m b)(i := v))) s)"
| "run_images (Flush b # ops) s = run_images ops (flush_block b s)"

context block_store
begin

lemma run_store_abs:
  "inv s \<Longrightarrow> run_store rd wr fl ops s = Some (vs, s') \<Longrightarrow>
   inv s' \<and> run_images ops (abs s) = (vs, abs s')"
proof (induction ops arbitrary: s vs)
  case (Cons op ops)
  show ?case
  proof (cases op)
    case (Read_byte b i)
    with Cons.prems(2) obtain v s1 ws where r: "rd b i s = Some (v, s1)"
      "run_store rd wr fl ops s1 = Some (ws, s')" "vs = v # ws"
      by (auto simp: bind_eq_Some_conv)
    note a = read_abs [OF Cons.prems(1) r(1)]
    from Cons.IH [OF _ r(2)] a Read_byte r(3) show ?thesis by (simp add: Let_def)
  next
    case (Write_byte b i v)
    with Cons.prems(2) obtain s1 where w: "wr b i v s = Some s1" "run_store rd wr fl ops s1 = Some (vs, s')"
      by (auto simp: bind_eq_Some_conv)
    with Cons.IH [OF _ w(2)] write_abs [OF Cons.prems(1) w(1)] Write_byte show ?thesis by simp
  next
    case (Flush b)
    with Cons.prems(2) obtain s1 where w: "fl b s = Some s1" "run_store rd wr fl ops s1 = Some (vs, s')"
      by (auto simp: bind_eq_Some_conv)
    with Cons.IH [OF _ w(2)] flush_abs [OF Cons.prems(1) w(1)] Flush show ?thesis by simp
  qed
qed simp

end

section \<open>The cache is such a store\<close>

definition bc_clean :: "bc \<Rightarrow> bool" where
  "bc_clean s \<longleftrightarrow> (\<forall>b x. bc_cache s b = Some x \<longrightarrow> \<not> bc_dirty s b \<longrightarrow> bc_disk s b = x)"

lemma bc_read_in_abs [simp]: "bc_cache s b = None \<Longrightarrow> bc_abs (bc_read_in b s) = bc_abs s"
  by (auto simp: bc_abs_def bc_read_in_def bc_view_def fun_eq_iff split: option.split)

lemma bc_read_in_clean: "bc_clean s \<Longrightarrow> bc_clean (bc_read_in b s)"
  by (auto simp: bc_clean_def bc_read_in_def)

lemma bc_pgfault_keeps: "bc_pgfault n b s = Some s' \<Longrightarrow> bc_cache s x \<noteq> None \<Longrightarrow> bc_cache s' x \<noteq> None"
proof (induction n arbitrary: b s s')
  case (Suc n)
  then show ?case
    by (auto simp: Let_def bind_eq_Some_conv bc_read_in_def split: if_splits)
qed simp

lemma bc_pgfault_abs:
  "bc_cache s b = None \<Longrightarrow> bc_pgfault n b s = Some s' \<Longrightarrow> bc_clean s \<Longrightarrow>
   bc_abs s' = bc_abs s \<and> bc_clean s' \<and> bc_cache s' b \<noteq> None"
proof (induction n arbitrary: b s s')
  case (Suc n)
  let ?s = "bc_read_in b s" and ?m = "fst (bitmap_word (b div 32))"
  note c = bc_read_in_clean [OF Suc.prems(3), of b] bc_read_in_abs [OF Suc.prems(1)]
  have b: "bc_cache ?s b \<noteq> None" by (simp add: bc_read_in_def)
  show ?case
  proof (cases "\<not> bc_bitmap ?s \<or> va_is_mapped ?m ?s")
    case True
    with Suc.prems(2) c b show ?thesis by (auto simp: Let_def split: if_splits)
  next
    case False
    with Suc.prems(2) have f: "bc_pgfault n ?m ?s = Some s'"
      by (auto simp: Let_def bind_eq_Some_conv split: if_splits)
    have "bc_cache ?s ?m = None" using False by (simp add: va_is_mapped_def)
    from Suc.IH [OF this f c(1)] have s': "bc_abs s' = bc_abs ?s" "bc_clean s'" by auto
    have "bc_cache s' b \<noteq> None" by (rule bc_pgfault_keeps [OF f b])
    with s' c(2) show ?thesis by simp
  qed
qed simp

lemma bc_touch_abs:
  assumes "bc_clean s" "bc_touch b s = Some s'"
  shows "bc_abs s' = bc_abs s" "bc_clean s'" "bc_cache s' b \<noteq> None"
  using assms bc_pgfault_abs [of s b 3 s']
  by (auto simp: bc_touch_def va_is_mapped_def split: if_splits)

lemma bc_view_abs: "fs_mem (bc_abs s) = bc_view s"
  by (simp add: bc_abs_def)

interpretation block_cache: block_store bc_clean bc_abs bc_read bc_write bc_flush_block
proof (unfold_locales, goal_cases)
  case (1 s b i v s')
  then have t: "bc_touch b s = Some s'" "v = bc_view s' b i"
    by (auto simp: bc_read_def bind_eq_Some_conv)
  with bc_touch_abs [OF 1(1) t(1)] show ?case by (simp add: bc_view_abs [symmetric])
next
  case (2 s b i v s')
  then obtain t where t: "bc_touch b s = Some t"
    "s' = t\<lparr>bc_cache := (bc_cache t)(b \<mapsto> (bc_view t b)(i := v)), bc_dirty := (bc_dirty t)(b := True)\<rparr>"
    by (auto simp: bc_write_def bind_eq_Some_conv)
  note a = bc_touch_abs [OF 2(1) t(1)]
  have "bc_clean s'" using a(2) t(2) by (auto simp: bc_clean_def)
  moreover have "bc_abs s' = upd_mem (\<lambda>m. m(b := (m b)(i := v))) (bc_abs t)"
    using t(2) by (auto simp: bc_abs_def upd_mem_def bc_view_def fun_eq_iff split: option.split)
  ultimately show ?case using a(1) by simp
next
  case (3 s b s')
  show ?case
  proof (cases "va_is_mapped b s \<and> va_is_dirty b s")
    case True
    with 3(2) have s': "s' = s\<lparr>bc_disk := (bc_disk s)(b := bc_view s b), bc_dirty := (bc_dirty s)(b := False)\<rparr>"
      by (auto simp: bc_flush_block_def split: if_splits)
    with True 3(1) have "bc_clean s'"
      by (auto simp: bc_clean_def va_is_mapped_def bc_view_def split: option.splits)
    moreover have "bc_abs s' = flush_block b (bc_abs s)"
      using s' True by (auto simp: bc_abs_def flush_block_def bc_view_def va_is_mapped_def fun_eq_iff split: option.splits)
    ultimately show ?thesis by blast
  next
    case False
    with 3(2) have s': "s' = s" by (auto simp: bc_flush_block_def split: if_splits)
    have "bc_disk s b = bc_view s b"
      using False 3(1) by (auto simp: bc_clean_def bc_view_def va_is_mapped_def va_is_dirty_def split: option.splits)
    then have "(bc_disk s)(b := bc_view s b) = bc_disk s" by (metis fun_upd_triv)
    then have "flush_block b (bc_abs s) = bc_abs s"
      by (simp add: bc_abs_def flush_block_def)
    with s' 3(1) show ?thesis by simp
  qed
qed

text \<open>
  C32: the block cache is transparent. Any sequence of reads, writes and flushes that does not panic returns the
  bytes, and leaves the memory and the disk, that the same sequence has on a memory holding the whole disk, where a flush
  copies a block to the disk; and clean cached blocks equal their disk blocks throughout.
\<close>

theorem block_cache_transparent:
  assumes "bc_clean s" "run_store bc_read bc_write bc_flush_block ops s = Some (vs, s')"
  shows "run_images ops (bc_abs s) = (vs, bc_abs s') \<and> bc_clean s'"
  using block_cache.run_store_abs [OF assms] by blast

definition cold_cache :: "bc" where
  "cold_cache = \<lparr>bc_cache = Map.empty, bc_dirty = (\<lambda>_. False), bc_disk = small_image, bc_bad = (\<lambda>_. False),
     bc_super = False, bc_bitmap = False\<rparr>"

theorem block_cache_transparent_witness:
  "\<exists>s'. run_store bc_read bc_write bc_flush_block [Write_byte 5 3 7, Read_byte 5 3, Flush 5, Read_byte 5 3]
       cold_cache = Some ([7, 7], s') \<and>
     run_images [Write_byte 5 3 7, Read_byte 5 3, Flush 5, Read_byte 5 3] (bc_abs cold_cache) = ([7, 7], bc_abs s')"
proof -
  let ?ops = "[Write_byte 5 3 7, Read_byte 5 3, Flush 5, Read_byte 5 3]"
  obtain s' where r: "run_store bc_read bc_write bc_flush_block ?ops cold_cache = Some ([7, 7], s')"
    by (simp add: cold_cache_def bc_read_def bc_write_def bc_flush_block_def diskaddr_def bc_touch_def
        va_is_mapped_def va_is_dirty_def bc_read_in_def bc_view_def DISKSIZE_def BLKSIZE_def numeral_3_eq_3 Let_def)
  have "bc_clean cold_cache" by (simp add: bc_clean_def cold_cache_def)
  from block_cache_transparent [OF this r] r show ?thesis by blast
qed

section \<open>Allocated blocks can always be read\<close>

text \<open>A disk whose super block and bitmap the checks of \<open>fs_init\<close> accept, on a drive without errors.\<close>

definition bc_sound :: "bc \<Rightarrow> bool" where
  "bc_sound s \<longleftrightarrow> check_super (bc_abs s) = Some () \<and> check_bitmap (bc_abs s) = Some () \<and>
     2 + (s_nblocks (bc_abs s) - 1) div BLKBITSIZE < s_nblocks (bc_abs s) \<and> (\<forall>b. \<not> bc_bad s b)"

lemma bitmap_block: "fst (bitmap_word (b div 32)) = 2 + b div 32768"
  by (simp add: bitmap_word_def div_mult2_eq [symmetric])

lemma bc_sound_bitmap:
  assumes "bc_sound s" "b < s_nblocks (bc_abs s)"
  shows "\<not> block_is_free (2 + b div 32768) (bc_abs s)" "2 + b div 32768 < s_nblocks (bc_abs s)"
proof -
  let ?n = "s_nblocks (bc_abs s)"
  have d: "b div 32768 \<le> (?n - 1) div 32768" using assms(2) by (intro div_le_mono) simp
  then show "2 + b div 32768 < ?n" using assms(1) by (simp add: bc_sound_def BLKBITSIZE_def)
  have "(?n - 1) div 32768 < (?n + 32768 - 1) div 32768"
  proof -
    have "?n + 32768 - 1 = (?n - 1) + 32768" using assms(2) by simp
    then show ?thesis by (simp add: div_add_self2)
  qed
  with d have "b div 32768 \<in> set [0..<(?n + BLKBITSIZE - 1) div BLKBITSIZE]" by (simp add: BLKBITSIZE_def)
  then show "\<not> block_is_free (2 + b div 32768) (bc_abs s)"
    using assms(1) unfolding bc_sound_def check_bitmap_def list_all_iff by (auto split: if_splits)
qed

lemma bc_fields_read_in [simp]: "bc_bitmap (bc_read_in b s) = bc_bitmap s" "bc_super (bc_read_in b s) = bc_super s"
  "bc_bad (bc_read_in b s) = bc_bad s"
  by (simp_all add: bc_read_in_def)

text \<open>One level of the handler, when the nested access succeeds.\<close>

lemma bc_pgfault_step:
  assumes s: "bc_sound s" "bc_cache s b = None" and b: "b < s_nblocks (bc_abs s)" "\<not> block_is_free b (bc_abs s)"
    and m: "bc_cache (bc_read_in b s) (2 + b div 32768) = None \<Longrightarrow>
      \<exists>t. bc_pgfault n (2 + b div 32768) (bc_read_in b s) = Some t \<and> bc_abs t = bc_abs s"
  shows "\<exists>s'. bc_pgfault (Suc n) b s = Some s' \<and> bc_abs s' = bc_abs s"
proof -
  have "b < DISKSIZE div BLKSIZE" using s(1) b(1)
    by (auto simp: bc_sound_def check_super_def split: if_splits)
  then show ?thesis
    using s b m by (cases "bc_cache (bc_read_in b s) (2 + b div 32768)")
      (auto simp: bc_sound_def bitmap_block va_is_mapped_def Let_def)
qed

text \<open>
  On a disk whose super block and bitmap are good and whose drive has no errors, reading any byte of an allocated block
  succeeds; the page fault handler nests at most three levels deep, for the block, its bitmap block and the bitmap block of
  that.
\<close>

theorem allocated_blocks_readable:
  assumes s: "bc_sound s" and b: "b \<noteq> 0" "b < s_nblocks (bc_abs s)" "\<not> block_is_free b (bc_abs s)"
  shows "\<exists>s'. bc_read b i s = Some (fs_mem (bc_abs s) b i, s') \<and> bc_abs s' = bc_abs s"
proof (cases "bc_cache s b")
  case (Some x)
  then show ?thesis using b by (simp add: bc_read_def diskaddr_def bc_touch_def va_is_mapped_def bc_view_abs)
next
  case None
  let ?m = "2 + b div 32768" and ?s1 = "bc_read_in b s"
  let ?m2 = "2 + ?m div 32768" and ?s2 = "bc_read_in ?m ?s1"
  have n: "s_nblocks (bc_abs s) \<le> 786432" using s
    by (auto simp: bc_sound_def check_super_def DISKSIZE_def BLKSIZE_def split: if_splits)
  have m2: "?m2 = 2"
  proof -
    have "b div 32768 \<le> 786432 div 32768" using b(2) n by (intro div_le_mono) simp
    then show ?thesis by simp
  qed
  note bm = bc_sound_bitmap [OF s b(2)]
  have s1: "bc_sound ?s1" "bc_abs ?s1 = bc_abs s" using s None by (simp_all add: bc_sound_def)
  have l2: "\<exists>t. bc_pgfault 2 ?m ?s1 = Some t \<and> bc_abs t = bc_abs s" if c1: "bc_cache ?s1 ?m = None"
  proof -
    have s2: "bc_sound ?s2" "bc_abs ?s2 = bc_abs s" using s1 c1 by (simp_all add: bc_sound_def)
    have "\<exists>t. bc_pgfault 1 ?m2 ?s2 = Some t \<and> bc_abs t = bc_abs ?s1" if c2: "bc_cache ?s2 ?m2 = None"
    proof -
      have "\<exists>t. bc_pgfault (Suc 0) 2 ?s2 = Some t \<and> bc_abs t = bc_abs ?s2"
      proof (rule bc_pgfault_step [OF s2(1)])
        show "bc_cache ?s2 2 = None" using c2 unfolding m2 .
        show "2 < s_nblocks (bc_abs ?s2)" "\<not> block_is_free 2 (bc_abs ?s2)"
          using bc_sound_bitmap [OF s, of 0] b(2) unfolding s2(2) by simp_all
        show "bc_cache (bc_read_in 2 ?s2) (2 + 2 div 32768) = None \<Longrightarrow>
            \<exists>t. bc_pgfault 0 (2 + 2 div 32768) (bc_read_in 2 ?s2) = Some t \<and> bc_abs t = bc_abs ?s2"
          by (simp add: bc_read_in_def)
      qed
      then show ?thesis using s1(2) s2(2) m2 by simp
    qed
    then have "\<exists>t. bc_pgfault (Suc 1) ?m ?s1 = Some t \<and> bc_abs t = bc_abs ?s1"
      using bm s1 by (intro bc_pgfault_step [OF s1(1) c1]) auto
    then show ?thesis using s1(2) by (simp add: numeral_2_eq_2)
  qed
  from bc_pgfault_step [OF s None b(2,3), of 2, OF l2] obtain s' where
    "bc_pgfault (Suc 2) b s = Some s'" "bc_abs s' = bc_abs s" by blast
  moreover have "Suc 2 = (3 :: nat)" by simp
  ultimately have t: "bc_touch b s = Some s'" "bc_abs s' = bc_abs s"
    using None by (simp_all add: bc_touch_def va_is_mapped_def del: bc_pgfault.simps)
  then show ?thesis using b by (simp add: bc_read_def diskaddr_def bc_view_abs [symmetric])
qed


definition warm_cache :: "bc" where
  "warm_cache = cold_cache\<lparr>bc_super := True, bc_bitmap := True\<rparr>"

theorem allocated_blocks_readable_witness:
  "\<exists>s'. bc_read 4 9 warm_cache = Some (0, s') \<and> bc_abs s' = bc_abs warm_cache"
proof -
  have m: "fs_mem (bc_abs warm_cache) = small_image"
    by (auto simp: bc_abs_def bc_view_def warm_cache_def cold_cache_def)
  note f = small_image_free [OF m]
  have "check_super (bc_abs warm_cache) = Some ()"
    by (simp add: check_super_def f DISKSIZE_def BLKSIZE_def)
  moreover have "check_bitmap (bc_abs warm_cache) = Some ()"
    by (simp add: check_bitmap_def f BLKBITSIZE_def)
  ultimately have "bc_sound warm_cache"
    by (simp add: bc_sound_def f BLKBITSIZE_def) (simp add: warm_cache_def cold_cache_def)
  from allocated_blocks_readable [OF this, of 4 9] show ?thesis
    by (simp add: f m) (simp add: small_image_def put32_byte)
qed

end
