(* ===== verification/Fs_File.thy ===== *)
theory Fs_File
  imports Fs_Disk "HOL-Library.Signed_Division"
begin

text \<open>
  Files, directories and paths of \<^verbatim>\<open>fs/fs.c\<close>. A \<open>struct File *\<close> is the block and
  the byte offset of the 256-byte structure in the mapped disk, a pointer to a block number the place of
  that word. Sizes and offsets are 32-bit words with the signed and unsigned operations of the code; \<open>None\<close> is a
  panic or a failed assertion.
\<close>

section \<open>File structures\<close>

type_synonym filep = "nat \<times> nat"

definition MAXNAMELEN :: nat where "MAXNAMELEN = 128"
definition NDIRECT :: nat where "NDIRECT = 10"
definition NINDIRECT :: nat where "NINDIRECT = 1024"
definition BLKFILES :: nat where "BLKFILES = 16"
definition FTYPE_DIR :: u32 where "FTYPE_DIR = 1"

definition f_size_at :: "filep \<Rightarrow> nat \<times> nat" where "f_size_at f = (fst f, snd f + 128)"
definition f_type_at :: "filep \<Rightarrow> nat \<times> nat" where "f_type_at f = (fst f, snd f + 132)"
definition f_direct_at :: "filep \<Rightarrow> nat \<Rightarrow> nat \<times> nat" where "f_direct_at f i = (fst f, snd f + 136 + 4 * i)"
definition f_indirect_at :: "filep \<Rightarrow> nat \<times> nat" where "f_indirect_at f = (fst f, snd f + 176)"

definition f_size :: "fs \<Rightarrow> filep \<Rightarrow> u32" where "f_size s f = disk_word s (f_size_at f)"
definition f_type :: "fs \<Rightarrow> filep \<Rightarrow> u32" where "f_type s f = disk_word s (f_type_at f)"
definition f_indirect :: "fs \<Rightarrow> filep \<Rightarrow> nat" where "f_indirect s f = unat (disk_word s (f_indirect_at f))"

text \<open>\<open>diskaddr\<close>, with the super block in place.\<close>

definition block_addr :: "nat \<Rightarrow> fs \<Rightarrow> nat option" where
  "block_addr b s = (if b = 0 \<or> b \<ge> s_nblocks s then None else Some b)"

definition clear_block :: "nat \<Rightarrow> fs \<Rightarrow> fs" where
  "clear_block b = upd_mem (\<lambda>m. m(b := (\<lambda>_. 0)))"

section \<open>Blocks of files\<close>

definition file_block_walk :: "filep \<Rightarrow> nat \<Rightarrow> bool \<Rightarrow> fs \<Rightarrow> ((jos_error + nat \<times> nat) \<times> fs) option" where
  "file_block_walk f filebno alloc s =
    (if filebno < NDIRECT then Some (Inr (f_direct_at f filebno), s)
     else if filebno < NDIRECT + NINDIRECT then do {
       (r, s) \<leftarrow>
         (if f_indirect s f = 0 then
            if \<not> alloc then Some (Inl E_NOT_FOUND, s)
            else (case alloc_block s of
                (None, s) \<Rightarrow> Some (Inl E_NO_DISK, s)
              | (Some r, s) \<Rightarrow> do {
                  let s = set_disk_word (f_indirect_at f) (word_of_nat r) s;
                  _ \<leftarrow> block_addr r s;
                  Some (Inr (), clear_block r s)
                })
          else Some (Inr (), s));
       case r of
         Inl err \<Rightarrow> Some (Inl err, s)
       | Inr _ \<Rightarrow> do {
           pblk \<leftarrow> block_addr (f_indirect s f) s;
           Some (Inr (pblk, 4 * (filebno - NDIRECT)), s)
         }
     }
     else Some (Inl E_INVAL, s))"

definition file_get_block :: "filep \<Rightarrow> nat \<Rightarrow> fs \<Rightarrow> ((jos_error + nat) \<times> fs) option" where
  "file_get_block f filebno s = do {
     (r, s) \<leftarrow> file_block_walk f filebno True s;
     case r of
       Inl err \<Rightarrow> Some (Inl err, s)
     | Inr p \<Rightarrow> do {
         (r, s) \<leftarrow>
           (if disk_word s p = 0 then
              (case alloc_block s of
                 (None, s) \<Rightarrow> Some (Inl E_NO_DISK, s)
               | (Some r, s) \<Rightarrow> Some (Inr (), set_disk_word p (word_of_nat r) s))
            else Some (Inr (), s));
         case r of
           Inl err \<Rightarrow> Some (Inl err, s)
         | Inr _ \<Rightarrow> do { blk \<leftarrow> block_addr (unat (disk_word s p)) s; Some (Inr blk, s) }
       }
   }"

definition file_free_block :: "filep \<Rightarrow> nat \<Rightarrow> fs \<Rightarrow> ((jos_error + unit) \<times> fs) option" where
  "file_free_block f filebno s = do {
     (r, s) \<leftarrow> file_block_walk f filebno False s;
     case r of
       Inl err \<Rightarrow> Some (Inl err, s)
     | Inr p \<Rightarrow>
         if disk_word s p \<noteq> 0 then do {
           s \<leftarrow> free_block (unat (disk_word s p)) s;
           Some (Inr (), set_disk_word p 0 s)
         }
         else Some (Inr (), s)
   }"

section \<open>Sizes\<close>

text \<open>\<open>(size + BLKSIZE - 1) / BLKSIZE\<close> on \<open>off_t\<close>, stored in an unsigned variable.\<close>

definition nblocks_of :: "u32 \<Rightarrow> nat" where
  "nblocks_of sz = unat (word_of_int (sint (sz + 4095) sdiv 4096) :: u32)"

fun free_blocks_loop :: "filep \<Rightarrow> nat list \<Rightarrow> fs \<Rightarrow> fs option" where
  "free_blocks_loop f [] s = Some s"
| "free_blocks_loop f (bno # bs) s = do { (_, s) \<leftarrow> file_free_block f bno s; free_blocks_loop f bs s }"

definition file_truncate_blocks :: "filep \<Rightarrow> u32 \<Rightarrow> fs \<Rightarrow> fs option" where
  "file_truncate_blocks f newsize s = do {
     let new_nblocks = nblocks_of newsize;
     s \<leftarrow> free_blocks_loop f [new_nblocks..<nblocks_of (f_size s f)] s;
     if new_nblocks \<le> NDIRECT \<and> f_indirect s f \<noteq> 0 then do {
       s \<leftarrow> free_block (f_indirect s f) s;
       Some (set_disk_word (f_indirect_at f) 0 s)
     }
     else Some s
   }"

definition file_set_size :: "filep \<Rightarrow> u32 \<Rightarrow> fs \<Rightarrow> fs option" where
  "file_set_size f newsize s = do {
     s \<leftarrow> (if sint (f_size s f) > sint newsize then file_truncate_blocks f newsize s else Some s);
     Some (flush_block (fst f) (set_disk_word (f_size_at f) newsize s))
   }"

section \<open>Reading and writing\<close>

text \<open>
  The bytes at \<open>blk + off\<close>, an address in the mapped disk: \<open>off\<close> is a signed remainder and may leave the block.
\<close>

definition disk_at :: "nat \<Rightarrow> int \<Rightarrow> nat \<times> nat" where
  "disk_at blk off = (let a = int blk * 4096 + off in (nat (a div 4096), nat (a mod 4096)))"

definition disk_bytes :: "fs \<Rightarrow> nat \<Rightarrow> int \<Rightarrow> nat \<Rightarrow> u8 list" where
  "disk_bytes s blk off n = map (\<lambda>i. case disk_at blk (off + int i) of (b, j) \<Rightarrow> fs_mem s b j) [0..<n]"

fun put_bytes :: "nat \<Rightarrow> int \<Rightarrow> u8 list \<Rightarrow> fs \<Rightarrow> fs" where
  "put_bytes blk off [] s = s"
| "put_bytes blk off (v # vs) s =
     put_bytes blk (off + 1) vs
       (case disk_at blk off of (b, j) \<Rightarrow> upd_mem (\<lambda>m. m(b := (m b)(j := v))) s)"

definition chunk_block :: "u32 \<Rightarrow> nat" where
  "chunk_block pos = unat (word_of_int (sint pos sdiv 4096) :: u32)"

definition chunk_off :: "u32 \<Rightarrow> int" where
  "chunk_off pos = sint pos smod 4096"

definition chunk_len :: "u32 \<Rightarrow> u32 \<Rightarrow> u32" where
  "chunk_len pos endp = min (word_of_int (4096 - chunk_off pos)) (endp - pos)"

text \<open>
  The loop of \<open>file_read\<close>. Each round reads at least one byte; \<open>fuel\<close> bounds the rounds, and \<open>file_read\<close> passes the
  number of bytes, which is enough. The bytes stored in the buffer so far are part of the result, also after an error.
\<close>

fun read_loop :: "nat \<Rightarrow> filep \<Rightarrow> u32 \<Rightarrow> u32 \<Rightarrow> u8 list \<Rightarrow> fs \<Rightarrow> ((jos_error + unit) \<times> u8 list \<times> fs) option" where
  "read_loop fuel f pos endp buf s =
    (if \<not> pos < endp then Some (Inr (), buf, s)
     else case fuel of
       0 \<Rightarrow> None
     | Suc n \<Rightarrow> do {
         (r, s) \<leftarrow> file_get_block f (chunk_block pos) s;
         case r of
           Inl err \<Rightarrow> Some (Inl err, buf, s)
         | Inr blk \<Rightarrow>
             let bn = chunk_len pos endp
             in read_loop n f (pos + bn) endp (buf @ disk_bytes s blk (chunk_off pos) (unat bn)) s
       })"

declare read_loop.simps [simp del]

definition file_read :: "filep \<Rightarrow> u32 \<Rightarrow> u32 \<Rightarrow> fs \<Rightarrow> ((jos_error + u32) \<times> u8 list \<times> fs) option" where
  "file_read f count offset s =
    (if sint offset \<ge> sint (f_size s f) then Some (Inr 0, [], s)
     else let count = min count (f_size s f - offset)
          in map_option (\<lambda>(r, buf, s). (map_sum id (\<lambda>_. count) r, buf, s))
               (read_loop (unat count) f offset (offset + count) [] s))"

fun write_loop :: "nat \<Rightarrow> filep \<Rightarrow> u32 \<Rightarrow> u32 \<Rightarrow> u8 list \<Rightarrow> fs \<Rightarrow> ((jos_error + unit) \<times> fs) option" where
  "write_loop fuel f pos endp buf s =
    (if \<not> pos < endp then Some (Inr (), s)
     else case fuel of
       0 \<Rightarrow> None
     | Suc n \<Rightarrow> do {
         (r, s) \<leftarrow> file_get_block f (chunk_block pos) s;
         case r of
           Inl err \<Rightarrow> Some (Inl err, s)
         | Inr blk \<Rightarrow>
             let bn = chunk_len pos endp
             in write_loop n f (pos + bn) endp (drop (unat bn) buf)
                  (put_bytes blk (chunk_off pos) (take (unat bn) buf) s)
       })"

declare write_loop.simps [simp del]

definition file_write :: "filep \<Rightarrow> u8 list \<Rightarrow> u32 \<Rightarrow> fs \<Rightarrow> ((jos_error + u32) \<times> fs) option" where
  "file_write f buf offset s =
    (let count = word_of_nat (length buf)
     in do {
       s \<leftarrow> (if offset + count > f_size s f then file_set_size f (offset + count) s else Some s);
       (r, s) \<leftarrow> write_loop (length buf) f offset (offset + count) buf s;
       Some (map_sum id (\<lambda>_. count) r, s)
     })"

section \<open>Flushing\<close>

fun flush_loop :: "filep \<Rightarrow> nat list \<Rightarrow> fs \<Rightarrow> fs option" where
  "flush_loop f [] s = Some s"
| "flush_loop f (i # js) s = do {
     (r, s) \<leftarrow> file_block_walk f i False s;
     s \<leftarrow> (case r of
             Inl _ \<Rightarrow> Some s
           | Inr p \<Rightarrow> if disk_word s p = 0 then Some s
                      else do { b \<leftarrow> block_addr (unat (disk_word s p)) s; Some (flush_block b s) });
     flush_loop f js s
   }"

definition file_flush :: "filep \<Rightarrow> fs \<Rightarrow> fs option" where
  "file_flush f s = do {
     s \<leftarrow> flush_loop f [0..<nat (sint (f_size s f + 4095) sdiv 4096)] s;
     let s = flush_block (fst f) s;
     if f_indirect s f \<noteq> 0 then do { b \<leftarrow> block_addr (f_indirect s f) s; Some (flush_block b s) }
     else Some s
   }"

definition fs_sync :: "fs \<Rightarrow> fs" where
  "fs_sync s = fold flush_block [1..<s_nblocks s] s"

section \<open>Directories\<close>

text \<open>\<open>strcmp\<close> of the name of the entry with a string: the bytes up to and including the terminator agree.\<close>

definition name_is :: "fs \<Rightarrow> filep \<Rightarrow> u8 list \<Rightarrow> bool" where
  "name_is s f name \<longleftrightarrow> map (\<lambda>i. fs_mem s (fst f) (snd f + i)) [0..<length name + 1] = name @ [0]"

definition entry :: "nat \<Rightarrow> nat \<Rightarrow> filep" where
  "entry blk j = (blk, 256 * j)"

definition dir_nblock :: "filep \<Rightarrow> fs \<Rightarrow> nat option" where
  "dir_nblock dir s =
    (if sint (f_size s dir) smod 4096 \<noteq> 0 then None
     else Some (unat (word_of_int (sint (f_size s dir) sdiv 4096) :: u32)))"

fun dir_search :: "(fs \<Rightarrow> filep \<Rightarrow> bool) \<Rightarrow> filep \<Rightarrow> nat list \<Rightarrow> fs \<Rightarrow> ((jos_error + filep option) \<times> fs) option" where
  "dir_search P dir [] s = Some (Inr None, s)"
| "dir_search P dir (i # js) s = do {
     (r, s) \<leftarrow> file_get_block dir i s;
     case r of
       Inl err \<Rightarrow> Some (Inl err, s)
     | Inr blk \<Rightarrow>
         (case find (\<lambda>j. P s (entry blk j)) [0..<BLKFILES] of
            Some j \<Rightarrow> Some (Inr (Some (entry blk j)), s)
          | None \<Rightarrow> dir_search P dir js s)
   }"

definition dir_lookup :: "filep \<Rightarrow> u8 list \<Rightarrow> fs \<Rightarrow> ((jos_error + filep) \<times> fs) option" where
  "dir_lookup dir name s = do {
     nblock \<leftarrow> dir_nblock dir s;
     (r, s) \<leftarrow> dir_search (\<lambda>s f. name_is s f name) dir [0..<nblock] s;
     Some (case r of Inl err \<Rightarrow> Inl err | Inr None \<Rightarrow> Inl E_NOT_FOUND | Inr (Some f) \<Rightarrow> Inr f, s)
   }"

definition name_empty :: "fs \<Rightarrow> filep \<Rightarrow> bool" where
  "name_empty s f \<longleftrightarrow> fs_mem s (fst f) (snd f) = 0"

definition dir_alloc_file :: "filep \<Rightarrow> fs \<Rightarrow> ((jos_error + filep) \<times> fs) option" where
  "dir_alloc_file dir s = do {
     nblock \<leftarrow> dir_nblock dir s;
     (r, s) \<leftarrow> dir_search name_empty dir [0..<nblock] s;
     case r of
       Inl err \<Rightarrow> Some (Inl err, s)
     | Inr (Some f) \<Rightarrow> Some (Inr f, s)
     | Inr None \<Rightarrow> do {
         let s = set_disk_word (f_size_at dir) (f_size s dir + 4096) s;
         (r, s) \<leftarrow> file_get_block dir nblock s;
         Some (case r of Inl err \<Rightarrow> Inl err | Inr blk \<Rightarrow> Inr (entry blk 0), s)
       }
   }"

section \<open>Paths\<close>

definition slash :: u8 where "slash = 47"

definition skip_slash :: "u8 list \<Rightarrow> u8 list" where
  "skip_slash p = dropWhile (\<lambda>c. c = slash) p"

text \<open>
  The loop of \<open>walk_path\<close> at the remaining path, with the file reached and its directory. The result is the
  return value with the file, and what is stored in \<open>pdir\<close> and \<open>lastelem\<close>.
\<close>

type_synonym walked = "(jos_error + filep) \<times> filep option \<times> u8 list option"

function walk_loop :: "u8 list \<Rightarrow> filep option \<Rightarrow> filep \<Rightarrow> fs \<Rightarrow> (walked \<times> fs) option" where
  "walk_loop [] dir f s = Some ((Inr f, dir, None), s)"
| "walk_loop (c # cs) dir f s =
    (let path = c # cs;
         name = takeWhile (\<lambda>c. c \<noteq> slash) path;
         rest = skip_slash (dropWhile (\<lambda>c. c \<noteq> slash) path)
     in if length name \<ge> MAXNAMELEN then Some ((Inl E_BAD_PATH, None, None), s)
        else if f_type s f \<noteq> FTYPE_DIR then Some ((Inl E_NOT_FOUND, None, None), s)
        else do {
          (r, s) \<leftarrow> dir_lookup f name s;
          case r of
            Inl err \<Rightarrow> Some ((Inl err, if err = E_NOT_FOUND \<and> rest = [] then Some f else None,
                              if err = E_NOT_FOUND \<and> rest = [] then Some name else None), s)
          | Inr g \<Rightarrow> walk_loop rest (Some f) g s
        })"
  by pat_completeness auto

lemma skip_slash_length: "length (skip_slash p) \<le> length p"
  by (simp add: skip_slash_def length_dropWhile_le)

lemma walk_rest_shorter: "length (skip_slash (dropWhile (\<lambda>c. c \<noteq> slash) (c # cs))) < length (c # cs)"
proof (cases "c = slash")
  case True
  then have "skip_slash (dropWhile (\<lambda>c. c \<noteq> slash) (c # cs)) = skip_slash cs" by (simp add: skip_slash_def)
  then show ?thesis using skip_slash_length [of cs] by simp
next
  case False
  then have "length (skip_slash (dropWhile (\<lambda>c. c \<noteq> slash) (c # cs))) \<le> length (dropWhile (\<lambda>c. c \<noteq> slash) cs)"
    using skip_slash_length by simp
  also have "\<dots> \<le> length cs" by (rule length_dropWhile_le)
  finally show ?thesis by simp
qed

termination walk_loop
  by (relation "measure (\<lambda>(path, dir, f, s). length path)") (use walk_rest_shorter in auto)

definition walk_path :: "u8 list \<Rightarrow> fs \<Rightarrow> (walked \<times> fs) option" where
  "walk_path path s = walk_loop (skip_slash path) None s_root s"

definition file_open :: "u8 list \<Rightarrow> fs \<Rightarrow> ((jos_error + filep) \<times> fs) option" where
  "file_open path s = map_option (\<lambda>((r, _, _), s). (r, s)) (walk_path path s)"

definition file_create :: "u8 list \<Rightarrow> fs \<Rightarrow> ((jos_error + filep) \<times> fs) option" where
  "file_create path s = do {
     ((r, dir, name), s) \<leftarrow> walk_path path s;
     case r of
       Inr _ \<Rightarrow> Some (Inl E_FILE_EXISTS, s)
     | Inl err \<Rightarrow>
         (case (dir, name) of
            (Some dir, Some name) \<Rightarrow>
              if err \<noteq> E_NOT_FOUND then Some (Inl err, s)
              else do {
                (r, s) \<leftarrow> dir_alloc_file dir s;
                case r of
                  Inl err \<Rightarrow> Some (Inl err, s)
                | Inr f \<Rightarrow> do {
                    s \<leftarrow> file_flush dir (put_bytes (fst f) (int (snd f)) (name @ [0]) s);
                    Some (Inr f, s)
                  }
              }
          | _ \<Rightarrow> Some (Inl err, s))
   }"

end
