(* ===== verification/Fs_Paths.thy ===== *)
theory Fs_Paths
  imports Fs_File
begin

text \<open>
  Chunks of files and the shape of paths: the signed arithmetic of the read and write loops in terms of
  natural numbers, and path names as lists of components.
\<close>

section \<open>Chunks\<close>

lemma chunk_block_nat:
  assumes "unat pos < 2147483648"
  shows "chunk_block pos = unat pos div 4096"
proof -
  have "int (unat pos) div 4096 = int (unat pos div 4096)" by (simp add: zdiv_int)
  then have "sint pos sdiv 4096 = int (unat pos div 4096)"
    unfolding sint_small [OF assms] by (simp add: sdiv_nonneg)
  then have "chunk_block pos = unat (word_of_nat (unat pos div 4096) :: u32)" by (simp add: chunk_block_def)
  also have "\<dots> = unat pos div 4096"
  proof (rule unat_of_nat_lt)
    have "unat pos div 4096 \<le> unat pos" by simp
    then show "unat pos div 4096 < 4294967296" using assms by linarith
  qed
  finally show ?thesis .
qed

lemma chunk_off_nat:
  assumes "unat pos < 2147483648"
  shows "chunk_off pos = int (unat pos mod 4096)"
  unfolding chunk_off_def sint_small [OF assms] by (simp add: smod_nonneg zmod_int)

lemma chunk_len_nat:
  assumes "unat pos < unat endp" "unat endp < 2147483648"
  shows "unat (chunk_len pos endp) = min (4096 - unat pos mod 4096) (unat endp - unat pos)"
proof -
  have p: "unat pos < 2147483648" using assms by simp
  have m: "unat pos mod 4096 < 4096" by simp
  have "(4096 :: int) - int (unat pos mod 4096) = int (4096 - unat pos mod 4096)" using m by linarith
  then have a: "unat (word_of_int (4096 - chunk_off pos) :: u32) = 4096 - unat pos mod 4096"
    unfolding chunk_off_nat [OF p] by (simp only: of_int_of_nat_eq) (rule unat_of_nat_lt, simp)
  have "pos \<le> endp" using assms(1) by (simp add: word_le_nat_alt)
  then have b: "unat (endp - pos) = unat endp - unat pos" by (rule unat_sub)
  show ?thesis unfolding chunk_len_def min_def word_le_nat_alt a b by (simp only: a b split: if_split) simp
qed

section \<open>Paths as lists of components\<close>

fun split_path :: "u8 list \<Rightarrow> u8 list list" where
  "split_path [] = [[]]"
| "split_path (c # cs) = (if c = slash then [] # split_path cs else (c # hd (split_path cs)) # tl (split_path cs))"

definition components :: "u8 list \<Rightarrow> u8 list list" where
  "components p = filter (\<lambda>c. c \<noteq> []) (split_path p)"

lemma split_path_nonempty [simp]: "split_path p \<noteq> []"
  by (cases p) auto

lemma split_path_cut:
  "split_path p = takeWhile (\<lambda>c. c \<noteq> slash) p #
     (case dropWhile (\<lambda>c. c \<noteq> slash) p of [] \<Rightarrow> [] | _ # cs \<Rightarrow> split_path cs)"
  by (induction p) (auto split: list.split)

lemma components_skip [simp]: "components (skip_slash p) = components p"
  by (induction p) (auto simp: components_def skip_slash_def)

lemma components_Nil [simp]: "components [] = []"
  by (simp add: components_def)

lemma components_first:
  assumes "p \<noteq> []" "hd p \<noteq> slash"
  shows "components p = takeWhile (\<lambda>c. c \<noteq> slash) p # components (skip_slash (dropWhile (\<lambda>c. c \<noteq> slash) p))"
proof -
  have "takeWhile (\<lambda>c. c \<noteq> slash) p \<noteq> []" using assms by (cases p) auto
  moreover obtain d where d: "dropWhile (\<lambda>c. c \<noteq> slash) p = d" "d = [] \<or> hd d = slash"
    using hd_dropWhile [of "\<lambda>c. c \<noteq> slash" p] by blast
  moreover have "components d = filter (\<lambda>c. c \<noteq> []) (case d of [] \<Rightarrow> [] | _ # cs \<Rightarrow> split_path cs)"
    using d(2) by (cases d) (auto simp: components_def)
  ultimately show ?thesis
    unfolding components_skip d(1) by (simp only: components_def split_path_cut [of p] d(1) filter.simps if_True simp_thms)
qed

lemma skip_slash_hd: "skip_slash p = [] \<or> hd (skip_slash p) \<noteq> slash"
  using hd_dropWhile [of "\<lambda>c. c = slash" p] by (auto simp: skip_slash_def)

lemma components_empty_iff: "skip_slash p = [] \<longleftrightarrow> components p = []"
proof
  assume c: "components p = []"
  show "skip_slash p = []"
  proof (rule ccontr)
    assume "skip_slash p \<noteq> []"
    with skip_slash_hd components_first [of "skip_slash p"] c show False by auto
  qed
next
  assume "skip_slash p = []"
  then show "components p = []" using components_skip [of p] by simp
qed

text \<open>Walking down a list of names, one directory per name.\<close>

fun resolve :: "u8 list list \<Rightarrow> filep option \<Rightarrow> filep \<Rightarrow> fs \<Rightarrow> (walked \<times> fs) option" where
  "resolve [] dir f s = Some ((Inr f, dir, None), s)"
| "resolve (n # ns) dir f s =
    (if length n \<ge> MAXNAMELEN then Some ((Inl E_BAD_PATH, None, None), s)
     else if f_type s f \<noteq> FTYPE_DIR then Some ((Inl E_NOT_FOUND, None, None), s)
     else case dir_lookup f n s of
       None \<Rightarrow> None
     | Some (Inl err, s) \<Rightarrow>
         (let missing = (err = E_NOT_FOUND \<and> ns = [])
          in Some ((Inl err, if missing then Some f else None, if missing then Some n else None), s))
     | Some (Inr g, s) \<Rightarrow> resolve ns (Some f) g s)"

lemma walk_loop_resolve:
  "p = [] \<or> hd p \<noteq> slash \<Longrightarrow> walk_loop p dir f s = resolve (components p) dir f s"
proof (induction p dir f s rule: walk_loop.induct)
  case (1 dir f s)
  then show ?case by simp
next
  case (2 c cs dir f s)
  let ?p = "c # cs"
  let ?n = "takeWhile (\<lambda>c. c \<noteq> slash) ?p" and ?r = "skip_slash (dropWhile (\<lambda>c. c \<noteq> slash) ?p)"
  have c: "components ?p = ?n # components ?r" using 2(2) by (intro components_first) auto
  have e: "?r = [] \<longleftrightarrow> components ?r = []" by (simp only: components_skip components_empty_iff)
  have rec: "walk_loop ?r (Some f) g t = resolve (components ?r) (Some f) g t"
    if "\<not> length ?n \<ge> MAXNAMELEN" "\<not> f_type s f \<noteq> FTYPE_DIR" "dir_lookup f ?n s = Some (Inr g, t)" for g t
    using that skip_slash_hd by (intro 2(1) [OF refl refl refl _ _ that(3) refl refl]) blast+
  show ?case
    unfolding c walk_loop.simps(2) resolve.simps Let_def e
    by (auto split: option.split sum.split simp: rec simp del: components_skip takeWhile.simps dropWhile.simps)
qed

text \<open>
  C30: evaluating a path name depends only on its non-empty components: repeated, leading and trailing slashes make no
  difference, and the walk goes down one directory per component, reporting the last directory and the last name exactly
  when only the last component is missing.
\<close>

theorem walk_path_components: "walk_path p s = resolve (components p) None s_root s"
  using walk_loop_resolve [OF skip_slash_hd, of p None s_root s] by (simp add: walk_path_def)

end
