(* ===== verification/Fs_Rw.thy ===== *)
theory Fs_Rw
  imports Fs_Paths
begin

text \<open>
  Reading back what was written: an invariant of a file and its block pointers, its preservation by
  \<open>file_get_block\<close>, and the contents of a file after \<open>file_write\<close>.
\<close>

section \<open>Block pointers\<close>

text \<open>
  Pointers 0 to 1033 are those of the blocks of the file, 1034 is that of the indirect block.
\<close>

definition slot :: "fs \<Rightarrow> filep \<Rightarrow> nat \<Rightarrow> nat \<times> nat" where
  "slot s f i = (if i < 10 then f_direct_at f i else if i = 1034 then f_indirect_at f else (f_indirect s f, 4 * (i - 10)))"

definition ptr :: "fs \<Rightarrow> filep \<Rightarrow> nat \<Rightarrow> nat" where
  "ptr s f i = (if 10 \<le> i \<and> i \<noteq> 1034 \<and> f_indirect s f = 0 then 0 else unat (disk_word s (slot s f i)))"

definition data_area :: "fs \<Rightarrow> nat \<Rightarrow> bool" where
  "data_area s b \<longleftrightarrow> 2 + (s_nblocks s - 1) div 32768 < b \<and> b < s_nblocks s"

text \<open>
  A file structure lies in the super block or in an allocated block. The pointers in use are distinct, allocated blocks of
  the data area, and nothing else is free.
\<close>

definition file_wf :: "fs \<Rightarrow> filep \<Rightarrow> bool" where
  "file_wf s f \<longleftrightarrow> snd f + 256 \<le> 4096 \<and> (fst f = 1 \<and> 8 \<le> snd f \<or> data_area s (fst f)) \<and>
     \<not> block_is_free (fst f) s \<and> (\<forall>b. block_is_free b s \<longrightarrow> data_area s b) \<and>
     unat (f_size s f) \<le> 1034 * 4096 \<and>
     (\<forall>i\<le>1034. ptr s f i \<noteq> 0 \<longrightarrow>
        data_area s (ptr s f i) \<and> \<not> block_is_free (ptr s f i) s \<and> ptr s f i \<noteq> fst f \<and>
        (\<forall>j\<le>1034. ptr s f j = ptr s f i \<longrightarrow> j = i))"

lemma file_wfD:
  assumes "file_wf s f"
  shows "snd f + 256 \<le> 4096" "fst f = 1 \<and> 8 \<le> snd f \<or> data_area s (fst f)" "\<not> block_is_free (fst f) s"
    "block_is_free b s \<Longrightarrow> data_area s b" "unat (f_size s f) \<le> 1034 * 4096"
    "i \<le> 1034 \<Longrightarrow> ptr s f i \<noteq> 0 \<Longrightarrow> data_area s (ptr s f i)"
    "i \<le> 1034 \<Longrightarrow> ptr s f i \<noteq> 0 \<Longrightarrow> \<not> block_is_free (ptr s f i) s"
    "i \<le> 1034 \<Longrightarrow> ptr s f i \<noteq> 0 \<Longrightarrow> ptr s f i \<noteq> fst f"
    "i \<le> 1034 \<Longrightarrow> ptr s f i \<noteq> 0 \<Longrightarrow> j \<le> 1034 \<Longrightarrow> ptr s f j = ptr s f i \<Longrightarrow> j = i"
  using assms unfolding file_wf_def by blast+

lemma ptr_indirect: "ptr s f 1034 = f_indirect s f"
  by (simp add: ptr_def slot_def f_indirect_def)

lemma get32_cong: "m (fst a) = m' (fst a) \<Longrightarrow> get32 m a = get32 m' a"
  by (simp add: get32_def)

lemma disk_word_cong: "fs_mem s' (fst a) = fs_mem s (fst a) \<Longrightarrow> disk_word s' a = disk_word s a"
  unfolding disk_word_def by (rule get32_cong)

lemma ptr_cong:
  assumes "fs_mem s' (fst f) = fs_mem s (fst f)"
    "f_indirect s f \<noteq> 0 \<Longrightarrow> fs_mem s' (f_indirect s f) = fs_mem s (f_indirect s f)"
  shows "ptr s' f = ptr s f" "f_size s' f = f_size s f" "f_indirect s' f = f_indirect s f"
proof -
  have w: "disk_word s' a = disk_word s a" if "fst a = fst f \<or> f_indirect s f \<noteq> 0 \<and> fst a = f_indirect s f" for a
    using that assms by (intro disk_word_cong) auto
  show i: "f_indirect s' f = f_indirect s f" "f_size s' f = f_size s f"
    by (simp_all add: f_indirect_def f_size_def w f_indirect_at_def f_size_at_def)
  show "ptr s' f = ptr s f"
    by (rule ext) (auto simp: ptr_def slot_def i w f_direct_at_def f_indirect_at_def)
qed

lemma s_nblocks_cong: "fs_mem s' 1 = fs_mem s 1 \<Longrightarrow> s_nblocks s' = s_nblocks s"
  using disk_word_cong [of s' "(1, 4)" s] by (simp add: s_nblocks_def)

lemma block_is_free_cong:
  assumes "s_nblocks s' = s_nblocks s"
    "\<And>b. 2 \<le> b \<Longrightarrow> b \<le> 2 + (s_nblocks s - 1) div 32768 \<Longrightarrow> fs_mem s' b = fs_mem s b"
  shows "block_is_free n s' = block_is_free n s"
proof (cases "n < s_nblocks s")
  case True
  have b: "fst (bitmap_word (n div 32)) = 2 + n div 32768" by (simp add: bitmap_word_def div_mult2_eq [symmetric])
  have "n div 32768 \<le> (s_nblocks s - 1) div 32768" using True by (intro div_le_mono) simp
  then have "disk_word s' (bitmap_word (n div 32)) = disk_word s (bitmap_word (n div 32))"
    using b by (intro disk_word_cong assms(2)) auto
  then show ?thesis by (simp add: block_is_free_iff assms(1))
next
  case False
  then show ?thesis by (simp add: block_is_free_iff assms(1))
qed

lemma data_area_apart: "data_area s b \<Longrightarrow> 2 + (s_nblocks s - 1) div 32768 < b \<and> b \<noteq> 0 \<and> b \<noteq> 1"
  by (auto simp: data_area_def)

lemma unat_data_block: "data_area s b \<Longrightarrow> unat (word_of_nat b :: u32) = b"
proof (rule unat_of_nat_lt)
  assume "data_area s b"
  then show "b < 4294967296" using unat_u32_lt [of "disk_word s (1, 4)"]
    unfolding data_area_def s_nblocks_def by linarith
qed

text \<open>Changing one data block that is not a block of pointers leaves the invariant.\<close>

lemma file_wf_data:
  assumes wf: "file_wf s f" and b: "data_area s b" "b \<noteq> fst f" "b \<noteq> f_indirect s f"
    and m: "\<And>c. c \<noteq> b \<Longrightarrow> fs_mem s' c = fs_mem s c"
  shows "file_wf s' f" "ptr s' f = ptr s f" "f_size s' f = f_size s f" "s_nblocks s' = s_nblocks s"
    "block_is_free c s' = block_is_free c s"
proof -
  note d = data_area_apart [OF b(1)]
  show n: "s_nblocks s' = s_nblocks s" using d m by (intro s_nblocks_cong) metis
  have fr: "block_is_free c s' = block_is_free c s" for c
    using d by (intro block_is_free_cong n m) auto
  show "block_is_free c s' = block_is_free c s" by (rule fr)
  have p: "ptr s' f = ptr s f" "f_size s' f = f_size s f" using b m by (intro ptr_cong; metis)+
  then show "ptr s' f = ptr s f" "f_size s' f = f_size s f" by auto
  show "file_wf s' f" using wf unfolding file_wf_def data_area_def p n fr .
qed

lemma alloc_fresh:
  assumes wf: "file_wf s f" and a: "alloc_block s = (Some r, s')"
  shows "file_wf s' f" "ptr s' f = ptr s f" "f_size s' f = f_size s f" "s_nblocks s' = s_nblocks s"
    "data_area s r" "\<not> block_is_free r s'" "r \<noteq> fst f" "i \<le> 1034 \<Longrightarrow> ptr s f i \<noteq> r"
    "b = 1 \<or> data_area s b \<Longrightarrow> fs_mem s' b = fs_mem s b"
proof -
  have "\<exists>k. 2 \<le> k \<and> block_is_free k s"
    using a alloc_block_none [of s] by (metis Pair_inject option.distinct(1))
  then obtain k where "2 \<le> k" "block_is_free k s" by blast
  from alloc_block_some [OF this] a have r: "block_is_free r s" "s_nblocks s' = s_nblocks s"
    "\<And>m. block_is_free m s' \<longleftrightarrow> m \<noteq> r \<and> block_is_free m s"
    "\<And>b. b < 2 \<or> 2 + (s_nblocks s - 1) div 32768 < b \<Longrightarrow> fs_mem s' b = fs_mem s b"
    by auto
  show "s_nblocks s' = s_nblocks s" by (rule r)
  have mem: "fs_mem s' b = fs_mem s b" if "b = 1 \<or> data_area s b" for b
    using that r(4) by (auto simp: data_area_def)
  then show "b = 1 \<or> data_area s b \<Longrightarrow> fs_mem s' b = fs_mem s b" .
  have da: "data_area s' = data_area s" using r(2) by (simp add: data_area_def fun_eq_iff)
  have p: "ptr s' f = ptr s f" "f_size s' f = f_size s f"
    using mem file_wfD(2) [OF wf] file_wfD(6) [OF wf, of 1034] unfolding ptr_indirect
    by (intro ptr_cong mem; auto)+
  then show "ptr s' f = ptr s f" "f_size s' f = f_size s f" by auto
  show "file_wf s' f" using wf unfolding file_wf_def p da by (auto simp: r(3))
  show "data_area s r" using file_wfD(4) [OF wf r(1)] .
  show "\<not> block_is_free r s'" by (simp add: r(3))
  show "r \<noteq> fst f" using r(1) file_wfD(3) [OF wf] by auto
  show "ptr s f i \<noteq> r" if "i \<le> 1034"
    using file_wfD(7) [OF wf that] r(1) data_area_apart [OF file_wfD(4) [OF wf r(1)]] by metis
qed

definition disk_full :: "fs \<Rightarrow> bool" where
  "disk_full s \<longleftrightarrow> (\<forall>b. \<not> block_is_free b s)"

lemma alloc_exhausted:
  assumes wf: "file_wf s f" and a: "alloc_block s = (None, s')"
  shows "disk_full s'"
proof -
  have n: "\<not> block_is_free b s" if "2 \<le> b" for b
  proof
    assume "block_is_free b s"
    from alloc_block_some [OF that this] a show False by auto
  qed
  then have "s' = s" using alloc_block_none [of s] a by simp
  moreover have "\<not> block_is_free b s" for b
    using n [of b] file_wfD(4) [OF wf, of b] data_area_apart [of s b] by (cases "2 \<le> b") auto
  ultimately show ?thesis by (simp add: disk_full_def)
qed

lemma slot_apart:
  assumes "f_indirect s f \<noteq> fst f" "i \<le> 1034" "j \<le> 1034" "i \<noteq> j"
  shows "fst (slot s f i) \<noteq> fst (slot s f j) \<or> snd (slot s f i) + 4 \<le> snd (slot s f j) \<or>
    snd (slot s f j) + 4 \<le> snd (slot s f i)"
  using assms by (auto simp: slot_def f_direct_at_def f_indirect_at_def)

text \<open>Storing a fresh block in an empty pointer. The indirect block has to be clear.\<close>

lemma add_pointer:
  assumes wf: "file_wf s f" and i: "i \<le> 1034" "ptr s f i = 0" "i < 10 \<or> i = 1034 \<or> f_indirect s f \<noteq> 0"
    and r: "data_area s r" "\<not> block_is_free r s" "r \<noteq> fst f" "\<forall>j\<le>1034. ptr s f j \<noteq> r"
    and z: "i = 1034 \<longrightarrow> fs_mem s r = (\<lambda>_. 0)"
    and s': "s' = set_disk_word (slot s f i) (word_of_nat r) s"
  shows "file_wf s' f" "j \<le> 1034 \<Longrightarrow> ptr s' f j = (if j = i then r else ptr s f j)" "f_size s' f = f_size s f"
    "s_nblocks s' = s_nblocks s" "b \<noteq> fst f \<Longrightarrow> b \<noteq> f_indirect s f \<Longrightarrow> fs_mem s' b = fs_mem s b"
proof -
  let ?a = "slot s f i"
  have ur: "unat (word_of_nat r :: u32) = r" by (rule unat_data_block [OF r(1)])
  have r0: "r \<noteq> 0" using data_area_apart [OF r(1)] by blast
  have "f_indirect s f \<noteq> fst f"
    using file_wfD(8) [OF wf, of 1034] file_wfD(2) [OF wf] data_area_apart [of s "fst f"]
    unfolding ptr_indirect by fastforce
  note apart = slot_apart [OF this]
  have blk: "fst ?a = fst f \<or> fst ?a = f_indirect s f \<and> f_indirect s f \<noteq> 0 \<and> i \<noteq> 1034 \<and> \<not> i < 10"
    using i(3) by (auto simp: slot_def f_direct_at_def f_indirect_at_def)
  have "f_indirect s f \<noteq> 1"
    using file_wfD(6) [OF wf, of 1034] data_area_apart [of s "f_indirect s f"] unfolding ptr_indirect by fastforce
  moreover have "fst f = 1 \<Longrightarrow> 8 \<le> snd f" using file_wfD(2) [OF wf] data_area_apart [of s 1] by auto
  ultimately have ia: "fst ?a = 1 \<Longrightarrow> 8 \<le> snd ?a"
    using blk by (auto simp: slot_def f_direct_at_def f_indirect_at_def)
  have w: "disk_word s' a = disk_word s a" if "fst ?a \<noteq> fst a \<or> snd ?a + 4 \<le> snd a \<or> snd a + 4 \<le> snd ?a" for a
    unfolding s' using that by (rule disk_word_set_other)
  have wr: "disk_word s' ?a = word_of_nat r" unfolding s' by simp
  show n: "s_nblocks s' = s_nblocks s"
    unfolding s_nblocks_def using ia by (subst w) auto
  show mem: "fs_mem s' b = fs_mem s b" if "b \<noteq> fst f" "b \<noteq> f_indirect s f" for b
    using that blk unfolding s' by (auto simp: set_disk_word_def upd_mem_def)
  have low: "fs_mem s' b = fs_mem s b" if "2 \<le> b" "b \<le> 2 + (s_nblocks s - 1) div 32768" for b
    using that file_wfD(2) [OF wf] file_wfD(6) [OF wf, of 1034] data_area_apart [of s "fst f"]
      data_area_apart [of s "f_indirect s f"] by (intro mem) (auto simp: ptr_indirect)
  have fr: "block_is_free b s' = block_is_free b s" for b by (rule block_is_free_cong [OF n low])
  show sz: "f_size s' f = f_size s f"
    unfolding f_size_def using \<open>f_indirect s f \<noteq> fst f\<close>
    by (subst w) (auto simp: f_size_at_def slot_def f_direct_at_def f_indirect_at_def)
  show p: "ptr s' f j = (if j = i then r else ptr s f j)" if j: "j \<le> 1034" for j
  proof (cases "i = 1034")
    case True
    then have ind: "f_indirect s' f = r" "f_indirect s f = 0"
      using wr ur i(2) by (simp_all add: f_indirect_def slot_def ptr_indirect [unfolded f_indirect_def])
    have "fs_mem s' r = (\<lambda>_. 0)" using mem [of r] r(3) r0 z True unfolding ind(2) by simp
    then have "disk_word s' (r, k) = 0" for k by (simp add: disk_word_def get32_def join32_def)
    moreover have "disk_word s' (slot s f j) = disk_word s (slot s f j)" if "j < 10"
      using apart [OF i(1) j] that True by (intro w) auto
    ultimately show ?thesis
      using True wr ur ind unfolding ptr_def slot_def by auto
  next
    case False
    have ind: "f_indirect s' f = f_indirect s f"
      using apart [OF i(1), of 1034] False by (simp add: f_indirect_def slot_def w)
    then have sl: "slot s' f j = slot s f j" by (simp add: slot_def)
    show ?thesis
    proof (cases "j = i")
      case True
      then show ?thesis using wr ur i(3) False unfolding ptr_def sl ind by auto
    next
      case False
      then show ?thesis using w [OF apart [OF i(1) j]] unfolding ptr_def sl ind by auto
    qed
  qed
  have da: "data_area s' = data_area s" by (simp add: data_area_def n fun_eq_iff)
  show "file_wf s' f"
    using wf r unfolding file_wf_def da fr sz by (simp add: p) (metis r(4))
qed

section \<open>Getting a block of a file\<close>

text \<open>What never changes while blocks are added to a file: its pointers, once set, and what its blocks hold.\<close>

definition file_keeps :: "filep \<Rightarrow> fs \<Rightarrow> fs \<Rightarrow> bool" where
  "file_keeps f s s' \<longleftrightarrow> file_wf s' f \<and> f_size s' f = f_size s f \<and> s_nblocks s' = s_nblocks s \<and>
     (\<forall>j\<le>1034. ptr s f j \<noteq> 0 \<longrightarrow> ptr s' f j = ptr s f j) \<and>
     (\<forall>j<1034. ptr s f j \<noteq> 0 \<longrightarrow> fs_mem s' (ptr s f j) = fs_mem s (ptr s f j))"

lemma file_keeps_refl: "file_wf s f \<Longrightarrow> file_keeps f s s"
  by (simp add: file_keeps_def)

lemma file_keeps_trans: "file_keeps f s s' \<Longrightarrow> file_keeps f s' s'' \<Longrightarrow> file_keeps f s s''"
  unfolding file_keeps_def by (auto; metis less_imp_le)

lemma keeps_alloc:
  assumes wf: "file_wf s f" and a: "alloc_block s = (Some r, s')"
  shows "file_keeps f s s'"
  unfolding file_keeps_def using alloc_fresh [OF wf a] file_wfD(6) [OF wf] by simp

lemma keeps_add:
  assumes wf: "file_wf s f" and i: "i \<le> 1034" "ptr s f i = 0" "i < 10 \<or> i = 1034 \<or> f_indirect s f \<noteq> 0"
    and r: "data_area s r" "\<not> block_is_free r s" "r \<noteq> fst f" "\<forall>j\<le>1034. ptr s f j \<noteq> r"
    and z: "i = 1034 \<longrightarrow> fs_mem s r = (\<lambda>_. 0)"
    and s': "s' = set_disk_word (slot s f i) (word_of_nat r) s"
  shows "file_keeps f s s'" "ptr s' f i = r"
proof -
  note a = add_pointer [OF wf i r z s']
  have "ptr s f j \<noteq> f_indirect s f" if "j < 1034" "ptr s f j \<noteq> 0" for j
    using file_wfD(9) [OF wf, of 1034 j] that unfolding ptr_indirect by (metis less_imp_le nat_neq_iff order_refl)
  then show "file_keeps f s s'"
    unfolding file_keeps_def using a i(2) file_wfD(8) [OF wf] by (auto; metis)
  show "ptr s' f i = r" using a(2) [OF i(1)] by simp
qed

lemma clear_block_mem [simp]: "fs_mem (clear_block r s) b = (if b = r then (\<lambda>_. 0) else fs_mem s b)"
  by (simp add: clear_block_def upd_mem_def)

lemma clear_set_word: "fst a \<noteq> r \<Longrightarrow> clear_block r (set_disk_word a w s) = set_disk_word a w (clear_block r s)"
  by (simp add: clear_block_def set_disk_word_def upd_mem_def put32_def Let_def fun_upd_twist)

lemma block_addr_ok: "data_area s b \<Longrightarrow> block_addr b s = Some b"
  by (auto simp: block_addr_def data_area_def)

lemma block_walk_ok:
  assumes wf: "file_wf s f" and n: "n < 1034"
  shows "\<exists>r s'. file_block_walk f n True s = Some (r, s') \<and>
    (r = Inl E_NO_DISK \<and> disk_full s' \<or> r = Inr (slot s' f n) \<and> file_keeps f s s' \<and> (n < 10 \<or> f_indirect s' f \<noteq> 0))"
proof (cases "n < 10")
  case True
  then show ?thesis using file_keeps_refl [OF wf] by (simp add: file_block_walk_def NDIRECT_def slot_def)
next
  case big: False
  show ?thesis
  proof (cases "f_indirect s f = 0")
    case False
    then have "block_addr (f_indirect s f) s = Some (f_indirect s f)"
      using file_wfD(6) [OF wf, of 1034] by (intro block_addr_ok) (simp add: ptr_indirect)
    then show ?thesis using False big n file_keeps_refl [OF wf]
      by (simp add: file_block_walk_def NDIRECT_def NINDIRECT_def slot_def)
  next
    case ind: True
    show ?thesis
    proof (cases "alloc_block s")
      case (Pair x s1)
      show ?thesis
      proof (cases x)
        case None
        with Pair have "disk_full s1" by (intro alloc_exhausted [OF wf]) simp
        with None Pair ind big n show ?thesis by (simp add: file_block_walk_def NDIRECT_def NINDIRECT_def)
      next
        case (Some r)
        with Pair have a: "alloc_block s = (Some r, s1)" by simp
        note fr = alloc_fresh [OF wf a]
        let ?c = "clear_block r s1"
        let ?t = "set_disk_word (slot ?c f 1034) (word_of_nat r) ?c"
        have dr: "data_area s1 r" using fr(4,5) by (simp add: data_area_def)
        have ri: "r \<noteq> f_indirect s1 f" using fr(8) [of 1034] fr(2) by (metis order_refl ptr_indirect)
        note c = file_wf_data [OF fr(1) dr fr(7) ri, of ?c, simplified]
        have k1: "file_keeps f s1 ?c" unfolding file_keeps_def using c fr(2,8) by (auto; metis less_imp_le)
        have p0: "ptr ?c f 1034 = 0" using c(2) fr(2) ind by (simp add: ptr_indirect)
        have dc: "data_area ?c r" using dr c(4) by (simp add: data_area_def)
        have k2: "file_keeps f ?c ?t" "ptr ?t f 1034 = r"
          by (rule keeps_add [OF c(1) _ p0 _ dc, of ?t]; use c fr in simp)+
        have k: "file_keeps f s ?t"
          by (rule file_keeps_trans [OF keeps_alloc [OF wf a] file_keeps_trans [OF k1 k2(1)]])
        have t: "?t = clear_block r (set_disk_word (f_indirect_at f) (word_of_nat r) s1)"
          using fr(7) by (subst clear_set_word) (auto simp: f_indirect_at_def slot_def)
        have nt: "s_nblocks ?t = s_nblocks s1" using k1 k2(1) by (simp add: file_keeps_def)
        have nb: "s_nblocks (set_disk_word (f_indirect_at f) (word_of_nat r) s1) = s_nblocks s1"
          using data_area_apart [OF dr] unfolding nt [symmetric] t
          by (intro s_nblocks_cong [symmetric]) simp
        have it: "f_indirect ?t f = r" using k2(2) by (simp add: ptr_indirect)
        have r0: "r \<noteq> 0" using data_area_apart [OF dr] by simp
        have b: "block_addr r (set_disk_word (f_indirect_at f) (word_of_nat r) s1) = Some r"
          "block_addr r ?t = Some r"
          using dr nb nt by (intro block_addr_ok; simp add: data_area_def)+
        show ?thesis
          using a ind big n k b it r0 unfolding t
          by (simp add: file_block_walk_def NDIRECT_def NINDIRECT_def slot_def Let_def)
      qed
    qed
  qed
qed

lemma get_block_ok:
  assumes wf: "file_wf s f" and n: "n < 1034"
  shows "\<exists>r s'. file_get_block f n s = Some (r, s') \<and>
    (r = Inl E_NO_DISK \<and> disk_full s' \<or> r = Inr (ptr s' f n) \<and> ptr s' f n \<noteq> 0 \<and> file_keeps f s s')"
proof -
  obtain r s1 where w: "file_block_walk f n True s = Some (r, s1)"
    "r = Inl E_NO_DISK \<and> disk_full s1 \<or> r = Inr (slot s1 f n) \<and> file_keeps f s s1 \<and> (n < 10 \<or> f_indirect s1 f \<noteq> 0)"
    using block_walk_ok [OF wf n] by blast
  show ?thesis
  proof (cases "r = Inl E_NO_DISK")
    case True
    with w show ?thesis by (simp add: file_get_block_def)
  next
    case False
    with w have r: "r = Inr (slot s1 f n)" and k: "file_keeps f s s1" and i: "n < 10 \<or> f_indirect s1 f \<noteq> 0"
      by auto
    have wf1: "file_wf s1 f" using k by (simp add: file_keeps_def)
    have p: "unat (disk_word s1 (slot s1 f n)) = ptr s1 f n" using i n by (auto simp: ptr_def)
    have ok: "block_addr (ptr t f n) t = Some (ptr t f n)" if "file_wf t f" "ptr t f n \<noteq> 0" for t
      using file_wfD(6) [OF that(1) _ that(2)] n by (intro block_addr_ok) simp
    show ?thesis
    proof (cases "ptr s1 f n = 0")
      case False
      then have "disk_word s1 (slot s1 f n) \<noteq> 0" using p by auto
      with False w(1) r k ok [OF wf1] show ?thesis by (simp add: file_get_block_def p)
    next
      case z: True
      then have d: "disk_word s1 (slot s1 f n) = 0" using p by (metis unat_eq_zero)
      obtain x s2 where a: "alloc_block s1 = (x, s2)" by fastforce
      show ?thesis
      proof (cases x)
        case None
        with a have "disk_full s2" by (intro alloc_exhausted [OF wf1]) simp
        with None a d w(1) r show ?thesis by (simp add: file_get_block_def)
      next
        case (Some b)
        with a have a: "alloc_block s1 = (Some b, s2)" by simp
        note fr = alloc_fresh [OF wf1 a]
        have sl: "slot s1 f n = slot s2 f n" using fr(2) by (simp add: slot_def ptr_indirect [symmetric])
        let ?t = "set_disk_word (slot s2 f n) (word_of_nat b) s2"
        have k2: "file_keeps f s2 ?t" "ptr ?t f n = b"
          by (rule keeps_add [OF fr(1), of n b]; use fr z i n in \<open>simp add: data_area_def ptr_indirect [symmetric]\<close>)+
        have "file_keeps f s ?t"
          by (rule file_keeps_trans [OF k file_keeps_trans [OF keeps_alloc [OF wf1 a] k2(1)]])
        moreover have "b \<noteq> 0" using data_area_apart [OF fr(5)] by simp
        moreover have "unat (disk_word ?t (slot s2 f n)) = b"
          by (simp add: unat_data_block [OF fr(5)])
        moreover have "block_addr b ?t = Some b" using ok [of ?t] k2 \<open>b \<noteq> 0\<close> by (simp add: file_keeps_def)
        ultimately show ?thesis
          using a d w(1) r k2(2) unfolding sl by (simp add: file_get_block_def Let_def)
      qed
    qed
  qed
qed

section \<open>The bytes of a file\<close>

definition file_byte :: "fs \<Rightarrow> filep \<Rightarrow> nat \<Rightarrow> u8" where
  "file_byte s f p = fs_mem s (ptr s f (p div 4096)) (p mod 4096)"

lemma disk_at_block: "off < 4096 \<Longrightarrow> disk_at b (int off) = (b, off)"
proof -
  assume off: "off < 4096"
  have "int b * 4096 + int off = int (b * 4096 + off)" by simp
  moreover have "(b * 4096 + off) div 4096 = b" "(b * 4096 + off) mod 4096 = off" using off by simp_all
  ultimately show ?thesis unfolding disk_at_def Let_def by (simp only: nat_int zdiv_int [symmetric] zmod_int [symmetric] of_nat_numeral [symmetric, where ?'a = int])
qed

lemma put_bytes_mem:
  "off + length vs \<le> 4096 \<Longrightarrow> fs_mem (put_bytes b (int off) vs s) c j =
     (if c = b \<and> off \<le> j \<and> j < off + length vs then vs ! (j - off) else fs_mem s c j)"
proof (induction vs arbitrary: off s)
  case Nil
  then show ?case by auto
next
  case (Cons v vs)
  then have off: "off < 4096" "off + 1 + length vs \<le> 4096" by simp_all
  have e: "int off + 1 = int (off + 1)" by simp
  show ?case
    unfolding put_bytes.simps disk_at_block [OF off(1)] e Cons.IH [OF off(2)]
    by (auto simp: upd_mem_def nth_Cons' Suc_le_eq le_less)
qed

lemma disk_bytes_block:
  assumes "off + n \<le> 4096"
  shows "disk_bytes s b (int off) n = map (\<lambda>i. fs_mem s b (off + i)) [0..<n]"
  unfolding disk_bytes_def
proof (rule map_cong [OF refl])
  fix i assume "i \<in> set [0..<n]"
  then have "off + i < 4096" using assms by simp
  from disk_at_block [OF this, of b] show "(case disk_at b (int off + int i) of (c, j) \<Rightarrow> fs_mem s c j) = fs_mem s b (off + i)"
    by simp
qed

text \<open>Positions in the same block.\<close>

lemma same_block:
  assumes "(p :: nat) mod 4096 + k \<le> 4096" "i < k"
  shows "(p + i) div 4096 = p div 4096" "(p + i) mod 4096 = p mod 4096 + i"
proof -
  have "p mod 4096 + i < 4096" using assms by simp
  moreover have "p + i = 4096 * (p div 4096) + (p mod 4096 + i)" by simp
  ultimately show "(p + i) div 4096 = p div 4096" "(p + i) mod 4096 = p mod 4096 + i"
    by (metis div_mult_self4 div_less add.right_neutral zero_neq_numeral, metis mod_mult_self4 mod_less)
qed

text \<open>
  What a successful write of \<open>buf\<close> at \<open>p\<close> leaves: the bytes written, and every other byte of the blocks the file had.
\<close>

definition wrote :: "filep \<Rightarrow> nat \<Rightarrow> u8 list \<Rightarrow> fs \<Rightarrow> fs \<Rightarrow> bool" where
  "wrote f p buf s s' \<longleftrightarrow> file_wf s' f \<and> f_size s' f = f_size s f \<and>
     (\<forall>j\<le>1034. ptr s f j \<noteq> 0 \<longrightarrow> ptr s' f j = ptr s f j) \<and>
     (\<forall>i<length buf. ptr s' f ((p + i) div 4096) \<noteq> 0 \<and> file_byte s' f (p + i) = buf ! i) \<and>
     (\<forall>q. q < 1034 * 4096 \<longrightarrow> ptr s f (q div 4096) \<noteq> 0 \<longrightarrow> q < p \<or> p + length buf \<le> q \<longrightarrow>
        file_byte s' f q = file_byte s f q)"

lemma wrote_nothing: "file_wf s f \<Longrightarrow> wrote f p [] s s"
  by (simp add: wrote_def)

lemma wrote_append:
  assumes a: "wrote f p xs s s1" and b: "wrote f (p + length xs) ys s1 s2"
    and l: "p + length xs + length ys \<le> 1034 * 4096"
  shows "wrote f p (xs @ ys) s s2"
proof -
  have dv: "q div 4096 \<le> 1034" if "q < 1034 * 4096" for q :: nat using that by (simp add: less_mult_imp_div_less less_imp_le)
  have keep: "ptr s2 f j = ptr s f j" if "j \<le> 1034" "ptr s f j \<noteq> 0" for j
    using a b that unfolding wrote_def by metis
  have other: "file_byte s2 f q = file_byte s f q"
    if "q < 1034 * 4096" "ptr s f (q div 4096) \<noteq> 0" "q < p \<or> p + length (xs @ ys) \<le> q" for q
  proof -
    have q: "q < p \<or> p + length xs \<le> q" "q < p + length xs \<or> p + length xs + length ys \<le> q" using that(3) by auto
    have "file_byte s1 f q = file_byte s f q" using a that q(1) unfolding wrote_def by blast
    moreover have "ptr s1 f (q div 4096) \<noteq> 0" using a that(2) dv [OF that(1)] unfolding wrote_def by metis
    then have "file_byte s2 f q = file_byte s1 f q" using b that(1) q(2) unfolding wrote_def by blast
    ultimately show ?thesis by simp
  qed
  have new: "ptr s2 f ((p + i) div 4096) \<noteq> 0 \<and> file_byte s2 f (p + i) = (xs @ ys) ! i" if i: "i < length (xs @ ys)" for i
  proof (cases "i < length xs")
    case True
    then have q: "p + i < 1034 * 4096" "p + i < p + length xs" using l by linarith+
    have "ptr s1 f ((p + i) div 4096) \<noteq> 0" "file_byte s1 f (p + i) = xs ! i" using a True unfolding wrote_def by blast+
    moreover from this(1) have "ptr s2 f ((p + i) div 4096) = ptr s1 f ((p + i) div 4096)"
      "file_byte s2 f (p + i) = file_byte s1 f (p + i)"
      using b q dv [OF q(1)] unfolding wrote_def by blast+
    ultimately show ?thesis using True by (simp add: nth_append)
  next
    case False
    then obtain j where j: "i = length xs + j" using le_Suc_ex [of "length xs" i] by auto
    with i have "j < length ys" by simp
    then have "ptr s2 f ((p + length xs + j) div 4096) \<noteq> 0 \<and> file_byte s2 f (p + length xs + j) = ys ! j"
      using b unfolding wrote_def by blast
    then show ?thesis using False unfolding j by (simp add: nth_append add.assoc)
  qed
  show ?thesis using a b keep other new unfolding wrote_def by simp
qed

lemma wrote_chunk:
  assumes k: "file_keeps f s t" and n: "p < 1034 * 4096" "ptr t f (p div 4096) \<noteq> 0"
    and l: "p mod 4096 + length vs \<le> 4096"
  shows "wrote f p vs s (put_bytes (ptr t f (p div 4096)) (int (p mod 4096)) vs t)"
proof -
  let ?b = "ptr t f (p div 4096)"
  let ?t = "put_bytes ?b (int (p mod 4096)) vs t"
  have wf: "file_wf t f" using k by (simp add: file_keeps_def)
  have dv: "q div 4096 < 1034" if "q < 1034 * 4096" for q :: nat using that by (simp add: less_mult_imp_div_less)
  note pn = dv [OF n(1)]
  note wfd = file_wfD(6,8) [OF wf less_imp_le [OF pn] n(2)]
  have ind: "?b \<noteq> f_indirect t f"
    using file_wfD(9) [OF wf less_imp_le [OF pn] n(2), of 1034] pn unfolding ptr_indirect by auto
  note mem = put_bytes_mem [OF l]
  have oth: "fs_mem ?t c = fs_mem t c" if "c \<noteq> ?b" for c using that by (auto simp: mem fun_eq_iff)
  have d: "file_wf ?t f" "ptr ?t f = ptr t f" "f_size ?t f = f_size t f"
    by (rule file_wf_data [OF wf wfd(1,2) ind]; simp add: oth)+
  have new: "file_byte ?t f (p + i) = vs ! i \<and> ptr ?t f ((p + i) div 4096) \<noteq> 0" if "i < length vs" for i
    using same_block [OF l that] that n(2) by (simp add: file_byte_def d(2) mem)
  have "file_byte ?t f q = file_byte s f q"
    if q: "q < 1034 * 4096" "ptr s f (q div 4096) \<noteq> 0" "q < p \<or> p + length vs \<le> q" for q
  proof -
    have e: "ptr t f (q div 4096) = ptr s f (q div 4096)"
      "fs_mem t (ptr s f (q div 4096)) = fs_mem s (ptr s f (q div 4096))"
      using k q(2) dv [OF q(1)] unfolding file_keeps_def by auto
    have "fs_mem ?t (ptr t f (q div 4096)) (q mod 4096) = fs_mem t (ptr t f (q div 4096)) (q mod 4096)"
    proof (cases "ptr t f (q div 4096) = ?b")
      case True
      then have "q div 4096 = p div 4096"
        using file_wfD(9) [OF wf less_imp_le [OF pn] n(2), of "q div 4096"] dv [OF q(1)] by simp
      then have "q mod 4096 < p mod 4096 \<or> p mod 4096 + length vs \<le> q mod 4096"
        using q(3) mult_div_mod_eq [of 4096 p] mult_div_mod_eq [of 4096 q] by linarith
      then show ?thesis by (auto simp: mem)
    next
      case False
      then show ?thesis by (simp add: oth)
    qed
    then show ?thesis unfolding file_byte_def d(2) e by simp
  qed
  then show ?thesis unfolding wrote_def using d k new unfolding file_keeps_def by simp
qed

lemma get_block_present:
  assumes wf: "file_wf s f" and n: "n < 1034" "ptr s f n \<noteq> 0"
  shows "file_get_block f n s = Some (Inr (ptr s f n), s)"
proof -
  have ind: "n < 10 \<or> f_indirect s f \<noteq> 0" using n by (auto simp: ptr_def split: if_splits)
  then have p: "ptr s f n = unat (disk_word s (slot s f n))" using n by (auto simp: ptr_def)
  have "block_addr (ptr s f n) s = Some (ptr s f n)"
    using file_wfD(6) [OF wf _ n(2)] n(1) by (intro block_addr_ok) simp
  moreover have "disk_word s (slot s f n) \<noteq> 0" using n(2) p by auto
  moreover have "file_block_walk f n True s = Some (Inr (slot s f n), s)"
  proof (cases "n < 10")
    case True
    then show ?thesis by (simp add: file_block_walk_def NDIRECT_def slot_def)
  next
    case False
    then have "f_indirect s f \<noteq> 0" using ind by simp
    moreover from this have "block_addr (f_indirect s f) s = Some (f_indirect s f)"
      using file_wfD(6) [OF wf, of 1034] by (intro block_addr_ok) (simp add: ptr_indirect)
    ultimately show ?thesis using False n(1)
      by (simp add: file_block_walk_def NDIRECT_def NINDIRECT_def slot_def)
  qed
  ultimately show ?thesis using p by (simp add: file_get_block_def)
qed

text \<open>One round of the loops: from \<open>pos\<close> to the end of its block or of the range.\<close>

lemma chunk_round:
  assumes "unat pos < unat endp" "unat endp \<le> 1034 * 4096"
  obtains m where "unat (chunk_len pos endp) = m" "0 < m" "unat pos mod 4096 + m \<le> 4096" "unat pos + m \<le> unat endp"
    "unat (pos + chunk_len pos endp) = unat pos + m" "chunk_block pos = unat pos div 4096"
    "chunk_off pos = int (unat pos mod 4096)" "unat pos div 4096 < 1034"
proof -
  have lt: "unat endp < 2147483648" "unat pos < 2147483648" using assms by linarith+
  have m: "unat (chunk_len pos endp) = min (4096 - unat pos mod 4096) (unat endp - unat pos)"
    by (rule chunk_len_nat [OF assms(1) lt(1)])
  have md: "unat pos mod 4096 < 4096" by simp
  have b: "0 < unat (chunk_len pos endp)" "unat pos mod 4096 + unat (chunk_len pos endp) \<le> 4096"
    "unat pos + unat (chunk_len pos endp) \<le> unat endp"
    unfolding m using md assms(1) by linarith+
  moreover have "unat (pos + chunk_len pos endp) = unat pos + unat (chunk_len pos endp)"
    using b(3) lt(1) by (intro unat_add_no_wrap) simp
  moreover have "unat pos div 4096 < 1034" using assms by (simp add: less_mult_imp_div_less)
  ultimately show thesis using that [OF refl] chunk_block_nat [OF lt(2)] chunk_off_nat [OF lt(2)] by blast
qed

lemma write_loop_ok:
  "file_wf s f \<Longrightarrow> unat endp \<le> 1034 * 4096 \<Longrightarrow> unat pos + length buf = unat endp \<Longrightarrow> length buf \<le> fuel \<Longrightarrow>
   \<exists>r s'. write_loop fuel f pos endp buf s = Some (r, s') \<and>
     (r = Inl E_NO_DISK \<and> disk_full s' \<or> r = Inr () \<and> wrote f (unat pos) buf s s')"
proof (induction fuel arbitrary: pos buf s)
  case 0
  then have "\<not> pos < endp" "buf = []" by (simp_all add: word_less_nat_alt)
  then show ?case using wrote_nothing [OF 0(1)] by (simp add: write_loop.simps)
next
  case (Suc n)
  show ?case
  proof (cases "buf = []")
    case True
    then have "\<not> pos < endp" using Suc.prems(3) by (simp add: word_less_nat_alt)
    then show ?thesis using True wrote_nothing [OF Suc.prems(1)] by (simp add: write_loop.simps)
  next
    case False
    then have l: "unat pos < unat endp" using Suc.prems(3) by (cases buf) simp_all
    from chunk_round [OF l Suc.prems(2)] obtain m where m: "unat (chunk_len pos endp) = m" "0 < m"
      "unat pos mod 4096 + m \<le> 4096" "unat pos + m \<le> unat endp" "unat (pos + chunk_len pos endp) = unat pos + m"
      "chunk_block pos = unat pos div 4096" "chunk_off pos = int (unat pos mod 4096)" "unat pos div 4096 < 1034"
      by blast
    obtain r t where g: "file_get_block f (unat pos div 4096) s = Some (r, t)"
      "r = Inl E_NO_DISK \<and> disk_full t \<or> r = Inr (ptr t f (unat pos div 4096)) \<and> ptr t f (unat pos div 4096) \<noteq> 0 \<and> file_keeps f s t"
      using get_block_ok [OF Suc.prems(1) m(8)] by blast
    have lt: "pos < endp" using l by (simp add: word_less_nat_alt)
    show ?thesis
    proof (cases "r = Inl E_NO_DISK")
      case True
      with g lt m(6) show ?thesis by (simp add: write_loop.simps)
    next
      case False
      let ?b = "ptr t f (unat pos div 4096)" and ?xs = "take m buf" and ?ys = "drop m buf"
      let ?t = "put_bytes ?b (int (unat pos mod 4096)) ?xs t"
      have g': "r = Inr ?b" "?b \<noteq> 0" "file_keeps f s t" using g(2) False by auto
      have len: "length ?xs = m" "m \<le> length buf" using m(4) Suc.prems(3) by simp_all
      have w1: "wrote f (unat pos) ?xs s ?t"
        using l Suc.prems(2) m(3) len(1) by (intro wrote_chunk [OF g'(3) _ g'(2)]) simp_all
      then have wf: "file_wf ?t f" by (simp add: wrote_def)
      have "unat (pos + chunk_len pos endp) + length ?ys = unat endp" "length ?ys \<le> n"
        using m(2,5) len(2) Suc.prems(3,4) by simp_all
      from Suc.IH [OF wf Suc.prems(2) this] obtain r' s' where
        w: "write_loop n f (pos + chunk_len pos endp) endp ?ys ?t = Some (r', s')"
          "r' = Inl E_NO_DISK \<and> disk_full s' \<or> r' = Inr () \<and> wrote f (unat pos + m) ?ys ?t s'"
        unfolding m(5) by blast
      have e: "write_loop (Suc n) f pos endp buf s = Some (r', s')"
        using lt g(1) g'(1) w(1) m(1,6,7) by (subst write_loop.simps) (simp add: Let_def)
      have "wrote f (unat pos) buf s s'" if "r' \<noteq> Inl E_NO_DISK"
        using wrote_append [OF w1, of ?ys s'] w(2) that len Suc.prems(2,3) by simp
      with e w(2) show ?thesis by blast
    qed
  qed
qed

lemma read_loop_ok:
  "file_wf s f \<Longrightarrow> unat endp \<le> 1034 * 4096 \<Longrightarrow> unat pos \<le> unat endp \<Longrightarrow> unat endp - unat pos \<le> fuel \<Longrightarrow>
   (\<forall>q. unat pos \<le> q \<longrightarrow> q < unat endp \<longrightarrow> ptr s f (q div 4096) \<noteq> 0) \<Longrightarrow>
   read_loop fuel f pos endp buf s = Some (Inr (), buf @ map (file_byte s f) [unat pos..<unat endp], s)"
proof (induction fuel arbitrary: pos buf)
  case 0
  then have "\<not> pos < endp" "unat pos = unat endp" by (simp_all add: word_less_nat_alt)
  then show ?case by (simp add: read_loop.simps)
next
  case (Suc n)
  show ?case
  proof (cases "unat pos < unat endp")
    case False
    then have "\<not> pos < endp" by (simp add: word_less_nat_alt)
    then show ?thesis using False Suc.prems(3) by (simp add: read_loop.simps)
  next
    case l: True
    from chunk_round [OF l Suc.prems(2)] obtain m where m: "unat (chunk_len pos endp) = m" "0 < m"
      "unat pos mod 4096 + m \<le> 4096" "unat pos + m \<le> unat endp" "unat (pos + chunk_len pos endp) = unat pos + m"
      "chunk_block pos = unat pos div 4096" "chunk_off pos = int (unat pos mod 4096)" "unat pos div 4096 < 1034"
      by blast
    let ?b = "ptr s f (unat pos div 4096)"
    have b: "?b \<noteq> 0" using Suc.prems(5) l by blast
    note g = get_block_present [OF Suc.prems(1) m(8) b]
    have "disk_bytes s ?b (int (unat pos mod 4096)) m = map (file_byte s f) [unat pos..<unat pos + m]"
    proof (rule nth_equalityI)
      fix i assume "i < length (disk_bytes s ?b (int (unat pos mod 4096)) m)"
      then have i: "i < m" by (simp add: disk_bytes_block [OF m(3)])
      with same_block [OF m(3) i] show "disk_bytes s ?b (int (unat pos mod 4096)) m ! i =
          map (file_byte s f) [unat pos..<unat pos + m] ! i"
        by (simp add: disk_bytes_block [OF m(3)] file_byte_def)
    qed (simp add: disk_bytes_block [OF m(3)])
    moreover have "read_loop n f (pos + chunk_len pos endp) endp (buf @ map (file_byte s f) [unat pos..<unat pos + m]) s =
        Some (Inr (), (buf @ map (file_byte s f) [unat pos..<unat pos + m]) @ map (file_byte s f) [unat pos + m..<unat endp], s)"
      unfolding m(5) [symmetric] using m(2,4,5) Suc.prems by (intro Suc.IH) simp_all
    moreover have "[unat pos..<unat endp] = [unat pos..<unat pos + m] @ [unat pos + m..<unat endp]"
      using upt_add_eq_append [of "unat pos" "unat pos + m" "unat endp - (unat pos + m)"] m(4) by simp
    ultimately show ?thesis
      using l g m(1,6,7) by (subst read_loop.simps) (simp add: Let_def word_less_nat_alt)
  qed
qed

section \<open>Writing and reading back\<close>

lemma file_flush_word [simp]: "f_indirect (flush_block b s) f = f_indirect s f" "f_size (flush_block b s) f = f_size s f"
  by (simp_all add: f_indirect_def f_size_def)

lemma ptr_flush [simp]: "ptr (flush_block b s) f = ptr s f"
  by (rule ext) (simp add: ptr_def slot_def)

lemma file_wf_flush [simp]: "file_wf (flush_block b s) f = file_wf s f"
  by (simp add: file_wf_def data_area_def)

lemma fs_mem_flush [simp]: "fs_mem (flush_block b s) = fs_mem s"
  by (simp add: flush_block_def)

lemma set_size_ok:
  assumes wf: "file_wf s f" and v: "unat v \<le> 1034 * 4096"
  shows "file_wf (set_disk_word (f_size_at f) v s) f" "ptr (set_disk_word (f_size_at f) v s) f = ptr s f"
    "f_size (set_disk_word (f_size_at f) v s) f = v"
    "b \<noteq> fst f \<Longrightarrow> fs_mem (set_disk_word (f_size_at f) v s) b = fs_mem s b"
proof -
  let ?t = "set_disk_word (f_size_at f) v s"
  have w: "disk_word ?t a = disk_word s a" if "fst a \<noteq> fst f \<or> snd f + 132 \<le> snd a \<or> snd a + 4 \<le> snd f + 128" for a
    using that by (intro disk_word_set_other) (auto simp: f_size_at_def)
  have mem: "fs_mem ?t b = fs_mem s b" if "b \<noteq> fst f" for b
    using that by (simp add: set_disk_word_def upd_mem_def f_size_at_def)
  then show "b \<noteq> fst f \<Longrightarrow> fs_mem ?t b = fs_mem s b" .
  have "fst f = 1 \<Longrightarrow> 8 \<le> snd f" using file_wfD(2) [OF wf] data_area_apart [of s 1] by auto
  then have n: "s_nblocks ?t = s_nblocks s" unfolding s_nblocks_def by (subst w) auto
  have fr: "block_is_free c ?t = block_is_free c s" for c
    using file_wfD(2) [OF wf] data_area_apart [of s "fst f"] by (intro block_is_free_cong n mem) auto
  have i: "f_indirect ?t f = f_indirect s f" by (simp add: f_indirect_def w f_indirect_at_def)
  have "f_indirect s f \<noteq> 0 \<Longrightarrow> f_indirect s f \<noteq> fst f"
    using file_wfD(8) [OF wf, of 1034] unfolding ptr_indirect by simp
  then show p: "ptr ?t f = ptr s f"
    by (intro ext) (simp add: ptr_def slot_def i w f_direct_at_def f_indirect_at_def)
  show sz: "f_size ?t f = v" by (simp add: f_size_def)
  show "file_wf ?t f" using wf v unfolding file_wf_def data_area_def p n fr sz by blast
qed

lemma file_byte_keep:
  assumes wf: "file_wf s f" and p: "ptr t f = ptr s f" and m: "\<And>b. b \<noteq> fst f \<Longrightarrow> fs_mem t b = fs_mem s b"
    and q: "q < 1034 * 4096" "ptr s f (q div 4096) \<noteq> 0"
  shows "file_byte t f q = file_byte s f q"
proof -
  have "q div 4096 \<le> 1034" using q(1) by (simp add: less_mult_imp_div_less less_imp_le)
  from file_wfD(8) [OF wf this q(2)] m show ?thesis by (simp add: file_byte_def p)
qed

lemma read_written:
  assumes w: "wrote f (unat off) buf t s" and z: "unat off + length buf \<le> unat (f_size s f)"
    and n: "unat n = length buf" "unat (off + n) = unat off + length buf"
  shows "file_read f n off s = Some (Inr n, buf, s)"
proof -
  have wf: "file_wf s f" and bt: "\<And>i. i < length buf \<Longrightarrow> ptr s f ((unat off + i) div 4096) \<noteq> 0"
    "\<And>i. i < length buf \<Longrightarrow> file_byte s f (unat off + i) = buf ! i"
    using w unfolding wrote_def by blast+
  note sz = file_wfD(5) [OF wf]
  have b: "unat (f_size s f) < 2147483648" "unat off < 2147483648" using sz z by linarith+
  show ?thesis
  proof (cases "unat off \<ge> unat (f_size s f)")
    case True
    then have "length buf = 0" using z by linarith
    then have "buf = []" "n = 0" using n(1) by (simp_all add: unat_eq_zero)
    then show ?thesis using True by (simp add: file_read_def sint_le_small [OF b])
  next
    case False
    then have "off \<le> f_size s f" by (simp add: word_le_nat_alt)
    then have "unat (f_size s f - off) = unat (f_size s f) - unat off" by (rule unat_sub)
    moreover have "length buf \<le> unat (f_size s f) - unat off" using z by linarith
    ultimately have m: "min n (f_size s f - off) = n" using n(1) by (simp add: min_def word_le_nat_alt)
    have "map (file_byte s f) [unat off..<unat off + length buf] = buf"
      using bt(2) by (intro nth_equalityI) simp_all
    moreover have "ptr s f (q div 4096) \<noteq> 0" if "unat off \<le> q" "q < unat off + length buf" for q
      using bt(1) [of "q - unat off"] that by simp
    ultimately have "read_loop (length buf) f off (off + n) [] s = Some (Inr (), buf, s)"
      using read_loop_ok [OF wf, of "off + n" off "length buf" "[]"] n z sz by simp
    then show ?thesis using False m n(1) by (simp add: file_read_def Let_def sint_le_small [OF b])
  qed
qed

text \<open>
  C28: \<open>file_write\<close> to a file that satisfies the invariant, within the largest file size, never panics. It reports a full
  disk, and then no block is free, or stores every byte: the size grows to the end of the data if it was smaller, \<open>file_read\<close> of the range returns the
  data and changes nothing, and all other bytes of the file's blocks are kept. In the successful case the invariant holds again.
\<close>

theorem file_write_reads_back:
  assumes wf: "file_wf s f" and l: "unat off + length buf \<le> 1034 * 4096"
  shows "\<exists>r s'. file_write f buf off s = Some (r, s') \<and>
    (r = Inl E_NO_DISK \<and> disk_full s' \<or>
     r = Inr (word_of_nat (length buf)) \<and> file_wf s' f \<and>
     unat (f_size s' f) = max (unat (f_size s f)) (unat off + length buf) \<and>
     file_read f (word_of_nat (length buf)) off s' = Some (Inr (word_of_nat (length buf)), buf, s') \<and>
     (\<forall>q. q < 1034 * 4096 \<longrightarrow> ptr s f (q div 4096) \<noteq> 0 \<longrightarrow> q < unat off \<or> unat off + length buf \<le> q \<longrightarrow>
        file_byte s' f q = file_byte s f q))"
proof -
  let ?n = "word_of_nat (length buf) :: u32"
  have un: "unat ?n = length buf" using l by (intro unat_of_nat_lt) simp
  have e: "unat (off + ?n) = unat off + length buf"
    using l by (subst unat_add_no_wrap) (simp_all add: un)
  have sz: "unat (f_size s f) \<le> 1034 * 4096" by (rule file_wfD(5) [OF wf])
  obtain t where t: "(if off + ?n > f_size s f then file_set_size f (off + ?n) s else Some s) = Some t"
    "file_wf t f" "ptr t f = ptr s f" "unat (f_size t f) = max (unat (f_size s f)) (unat off + length buf)"
    "\<And>b. b \<noteq> fst f \<Longrightarrow> fs_mem t b = fs_mem s b"
  proof (cases "off + ?n > f_size s f")
    case True
    have b: "unat (f_size s f) < 2147483648" "unat (off + ?n) < 2147483648" using sz e l by linarith+
    have "\<not> sint (f_size s f) > sint (off + ?n)"
      unfolding not_less sint_le_small [OF b] using True unfolding word_less_nat_alt by linarith
    then have "file_set_size f (off + ?n) s = Some (flush_block (fst f) (set_disk_word (f_size_at f) (off + ?n) s))"
      by (simp add: file_set_size_def)
    moreover have "unat (off + ?n) \<le> 1034 * 4096" using l e by simp
    note so = set_size_ok [OF wf this]
    ultimately show thesis
      using True so e by (intro that [of "flush_block (fst f) (set_disk_word (f_size_at f) (off + ?n) s)"])
        (simp_all add: word_less_nat_alt max_def)
  next
    case False
    then show thesis using wf e by (intro that [of s]) (simp_all add: word_less_nat_alt max_def)
  qed
  have h: "unat (off + ?n) \<le> 1034 * 4096" "unat off + length buf = unat (off + ?n)" using e l by simp_all
  obtain r s' where w: "write_loop (length buf) f off (off + ?n) buf t = Some (r, s')"
    "r = Inl E_NO_DISK \<and> disk_full s' \<or> r = Inr () \<and> wrote f (unat off) buf t s'"
    using write_loop_ok [OF t(2) h le_refl] by blast
  have fw: "file_write f buf off s = Some (map_sum id (\<lambda>_. ?n) r, s')"
    using t(1) w(1) by (simp add: file_write_def Let_def)
  show ?thesis
  proof (cases "r = Inl E_NO_DISK")
    case True
    with w(2) fw show ?thesis by simp
  next
    case False
    with w(2) have r: "r = Inr ()" and wr: "wrote f (unat off) buf t s'" by auto
    have s': "file_wf s' f" "f_size s' f = f_size t f" using wr by (simp_all add: wrote_def)
    have old: "file_byte s' f q = file_byte s f q"
      if "q < 1034 * 4096" "ptr s f (q div 4096) \<noteq> 0" "q < unat off \<or> unat off + length buf \<le> q" for q
      using wr that file_byte_keep [OF wf t(3,5) that(1,2)] t(3) unfolding wrote_def by metis
    have rd: "file_read f ?n off s' = Some (Inr ?n, buf, s')"
      using wr t(4) l e un s'(2) by (intro read_written) simp_all
    show ?thesis using fw r s' t(4) old rd by auto
  qed
qed

lemma small_image_file:
  assumes m: "fs_mem s = small_image"
  shows "file_wf s (1, 8)"
proof -
  note fr = small_image_free(2,3) [OF m]
  have z: "disk_word s (1, a) = 0" if "8 \<le> a" for a
    unfolding disk_word_def m small_image_def using that
    by (subst get_put32_other, simp)+ (simp add: get32_def join32_def)
  have i: "f_indirect s (1, 8) = 0" using z [of 184] by (simp add: f_indirect_def f_indirect_at_def)
  have "ptr s (1, 8) k = 0" for k
    using z [of "144 + 4 * k"] z [of 184] by (auto simp: ptr_def slot_def i [unfolded One_nat_def] f_direct_at_def f_indirect_at_def)
  moreover have "f_size s (1, 8) = 0" using z [of 136] by (simp add: f_size_def f_size_at_def)
  ultimately show ?thesis by (simp add: file_wf_def data_area_def fr)
qed

theorem file_write_reads_back_witness:
  "\<exists>r s'. file_write (1, 8) [1, 2, 3] 5 \<lparr>fs_mem = small_image, fs_disk = small_image\<rparr> = Some (r, s') \<and>
     (r = Inl E_NO_DISK \<and> disk_full s' \<or> r = Inr 3 \<and> file_read (1, 8) 3 5 s' = Some (Inr 3, [1, 2, 3], s'))"
proof -
  have "file_wf \<lparr>fs_mem = small_image, fs_disk = small_image\<rparr> (1, 8)" by (rule small_image_file) simp
  moreover have "unat (5 :: u32) + length [1 :: u8, 2, 3] \<le> 1034 * 4096" by simp
  ultimately obtain r s' where
    "file_write (1, 8) [1, 2, 3] 5 \<lparr>fs_mem = small_image, fs_disk = small_image\<rparr> = Some (r, s')"
    "r = Inl E_NO_DISK \<and> disk_full s' \<or> r = Inr (word_of_nat (length [1 :: u8, 2, 3])) \<and>
       file_read (1, 8) (word_of_nat (length [1 :: u8, 2, 3])) 5 s' =
         Some (Inr (word_of_nat (length [1 :: u8, 2, 3])), [1, 2, 3], s')"
    using file_write_reads_back [of "\<lparr>fs_mem = small_image, fs_disk = small_image\<rparr>" "(1, 8)" 5 "[1, 2, 3]"]
    by blast
  then show ?thesis by (intro exI [of _ r] exI [of _ s']) (simp add: numeral_3_eq_3)
qed

end
