(* ===== verification/Fs_Server.thy ===== *)
theory Fs_Server
  imports Fs_Rw
begin

text \<open>
  The requests of the file server, \<^verbatim>\<open>fs/serv.c\<close>: the table of open files, whose entries point to a file
  structure on the disk and to a page with the \<open>struct Fd\<close> that is shared with the clients, and the handlers.
  The reference counts of these pages and the kernel's answer to \<open>sys_page_alloc\<close> are given. A request is the page
  that came with it; handlers that run off its end, into the mapped disk which follows it, end in
  \<open>Overran\<close>.
\<close>

section \<open>Open files\<close>

record fd =
  fd_dev_id :: u32
  fd_offset :: u32
  fd_omode :: u32
  fd_file_id :: u32

record open_file =
  o_fileid :: u32
  o_file :: filep
  o_mode :: u32
  o_fd :: u32

record server =
  srv_fs :: fs
  opentab :: "nat \<Rightarrow> open_file"
  srv_fd :: "u32 \<Rightarrow> fd"
  srv_ref :: "u32 \<Rightarrow> nat"

definition MAXOPEN :: nat where "MAXOPEN = 1024"
definition FILEVA :: u32 where "FILEVA = 0xD0000000"
definition O_ACCMODE :: u32 where "O_ACCMODE = 3"
definition O_CREAT :: u32 where "O_CREAT = 0x100"
definition O_TRUNC :: u32 where "O_TRUNC = 0x200"
definition O_EXCL :: u32 where "O_EXCL = 0x400"
definition MAXPATHLEN :: nat where "MAXPATHLEN = 1024"
definition devfile_id :: u32 where "devfile_id = 102"

definition zero_fd :: fd where
  "zero_fd = \<lparr>fd_dev_id = 0, fd_offset = 0, fd_omode = 0, fd_file_id = 0\<rparr>"

definition upd_open :: "nat \<Rightarrow> (open_file \<Rightarrow> open_file) \<Rightarrow> server \<Rightarrow> server" where
  "upd_open i f st = st\<lparr>opentab := (opentab st)(i := f (opentab st i))\<rparr>"

definition upd_fd :: "u32 \<Rightarrow> (fd \<Rightarrow> fd) \<Rightarrow> server \<Rightarrow> server" where
  "upd_fd va f st = st\<lparr>srv_fd := (srv_fd st)(va := f (srv_fd st va))\<rparr>"

definition set_fs :: "fs \<Rightarrow> server \<Rightarrow> server" where
  "set_fs s st = st\<lparr>srv_fs := s\<rparr>"

definition serve_init :: "server \<Rightarrow> server" where
  "serve_init st = fold (\<lambda>i. upd_open i (\<lambda>o'. o'\<lparr>o_fileid := word_of_nat i, o_fd := FILEVA + word_of_nat (4096 * i)\<rparr>))
     [0..<MAXOPEN] st"

text \<open>The result is the entry taken and what \<open>openfile_alloc\<close> returns as an \<open>int\<close>.\<close>

definition openfile_alloc :: "jos_error + unit \<Rightarrow> server \<Rightarrow> (jos_error + nat \<times> u32) \<times> server" where
  "openfile_alloc answer st =
    (case find (\<lambda>i. srv_ref st (o_fd (opentab st i)) \<le> 1) [0..<MAXOPEN] of
       None \<Rightarrow> (Inl E_MAX_OPEN, st)
     | Some i \<Rightarrow>
         let va = o_fd (opentab st i);
             taken = (\<lambda>st. let st = upd_open i (\<lambda>o'. o'\<lparr>o_fileid := o_fileid o' + word_of_nat MAXOPEN\<rparr>) st;
                           st = upd_fd va (\<lambda>_. zero_fd) st
                       in (Inr (i, o_fileid (opentab st i)), st))
         in if srv_ref st va = 0
            then case answer of
                Inl err \<Rightarrow> (Inl err, st)
              | Inr _ \<Rightarrow> taken (st\<lparr>srv_ref := (srv_ref st)(va := 1)\<rparr>)
            else taken st)"

definition openfile_lookup :: "u32 \<Rightarrow> server \<Rightarrow> nat option" where
  "openfile_lookup fileid st =
    (let i = unat (fileid mod word_of_nat MAXOPEN); o' = opentab st i
     in if srv_ref st (o_fd o') \<le> 1 \<or> o_fileid o' \<noteq> fileid then None else Some i)"

section \<open>Handlers\<close>

type_synonym page = "nat \<Rightarrow> u8"

datatype 'a served = Served 'a | Overran | Panicked

definition served_bind :: "'a option \<Rightarrow> ('a \<Rightarrow> 'b served) \<Rightarrow> 'b served" where
  "served_bind x f = (case x of None \<Rightarrow> Panicked | Some v \<Rightarrow> f v)"

definition req_word :: "page \<Rightarrow> nat \<Rightarrow> u32" where
  "req_word p i = join32 (p i) (p (i + 1)) (p (i + 2)) (p (i + 3))"

text \<open>The path: a string in the first 1024 bytes, cut off at the last of them.\<close>

definition req_path :: "page \<Rightarrow> u8 list" where
  "req_path p = takeWhile (\<lambda>c. c \<noteq> 0) (map p [0..<MAXPATHLEN - 1])"

definition open_or_create :: "u8 list \<Rightarrow> u32 \<Rightarrow> fs \<Rightarrow> ((jos_error + filep) \<times> fs) option" where
  "open_or_create path omode s =
    (if omode AND O_CREAT \<noteq> 0 then
       case file_create path s of
         None \<Rightarrow> None
       | Some (Inl err, s) \<Rightarrow>
           if omode AND O_EXCL = 0 \<and> err = E_FILE_EXISTS then file_open path s else Some (Inl err, s)
       | Some (Inr f, s) \<Rightarrow> Some (Inr f, s)
     else file_open path s)"

text \<open>
  A successful open gives the page to map in the client. An error is returned as a number that is negative as an
  \<open>int\<close>, as is a file id of \<open>openfile_alloc\<close> that has become negative.
\<close>

definition serve_open :: "jos_error + unit \<Rightarrow> page \<Rightarrow> server \<Rightarrow> ((jos_error + u32 \<times> u32 option) \<times> server) served" where
  "serve_open answer req st =
    (let path = req_path req; omode = req_word req MAXPATHLEN
     in case openfile_alloc answer st of
          (Inl err, st) \<Rightarrow> Served (Inl err, st)
        | (Inr (i, fileid), st) \<Rightarrow>
            if sint fileid < 0 then Served (Inr (fileid, None), st)
            else served_bind (open_or_create path omode (srv_fs st)) (\<lambda>(r, s).
              case r of
                Inl err \<Rightarrow> Served (Inl err, set_fs s st)
              | Inr f \<Rightarrow>
                  served_bind (if omode AND O_TRUNC \<noteq> 0 then file_set_size f 0 s else Some s) (\<lambda>s.
                  served_bind (file_open path s) (\<lambda>(r, s).
                  case r of
                    Inl err \<Rightarrow> Served (Inl err, set_fs s st)
                  | Inr f \<Rightarrow>
                      let va = o_fd (opentab st i);
                          st = upd_open i (\<lambda>o'. o'\<lparr>o_file := f\<rparr>) (set_fs s st);
                          st = upd_fd va (\<lambda>d. d\<lparr>fd_file_id := o_fileid (opentab st i),
                                 fd_omode := omode AND O_ACCMODE, fd_dev_id := devfile_id\<rparr>) st;
                          st = upd_open i (\<lambda>o'. o'\<lparr>o_mode := omode\<rparr>) st
                      in Served (Inr (0, Some va), st)))))"

definition serve_set_size :: "page \<Rightarrow> server \<Rightarrow> ((jos_error + u32) \<times> server) served" where
  "serve_set_size req st =
    (case openfile_lookup (req_word req 0) st of
       None \<Rightarrow> Served (Inl E_INVAL, st)
     | Some i \<Rightarrow> served_bind (file_set_size (o_file (opentab st i)) (req_word req 4) (srv_fs st))
         (\<lambda>s. Served (Inr 0, set_fs s st)))"

definition put_page :: "nat \<Rightarrow> u8 list \<Rightarrow> page \<Rightarrow> page" where
  "put_page off bs p = (\<lambda>i. if off \<le> i \<and> i < off + length bs then bs ! (i - off) else p i)"

definition serve_read :: "page \<Rightarrow> server \<Rightarrow> ((jos_error + u32) \<times> page \<times> server) served" where
  "serve_read req st =
    (case openfile_lookup (req_word req 0) st of
       None \<Rightarrow> Served (Inl E_INVAL, req, st)
     | Some i \<Rightarrow>
         let o' = opentab st i
         in served_bind (file_read (o_file o') (req_word req 4) (fd_offset (srv_fd st (o_fd o'))) (srv_fs st)) (\<lambda>(r, bs, s).
            if length bs > 4096 then Overran
            else let ret = put_page 0 bs req; st = set_fs s st
                 in case r of
                      Inl err \<Rightarrow> Served (Inl err, ret, st)
                    | Inr n \<Rightarrow>
                        if sint n < 0 then Served (Inr n, ret, st)
                        else Served (Inr n, ret, upd_fd (o_fd o') (\<lambda>d. d\<lparr>fd_offset := fd_offset d + n\<rparr>) st)))"

text \<open>A request to write more than the page holds would take what follows it, and is not followed further.\<close>

definition serve_write :: "page \<Rightarrow> server \<Rightarrow> ((jos_error + u32) \<times> server) served" where
  "serve_write req st =
    (case openfile_lookup (req_word req 0) st of
       None \<Rightarrow> Served (Inl E_INVAL, st)
     | Some i \<Rightarrow>
         let o' = opentab st i; n = unat (req_word req 4)
         in if n > 4096 - 8 then Overran
            else served_bind (file_write (o_file o') (map (\<lambda>j. req (8 + j)) [0..<n]) (fd_offset (srv_fd st (o_fd o')))
                    (srv_fs st)) (\<lambda>(r, s).
              case r of
                Inl err \<Rightarrow> Served (Inl err, set_fs s st)
              | Inr n \<Rightarrow> Served (Inr n, upd_fd (o_fd o') (\<lambda>d. d\<lparr>fd_offset := fd_offset d + n\<rparr>) (set_fs s st))))"

text \<open>\<open>strcpy\<close> of the name: a name without a terminator in its block is not followed.\<close>

definition file_name :: "fs \<Rightarrow> filep \<Rightarrow> u8 list option" where
  "file_name s f =
    (let name = takeWhile (\<lambda>c. c \<noteq> 0) (map (fs_mem s (fst f)) [snd f..<4096])
     in if snd f + length name < 4096 then Some name else None)"

definition put_page_word :: "nat \<Rightarrow> u32 \<Rightarrow> page \<Rightarrow> page" where
  "put_page_word off w = put_page off [byte32 0 w, byte32 1 w, byte32 2 w, byte32 3 w]"

definition serve_stat :: "page \<Rightarrow> server \<Rightarrow> ((jos_error + u32) \<times> page \<times> server) served" where
  "serve_stat req st =
    (case openfile_lookup (req_word req 0) st of
       None \<Rightarrow> Served (Inl E_INVAL, req, st)
     | Some i \<Rightarrow>
         let f = o_file (opentab st i); s = srv_fs st
         in case file_name s f of
              None \<Rightarrow> Overran
            | Some name \<Rightarrow> Served (Inr 0, put_page_word 132 (if f_type s f = FTYPE_DIR then 1 else 0)
                (put_page_word 128 (f_size s f) (put_page 0 (name @ [0]) req)), st))"

definition serve_flush :: "page \<Rightarrow> server \<Rightarrow> ((jos_error + u32) \<times> server) served" where
  "serve_flush req st =
    (case openfile_lookup (req_word req 0) st of
       None \<Rightarrow> Served (Inl E_INVAL, st)
     | Some i \<Rightarrow> served_bind (file_flush (o_file (opentab st i)) (srv_fs st)) (\<lambda>s. Served (Inr 0, set_fs s st)))"

definition serve_sync :: "server \<Rightarrow> ((jos_error + u32) \<times> server) served" where
  "serve_sync st = Served (Inr 0, set_fs (fs_sync (srv_fs st)) st)"

section \<open>One request\<close>

definition FSREQ_OPEN :: u32 where "FSREQ_OPEN = 1"
definition FSREQ_SET_SIZE :: u32 where "FSREQ_SET_SIZE = 2"
definition FSREQ_READ :: u32 where "FSREQ_READ = 3"
definition FSREQ_WRITE :: u32 where "FSREQ_WRITE = 4"
definition FSREQ_STAT :: u32 where "FSREQ_STAT = 5"
definition FSREQ_FLUSH :: u32 where "FSREQ_FLUSH = 6"
definition FSREQ_SYNC :: u32 where "FSREQ_SYNC = 8"

text \<open>What is sent back: the result, the page to map in the client, and the contents of the request page.\<close>

record reply =
  rep_result :: "jos_error + u32"
  rep_pg :: "u32 option"
  rep_perm :: u32
  rep_page :: page

definition PTE_P_U_W_SHARE :: u32 where "PTE_P_U_W_SHARE = 0x407"

fun served_map :: "('a \<Rightarrow> 'b) \<Rightarrow> 'a served \<Rightarrow> 'b served" where
  "served_map f (Served x) = Served (f x)"
| "served_map f Overran = Overran"
| "served_map f Panicked = Panicked"

definition plain_reply :: "u32 \<Rightarrow> page \<Rightarrow> (jos_error + u32) \<times> server \<Rightarrow> reply option \<times> server" where
  "plain_reply perm pg = (\<lambda>(r, st). (Some \<lparr>rep_result = r, rep_pg = None, rep_perm = perm, rep_page = pg\<rparr>, st))"

definition paged_reply :: "u32 \<Rightarrow> (jos_error + u32) \<times> page \<times> server \<Rightarrow> reply option \<times> server" where
  "paged_reply perm = (\<lambda>(r, pg, st). (Some \<lparr>rep_result = r, rep_pg = None, rep_perm = perm, rep_page = pg\<rparr>, st))"

definition open_reply :: "u32 \<Rightarrow> page \<Rightarrow> (jos_error + u32 \<times> u32 option) \<times> server \<Rightarrow> reply option \<times> server" where
  "open_reply perm pg = (\<lambda>(r, st). (Some
     (case r of
        Inl err \<Rightarrow> \<lparr>rep_result = Inl err, rep_pg = None, rep_perm = perm, rep_page = pg\<rparr>
      | Inr (n, None) \<Rightarrow> \<lparr>rep_result = Inr n, rep_pg = None, rep_perm = perm, rep_page = pg\<rparr>
      | Inr (n, Some va) \<Rightarrow> \<lparr>rep_result = Inr n, rep_pg = Some va, rep_perm = PTE_P_U_W_SHARE, rep_page = pg\<rparr>), st))"

text \<open>An iteration of \<open>serve\<close>: a request without a page gets no reply.\<close>

definition serve :: "jos_error + unit \<Rightarrow> u32 \<Rightarrow> u32 \<Rightarrow> page \<Rightarrow> server \<Rightarrow> (reply option \<times> server) served" where
  "serve answer req perm pg st =
    (if perm AND 1 = 0 then Served (None, st)
     else if req = FSREQ_OPEN then served_map (open_reply perm pg) (serve_open answer pg st)
     else if req = FSREQ_READ then served_map (paged_reply perm) (serve_read pg st)
     else if req = FSREQ_STAT then served_map (paged_reply perm) (serve_stat pg st)
     else if req = FSREQ_FLUSH then served_map (plain_reply perm pg) (serve_flush pg st)
     else if req = FSREQ_WRITE then served_map (plain_reply perm pg) (serve_write pg st)
     else if req = FSREQ_SET_SIZE then served_map (plain_reply perm pg) (serve_set_size pg st)
     else if req = FSREQ_SYNC then served_map (plain_reply perm pg) (serve_sync st)
     else Served (plain_reply perm pg (Inl E_INVAL, st)))"

end
