(* ===== verification/Fs_Server_Props.thy ===== *)
theory Fs_Server_Props
  imports Fs_Server
begin

text \<open>
  Properties of the file server: open files are not lost to other clients, what a client writes it reads back, and three ways in
  which the numbers in a request, or in the shared \<open>struct Fd\<close>, lead the server astray.
\<close>

section \<open>The table of open files\<close>

text \<open>Every entry has its own page.\<close>

definition own_pages :: "server \<Rightarrow> bool" where
  "own_pages st \<longleftrightarrow> (\<forall>i<MAXOPEN. \<forall>j<MAXOPEN. o_fd (opentab st i) = o_fd (opentab st j) \<longrightarrow> i = j)"

lemma openfile_index: "unat ((fileid :: u32) mod word_of_nat MAXOPEN) < MAXOPEN"
  by (simp add: unat_mod MAXOPEN_def)

lemma openfile_alloc_taken:
  assumes "openfile_alloc answer st = (Inr (i, w), st')"
  shows "i < MAXOPEN" "srv_ref st (o_fd (opentab st i)) \<le> 1" "w = o_fileid (opentab st i) + 1024"
    "opentab st' = (opentab st)(i := (opentab st i)\<lparr>o_fileid := w\<rparr>)" "srv_fs st' = srv_fs st"
    "srv_fd st' = (srv_fd st)(o_fd (opentab st i) := zero_fd)"
    "va \<noteq> o_fd (opentab st i) \<Longrightarrow> srv_ref st' va = srv_ref st va"
proof -
  obtain k where k: "find (\<lambda>i. srv_ref st (o_fd (opentab st i)) \<le> 1) [0..<MAXOPEN] = Some k"
    using assms by (auto simp: openfile_alloc_def split: option.splits)
  then have f: "k < MAXOPEN" "srv_ref st (o_fd (opentab st k)) \<le> 1"
    by (auto simp: find_Some_iff)
  have "i = k \<and> w = o_fileid (opentab st k) + 1024 \<and>
      opentab st' = (opentab st)(k := (opentab st k)\<lparr>o_fileid := w\<rparr>) \<and> srv_fs st' = srv_fs st \<and>
      srv_fd st' = (srv_fd st)(o_fd (opentab st k) := zero_fd) \<and>
      (\<forall>va. va \<noteq> o_fd (opentab st k) \<longrightarrow> srv_ref st' va = srv_ref st va)"
    using assms k
    by (auto simp: openfile_alloc_def Let_def upd_open_def upd_fd_def MAXOPEN_def split: if_splits sum.splits)
  then show "i < MAXOPEN" "srv_ref st (o_fd (opentab st i)) \<le> 1" "w = o_fileid (opentab st i) + 1024"
    "opentab st' = (opentab st)(i := (opentab st i)\<lparr>o_fileid := w\<rparr>)" "srv_fs st' = srv_fs st"
    "srv_fd st' = (srv_fd st)(o_fd (opentab st i) := zero_fd)"
    "va \<noteq> o_fd (opentab st i) \<Longrightarrow> srv_ref st' va = srv_ref st va"
    using f by auto
qed

text \<open>
  Opening a file never takes over an entry that a client still has open: an id that was valid before the allocation is
  valid afterwards, for the same entry with the same file, mode and shared page. The entry that is taken gets an id that
  differs from its last one, so that handles to its previous file are refused.
\<close>

theorem open_files_survive_alloc:
  assumes own: "own_pages st" and a: "openfile_alloc answer st = (Inr (j, w), st')"
    and l: "openfile_lookup fileid st = Some i"
  shows "openfile_lookup fileid st' = Some i \<and> opentab st' i = opentab st i \<and>
    srv_fd st' (o_fd (opentab st i)) = srv_fd st (o_fd (opentab st i)) \<and> i \<noteq> j \<and>
    openfile_lookup (o_fileid (opentab st j)) st' \<noteq> Some j"
proof -
  note t = openfile_alloc_taken [OF a]
  have i: "i = unat (fileid mod word_of_nat MAXOPEN)" "srv_ref st (o_fd (opentab st i)) > 1"
    "o_fileid (opentab st i) = fileid"
    using l by (auto simp: openfile_lookup_def Let_def split: if_splits)
  have ij: "i \<noteq> j" using t(2) i(2) by auto
  have iM: "i < MAXOPEN" unfolding i(1) by (rule openfile_index)
  have va: "o_fd (opentab st i) \<noteq> o_fd (opentab st j)"
    using own ij iM t(1) unfolding own_pages_def by blast
  have same: "opentab st' i = opentab st i" using ij by (simp add: t(4))
  moreover have "srv_fd st' (o_fd (opentab st i)) = srv_fd st (o_fd (opentab st i))" using va by (simp add: t(6))
  moreover have "openfile_lookup fileid st' = Some i"
    using l va same t(7) [OF va] i unfolding openfile_lookup_def Let_def by simp
  moreover have "o_fileid (opentab st j) + 1024 \<noteq> o_fileid (opentab st j)" by simp
  then have "openfile_lookup (o_fileid (opentab st j)) st' \<noteq> Some j"
    using t(3) by (auto simp: openfile_lookup_def Let_def t(4) split: if_splits)
  ultimately show ?thesis using ij by blast
qed

text \<open>A server with two open files: entry 0 is in use by a client, entry 1 is free.\<close>

definition demo_server :: server where
  "demo_server = \<lparr>srv_fs = \<lparr>fs_mem = small_image, fs_disk = small_image\<rparr>,
     opentab = (\<lambda>i. \<lparr>o_fileid = 1024 + word_of_nat i, o_file = (1, 8), o_mode = 0, o_fd = FILEVA + word_of_nat (4096 * i)\<rparr>),
     srv_fd = (\<lambda>_. zero_fd), srv_ref = (\<lambda>va. if va = FILEVA then 2 else 0)\<rparr>"

lemma demo_own_pages: "own_pages demo_server"
proof -
  have "i = j" if "i < 1024" "j < 1024" "(word_of_nat (4096 * i) :: u32) = word_of_nat (4096 * j)" for i j
  proof -
    have "unat (word_of_nat (4096 * i) :: u32) = 4096 * i" "unat (word_of_nat (4096 * j) :: u32) = 4096 * j"
      using that(1,2) by (intro unat_of_nat_lt; simp)+
    then have "4096 * i = 4096 * j" using that(3) by metis
    then show ?thesis by simp
  qed
  then show ?thesis unfolding own_pages_def demo_server_def MAXOPEN_def open_file.simps server.simps add_left_cancel by blast
qed

lemma demo_alloc: "\<exists>st'. openfile_alloc (Inr ()) demo_server = (Inr (1, 2049), st')"
proof -
  have "[0..<MAXOPEN] = 0 # [Suc 0..<MAXOPEN]" by (rule upt_conv_Cons) (simp add: MAXOPEN_def)
  moreover have "[Suc 0..<MAXOPEN] = Suc 0 # [Suc (Suc 0)..<MAXOPEN]" by (rule upt_conv_Cons) (simp add: MAXOPEN_def)
  ultimately have e: "[0..<MAXOPEN] = 0 # 1 # [Suc (Suc 0)..<MAXOPEN]" by simp
  show ?thesis
    unfolding openfile_alloc_def e
    by (simp add: demo_server_def FILEVA_def upd_open_def upd_fd_def Let_def MAXOPEN_def)
qed

theorem open_files_survive_alloc_witness:
  "\<exists>st'. openfile_alloc (Inr ()) demo_server = (Inr (1, 2049), st') \<and> openfile_lookup 1024 st' = Some 0 \<and>
     openfile_lookup 1025 st' \<noteq> Some 1"
proof -
  obtain st' where a: "openfile_alloc (Inr ()) demo_server = (Inr (1, 2049), st')" using demo_alloc by blast
  have l: "openfile_lookup 1024 demo_server = Some 0" by (simp add: openfile_lookup_def demo_server_def MAXOPEN_def)
  have "o_fileid (opentab demo_server 1) = 1025" by (simp add: demo_server_def)
  with open_files_survive_alloc [OF demo_own_pages a l] a show ?thesis by auto
qed

section \<open>Negative offsets\<close>

lemma disk_at_before:
  assumes "0 < b" "i < k" "k \<le> 4096"
  shows "disk_at b (- int k + int i) = (b - 1, 4096 - k + i)"
proof -
  have e: "int b * 4096 + (- int k + int i) = int ((b - 1) * 4096 + (4096 - k + i))" using assms by (cases b) (auto simp: algebra_simps of_nat_diff)
  have "4096 - k + i < 4096" using assms by simp
  then have "((b - 1) * 4096 + (4096 - k + i)) div 4096 = b - 1" "((b - 1) * 4096 + (4096 - k + i)) mod 4096 = 4096 - k + i"
    by simp_all
  then show ?thesis
    unfolding disk_at_def Let_def e by (simp only: nat_int zdiv_int [symmetric] zmod_int [symmetric] of_nat_numeral [symmetric, where ?'a = int])
qed

lemma small_negative:
  assumes "0 < k" "k < 4096"
  shows "sint (- word_of_nat k :: u32) = - int k" "unat (- word_of_nat k :: u32) = 4294967296 - k"
proof -
  have "(2 :: int) ^ 31 = 2147483648" by simp
  then have r: "- (2 ^ 31) \<le> - int k" "- int k < 2 ^ 31" using assms by linarith+
  have "sint (- word_of_nat k :: u32) = sint (word_of_int (- int k) :: u32)" by simp
  also have "\<dots> = signed_take_bit 31 (- int k)" by (simp only: sint_sbintrunc') simp
  also have "\<dots> = - int k" using r by (rule signed_take_bit_int_eq_self)
  finally show "sint (- word_of_nat k :: u32) = - int k" .
  have "(word_of_nat (4294967296 - k) :: u32) = word_of_nat 4294967296 - word_of_nat k"
    using assms by (intro of_nat_diff) simp
  then have "(- word_of_nat k :: u32) = word_of_nat (4294967296 - k)" by simp
  then show "unat (- word_of_nat k :: u32) = 4294967296 - k" using assms by (simp only:) (rule unat_of_nat_lt, simp)
qed

text \<open>
  \<open>file_read\<close> does not check for a negative offset, and the offset is in the \<open>struct Fd\<close> page that the client
  can write. At offset \<open>-k\<close> the quotient of the block rounds to 0 and the remainder is negative, so that the read succeeds and
  returns bytes of the disk block before the first block of the file, whosever they are.
\<close>

theorem negative_offset_reads_previous_block:
  assumes wf: "file_wf s f" and b: "ptr s f 0 \<noteq> 0" and k: "0 < unat n" "unat n < k" "k < 4096"
  shows "file_read f n (- word_of_nat k) s =
    Some (Inr n, map (\<lambda>i. fs_mem s (ptr s f 0 - 1) (4096 - k + i)) [0..<unat n], s)"
proof -
  let ?o = "- word_of_nat k :: u32" and ?b = "ptr s f 0"
  have k4: "0 < k" "k < 4096" using k by simp_all
  note o = small_negative [OF k4]
  have sz: "unat (f_size s f) < 2147483648" using file_wfD(5) [OF wf] by simp
  have ge: "\<not> sint ?o \<ge> sint (f_size s f)"
    unfolding o(1) sint_small [OF sz] using k4 by linarith
  have uk: "unat (word_of_nat k :: u32) = k" using k4 by (intro unat_of_nat_lt) simp
  have "unat (f_size s f + word_of_nat k) = unat (f_size s f) + k"
    using sz k4 by (subst unat_add_no_wrap) (simp_all add: uk)
  then have m: "min n (f_size s f - ?o) = n" using k by (simp add: min_def word_le_nat_alt)
  have e: "unat (?o + n) = 4294967296 - k + unat n"
    using k by (subst unat_add_no_wrap) (simp_all add: o(2))
  then have lt: "?o < ?o + n" using k(1) by (simp only: word_less_nat_alt o(2))
  have "- int k sdiv 4096 = 0" "- int k smod 4096 = - int k"
    using k4 by (simp_all only: minus_sdiv_eq minus_smod_eq) (simp_all add: sdiv_nonneg smod_nonneg)
  then have c: "chunk_block ?o = 0" "chunk_off ?o = - int k"
    unfolding chunk_block_def chunk_off_def o(1) by simp_all
  have "unat (word_of_int (4096 + int k) :: u32) = 4096 + k"
  proof -
    have "(word_of_int (4096 + int k) :: u32) = word_of_nat (4096 + k)" by simp
    then show ?thesis using k4 by (simp only:) (rule unat_of_nat_lt, simp)
  qed
  then have cl: "chunk_len ?o (?o + n) = n"
    using k unfolding chunk_len_def c(2) by (simp add: min_def word_le_nat_alt)
  have g: "file_get_block f 0 s = Some (Inr ?b, s)" by (rule get_block_present [OF wf _ b]) simp
  have "disk_bytes s ?b (- int k) (unat n) = map (\<lambda>i. fs_mem s (?b - 1) (4096 - k + i)) [0..<unat n]"
    unfolding disk_bytes_def
  proof (rule map_cong [OF refl])
    fix i assume "i \<in> set [0..<unat n]"
    then have d: "disk_at ?b (- int k + int i) = (?b - 1, 4096 - k + i)" using b k by (intro disk_at_before) simp_all
    show "(case disk_at ?b (- int k + int i) of (c, j) \<Rightarrow> fs_mem s c j) = fs_mem s (?b - 1) (4096 - k + i)"
      unfolding d by simp
  qed
  moreover have "read_loop (Suc j) f ?o (?o + n) [] s = Some (Inr (), disk_bytes s ?b (- int k) (unat n), s)" for j
    using lt g c cl by (subst read_loop.simps) (simp add: Let_def, subst read_loop.simps, simp)
  moreover obtain j where "unat n = Suc j" using k(1) by (cases "unat n") simp_all
  ultimately have "read_loop (unat n) f ?o (?o + n) [] s =
      Some (Inr (), map (\<lambda>i. fs_mem s (?b - 1) (4096 - k + i)) [0..<unat n], s)" by metis
  then show ?thesis using ge m by (simp add: file_read_def Let_def)
qed

text \<open>For the witnesses: the root directory's entry as a file of two blocks, 3 and 4.\<close>

definition two_block_image :: image where
  "two_block_image = put32 (1, 136) 8192 (put32 (1, 144) 3 (put32 (1, 148) 4 small_image))"

lemma two_block_file:
  assumes m: "fs_mem s = two_block_image"
  shows "file_wf s (1, 8)" "f_size s (1, 8) = 8192" "ptr s (1, 8) 0 = 3" "ptr s (1, 8) 1 = 4"
proof -
  let ?s0 = "\<lparr>fs_mem = small_image, fs_disk = small_image\<rparr>"
  have m0: "fs_mem ?s0 = small_image" by simp
  note fr0 = small_image_free(2,3) [OF m0]
  have nb: "s_nblocks s = s_nblocks ?s0"
    by (simp add: s_nblocks_def disk_word_def m two_block_image_def get_put32_other)
  have "fs_mem s b = fs_mem ?s0 b" if "2 \<le> b" for b using that by (simp add: m two_block_image_def)
  then have fr: "block_is_free b s \<longleftrightarrow> 5 \<le> b \<and> b < 16" for b
    using block_is_free_cong [OF nb, of b] fr0(2) by simp
  have z: "get32 small_image (1, a) = 0" if "8 \<le> a" for a
    unfolding small_image_def using that
    by (subst get_put32_other, simp)+ (simp add: get32_def join32_def)
  have w: "disk_word s (1, a) = 0" if "8 \<le> a" "a + 4 \<le> 136 \<or> 140 \<le> a \<and> a + 4 \<le> 144 \<or> 152 \<le> a" for a
    unfolding disk_word_def m two_block_image_def using that z [OF that(1)]
    by (subst get_put32_other, force)+
  have d: "disk_word s (1, 136) = 8192" "disk_word s (1, 144) = 3" "disk_word s (1, 148) = 4"
    by (simp_all add: disk_word_def m two_block_image_def get_put32_other)
  have i: "f_indirect s (1, 8) = 0" using w [of 184] by (simp add: f_indirect_def f_indirect_at_def)
  show p0: "ptr s (1, 8) 0 = 3" "ptr s (1, 8) 1 = 4"
    using d(2,3) by (simp_all add: ptr_def slot_def f_direct_at_def)
  have pz: "ptr s (1, 8) k = 0" if "2 \<le> k" for k
    using w [of "144 + 4 * k"] w [of 184] that
    by (auto simp: ptr_def slot_def i [unfolded One_nat_def] f_direct_at_def f_indirect_at_def)
  show sz: "f_size s (1, 8) = 8192" using d(1) by (simp add: f_size_def f_size_at_def)
  have pk: "ptr s (1, 8) k = (if k = 0 then 3 else if k = 1 then 4 else 0)" for k
  proof -
    have "k = 0 \<or> k = 1 \<or> 2 \<le> k" by linarith
    then show ?thesis using p0 pz [of k] by (elim disjE) simp_all
  qed
  have da: "data_area s b \<longleftrightarrow> 2 < b \<and> b < 16" for b using fr0(1) nb by (auto simp: data_area_def)
  show "file_wf s (1, 8)"
    unfolding file_wf_def da fr sz pk by auto
qed

theorem negative_offset_reads_previous_block_witness:
  "file_read (1, 8) 2 (- word_of_nat 100) \<lparr>fs_mem = two_block_image, fs_disk = two_block_image\<rparr> =
     Some (Inr 2, [two_block_image 2 3996, two_block_image 2 3997], \<lparr>fs_mem = two_block_image, fs_disk = two_block_image\<rparr>)"
proof -
  let ?s = "\<lparr>fs_mem = two_block_image, fs_disk = two_block_image\<rparr>"
  have m: "fs_mem ?s = two_block_image" by simp
  note f = two_block_file [OF m]
  have u: "unat (2 :: u32) = 2" by simp
  have "[0..<2] = [0, Suc 0]" by (simp add: upt_conv_Cons numeral_2_eq_2)
  then show ?thesis
    using negative_offset_reads_previous_block [OF f(1), of 2 100, unfolded u f(3)] by simp
qed

section \<open>Requests that are too long\<close>

lemma file_read_allocated:
  assumes wf: "file_wf s f" and off: "unat off < unat (f_size s f)"
    and p: "\<forall>q. unat off \<le> q \<longrightarrow> q < unat (f_size s f) \<longrightarrow> ptr s f (q div 4096) \<noteq> 0"
    and m_def: "m = min (unat n) (unat (f_size s f) - unat off)"
  shows "file_read f n off s = Some (Inr (word_of_nat m), map (file_byte s f) [unat off..<unat off + m], s)"
proof -
  note sz = file_wfD(5) [OF wf]
  have b: "unat (f_size s f) < 2147483648" "unat off < 2147483648" using sz off by linarith+
  have "off \<le> f_size s f" using off by (simp add: word_le_nat_alt)
  then have d: "unat (f_size s f - off) = unat (f_size s f) - unat off" by (rule unat_sub)
  let ?c = "min n (f_size s f - off)"
  have c: "unat ?c = m" unfolding m_def min_def word_le_nat_alt using d by (simp split: if_split)
  have mm: "unat off + m \<le> unat (f_size s f)" using off by (simp add: m_def)
  have e: "unat (off + ?c) = unat off + m"
    using mm b by (subst unat_add_no_wrap) (simp_all add: c)
  have "read_loop m f off (off + ?c) [] s = Some (Inr (), [] @ map (file_byte s f) [unat off..<unat (off + ?c)], s)"
    using mm sz p e by (intro read_loop_ok [OF wf]) simp_all
  moreover have "?c = word_of_nat m" using c [symmetric] by simp
  ultimately show ?thesis
    using off c e unfolding file_read_def sint_le_small [OF b] by (simp add: Let_def)
qed

text \<open>
  \<open>serve_read\<close> passes the client's count to \<open>file_read\<close> although the reply has room for a page only. For a file
  with more than a page left at the current offset, a request for more than a page makes the server write past the page of
  the request, into the mapped disk that follows it.
\<close>

theorem long_read_overruns_request_page:
  assumes l: "openfile_lookup (req_word req 0) st = Some i"
    and f: "f = o_file (opentab st i)" "file_wf (srv_fs st) f"
    and off: "off = fd_offset (srv_fd st (o_fd (opentab st i)))" "unat off + 4096 < unat (f_size (srv_fs st) f)"
    and p: "\<forall>q. unat off \<le> q \<longrightarrow> q < unat (f_size (srv_fs st) f) \<longrightarrow> ptr (srv_fs st) f (q div 4096) \<noteq> 0"
    and n: "4096 < unat (req_word req 4)"
  shows "serve_read req st = Overran"
proof -
  have "unat off < unat (f_size (srv_fs st) f)" using off(2) by simp
  note r = file_read_allocated [OF f(2) this p refl, of "req_word req 4"]
  show ?thesis
    using l n off(2) r unfolding serve_read_def f(1) off(1)
    by (simp add: Let_def served_bind_def)
qed

text \<open>A page with a request for \<open>n\<close> bytes of the file with the given id.\<close>

definition demo_request :: "u32 \<Rightarrow> u32 \<Rightarrow> page" where
  "demo_request fileid n = put_page_word 4 n (put_page_word 0 fileid (\<lambda>_. 0))"

lemma demo_request_words: "req_word (demo_request fileid n) 0 = fileid" "req_word (demo_request fileid n) 4 = n"
  by (simp_all add: req_word_def demo_request_def put_page_word_def put_page_def join_bytes
      numeral_2_eq_2 numeral_3_eq_3 nth_Cons' join_bytes [unfolded One_nat_def numeral_2_eq_2 numeral_3_eq_3])

definition demo_server2 :: server where
  "demo_server2 = demo_server\<lparr>srv_fs := \<lparr>fs_mem = two_block_image, fs_disk = two_block_image\<rparr>\<rparr>"

lemma demo_server2_fields:
  "openfile_lookup 1024 demo_server2 = Some 0" "o_file (opentab demo_server2 0) = (1, 8)"
  "fs_mem (srv_fs demo_server2) = two_block_image" "fd_offset (srv_fd demo_server2 va) = 0"
  by (simp_all add: openfile_lookup_def demo_server2_def demo_server_def MAXOPEN_def zero_fd_def)

theorem long_read_overruns_request_page_witness: "serve_read (demo_request 1024 8192) demo_server2 = Overran"
proof (rule long_read_overruns_request_page)
  note t = two_block_file [OF demo_server2_fields(3)]
  show "openfile_lookup (req_word (demo_request 1024 8192) 0) demo_server2 = Some 0"
    by (simp only: demo_request_words demo_server2_fields)
  show "(1, 8) = o_file (opentab demo_server2 0)" by (simp only: demo_server2_fields)
  show "file_wf (srv_fs demo_server2) (1, 8)" by (rule t(1))
  show "0 = fd_offset (srv_fd demo_server2 (o_fd (opentab demo_server2 0)))" by (simp only: demo_server2_fields)
  show "unat 0 + 4096 < unat (f_size (srv_fs demo_server2) (1, 8))" unfolding t(2) by simp
  show "4096 < unat (req_word (demo_request 1024 8192) 4)" unfolding demo_request_words by simp
  show "\<forall>q. unat 0 \<le> q \<longrightarrow> q < unat (f_size (srv_fs demo_server2) (1, 8)) \<longrightarrow>
      ptr (srv_fs demo_server2) (1, 8) (q div 4096) \<noteq> 0"
  proof (intro allI impI)
    fix q assume "q < unat (f_size (srv_fs demo_server2) (1, 8))"
    then have "q < 8192" unfolding t(2) by simp
    then have "q div 4096 = 0 \<or> q div 4096 = 1" by linarith
    then show "ptr (srv_fs demo_server2) (1, 8) (q div 4096) \<noteq> 0" using t(3,4) by auto
  qed
qed

section \<open>Writing and reading through the server\<close>

text \<open>What \<open>seek\<close> of the client does to the shared page.\<close>

definition client_seek :: "nat \<Rightarrow> u32 \<Rightarrow> server \<Rightarrow> server" where
  "client_seek i off st = upd_fd (o_fd (opentab st i)) (\<lambda>d. d\<lparr>fd_offset := off\<rparr>) st"

lemma lookup_after:
  "openfile_lookup fileid (set_fs s st) = openfile_lookup fileid st"
  "openfile_lookup fileid (upd_fd va g st) = openfile_lookup fileid st"
  by (simp_all add: openfile_lookup_def set_fs_def upd_fd_def)

text \<open>
  C29: the contract of the server's requests for an open file: a request to write the data it holds, at an offset at which it fits
  into the largest file, is answered with a full disk, and then no block is free, or with the number of bytes; the shared offset
  has then moved on by this number, and after the client has moved it back a request to read as many bytes is answered with a
  page that starts with the data.
\<close>

theorem server_write_then_read:
  assumes l: "openfile_lookup (req_word w 0) st = Some i" "req_word r 0 = req_word w 0" "req_word r 4 = req_word w 4"
    and f: "file_wf (srv_fs st) (o_file (opentab st i))"
    and off: "off = fd_offset (srv_fd st (o_fd (opentab st i)))"
    and n: "n = unat (req_word w 4)" "n \<le> 4088" "unat off + n \<le> 1034 * 4096"
  shows "\<exists>st'. serve_write w st = Served (Inl E_NO_DISK, st') \<and> disk_full (srv_fs st') \<or>
    serve_write w st = Served (Inr (word_of_nat n), st') \<and>
    fd_offset (srv_fd st' (o_fd (opentab st i))) = off + word_of_nat n \<and>
    (\<exists>pg st''. serve_read r (client_seek i off st') = Served (Inr (word_of_nat n), pg, st'') \<and>
       (\<forall>j<n. pg j = w (8 + j)))"
proof -
  let ?f = "o_file (opentab st i)" and ?va = "o_fd (opentab st i)" and ?buf = "map (\<lambda>j. w (8 + j)) [0..<n]"
  have len: "unat off + length ?buf \<le> 1034 * 4096" using n by simp
  obtain x s' where x: "file_write ?f ?buf off (srv_fs st) = Some (x, s')"
    "x = Inl E_NO_DISK \<and> disk_full s' \<or> x = Inr (word_of_nat n) \<and>
     file_read ?f (word_of_nat n) off s' = Some (Inr (word_of_nat n), ?buf, s')"
    using file_write_reads_back [OF f len] by auto
  have sw: "serve_write w st = (case x of Inl err \<Rightarrow> Served (Inl err, set_fs s' st)
      | Inr m \<Rightarrow> Served (Inr m, upd_fd ?va (\<lambda>d. d\<lparr>fd_offset := fd_offset d + m\<rparr>) (set_fs s' st)))"
    using l(1) n x(1) unfolding serve_write_def off by (simp add: Let_def served_bind_def)
  show ?thesis
  proof (cases x)
    case (Inl err)
    then have "x = Inl E_NO_DISK" "disk_full s'" using x(2) by auto
    then show ?thesis using sw by (intro exI [of _ "set_fs s' st"]) (simp add: set_fs_def)
  next
    case (Inr m)
    then have m: "m = word_of_nat n" "file_read ?f (word_of_nat n) off s' = Some (Inr (word_of_nat n), ?buf, s')"
      using x(2) by auto
    let ?st = "upd_fd ?va (\<lambda>d. d\<lparr>fd_offset := fd_offset d + word_of_nat n\<rparr>) (set_fs s' st)"
    have un: "word_of_nat n = req_word r 4" using n(1) l(3) by simp
    have "\<not> sint (word_of_nat n :: u32) < 0"
      using n(2) by (subst sint_small) (simp_all add: unat_of_nat_lt)
    then have "serve_read r (client_seek i off ?st) = Served (Inr (word_of_nat n), put_page 0 ?buf r,
        upd_fd ?va (\<lambda>d. d\<lparr>fd_offset := fd_offset d + word_of_nat n\<rparr>) (set_fs s' (client_seek i off ?st)))"
      using m(2) n(2) l
      unfolding serve_read_def client_seek_def lookup_after l(2) un [symmetric]
      by (simp add: lookup_after upd_fd_def set_fs_def Let_def served_bind_def)
    moreover have "\<forall>j<n. put_page 0 ?buf r j = w (8 + j)" by (simp add: put_page_def)
    moreover have "serve_write w st = Served (Inr (word_of_nat n), ?st)" using sw Inr m(1) by simp
    moreover have "fd_offset (srv_fd ?st ?va) = off + word_of_nat n" by (simp add: upd_fd_def set_fs_def off)
    ultimately show ?thesis by blast
  qed
qed

theorem server_write_then_read_witness:
  "\<exists>st'. serve_write (demo_request 1024 3) demo_server2 = Served (Inl E_NO_DISK, st') \<and> disk_full (srv_fs st') \<or>
    serve_write (demo_request 1024 3) demo_server2 = Served (Inr 3, st') \<and>
    fd_offset (srv_fd st' (o_fd (opentab demo_server2 0))) = 3 \<and>
    (\<exists>pg st''. serve_read (demo_request 1024 3) (client_seek 0 0 st') = Served (Inr 3, pg, st'') \<and>
       (\<forall>j<3. pg j = demo_request 1024 3 (8 + j)))"
proof -
  have a: "openfile_lookup (req_word (demo_request 1024 3) 0) demo_server2 = Some 0"
    by (simp only: demo_request_words demo_server2_fields)
  have b: "file_wf (srv_fs demo_server2) (o_file (opentab demo_server2 0))"
    unfolding demo_server2_fields(2) by (rule two_block_file(1) [OF demo_server2_fields(3)])
  have c: "0 = fd_offset (srv_fd demo_server2 (o_fd (opentab demo_server2 0)))" by (simp only: demo_server2_fields)
  have d: "3 = unat (req_word (demo_request 1024 3) 4)" unfolding demo_request_words by simp
  have "(word_of_nat 3 :: u32) = 3" by simp
  with server_write_then_read [OF a refl refl b c d] show ?thesis by simp
qed

end
