(* ===== verification/Pipe.thy ===== *)
theory Pipe
  imports Jos_Prelude
begin

text \<open>
  Pipes, \<^verbatim>\<open>lib/pipe.c\<close>: a ring buffer of 32 bytes in a page that the reading and the writing
  processes share. The processes are preempted anywhere; a step is one access to the shared page. The loops of
  \<open>devpipe_read\<close> and \<open>devpipe_write\<close> are cut into their test, the transfer of the byte and the increment of
  the position. The reference counts that decide whether the other end is closed are those of the pages of the two
  descriptors and of the pipe.
\<close>

section \<open>The shared page\<close>

text \<open>
  Positions are of type \<open>off_t\<close>. The index is a signed remainder: below 0 it would be outside the buffer, so that the
  buffer is a memory around its first byte.
\<close>

record pipe =
  p_rpos :: u32
  p_wpos :: u32
  p_buf :: "int \<Rightarrow> u8"

definition PIPEBUFSIZ :: u32 where "PIPEBUFSIZ = 32"

definition pipe_index :: "u32 \<Rightarrow> int" where
  "pipe_index pos = sint pos smod 32"

definition pipe_empty :: "pipe \<Rightarrow> bool" where
  "pipe_empty p \<longleftrightarrow> p_rpos p = p_wpos p"

definition pipe_full :: "pipe \<Rightarrow> bool" where
  "pipe_full p \<longleftrightarrow> p_wpos p \<ge> p_rpos p + PIPEBUFSIZ"

section \<open>The loops\<close>

datatype read_pc = Read_idle | Read_test | Read_take | Read_inc

record reader =
  rd_pc :: read_pc
  rd_n :: nat
  rd_buf :: "u8 list"

text \<open>A call of \<open>devpipe_read\<close> for \<open>n\<close> bytes; the bytes read so far are in \<open>rd_buf\<close>.\<close>

definition devpipe_read :: "nat \<Rightarrow> reader" where
  "devpipe_read n = \<lparr>rd_pc = (if 0 < n then Read_test else Read_idle), rd_n = n, rd_buf = []\<rparr>"

definition read_step :: "bool \<Rightarrow> reader \<Rightarrow> pipe \<Rightarrow> reader \<times> pipe" where
  "read_step closed rd p =
    (case rd_pc rd of
       Read_idle \<Rightarrow> (rd, p)
     | Read_test \<Rightarrow>
         (if \<not> pipe_empty p then (rd\<lparr>rd_pc := Read_take\<rparr>, p)
          else if rd_buf rd \<noteq> [] then (rd\<lparr>rd_pc := Read_idle\<rparr>, p)
          else if closed then (rd\<lparr>rd_pc := Read_idle\<rparr>, p)
          else (rd, p))
     | Read_take \<Rightarrow> (rd\<lparr>rd_pc := Read_inc, rd_buf := rd_buf rd @ [p_buf p (pipe_index (p_rpos p))]\<rparr>, p)
     | Read_inc \<Rightarrow> (rd\<lparr>rd_pc := (if length (rd_buf rd) < rd_n rd then Read_test else Read_idle)\<rparr>,
                    p\<lparr>p_rpos := p_rpos p + 1\<rparr>))"

datatype write_pc = Write_idle | Write_test | Write_store | Write_inc

record writer =
  wr_pc :: write_pc
  wr_buf :: "u8 list"
  wr_i :: nat

definition devpipe_write :: "u8 list \<Rightarrow> writer" where
  "devpipe_write buf = \<lparr>wr_pc = (if buf \<noteq> [] then Write_test else Write_idle), wr_buf = buf, wr_i = 0\<rparr>"

text \<open>A writer whose readers are gone returns 0, whatever it has written.\<close>

definition write_step :: "bool \<Rightarrow> writer \<Rightarrow> pipe \<Rightarrow> writer \<times> pipe" where
  "write_step closed wr p =
    (case wr_pc wr of
       Write_idle \<Rightarrow> (wr, p)
     | Write_test \<Rightarrow>
         (if \<not> pipe_full p then (wr\<lparr>wr_pc := Write_store\<rparr>, p)
          else if closed then (wr\<lparr>wr_pc := Write_idle, wr_i := 0\<rparr>, p)
          else (wr, p))
     | Write_store \<Rightarrow> (wr\<lparr>wr_pc := Write_inc\<rparr>, p\<lparr>p_buf := (p_buf p)(pipe_index (p_wpos p) := wr_buf wr ! wr_i wr)\<rparr>)
     | Write_inc \<Rightarrow> (wr\<lparr>wr_pc := (if wr_i wr + 1 < length (wr_buf wr) then Write_test else Write_idle), wr_i := wr_i wr + 1\<rparr>,
                     p\<lparr>p_wpos := p_wpos p + 1\<rparr>))"

section \<open>Processes at a pipe\<close>

text \<open>
  \<open>sent\<close> and \<open>got\<close> record the bytes whose transfer has been completed by an increment. Whether the other end looks
  closed, \<open>_pipeisclosed\<close>, may be answered either way at any time.
\<close>

record pipe_sys =
  shared :: pipe
  readers :: "nat \<Rightarrow> reader"
  writers :: "nat \<Rightarrow> writer"
  sent :: "u8 list"
  got :: "u8 list"

definition sys_read :: "nat \<Rightarrow> bool \<Rightarrow> pipe_sys \<Rightarrow> pipe_sys" where
  "sys_read i closed s =
    (let (rd, p) = read_step closed (readers s i) (shared s)
     in s\<lparr>readers := (readers s)(i := rd), shared := p,
          got := got s @ (if rd_pc (readers s i) = Read_inc then [last (rd_buf (readers s i))] else [])\<rparr>)"

definition sys_write :: "nat \<Rightarrow> bool \<Rightarrow> pipe_sys \<Rightarrow> pipe_sys" where
  "sys_write i closed s =
    (let (wr, p) = write_step closed (writers s i) (shared s)
     in s\<lparr>writers := (writers s)(i := wr), shared := p,
          sent := sent s @ (if wr_pc (writers s i) = Write_inc then [wr_buf (writers s i) ! wr_i (writers s i)] else [])\<rparr>)"

definition pipe_init :: pipe_sys where
  "pipe_init = \<lparr>shared = \<lparr>p_rpos = 0, p_wpos = 0, p_buf = (\<lambda>_. 0)\<rparr>, readers = (\<lambda>_. devpipe_read 0),
     writers = (\<lambda>_. devpipe_write []), sent = [], got = []\<rparr>"

text \<open>The processes with numbers in \<open>R\<close> read, those with numbers in \<open>W\<close> write.\<close>

inductive pipe_step :: "nat set \<Rightarrow> nat set \<Rightarrow> pipe_sys \<Rightarrow> pipe_sys \<Rightarrow> bool" for R W where
  call_read: "i \<in> R \<Longrightarrow> rd_pc (readers s i) = Read_idle \<Longrightarrow>
    pipe_step R W s (s\<lparr>readers := (readers s)(i := devpipe_read n)\<rparr>)"
| call_write: "i \<in> W \<Longrightarrow> wr_pc (writers s i) = Write_idle \<Longrightarrow>
    pipe_step R W s (s\<lparr>writers := (writers s)(i := devpipe_write buf)\<rparr>)"
| run_read: "i \<in> R \<Longrightarrow> pipe_step R W s (sys_read i closed s)"
| run_write: "i \<in> W \<Longrightarrow> pipe_step R W s (sys_write i closed s)"

inductive pipe_reach :: "nat set \<Rightarrow> nat set \<Rightarrow> pipe_sys \<Rightarrow> bool" for R W where
  pipe_start: "pipe_reach R W pipe_init"
| pipe_next: "pipe_reach R W s \<Longrightarrow> pipe_step R W s s' \<Longrightarrow> pipe_reach R W s'"

section \<open>One reader and one writer\<close>

text \<open>
  The cells between the two positions hold the bytes sent and not yet received, in order; the other cells belong to the
  writer.
\<close>

definition pipe_inv :: "pipe_sys \<Rightarrow> bool" where
  "pipe_inv s \<longleftrightarrow> (let p = shared s; rd = readers s 0; wr = writers s 0; r = length (got s); w = length (sent s) in
     unat (p_rpos p) = r \<and> unat (p_wpos p) = w \<and> r \<le> w \<and> w \<le> r + 32 \<and> got s = take r (sent s) \<and>
     (\<forall>k. r \<le> k \<longrightarrow> k < w \<longrightarrow> p_buf p (int (k mod 32)) = sent s ! k) \<and>
     (rd_pc rd = Read_take \<longrightarrow> r < w) \<and>
     (rd_pc rd = Read_inc \<longrightarrow> r < w \<and> rd_buf rd \<noteq> [] \<and> last (rd_buf rd) = sent s ! r) \<and>
     (wr_pc wr = Write_store \<longrightarrow> w < r + 32) \<and>
     (wr_pc wr = Write_inc \<longrightarrow> w < r + 32 \<and> p_buf p (int (w mod 32)) = wr_buf wr ! wr_i wr))"

text \<open>How the current calls are related to the bytes sent and received.\<close>

definition read_part :: "pipe_sys \<Rightarrow> bool" where
  "read_part s \<longleftrightarrow> (\<exists>xs. got s @ (if rd_pc (readers s 0) = Read_inc then [last (rd_buf (readers s 0))] else []) =
     xs @ rd_buf (readers s 0))"

definition write_part :: "pipe_sys \<Rightarrow> bool" where
  "write_part s \<longleftrightarrow> (wr_pc (writers s 0) \<noteq> Write_idle \<longrightarrow> wr_i (writers s 0) < length (wr_buf (writers s 0))) \<and>
     (\<exists>ys. sent s = ys @ take (wr_i (writers s 0)) (wr_buf (writers s 0)))"

lemma pipe_index_below: "unat w < 2147483648 \<Longrightarrow> pipe_index w = int (unat w mod 32)"
  by (simp only: pipe_index_def sint_small) (simp add: smod_nonneg zmod_int)

lemma mod32_apart: "k < w \<Longrightarrow> w < k + 32 \<Longrightarrow> k mod 32 \<noteq> (w :: nat) mod 32"
proof
  assume a: "k < w" "w < k + 32" "k mod 32 = w mod 32"
  then have "32 dvd w - k" using mod_eq_dvd_iff_nat [of k w 32] by simp
  then show False using a(1,2) dvd_imp_le [of 32 "w - k"] by simp
qed

lemma unat_next: "unat (w :: u32) < 2147483648 \<Longrightarrow> unat (w + 1) = unat w + 1"
  by (subst unat_add_no_wrap) simp_all

lemma sent_read: "sent (sys_read i closed s) = sent s"
  by (simp add: sys_read_def Let_def split: prod.splits)

lemma read_step_inv:
  assumes inv: "pipe_inv s" and l: "length (sent s) < 2147483648"
  shows "pipe_inv (sys_read 0 closed s)"
proof -
  let ?p = "shared s" and ?rd = "readers s 0" and ?r = "length (got s)" and ?w = "length (sent s)"
  have i: "unat (p_rpos ?p) = ?r" "unat (p_wpos ?p) = ?w" "?r \<le> ?w" "?w \<le> ?r + 32" "got s = take ?r (sent s)"
    and b: "\<And>k. ?r \<le> k \<Longrightarrow> k < ?w \<Longrightarrow> p_buf ?p (int (k mod 32)) = sent s ! k"
    using inv unfolding pipe_inv_def Let_def by auto
  have ix: "pipe_index (p_rpos ?p) = int (?r mod 32)" using i l by (subst pipe_index_below) simp_all
  show ?thesis
  proof (cases "rd_pc ?rd")
    case Read_idle
    then show ?thesis using inv by (simp add: sys_read_def read_step_def pipe_inv_def Let_def)
  next
    case Read_test
    have "\<not> pipe_empty ?p \<Longrightarrow> ?r < ?w" using i(1-3) by (cases "?r = ?w") (auto simp: pipe_empty_def word_unat_eq_iff)
    then show ?thesis using inv Read_test by (auto simp: sys_read_def read_step_def pipe_inv_def Let_def)
  next
    case Read_take
    then have "?r < ?w" using inv by (simp add: pipe_inv_def Let_def)
    then show ?thesis using inv Read_take b [of ?r] by (simp add: sys_read_def read_step_def pipe_inv_def Let_def ix)
  next
    case Read_inc
    then have r: "?r < ?w" "last (rd_buf ?rd) = sent s ! ?r" using inv by (auto simp: pipe_inv_def Let_def)
    have g: "got s @ [sent s ! ?r] = take (Suc ?r) (sent s)" using r(1) i(5) by (simp add: take_Suc_conv_app_nth)
    have u: "unat (p_rpos ?p + 1) = Suc ?r" using i l by (subst unat_next) simp_all
    show ?thesis using inv Read_inc r g u by (auto simp: sys_read_def read_step_def pipe_inv_def Let_def)
  qed
qed

lemma write_step_inv:
  assumes inv: "pipe_inv s" and l: "length (sent (sys_write 0 closed s)) < 2147483648"
  shows "pipe_inv (sys_write 0 closed s)"
proof -
  let ?p = "shared s" and ?wr = "writers s 0" and ?r = "length (got s)" and ?w = "length (sent s)"
  have i: "unat (p_rpos ?p) = ?r" "unat (p_wpos ?p) = ?w" "?r \<le> ?w" "?w \<le> ?r + 32" "got s = take ?r (sent s)"
    using inv unfolding pipe_inv_def Let_def by auto
  have lw: "?w < 2147483648" using l by (auto simp: sys_write_def Let_def split: prod.splits)
  have ix: "pipe_index (p_wpos ?p) = int (?w mod 32)" using i lw by (subst pipe_index_below) simp_all
  show ?thesis
  proof (cases "wr_pc ?wr")
    case Write_idle
    then show ?thesis using inv by (simp add: sys_write_def write_step_def pipe_inv_def Let_def)
  next
    case Write_test
    have "unat (p_rpos ?p + PIPEBUFSIZ) = ?r + 32"
      using i lw by (subst unat_add_no_wrap) (simp_all add: PIPEBUFSIZ_def)
    then have "\<not> pipe_full ?p \<Longrightarrow> ?w < ?r + 32" using i by (simp add: pipe_full_def word_le_nat_alt)
    then show ?thesis using inv Write_test by (auto simp: sys_write_def write_step_def pipe_inv_def Let_def)
  next
    case Write_store
    then have w: "?w < ?r + 32" using inv by (simp add: pipe_inv_def Let_def)
    have "int (k mod 32) \<noteq> int (?w mod 32)" if "?r \<le> k" "k < ?w" for k
      using mod32_apart [of k ?w] that w by simp
    then show ?thesis using inv Write_store w by (simp add: sys_write_def write_step_def pipe_inv_def Let_def ix)
  next
    case Write_inc
    then have w: "?w < ?r + 32" "p_buf ?p (int (?w mod 32)) = wr_buf ?wr ! wr_i ?wr"
      using inv by (auto simp: pipe_inv_def Let_def)
    have u: "unat (p_wpos ?p + 1) = Suc ?w" using i lw by (subst unat_next) simp_all
    show ?thesis using inv Write_inc w u
      by (auto simp: sys_write_def write_step_def pipe_inv_def Let_def nth_append less_Suc_eq)
  qed
qed

lemma pipe_step_inv:
  "pipe_step {0} {0} s s' \<Longrightarrow> pipe_inv s \<Longrightarrow> length (sent s') < 2147483648 \<Longrightarrow> pipe_inv s'"
proof (induction rule: pipe_step.induct)
  case (call_read i s n)
  then show ?case by (simp add: pipe_inv_def Let_def devpipe_read_def)
next
  case (call_write i s buf)
  then show ?case by (simp add: pipe_inv_def Let_def devpipe_write_def)
next
  case (run_read i s closed)
  then show ?case using read_step_inv [of s closed] by (simp add: sent_read)
next
  case (run_write i s closed)
  then show ?case using write_step_inv [of s closed] by simp
qed

lemma read_part_step: "read_part s \<Longrightarrow> read_part (sys_read 0 closed s)"
proof -
  assume "read_part s"
  then obtain xs where x: "got s @ (if rd_pc (readers s 0) = Read_inc then [last (rd_buf (readers s 0))] else []) =
      xs @ rd_buf (readers s 0)" by (auto simp: read_part_def)
  show ?thesis
    by (cases "rd_pc (readers s 0)"; use x in \<open>simp add: sys_read_def read_step_def read_part_def\<close>)
qed

lemma write_part_step: "write_part s \<Longrightarrow> write_part (sys_write 0 closed s)"
proof -
  assume w: "write_part s"
  then obtain ys where y: "sent s = ys @ take (wr_i (writers s 0)) (wr_buf (writers s 0))"
    by (auto simp: write_part_def)
  show ?thesis
  proof (cases "wr_pc (writers s 0) = Write_inc")
    case True
    then have "wr_i (writers s 0) < length (wr_buf (writers s 0))" using w by (simp add: write_part_def)
    then have "sent s @ [wr_buf (writers s 0) ! wr_i (writers s 0)] = ys @ take (Suc (wr_i (writers s 0))) (wr_buf (writers s 0))"
      using y by (simp add: take_Suc_conv_app_nth)
    then show ?thesis using True by (simp add: sys_write_def write_step_def write_part_def)
  next
    case False
    then show ?thesis using w
      by (cases "wr_pc (writers s 0)") (simp_all add: sys_write_def write_step_def write_part_def)
  qed
qed

lemma parts_step: "pipe_step {0} {0} s s' \<Longrightarrow> read_part s \<and> write_part s \<Longrightarrow> read_part s' \<and> write_part s'"
proof (induction rule: pipe_step.induct)
  case (call_read i s n)
  then show ?case by (simp add: read_part_def write_part_def devpipe_read_def)
next
  case (call_write i s buf)
  have "read_part (s\<lparr>writers := (writers s)(i := devpipe_write buf)\<rparr>) = read_part s" by (simp add: read_part_def)
  then show ?case using call_write by (simp add: write_part_def devpipe_write_def)
next
  case (run_read i s closed)
  have "write_part (sys_read 0 closed s) = write_part s"
    by (simp add: write_part_def sys_read_def Let_def split: prod.splits)
  then show ?case using run_read read_part_step [of s closed] by simp
next
  case (run_write i s closed)
  have "read_part (sys_write 0 closed s) = read_part s"
    by (simp add: read_part_def sys_write_def Let_def split: prod.splits)
  then show ?case using run_write write_part_step [of s closed] by simp
qed

lemma pipe_reach_parts: "pipe_reach {0} {0} s \<Longrightarrow> read_part s \<and> write_part s"
proof (induction rule: pipe_reach.induct)
  case pipe_start
  then show ?case by (simp add: pipe_init_def read_part_def write_part_def devpipe_read_def devpipe_write_def)
next
  case (pipe_next s s')
  then show ?case using parts_step by blast
qed

lemma sent_grows: "pipe_step R W s s' \<Longrightarrow> length (sent s) \<le> length (sent s')"
  by (induction rule: pipe_step.induct) (auto simp: sys_read_def sys_write_def Let_def split: prod.splits)

lemma pipe_reach_inv: "pipe_reach {0} {0} s \<Longrightarrow> length (sent s) < 2147483648 \<Longrightarrow> pipe_inv s"
proof (induction rule: pipe_reach.induct)
  case pipe_start
  then show ?case by (simp add: pipe_init_def pipe_inv_def Let_def devpipe_read_def devpipe_write_def)
next
  case (pipe_next s s')
  then show ?case using sent_grows [OF pipe_next.hyps(2)] pipe_step_inv [OF pipe_next.hyps(2)] by simp
qed

text \<open>
  C14: with one reading and one writing process, however they are interleaved and wherever they are preempted inside their
  loops, and whatever the check for a closed end answers, a pipe is a queue: the bytes received are the bytes sent, in order and
  without loss; at most 32 are under way; what the current call of \<open>devpipe_read\<close> has read are the last bytes received, and
  what the current call of \<open>devpipe_write\<close> has written are the last bytes sent. This holds up to 2 GB, where the signed
  positions overflow.
\<close>

theorem pipe_is_fifo:
  assumes "pipe_reach {0} {0} s" "length (sent s) < 2147483648"
  shows "got s = take (length (got s)) (sent s) \<and> length (sent s) \<le> length (got s) + 32 \<and>
    (rd_pc (readers s 0) \<noteq> Read_inc \<longrightarrow> (\<exists>xs. got s = xs @ rd_buf (readers s 0))) \<and>
    (\<exists>ys. sent s = ys @ take (wr_i (writers s 0)) (wr_buf (writers s 0)))"
proof -
  have "got s = take (length (got s)) (sent s)" "length (sent s) \<le> length (got s) + 32"
    using pipe_reach_inv [OF assms] unfolding pipe_inv_def Let_def by blast+
  moreover have "read_part s" "write_part s" using pipe_reach_parts [OF assms(1)] by blast+
  moreover have "rd_pc (readers s 0) \<noteq> Read_inc \<Longrightarrow> \<exists>xs. got s = xs @ rd_buf (readers s 0)"
    using calculation(3) by (simp add: read_part_def)
  moreover have "\<exists>ys. sent s = ys @ take (wr_i (writers s 0)) (wr_buf (writers s 0))"
    using calculation(4) unfolding write_part_def by blast
  ultimately show ?thesis by blast
qed

text \<open>A run for the witness: the byte 7 is written and read.\<close>

definition one_byte_sent :: pipe_sys where
  "one_byte_sent = sys_write 0 False (sys_write 0 False (sys_write 0 False
     (pipe_init\<lparr>writers := (\<lambda>_. devpipe_write [])(0 := devpipe_write [7])\<rparr>)))"

lemma one_byte_reach: "0 \<in> W \<Longrightarrow> pipe_reach R W one_byte_sent"
proof -
  assume w: "0 \<in> W"
  have "pipe_step R W pipe_init (pipe_init\<lparr>writers := (writers pipe_init)(0 := devpipe_write [7])\<rparr>)"
    using w by (rule call_write) (simp add: pipe_init_def devpipe_write_def)
  then have "pipe_reach R W (pipe_init\<lparr>writers := (\<lambda>_. devpipe_write [])(0 := devpipe_write [7])\<rparr>)"
    by (intro pipe_next [OF pipe_start]) (simp add: pipe_init_def)
  then show ?thesis unfolding one_byte_sent_def by (intro pipe_next [OF _ run_write [OF w]])
qed

lemma one_byte_state:
  "sent one_byte_sent = [7]" "got one_byte_sent = []" "readers one_byte_sent = (\<lambda>_. devpipe_read 0)"
  "p_rpos (shared one_byte_sent) = 0" "p_wpos (shared one_byte_sent) = 1" "p_buf (shared one_byte_sent) 0 = 7"
  "wr_pc (writers one_byte_sent 0) = Write_idle"
  by (simp_all add: one_byte_sent_def pipe_init_def sys_write_def write_step_def devpipe_write_def pipe_full_def
      PIPEBUFSIZ_def pipe_index_def)

text \<open>The readers with numbers in the list begin a read of one byte and take a step in turn, three times.\<close>

definition read_together :: "nat list \<Rightarrow> pipe_sys \<Rightarrow> pipe_sys" where
  "read_together is s = (let round = fold (\<lambda>i. sys_read i False) is
     in round (round (round (fold (\<lambda>i s. s\<lparr>readers := (readers s)(i := devpipe_read 1)\<rparr>) is s))))"

lemma read_together_one:
  "pipe_reach {0} {0} (read_together [0] one_byte_sent)"
  "got (read_together [0] one_byte_sent) = [7]" "sent (read_together [0] one_byte_sent) = [7]"
proof -
  have "pipe_reach {0} {0} one_byte_sent" by (rule one_byte_reach) simp
  then have "pipe_reach {0} {0} (one_byte_sent\<lparr>readers := (readers one_byte_sent)(0 := devpipe_read 1)\<rparr>)"
    by (rule pipe_next) (rule call_read, simp, simp add: one_byte_state devpipe_read_def)
  then show "pipe_reach {0} {0} (read_together [0] one_byte_sent)"
    unfolding read_together_def Let_def fold_simps comp_def id_def by (intro pipe_next [OF _ run_read]; simp)
  show "got (read_together [0] one_byte_sent) = [7]" "sent (read_together [0] one_byte_sent) = [7]"
    by (simp_all add: read_together_def sys_read_def read_step_def devpipe_read_def pipe_empty_def one_byte_state
        pipe_index_def Let_def)
qed

theorem pipe_is_fifo_witness:
  "pipe_reach {0} {0} (read_together [0] one_byte_sent) \<and>
   got (read_together [0] one_byte_sent) = take 1 [7] \<and> sent (read_together [0] one_byte_sent) = [7]"
  using pipe_is_fifo [OF read_together_one(1)] read_together_one by simp

text \<open>
  Descriptors are shared by \<open>fork\<close>, but the positions are not protected: two processes that read the same end at the same
  time can both receive the one byte that was sent, and the read position then is past the write position, so that the
  pipe, although nothing is in it, does not look empty.
\<close>

theorem pipe_two_readers_duplicate:
  "\<exists>s. pipe_reach {0, 1} {0} s \<and> sent s = [7] \<and> got s = [7, 7] \<and> rd_buf (readers s 0) = [7] \<and>
     rd_buf (readers s 1) = [7] \<and> p_rpos (shared s) = p_wpos (shared s) + 1 \<and> \<not> pipe_empty (shared s)"
proof -
  have r0: "pipe_reach {0, 1} {0} one_byte_sent" by (rule one_byte_reach) simp
  have r1: "pipe_reach {0, 1} {0} (one_byte_sent\<lparr>readers := (readers one_byte_sent)(0 := devpipe_read 1)\<rparr>)"
    by (rule pipe_next [OF r0]) (rule call_read, simp, simp add: one_byte_state devpipe_read_def)
  then have "pipe_reach {0, 1} {0} (one_byte_sent\<lparr>readers := (readers one_byte_sent)(0 := devpipe_read 1, 1 := devpipe_read 1)\<rparr>)"
    by (rule pipe_next) (use call_read [of 1 "{0, 1}" "one_byte_sent\<lparr>readers := (readers one_byte_sent)(0 := devpipe_read 1)\<rparr>" "{0}" 1]
        in \<open>simp add: one_byte_state devpipe_read_def\<close>)
  then have "pipe_reach {0, 1} {0} (read_together [0, 1] one_byte_sent)"
    unfolding read_together_def Let_def fold_simps comp_def id_def
    by (intro pipe_next [OF _ run_read]; simp)
  then show ?thesis
    by (intro exI [of _ "read_together [0, 1] one_byte_sent"])
      (simp add: read_together_def sys_read_def read_step_def devpipe_read_def pipe_empty_def one_byte_state
        pipe_index_def Let_def)
qed

end
