(* ===== verification/Pipe_Close.thy ===== *)
theory Pipe_Close
  imports Pipe
begin

text \<open>
  When an end of a pipe looks closed: \<open>_pipeisclosed\<close> of \<^verbatim>\<open>lib/pipe.c\<close> reads the reference count of the page
  of the descriptor and that of the page of the pipe, which every descriptor of either end maps too, one after the other, and again if the
  process has been interrupted meanwhile. \<open>dup\<close> of
  \<^verbatim>\<open>lib/fd.c\<close> maps the pipe before the descriptor and \<open>devpipe_close\<close> unmaps it after the descriptor, each in two
  system calls between which other processes run. \<open>fork\<close> of \<^verbatim>\<open>lib/fork.c\<close> maps the pages in the order of their
  addresses, the descriptors first.
\<close>

section \<open>Mappings and calls\<close>

datatype pipe_end = Rd | Wr

text \<open>How often a process maps the page of the descriptor of an end, and the pipe's page next to such a descriptor.\<close>

record mappings =
  fd_maps :: "pipe_end \<Rightarrow> nat"
  data_maps :: "pipe_end \<Rightarrow> nat"

datatype vm_op = Map_fd pipe_end | Map_data pipe_end | Unmap_fd pipe_end | Unmap_data pipe_end

fun vm_exec :: "vm_op \<Rightarrow> mappings \<Rightarrow> mappings" where
  "vm_exec (Map_fd x) m = m\<lparr>fd_maps := (fd_maps m)(x := fd_maps m x + 1)\<rparr>"
| "vm_exec (Map_data x) m = m\<lparr>data_maps := (data_maps m)(x := data_maps m x + 1)\<rparr>"
| "vm_exec (Unmap_fd x) m = m\<lparr>fd_maps := (fd_maps m)(x := fd_maps m x - 1)\<rparr>"
| "vm_exec (Unmap_data x) m = m\<lparr>data_maps := (data_maps m)(x := data_maps m x - 1)\<rparr>"

definition dup_pipe :: "pipe_end \<Rightarrow> vm_op list" where
  "dup_pipe x = [Map_data x, Map_fd x]"

definition devpipe_close :: "pipe_end \<Rightarrow> vm_op list" where
  "devpipe_close x = [Unmap_fd x, Unmap_data x]"

text \<open>
  What \<open>fork\<close> maps in the child of a process with the given mappings: the descriptor table lies below the data pages.
\<close>

definition fork_pipe :: "mappings \<Rightarrow> vm_op list" where
  "fork_pipe m = replicate (fd_maps m Rd) (Map_fd Rd) @ replicate (fd_maps m Wr) (Map_fd Wr) @
     replicate (data_maps m Rd) (Map_data Rd) @ replicate (data_maps m Wr) (Map_data Wr)"

section \<open>The check\<close>

text \<open>
  Where a process is in \<open>_pipeisclosed\<close>, with what it has read: the number of its runs, the one or the other count, and
  whether they are equal. C leaves open which operand of \<open>==\<close> is evaluated first.
\<close>

datatype check_pc = Start | Got_runs u32 | Got_fd u32 u16 | Got_data u32 u16 | Got_both u32 bool | Answer bool

text \<open>One access: \<open>runs\<close>, \<open>rfd\<close> and \<open>rdata\<close> are what \<open>env_runs\<close> and the two counts are at this moment.\<close>

fun pipeisclosed :: "bool \<Rightarrow> u32 \<Rightarrow> u16 \<Rightarrow> u16 \<Rightarrow> check_pc \<Rightarrow> check_pc" where
  "pipeisclosed left runs rfd rdata Start = Got_runs runs"
| "pipeisclosed left runs rfd rdata (Got_runs n) = (if left then Got_fd n rfd else Got_data n rdata)"
| "pipeisclosed left runs rfd rdata (Got_fd n a) = Got_both n (a = rdata)"
| "pipeisclosed left runs rfd rdata (Got_data n b) = Got_both n (rfd = b)"
| "pipeisclosed left runs rfd rdata (Got_both n ret) = (if n = runs then Answer ret else Start)"
| "pipeisclosed left runs rfd rdata (Answer ret) = Answer ret"

lemma pipeisclosed_undisturbed: "(pipeisclosed left runs a b ^^ 4) Start = Answer (a = b)"
  by (simp add: eval_nat_numeral)

section \<open>Processes on their CPUs\<close>

text \<open>
  What a process is doing: the system calls left of the library call it is in, each with the process whose mappings it changes, or
  the check of an end.
\<close>

datatype activity = Calls "(nat \<times> vm_op) list" | Checking pipe_end check_pc

fun idle :: "activity \<Rightarrow> bool" where
  "idle (Calls as) = (as = [])"
| "idle (Checking x pc) = (case pc of Answer r \<Rightarrow> True | _ \<Rightarrow> False)"

record proc =
  maps :: mappings
  runs :: u32
  act :: activity

text \<open>The processes, and the one that each CPU runs.\<close>

record procs =
  proc :: "nat \<Rightarrow> proc"
  cpu :: "nat \<Rightarrow> nat option"

definition upd_proc :: "nat \<Rightarrow> (proc \<Rightarrow> proc) \<Rightarrow> procs \<Rightarrow> procs" where
  "upd_proc i f s = s\<lparr>proc := (proc s)(i := f (proc s i))\<rparr>"

lemma upd_proc_fields [simp]:
  "proc (upd_proc i f s) j = (if j = i then f (proc s i) else proc s j)" "cpu (upd_proc i f s) = cpu s"
  by (simp_all add: upd_proc_def)

definition fd_refs :: "nat \<Rightarrow> procs \<Rightarrow> pipe_end \<Rightarrow> nat" where
  "fd_refs n s x = (\<Sum>i<n. fd_maps (maps (proc s i)) x)"

definition data_refs :: "nat \<Rightarrow> procs \<Rightarrow> nat" where
  "data_refs n s = (\<Sum>i<n. data_maps (maps (proc s i)) Rd + data_maps (maps (proc s i)) Wr)"

text \<open>The values of \<open>pageref\<close>, in 16 bits.\<close>

definition pageref_fd :: "nat \<Rightarrow> procs \<Rightarrow> pipe_end \<Rightarrow> u16" where
  "pageref_fd n s x = word_of_nat (fd_refs n s x)"

definition pageref_data :: "nat \<Rightarrow> procs \<Rightarrow> u16" where
  "pageref_data n s = word_of_nat (data_refs n s)"

definition slots_used :: "mappings \<Rightarrow> nat" where
  "slots_used m = data_maps m Rd + data_maps m Wr"

definition MAXFD_PIPE :: nat where "MAXFD_PIPE = 32"

text \<open>
  With \<open>n\<close> processes on \<open>c\<close> CPUs. Only a process that has a descriptor of the end can duplicate, close or check it, and a
  duplicate takes one of the 32 slots, which \<open>dup\<close> has closed before. Between any two accesses or system calls a CPU can turn to another
  process, as \<open>env_run\<close> does, which counts the runs.
\<close>

inductive proc_step :: "nat \<Rightarrow> nat \<Rightarrow> bool \<Rightarrow> procs \<Rightarrow> procs \<Rightarrow> bool" for c n forks where
  call_dup: "k < c \<Longrightarrow> cpu s k = Some i \<Longrightarrow> i < n \<Longrightarrow> idle (act (proc s i)) \<Longrightarrow> 0 < fd_maps (maps (proc s i)) x \<Longrightarrow>
    slots_used (maps (proc s i)) < MAXFD_PIPE \<Longrightarrow>
    proc_step c n forks s (upd_proc i (\<lambda>p. p\<lparr>act := Calls (map (Pair i) (dup_pipe x))\<rparr>) s)"
| call_close: "k < c \<Longrightarrow> cpu s k = Some i \<Longrightarrow> i < n \<Longrightarrow> idle (act (proc s i)) \<Longrightarrow> 0 < fd_maps (maps (proc s i)) x \<Longrightarrow>
    proc_step c n forks s (upd_proc i (\<lambda>p. p\<lparr>act := Calls (map (Pair i) (devpipe_close x))\<rparr>) s)"
| call_fork: "k < c \<Longrightarrow> cpu s k = Some i \<Longrightarrow> i < n \<Longrightarrow> forks \<Longrightarrow> j < n \<Longrightarrow> j \<noteq> i \<Longrightarrow> idle (act (proc s i)) \<Longrightarrow>
    proc_step c n forks s (upd_proc i (\<lambda>p. p\<lparr>act := Calls (map (Pair j) (fork_pipe (maps p)))\<rparr>) s)"
| call_check: "k < c \<Longrightarrow> cpu s k = Some i \<Longrightarrow> i < n \<Longrightarrow> idle (act (proc s i)) \<Longrightarrow> 0 < fd_maps (maps (proc s i)) x \<Longrightarrow>
    proc_step c n forks s (upd_proc i (\<lambda>p. p\<lparr>act := Checking x Start\<rparr>) s)"
| exec_op: "k < c \<Longrightarrow> cpu s k = Some i \<Longrightarrow> i < n \<Longrightarrow> act (proc s i) = Calls ((j, a) # as) \<Longrightarrow>
    proc_step c n forks s (upd_proc j (\<lambda>p. p\<lparr>maps := vm_exec a (maps p)\<rparr>) (upd_proc i (\<lambda>p. p\<lparr>act := Calls as\<rparr>) s))"
| check: "k < c \<Longrightarrow> cpu s k = Some i \<Longrightarrow> i < n \<Longrightarrow> act (proc s i) = Checking x pc \<Longrightarrow>
    pc' = pipeisclosed left (runs (proc s i)) (pageref_fd n s x) (pageref_data n s) pc \<Longrightarrow>
    proc_step c n forks s (upd_proc i (\<lambda>p. p\<lparr>act := Checking x pc'\<rparr>) s)"
| switch: "k < c \<Longrightarrow> i < n \<Longrightarrow> \<forall>l<c. cpu s l \<noteq> Some i \<Longrightarrow>
    proc_step c n forks s (upd_proc i (\<lambda>p. p\<lparr>runs := runs p + 1\<rparr>) (s\<lparr>cpu := (cpu s)(k := Some i)\<rparr>))"
| halt: "k < c \<Longrightarrow> proc_step c n forks s (s\<lparr>cpu := (cpu s)(k := None)\<rparr>)"

section \<open>The order of dup and close is safe\<close>

fun pending_ok :: "nat \<Rightarrow> mappings \<Rightarrow> (nat \<times> vm_op) list \<Rightarrow> bool" where
  "pending_ok i m [] = True"
| "pending_ok i m [(j, Map_data x), (j', Map_fd x')] = (j = i \<and> j' = i \<and> x' = x \<and> 0 < fd_maps m x \<and> slots_used m < MAXFD_PIPE)"
| "pending_ok i m [(j, Unmap_fd x), (j', Unmap_data x')] = (j = i \<and> j' = i \<and> x' = x \<and> 0 < fd_maps m x)"
| "pending_ok i m [(j, Map_fd x)] = (j = i \<and> 0 < fd_maps m x \<and> fd_maps m x < data_maps m x)"
| "pending_ok i m [(j, Unmap_data x)] = (j = i \<and> fd_maps m x < data_maps m x)"
| "pending_ok i m _ = False"

definition maps_ok :: "mappings \<Rightarrow> bool" where
  "maps_ok m \<longleftrightarrow> (\<forall>x. fd_maps m x \<le> data_maps m x) \<and> slots_used m \<le> MAXFD_PIPE"

fun pending :: "activity \<Rightarrow> (nat \<times> vm_op) list" where
  "pending (Calls as) = as"
| "pending (Checking x pc) = []"

definition ordered :: "nat \<Rightarrow> procs \<Rightarrow> bool" where
  "ordered n s \<longleftrightarrow> (\<forall>i<n. pending_ok i (maps (proc s i)) (pending (act (proc s i))) \<and> maps_ok (maps (proc s i)))"

lemma pred_le: "(a :: nat) \<le> b \<Longrightarrow> a - Suc 0 \<le> b"
  by simp

lemma pending_okE:
  assumes "pending_ok i m ((j, a) # as)" "maps_ok m"
  shows "j = i \<and> pending_ok i (vm_exec a m) as \<and> maps_ok (vm_exec a m)"
  using assms
  by (cases "(i, m, (j, a) # as)" rule: pending_ok.cases)
    (auto simp: less_eq_Suc_le pred_le le_SucI maps_ok_def slots_used_def split: pipe_end.splits)

lemma ordered_step: "proc_step c n False s s' \<Longrightarrow> ordered n s \<Longrightarrow> ordered n s'"
proof (induction rule: proc_step.induct)
  case (exec_op k s i j a as)
  then have "pending_ok i (maps (proc s i)) ((j, a) # as)" "maps_ok (maps (proc s i))"
    by (auto simp: ordered_def)
  from pending_okE [OF this] exec_op show ?case by (auto simp: ordered_def)
qed (auto simp: ordered_def dup_pipe_def devpipe_close_def)

definition other_end :: "pipe_end \<Rightarrow> pipe_end" where
  "other_end x = (case x of Rd \<Rightarrow> Wr | Wr \<Rightarrow> Rd)"

text \<open>No process maps anything of the other end; then none ever will again.\<close>

definition end_closed :: "nat \<Rightarrow> pipe_end \<Rightarrow> procs \<Rightarrow> bool" where
  "end_closed n x s \<longleftrightarrow> (\<forall>i<n. data_maps (maps (proc s i)) (other_end x) = 0)"

lemma pending_closed:
  assumes "pending_ok i m ((j, a) # as)" "maps_ok m" "data_maps m y = 0"
  shows "data_maps (vm_exec a m) y = 0"
  using assms by (cases "(i, m, (j, a) # as)" rule: pending_ok.cases) (auto simp: maps_ok_def dest!: spec [where x = y])

lemma closed_step: "proc_step c n False s s' \<Longrightarrow> ordered n s \<Longrightarrow> end_closed n x s \<Longrightarrow> end_closed n x s'"
proof (induction rule: proc_step.induct)
  case (exec_op k s i j a as)
  then have "pending_ok i (maps (proc s i)) ((j, a) # as)" "maps_ok (maps (proc s i))" "data_maps (maps (proc s i)) (other_end x) = 0"
    by (auto simp: ordered_def end_closed_def)
  from pending_okE [OF this(1,2)] pending_closed [OF this] exec_op show ?case by (auto simp: end_closed_def)
qed (auto simp: end_closed_def)

lemma counts_small:
  assumes "ordered n s" "n \<le> 1024"
  shows "data_refs n s < 65536" "fd_refs n s x + fd_refs n s (other_end x) \<le> data_refs n s"
proof -
  have m: "maps_ok (maps (proc s i))" if "i < n" for i using assms(1) that by (simp add: ordered_def)
  have "data_refs n s \<le> (\<Sum>i<n. 32)"
    unfolding data_refs_def by (rule sum_mono) (use m in \<open>auto simp: maps_ok_def slots_used_def MAXFD_PIPE_def\<close>)
  then show "data_refs n s < 65536" using assms(2) by simp
  show "fd_refs n s x + fd_refs n s (other_end x) \<le> data_refs n s"
    unfolding fd_refs_def data_refs_def sum.distrib [symmetric]
    by (rule sum_mono) (use m in \<open>cases x; simp add: other_end_def maps_ok_def add_mono add.commute\<close>)
qed

lemma equal_counts_closed:
  assumes o: "ordered n s" "n \<le> 1024" and e: "pageref_fd n s x = pageref_data n s"
  shows "end_closed n x s"
proof -
  note c = counts_small [OF o]
  have "unat (pageref_fd n s x) = fd_refs n s x" "unat (pageref_data n s) = data_refs n s"
    unfolding pageref_fd_def pageref_data_def using c(1) c(2) [of x]
    by (simp_all add: unsigned_of_nat take_bit_nat_eq_self)
  then have eq: "fd_refs n s x = data_refs n s" using e by simp
  have m: "maps_ok (maps (proc s i))" if "i < n" for i using o(1) that by (simp add: ordered_def)
  have "(\<Sum>i<n. data_maps (maps (proc s i)) x + data_maps (maps (proc s i)) (other_end x)) = data_refs n s"
    unfolding data_refs_def by (cases x) (simp_all add: other_end_def add.commute)
  moreover have "fd_refs n s x \<le> (\<Sum>i<n. data_maps (maps (proc s i)) x)"
    unfolding fd_refs_def by (rule sum_mono) (use m in \<open>auto simp: maps_ok_def\<close>)
  ultimately have "(\<Sum>i<n. data_maps (maps (proc s i)) (other_end x)) = 0" using eq unfolding sum.distrib by linarith
  then show ?thesis by (simp add: end_closed_def)
qed

section \<open>On one CPU the check is atomic\<close>

text \<open>
  What a process in the check knows while the CPU has not turned away from it since it read \<open>env_runs\<close>, which shows in the number of
  its runs: the count it has read is still right, and an equality it has found means that the end is closed.
\<close>

fun knows :: "nat \<Rightarrow> procs \<Rightarrow> nat \<Rightarrow> activity \<Rightarrow> bool" where
  "knows n s i (Calls as) = True"
| "knows n s i (Checking x Start) = True"
| "knows n s i (Checking x (Got_runs m)) = (m \<le> runs (proc s i))"
| "knows n s i (Checking x (Got_fd m a)) = (m \<le> runs (proc s i) \<and> (m = runs (proc s i) \<and> cpu s 0 = Some i \<longrightarrow> a = pageref_fd n s x))"
| "knows n s i (Checking x (Got_data m b)) = (m \<le> runs (proc s i) \<and> (m = runs (proc s i) \<and> cpu s 0 = Some i \<longrightarrow> b = pageref_data n s))"
| "knows n s i (Checking x (Got_both m ret)) = (m \<le> runs (proc s i) \<and> (m = runs (proc s i) \<and> ret \<longrightarrow> end_closed n x s))"
| "knows n s i (Checking x (Answer ret)) = (ret \<longrightarrow> end_closed n x s)"

text \<open>A process keeps what it knows when another one acts, and when the CPU turns to it or away.\<close>

lemma knows_other:
  assumes "knows n s i a" "runs (proc s' i) = runs (proc s i)" "cpu s' 0 \<noteq> Some i" "\<And>x. end_closed n x s \<Longrightarrow> end_closed n x s'"
  shows "knows n s' i a"
  using assms by (cases "(n, s, i, a)" rule: knows.cases) auto

lemma knows_switched:
  assumes "knows n s i a" "runs (proc s' i) = runs (proc s i) + 1" "unat (runs (proc s i)) < 2 ^ 32 - 1" "\<And>x. end_closed n x s \<Longrightarrow> end_closed n x s'"
  shows "knows n s' i a"
proof -
  have "runs (proc s i) < runs (proc s' i)"
    using assms(2,3) by (simp add: word_less_nat_alt unat_word_ariths)
  then have "m \<le> runs (proc s i) \<Longrightarrow> m < runs (proc s' i)" for m using le_less_trans by blast
  then show ?thesis using assms(1,4) by (cases "(n, s, i, a)" rule: knows.cases) (auto simp: less_imp_le)
qed

lemma knows_check:
  assumes o: "ordered n s" "n \<le> 1024" and k: "knows n s i (Checking x pc)" and c: "cpu s 0 = Some i"
    and same: "proc s' i = (proc s i)\<lparr>act := b\<rparr>" "cpu s' = cpu s" "pageref_fd n s' x = pageref_fd n s x" "pageref_data n s' = pageref_data n s"
    and cl: "end_closed n x s \<Longrightarrow> end_closed n x s'"
  shows "knows n s' i (Checking x (pipeisclosed left (runs (proc s i)) (pageref_fd n s x) (pageref_data n s) pc))"
  using k c same cl equal_counts_closed [OF o, of x] by (cases pc) auto

definition checks_ok :: "nat \<Rightarrow> procs \<Rightarrow> bool" where
  "checks_ok n s \<longleftrightarrow> (\<forall>i<n. knows n s i (act (proc s i)))"

lemma refs_act [simp]:
  "fd_refs n (upd_proc i (\<lambda>p. p\<lparr>act := b p\<rparr>) s) x = fd_refs n s x" "data_refs n (upd_proc i (\<lambda>p. p\<lparr>act := b p\<rparr>) s) = data_refs n s"
  by (auto simp: fd_refs_def data_refs_def intro!: sum.cong)


lemma pagerefs_act [simp]:
  "pageref_fd n (upd_proc i (\<lambda>p. p\<lparr>act := b p\<rparr>) s) x = pageref_fd n s x" "pageref_data n (upd_proc i (\<lambda>p. p\<lparr>act := b p\<rparr>) s) = pageref_data n s"
  by (simp_all add: pageref_fd_def pageref_data_def)

lemma checks_ok_running:
  assumes c: "checks_ok n s" and cl: "\<And>x. end_closed n x s \<Longrightarrow> end_closed n x s'"
    and cpu: "cpu s' 0 = Some i"
    and same: "\<And>j. j \<noteq> i \<Longrightarrow> proc s' j = proc s j" and own: "i < n \<Longrightarrow> knows n s' i (act (proc s' i))"
  shows "checks_ok n s'"
  unfolding checks_ok_def
proof (intro allI impI)
  fix j assume j: "j < n"
  show "knows n s' j (act (proc s' j))"
  proof (cases "j = i")
    case True then show ?thesis using own j by simp
  next
    case False
    have "knows n s' j (act (proc s j))"
    proof (rule knows_other [of n s, rotated])
      show "runs (proc s' j) = runs (proc s j)" by (simp add: same [OF False])
      show "cpu s' 0 \<noteq> Some j" using cpu False by simp
      show "knows n s j (act (proc s j))" using c j by (simp add: checks_ok_def)
    qed (rule cl)
    then show ?thesis using same [OF False] by simp
  qed
qed

lemma checks_ok_step:
  assumes st: "proc_step 1 n False s s'" and o: "ordered n s" "n \<le> 1024" and r: "\<forall>i<n. unat (runs (proc s i)) < 2 ^ 32 - 1" and c: "checks_ok n s"
  shows "checks_ok n s'"
proof -
  have cl: "end_closed n x s \<Longrightarrow> end_closed n x s'" for x using closed_step [OF st o(1)] .
  have k: "i < n \<Longrightarrow> knows n s i (act (proc s i))" for i using c by (simp add: checks_ok_def)
  show ?thesis using st
  proof cases
    case (call_dup k i x)
    then show ?thesis by (intro checks_ok_running [OF c cl, of i]) simp_all
  next
    case (call_close k i x)
    then show ?thesis by (intro checks_ok_running [OF c cl, of i]) simp_all
  next
    case (call_check k i x)
    then show ?thesis by (intro checks_ok_running [OF c cl, of i]) simp_all
  next
    case (exec_op k i j a as)
    then have "pending_ok i (maps (proc s i)) ((j, a) # as)" "maps_ok (maps (proc s i))" using o(1)
      by (auto simp: ordered_def)
    then have "j = i" using pending_okE by blast
    then show ?thesis using exec_op by (intro checks_ok_running [OF c cl, of i]) simp_all
  next
    case (check k i x pc pc' left)
    then have "knows n s i (Checking x pc)" using k [of i] by simp
    moreover have "cpu s 0 = Some i" using check by simp
    ultimately have "knows n s' i (Checking x pc')"
      unfolding check(6) by (rule knows_check [OF o]) (use check(1) cl in simp_all)
    then show ?thesis using check by (intro checks_ok_running [OF c cl, of i]) simp_all
  next
    case (switch k i)
    have i: "i < n" by (rule switch(3))
    have "knows n s' i (act (proc s i))"
    proof (rule knows_switched [OF k [OF i]])
      show "runs (proc s' i) = runs (proc s i) + 1" by (simp add: switch(1))
      show "unat (runs (proc s i)) < 2 ^ 32 - 1" using r i by blast
    qed (rule cl)
    then show ?thesis using switch by (intro checks_ok_running [OF c cl, of i]) simp_all
  next
    case (halt k)
    have "knows n s' i (act (proc s i))" if "i < n" for i
    proof (rule knows_other [OF k [OF that]])
      show "runs (proc s' i) = runs (proc s i)" by (simp add: halt(1))
      show "cpu s' 0 \<noteq> Some i" using halt(2) by (simp add: halt(1))
    qed (rule cl)
    then show ?thesis using halt by (simp add: checks_ok_def)
  qed simp
qed

lemma runs_step: "proc_step c n forks s s' \<Longrightarrow> unat (runs (proc s' i)) \<le> unat (runs (proc s i)) + 1"
  by (induction rule: proc_step.induct) (auto simp: unat_word_ariths)

lemma checks_ok_run:
  assumes "(proc_step 1 n False ^^ k) s s'" "ordered n s" "n \<le> 1024" "checks_ok n s"
    "\<forall>i<n. unat (runs (proc s i)) + k < 2 ^ 32"
  shows "ordered n s' \<and> checks_ok n s' \<and> (\<forall>i<n. unat (runs (proc s' i)) \<le> unat (runs (proc s i)) + k)"
  using assms
proof (induction k arbitrary: s')
  case (Suc k)
  then obtain t where t: "(proc_step 1 n False ^^ k) s t" "proc_step 1 n False t s'" by auto
  have b: "unat (runs (proc s i)) + Suc k < 2 ^ 32" if "i < n" for i using Suc.prems(5) that by blast
  have "\<forall>i<n. unat (runs (proc s i)) + k < 2 ^ 32" using b Suc_lessD add_Suc_right by metis
  from Suc.IH [OF t(1) Suc.prems(2-4) this] have IH: "ordered n t" "checks_ok n t"
    and r: "\<And>i. i < n \<Longrightarrow> unat (runs (proc t i)) \<le> unat (runs (proc s i)) + k" by blast+
  have "\<forall>i<n. unat (runs (proc t i)) < 2 ^ 32 - 1" using r b by fastforce
  from checks_ok_step [OF t(2) IH(1) assms(3) this IH(2)] ordered_step [OF t(2) IH(1)]
  have "ordered n s'" "checks_ok n s'" by blast+
  moreover have "unat (runs (proc s' i)) \<le> unat (runs (proc s i)) + Suc k" if "i < n" for i
    using r [OF that] runs_step [OF t(2), of i] by linarith
  ultimately show ?case by blast
qed simp


section \<open>Runs\<close>

lemma upd_proc_twice [simp]: "upd_proc i f (upd_proc i g s) = upd_proc i (\<lambda>p. f (g p)) s"
  by (simp add: upd_proc_def)

lemma check_step:
  assumes "k < c" "cpu s k = Some i" "i < n"
  shows "proc_step c n forks (upd_proc i (\<lambda>p. p\<lparr>act := Checking x pc\<rparr>) s)
    (upd_proc i (\<lambda>p. p\<lparr>act := Checking x (pipeisclosed left (runs (proc s i)) (pageref_fd n s x) (pageref_data n s) pc)\<rparr>) s)"
proof -
  let ?s = "upd_proc i (\<lambda>p. p\<lparr>act := Checking x pc\<rparr>) s"
  have "proc_step c n forks ?s (upd_proc i (\<lambda>p. p\<lparr>act := Checking x (pipeisclosed left (runs (proc s i)) (pageref_fd n s x) (pageref_data n s) pc)\<rparr>) ?s)"
    by (rule proc_step.check [where k = k and pc = pc and left = left]) (use assms in simp_all)
  then show ?thesis by simp
qed

lemma check_run:
  assumes "k < c" "cpu s k = Some i" "i < n"
  shows "(proc_step c n forks ^^ 4) (upd_proc i (\<lambda>p. p\<lparr>act := Checking x Start\<rparr>) s)
    (upd_proc i (\<lambda>p. p\<lparr>act := Checking x (Answer (pageref_fd n s x = pageref_data n s))\<rparr>) s)"
proof -
  note st = check_step [OF assms, of forks x _ True]
  have "(proc_step c n forks ^^ Suc (Suc (Suc (Suc 0)))) (upd_proc i (\<lambda>p. p\<lparr>act := Checking x Start\<rparr>) s)
    (upd_proc i (\<lambda>p. p\<lparr>act := Checking x (Answer (pageref_fd n s x = pageref_data n s))\<rparr>) s)"
    using st [of Start] st [of "Got_runs (runs (proc s i))"] st [of "Got_fd (runs (proc s i)) (pageref_fd n s x)"]
      st [of "Got_both (runs (proc s i)) (pageref_fd n s x = pageref_data n s)"]
    by (intro relpowp_Suc_I) (auto intro: relpowp_0_I)
  then show ?thesis by (simp add: eval_nat_numeral)
qed

text \<open>The process 0 has some ends open and the process 1 the read end; each CPU runs one of them or none.\<close>

definition demo_procs :: "pipe_end list \<Rightarrow> nat option list \<Rightarrow> procs" where
  "demo_procs ends cpus = \<lparr>proc = (\<lambda>i. let f = (\<lambda>x. if i = 0 \<and> x \<in> set ends \<or> i = 1 \<and> x = Rd then 1 else 0)
       in \<lparr>maps = \<lparr>fd_maps = f, data_maps = f\<rparr>, runs = 0, act = Calls []\<rparr>),
     cpu = (\<lambda>k. if k < length cpus then cpus ! k else None)\<rparr>"

lemma demo_ordered: "ordered 3 (demo_procs ends cpus)"
  by (simp add: ordered_def demo_procs_def Let_def maps_ok_def slots_used_def MAXFD_PIPE_def)

lemma upto_3: "{..<3} = {0, 1, 2 :: nat}"
  by auto


section \<open>When the answer is wrong\<close>

text \<open>
  While \<open>fork\<close> copies a process that has both ends, there is a moment at which the read end looks closed to another
  reader on the same CPU, although the write end is open all the time: that reader returns end of file.
\<close>

theorem fork_makes_pipe_look_closed:
  "\<exists>s. (proc_step 1 3 True)\<^sup>*\<^sup>* (demo_procs [Rd, Wr] [Some 0]) s \<and> act (proc s 1) = Checking Rd (Answer True) \<and>
     0 < fd_maps (maps (proc s 0)) Wr"
proof -
  let ?s = "demo_procs [Rd, Wr] [Some 0]"
  let ?as = "map (Pair 2) (fork_pipe (maps (proc ?s 0)))"
  let ?s1 = "upd_proc 0 (\<lambda>p. p\<lparr>act := Calls (map (Pair 2) (fork_pipe (maps p)))\<rparr>) ?s"
  let ?s2 = "upd_proc 2 (\<lambda>p. p\<lparr>maps := vm_exec (Map_fd Rd) (maps p)\<rparr>) (upd_proc 0 (\<lambda>p. p\<lparr>act := Calls (tl ?as)\<rparr>) ?s1)"
  let ?s3 = "upd_proc 1 (\<lambda>p. p\<lparr>runs := runs p + 1\<rparr>) (?s2\<lparr>cpu := (cpu ?s2)(0 := Some 1)\<rparr>)"
  let ?s4 = "upd_proc 1 (\<lambda>p. p\<lparr>act := Checking Rd Start\<rparr>) ?s3"
  let ?s5 = "upd_proc 1 (\<lambda>p. p\<lparr>act := Checking Rd (Answer (pageref_fd 3 ?s3 Rd = pageref_data 3 ?s3))\<rparr>) ?s3"
  have as: "?as = (2, Map_fd Rd) # tl ?as" by (simp add: fork_pipe_def demo_procs_def Let_def)
  have 1: "proc_step 1 3 True ?s ?s1" by (rule call_fork [where k = 0]) (simp_all add: demo_procs_def Let_def)
  have 2: "proc_step 1 3 True ?s1 ?s2" by (rule exec_op [where k = 0]) (use as in \<open>simp_all add: demo_procs_def\<close>)
  have 3: "proc_step 1 3 True ?s2 ?s3" by (rule switch) (simp_all add: demo_procs_def)
  have 4: "proc_step 1 3 True ?s3 ?s4" by (rule call_check [where k = 0]) (simp_all add: demo_procs_def Let_def)
  have "(proc_step 1 3 True ^^ 4) ?s4 ?s5" by (rule check_run [where k = 0]) simp_all
  then have 5: "(proc_step 1 3 True)\<^sup>*\<^sup>* ?s4 ?s5" by (rule relpowp_imp_rtranclp)
  have "(proc_step 1 3 True)\<^sup>*\<^sup>* ?s ?s5" using 1 2 3 4 5 by (meson converse_rtranclp_into_rtranclp)
  moreover have "pageref_fd 3 ?s3 Rd = pageref_data 3 ?s3"
    by (simp add: pageref_fd_def pageref_data_def fd_refs_def data_refs_def demo_procs_def Let_def upto_3)
  then have "act (proc ?s5 1) = Checking Rd (Answer True)" by simp
  moreover have "0 < fd_maps (maps (proc ?s5 0)) Wr" by (simp add: demo_procs_def Let_def)
  ultimately show ?thesis by blast
qed

text \<open>
  With a second CPU no \<open>fork\<close> is needed: between the two counts that a reader reads, the process on the other CPU closes its own descriptor of
  the read end. The number of the reader's runs does not change, so that it takes the end for closed; the write end is open.
\<close>

theorem two_cpus_make_pipe_look_closed:
  "\<exists>s. (proc_step 2 3 False)\<^sup>*\<^sup>* (demo_procs [Rd, Wr] [Some 1, Some 0]) s \<and> act (proc s 1) = Checking Rd (Answer True) \<and>
     0 < fd_maps (maps (proc s 0)) Wr"
proof -
  let ?s = "demo_procs [Rd, Wr] [Some 1, Some 0]"
  let ?at = "\<lambda>pc. upd_proc 1 (\<lambda>p. p\<lparr>act := Checking Rd pc\<rparr>)"
  let ?s3 = "?at (Got_fd 0 2) ?s"
  let ?s4 = "upd_proc 0 (\<lambda>p. p\<lparr>act := Calls (map (Pair 0) (devpipe_close Rd))\<rparr>) ?s3"
  let ?s5 = "upd_proc 0 (\<lambda>p. p\<lparr>maps := vm_exec (Unmap_fd Rd) (maps p)\<rparr>) (upd_proc 0 (\<lambda>p. p\<lparr>act := Calls [(0, Unmap_data Rd)]\<rparr>) ?s4)"
  let ?s6 = "upd_proc 0 (\<lambda>p. p\<lparr>maps := vm_exec (Unmap_data Rd) (maps p)\<rparr>) (upd_proc 0 (\<lambda>p. p\<lparr>act := Calls []\<rparr>) ?s5)"
  note count = pageref_fd_def pageref_data_def fd_refs_def data_refs_def demo_procs_def Let_def upto_3
  have 0: "proc_step 2 3 False ?s (?at Start ?s)"
    by (rule call_check [where k = 0]) (simp_all add: demo_procs_def Let_def)
  have 1: "proc_step 2 3 False (?at Start ?s) (?at (Got_runs 0) ?s)"
    using check_step [of 0 2 ?s 1 3 False Rd Start True] by (simp add: count)
  have 2: "proc_step 2 3 False (?at (Got_runs 0) ?s) ?s3"
    using check_step [of 0 2 ?s 1 3 False Rd "Got_runs 0" True] by (simp add: count)
  have 3: "proc_step 2 3 False ?s3 ?s4" by (rule call_close [where k = 1]) (simp_all add: demo_procs_def Let_def)
  have 4: "proc_step 2 3 False ?s4 ?s5" by (rule exec_op [where k = 1]) (simp_all add: demo_procs_def devpipe_close_def)
  have 5: "proc_step 2 3 False ?s5 ?s6" by (rule exec_op [where k = 1]) (simp_all add: demo_procs_def)
  have 6: "proc_step 2 3 False ?s6 (?at (Got_both 0 True) ?s6)"
    by (rule proc_step.check [where k = 0 and pc = "Got_fd 0 2"]) (simp_all add: count)
  have 7: "proc_step 2 3 False (?at (Got_both 0 True) ?s6) (?at (Answer True) ?s6)"
    using check_step [of 0 2 ?s6 1 3 False Rd "Got_both 0 True" True] by (simp add: demo_procs_def Let_def)
  have "(proc_step 2 3 False)\<^sup>*\<^sup>* ?s (?at (Answer True) ?s6)"
    using 0 1 2 3 4 5 6 7 by (meson converse_rtranclp_into_rtranclp rtranclp.rtrancl_refl)
  moreover have "0 < fd_maps (maps (proc (?at (Answer True) ?s6) 0)) Wr" by (simp add: demo_procs_def Let_def)
  ultimately show ?thesis by (intro exI [of _ "?at (Answer True) ?s6"]) simp
qed

end
