(* ===== verification/Console.thy ===== *)
theory Console
  imports Jos_Prelude
begin

text \<open>
  The console, \<^verbatim>\<open>kern/console.c\<close>, with \<^verbatim>\<open>inc/kbdreg.h\<close>: the screen in text mode, the decoding of scan codes and the
  circular buffer that the interrupt routines fill and \<open>cons_getc\<close> empties. The ports of the devices are what is
  read from them, a list of bytes, and what is written to them, a log; the delays of the serial and the parallel port
  are left out.
\<close>

section \<open>State\<close>

definition CRT_ROWS :: nat where "CRT_ROWS = 25"
definition CRT_COLS :: nat where "CRT_COLS = 80"
definition CRT_SIZE :: nat where "CRT_SIZE = CRT_ROWS * CRT_COLS"
definition CONSBUFSIZE :: nat where "CONSBUFSIZE = 512"

record console =
  crt_buf :: "nat \<Rightarrow> u16"
  crt_pos :: u16
  crt_cursor :: u16
  com_out :: "u8 list"
  lpt_out :: "u8 list"
  cons_buf :: "nat \<Rightarrow> u8"
  cons_rpos :: nat
  cons_wpos :: nat
  kbd_shift :: u32

section \<open>The screen\<close>

definition serial_putc :: "u32 \<Rightarrow> console \<Rightarrow> console" where
  "serial_putc c s = s\<lparr>com_out := com_out s @ [ucast c]\<rparr>"

definition lpt_putc :: "u32 \<Rightarrow> console \<Rightarrow> console" where
  "lpt_putc c s = s\<lparr>lpt_out := lpt_out s @ [ucast c]\<rparr>"

definition crt_put :: "u16 \<Rightarrow> u16 \<Rightarrow> console \<Rightarrow> console" where
  "crt_put pos c s = s\<lparr>crt_buf := (crt_buf s)(unat pos := c)\<rparr>"

text \<open>The end of \<open>cga_putc\<close>: scrolling by a line, and setting the cursor.\<close>

definition crt_scroll :: "console \<Rightarrow> console" where
  "crt_scroll s =
    (if unat (crt_pos s) \<ge> CRT_SIZE
     then s\<lparr>crt_buf := (\<lambda>i. if i < CRT_SIZE - CRT_COLS then crt_buf s (i + CRT_COLS)
                            else if i < CRT_SIZE then 0x0700 OR 32 else crt_buf s i),
            crt_pos := crt_pos s - word_of_nat CRT_COLS\<rparr>
     else s)"

definition crt_finish :: "console \<Rightarrow> console" where
  "crt_finish s = (let s = crt_scroll s in s\<lparr>crt_cursor := crt_pos s\<rparr>)"

definition with_attribute :: "u32 \<Rightarrow> u32" where
  "with_attribute c = (if c AND NOT 0xFF = 0 then c OR 0x0700 else c)"

text \<open>
  \<open>cga_putc\<close> of anything but a tab. A tab is five spaces through \<open>cons_putc\<close>, which calls \<open>cga_putc\<close> again.
\<close>

definition cga_char :: "u32 \<Rightarrow> console \<Rightarrow> console" where
  "cga_char ch s =
    (let c = with_attribute ch; k = c AND 0xFF
     in crt_finish
       (if k = 8 then
          (if crt_pos s > 0
           then crt_put (crt_pos s - 1) (ucast (c AND NOT 0xFF OR 32)) (s\<lparr>crt_pos := crt_pos s - 1\<rparr>)
           else s)
        else if k = 10 then
          (let p = crt_pos s + word_of_nat CRT_COLS in s\<lparr>crt_pos := p - p mod word_of_nat CRT_COLS\<rparr>)
        else if k = 13 then s\<lparr>crt_pos := crt_pos s - crt_pos s mod word_of_nat CRT_COLS\<rparr>
        else crt_put (crt_pos s) (ucast c) (s\<lparr>crt_pos := crt_pos s + 1\<rparr>)))"

definition cons_space :: "console \<Rightarrow> console" where
  "cons_space s = cga_char 32 (lpt_putc 32 (serial_putc 32 s))"

definition cga_putc :: "u32 \<Rightarrow> console \<Rightarrow> console" where
  "cga_putc c s =
    (if c AND 0xFF = 9 then crt_finish (cons_space (cons_space (cons_space (cons_space (cons_space s)))))
     else cga_char c s)"

definition cons_putc :: "u32 \<Rightarrow> console \<Rightarrow> console" where
  "cons_putc c s = cga_putc c (lpt_putc c (serial_putc c s))"

definition cputchar :: "u32 \<Rightarrow> console \<Rightarrow> console" where
  "cputchar c s = cons_putc c s"

section \<open>The keyboard\<close>

definition NO :: u8 where "NO = 0"
definition SHIFT :: u32 where "SHIFT = 1"
definition CTL :: u32 where "CTL = 2"
definition ALT :: u32 where "ALT = 4"
definition CAPSLOCK :: u32 where "CAPSLOCK = 8"
definition NUMLOCK :: u32 where "NUMLOCK = 16"
definition SCROLLLOCK :: u32 where "SCROLLLOCK = 32"
definition E0ESC :: u32 where "E0ESC = 64"

definition KEY_HOME :: u8 where "KEY_HOME = 0xE0"
definition KEY_END :: u8 where "KEY_END = 0xE1"
definition KEY_UP :: u8 where "KEY_UP = 0xE2"
definition KEY_DN :: u8 where "KEY_DN = 0xE3"
definition KEY_LF :: u8 where "KEY_LF = 0xE4"
definition KEY_RT :: u8 where "KEY_RT = 0xE5"
definition KEY_PGUP :: u8 where "KEY_PGUP = 0xE6"
definition KEY_PGDN :: u8 where "KEY_PGDN = 0xE7"
definition KEY_INS :: u8 where "KEY_INS = 0xE8"
definition KEY_DEL :: u8 where "KEY_DEL = 0xE9"

definition shiftcode :: "u8 \<Rightarrow> u32" where
  "shiftcode d = (if d = 0x1D \<or> d = 0x9D then CTL else if d = 0x2A \<or> d = 0x36 then SHIFT
     else if d = 0x38 \<or> d = 0xB8 then ALT else 0)"

definition togglecode :: "u8 \<Rightarrow> u32" where
  "togglecode d = (if d = 0x3A then CAPSLOCK else if d = 0x45 then NUMLOCK else if d = 0x46 then SCROLLLOCK else 0)"

text \<open>A table with the given first entries and the given others; all else is \<open>NO\<close>.\<close>

definition keymap :: "u8 list \<Rightarrow> (u8 \<times> u8) list \<Rightarrow> u8 \<Rightarrow> u8" where
  "keymap first others d =
    (if unat d < length first then first ! unat d else case map_of others d of Some c \<Rightarrow> c | None \<Rightarrow> NO)"

definition chars :: "string \<Rightarrow> u8 list" where
  "chars s = map of_char s"

definition normalmap :: "u8 \<Rightarrow> u8" where
  "normalmap = keymap
    ([NO, 0x1B] @ chars ''1234567890-='' @ [8, 9] @ chars ''qwertyuiop[]'' @ [10, NO] @ chars ''asdfghjkl;'' @
     [39, 96, NO, 92] @ chars ''zxcvbnm,./'' @ [NO] @ chars ''*'' @ [NO, 32] @ replicate 13 NO @
     chars ''789-456+1230.'' @ [NO, NO, NO, NO])
    [(0xC7, KEY_HOME), (0x9C, 10), (0xB5, 47), (0xC8, KEY_UP), (0xC9, KEY_PGUP), (0xCB, KEY_LF), (0xCD, KEY_RT),
     (0xCF, KEY_END), (0xD0, KEY_DN), (0xD1, KEY_PGDN), (0xD2, KEY_INS), (0xD3, KEY_DEL)]"

definition shiftmap :: "u8 \<Rightarrow> u8" where
  "shiftmap = keymap
    ([NO, 27] @ chars ''!@#$%^&*()_+'' @ [8, 9] @ chars ''QWERTYUIOP{}'' @ [10, NO] @ chars ''ASDFGHJKL:'' @
     [34, 126, NO, 124] @ chars ''ZXCVBNM<>?'' @ [NO] @ chars ''*'' @ [NO, 32] @ replicate 13 NO @
     chars ''789-456+1230.'' @ [NO, NO, NO, NO])
    [(0xC7, KEY_HOME), (0x9C, 10), (0xB5, 47), (0xC8, KEY_UP), (0xC9, KEY_PGUP), (0xCB, KEY_LF), (0xCD, KEY_RT),
     (0xCF, KEY_END), (0xD0, KEY_DN), (0xD1, KEY_PGDN), (0xD2, KEY_INS), (0xD3, KEY_DEL)]"

text \<open>\<open>C(x)\<close> is \<open>x - '@'\<close>; for the slash the result is stored as the byte 239.\<close>

definition controls :: "string \<Rightarrow> u8 list" where
  "controls s = map (\<lambda>c. of_char c - 64) s"

definition ctlmap :: "u8 \<Rightarrow> u8" where
  "ctlmap = keymap
    (replicate 16 NO @ controls ''QWERTYUIOP'' @ [NO, NO, 13, NO] @ controls ''ASDFGHJKL'' @ [NO, NO, NO, NO, 28] @
     controls ''ZXCVBNM'' @ [NO, NO] @ controls ''/'' @ [NO, NO])
    [(0x97, KEY_HOME), (0xB5, 239), (0xC8, KEY_UP), (0xC9, KEY_PGUP), (0xCB, KEY_LF), (0xCD, KEY_RT),
     (0xCF, KEY_END), (0xD0, KEY_DN), (0xD1, KEY_PGDN), (0xD2, KEY_INS), (0xD3, KEY_DEL)]"

definition charcode :: "u32 \<Rightarrow> u8 \<Rightarrow> u8" where
  "charcode k = (if k = 0 then normalmap else if k = 1 then shiftmap else ctlmap)"

text \<open>
  \<open>kbd_proc_data\<close> for a byte that was waiting: the character, 0 if none is finished, and whether the machine is told to
  reboot.
\<close>

definition kbd_proc_data :: "u8 \<Rightarrow> u32 \<Rightarrow> (u8 \<times> bool) \<times> u32" where
  "kbd_proc_data dat shift =
    (if dat = 0xE0 then ((0, False), shift OR E0ESC)
     else if dat AND 0x80 \<noteq> 0 then
       (let dat = (if shift AND E0ESC \<noteq> 0 then dat else dat AND 0x7F)
        in ((0, False), shift AND NOT (shiftcode dat OR E0ESC)))
     else
       (let (dat, shift) = (if shift AND E0ESC \<noteq> 0 then (dat OR 0x80, shift AND NOT E0ESC) else (dat, shift));
            shift = shift OR shiftcode dat;
            shift = shift XOR togglecode dat;
            c = charcode (shift AND (CTL OR SHIFT)) dat;
            c = (if shift AND CAPSLOCK \<noteq> 0 then
                   if 97 \<le> c \<and> c \<le> 122 then c - 32 else if 65 \<le> c \<and> c \<le> 90 then c + 32 else c
                 else c)
        in ((c, NOT shift AND (CTL OR ALT) = 0 \<and> c = KEY_DEL), shift)))"

section \<open>The input buffer\<close>

definition cons_store :: "u8 \<Rightarrow> console \<Rightarrow> console" where
  "cons_store c s =
    (if c = 0 then s
     else let w = cons_wpos s + 1
          in s\<lparr>cons_buf := (cons_buf s)(cons_wpos s := c), cons_wpos := (if w = CONSBUFSIZE then 0 else w)\<rparr>)"

text \<open>\<open>cons_intr\<close> with the results of the device's routine up to the -1, and the two interrupt routines.\<close>

definition cons_intr :: "u8 list \<Rightarrow> console \<Rightarrow> console" where
  "cons_intr cs s = fold cons_store cs s"

definition serial_intr :: "u8 list \<Rightarrow> console \<Rightarrow> console" where
  "serial_intr bs s = cons_intr bs s"

fun kbd_intr :: "u8 list \<Rightarrow> console \<Rightarrow> console" where
  "kbd_intr [] s = s"
| "kbd_intr (d # ds) s =
    (let ((c, _), sh) = kbd_proc_data d (kbd_shift s) in kbd_intr ds (cons_store c (s\<lparr>kbd_shift := sh\<rparr>)))"

definition cons_getc :: "u8 list \<Rightarrow> u8 list \<Rightarrow> console \<Rightarrow> u8 \<times> console" where
  "cons_getc serial keys s =
    (let s = kbd_intr keys (serial_intr serial s)
     in if cons_rpos s \<noteq> cons_wpos s then
          let r = cons_rpos s + 1
          in (cons_buf s (cons_rpos s), s\<lparr>cons_rpos := (if r = CONSBUFSIZE then 0 else r)\<rparr>)
        else (0, s))"

end
