(* ===== verification/Console_Props.thy ===== *)
theory Console_Props
  imports Console
begin

text \<open>
  What the console keeps: the cursor stays on the screen and nothing is written beside it, and the input buffer is a
  queue as long as no more than 511 characters wait in it; with one more all of them are lost.
\<close>

section \<open>The screen\<close>

definition screen_ok :: "console \<Rightarrow> bool" where
  "screen_ok s \<longleftrightarrow> unat (crt_pos s) < CRT_SIZE"

definition screen_only :: "console \<Rightarrow> console \<Rightarrow> bool" where
  "screen_only s s' \<longleftrightarrow> screen_ok s' \<and> (\<forall>i\<ge>CRT_SIZE. crt_buf s' i = crt_buf s i)"

lemmas crt_consts = CRT_SIZE_def CRT_ROWS_def CRT_COLS_def

lemma screen_only_trans: "screen_only s s' \<Longrightarrow> screen_only s' s'' \<Longrightarrow> screen_only s s''"
  by (simp add: screen_only_def)

lemma screen_only_refl: "screen_ok s \<Longrightarrow> screen_only s s"
  by (simp add: screen_only_def)

lemma unat_16_add: "unat a + unat b < 65536 \<Longrightarrow> unat (a + b) = unat a + unat (b :: u16)"
  by (simp add: unat_add_lem[THEN iffD1])

lemma unat_16_sub_mod: "unat (a - a mod 80 :: u16) = unat a - unat a mod 80"
proof -
  have "a mod 80 \<le> a"
    by (simp add: word_le_nat_alt unat_mod)
  then show ?thesis
    by (simp add: unat_sub unat_mod)
qed

text \<open>A position at most one line below the screen is brought back by \<open>crt_finish\<close>.\<close>

lemma crt_finish_screen:
  assumes "unat (crt_pos s) < CRT_SIZE + CRT_COLS"
  shows "screen_only s (crt_finish s)"
proof (cases "unat (crt_pos s) \<ge> CRT_SIZE")
  case True
  then have "unat (crt_pos s - 80) = unat (crt_pos s) - 80"
    by (subst unat_sub) (simp_all add: word_le_nat_alt crt_consts)
  with True assms show ?thesis
    by (simp add: screen_only_def screen_ok_def crt_finish_def crt_scroll_def crt_consts)
next
  case False
  then show ?thesis
    by (simp add: screen_only_def screen_ok_def crt_finish_def crt_scroll_def crt_consts)
qed

lemma crt_put_screen:
  "unat pos < CRT_SIZE \<Longrightarrow> i \<ge> CRT_SIZE \<Longrightarrow> crt_buf (crt_put pos c s) i = crt_buf s i"
  "crt_pos (crt_put pos c s) = crt_pos s"
  by (simp_all add: crt_put_def)

lemma finish_keeps:
  assumes "unat (crt_pos t) < CRT_SIZE + CRT_COLS" "\<forall>i\<ge>CRT_SIZE. crt_buf t i = crt_buf s i"
  shows "screen_only s (crt_finish t)"
  using crt_finish_screen[OF assms(1)] assms(2) by (simp add: screen_only_def)

lemma cga_char_screen:
  assumes "screen_ok s"
  shows "screen_only s (cga_char ch s)"
proof -
  have p: "unat (crt_pos s) < 2000"
    using assms by (simp add: screen_ok_def crt_consts)
  have before: "unat (crt_pos s - 1) < 2000" if "crt_pos s > 0"
    using p that by (simp add: unat_sub word_le_nat_alt word_less_nat_alt)
  have ahead: "unat (crt_pos s + 1) < 2080"
    using p by (simp add: unat_16_add)
  have line: "unat (crt_pos s + 80 - (crt_pos s + 80) mod 80) < 2080"
  proof -
    have "unat (crt_pos s + 80) = unat (crt_pos s) + 80"
      using p by (simp add: unat_16_add)
    then show ?thesis
      unfolding unat_16_sub_mod using p by linarith
  qed
  have ret: "unat (crt_pos s - crt_pos s mod 80) < 2080"
    unfolding unat_16_sub_mod using p by linarith
  show ?thesis
    unfolding cga_char_def Let_def
    using p before ahead line ret
    by (intro finish_keeps) (auto simp: crt_consts crt_put_def)
qed

lemma ports_screen [simp]:
  "crt_pos (lpt_putc c s) = crt_pos s" "crt_buf (lpt_putc c s) = crt_buf s"
  "crt_pos (serial_putc c s) = crt_pos s" "crt_buf (serial_putc c s) = crt_buf s"
  by (simp_all add: lpt_putc_def serial_putc_def)

lemma screen_only_ports [simp]:
  "screen_ok (lpt_putc c (serial_putc c s)) = screen_ok s"
  "screen_only (lpt_putc c (serial_putc c s)) s' = screen_only s s'"
  by (simp_all add: screen_ok_def screen_only_def)

lemma cons_space_screen: "screen_ok s \<Longrightarrow> screen_only s (cons_space s)"
  using cga_char_screen[of "lpt_putc 32 (serial_putc 32 s)" 32] by (simp add: cons_space_def)

lemma screen_onlyD: "screen_only s s' \<Longrightarrow> screen_ok s'"
  by (simp add: screen_only_def)

lemma crt_finish_only: "screen_ok s \<Longrightarrow> screen_only s (crt_finish s)"
  by (rule crt_finish_screen) (simp add: screen_ok_def crt_consts)

lemma cga_putc_screen:
  assumes "screen_ok s"
  shows "screen_only s (cga_putc c s)"
proof -
  have step: "screen_only s (cons_space t)" if "screen_only s t" for t
    using cons_space_screen screen_only_trans screen_onlyD that by blast
  have spaces: "screen_only s (cons_space (cons_space (cons_space (cons_space (cons_space s)))))"
    by (intro step screen_only_refl assms)
  have "screen_only s (crt_finish (cons_space (cons_space (cons_space (cons_space (cons_space s))))))"
    by (rule screen_only_trans[OF spaces crt_finish_only[OF screen_onlyD[OF spaces]]])
  then show ?thesis
    using cga_char_screen[OF assms] by (simp add: cga_putc_def)
qed

lemma cputchar_screen: "screen_ok s \<Longrightarrow> screen_only s (cputchar c s)"
  using cga_putc_screen[of "lpt_putc c (serial_putc c s)" c] by (simp add: cputchar_def cons_putc_def)

text \<open>
  Whatever characters are printed, backspaces, tabs and line ends included, the cursor stays on the screen of 25
  lines of 80 cells, so that no cell of the memory behind the screen is written.
\<close>

theorem console_stays_on_screen:
  "unat (crt_pos s) < CRT_SIZE \<Longrightarrow>
   unat (crt_pos (fold cputchar cs s)) < CRT_SIZE \<and>
   (\<forall>i\<ge>CRT_SIZE. crt_buf (fold cputchar cs s) i = crt_buf s i)"
proof (induction cs arbitrary: s)
  case (Cons c cs)
  have "screen_only s (cputchar c s)"
    using Cons.prems by (simp add: cputchar_screen screen_ok_def)
  with Cons.IH[of "cputchar c s"] show ?case
    by (simp add: screen_only_def screen_ok_def)
qed simp

definition last_cell :: console where
  "last_cell = \<lparr>crt_buf = (\<lambda>_. 0), crt_pos = 1999, crt_cursor = 1999, com_out = [], lpt_out = [], cons_buf = (\<lambda>_. 0),
     cons_rpos = 0, cons_wpos = 0, kbd_shift = 0\<rparr>"

theorem console_stays_on_screen_witness:
  "unat (crt_pos (fold cputchar [65, 10, 9] last_cell)) < CRT_SIZE \<and>
   crt_buf (fold cputchar [65, 10, 9] last_cell) 2000 = 0"
proof -
  have "unat (crt_pos last_cell) < CRT_SIZE"
    by (simp add: last_cell_def crt_consts)
  note kept = console_stays_on_screen[OF this, of "[65, 10, 9]"]
  have "crt_buf last_cell 2000 = 0" "CRT_SIZE \<le> 2000"
    by (simp_all add: last_cell_def crt_consts)
  then show ?thesis
    using kept by metis
qed

section \<open>The input buffer\<close>

text \<open>The characters that wait, oldest first.\<close>

definition cons_ok :: "console \<Rightarrow> bool" where
  "cons_ok s \<longleftrightarrow> cons_rpos s < CONSBUFSIZE \<and> cons_wpos s < CONSBUFSIZE"

definition cons_count :: "console \<Rightarrow> nat" where
  "cons_count s = (cons_wpos s + CONSBUFSIZE - cons_rpos s) mod CONSBUFSIZE"

definition cons_unread :: "console \<Rightarrow> u8 list" where
  "cons_unread s = map (\<lambda>i. cons_buf s ((cons_rpos s + i) mod CONSBUFSIZE)) [0..<cons_count s]"

lemma length_cons_unread: "length (cons_unread s) = cons_count s"
  by (simp add: cons_unread_def)

lemma cons_store_ok: "cons_ok s \<Longrightarrow> cons_ok (cons_store c s)"
  by (simp add: cons_ok_def cons_store_def CONSBUFSIZE_def Let_def)

text \<open>Positions on a ring of 512 cells.\<close>

lemma ring_distance:
  assumes "r < 512" "w < (512 :: nat)"
  shows "(w + 512 - r) mod 512 = (if r \<le> w then w - r else w + 512 - r)"
  using assms by (auto simp: mod_if)

lemma ring_mod: "i < 1024 \<Longrightarrow> i mod 512 = (if i < 512 then i else i - (512 :: nat))"
  by (simp add: mod_if)

lemma ring_cell:
  assumes "r < 512" "w < (512 :: nat)" "i < (w + 512 - r) mod 512"
  shows "(r + i) mod 512 \<noteq> w"
proof -
  have "i < (if r \<le> w then w - r else w + 512 - r)"
    using assms(3) unfolding ring_distance[OF assms(1,2)] .
  then show ?thesis
    using assms(1,2) by (subst ring_mod) (auto split: if_splits)
qed

lemma ring_end:
  assumes "r < 512" "w < (512 :: nat)"
  shows "(r + (w + 512 - r) mod 512) mod 512 = w"
  unfolding ring_distance[OF assms] using assms by (subst ring_mod) (auto split: if_splits)

lemma ring_next:
  assumes "r < 512" "w < (512 :: nat)"
  shows "((if w + 1 = 512 then 0 else w + 1) + 512 - r) mod 512 =
    (if (w + 512 - r) mod 512 = 511 then 0 else (w + 512 - r) mod 512 + 1)"
  using assms by (auto simp: mod_if)

lemma cons_store_unread:
  assumes ok: "cons_ok s" and c: "c \<noteq> 0"
  shows "cons_unread (cons_store c s) = (if cons_count s = 511 then [] else cons_unread s @ [c])"
proof -
  have rw: "cons_rpos s < 512" "cons_wpos s < 512"
    using ok by (simp_all add: cons_ok_def CONSBUFSIZE_def)
  have count: "cons_count (cons_store c s) = (if cons_count s = 511 then 0 else cons_count s + 1)"
    using c ring_next[OF rw]
    by (cases "cons_wpos s = 511") (simp_all add: cons_count_def cons_store_def CONSBUFSIZE_def Let_def)
  have buf: "cons_buf (cons_store c s) = (cons_buf s)(cons_wpos s := c)" "cons_rpos (cons_store c s) = cons_rpos s"
    using c by (simp_all add: cons_store_def Let_def)
  have old: "cons_buf (cons_store c s) ((cons_rpos s + i) mod 512) = cons_buf s ((cons_rpos s + i) mod 512)"
    if "i < cons_count s" for i
    using ring_cell[OF rw] that by (simp add: buf cons_count_def CONSBUFSIZE_def)
  have new: "cons_buf (cons_store c s) ((cons_rpos s + cons_count s) mod 512) = c"
    using ring_end[OF rw] by (simp add: buf cons_count_def CONSBUFSIZE_def)
  show ?thesis
    using count old new unfolding cons_unread_def buf(2) by (simp add: CONSBUFSIZE_def)
qed

lemma cons_store_zero: "cons_store 0 s = s"
  by (simp add: cons_store_def)

lemma cons_fold_unread:
  assumes "cons_ok s" "cons_count s + length (filter (\<lambda>c. c \<noteq> 0) cs) \<le> 511"
  shows "cons_ok (fold cons_store cs s) \<and> cons_unread (fold cons_store cs s) = cons_unread s @ filter (\<lambda>c. c \<noteq> 0) cs"
  using assms
proof (induction cs arbitrary: s)
  case (Cons c cs)
  show ?case
  proof (cases "c = 0")
    case True
    then show ?thesis using Cons by (simp add: cons_store_zero)
  next
    case False
    then have u: "cons_unread (cons_store c s) = cons_unread s @ [c]"
      using cons_store_unread[OF Cons.prems(1)] Cons.prems(2) by simp
    then have "cons_count (cons_store c s) = cons_count s + 1"
      by (metis length_cons_unread length_append_singleton Suc_eq_plus1)
    then show ?thesis
      using Cons.IH[of "cons_store c s"] Cons.prems cons_store_ok[OF Cons.prems(1)] False u by simp
  qed
qed simp

text \<open>The characters that the bytes of the keyboard stand for, with the state of the shift keys before them.\<close>

fun kbd_chars :: "u8 list \<Rightarrow> u32 \<Rightarrow> u8 list" where
  "kbd_chars [] sh = []"
| "kbd_chars (d # ds) sh = (let ((c, _), sh) = kbd_proc_data d sh in c # kbd_chars ds sh)"

lemma cons_store_shift: "kbd_shift (cons_store c s) = kbd_shift s"
  "cons_store c (s\<lparr>kbd_shift := sh\<rparr>) = (cons_store c s)\<lparr>kbd_shift := sh\<rparr>"
  by (simp_all add: cons_store_def Let_def)

lemma fold_store_shift: "kbd_shift (fold cons_store cs s) = kbd_shift s"
  by (induction cs arbitrary: s) (simp_all add: cons_store_shift)

lemma fold_store_with_shift: "fold cons_store cs (s\<lparr>kbd_shift := sh\<rparr>) = (fold cons_store cs s)\<lparr>kbd_shift := sh\<rparr>"
  by (induction cs arbitrary: s) (simp_all add: cons_store_shift)

lemma kbd_intr_fold: "\<exists>sh. kbd_intr ds s = (fold cons_store (kbd_chars ds (kbd_shift s)) s)\<lparr>kbd_shift := sh\<rparr>"
proof (induction ds arbitrary: s)
  case Nil
  show ?case by (rule exI[of _ "kbd_shift s"]) simp
next
  case (Cons d ds)
  obtain c b sh where k: "kbd_proc_data d (kbd_shift s) = ((c, b), sh)"
    by (metis surj_pair)
  show ?case
    using Cons[of "cons_store c (s\<lparr>kbd_shift := sh\<rparr>)"]
    by (simp add: k cons_store_shift fold_store_with_shift)
qed

lemma unread_shift [simp]:
  "cons_unread (s\<lparr>kbd_shift := sh\<rparr>) = cons_unread s" "cons_ok (s\<lparr>kbd_shift := sh\<rparr>) = cons_ok s"
  by (simp_all add: cons_unread_def cons_count_def cons_ok_def)

text \<open>The first character that waits, and the queue without it.\<close>

lemma cons_take:
  assumes ok: "cons_ok s" and u: "cons_unread s = c # cs"
  shows "c = cons_buf s (cons_rpos s)"
    and "cons_unread (s\<lparr>cons_rpos := (if cons_rpos s + 1 = CONSBUFSIZE then 0 else cons_rpos s + 1)\<rparr>) = cs"
proof -
  let ?r = "cons_rpos s" and ?w = "cons_wpos s"
  let ?t = "s\<lparr>cons_rpos := (if ?r + 1 = CONSBUFSIZE then 0 else ?r + 1)\<rparr>"
  have rw: "?r < 512" "?w < 512"
    using ok by (simp_all add: cons_ok_def CONSBUFSIZE_def)
  have n: "cons_count s = Suc (length cs)"
    using length_cons_unread[of s] by (simp add: u)
  have nth: "cons_unread s ! i = cons_buf s ((?r + i) mod 512)" if "i < Suc (length cs)" for i
    unfolding cons_unread_def n using that by (simp add: CONSBUFSIZE_def del: upt_Suc)
  show "c = cons_buf s ?r"
    using nth[of 0] rw by (simp add: u)
  have m: "cons_count ?t = length cs"
    using n ring_distance[OF rw] ring_distance[of "?r + 1" ?w] ring_distance[of 0 ?w] rw
    by (auto simp: cons_count_def CONSBUFSIZE_def split: if_splits)
  have cell: "(cons_rpos ?t + i) mod 512 = (?r + Suc i) mod 512" for i
    by (cases "?r + 1 = 512") (simp_all add: CONSBUFSIZE_def)
  show "cons_unread ?t = cs"
  proof (rule nth_equalityI)
    show "length (cons_unread ?t) = length cs"
      by (simp only: length_cons_unread m)
    show "cons_unread ?t ! i = cs ! i" if "i < length (cons_unread ?t)" for i
    proof -
      have i: "i < length cs"
        using that by (simp only: length_cons_unread m)
      then have "cons_unread ?t ! i = cons_buf s ((cons_rpos ?t + i) mod 512)"
        unfolding cons_unread_def m by (simp add: CONSBUFSIZE_def)
      then show ?thesis
        unfolding cell using nth[of "Suc i"] i by (simp add: u)
    qed
  qed
qed

lemma cons_empty:
  assumes "cons_ok s"
  shows "cons_rpos s = cons_wpos s \<longleftrightarrow> cons_unread s = []"
proof -
  have "cons_rpos s < 512" "cons_wpos s < 512"
    using assms by (simp_all add: cons_ok_def CONSBUFSIZE_def)
  then show ?thesis
    using ring_distance[of "cons_rpos s" "cons_wpos s"]
    by (auto simp: cons_unread_def cons_count_def CONSBUFSIZE_def split: if_splits)
qed

definition arrived :: "u8 list \<Rightarrow> u8 list \<Rightarrow> console \<Rightarrow> u8 list" where
  "arrived serial keys s = filter (\<lambda>c. c \<noteq> 0) (serial @ kbd_chars keys (kbd_shift s))"

lemma cons_poll_unread:
  assumes "cons_ok s" "length (cons_unread s) + length (arrived serial keys s) \<le> 511"
  shows "cons_ok (kbd_intr keys (serial_intr serial s)) \<and>
    cons_unread (kbd_intr keys (serial_intr serial s)) = cons_unread s @ arrived serial keys s"
proof -
  let ?cs = "serial @ kbd_chars keys (kbd_shift s)"
  obtain sh where "kbd_intr keys (serial_intr serial s) = (fold cons_store ?cs s)\<lparr>kbd_shift := sh\<rparr>"
    using kbd_intr_fold[of keys "serial_intr serial s"] by (auto simp: serial_intr_def cons_intr_def fold_store_shift)
  then show ?thesis
    using cons_fold_unread[of s ?cs] assms by (simp add: arrived_def length_cons_unread)
qed

text \<open>
  C38: The console's input is a queue. While no more than 511 characters wait, a call of cons_getc takes the oldest of
  those that waited or have just arrived from the serial port and then the keyboard, and leaves the others in order; it
  returns 0 exactly when there is none.
\<close>

theorem console_input_is_queue:
  "cons_rpos s < CONSBUFSIZE \<and> cons_wpos s < CONSBUFSIZE \<and>
   length (cons_unread s) + length (arrived serial keys s) \<le> 511 \<Longrightarrow>
   (case cons_unread s @ arrived serial keys s of
      [] \<Rightarrow> fst (cons_getc serial keys s) = 0 \<and> cons_unread (snd (cons_getc serial keys s)) = []
    | c # cs \<Rightarrow> fst (cons_getc serial keys s) = c \<and> cons_unread (snd (cons_getc serial keys s)) = cs)"
proof -
  let ?t = "kbd_intr keys (serial_intr serial s)"
  assume "cons_rpos s < CONSBUFSIZE \<and> cons_wpos s < CONSBUFSIZE \<and>
    length (cons_unread s) + length (arrived serial keys s) \<le> 511"
  then have ok: "cons_ok ?t" and u: "cons_unread s @ arrived serial keys s = cons_unread ?t"
    using cons_poll_unread[of s serial keys] by (simp_all add: cons_ok_def)
  show ?thesis
    unfolding u cons_getc_def Let_def
    using cons_take[OF ok] cons_empty[OF ok] by (auto split: list.split)
qed

definition ready_console :: console where
  "ready_console = \<lparr>crt_buf = (\<lambda>_. 0), crt_pos = 0, crt_cursor = 0, com_out = [], lpt_out = [],
     cons_buf = (\<lambda>_. 120), cons_rpos = 511, cons_wpos = 0, kbd_shift = 0\<rparr>"

theorem console_input_is_queue_witness:
  "fst (cons_getc [65, 0, 66] [0x2A, 0x1E] ready_console) = 120 \<and>
   cons_unread (snd (cons_getc [65, 0, 66] [0x2A, 0x1E] ready_console)) = [65, 66, 65]"
proof -
  have "kbd_chars [0x2A, 0x1E] 0 = [0, 65]"
    by code_simp
  then have a: "arrived [65, 0, 66] [0x2A, 0x1E] ready_console = [65, 66, 65]"
    by (simp add: arrived_def ready_console_def)
  have "cons_count ready_console = 1"
    by (simp add: cons_count_def ready_console_def CONSBUFSIZE_def)
  then have u: "cons_unread ready_console = [120]"
    by (simp add: cons_unread_def ready_console_def)
  show ?thesis
    using console_input_is_queue[of ready_console "[65, 0, 66]" "[0x2A, 0x1E]"]
    by (simp add: a u) (simp add: ready_console_def CONSBUFSIZE_def)
qed

text \<open>The buffer has no test for being full: after 511 unread characters the next one makes it look empty.\<close>

text \<open>
  When one character more arrives than the 511 that fit, all that waited are lost: the positions meet and
  cons_getc finds the buffer empty.
\<close>

theorem console_input_overflow_loses_all:
  "cons_rpos s < CONSBUFSIZE \<and> cons_wpos s < CONSBUFSIZE \<and> cons_unread s = [] \<and> length cs = 511 \<and>
   (\<forall>x\<in>set (c # cs). x \<noteq> 0) \<Longrightarrow>
   fst (cons_getc (cs @ [c]) [] s) = 0 \<and> cons_unread (snd (cons_getc (cs @ [c]) [] s)) = []"
proof -
  assume a: "cons_rpos s < CONSBUFSIZE \<and> cons_wpos s < CONSBUFSIZE \<and> cons_unread s = [] \<and> length cs = 511 \<and>
   (\<forall>x\<in>set (c # cs). x \<noteq> 0)"
  then have ok: "cons_ok s" and all: "filter (\<lambda>c. c \<noteq> 0) cs = cs" and c: "c \<noteq> 0"
    by (simp_all add: cons_ok_def)
  have "cons_count s = 0"
    using a length_cons_unread[of s] by simp
  then have full: "cons_ok (fold cons_store cs s)" "cons_unread (fold cons_store cs s) = cs"
    using cons_fold_unread[OF ok, of cs] a all by simp_all
  then have "cons_count (fold cons_store cs s) = 511"
    using a length_cons_unread[of "fold cons_store cs s"] by simp
  then have lost: "cons_unread (cons_store c (fold cons_store cs s)) = []"
    using cons_store_unread[OF full(1) c] by simp
  then show ?thesis
    using cons_empty[OF cons_store_ok[OF full(1)], of c]
    by (simp add: cons_getc_def serial_intr_def cons_intr_def Let_def)
qed

theorem console_input_overflow_loses_all_witness:
  "fst (cons_getc (replicate 511 120 @ [121]) [] (last_cell :: console)) = 0"
  using console_input_overflow_loses_all[of last_cell "replicate 511 120" 121]
  by (simp add: last_cell_def CONSBUFSIZE_def cons_unread_def cons_count_def)

end
