(* ===== verification/Kmalloc.thy ===== *)
theory Kmalloc
  imports Jos_Prelude
begin

text \<open>
  The heap of the kernel, \<^verbatim>\<open>kern/kmalloc.c\<close>: Kernighan and Ritchie's allocator over a fixed array.
  Addresses and sizes are 32-bit words, sizes count headers of 8 bytes. The loops over the circular free list go on for
  ever in a list that is not circular, so they are partial functions; a panic is \<open>None\<close> too. The proofs about
  the list are in terms of distances around the circle of addresses: word subtraction.
\<close>

section \<open>The allocator\<close>

text \<open>
  The fields of the header at an address, the variables \<open>freep\<close> and \<open>kheaptop\<close>, and where the linker puts
  \<open>kheap\<close> and \<open>base\<close>.
\<close>

record kheap =
  h_ptr :: "u32 \<Rightarrow> u32"
  h_size :: "u32 \<Rightarrow> u32"
  freep :: u32
  kheaptop :: u32
  kheap_at :: u32
  base_at :: u32

definition KHEAPSIZE :: u32 where "KHEAPSIZE = 64 * 4096"
definition NALLOC :: u32 where "NALLOC = 1024"

definition set_ptr :: "u32 \<Rightarrow> u32 \<Rightarrow> kheap \<Rightarrow> kheap" where
  "set_ptr p v k = k\<lparr>h_ptr := (h_ptr k)(p := v)\<rparr>"

definition set_size :: "u32 \<Rightarrow> u32 \<Rightarrow> kheap \<Rightarrow> kheap" where
  "set_size p v k = k\<lparr>h_size := (h_size k)(p := v)\<rparr>"

text \<open>The place of a block in the list of free blocks, and its insertion there.\<close>

partial_function (option) free_find :: "u32 \<Rightarrow> u32 \<Rightarrow> kheap \<Rightarrow> u32 option" where
  "free_find bp p k =
    (if bp > p \<and> bp < h_ptr k p then Some p
     else if p \<ge> h_ptr k p \<and> (bp > p \<or> bp < h_ptr k p) then Some p
     else free_find bp (h_ptr k p) k)"

definition free_join :: "u32 \<Rightarrow> u32 \<Rightarrow> kheap \<Rightarrow> kheap" where
  "free_join bp p k =
    (let k = (if bp + 8 * h_size k bp = h_ptr k p
              then let k = set_size bp (h_size k bp + h_size k (h_ptr k p)) k
                   in set_ptr bp (h_ptr k (h_ptr k p)) k
              else set_ptr bp (h_ptr k p) k);
         k = (if p + 8 * h_size k p = bp
              then let k = set_size p (h_size k p + h_size k bp) k in set_ptr p (h_ptr k bp) k
              else set_ptr p bp k)
     in k\<lparr>freep := p\<rparr>)"

definition free_hdr :: "u32 \<Rightarrow> kheap \<Rightarrow> kheap option" where
  "free_hdr ap k =
    (let bp = ap - 8
     in if freep k = 0 then None
        else do { p \<leftarrow> free_find bp (freep k) k; Some (free_join bp p k) })"

definition kheap_sbrk :: "u32 \<Rightarrow> kheap \<Rightarrow> (u32 \<times> kheap) option" where
  "kheap_sbrk nbytes k =
    (if kheaptop k + nbytes < kheap_at k \<or> kheaptop k + nbytes \<ge> kheap_at k + KHEAPSIZE then None
     else Some (kheaptop k, k\<lparr>kheaptop := kheaptop k + nbytes\<rparr>))"

definition morecore :: "u32 \<Rightarrow> kheap \<Rightarrow> (u32 \<times> kheap) option" where
  "morecore nu k =
    (let nu = (if nu < NALLOC then NALLOC else nu)
     in do {
       (p, k) \<leftarrow> kheap_sbrk (nu * 8) k;
       if p = - 1 then Some (0, k)
       else do {
         k \<leftarrow> free_hdr (p + 8) (set_size p nu k);
         Some (freep k, k)
       }
     })"

definition malloc_take :: "u32 \<Rightarrow> u32 \<Rightarrow> u32 \<Rightarrow> kheap \<Rightarrow> u32 \<times> kheap" where
  "malloc_take nunits prevp p k =
    (if h_size k p = nunits then (p + 8, (set_ptr prevp (h_ptr k p) k)\<lparr>freep := prevp\<rparr>)
     else let k = set_size p (h_size k p - nunits) k;
              p = p + 8 * h_size k p
          in (p + 8, (set_size p nunits k)\<lparr>freep := prevp\<rparr>))"

partial_function (option) malloc_loop :: "u32 \<Rightarrow> u32 \<Rightarrow> u32 \<Rightarrow> kheap \<Rightarrow> (u32 \<times> kheap) option" where
  "malloc_loop nunits prevp p k =
    (if h_size k p \<ge> nunits then Some (malloc_take nunits prevp p k)
     else if p = freep k then do {
       (p, k) \<leftarrow> morecore nunits k;
       if p = 0 then Some (0, k) else malloc_loop nunits p (h_ptr k p) k
     }
     else malloc_loop nunits p (h_ptr k p) k)"

definition malloc_units :: "u32 \<Rightarrow> u32" where
  "malloc_units nbytes = (nbytes + 8 - 1) div 8 + 1"

definition kmalloc :: "u32 \<Rightarrow> kheap \<Rightarrow> (u32 \<times> kheap) option" where
  "kmalloc nbytes k =
    (let nunits = malloc_units nbytes;
         k = (if freep k = 0
              then set_size (base_at k) 0 ((set_ptr (base_at k) (base_at k) k)\<lparr>freep := base_at k\<rparr>)
              else k)
     in malloc_loop nunits (freep k) (h_ptr k (freep k)) k)"

definition kfree :: "u32 \<Rightarrow> kheap \<Rightarrow> kheap option" where
  "kfree ptr k = free_hdr ptr k"

declare free_find.simps [code]
declare malloc_loop.simps [code]

section \<open>Circles of addresses\<close>

text \<open>Every member's successor is the next member going up and around.\<close>

definition ring :: "(u32 \<Rightarrow> u32) \<Rightarrow> u32 set \<Rightarrow> bool" where
  "ring f F \<longleftrightarrow> (\<forall>p\<in>F. f p \<in> F \<and> (\<forall>q\<in>F. q \<noteq> p \<longrightarrow> f p \<noteq> p \<and> f p - p \<le> q - p))"

lemma unat_diff_circle: "unat (a - b :: u32) = (if unat b \<le> unat a then unat a - unat b else unat a + 4294967296 - unat b)"
  by (simp add: unat_sub_if')

lemma unat_below: "unat (a :: u32) < 4294967296"
  using unsigned_less[of a] by simp

lemmas circle = word_less_nat_alt word_le_nat_alt unat_diff_circle word_unat_eq_iff

text \<open>Three or four addresses around the circle.\<close>

lemma circle_turn: "bp \<noteq> p \<Longrightarrow> bp - p < n - p \<Longrightarrow> n - bp \<le> p - (bp :: u32)"
  using unat_below[of n] unat_below[of p] unat_below[of bp] by (auto simp only: circle split: if_splits; linarith)

lemma circle_reverse: "bp \<noteq> p \<Longrightarrow> bp - p < r - p \<Longrightarrow> p - r < bp - (r :: u32)"
  using unat_below[of r] unat_below[of p] unat_below[of bp] by (auto simp only: circle split: if_splits; linarith)

lemma circle_closer: "n \<noteq> p \<Longrightarrow> n - p < bp - p \<Longrightarrow> p - bp < n - (bp :: u32)"
  using unat_below[of n] unat_below[of p] unat_below[of bp] by (auto simp only: circle split: if_splits; linarith)

lemma circle_shift:
  assumes "bp - p < n - p" "n - p \<le> q - p"
  shows "n - bp \<le> q - (bp :: u32)"
proof -
  have "n - bp = (n - p) - (bp - p)" "q - bp = (q - p) - (bp - p)"
    by simp_all
  moreover have "unat ((n - p) - (bp - p)) = unat (n - p) - unat (bp - p)"
    "unat ((q - p) - (bp - p)) = unat (q - p) - unat (bp - p)"
    using assms by (intro unat_sub; simp)+
  ultimately show ?thesis
    using assms(2) by (simp add: word_le_nat_alt)
qed

lemma unat_add_within: "unat x + unat y \<le> unat z \<Longrightarrow> unat (x + y) = unat x + unat (y :: u32)" for z :: u32
  using le_less_trans[OF _ unat_below[of z]] unat_add_lem[of x y] by simp

lemma circle_back:
  assumes "n - p \<le> q - p" "m - n \<le> q - n"
  shows "m - p \<le> q - (p :: u32)"
proof -
  have q: "unat (q - n) = unat (q - p) - unat (n - p)"
    using unat_sub[OF assms(1)] by simp
  then have le: "unat (m - n) + unat (n - p) \<le> unat (q - p)"
    using assms by (simp add: word_le_nat_alt)
  then show ?thesis
    using unat_add_within[OF le] by (simp add: word_le_nat_alt)
qed

lemma circle_ahead:
  assumes "p - a \<le> x - a" "n - p \<le> x - p" "n \<noteq> p"
  shows "p - a < n - (a :: u32)"
proof -
  have "unat (x - p) = unat (x - a) - unat (p - a)"
    using unat_sub[OF assms(1)] by simp
  then have "unat (p - a) + unat (n - p) \<le> unat (x - a)"
    using assms(1,2) by (simp add: word_le_nat_alt)
  then have "unat (n - a) = unat (p - a) + unat (n - p)"
    using unat_add_within[of "p - a" "n - p" "x - a"] by simp
  moreover have "0 < unat (n - p)"
    using assms(3) by (simp add: unat_gt_0)
  ultimately show ?thesis
    by (simp add: word_less_nat_alt)
qed

lemma circle_minus_one:
  assumes "n - f \<le> c - f" "n \<noteq> f"
  shows "n - (f + 1) \<le> c - (f + 1 :: u32)"
proof -
  have "n - f \<noteq> 0" "c - f \<noteq> 0"
    using assms by auto
  then have "unat (n - f - 1) = unat (n - f) - 1" "unat (c - f - 1) = unat (c - f) - 1"
    by (simp_all add: unat_minus_one)
  then show ?thesis
    using assms(1) by (simp add: word_le_nat_alt diff_diff_eq)
qed

lemma circle_antisym:
  assumes "n - p \<le> r - p" "n - r \<le> p - r" "n \<noteq> p" "n \<noteq> r"
  shows "r = (p :: u32)"
  using assms circle_closer[of n p r] by (auto simp: order.order_iff_strict)

lemma circle_between:
  assumes "p - n \<le> q - n" "n - p \<le> q - p" "n \<noteq> p" "q \<noteq> n"
  shows "q = (p :: u32)"
  using assms circle_closer[of n p q] circle_closer[of p n q] by (auto simp: order.order_iff_strict)

lemma ringD:
  assumes "ring f F" "p \<in> F"
  shows "f p \<in> F" "q \<in> F \<Longrightarrow> q \<noteq> p \<Longrightarrow> f p \<noteq> p" "q \<in> F \<Longrightarrow> q \<noteq> p \<Longrightarrow> f p - p \<le> q - p"
  using assms by (auto simp: ring_def)

lemma ringI:
  assumes "\<And>p. p \<in> F \<Longrightarrow> f p \<in> F" "\<And>p q. p \<in> F \<Longrightarrow> q \<in> F \<Longrightarrow> q \<noteq> p \<Longrightarrow> f p \<noteq> p"
    "\<And>p q. p \<in> F \<Longrightarrow> q \<in> F \<Longrightarrow> q \<noteq> p \<Longrightarrow> f p - p \<le> q - p"
  shows "ring f F"
  using assms by (auto simp: ring_def)

lemma ring_insert:
  assumes ring: "ring f F" and p: "p \<in> F" and bp: "bp \<notin> F"
    and near: "\<forall>q\<in>F. q \<noteq> p \<longrightarrow> bp - p < q - p"
  shows "ring (f(bp := f p, p := bp)) (insert bp F)"
proof (rule ringI)
  let ?f = "f(bp := f p, p := bp)"
  have ne: "bp \<noteq> p" using p bp by blast
  have fp: "f p \<in> F" using ringD(1)[OF ring p] .
  then have fp_ne: "f p \<noteq> bp" using bp by blast
  fix r assume r: "r \<in> insert bp F"
  consider (new) "r = bp" | (before) "r = p" | (other) "r \<in> F" "r \<noteq> p" "r \<noteq> bp"
    using r by blast
  note cases = this
  show "?f r \<in> insert bp F"
    using cases
  proof cases
    case other
    then show ?thesis using ringD(1)[OF ring other(1)] by simp
  qed (use fp ne in simp_all)
  fix q assume q: "q \<in> insert bp F" "q \<noteq> r"
  show "?f r \<noteq> r"
    using cases
  proof cases
    case other
    then show ?thesis using ringD(2)[OF ring other(1) p] by simp
  qed (use fp_ne ne in simp_all)
  have next_le: "f p - bp \<le> q - bp" if "q \<in> F"
  proof (cases "f p = p")
    case True
    then have "q = p" using ringD(2)[OF ring p that] by blast
    then show ?thesis using True by simp
  next
    case False
    then have turn: "bp - p < f p - p"
      using near fp by blast
    show ?thesis
    proof (cases "q = p")
      case True
      then show ?thesis using circle_turn[OF ne turn] by simp
    next
      case False
      then show ?thesis using circle_shift[OF turn ringD(3)[OF ring p that]] by simp
    qed
  qed
  show "?f r - r \<le> q - r"
    using cases
  proof cases
    case new
    then show ?thesis using next_le q ne by simp
  next
    case before
    then have "bp - p \<le> q - p"
      using near q by (cases "q = bp") (simp_all add: order.strict_implies_order)
    then show ?thesis using before by simp
  next
    case other
    have "f r - r \<le> q - r"
    proof (cases "q = bp")
      case True
      have "p - r < bp - r"
        using circle_reverse[OF ne] near other(1,2) by blast
      moreover have "f r - r \<le> p - r"
        using ringD(3)[OF ring other(1) p] other(2) by simp
      ultimately show ?thesis unfolding True by (rule order.strict_implies_order[OF order.strict_trans1[rotated]])
    next
      case False
      then have "q \<in> F" using q by simp
      then show ?thesis using ringD(3)[OF ring other(1)] q(2) by blast
    qed
    then show ?thesis using other by simp
  qed
qed

text \<open>In a circle of two the second points back; otherwise the second's successor is a third.\<close>

lemma ring_two:
  assumes ring: "ring f F" and p: "p \<in> F" and n: "f p \<noteq> p" and q: "q \<in> F" "q \<noteq> p" "q \<noteq> f p"
  shows "f (f p) \<noteq> p"
proof
  assume "f (f p) = p"
  then have "p - f p \<le> q - f p"
    using ringD(3)[OF ring ringD(1)[OF ring p] q(1) q(3)] by simp
  moreover have "f p - p \<le> q - p"
    using ringD(3)[OF ring p q(1) q(2)] .
  ultimately show False
    using circle_between n q(2,3) by blast
qed

lemma ring_remove:
  assumes ring: "ring f F" and p: "p \<in> F" and n: "f p \<noteq> p"
  shows "ring (f(p := f (f p))) (F - {f p})"
proof (rule ringI)
  let ?n = "f p" let ?f = "f(p := f ?n)"
  have nF: "?n \<in> F" using ringD(1)[OF ring p] .
  have fn: "f ?n \<noteq> ?n" using ringD(2)[OF ring nF p] n by metis
  fix r assume r: "r \<in> F - {?n}"
  then have rF: "r \<in> F" "r \<noteq> ?n" by blast+
  have succ: "f r \<noteq> ?n" if "r \<noteq> p"
  proof
    assume "f r = ?n"
    then have "?n - r \<le> p - r"
      using ringD(3)[OF ring rF(1) p] that by simp
    moreover have "?n - p \<le> r - p"
      using ringD(3)[OF ring p rF(1) that] .
    ultimately show False using circle_antisym[of ?n p r] n rF(2) that by blast
  qed
  show "?f r \<in> F - {?n}"
    using succ fn ringD(1)[OF ring nF] ringD(1)[OF ring rF(1)] by (cases "r = p") simp_all
  fix q assume q: "q \<in> F - {?n}" "q \<noteq> r"
  then have qF: "q \<in> F" "q \<noteq> ?n" by blast+
  show "?f r \<noteq> r"
    using ring_two[OF ring p n qF(1) _ qF(2)] ringD(2)[OF ring rF(1) qF(1) q(2)] q(2)
    by (cases "r = p") simp_all
  show "?f r - r \<le> q - r"
  proof (cases "r = p")
    case True
    then have "?n - p \<le> q - p" "f ?n - ?n \<le> q - ?n"
      using ringD(3)[OF ring p qF(1)] ringD(3)[OF ring nF qF] q(2) by simp_all
    then show ?thesis using circle_back True by simp
  next
    case False
    then show ?thesis using ringD(3)[OF ring rF(1) qF(1) q(2)] by simp
  qed
qed

lemma ring_cong: "(\<And>p. p \<in> F \<Longrightarrow> f p = g p) \<Longrightarrow> ring f F = ring g F"
  by (simp add: ring_def cong: ball_cong)

section \<open>Finding the place\<close>

lemma find_stop:
  assumes "bp \<noteq> p" "bp \<noteq> n"
  shows "((bp > p \<and> bp < n) \<or> (p \<ge> n \<and> (bp > p \<or> bp < n))) \<longleftrightarrow> n = p \<or> bp - p < n - (p :: u32)"
  using assms unat_below[of n] unat_below[of p] unat_below[of bp] by (auto simp only: circle split: if_splits; linarith)

lemma free_find_finds:
  assumes "ring (h_ptr k) F" "p \<in> F" "bp \<notin> F"
  shows "\<exists>p'\<in>F. free_find bp p k = Some p' \<and> (\<forall>q\<in>F. q \<noteq> p' \<longrightarrow> bp - p' < q - p')"
  using assms(2)
proof (induction "2 ^ 32 - unat (p - bp)" arbitrary: p rule: less_induct)
  case less
  let ?n = "h_ptr k p"
  have n: "?n \<in> F" using ringD(1)[OF assms(1) less.prems] .
  have ne: "bp \<noteq> p" "bp \<noteq> ?n" using less.prems n assms(3) by auto
  show ?case
  proof (cases "?n = p \<or> bp - p < ?n - p")
    case True
    then have "free_find bp p k = Some p"
      using find_stop[OF ne] by (subst free_find.simps) auto
    moreover have "bp - p < q - p" if "q \<in> F" "q \<noteq> p" for q
      using True ringD(2,3)[OF assms(1) less.prems that] by auto
    ultimately show ?thesis using less.prems by blast
  next
    case False
    then have "?n - p < bp - p" "?n \<noteq> p"
      using ne by (auto simp: not_less order.order_iff_strict)
    then have "p - bp < ?n - bp"
      using circle_closer by blast
    then have "2 ^ 32 - unat (?n - bp) < 2 ^ 32 - unat (p - bp)"
      using unat_below[of "p - bp"] by (intro diff_less_mono2) (simp_all add: word_less_nat_alt)
    moreover have "free_find bp p k = free_find bp ?n k"
      using find_stop[OF ne] False by (subst free_find.simps) auto
    ultimately show ?thesis using less.hyps n by simp
  qed
qed

end
