(* ===== verification/Kmalloc_Props.thy ===== *)
theory Kmalloc_Props
  imports Kmalloc
begin

text \<open>
  The heap of the kernel is at every moment cut into blocks without gap or overlap, each of them free or allocated;
  \<open>kmalloc\<close> allocates a free block of sufficient size and \<open>kfree\<close> makes it free again.
\<close>

section \<open>The invariant\<close>

definition cells :: "kheap \<Rightarrow> u32 \<Rightarrow> nat set" where
  "cells k b = {unat b ..< unat b + 8 * unat (h_size k b)}"

text \<open>The blocks \<open>B\<close> cut the used part of the heap.\<close>

definition tiles :: "kheap \<Rightarrow> u32 set \<Rightarrow> bool" where
  "tiles k B \<longleftrightarrow> (\<forall>a\<in>B. \<forall>b\<in>B. a \<noteq> b \<longrightarrow> cells k a \<inter> cells k b = {}) \<and>
     (\<Union>b\<in>B. cells k b) = {unat (kheap_at k) ..< unat (kheaptop k)} \<and>
     (\<forall>b\<in>insert (kheaptop k) B. unat b mod 8 = unat (kheap_at k) mod 8)"

definition heap_place :: "kheap \<Rightarrow> bool" where
  "heap_place k \<longleftrightarrow> base_at k \<noteq> 0 \<and> 0 < kheap_at k \<and> unat (kheap_at k) + 64 * 4096 < 2 ^ 32 \<and>
     (base_at k < kheap_at k \<or> base_at k \<ge> kheap_at k + KHEAPSIZE) \<and>
     kheap_at k \<le> kheaptop k \<and> kheaptop k < kheap_at k + KHEAPSIZE"

text \<open>\<open>A\<close> are the headers of the allocated blocks, \<open>F\<close> the members of the free list.\<close>

definition heap_inv :: "kheap \<Rightarrow> u32 set \<Rightarrow> u32 set \<Rightarrow> bool" where
  "heap_inv k A F \<longleftrightarrow> heap_place k \<and> tiles k (A \<union> (F - {base_at k})) \<and> A \<inter> F = {} \<and> base_at k \<notin> A \<and>
     (\<forall>b\<in>A \<union> (F - {base_at k}). h_size k b \<noteq> 0) \<and>
     base_at k \<in> F \<and> h_size k (base_at k) = 0 \<and> freep k \<in> F \<and> ring (h_ptr k) F"

lemma heap_invD:
  assumes "heap_inv k A F"
  shows "heap_place k" "tiles k (A \<union> (F - {base_at k}))" "A \<inter> F = {}" "base_at k \<notin> A"
    "b \<in> A \<Longrightarrow> h_size k b \<noteq> 0" "b \<in> F \<Longrightarrow> b \<noteq> base_at k \<Longrightarrow> h_size k b \<noteq> 0"
    "base_at k \<in> F" "h_size k (base_at k) = 0" "freep k \<in> F" "ring (h_ptr k) F"
  using assms by (auto simp: heap_inv_def)

lemma interval_within:
  assumes "0 < n" "{b ..< b + 8 * n} \<subseteq> {s ..< t}"
  shows "s \<le> b \<and> b + 8 * n \<le> (t :: nat)"
proof -
  have "b \<in> {s ..< t}" "b + 8 * n - 1 \<in> {s ..< t}"
    using assms by (intro subsetD[OF assms(2)]; simp)+
  then show ?thesis
    using assms(1) by auto
qed

lemma tilesD:
  assumes "tiles k B" "b \<in> B" "h_size k b \<noteq> 0"
  shows "unat (kheap_at k) \<le> unat b" "unat b + 8 * unat (h_size k b) \<le> unat (kheaptop k)"
    and "a \<in> B \<Longrightarrow> a \<noteq> b \<Longrightarrow> cells k a \<inter> cells k b = {}"
proof -
  have "0 < unat (h_size k b)"
    using assms(3) by (simp add: unat_gt_0)
  moreover have "cells k b \<subseteq> {unat (kheap_at k) ..< unat (kheaptop k)}"
    using assms(1,2) by (auto simp: tiles_def)
  ultimately show "unat (kheap_at k) \<le> unat b" "unat b + 8 * unat (h_size k b) \<le> unat (kheaptop k)"
    using interval_within unfolding cells_def by blast+
  show "a \<in> B \<Longrightarrow> a \<noteq> b \<Longrightarrow> cells k a \<inter> cells k b = {}"
    using assms(1,2) by (auto simp: tiles_def)
qed

lemma base_outside:
  assumes "heap_place k" "unat (kheap_at k) \<le> unat b" "unat b \<le> unat (kheaptop k)"
  shows "b \<noteq> base_at k"
  using assms by (auto simp: heap_place_def word_le_nat_alt word_less_nat_alt)

text \<open>The end of a block, as the code computes it.\<close>

lemma block_end:
  assumes "heap_place k" "unat b + 8 * unat (n :: u32) \<le> unat (kheaptop k)"
  shows "unat (b + 8 * n) = unat b + 8 * unat n"
proof -
  have small: "unat b + 8 * unat n < 4294967296"
    using assms(2) unat_below[of "kheaptop k"] by linarith
  then have "8 * unat n < 4294967296"
    by linarith
  then have "unat (8 * n) = 8 * unat n"
    using unat_mult_lem[of 8 n] by simp
  then show ?thesis
    using unat_add_lem[of b "8 * n"] small by simp
qed

text \<open>Freeing makes the block a member of the list \<dots>\<close>

definition hdr_insert :: "u32 \<Rightarrow> u32 \<Rightarrow> kheap \<Rightarrow> kheap" where
  "hdr_insert bp p k = (set_ptr p bp (set_ptr bp (h_ptr k p) k))\<lparr>freep := p\<rparr>"

text \<open>\<dots> and joins it with the block after it, and the block before it with it, where they meet.\<close>

definition hdr_merge :: "u32 \<Rightarrow> kheap \<Rightarrow> kheap" where
  "hdr_merge b k =
    (if b + 8 * h_size k b = h_ptr k b
     then set_ptr b (h_ptr k (h_ptr k b)) (set_size b (h_size k b + h_size k (h_ptr k b)) k) else k)"

lemma free_join_steps:
  assumes "p \<noteq> bp" "bp + 8 * h_size k bp = h_ptr k p \<Longrightarrow> h_ptr k p \<noteq> p" "h_ptr k p \<noteq> bp"
  shows "free_join bp p k = hdr_merge p (hdr_merge bp (hdr_insert bp p k))"
  using assms by (auto simp: free_join_def hdr_merge_def hdr_insert_def set_ptr_def set_size_def Let_def fun_upd_twist)

lemma tiles_cong:
  assumes "\<And>b. b \<in> B \<Longrightarrow> h_size k' b = h_size k b" "kheap_at k' = kheap_at k" "kheaptop k' = kheaptop k"
  shows "tiles k' B = tiles k B"
  using assms by (simp add: tiles_def cells_def)

lemma heap_inv_insert:
  assumes inv: "heap_inv k A F" and bp: "bp \<in> A" and p: "p \<in> F"
    and near: "\<forall>q\<in>F. q \<noteq> p \<longrightarrow> bp - p < q - p"
  shows "heap_inv (hdr_insert bp p k) (A - {bp}) (insert bp F)"
proof -
  have ne: "bp \<noteq> p" "bp \<notin> F" "bp \<noteq> base_at k"
    using heap_invD(3,4)[OF inv] bp p by auto
  have blocks: "A - {bp} \<union> (insert bp F - {base_at k}) = A \<union> (F - {base_at k})"
    using bp ne by blast
  have "ring ((h_ptr k)(bp := h_ptr k p, p := bp)) (insert bp F)"
    by (rule ring_insert[OF heap_invD(10)[OF inv] p ne(2) near])
  then show ?thesis
    using inv p blocks tiles_cong[of "A \<union> (F - {base_at k})" "hdr_insert bp p k" k]
    by (auto simp: heap_inv_def hdr_insert_def set_ptr_def heap_place_def)
qed

lemma tiles_merge:
  assumes "tiles k B" "b \<in> B" "n \<in> B" "n \<noteq> b"
    and "cells k' b = cells k b \<union> cells k n" "\<And>c. c \<in> B \<Longrightarrow> c \<noteq> b \<Longrightarrow> cells k' c = cells k c"
    and "kheap_at k' = kheap_at k" "kheaptop k' = kheaptop k"
  shows "tiles k' (B - {n})"
proof -
  have disj: "cells k a \<inter> cells k c = {}" if "a \<in> B" "c \<in> B" "a \<noteq> c" for a c
    using assms(1) that by (auto simp: tiles_def)
  have "cells k' a \<inter> cells k' c = {}" if "a \<in> B - {n}" "c \<in> B - {n}" "a \<noteq> c" for a c
    using that disj[of a c] disj[of n c] disj[of a n] assms(2-6) by (cases "a = b"; cases "c = b") auto
  moreover have "(\<Union>c\<in>B - {n}. cells k' c) = (\<Union>c\<in>B. cells k c)"
  proof -
    have "B - {n} = insert b (B - {b, n})" "B = insert b (insert n (B - {b, n}))"
      using assms(2-4) by blast+
    moreover have "(\<Union>c\<in>B - {b, n}. cells k' c) = (\<Union>c\<in>B - {b, n}. cells k c)"
      using assms(6) by auto
    ultimately show ?thesis
      using assms(5) by (metis UN_insert Un_assoc)
  qed
  ultimately show ?thesis
    using assms(1,7,8) by (simp add: tiles_def)
qed

text \<open>What the operations leave alone: the allocated blocks' headers and the place of the heap.\<close>

definition same_heap :: "kheap \<Rightarrow> kheap \<Rightarrow> u32 set \<Rightarrow> bool" where
  "same_heap k k' A \<longleftrightarrow> kheap_at k' = kheap_at k \<and> base_at k' = base_at k \<and> (\<forall>b\<in>A. h_size k' b = h_size k b)"

lemma same_heap_refl: "same_heap k k A"
  by (simp add: same_heap_def)

lemma same_heap_trans: "same_heap k k' A \<Longrightarrow> same_heap k' k'' A \<Longrightarrow> same_heap k k'' A"
  by (simp add: same_heap_def)

lemma hdr_merge_place [simp]:
  "freep (hdr_merge b k) = freep k" "kheaptop (hdr_merge b k) = kheaptop k"
  "kheap_at (hdr_merge b k) = kheap_at k" "base_at (hdr_merge b k) = base_at k"
  by (simp_all add: hdr_merge_def set_ptr_def set_size_def)

lemma heap_inv_merge:
  assumes inv: "heap_inv k A F" and b: "b \<in> F" "b \<noteq> base_at k"
    and fp: "b + 8 * h_size k b = h_ptr k b \<Longrightarrow> freep k \<noteq> h_ptr k b"
  shows "\<exists>F'\<subseteq>F. heap_inv (hdr_merge b k) A F' \<and> same_heap k (hdr_merge b k) A \<and>
    (\<forall>c\<in>F. \<exists>c'\<in>F'. h_size k c \<le> h_size (hdr_merge b k) c')"
proof (cases "b + 8 * h_size k b = h_ptr k b")
  case False
  then have "hdr_merge b k = k" by (simp add: hdr_merge_def)
  then show ?thesis using inv same_heap_refl by auto
next
  case True
  let ?n = "h_ptr k b" let ?k = "hdr_merge b k" let ?B = "A \<union> (F - {base_at k})"
  note inv' = heap_invD[OF inv]
  have bB: "b \<in> ?B" using b by blast
  have sz: "h_size k b \<noteq> 0" using inv'(6) b by blast
  note range = tilesD[OF inv'(2) bB sz]
  have n: "unat ?n = unat b + 8 * unat (h_size k b)"
    using block_end[OF inv'(1) range(2)] True by simp
  have nb: "?n \<noteq> b" using n sz by (auto simp: unat_eq_zero)
  have nF: "?n \<in> F" using ringD(1)[OF inv'(10) b(1)] .
  have n_base: "?n \<noteq> base_at k"
    using base_outside[OF inv'(1)] range(1,2) n by simp
  have nB: "?n \<in> ?B" using nF n_base by blast
  note nrange = tilesD[OF inv'(2) nB inv'(6)[OF nF n_base]]
  have sum: "unat (h_size k b + h_size k ?n) = unat (h_size k b) + unat (h_size k ?n)"
    by (rule unat_add_within[of _ _ "kheaptop k"]) (use n nrange(2) in linarith)
  have sizes: "h_size ?k = (h_size k)(b := h_size k b + h_size k ?n)" "h_ptr ?k = (h_ptr k)(b := h_ptr k ?n)"
    using True by (simp_all add: hdr_merge_def set_ptr_def set_size_def)
  have "tiles ?k (?B - {?n})"
  proof (rule tiles_merge[OF inv'(2) bB nB nb])
    show "cells ?k b = cells k b \<union> cells k ?n"
      using n sum by (auto simp: cells_def sizes)
    show "cells ?k c = cells k c" if "c \<in> ?B" "c \<noteq> b" for c
      using that by (simp add: cells_def sizes)
  qed simp_all
  moreover have "?B - {?n} = A \<union> (F - {?n} - {base_at k})"
    using nF inv'(3) by blast
  moreover have "ring (h_ptr ?k) (F - {?n})"
    unfolding sizes by (rule ring_remove[OF inv'(10) b(1) nb])
  moreover have "h_size k b + h_size k ?n \<noteq> 0"
    using sum sz by (metis add_eq_0_iff_both_eq_0 unat_eq_zero)
  moreover have "freep k \<noteq> ?n" "b \<notin> A" "b \<noteq> base_at k"
    using fp True b inv'(3) by auto
  ultimately have "heap_inv ?k A (F - {?n})"
    using inv n_base by (auto simp: heap_inv_def heap_place_def sizes)
  moreover have "same_heap k ?k A"
    using \<open>b \<notin> A\<close> by (auto simp: same_heap_def sizes)
  moreover have "\<exists>c'\<in>F - {?n}. h_size k c \<le> h_size ?k c'" if "c \<in> F" for c
  proof (cases "c = b \<or> c = ?n")
    case True
    then show ?thesis
      using sum b nb by (intro bexI[of _ b]) (auto simp: sizes word_le_nat_alt)
  next
    case False
    then show ?thesis using that by (intro bexI[of _ c]) (auto simp: sizes)
  qed
  ultimately show ?thesis by blast
qed

lemma free_find_place:
  assumes inv: "heap_inv k A F" and b: "b \<in> A"
  shows "\<exists>p\<in>F. free_find b (freep k) k = Some p \<and> (\<forall>q\<in>F. q \<noteq> p \<longrightarrow> b - p < q - p)"
  using free_find_finds[OF heap_invD(10,9)[OF inv]] heap_invD(3)[OF inv] b by blast

lemma freep_not_null:
  assumes inv: "heap_inv k A F"
  shows "freep k \<noteq> 0"
proof -
  note inv' = heap_invD[OF inv]
  have "freep k = base_at k \<or> kheap_at k \<le> freep k"
    using inv'(9) tilesD(1)[OF inv'(2) _ inv'(6)[OF inv'(9)]] unfolding word_le_nat_alt by blast
  then show ?thesis using inv'(1) by (auto simp: heap_place_def)
qed

lemma heap_free:
  assumes inv: "heap_inv k A F" and b: "b \<in> A"
  shows "\<exists>k' F'. free_hdr (b + 8) k = Some k' \<and> heap_inv k' (A - {b}) F' \<and> same_heap k k' (A - {b}) \<and>
    kheaptop k' = kheaptop k \<and> (\<exists>c\<in>F'. h_size k b \<le> h_size k' c)"
proof -
  note inv' = heap_invD[OF inv]
  obtain p where p: "p \<in> F" "free_find b (freep k) k = Some p" "\<forall>q\<in>F. q \<noteq> p \<longrightarrow> b - p < q - p"
    using free_find_place[OF inv b] by blast
  have bF: "b \<notin> F" "b \<noteq> p" using b p(1) inv'(3) by blast+
  have fp: "h_ptr k p \<in> F" using ringD(1)[OF inv'(10) p(1)] .
  have bB: "b \<in> A \<union> (F - {base_at k})" using b by blast
  note range = tilesD[OF inv'(2) bB inv'(5)[OF b]]
  have apart: "h_ptr k p \<noteq> p" if meets: "b + 8 * h_size k b = h_ptr k p"
  proof
    assume "h_ptr k p = p"
    then have "h_ptr k p = base_at k"
      using ringD(2)[OF inv'(10) p(1) inv'(7)] by metis
    moreover have "unat (h_ptr k p) = unat b + 8 * unat (h_size k b)"
      using block_end[OF inv'(1) range(2)] meets by simp
    ultimately show False
      using base_outside[OF inv'(1), of "h_ptr k p"] range(1,2) by simp
  qed
  let ?k1 = "hdr_insert b p k" let ?k2 = "hdr_merge b ?k1" let ?k3 = "hdr_merge p ?k2"
  have k1: "h_ptr ?k1 b = h_ptr k p" "h_ptr ?k1 p = b" "h_size ?k1 = h_size k" "freep ?k1 = p" "base_at ?k1 = base_at k"
    "kheaptop ?k1 = kheaptop k" "same_heap k ?k1 (A - {b})"
    using bF by (simp_all add: hdr_insert_def set_ptr_def same_heap_def)
  have inv1: "heap_inv ?k1 (A - {b}) (insert b F)"
    by (rule heap_inv_insert[OF inv b p(1,3)])
  have b1: "b \<noteq> base_at ?k1" using b inv'(4) k1 by auto
  have "freep ?k1 \<noteq> h_ptr ?k1 b" if "b + 8 * h_size ?k1 b = h_ptr ?k1 b"
    using apart that unfolding k1 by metis
  then obtain F2 where F2: "F2 \<subseteq> insert b F" "heap_inv ?k2 (A - {b}) F2" "same_heap ?k1 ?k2 (A - {b})"
      "\<forall>c\<in>insert b F. \<exists>c'\<in>F2. h_size ?k1 c \<le> h_size ?k2 c'"
    using heap_inv_merge[OF inv1 insertI1 b1] by blast
  have k2: "h_ptr ?k2 p = b"
    using bF k1 by (simp add: hdr_merge_def set_ptr_def set_size_def)
  have "\<exists>F3\<subseteq>F2. heap_inv ?k3 (A - {b}) F3 \<and> same_heap ?k2 ?k3 (A - {b}) \<and>
    (\<forall>c\<in>F2. \<exists>c'\<in>F3. h_size ?k2 c \<le> h_size ?k3 c')"
  proof (cases "p = base_at ?k2")
    case True
    then have "h_size ?k2 p = 0" using heap_invD(8)[OF F2(2)] by simp
    then have "?k3 = ?k2" using k2 bF by (simp add: hdr_merge_def)
    then show ?thesis using F2 same_heap_refl by auto
  next
    case False
    have "p \<in> F2" using heap_invD(9)[OF F2(2)] k1 by simp
    then show ?thesis using heap_inv_merge[OF F2(2) _ False] k1 k2 bF by simp
  qed
  then obtain F3 where F3: "heap_inv ?k3 (A - {b}) F3" "same_heap ?k2 ?k3 (A - {b})"
      "\<forall>c\<in>F2. \<exists>c'\<in>F3. h_size ?k2 c \<le> h_size ?k3 c'" by blast
  obtain c where "c \<in> F2" "h_size k b \<le> h_size ?k2 c"
    using F2(4) k1 by force
  then obtain d where "d \<in> F3" "h_size k b \<le> h_size ?k3 d"
    using F3(3) order_trans by blast
  moreover have "freep k \<noteq> 0" by (rule freep_not_null[OF inv])
  moreover have "free_join b p k = ?k3"
    using free_join_steps[of p b k] apart bF fp by auto
  moreover have "same_heap k ?k3 (A - {b})"
    using k1(7) F2(3) F3(2) same_heap_trans by blast
  ultimately show ?thesis
    using F3(1) p(2) k1 by (auto simp: free_hdr_def Let_def)
qed

section \<open>Taking a block\<close>

lemma tiles_split:
  assumes "tiles k B" "b \<in> B" "n \<notin> B"
    and "cells k b = cells k' b \<union> cells k' n" "cells k' b \<inter> cells k' n = {}"
    and "\<And>c. c \<in> B \<Longrightarrow> c \<noteq> b \<Longrightarrow> cells k' c = cells k c"
    and "kheap_at k' = kheap_at k" "kheaptop k' = kheaptop k" "unat n mod 8 = unat (kheap_at k) mod 8"
  shows "tiles k' (insert n B)"
proof -
  have disj: "cells k a \<inter> cells k c = {}" if "a \<in> B" "c \<in> B" "a \<noteq> c" for a c
    using assms(1) that by (auto simp: tiles_def)
  have sub: "cells k' c \<subseteq> cells k c" if "c \<in> B" for c
    using assms(4,6) that by (cases "c = b") auto
  have n: "cells k' n \<inter> cells k' c = {}" if "c \<in> B" for c
    using assms(4,5) disj[OF assms(2) that] sub[OF that] by (cases "c = b") auto
  have new: "cells k' n \<subseteq> cells k b" using assms(4) by blast
  have "cells k' a \<inter> cells k' c = {}" if "a \<in> B" "c \<in> B" "a \<noteq> c" for a c
    using disj[OF that] sub[OF that(1)] sub[OF that(2)] by blast
  then have "\<forall>a\<in>insert n B. \<forall>c\<in>insert n B. a \<noteq> c \<longrightarrow> cells k' a \<inter> cells k' c = {}"
    using n by blast
  moreover have "(\<Union>c\<in>insert n B. cells k' c) = (\<Union>c\<in>B. cells k c)"
  proof (rule equalityI)
    show "(\<Union>c\<in>insert n B. cells k' c) \<subseteq> (\<Union>c\<in>B. cells k c)"
      using new sub assms(2) by blast
    have "cells k c \<subseteq> (\<Union>c\<in>insert n B. cells k' c)" if "c \<in> B" for c
      using that assms(2,4,6) by (cases "c = b") blast+
    then show "(\<Union>c\<in>B. cells k c) \<subseteq> (\<Union>c\<in>insert n B. cells k' c)"
      by blast
  qed
  moreover have "\<forall>c\<in>insert (kheaptop k') (insert n B). unat c mod 8 = unat (kheap_at k') mod 8"
    using assms(1,7-9) by (simp add: tiles_def)
  ultimately show ?thesis
    using assms(1,7,8) unfolding tiles_def by simp
qed

definition took :: "kheap \<Rightarrow> u32 set \<Rightarrow> u32 \<Rightarrow> u32 \<times> kheap \<Rightarrow> bool" where
  "took k A nunits r \<longleftrightarrow> (case r of (a, k') \<Rightarrow> a - 8 \<notin> A \<and> (\<exists>F'. heap_inv k' (insert (a - 8) A) F') \<and>
     h_size k' (a - 8) = nunits \<and> same_heap k k' A)"

lemma take_whole:
  assumes inv: "heap_inv k A F" and prevp: "prevp \<in> F" and p: "p = h_ptr k prevp"
    and size: "h_size k p = nunits" and nu: "nunits \<noteq> 0"
  shows "took k A nunits (p + 8, (set_ptr prevp (h_ptr k p) k)\<lparr>freep := prevp\<rparr>)"
proof -
  note inv' = heap_invD[OF inv]
  have pF: "p \<in> F" using ringD(1)[OF inv'(10) prevp] p by simp
  have p_base: "p \<noteq> base_at k" using inv'(8) size nu by metis
  then have ne: "p \<noteq> prevp" using ringD(2)[OF inv'(10) prevp inv'(7)] p by metis
  let ?k = "(set_ptr prevp (h_ptr k p) k)\<lparr>freep := prevp\<rparr>"
  have "insert p A \<union> (F - {p} - {base_at k}) = A \<union> (F - {base_at k})"
    using pF p_base by blast
  then have tiles: "tiles ?k (insert p A \<union> (F - {p} - {base_at k}))"
    using inv'(2) tiles_cong[of "A \<union> (F - {base_at k})" ?k k] by (simp add: set_ptr_def)
  have ring: "ring (h_ptr ?k) (F - {p})"
    using ring_remove[OF inv'(10) prevp] ne by (simp add: set_ptr_def p)
  have "heap_inv ?k (insert p A) (F - {p})"
    using inv tiles ring pF prevp p_base ne unfolding heap_inv_def
    by (auto simp: set_ptr_def heap_place_def)
  moreover have "p \<notin> A" using pF inv'(3) by blast
  ultimately show ?thesis
    using size by (auto simp: took_def same_heap_def set_ptr_def)
qed

lemma take_tail:
  assumes inv: "heap_inv k A F" and prevp: "prevp \<in> F" and p: "p = h_ptr k prevp"
    and size: "nunits < h_size k p" and nu: "nunits \<noteq> 0" and q: "q = p + 8 * (h_size k p - nunits)"
  shows "took k A nunits (q + 8, (set_size q nunits (set_size p (h_size k p - nunits) k))\<lparr>freep := prevp\<rparr>)"
proof -
  note inv' = heap_invD[OF inv]
  let ?B = "A \<union> (F - {base_at k})"
  let ?k = "(set_size q nunits (set_size p (h_size k p - nunits) k))\<lparr>freep := prevp\<rparr>"
  have pF: "p \<in> F" using ringD(1)[OF inv'(10) prevp] p by simp
  have size0: "h_size k p \<noteq> 0" using size by auto
  then have p_base: "p \<noteq> base_at k" using inv'(8) by metis
  then have pB: "p \<in> ?B" using pF by blast
  note range = tilesD[OF inv'(2) pB size0]
  have rest: "unat (h_size k p - nunits) = unat (h_size k p) - unat nunits" "unat nunits < unat (h_size k p)"
    using unat_sub[OF order.strict_implies_order[OF size]] size by (simp_all add: word_less_nat_alt)
  have q_at: "unat q = unat p + 8 * (unat (h_size k p) - unat nunits)"
    using block_end[OF inv'(1), of p "h_size k p - nunits"] range(2) rest q by simp
  have nu_pos: "0 < unat nunits" using nu by (simp add: unat_gt_0)
  have q_in: "unat q \<in> cells k p" "q \<noteq> p"
    using q_at rest nu_pos by (auto simp: cells_def)
  have q_new: "q \<notin> ?B"
  proof
    assume qB: "q \<in> ?B"
    then have "h_size k q \<noteq> 0" using inv'(5,6) by blast
    then have "unat q \<in> cells k q" by (simp add: cells_def unat_gt_0)
    then show False using range(3)[OF qB q_in(2)] q_in(1) by blast
  qed
  have q_base: "q \<noteq> base_at k"
    using base_outside[OF inv'(1)] range(1,2) q_at rest by simp
  have sizes: "h_size ?k = (h_size k)(p := h_size k p - nunits, q := nunits)" "h_ptr ?k = h_ptr k"
    by (simp_all add: set_size_def)
  have "unat p mod 8 = unat (kheap_at k) mod 8"
    using inv'(2) pB by (simp add: tiles_def)
  then have aligned: "unat q mod 8 = unat (kheap_at k) mod 8"
    by (simp add: q_at)
  have "tiles ?k (insert q ?B)"
  proof (rule tiles_split[OF inv'(2) pB q_new])
    show "cells k p = cells ?k p \<union> cells ?k q" "cells ?k p \<inter> cells ?k q = {}"
      using q_at rest q_in(2) by (auto simp: cells_def sizes)
    show "cells ?k c = cells k c" if "c \<in> ?B" "c \<noteq> p" for c
      using that q_new by (auto simp: cells_def sizes)
  qed (simp_all add: set_size_def aligned)
  moreover have "insert q A \<union> (F - {base_at k}) = insert q ?B" by blast
  moreover have "h_size k p - nunits \<noteq> 0" using rest by (metis unat_0 zero_less_diff less_irrefl)
  moreover have "p \<notin> A" "q \<notin> F" "q \<notin> A"
    using pF inv'(3) q_new q_base by blast+
  ultimately have "heap_inv ?k (insert q A) F"
    using inv prevp p_base q_base nu by (auto simp: heap_inv_def heap_place_def sizes set_size_def)
  then show ?thesis
    using \<open>p \<notin> A\<close> \<open>q \<notin> A\<close> by (auto simp: took_def same_heap_def sizes set_size_def)
qed

lemma malloc_take_took:
  assumes "heap_inv k A F" "prevp \<in> F" "nunits \<le> h_size k (h_ptr k prevp)" "nunits \<noteq> 0"
  shows "took k A nunits (malloc_take nunits prevp (h_ptr k prevp) k)"
proof (cases "h_size k (h_ptr k prevp) = nunits")
  case True
  then show ?thesis using take_whole[OF assms(1,2) refl True assms(4)] by (simp add: malloc_take_def)
next
  case False
  then have "nunits < h_size k (h_ptr k prevp)" using assms(3) by simp
  from take_tail[OF assms(1,2) refl this assms(4) refl] show ?thesis
    using False by (simp add: malloc_take_def Let_def set_size_def)
qed

section \<open>The search\<close>

text \<open>How far a member of the list is behind the one after \<open>freep\<close>, where the search ends.\<close>

abbreviation behind :: "kheap \<Rightarrow> u32 \<Rightarrow> u32" where
  "behind k p \<equiv> p - (freep k + 1)"

lemma behind_freep: "x \<le> behind k (freep k)"
  by simp

lemma behind_step:
  assumes inv: "heap_inv k A F" and p: "p \<in> F" "p \<noteq> freep k"
  shows "behind k p < behind k (h_ptr k p)"
    and "c \<in> F \<Longrightarrow> c \<noteq> p \<Longrightarrow> behind k p \<le> behind k c \<Longrightarrow> behind k (h_ptr k p) \<le> behind k c"
proof -
  note ring = heap_invD(10)[OF inv] and f = heap_invD(9)[OF inv]
  have le: "h_ptr k p - p \<le> c - p" if "c \<in> F" "c \<noteq> p" for c
    using ringD(3)[OF ring p(1) that] .
  have ne: "h_ptr k p \<noteq> p" using ringD(2)[OF ring p(1) f] p(2) by metis
  show "c \<in> F \<Longrightarrow> c \<noteq> p \<Longrightarrow> behind k p \<le> behind k c \<Longrightarrow> behind k (h_ptr k p) \<le> behind k c"
    using circle_back le by blast
  show "behind k p < behind k (h_ptr k p)"
    using circle_ahead[OF behind_freep le[OF f p(2)[symmetric]] ne] by simp
qed

lemma behind_first:
  assumes "heap_inv k A F" "c \<in> F"
  shows "behind k (h_ptr k (freep k)) \<le> behind k c"
proof (cases "c = freep k")
  case False
  note ring = heap_invD(10)[OF assms(1)] and f = heap_invD(9)[OF assms(1)]
  have "h_ptr k (freep k) - freep k \<le> c - freep k" "h_ptr k (freep k) \<noteq> freep k"
    using ringD(2,3)[OF ring f assms(2) False] by simp_all
  then show ?thesis using circle_minus_one by blast
qed (use behind_freep in simp)

text \<open>A search that has a sufficient block before it takes one; another search asks for more.\<close>

lemma search_takes:
  assumes inv: "heap_inv k A F" and c: "c \<in> F" "nunits \<le> h_size k c"
  shows "prevp \<in> F \<Longrightarrow> behind k (h_ptr k prevp) \<le> behind k c \<Longrightarrow>
    \<exists>prevp'\<in>F. nunits \<le> h_size k (h_ptr k prevp') \<and>
      malloc_loop nunits prevp (h_ptr k prevp) k = Some (malloc_take nunits prevp' (h_ptr k prevp') k)"
proof (induction "2 ^ 32 - unat (behind k (h_ptr k prevp))" arbitrary: prevp rule: less_induct)
  case less
  let ?p = "h_ptr k prevp"
  have pF: "?p \<in> F" using ringD(1)[OF heap_invD(10)[OF inv] less.prems(1)] .
  show ?case
  proof (cases "nunits \<le> h_size k ?p")
    case True
    then show ?thesis using less.prems(1) by (subst malloc_loop.simps) auto
  next
    case False
    then have "c \<noteq> ?p" using c by blast
    then have "?p \<noteq> freep k"
      using less.prems(2) behind_freep[of "behind k c" k] by (auto dest: antisym)
    note step = behind_step[OF inv pF this]
    have "2 ^ 32 - unat (behind k (h_ptr k ?p)) < 2 ^ 32 - unat (behind k ?p)"
      using step(1) unat_below[of "behind k ?p"] by (intro diff_less_mono2) (simp_all add: word_less_nat_alt)
    moreover have "malloc_loop nunits prevp ?p k = malloc_loop nunits ?p (h_ptr k ?p) k"
      using False \<open>?p \<noteq> freep k\<close> by (subst malloc_loop.simps) auto
    ultimately show ?thesis
      using less.hyps pF step(2)[OF c(1) \<open>c \<noteq> ?p\<close> less.prems(2)] by simp
  qed
qed

lemma search_ends:
  assumes inv: "heap_inv k A F"
  shows "prevp \<in> F \<Longrightarrow>
    (\<exists>prevp'\<in>F. nunits \<le> h_size k (h_ptr k prevp') \<and>
      malloc_loop nunits prevp (h_ptr k prevp) k = Some (malloc_take nunits prevp' (h_ptr k prevp') k)) \<or>
    malloc_loop nunits prevp (h_ptr k prevp) k =
      do { (p, k) \<leftarrow> morecore nunits k; if p = 0 then Some (0, k) else malloc_loop nunits p (h_ptr k p) k }"
proof (induction "2 ^ 32 - unat (behind k (h_ptr k prevp))" arbitrary: prevp rule: less_induct)
  case less
  let ?p = "h_ptr k prevp"
  have pF: "?p \<in> F" using ringD(1)[OF heap_invD(10)[OF inv] less.prems(1)] .
  consider "nunits \<le> h_size k ?p" | "\<not> nunits \<le> h_size k ?p" "?p = freep k" | "\<not> nunits \<le> h_size k ?p" "?p \<noteq> freep k"
    by blast
  then show ?case
  proof cases
    case 1
    then show ?thesis using less.prems(1) by (intro disjI1 bexI[of _ prevp]) (subst malloc_loop.simps, simp_all)
  next
    case 2
    then show ?thesis by (intro disjI2) (subst malloc_loop.simps, simp)
  next
    case 3
    have "2 ^ 32 - unat (behind k (h_ptr k ?p)) < 2 ^ 32 - unat (behind k ?p)"
      using behind_step(1)[OF inv pF 3(2)] unat_below[of "behind k ?p"]
      by (intro diff_less_mono2) (simp_all add: word_less_nat_alt)
    moreover have "malloc_loop nunits prevp ?p k = malloc_loop nunits ?p (h_ptr k ?p) k"
      using 3 by (subst malloc_loop.simps) simp
    ultimately show ?thesis
      using less.hyps[OF _ pF] by simp
  qed
qed

section \<open>Growing the heap\<close>

lemma tiles_grow:
  assumes "tiles k B" "b = kheaptop k" "b \<notin> B" "cells k' b = {unat b ..< unat (kheaptop k')}"
    and "\<And>c. c \<in> B \<Longrightarrow> cells k' c = cells k c" "kheap_at k' = kheap_at k" "kheap_at k \<le> kheaptop k"
    and "kheaptop k \<le> kheaptop k'" "unat (kheaptop k') mod 8 = unat (kheap_at k) mod 8"
  shows "tiles k' (insert b B)"
proof -
  have union: "(\<Union>c\<in>B. cells k c) = {unat (kheap_at k) ..< unat b}"
    using assms(1,2) by (simp add: tiles_def)
  then have old: "(\<Union>c\<in>B. cells k' c) = {unat (kheap_at k) ..< unat b}"
    using assms(5) by simp
  then have apart: "cells k' b \<inter> cells k' c = {}" if "c \<in> B" for c
  proof -
    have "cells k' c \<subseteq> {unat (kheap_at k) ..< unat b}"
      using old that by blast
    moreover have "{unat (kheap_at k) ..< unat b} \<inter> {unat b ..< unat (kheaptop k')} = {}"
      by auto
    ultimately show ?thesis
      unfolding assms(4) by blast
  qed
  have "\<forall>a\<in>B. \<forall>c\<in>B. a \<noteq> c \<longrightarrow> cells k' a \<inter> cells k' c = {}"
    using assms(1,5) by (simp add: tiles_def)
  then have "\<forall>a\<in>insert b B. \<forall>c\<in>insert b B. a \<noteq> c \<longrightarrow> cells k' a \<inter> cells k' c = {}"
    using apart by blast
  moreover have "(\<Union>c\<in>insert b B. cells k' c) = {unat (kheap_at k') ..< unat (kheaptop k')}"
  proof -
    have "unat (kheap_at k) \<le> unat b" "unat b \<le> unat (kheaptop k')"
      using assms(2,7,8) by (simp_all add: word_le_nat_alt)
    then show ?thesis
      unfolding UN_insert old assms(4,6) by (metis Un_commute ivl_disj_un_two(3))
  qed
  moreover have "\<forall>c\<in>insert (kheaptop k') (insert b B). unat c mod 8 = unat (kheap_at k') mod 8"
    using assms(1,2,9) unfolding tiles_def assms(6) by simp
  ultimately show ?thesis unfolding tiles_def by blast
qed

definition more_units :: "u32 \<Rightarrow> u32" where
  "more_units nu = (if nu < NALLOC then NALLOC else nu)"

text \<open>The heap has room for so many more bytes.\<close>

definition heap_room :: "kheap \<Rightarrow> nat \<Rightarrow> bool" where
  "heap_room k n \<longleftrightarrow> unat (kheaptop k) + n < unat (kheap_at k) + 64 * 4096"

lemma kheap_end:
  assumes "heap_place k"
  shows "unat (kheap_at k + KHEAPSIZE) = unat (kheap_at k) + 64 * 4096"
  using assms unat_add_lem[of "kheap_at k" KHEAPSIZE] by (simp add: heap_place_def KHEAPSIZE_def)

lemma sbrk_exact:
  assumes place: "heap_place k" and n: "unat n < 2 ^ 32 - 64 * 4096"
  shows "kheap_sbrk n k = (if heap_room k (unat n) then Some (kheaptop k, k\<lparr>kheaptop := kheaptop k + n\<rparr>) else None)"
    and "heap_room k (unat n) \<Longrightarrow> unat (kheaptop k + n) = unat (kheaptop k) + unat n"
proof -
  have at: "unat (kheap_at k) \<le> unat (kheaptop k)" "unat (kheaptop k) < unat (kheap_at k) + 64 * 4096"
    using place kheap_end[OF place] by (simp_all add: heap_place_def word_le_nat_alt word_less_nat_alt)
  have at': "unat (kheap_at k) + 64 * 4096 < 2 ^ 32"
    using place by (simp add: heap_place_def)
  consider (fits) "unat (kheaptop k) + unat n < 2 ^ 32" | (wraps) "2 ^ 32 \<le> unat (kheaptop k) + unat n"
    by linarith
  then have both: "(if heap_room k (unat n) then unat (kheaptop k + n) = unat (kheaptop k) + unat n \<and>
      unat (kheap_at k) \<le> unat (kheaptop k + n) \<and> unat (kheaptop k + n) < unat (kheap_at k) + 64 * 4096
    else unat (kheaptop k + n) < unat (kheap_at k) \<or> unat (kheap_at k) + 64 * 4096 \<le> unat (kheaptop k + n))"
  proof cases
    case fits
    then have "unat (kheaptop k + n) = unat (kheaptop k) + unat n"
      using unat_add_lem[of "kheaptop k" n] by simp
    then show ?thesis using at unfolding heap_room_def by simp
  next
    case wraps
    then have "unat (kheaptop k + n) = unat (kheaptop k) + unat n - 2 ^ 32"
      using unat_plus_if'[of "kheaptop k" n] by simp
    then have "unat (kheaptop k + n) < unat (kheap_at k)" using wraps at n by linarith
    moreover have "\<not> heap_room k (unat n)" using wraps at' unfolding heap_room_def by linarith
    ultimately show ?thesis by simp
  qed
  then show "heap_room k (unat n) \<Longrightarrow> unat (kheaptop k + n) = unat (kheaptop k) + unat n"
    by simp
  show "kheap_sbrk n k = (if heap_room k (unat n) then Some (kheaptop k, k\<lparr>kheaptop := kheaptop k + n\<rparr>) else None)"
    using both unfolding kheap_sbrk_def word_less_nat_alt word_le_nat_alt kheap_end[OF place]
    by (auto split: if_splits)
qed

lemma morecore_grows:
  assumes inv: "heap_inv k A F" and nu: "8 * unat (more_units nu) < 2 ^ 32 - 64 * 4096"
  shows "if heap_room k (8 * unat (more_units nu))
    then \<exists>k' F'. morecore nu k = Some (freep k', k') \<and> heap_inv k' A F' \<and> same_heap k k' A \<and> (\<exists>c\<in>F'. nu \<le> h_size k' c)
    else morecore nu k = None"
proof -
  let ?n = "more_units nu" let ?b = "kheaptop k"
  note inv' = heap_invD[OF inv]
  have bytes: "unat (?n * 8) = 8 * unat ?n"
    using nu unat_mult_lem[of ?n 8] by (simp add: mult.commute)
  note sbrk = sbrk_exact[OF inv'(1), of "?n * 8", unfolded bytes, OF nu]
  show ?thesis
  proof (cases "heap_room k (8 * unat ?n)")
    case False
    then show ?thesis using sbrk(1) by (simp add: morecore_def more_units_def Let_def)
  next
    case True
    let ?k1 = "set_size ?b ?n (k\<lparr>kheaptop := ?b + ?n * 8\<rparr>)" let ?B = "A \<union> (F - {base_at k})"
    have n_pos: "?n \<noteq> 0" by (auto simp: more_units_def NALLOC_def)
    have b_base: "?b \<noteq> base_at k"
      using base_outside[OF inv'(1)] inv'(1) by (simp add: heap_place_def word_le_nat_alt)
    have b_new: "?b \<notin> ?B"
    proof
      assume bB: "?b \<in> ?B"
      then have "h_size k ?b \<noteq> 0" using inv'(5,6) by blast
      from tilesD(2)[OF inv'(2) bB this] this show False by (simp add: unat_eq_zero)
    qed
    have place: "heap_place ?k1"
      using inv'(1) True sbrk(2)[OF True] unfolding heap_place_def heap_room_def
      by (auto simp: set_size_def word_le_nat_alt word_less_nat_alt kheap_end[OF inv'(1)])
    have sizes: "h_size ?k1 = (h_size k)(?b := ?n)" by (simp add: set_size_def)
    have "tiles ?k1 (insert ?b ?B)"
    proof (rule tiles_grow[OF inv'(2) refl b_new])
      show "cells ?k1 ?b = {unat ?b ..< unat (kheaptop ?k1)}"
        using sbrk(2)[OF True] by (simp add: cells_def sizes) (simp add: set_size_def)
      show "cells ?k1 c = cells k c" if "c \<in> ?B" for c
        using that b_new by (auto simp: cells_def sizes)
      show "kheaptop k \<le> kheaptop ?k1"
        using sbrk(2)[OF True] by (simp add: set_size_def word_le_nat_alt)
      show "unat (kheaptop ?k1) mod 8 = unat (kheap_at k) mod 8"
        using sbrk(2)[OF True] inv'(2) by (simp add: set_size_def tiles_def)
    qed (use inv'(1) in \<open>simp_all add: set_size_def heap_place_def\<close>)
    moreover have "insert ?b A \<union> (F - {base_at k}) = insert ?b ?B" by blast
    moreover have b_out: "?b \<notin> F" "?b \<notin> A" using b_new b_base by blast+
    ultimately have inv1: "heap_inv ?k1 (insert ?b A) F"
      using inv place b_base n_pos by (auto simp: heap_inv_def sizes set_size_def)
    have same1: "same_heap k ?k1 A"
      using b_out by (auto simp: same_heap_def set_size_def)
    obtain k' F' where k': "free_hdr (?b + 8) ?k1 = Some k'" "heap_inv k' A F'" "same_heap ?k1 k' A"
        "\<exists>c\<in>F'. ?n \<le> h_size k' c"
      using heap_free[OF inv1 insertI1] b_out by (auto simp: sizes)
    have "?b \<noteq> - 1"
      using inv'(1) kheap_end[OF inv'(1)] by (auto simp: heap_place_def word_less_nat_alt unsigned_minus_1_eq_mask mask_eq_exp_minus_1)
    then have "morecore nu k = Some (freep k', k')"
      using sbrk(1) True k'(1) by (simp add: morecore_def more_units_def[symmetric] Let_def)
    moreover have "nu \<le> ?n" by (simp add: more_units_def order.strict_implies_order)
    ultimately show ?thesis
      using True k' same_heap_trans[OF same1 k'(3)] order_trans by fastforce
  qed
qed

section \<open>Allocation and release\<close>

text \<open>Before the first allocation the list does not exist.\<close>

definition heap_ok :: "kheap \<Rightarrow> u32 set \<Rightarrow> bool" where
  "heap_ok k A \<longleftrightarrow> (if freep k = 0 then heap_place k \<and> kheaptop k = kheap_at k \<and> A = {} else \<exists>F. heap_inv k A F)"

lemma heap_inv_ok: "heap_inv k A F \<Longrightarrow> heap_ok k A"
  using freep_not_null by (auto simp: heap_ok_def)

definition malloc_init :: "kheap \<Rightarrow> kheap" where
  "malloc_init k = (if freep k = 0 then set_size (base_at k) 0 ((set_ptr (base_at k) (base_at k) k)\<lparr>freep := base_at k\<rparr>) else k)"

lemma malloc_init_inv:
  assumes "heap_ok k A"
  shows "\<exists>F. heap_inv (malloc_init k) A F" "same_heap k (malloc_init k) A" "kheaptop (malloc_init k) = kheaptop k"
proof -
  have "heap_inv (malloc_init k) A {base_at k}" if "freep k = 0"
    using assms that by (auto simp: heap_ok_def malloc_init_def heap_inv_def heap_place_def tiles_def set_ptr_def set_size_def ring_def)
  moreover have "malloc_init k = k" if "freep k \<noteq> 0"
    using that by (simp add: malloc_init_def)
  ultimately show "\<exists>F. heap_inv (malloc_init k) A F"
    using assms by (cases "freep k = 0") (auto simp: heap_ok_def)
  show "same_heap k (malloc_init k) A"
    using assms by (auto simp: heap_ok_def malloc_init_def same_heap_def set_ptr_def set_size_def)
  show "kheaptop (malloc_init k) = kheaptop k"
    by (simp add: malloc_init_def set_ptr_def set_size_def)
qed

lemma malloc_loop_takes:
  assumes inv: "heap_inv k A F" and nu: "nu \<noteq> 0" "8 * unat (more_units nu) < 2 ^ 32 - 64 * 4096"
  shows "case malloc_loop nu (freep k) (h_ptr k (freep k)) k of
      None \<Rightarrow> \<not> heap_room k (8 * unat (more_units nu)) | Some r \<Rightarrow> took k A nu r"
proof -
  let ?loop = "malloc_loop nu (freep k) (h_ptr k (freep k)) k"
  note ends = search_ends[OF inv heap_invD(9)[OF inv], of nu]
  have more: "case do { (p, k) \<leftarrow> morecore nu k; if p = 0 then Some (0, k) else malloc_loop nu p (h_ptr k p) k } of
      None \<Rightarrow> \<not> heap_room k (8 * unat (more_units nu)) | Some r \<Rightarrow> took k A nu r"
  proof (cases "heap_room k (8 * unat (more_units nu))")
    case False
    then show ?thesis using morecore_grows[OF inv nu(2)] by simp
  next
    case True
    then obtain k' F' c where k': "morecore nu k = Some (freep k', k')" "heap_inv k' A F'" "same_heap k k' A"
        "c \<in> F'" "nu \<le> h_size k' c"
      using morecore_grows[OF inv nu(2)] by auto
    obtain prevp where p: "prevp \<in> F'" "nu \<le> h_size k' (h_ptr k' prevp)"
        "malloc_loop nu (freep k') (h_ptr k' (freep k')) k' = Some (malloc_take nu prevp (h_ptr k' prevp) k')"
      using search_takes[OF k'(2,4,5) heap_invD(9)[OF k'(2)] behind_first[OF k'(2,4)]] by blast
    have "took k A nu (malloc_take nu prevp (h_ptr k' prevp) k')"
      using malloc_take_took[OF k'(2) p(1,2) nu(1)] same_heap_trans[OF k'(3)] unfolding took_def by auto
    then show ?thesis using k'(1) p(3) freep_not_null[OF k'(2)] by simp
  qed
  show ?thesis
    using ends
  proof
    assume "\<exists>prevp'\<in>F. nu \<le> h_size k (h_ptr k prevp') \<and> ?loop = Some (malloc_take nu prevp' (h_ptr k prevp') k)"
    then show ?thesis using malloc_take_took[OF inv _ _ nu(1)] by auto
  qed (use more in simp)
qed

lemma malloc_units_enough:
  assumes "nbytes \<le> 0xFFF00000"
  shows "malloc_units nbytes \<noteq> 0" "8 * unat (more_units (malloc_units nbytes)) < 2 ^ 32 - 64 * 4096"
    "unat nbytes \<le> 8 * (unat (malloc_units nbytes) - 1)"
    "unat (more_units (malloc_units nbytes)) = max 1024 ((unat nbytes + 7) div 8 + 1)"
proof -
  have n: "unat nbytes \<le> 0xFFF00000"
    using assms by (simp add: word_le_nat_alt)
  have "unat (nbytes + 7) = unat nbytes + 7"
    using n unat_add_lem[of nbytes 7] by simp
  moreover have small: "(unat nbytes + 7) div 8 < 4294967295"
    using n by linarith
  ultimately have "unat ((nbytes + 7) div 8) = (unat nbytes + 7) div 8"
    by (simp add: unat_div)
  moreover from this have "unat ((nbytes + 7) div 8 + 1) = unat ((nbytes + 7) div 8) + 1"
    using small unat_add_lem[of "(nbytes + 7) div 8" 1] by simp
  ultimately have units: "unat (malloc_units nbytes) = (unat nbytes + 7) div 8 + 1"
    by (simp add: malloc_units_def add.commute)
  then show "malloc_units nbytes \<noteq> 0" by auto
  show "unat nbytes \<le> 8 * (unat (malloc_units nbytes) - 1)"
    unfolding units by simp
  show more: "unat (more_units (malloc_units nbytes)) = max 1024 ((unat nbytes + 7) div 8 + 1)"
    using units by (simp add: more_units_def NALLOC_def word_less_nat_alt)
  show "8 * unat (more_units (malloc_units nbytes)) < 2 ^ 32 - 64 * 4096"
    unfolding more using n by simp
qed

lemma kmalloc_loop: "kmalloc nbytes k = malloc_loop (malloc_units nbytes) (freep (malloc_init k))
    (h_ptr (malloc_init k) (freep (malloc_init k))) (malloc_init k)"
  by (simp add: kmalloc_def malloc_init_def Let_def)

lemma inv_cells:
  assumes "heap_inv k A F"
  shows "b \<in> A \<Longrightarrow> cells k b \<subseteq> {unat (kheap_at k) ..< unat (kheap_at k) + 64 * 4096}"
    and "b \<in> A \<Longrightarrow> c \<in> A \<Longrightarrow> c \<noteq> b \<Longrightarrow> cells k b \<inter> cells k c = {}"
proof -
  note inv = heap_invD[OF assms]
  have "unat (kheaptop k) \<le> unat (kheap_at k) + 64 * 4096"
    using inv(1) kheap_end[OF inv(1)] by (simp add: heap_place_def word_less_nat_alt)
  then have "{unat (kheap_at k) ..< unat (kheaptop k)} \<subseteq> {unat (kheap_at k) ..< unat (kheap_at k) + 64 * 4096}"
    by auto
  then show "b \<in> A \<Longrightarrow> cells k b \<subseteq> {unat (kheap_at k) ..< unat (kheap_at k) + 64 * 4096}"
    using inv(2) unfolding tiles_def by blast
  show "b \<in> A \<Longrightarrow> c \<in> A \<Longrightarrow> c \<noteq> b \<Longrightarrow> cells k b \<inter> cells k c = {}"
    using inv(2) unfolding tiles_def by blast
qed

text \<open>
  C12: kmalloc, for any size up to 0xFFF00000, either panics because the 256 KB of the heap cannot grow by what is needed,
  or hands out a block of at least that size that lies in the heap and overlaps no block allocated before; the free
  list and the headers stay well formed, and the allocated blocks keep their sizes. The search always ends.
\<close>

theorem kmalloc_gives_fresh_block:
  "heap_ok k A \<and> nbytes \<le> 0xFFF00000 \<Longrightarrow>
   (case kmalloc nbytes k of
      None \<Rightarrow> unat (kheap_at k) + 64 * 4096 \<le> unat (kheaptop k) + 8 * max 1024 ((unat nbytes + 7) div 8 + 1)
    | Some (a, k') \<Rightarrow> let b = a - 8 in
        b \<notin> A \<and> heap_ok k' (insert b A) \<and> unat nbytes \<le> 8 * (unat (h_size k' b) - 1) \<and>
        cells k' b \<subseteq> {unat (kheap_at k) ..< unat (kheap_at k) + 64 * 4096} \<and>
        (\<forall>c\<in>A. cells k' c = cells k c \<and> cells k' b \<inter> cells k' c = {}))"
proof -
  assume a: "heap_ok k A \<and> nbytes \<le> 0xFFF00000"
  note init = malloc_init_inv[OF conjunct1[OF a]] and units = malloc_units_enough[OF conjunct2[OF a]]
  obtain F where inv: "heap_inv (malloc_init k) A F" using init(1) by blast
  note loop = malloc_loop_takes[OF inv units(1,2), folded kmalloc_loop]
  show ?thesis
  proof (cases "kmalloc nbytes k")
    case None
    then show ?thesis
      using loop init(2,3) units(4) by (simp add: heap_room_def same_heap_def not_less)
  next
    case (Some r)
    obtain a k' where r: "r = (a, k')" by (cases r)
    obtain F' where t: "a - 8 \<notin> A" "heap_inv k' (insert (a - 8) A) F'" "h_size k' (a - 8) = malloc_units nbytes"
        "same_heap (malloc_init k) k' A"
      using loop Some r by (auto simp: took_def)
    have same: "same_heap k k' A" using same_heap_trans[OF init(2) t(4)] .
    then have "cells k' c = cells k c" if "c \<in> A" for c
      using that by (simp add: same_heap_def cells_def)
    moreover have "cells k' (a - 8) \<subseteq> {unat (kheap_at k) ..< unat (kheap_at k) + 64 * 4096}"
      using inv_cells(1)[OF t(2) insertI1] same by (simp add: same_heap_def)
    moreover have "cells k' (a - 8) \<inter> cells k' c = {}" if "c \<in> A" for c
      using inv_cells(2)[OF t(2) insertI1, of c] that t(1) by blast
    ultimately show ?thesis
      using Some r t(1,3) heap_inv_ok[OF t(2)] units(3) by simp
  qed
qed

text \<open>
  C13: kfree of an allocated block always returns; the block's room is free again, the other allocated blocks keep their
  place and size, and the heap keeps its end.
\<close>

theorem kfree_releases_block:
  "heap_ok k A \<and> b \<in> A \<Longrightarrow>
   (case kfree (b + 8) k of
      None \<Rightarrow> False
    | Some k' \<Rightarrow> heap_ok k' (A - {b}) \<and> kheaptop k' = kheaptop k \<and> (\<forall>c\<in>A - {b}. cells k' c = cells k c))"
proof -
  assume a: "heap_ok k A \<and> b \<in> A"
  then obtain F where inv: "heap_inv k A F" by (auto simp: heap_ok_def split: if_splits)
  then show ?thesis
    using heap_free[OF inv conjunct2[OF a]] heap_inv_ok by (auto simp: kfree_def same_heap_def cells_def)
qed

section \<open>A heap\<close>

definition fresh_heap :: kheap where
  "fresh_heap = \<lparr>h_ptr = (\<lambda>_. 0), h_size = (\<lambda>_. 0), freep = 0, kheaptop = 0xF0120000, kheap_at = 0xF0120000,
     base_at = 0xF0160004\<rparr>"

lemma fresh_heap_ok: "heap_ok fresh_heap {}"
  by (simp add: heap_ok_def fresh_heap_def heap_place_def KHEAPSIZE_def)

theorem kmalloc_gives_fresh_block_witness:
  "\<exists>a k. kmalloc 100 fresh_heap = Some (a, k) \<and> heap_ok k {a - 8} \<and> 100 \<le> 8 * (unat (h_size k (a - 8)) - 1)"
proof -
  have "case kmalloc 100 fresh_heap of
      None \<Rightarrow> False
    | Some (a, k) \<Rightarrow> heap_ok k {a - 8} \<and> 100 \<le> 8 * (unat (h_size k (a - 8)) - 1)"
    using kmalloc_gives_fresh_block[of fresh_heap "{}" 100] fresh_heap_ok
    by (auto simp: Let_def fresh_heap_def split: option.splits)
  then show ?thesis
    by (auto split: option.splits)
qed

definition used_heap :: kheap where
  "used_heap = snd (the (kmalloc 100 fresh_heap))"

lemma used_heap_ok: "heap_ok used_heap {0xF0121F90}"
proof -
  have units: "malloc_units 100 = 14"
    by (simp add: malloc_units_def)
  obtain F where inv: "heap_inv (malloc_init fresh_heap) {} F"
    using malloc_init_inv(1)[OF fresh_heap_ok] by blast
  have "took (malloc_init fresh_heap) {} 14 (the (kmalloc 100 fresh_heap))"
    using malloc_loop_takes[OF inv, of 14] by (simp add: kmalloc_loop units more_units_def NALLOC_def heap_room_def
        malloc_init_def fresh_heap_def set_ptr_def set_size_def split: option.splits)
  moreover have "fst (the (kmalloc 100 fresh_heap)) = 0xF0121F98"
    by code_simp
  ultimately show ?thesis
    using heap_inv_ok by (auto simp: took_def used_heap_def split: prod.splits)
qed

theorem kfree_releases_block_witness:
  "\<exists>k. kfree (0xF0121F90 + 8) used_heap = Some k \<and> heap_ok k {}"
  using kfree_releases_block[of used_heap "{0xF0121F90}" "0xF0121F90"] used_heap_ok
  by (auto split: option.splits)

text \<open>
  The size of a request is not checked for overflow. After an allocation of 8192 bytes, a request of 0xFFFFEFF8 bytes
  makes sbrk move the end of the heap down by a page and succeeds, and the next request is answered with memory inside
  the first block.
\<close>

theorem kmalloc_huge_request_overlaps:
  "(do { (a, k) \<leftarrow> kmalloc 8192 fresh_heap;
         (huge, k) \<leftarrow> kmalloc 0xFFFFEFF8 k;
         (c, k) \<leftarrow> kmalloc 8184 k;
         Some (huge \<noteq> 0, a < c, c < a + 8192) }) = Some (True, True, True)"
  by code_simp

end
