(* ===== verification/Kdebug.thy ===== *)
theory Kdebug
  imports Page_Table Cstring
begin

text \<open>
  Debug information, \<^verbatim>\<open>kern/kdebug.c\<close> with \<^verbatim>\<open>inc/stab.h\<close>: the binary search in a table of
  stabs of many types and the lookup of an instruction address in it. Indices into the table are C ints far from their bounds;
  a table is a function of them.
\<close>

section \<open>The table\<close>

record stab =
  n_strx :: u32
  n_type :: u8
  n_other :: u8
  n_desc :: u16
  n_value :: u32

definition N_FUN :: u8 where "N_FUN = 0x24"
definition N_SO :: u8 where "N_SO = 0x64"
definition N_SOL :: u8 where "N_SOL = 0x84"
definition N_PSYM :: u8 where "N_PSYM = 0xa0"

section \<open>The search\<close>

text \<open>The last stab of the type at \<open>m\<close> or before it, not before \<open>l\<close>; \<open>l - 1\<close> if there is none.\<close>

function stab_back :: "(int \<Rightarrow> stab) \<Rightarrow> u8 \<Rightarrow> int \<Rightarrow> int \<Rightarrow> int" where
  "stab_back stabs type l m = (if m \<ge> l \<and> n_type (stabs m) \<noteq> type then stab_back stabs type l (m - 1) else m)"
  by auto
termination by (relation "measure (\<lambda>(stabs, type, l, m). nat (m - l + 1))") auto

declare stab_back.simps [simp del]

lemma stab_back_range: "stab_back stabs type l m \<le> m" "l \<le> m \<Longrightarrow> l - 1 \<le> stab_back stabs type l m"
proof (induction stabs type l m rule: stab_back.induct)
  case (1 stabs type l m)
  {
    case 1
    show ?case
    proof (cases "m \<ge> l \<and> n_type (stabs m) \<noteq> type")
      case True
      then show ?thesis using "1.IH"(1) by (subst stab_back.simps) simp
    next
      case False
      then show ?thesis by (subst stab_back.simps) auto
    qed
  next
    case 2
    show ?case
    proof (cases "m \<ge> l \<and> n_type (stabs m) \<noteq> type")
      case True
      then show ?thesis
        using "1.IH"(2) by (subst stab_back.simps) (cases "l = m"; simp add: stab_back.simps[of _ _ m "m - 1"])
    next
      case False
      then show ?thesis using 2 by (subst stab_back.simps) auto
    qed
  }
qed

text \<open>
  The loop, with the local variables \<open>l\<close>, \<open>r\<close> and \<open>any_matches\<close>, the two results and the address. After an exact
  match the address is that of the next byte.
\<close>

lemma count_down: "nat a < nat b \<Longrightarrow> 2 * nat a + (if P then 1 else 0) < 2 * nat b + (if Q then 1 else 0)"
  by auto

lemma middle: "l \<le> r \<Longrightarrow> l \<le> (l + r) div 2 \<and> (l + r) div 2 \<le> (r :: int)"
  by auto

function stab_loop ::
  "(int \<Rightarrow> stab) \<Rightarrow> u8 \<Rightarrow> int \<Rightarrow> int \<Rightarrow> bool \<Rightarrow> int \<Rightarrow> int \<Rightarrow> u32 \<Rightarrow> bool \<times> int \<times> int" where
  "stab_loop stabs type l r any left right addr =
    (if l \<le> r then
       let true_m = (l + r) div 2; m = stab_back stabs type l true_m
       in if m < l then stab_loop stabs type (true_m + 1) r any left right addr
          else if n_value (stabs m) < addr then stab_loop stabs type (true_m + 1) r True m right addr
          else if n_value (stabs m) > addr then stab_loop stabs type l (m - 1) True left (m - 1) addr
          else stab_loop stabs type m r True m right (addr + 1)
     else (any, left, right))"
  by auto
termination
proof (relation "measure (\<lambda>(stabs, type, l, r, any, left, right, addr).
    2 * nat (r + 1 - l) + (if n_value (stabs (stab_back stabs type l ((l + r) div 2))) = addr then 1 else 0))",
    goal_cases)
  case 1
  then show ?case by simp
next
  case (2 stabs type l r any left right addr true_m m)
  then have "nat (r + 1 - (true_m + 1)) < nat (r + 1 - l)" using middle[of l r] by simp
  then show ?case unfolding in_measure prod.case by (rule count_down)
next
  case (3 stabs type l r any left right addr true_m m)
  then have "nat (r + 1 - (true_m + 1)) < nat (r + 1 - l)" using middle[of l r] by simp
  then show ?case unfolding in_measure prod.case by (rule count_down)
next
  case (4 stabs type l r any left right addr true_m m)
  then have "nat (m - 1 + 1 - l) < nat (r + 1 - l)"
    using middle[of l r] stab_back_range(1)[of stabs type l true_m] by simp
  then show ?case unfolding in_measure prod.case by (rule count_down)
next
  case (5 stabs type l r any left right addr true_m m)
  then have m: "l \<le> m" "n_value (stabs m) = addr" "m \<le> r"
    using middle[of l r] stab_back_range(1)[of stabs type l true_m] by simp_all
  show ?case
  proof (cases "m = l")
    case True
    then have "stab_back stabs type m ((m + r) div 2) = m" using 5 by simp
    then show ?thesis using 5 m True by simp
  next
    case False
    then have "nat (r + 1 - m) < nat (r + 1 - l)" using m by simp
    then show ?thesis unfolding in_measure prod.case by (rule count_down)
  qed
qed

declare stab_loop.simps [simp del]

definition stab_binsearch :: "(int \<Rightarrow> stab) \<Rightarrow> int \<Rightarrow> int \<Rightarrow> u8 \<Rightarrow> u32 \<Rightarrow> int \<times> int" where
  "stab_binsearch stabs left right type addr =
    (case stab_loop stabs type left right False left right addr of
       (False, left, right) \<Rightarrow> (left, left - 1)
     | (True, left, right) \<Rightarrow> (stab_back stabs type (left + 1) right, right))"

section \<open>What is found\<close>

text \<open>The stabs of the type in the range, and that they are in order of their addresses.\<close>

definition stab_match :: "(int \<Rightarrow> stab) \<Rightarrow> u8 \<Rightarrow> int \<Rightarrow> int \<Rightarrow> int \<Rightarrow> bool" where
  "stab_match stabs type left right i \<longleftrightarrow> left \<le> i \<and> i \<le> right \<and> n_type (stabs i) = type"

definition stabs_sorted :: "(int \<Rightarrow> stab) \<Rightarrow> u8 \<Rightarrow> int \<Rightarrow> int \<Rightarrow> bool" where
  "stabs_sorted stabs type left right \<longleftrightarrow>
    (\<forall>i j. stab_match stabs type left right i \<longrightarrow> stab_match stabs type left right j \<longrightarrow> i \<le> j \<longrightarrow>
       n_value (stabs i) \<le> n_value (stabs j))"

lemma stab_back_type: "l \<le> stab_back stabs type l m \<Longrightarrow> n_type (stabs (stab_back stabs type l m)) = type"
proof (induction stabs type l m rule: stab_back.induct)
  case (1 stabs type l m)
  show ?case
  proof (cases "m \<ge> l \<and> n_type (stabs m) \<noteq> type")
    case True
    then have "stab_back stabs type l m = stab_back stabs type l (m - 1)" by (subst stab_back.simps) simp
    then show ?thesis using 1 True by simp
  next
    case False
    then have "stab_back stabs type l m = m" by (subst stab_back.simps) auto
    then show ?thesis using 1(2) False by simp
  qed
qed

lemma stab_back_skips: "stab_back stabs type l m < i \<Longrightarrow> i \<le> m \<Longrightarrow> l \<le> i \<Longrightarrow> n_type (stabs i) \<noteq> type"
proof (induction stabs type l m rule: stab_back.induct)
  case (1 stabs type l m)
  show ?case
  proof (cases "m \<ge> l \<and> n_type (stabs m) \<noteq> type")
    case True
    then have "stab_back stabs type l m = stab_back stabs type l (m - 1)" by (subst stab_back.simps) simp
    then show ?thesis using 1 True by (cases "i = m") simp_all
  next
    case False
    then have "stab_back stabs type l m = m" by (subst stab_back.simps) auto
    then show ?thesis using 1(2,3) by simp
  qed
qed

definition loop_inv ::
  "(int \<Rightarrow> stab) \<Rightarrow> u8 \<Rightarrow> int \<Rightarrow> int \<Rightarrow> u32 \<Rightarrow> int \<Rightarrow> int \<Rightarrow> bool \<Rightarrow> int \<Rightarrow> int \<Rightarrow> u32 \<Rightarrow> bool" where
  "loop_inv stabs type left right addr l r any lf rt a \<longleftrightarrow>
    left \<le> l \<and> r \<le> right \<and> rt = r \<and> (a = addr \<or> a = addr + 1) \<and>
    (\<forall>i. stab_match stabs type left right i \<longrightarrow> i < l \<longrightarrow> any \<and> n_value (stabs i) \<le> addr) \<and>
    (\<forall>i. stab_match stabs type left right i \<longrightarrow> r < i \<longrightarrow> any \<and> addr < n_value (stabs i)) \<and>
    (r = right \<or> stab_match stabs type left right (r + 1)) \<and>
    (if any then left - 1 \<le> r \<and> (\<exists>i. stab_match stabs type left right i) else lf = left) \<and>
    (lf = left \<or> stab_match stabs type left right lf \<and> n_value (stabs lf) \<le> addr)"

lemma loop_invD:
  assumes "loop_inv stabs type left right addr l r any lf rt a"
  shows "left \<le> l" "r \<le> right" "rt = r" "a = addr \<or> a = addr + 1"
    "stab_match stabs type left right i \<Longrightarrow> i < l \<Longrightarrow> any \<and> n_value (stabs i) \<le> addr"
    "stab_match stabs type left right i \<Longrightarrow> r < i \<Longrightarrow> any \<and> addr < n_value (stabs i)"
    "r = right \<or> stab_match stabs type left right (r + 1)"
    "any \<Longrightarrow> left - 1 \<le> r \<and> (\<exists>i. stab_match stabs type left right i)" "\<not> any \<Longrightarrow> lf = left"
    "lf = left \<or> stab_match stabs type left right lf \<and> n_value (stabs lf) \<le> addr"
  using assms unfolding loop_inv_def by (simp_all split: if_splits)

lemma unat_succ_addr: "addr \<noteq> - 1 \<Longrightarrow> unat (addr + 1 :: u32) = Suc (unat addr)"
  using unatSuc[of addr] by (simp add: add.commute add_eq_0_iff)

lemma loop_inv_below:
  assumes inv: "loop_inv stabs type left right addr l r any lf rt a" and run: "l \<le> r" "m = stab_back stabs type l t" "t \<le> r" "l \<le> t"
    and none: "m < l"
  shows "loop_inv stabs type left right addr (t + 1) r any lf rt a"
proof -
  have "any \<and> n_value (stabs i) \<le> addr" if i: "stab_match stabs type left right i" "i < t + 1" for i
  proof (cases "i < l")
    case True
    then show ?thesis using loop_invD(5)[OF inv i(1)] by blast
  next
    case False
    then have "n_type (stabs i) \<noteq> type"
      using stab_back_skips[of stabs type l t i] run none i(2) by simp
    then show ?thesis using i(1) by (simp add: stab_match_def)
  qed
  then show ?thesis using inv run unfolding loop_inv_def by simp
qed

text \<open>A match at or below the address becomes the left result; the range then begins at \<open>l'\<close>.\<close>

lemma loop_inv_left:
  assumes inv: "loop_inv stabs type left right addr l r any lf rt a" and run: "l \<le> r" "m = stab_back stabs type l t" "t \<le> r" "l \<le> t"
    and sorted: "stabs_sorted stabs type left right"
    and found: "l \<le> m" "n_value (stabs m) \<le> addr" "m \<le> l'" "l' \<le> t + 1" "a' = addr \<or> a' = addr + 1"
  shows "loop_inv stabs type left right addr l' r True m rt a'"
proof -
  note inv' = loop_invD[OF inv]
  have mt: "m \<le> t" using stab_back_range(1)[of stabs type l t] run by simp
  then have match: "stab_match stabs type left right m"
    using stab_back_type[of l stabs type t] found(1) run inv'(1,2) by (simp add: stab_match_def)
  have "n_value (stabs i) \<le> addr" if i: "stab_match stabs type left right i" "i < l'" for i
  proof (cases "i \<le> m")
    case True
    then have "n_value (stabs i) \<le> n_value (stabs m)"
      using sorted match i(1) by (simp add: stabs_sorted_def)
    then show ?thesis using found(2) by simp
  next
    case False
    then have "n_type (stabs i) \<noteq> type"
      using stab_back_skips[of stabs type l t i] run found i(2) by simp
    then show ?thesis using i(1) by (simp add: stab_match_def)
  qed
  moreover have "addr < n_value (stabs i)" if "stab_match stabs type left right i" "r < i" for i
    using inv'(6)[OF that] by blast
  moreover have "left \<le> l'" "left - 1 \<le> r" using found(1,3) run inv'(1) by simp_all
  ultimately show ?thesis
    using inv'(2,3,7) match found(2,5) unfolding loop_inv_def by auto
qed

lemma loop_inv_right:
  assumes inv: "loop_inv stabs type left right addr l r any lf rt a" and run: "l \<le> r" "m = stab_back stabs type l t" "t \<le> r" "l \<le> t"
    and sorted: "stabs_sorted stabs type left right" and found: "l \<le> m" "addr < n_value (stabs m)"
  shows "loop_inv stabs type left right addr l (m - 1) True lf (m - 1) a"
proof -
  note inv' = loop_invD[OF inv]
  have mt: "m \<le> t" using stab_back_range(1)[of stabs type l t] run by simp
  then have match: "stab_match stabs type left right m"
    using stab_back_type[of l stabs type t] found(1) run inv'(1,2) by (simp add: stab_match_def)
  have "addr < n_value (stabs i)" if i: "stab_match stabs type left right i" "m - 1 < i" for i
  proof -
    have "n_value (stabs m) \<le> n_value (stabs i)"
      using sorted match i by (simp add: stabs_sorted_def)
    then show ?thesis using found(2) by simp
  qed
  moreover have "n_value (stabs i) \<le> addr" if "stab_match stabs type left right i" "i < l" for i
    using inv'(5)[OF that] by blast
  ultimately show ?thesis
    using inv'(1,2,4,10) mt run match found(1) unfolding loop_inv_def by auto
qed

lemma stab_loop_inv:
  assumes "loop_inv stabs type left right addr l r any lf rt a"
    and "stabs_sorted stabs type left right" "addr \<noteq> - 1"
    and "\<forall>i. stab_match stabs type left right i \<longrightarrow> n_value (stabs i) \<noteq> addr + 1"
  shows "case stab_loop stabs type l r any lf rt a of (any', lf', rt') \<Rightarrow>
    \<exists>l' r' a'. r' < l' \<and> loop_inv stabs type left right addr l' r' any' lf' rt' a'"
  using assms
proof (induction stabs type l r any lf rt a rule: stab_loop.induct)
  case (1 stabs type l r any lf rt a)
  note inv = "1.prems"(1) and prems = "1.prems"(2-)
  note inv' = loop_invD[OF inv]
  let ?t = "(l + r) div 2" let ?m = "stab_back stabs type l ?t"
  show ?case
  proof (cases "l \<le> r")
    case False
    then show ?thesis using inv by (subst stab_loop.simps) (auto simp: not_le)
  next
    case True
    note run = True refl[of ?m] conjunct2[OF middle[OF True]] conjunct1[OF middle[OF True]]
    have next_addr: "v \<le> addr" if "v < a" for v
      using inv'(4) that unat_succ_addr[OF prems(2)] by (auto simp: word_less_nat_alt word_le_nat_alt)
    have addr_le: "addr \<le> a"
      using inv'(4) unat_succ_addr[OF prems(2)] by (auto simp: word_le_nat_alt)
    consider (none) "?m < l" | (less) "l \<le> ?m" "n_value (stabs ?m) < a" | (more) "l \<le> ?m" "n_value (stabs ?m) > a"
      | (eq) "l \<le> ?m" "n_value (stabs ?m) = a" by fastforce
    then show ?thesis
    proof cases
      case none
      then show ?thesis
        using "1.IH"(1)[OF True refl refl none loop_inv_below[OF inv run none] prems] True
        by (subst stab_loop.simps) (simp add: Let_def)
    next
      case less
      have "loop_inv stabs type left right addr (?t + 1) r True ?m rt a"
        using loop_inv_left[OF inv run prems(1) less(1) next_addr[OF less(2)] _ order_refl inv'(4)]
          stab_back_range(1)[of stabs type l ?t] by simp
      then show ?thesis
        using "1.IH"(2)[OF True refl refl _ less(2) _ prems] True less
        by (subst stab_loop.simps) (simp add: Let_def not_less)
    next
      case more
      have "loop_inv stabs type left right addr l (?m - 1) True lf (?m - 1) a"
        using loop_inv_right[OF inv run prems(1) more(1)] order.strict_trans1[OF addr_le more(2)] by simp
      then show ?thesis
        using "1.IH"(3)[OF True refl refl _ _ more(2) _ prems] True more(1,2) less_not_sym[OF more(2)]
        by (subst stab_loop.simps) (simp add: Let_def)
    next
      case eq
      have "stab_match stabs type left right ?m"
        using eq(1) stab_back_type[OF eq(1)] stab_back_range(1)[of stabs type l ?t] run inv'(1,2) by (simp add: stab_match_def)
      then have "a = addr" using inv'(4) eq(2) prems(3) by blast
      then have "loop_inv stabs type left right addr ?m r True ?m rt (a + 1)"
        using loop_inv_left[OF inv run prems(1) eq(1) _ order_refl] eq stab_back_range(1)[of stabs type l ?t] by simp
      then show ?thesis
        using "1.IH"(4)[OF True refl refl _ _ _ _ prems] True eq
        by (subst stab_loop.simps) (simp add: Let_def not_less)
    qed
  qed
qed

text \<open>
  The binary search finds the region of an address. In a range whose stabs of the type are in order of their
  addresses, none of them exactly one byte after the address, the search ends with \<open>r'\<close> such that the stabs of the
  type up to \<open>r'\<close> are those at or below the address, and with \<open>l'\<close> the last of them (the start of the range if
  all are above it); the stab after \<open>r'\<close> is the next of the type, or the range ends there. Without any stab of
  the type the right end is before the left end.
\<close>

theorem stab_binsearch_brackets:
  "stabs_sorted stabs type left right \<and> addr \<noteq> - 1 \<and>
   (\<forall>i. stab_match stabs type left right i \<longrightarrow> n_value (stabs i) \<noteq> addr + 1) \<Longrightarrow>
   (case stab_binsearch stabs left right type addr of (l', r') \<Rightarrow>
      if \<exists>i. stab_match stabs type left right i
      then (\<forall>i. stab_match stabs type left right i \<longrightarrow> (n_value (stabs i) \<le> addr \<longleftrightarrow> i \<le> r')) \<and>
           (r' = right \<or> stab_match stabs type left right (r' + 1)) \<and>
           (if \<exists>i\<le>r'. stab_match stabs type left right i
            then stab_match stabs type left right l' \<and> l' \<le> r' \<and>
                 (\<forall>i. stab_match stabs type left right i \<longrightarrow> i \<le> r' \<longrightarrow> i \<le> l')
            else l' = min left r')
      else l' = left \<and> r' = left - 1)"
proof -
  assume a: "stabs_sorted stabs type left right \<and> addr \<noteq> - 1 \<and>
   (\<forall>i. stab_match stabs type left right i \<longrightarrow> n_value (stabs i) \<noteq> addr + 1)"
  let ?match = "stab_match stabs type left right"
  obtain any lf rt where loop: "stab_loop stabs type left right False left right addr = (any, lf, rt)"
    by (metis surj_pair)
  have "loop_inv stabs type left right addr left right False left right addr"
    by (simp add: loop_inv_def stab_match_def)
  from stab_loop_inv[OF this] a loop obtain l r a' where "r < l"
      and inv: "loop_inv stabs type left right addr l r any lf rt a'" by auto
  note inv' = loop_invD[OF inv]
  have split: "any \<and> (n_value (stabs i) \<le> addr \<longleftrightarrow> i \<le> r)" if "?match i" for i
    using inv'(5,6)[OF that] \<open>r < l\<close> by (cases "i \<le> r") (auto simp: not_le)
  show ?thesis
  proof (cases any)
    case False
    then show ?thesis using split inv'(9) loop by (auto simp: stab_binsearch_def)
  next
    case True
    let ?l = "stab_back stabs type (left + 1) r"
    let ?l' = "stab_back stabs type (lf + 1) r"
    have res: "stab_binsearch stabs left right type addr = (?l', r)"
      using loop True inv'(3) by (simp add: stab_binsearch_def)
    have lf: "lf \<le> r \<or> lf = left" "?match lf \<or> lf = left"
      using inv'(10) split by blast+
    have l': "lf \<le> r \<Longrightarrow> lf \<le> ?l'" "r < lf \<Longrightarrow> ?l' = r" "?l' \<le> r"
      using stab_back_range(1)[of stabs type "lf + 1" r] stab_back_range(2)[of "lf + 1" r stabs type] stab_back.simps[of stabs type "lf + 1" r] by force+
    have type: "?match ?l'" if "lf < ?l'"
      using stab_back_type[of "lf + 1" stabs type r] that lf(2) l'(3) inv'(2) by (auto simp: stab_match_def)
    have skip: "\<not> ?match i" if "?l' < i" "i \<le> r" "lf < i" for i
      using stab_back_skips[of stabs type "lf + 1" r i] that by (simp add: stab_match_def)
    have low: "left \<le> i" if "?match i" for i
      using that by (simp add: stab_match_def)
    have last: "if \<exists>i\<le>r. ?match i then ?match ?l' \<and> ?l' \<le> r \<and> (\<forall>i. ?match i \<longrightarrow> i \<le> r \<longrightarrow> i \<le> ?l') else ?l' = min left r"
    proof (cases "\<exists>i\<le>r. ?match i")
      case True
      then obtain i where i: "i \<le> r" "?match i" by blast
      have "lf \<le> r" using lf(1) low[OF i(2)] i(1) by linarith
      have "?match ?l'"
      proof (cases "lf < ?l'")
        case False
        then have "?l' = lf" using l'(1)[OF \<open>lf \<le> r\<close>] by simp
        then have "lf = i \<or> ?match lf" using skip[of i] i lf(2) low[OF i(2)] by linarith
        then show ?thesis using i \<open>?l' = lf\<close> by auto
      qed (rule type)
      moreover have "j \<le> ?l'" if "?match j" "j \<le> r" for j
        using skip[of j] that l'(1)[OF \<open>lf \<le> r\<close>] by linarith
      ultimately show ?thesis using True l'(3) by simp
    next
      case False
      then have "\<not> ?match ?l'" using l'(3) by blast
      then have "?l' \<le> lf" using type by (meson not_le)
      then have "?l' = min lf r" using l' by (cases "lf \<le> r") (simp_all add: order.antisym)
      moreover have "lf = left" using lf False by blast
      ultimately show ?thesis using False by simp
    qed
    show ?thesis
      unfolding res using inv'(3,7,8)[OF] True split last by auto
  qed
qed

definition demo_stabs :: "int \<Rightarrow> stab" where
  "demo_stabs i = \<lparr>n_strx = 0, n_type = (if even i then N_SO else N_FUN), n_other = 0, n_desc = 0,
     n_value = 0xf0100000 + 16 * of_int i\<rparr>"

lemma demo_match: "stab_match demo_stabs N_SO 0 3 i \<longleftrightarrow> i = 0 \<or> i = 2"
proof -
  have "0 \<le> i \<and> i \<le> 3 \<longleftrightarrow> i = 0 \<or> i = 1 \<or> i = 2 \<or> i = 3"
    by presburger
  then show ?thesis
    by (auto simp: stab_match_def demo_stabs_def N_SO_def N_FUN_def)
qed

theorem stab_binsearch_brackets_witness:
  "stab_binsearch demo_stabs 0 3 N_SO 0xf0100005 = (0, 1)"
proof -
  obtain l r where lr: "stab_binsearch demo_stabs 0 3 N_SO 0xf0100005 = (l, r)"
    by (metis surj_pair)
  have "stabs_sorted demo_stabs N_SO 0 3"
    unfolding stabs_sorted_def demo_match by (auto simp: demo_stabs_def)
  moreover have "\<forall>i. stab_match demo_stabs N_SO 0 3 i \<longrightarrow> n_value (demo_stabs i) \<noteq> 0xf0100005 + 1"
    unfolding demo_match by (auto simp: demo_stabs_def)
  ultimately have res: "n_value (demo_stabs 0) \<le> 0xf0100005 \<longleftrightarrow> 0 \<le> r"
      "n_value (demo_stabs 2) \<le> 0xf0100005 \<longleftrightarrow> 2 \<le> r" "r = 3 \<or> r + 1 = 0 \<or> r + 1 = 2"
      "0 \<le> r \<Longrightarrow> (l = 0 \<or> l = 2) \<and> l \<le> r"
    using stab_binsearch_brackets[of demo_stabs N_SO 0 3 "0xf0100005"]
    unfolding lr demo_match by (auto split: if_splits)
  have "n_value (demo_stabs 0) \<le> 0xf0100005" "\<not> n_value (demo_stabs 2) \<le> 0xf0100005"
    by (simp_all add: demo_stabs_def)
  with res have "r = 1" "l = 0" by presburger+
  then show ?thesis unfolding lr by simp
qed

text \<open>Functions of one byte each.\<close>

definition short_functions :: "int \<Rightarrow> stab" where
  "short_functions i = \<lparr>n_strx = 0, n_type = N_FUN, n_other = 0, n_desc = 0, n_value = 0xf0100000 + of_int i\<rparr>"

lemma short_functions_sorted: "stabs_sorted short_functions N_FUN 0 3"
proof -
  have "0 \<le> i \<and> i \<le> 3 \<longleftrightarrow> i = 0 \<or> i = 1 \<or> i = 2 \<or> i = (3 :: int)" for i
    by presburger
  then have "stab_match short_functions N_FUN 0 3 i \<longleftrightarrow> i = 0 \<or> i = 1 \<or> i = 2 \<or> i = 3" for i
    by (auto simp: stab_match_def short_functions_def)
  then show ?thesis
    unfolding stabs_sorted_def by (auto simp: short_functions_def)
qed

text \<open>
  Stabs of the type at neighbouring addresses break the search: when the address is that of the first, the
  incremented address matches the next one too, and so on; the search for a function of one byte returns a function two
  further on.
\<close>

theorem stab_binsearch_neighbour_missed:
  "stabs_sorted short_functions N_FUN 0 3 \<and> n_value (short_functions 1) = 0xf0100001 \<and>
   stab_binsearch short_functions 0 3 N_FUN 0xf0100001 = (3, 3)"
proof -
  have "stab_binsearch short_functions 0 3 N_FUN 0xf0100001 = (3, 3)"
    by code_simp
  then show ?thesis
    using short_functions_sorted by (simp add: short_functions_def)
qed

section \<open>Looking up an instruction\<close>

text \<open>Pointers to names are the bytes that they point to; a string table is the list of its bytes.\<close>

record eipdebuginfo =
  eip_file :: "u8 list"
  eip_line :: nat
  eip_fn_name :: "u8 list"
  eip_fn_namelen :: nat
  eip_fn_addr :: u32
  eip_fn_narg :: nat

definition unknown_name :: "u8 list" where
  "unknown_name = map of_char ''<unknown>'' @ [0]"

definition debuginfo_init :: "u32 \<Rightarrow> eipdebuginfo" where
  "debuginfo_init addr = \<lparr>eip_file = unknown_name, eip_line = 0, eip_fn_name = unknown_name, eip_fn_namelen = 9,
     eip_fn_addr = addr, eip_fn_narg = 0\<rparr>"

function file_back :: "(int \<Rightarrow> stab) \<Rightarrow> int \<Rightarrow> int \<Rightarrow> int" where
  "file_back stabs lfile lline =
    (if lline \<ge> lfile \<and> n_type (stabs lline) \<noteq> N_SOL \<and> (n_type (stabs lline) \<noteq> N_SO \<or> n_value (stabs lline) = 0)
     then file_back stabs lfile (lline - 1) else lline)"
  by auto
termination by (relation "measure (\<lambda>(stabs, lfile, lline). nat (lline - lfile + 1))") auto

function count_args :: "(int \<Rightarrow> stab) \<Rightarrow> int \<Rightarrow> int \<Rightarrow> nat" where
  "count_args stabs rfun lline =
    (if lline < rfun \<and> n_type (stabs lline) = N_PSYM then 1 + count_args stabs rfun (lline + 1) else 0)"
  by auto
termination by (relation "measure (\<lambda>(stabs, rfun, lline). nat (rfun - lline))") auto

declare file_back.simps [simp del] count_args.simps [simp del]

text \<open>
  \<open>debuginfo_eip\<close> from the check of the string table on, with the table of \<open>n\<close> stabs. The line number is never
  looked for. None is a table whose string does not end.
\<close>

definition debuginfo_search :: "(int \<Rightarrow> stab) \<Rightarrow> int \<Rightarrow> u8 list \<Rightarrow> u32 \<Rightarrow> (bool \<times> eipdebuginfo) option" where
  "debuginfo_search stabs n stabstr addr =
    (let info = debuginfo_init addr;
         name = (\<lambda>i old. if unat (n_strx (stabs i)) < length stabstr then drop (unat (n_strx (stabs i))) stabstr else old)
     in if stabstr = [] \<or> last stabstr \<noteq> 0 then Some (False, info)
        else
          let (lfile, rfile) = stab_binsearch stabs 0 (n - 1) N_SO addr
          in if lfile = 0 then Some (False, info)
             else
               let (lfun, rfun) = stab_binsearch stabs lfile rfile N_FUN addr;
                   (info, lline) =
                     (if lfun \<le> rfun
                      then (info\<lparr>eip_fn_name := name lfun (eip_fn_name info), eip_fn_addr := n_value (stabs lfun)\<rparr>, lfun)
                      else (info\<lparr>eip_fn_addr := addr\<rparr>, lfile))
               in do {
                 len \<leftarrow> strfind (eip_fn_name info) 58;
                 let info = info\<lparr>eip_fn_namelen := len\<rparr>;
                     lline = file_back stabs lfile lline;
                     info = (if lline \<ge> lfile then info\<lparr>eip_file := name lline (eip_file info)\<rparr> else info);
                     info = (if lfun < rfun then info\<lparr>eip_fn_narg := count_args stabs rfun (lfun + 1)\<rparr> else info)
                 in Some (True, info)
               })"

text \<open>
  The checks of the tables of a user program. The lengths are those of the pointers' differences: for the stabs, of 12
  bytes each, the number of entries.
\<close>

record user_stab_data =
  usd_stabs :: u32
  usd_stab_end :: u32
  usd_stabstr :: u32
  usd_stabstr_end :: u32

definition USTABDATA :: u32 where "USTABDATA = 0x200000"

definition user_stabs_ok :: "nat \<Rightarrow> user_stab_data \<Rightarrow> 'z pmem_scheme \<Rightarrow> bool option" where
  "user_stabs_ok pgdir usd s = do {
     r \<leftarrow> user_mem_check pgdir USTABDATA 16 PTE_U s;
     case r of
       Inl _ \<Rightarrow> Some False
     | Inr _ \<Rightarrow> do {
         r \<leftarrow> user_mem_check pgdir (usd_stabs usd) (word_of_int (sint (usd_stab_end usd - usd_stabs usd) sdiv 12)) PTE_U s;
         case r of
           Inl _ \<Rightarrow> Some False
         | Inr _ \<Rightarrow> do {
             r \<leftarrow> user_mem_check pgdir (usd_stabstr usd) (usd_stabstr_end usd - usd_stabstr usd) PTE_U s;
             Some (case r of Inl _ \<Rightarrow> False | Inr _ \<Rightarrow> True)
           }
       }
   }"

text \<open>
  The tables are those of the kernel or those that the user program names: their stabs, how many there are, and the string
  table.
\<close>

type_synonym debug_tables = "(int \<Rightarrow> stab) \<times> int \<times> u8 list"

definition debuginfo_eip ::
  "debug_tables \<Rightarrow> debug_tables \<Rightarrow> user_stab_data \<Rightarrow> nat \<Rightarrow> u32 \<Rightarrow> 'z pmem_scheme \<Rightarrow> (bool \<times> eipdebuginfo) option" where
  "debuginfo_eip ktabs utabs usd pgdir addr s =
    (if addr \<ge> ULIM then (case ktabs of (stabs, n, str) \<Rightarrow> debuginfo_search stabs n str addr)
     else do {
       ok \<leftarrow> user_stabs_ok pgdir usd s;
       if ok then (case utabs of (stabs, n, str) \<Rightarrow> debuginfo_search stabs n str addr)
       else Some (False, debuginfo_init addr)
     })"

end
