(* ===== verification/Spec2Isabelle.thy ===== *)
theory Spec2Isabelle
  imports Syscall_Props Fork_Props Cstring Spinlock Ph_Props Fd_Props Pipe_Open_Props Jos_Shell_Props User_Input E1000_Props Fs_Cache Fs_Server_Props Pipe_Close Console_Props Kmalloc_Props Kdebug
begin

text \<open>
  A verification library for JOS, the teaching operating system of \<^verbatim>\<open>lab6/jos\<close>: an exokernel whose kernel only
  multiplexes pages, environments (processes), messages and devices, and whose processes, file server
  and file descriptors are user-level code on top of some thirty system calls.

  \<^bold>\<open>The program and the theories.\<close> Paths are below \<^verbatim>\<open>src/lab6/jos\<close> unless they begin with
  \<^verbatim>\<open>src\<close>.

  \<^item> \<open>Jos_Prelude\<close> holds the integer types as words, the error numbers of \<^verbatim>\<open>inc/error.h\<close>, the rounding
    macros of \<^verbatim>\<open>inc/types.h\<close>, and linked lists through NULL-terminated fields (\<open>chain\<close>). \<open>Mmu\<close> has
    the paging macros of \<^verbatim>\<open>inc/mmu.h\<close> and the layout of \<^verbatim>\<open>inc/memlayout.h\<close>. \<open>Resource_Pool\<close>
    is the contract, a locale, that the physical page allocator and the disk's block allocator both fulfil.
  \<^item> Physical memory, \<^verbatim>\<open>kern/pmap.c\<close>: \<open>Page_Alloc\<close> (\<open>boot_alloc\<close>, \<open>page_init\<close>, \<open>page_alloc\<close>,
    \<open>page_free\<close>, \<open>page_decref\<close> over the record \<open>pmem\<close>: the array \<open>pages\<close>, \<open>page_free_list\<close> and the words
    of every frame) and \<open>Page_Table\<close> (\<open>pgdir_walk\<close>, \<open>page_lookup\<close>, \<open>page_insert\<close>, \<open>page_remove\<close>,
    \<open>boot_map_region\<close>, \<open>mmio_map_region\<close>, \<open>user_mem_check\<close>). \<open>Vm_Invariant\<close> says that the reference count
    of each page is the number of page table entries, page directories and other holders that refer to it;
    \<open>Address_Space\<close> reads a page directory as the map \<open>user_pte\<close> from addresses to entries and shows what
    each operation does to that map; \<open>User_Check\<close> states the properties of the operations.
  \<^item> Environments: \<open>Env\<close> (\<^verbatim>\<open>kern/env.c\<close>, with the records of \<^verbatim>\<open>inc/env.h\<close>, \<^verbatim>\<open>inc/trap.h\<close> and
    \<^verbatim>\<open>kern/cpu.h\<close>: the kernel's whole state \<open>kernel\<close> extends \<open>pmem\<close>), \<open>Env_Free\<close> and
    \<open>Env_Table\<close> (what freeing and allocating does to memory and to the table; the kernel invariant \<open>kinv\<close>
    of reference counts, environment table and snapshots), \<open>Demo_Kernel\<close> (a small concrete kernel on which
    the witnesses run), \<open>Spinlock\<close> (\<^verbatim>\<open>kern/spinlock.c\<close>) and \<open>Sched\<close> (\<^verbatim>\<open>kern/sched.c\<close>, and
    \<open>env_run\<close> and \<open>env_destroy\<close>).
  \<^item> The kernel's interface: \<open>Syscalls\<close> and \<open>Syscall_Props\<close> (\<^verbatim>\<open>kern/syscall.c\<close> on environments,
    memory, messages and time), \<open>Phys_Bytes\<close>, \<open>Snapshot\<close> and \<open>Snapshot_Props\<close> (checkpoints of processes),
    \<open>E1000\<close> and \<open>E1000_Props\<close> (\<^verbatim>\<open>kern/e1000.c\<close>), \<open>Trap\<close> and \<open>Trap_Props\<close> (the dispatch of
    system calls, \<^verbatim>\<open>kern/trap.c\<close>).
  \<^item> Other parts of the kernel: \<open>Kmalloc\<close> and \<open>Kmalloc_Props\<close> (\<^verbatim>\<open>kern/kmalloc.c\<close>), \<open>Console\<close> and
    \<open>Console_Props\<close> (\<^verbatim>\<open>kern/console.c\<close>), \<open>Kdebug\<close> (\<^verbatim>\<open>kern/kdebug.c\<close>).
  \<^item> The file server: \<open>Fs_Disk\<close>, \<open>Fs_File\<close>, \<open>Fs_Paths\<close>, \<open>Fs_Rw\<close> (\<^verbatim>\<open>fs/fs.c\<close>: the free block
    bitmap, files and their block pointers, directories and paths), \<open>Fs_Cache\<close> (\<^verbatim>\<open>fs/bc.c\<close>),
    \<open>Fs_Server\<close> and \<open>Fs_Server_Props\<close> (\<^verbatim>\<open>fs/serv.c\<close>).
  \<^item> The library of user programs: \<open>Printfmt\<close> (\<^verbatim>\<open>lib/printfmt.c\<close>), \<open>Cstring\<close> (\<^verbatim>\<open>lib/string.c\<close>),
    \<open>Pipe\<close> and \<open>Pipe_Close\<close> (\<^verbatim>\<open>lib/pipe.c\<close>; the latter is the check of the other end, read by read and with its retry, with
    the mappings made by \<^verbatim>\<open>lib/fd.c\<close> and \<^verbatim>\<open>lib/fork.c\<close>, by processes on any number of CPUs), \<open>Pipe_Open\<close> and \<open>Pipe_Open_Props\<close> (\<open>pipe\<close> of \<^verbatim>\<open>lib/pipe.c\<close> over the
    system calls), \<open>Fork\<close>, \<open>Fork_Fault\<close> and \<open>Fork_Props\<close> (\<^verbatim>\<open>lib/fork.c\<close> and \<^verbatim>\<open>lib/pgfault.c\<close>: copy on write
    over the system calls, the fault handler, and \<open>fork\<close> with its own stores to the stack, the first of which after the round for the stack
    page faults; the exception stack's page is not followed), \<open>Fd\<close> and \<open>Fd_Props\<close> (\<^verbatim>\<open>lib/fd.c\<close>), \<open>User_Input\<close> (\<^verbatim>\<open>lib/args.c\<close>,
    \<^verbatim>\<open>lib/readline.c\<close>).
  \<^item> Shells: \<open>Shell\<close> and \<open>Shell_Props\<close> (\<^verbatim>\<open>src/hw1_shell/sh.c\<close>), \<open>Jos_Shell\<close> and \<open>Jos_Shell_Props\<close>
    (\<^verbatim>\<open>user/sh.c\<close>), over one model of a table of open files.
  \<^item> The homework on threads, \<^verbatim>\<open>src/hw_multithreaded_programming/ph.c\<close>: \<open>Ph_Table\<close> and \<open>Ph_Props\<close>.

  \<^bold>\<open>How the code is translated.\<close> A C function that changes state is a function from the state to the
  new state; the result of type \<open>option\<close> is None where the code panics or faults, and an error code is
  the left value of a sum, \<open>Inl E_INVAL\<close>. C integers are words of their width, so that they wrap as the
  code does; where \<open>Printfmt\<close> and \<open>Cstring\<close> compute with signed numbers whose overflow C leaves open, an overflow is None (\<open>c_int\<close>). Pointers into the kernel's arrays are indices, a NULL pointer None. Physical memory is a
  function from frame numbers to 1024 words each, and page tables are frames in it: the operations read and write
  the entries where the code does. Concurrency appears where the code has it, as a relation between
  states whose steps are the code's atomic accesses: the spin lock, the two ends of a pipe, the check of a pipe's other end and the threads of the hash table.

  \<^bold>\<open>What is shown.\<close>

  \<^item> Memory is accounted for: \<open>kinv\<close> is kept by every modelled system call that is proved about, freeing an
    environment returns all its pages and no other, a page on the free list is mapped nowhere, and
    insertion, removal, sharing and allocation change exactly the one mapping they name.
  \<^item> Isolation: only a process or its parent can change it; a read-only page cannot be shared writable;
    \<open>user_mem_check\<close> accepts only what the process may access (a last byte that begins a page excepted).
  \<^item> Scheduling is round robin after the environment that ran and starves nobody as long as the CPU's environment does not
    change between the calls (after \<open>env_destroy\<close> of the running one the search begins at slot 0 again); the lock excludes; messages are delivered once; the frame of a
    page fault is built on the exception stack.
  \<^item> Snapshots: resuming restores the memory and registers of the moment the snapshot was taken.
  \<^item> Copy on write: after \<open>fork\<close> the child has the parent's memory, and a write to a shared page goes to a private copy; \<open>fork\<close> itself makes one of
    its stack.
  \<^item> The concurrent hash table loses no key and its threads are never all waiting.
  \<^item> Descriptors are shared by \<open>dup\<close> and nothing else changes; \<open>pipe\<close> opens two that share one fresh page of data; both shells connect the stages of a pipeline and give
    each of them the redirections stated; the first one's recursive descent reads what a one-pass reading of the tokens does.
  \<^item> Allocators: the page allocator, the kernel heap and the disk's bitmap hand out what nobody has.
  \<^item> Files: what is written is read back, at the level of blocks, files and requests; the block cache is
    transparent; paths resolve component by component.
  \<^item> Library: moving overlapping memory, printing and parsing of numbers, bounded printing, pipes as
    queues whose ends do not look closed early on one CPU without \<open>fork\<close> (with a second CPU or \<open>fork\<close> they can), console input as a queue.
  \<^item> Where the code falls short, a theorem states how (the properties of kind error).

  \<^bold>\<open>Bounds and termination.\<close> All loops are recursive functions that terminate, with measures where the
  recursion is not structural. Where a list in memory could be circular (the kernel heap) or the code can
  spin (\<open>partial_function\<close>), None stands for not returning, and the theorems state that a value is
  returned. Runs of the page loops are bounded by the number of pages of the range. No fuel is used
  beyond lengths that the code itself bounds.

  \<^bold>\<open>Not modelled.\<close>

  \<^item> What is only port or memory-mapped I/O of devices outside the repository: \<^verbatim>\<open>kern/lapic.c\<close>,
    \<^verbatim>\<open>kern/picirq.c\<close>, \<^verbatim>\<open>kern/pci.c\<close>, \<^verbatim>\<open>kern/kclock.c\<close>, \<^verbatim>\<open>fs/ide.c\<close>. The
    disk is a parameter that may fail; the card's side of its rings is a relation on what it may write.
  \<^item> Boot: \<^verbatim>\<open>boot/\<close>, \<^verbatim>\<open>kern/entry.S\<close>, \<^verbatim>\<open>kern/init.c\<close>, \<open>mem_init\<close>, the ELF images of
    \<open>load_icode\<close>: they run once, before the state the model starts from.
  \<^item> \<^verbatim>\<open>net/lwip\<close>, a third-party stack, and the JOS servers around it, which pass its packets on by messages.
  \<^item> Of the library of user programs, \<^verbatim>\<open>lib/malloc.c\<close>, a heap that only \<^verbatim>\<open>user/httpd.c\<close>, \<^verbatim>\<open>net/serv.c\<close> and
    its test call, \<^verbatim>\<open>lib/spawn.c\<close>, which loads ELF
    images, and the thin wrappers around messages and system calls; \<^verbatim>\<open>fs/fsformat.c\<close>, a tool of the build.
  \<^item> \<^verbatim>\<open>kern/monitor.c\<close>, an interactive debugger, the test programs of \<^verbatim>\<open>user/\<close> and the
    earlier labs, whose code is that of lab 6 at earlier stages.
\<close>

end
